(* ===== verification/Prelude.thy ===== *)
theory Prelude
  imports Main "HOL-Library.Word"
begin

section \<open>Shared vocabulary of the kernel model\<close>

text \<open>
  This theory names the machine types of \<^verbatim>\<open>lib/stdint.h\<close> and \<^verbatim>\<open>lib/global.h\<close>, the outcome of a
  kernel call, and the access to an array.

  A kernel call that returns gives \<open>Inr\<close> of its result. A call that does not return gives
  \<open>Inl\<close> of the reason:
  \<^item> \<open>Assert_Fail\<close>: an \<^verbatim>\<open>ASSERT\<close> or a \<^verbatim>\<open>PANIC\<close> fired (\<^verbatim>\<open>panic_spin\<close> switches interrupts off,
    prints the place and spins for ever);
  \<^item> \<open>Bad_Access\<close>: the code reads or writes outside the object it works on, or through a
    null pointer, which C leaves undefined;
  \<^item> \<open>Would_Block\<close>: the calling thread would have to wait for another thread at this point
    (used where a component is modelled for one thread only);
  \<^item> \<open>Diverge\<close>: the code loops for ever at this point.
\<close>

unbundle bit_operations_syntax

subsection \<open>Machine types\<close>

type_synonym u8 = "8 word"
type_synonym u16 = "16 word"
type_synonym u32 = "32 word"

text \<open>A buffer is a C object of bytes; a pointer into it is an offset.\<close>

type_synonym buf = "u8 list"

definition PAGE_SIZE :: u32 where
  "PAGE_SIZE = 4096"

text \<open>\<^verbatim>\<open>DIV_ROUND_UP(x, STEP)\<close>, with the wrap-around of \<^verbatim>\<open>uint32_t\<close>.\<close>

definition DIV_ROUND_UP :: "u32 \<Rightarrow> u32 \<Rightarrow> u32" where
  "DIV_ROUND_UP x s = (x + s - 1) div s"

subsection \<open>Outcomes\<close>

datatype fault = Assert_Fail | Bad_Access | Would_Block | Diverge

type_synonym 'a res = "fault + 'a"

definition bindR :: "'a res \<Rightarrow> ('a \<Rightarrow> 'b res) \<Rightarrow> 'b res" where
  "bindR m f = (case m of Inl e \<Rightarrow> Inl e | Inr x \<Rightarrow> f x)"

text \<open>\<^verbatim>\<open>ASSERT(c)\<close> followed by the rest of the body.\<close>

definition ASSERT :: "bool \<Rightarrow> 'a res \<Rightarrow> 'a res" where
  "ASSERT c k = (if c then k else Inl Assert_Fail)"

named_theorems res_simps \<open>rules that run a model forward\<close>
named_theorems res_elims \<open>rules that take a run of a model apart\<close>

lemma bindR_Inl [simp, res_simps]: "bindR (Inl e) f = Inl e"
  by (simp add: bindR_def)

lemma bindR_Inr [simp, res_simps]: "bindR (Inr x) f = f x"
  by (simp add: bindR_def)

lemma bindR_eq_Inr [res_elims]: "bindR m f = Inr y \<longleftrightarrow> (\<exists>x. m = Inr x \<and> f x = Inr y)"
  by (cases m) auto

lemma bindR_eq_Inl [res_elims]:
  "bindR m f = Inl e \<longleftrightarrow> m = Inl e \<or> (\<exists>x. m = Inr x \<and> f x = Inl e)"
  by (cases m) auto

lemma bindR_assoc: "bindR (bindR m f) g = bindR m (\<lambda>x. bindR (f x) g)"
  by (cases m) auto

lemma bindR_cong [fundef_cong]:
  assumes "m = m'" and "\<And>x. m' = Inr x \<Longrightarrow> f x = f' x"
  shows "bindR m f = bindR m' f'"
  using assms by (cases m') auto

lemma ASSERT_True [simp, res_simps]: "ASSERT True k = k"
  by (simp add: ASSERT_def)

lemma ASSERT_False [simp, res_simps]: "ASSERT False k = Inl Assert_Fail"
  by (simp add: ASSERT_def)

lemma ASSERT_eq_Inr [res_elims]: "ASSERT c k = Inr y \<longleftrightarrow> c \<and> k = Inr y"
  by (simp add: ASSERT_def)

lemma ASSERT_cong [fundef_cong]:
  assumes "c = c'" and "c' \<Longrightarrow> k = k'"
  shows "ASSERT c k = ASSERT c' k'"
  using assms by (simp add: ASSERT_def)

subsection \<open>Array access\<close>

text \<open>\<open>xs[i]\<close> for reading and writing: undefined in C outside the array.\<close>

definition rd :: "'a list \<Rightarrow> nat \<Rightarrow> 'a res" where
  "rd xs i = (if i < length xs then Inr (xs ! i) else Inl Bad_Access)"

definition wr :: "'a list \<Rightarrow> nat \<Rightarrow> 'a \<Rightarrow> 'a list res" where
  "wr xs i v = (if i < length xs then Inr (xs[i := v]) else Inl Bad_Access)"

lemma rd_ok [simp, res_simps]: "i < length xs \<Longrightarrow> rd xs i = Inr (xs ! i)"
  by (simp add: rd_def)

lemma rd_bad [simp, res_simps]: "\<not> i < length xs \<Longrightarrow> rd xs i = Inl Bad_Access"
  by (simp add: rd_def)

lemma wr_ok [simp, res_simps]: "i < length xs \<Longrightarrow> wr xs i v = Inr (xs[i := v])"
  by (simp add: wr_def)

lemma wr_bad [simp, res_simps]: "\<not> i < length xs \<Longrightarrow> wr xs i v = Inl Bad_Access"
  by (simp add: wr_def)

lemma rd_eq_Inr [res_elims]: "rd xs i = Inr x \<longleftrightarrow> i < length xs \<and> x = xs ! i"
  by (auto simp: rd_def)

lemma wr_eq_Inr [res_elims]: "wr xs i v = Inr ys \<longleftrightarrow> i < length xs \<and> ys = xs[i := v]"
  by (auto simp: wr_def)

subsection \<open>Words as numbers\<close>

lemma unat_add_small:
  fixes a b :: "'w::len word"
  assumes "unat a + unat b < 2 ^ LENGTH('w)"
  shows "unat (a + b) = unat a + unat b"
  using assms by (simp add: unat_word_ariths)

lemma unat_mult_small:
  fixes a b :: "'w::len word"
  assumes "unat a * unat b < 2 ^ LENGTH('w)"
  shows "unat (a * b) = unat a * unat b"
  using assms by (simp add: unat_word_ariths)

lemma unat_sub_small:
  fixes a b :: "'w::len word"
  assumes "unat b \<le> unat a"
  shows "unat (a - b) = unat a - unat b"
  using assms by (simp add: unat_sub word_le_nat_alt)

lemma unat_u32_lt: "unat (w :: u32) < 2 ^ 32"
  using unsigned_less [of w] by simp

lemma u32_plus_1: "unat (i::u32) < n \<Longrightarrow> n < 2 ^ 32 \<Longrightarrow> unat (i + 1) = unat i + 1"
  using unat_add_small [of i 1] by simp

lemma unat_ucast_u8: "unat (ucast (b :: u8) :: u32) = unat b"
proof -
  have "unat b < 2 ^ 8" using unsigned_less [of b] by simp
  then show ?thesis by (simp add: unsigned_ucast_eq take_bit_nat_eq_self)
qed

end
