(* ===== verification/Cstring.thy ===== *)
theory Cstring
  imports Prelude
begin

section \<open>String routines (\<^verbatim>\<open>lib/string.c\<close>)\<close>

text \<open>
  The ten byte and string routines. A pointer argument is a buffer and an offset into it;
  reading or writing outside the buffer is \<open>Bad_Access\<close>. The routines that write return
  the buffer after the call. Source and destination are different objects, as in every call
  of the kernel. A \<^verbatim>\<open>char\<close> is signed (gcc on x86), so a comparison of a \<^verbatim>\<open>char\<close> with a
  \<^verbatim>\<open>uint8_t\<close> compares \<open>sint\<close> with \<open>uint\<close>. The loops end because an offset cannot pass
  the end of its buffer.
\<close>

subsection \<open>The routines\<close>

fun memset :: "buf \<Rightarrow> nat \<Rightarrow> u8 \<Rightarrow> nat \<Rightarrow> buf res" where
  "memset dst p v 0 = Inr dst"
| "memset dst p v (Suc n) = bindR (wr dst p v) (\<lambda>dst'. memset dst' (Suc p) v n)"

fun memcpy :: "buf \<Rightarrow> nat \<Rightarrow> buf \<Rightarrow> nat \<Rightarrow> nat \<Rightarrow> buf res" where
  "memcpy dst p src q 0 = Inr dst"
| "memcpy dst p src q (Suc n) =
     bindR (rd src q) (\<lambda>c. bindR (wr dst p c) (\<lambda>dst'. memcpy dst' (Suc p) src (Suc q) n))"

fun memcmp :: "buf \<Rightarrow> nat \<Rightarrow> buf \<Rightarrow> nat \<Rightarrow> nat \<Rightarrow> int res" where
  "memcmp a p b q 0 = Inr 0"
| "memcmp a p b q (Suc n) =
     bindR (rd a p) (\<lambda>x. bindR (rd b q) (\<lambda>y.
       if x \<noteq> y then Inr (if sint x > sint y then 1 else -1)
       else memcmp a (Suc p) b (Suc q) n))"

function strcpy :: "buf \<Rightarrow> nat \<Rightarrow> buf \<Rightarrow> nat \<Rightarrow> buf res" where
  "strcpy dst p src q =
     (if q < length src then
        bindR (wr dst p (src ! q)) (\<lambda>dst'.
          if src ! q = 0 then Inr dst' else strcpy dst' (Suc p) src (Suc q))
      else Inl Bad_Access)"
  by pat_completeness auto
termination
  by (relation "measure (\<lambda>(dst, p, src, q). length src - q)") auto

function strlen :: "buf \<Rightarrow> nat \<Rightarrow> nat res" where
  "strlen s p =
     (if p < length s then
        if s ! p = 0 then Inr 0 else bindR (strlen s (Suc p)) (\<lambda>n. Inr (Suc n))
      else Inl Bad_Access)"
  by pat_completeness auto
termination
  by (relation "measure (\<lambda>(s, p). length s - p)") auto

function strcmp :: "buf \<Rightarrow> nat \<Rightarrow> buf \<Rightarrow> nat \<Rightarrow> int res" where
  "strcmp a p b q =
     (if p < length a \<and> q < length b then
        if a ! p \<noteq> 0 \<and> a ! p = b ! q then strcmp a (Suc p) b (Suc q)
        else Inr (if sint (a ! p) < sint (b ! q) then -1
                  else if sint (a ! p) > sint (b ! q) then 1 else 0)
      else Inl Bad_Access)"
  by pat_completeness auto
termination
  by (relation "measure (\<lambda>(a, p, b, q). length a - p)") auto

function strchr :: "buf \<Rightarrow> nat \<Rightarrow> u8 \<Rightarrow> nat option res" where
  "strchr s p ch =
     (if p < length s then
        if s ! p = 0 then Inr None
        else if sint (s ! p) = uint ch then Inr (Some p)
        else strchr s (Suc p) ch
      else Inl Bad_Access)"
  by pat_completeness auto
termination
  by (relation "measure (\<lambda>(s, p, ch). length s - p)") auto

function strrchr_loop :: "buf \<Rightarrow> nat \<Rightarrow> u8 \<Rightarrow> nat option \<Rightarrow> nat option res" where
  "strrchr_loop s p ch last_curr =
     (if p < length s then
        if s ! p = 0 then Inr last_curr
        else strrchr_loop s (Suc p) ch (if sint (s ! p) = uint ch then Some p else last_curr)
      else Inl Bad_Access)"
  by pat_completeness auto
termination
  by (relation "measure (\<lambda>(s, p, ch, l). length s - p)") auto

definition strrchr :: "buf \<Rightarrow> nat \<Rightarrow> u8 \<Rightarrow> nat option res" where
  "strrchr s p ch = strrchr_loop s p ch None"

text \<open>\<^verbatim>\<open>strcat\<close>: walk to the terminator, then copy up to the source's terminator. The code
  writes no terminator of its own: the byte after the copied text must already be 0.\<close>

function strcat_copy :: "buf \<Rightarrow> nat \<Rightarrow> buf \<Rightarrow> nat \<Rightarrow> buf res" where
  "strcat_copy dst p src q =
     (if q < length src then
        if src ! q = 0 then Inr dst
        else bindR (wr dst p (src ! q)) (\<lambda>dst'. strcat_copy dst' (Suc p) src (Suc q))
      else Inl Bad_Access)"
  by pat_completeness auto
termination
  by (relation "measure (\<lambda>(dst, p, src, q). length src - q)") auto

definition strcat :: "buf \<Rightarrow> nat \<Rightarrow> buf \<Rightarrow> nat \<Rightarrow> buf res" where
  "strcat dst p src q = bindR (strlen dst p) (\<lambda>n. strcat_copy dst (p + n) src q)"

function strchrs_loop :: "buf \<Rightarrow> nat \<Rightarrow> u8 \<Rightarrow> u32 \<Rightarrow> u32 res" where
  "strchrs_loop s p ch ch_cnt =
     (if p < length s then
        if s ! p = 0 then Inr ch_cnt
        else strchrs_loop s (Suc p) ch (if sint (s ! p) = uint ch then ch_cnt + 1 else ch_cnt)
      else Inl Bad_Access)"
  by pat_completeness auto
termination
  by (relation "measure (\<lambda>(s, p, ch, l). length s - p)") auto

definition strchrs :: "buf \<Rightarrow> nat \<Rightarrow> u8 \<Rightarrow> u32 res" where
  "strchrs s p ch = strchrs_loop s p ch 0"

declare strcpy.simps [simp del] strlen.simps [simp del] strcmp.simps [simp del]
  strchr.simps [simp del] strrchr_loop.simps [simp del] strcat_copy.simps [simp del]
  strchrs_loop.simps [simp del]

subsection \<open>Overwriting a range, and strings in a buffer\<close>

text \<open>\<open>put p xs b\<close> is the buffer with \<open>xs\<close> written from offset \<open>p\<close> on; \<open>cstr b p s\<close> says that
  the bytes from \<open>p\<close> on are the string \<open>s\<close> and its terminator.\<close>

definition put :: "nat \<Rightarrow> 'a list \<Rightarrow> 'a list \<Rightarrow> 'a list" where
  "put p xs b = take p b @ xs @ drop (p + length xs) b"

definition cstr :: "buf \<Rightarrow> nat \<Rightarrow> u8 list \<Rightarrow> bool" where
  "cstr b p s \<longleftrightarrow> 0 \<notin> set s \<and> take (Suc (length s)) (drop p b) = s @ [0]"

lemma length_put [simp]: "p + length xs \<le> length b \<Longrightarrow> length (put p xs b) = length b"
  by (simp add: put_def)

lemma put_Nil [simp]: "put p [] b = b"
  by (simp add: put_def)

lemma put_Cons:
  assumes "p < length b"
  shows "put p (x # xs) b = put (Suc p) xs (b[p := x])"
proof -
  have "take (Suc p) (b[p := x]) = take p b @ [x]"
    using assms by (simp add: take_Suc_conv_app_nth)
  then show ?thesis
    using assms by (simp add: put_def)
qed

lemma nth_put:
  assumes "p + length xs \<le> length b"
  shows "put p xs b ! i = (if p \<le> i \<and> i < p + length xs then xs ! (i - p) else b ! i)"
proof (cases "xs = []")
  case False
  then have "p < length b" using assms by (cases xs) auto
  then show ?thesis using assms by (auto simp: put_def nth_append min_def not_less)
qed auto

lemma nth_put_outside [simp]:
  "p + length xs \<le> length b \<Longrightarrow> i < p \<or> p + length xs \<le> i \<Longrightarrow> put p xs b ! i = b ! i"
  by (auto simp: nth_put)

lemma cstr_Nil [simp]: "cstr b p [] \<longleftrightarrow> p < length b \<and> b ! p = 0"
proof (cases "p < length b")
  case True
  then show ?thesis
    by (simp add: cstr_def Cons_nth_drop_Suc [symmetric])
qed (simp add: cstr_def)

lemma cstr_Cons [simp]:
  "cstr b p (c # s) \<longleftrightarrow> c \<noteq> 0 \<and> p < length b \<and> b ! p = c \<and> cstr b (Suc p) s"
proof (cases "p < length b")
  case True
  then show ?thesis
    by (auto simp: cstr_def Cons_nth_drop_Suc [symmetric])
qed (simp add: cstr_def)

lemma cstr_length: "cstr b p s \<Longrightarrow> p + length s < length b"
  by (induction s arbitrary: p) force+

lemma cstr_append: "cstr b p (s @ t) \<Longrightarrow> cstr b (p + length s) t"
  by (induction s arbitrary: p) force+

lemma cstr_nth: "cstr b p s \<Longrightarrow> i < length s \<Longrightarrow> b ! (p + i) = s ! i"
proof (induction s arbitrary: p i)
  case (Cons c s)
  then show ?case by (cases i) force+
qed simp

lemma cstr_end: "cstr b p s \<Longrightarrow> b ! (p + length s) = 0"
  by (induction s arbitrary: p) force+

lemma cstr_no_zero: "cstr b p s \<Longrightarrow> 0 \<notin> set s"
  by (simp add: cstr_def)

lemma cstrI:
  assumes "0 \<notin> set s" and "p + length s < length b" and "b ! (p + length s) = 0"
    and "\<And>i. i < length s \<Longrightarrow> b ! (p + i) = s ! i"
  shows "cstr b p s"
  using assms
proof (induction s arbitrary: p)
  case (Cons c s)
  have "b ! p = c" using Cons.prems(4) [of 0] by simp
  moreover have "cstr b (Suc p) s"
  proof (rule Cons.IH)
    fix i assume "i < length s"
    then show "b ! (Suc p + i) = s ! i" using Cons.prems(4) [of "Suc i"] by simp
  qed (use Cons.prems in auto)
  ultimately show ?case using Cons.prems by auto
qed simp

lemma cstr_unique:
  "cstr b p s \<Longrightarrow> cstr b p t \<Longrightarrow> s = t"
proof (induction s arbitrary: p t)
  case Nil
  then show ?case by (cases t) auto
next
  case (Cons c s)
  then show ?case by (cases t) auto
qed

subsection \<open>What the routines do\<close>

lemma memset_eq: "p + n \<le> length dst \<Longrightarrow> memset dst p v n = Inr (put p (replicate n v) dst)"
  by (induction n arbitrary: dst p) (auto simp: put_Cons)

lemma memset_bad:
  "0 < n \<Longrightarrow> length dst < p + n \<Longrightarrow> memset dst p v n = Inl Bad_Access"
proof (induction n arbitrary: dst p)
  case (Suc n)
  show ?case
  proof (cases "p < length dst")
    case True
    with Suc.prems have "0 < n" by (cases n) auto
    with True Suc show ?thesis by simp
  qed simp
qed simp

lemma memcpy_eq:
  "p + n \<le> length dst \<Longrightarrow> q + n \<le> length src \<Longrightarrow>
   memcpy dst p src q n = Inr (put p (take n (drop q src)) dst)"
proof (induction n arbitrary: dst p q)
  case (Suc n)
  then have "take (Suc n) (drop q src) = src ! q # take n (drop (Suc q) src)"
    by (simp add: Cons_nth_drop_Suc [symmetric])
  with Suc show ?case by (simp add: put_Cons)
qed simp

lemma memcmp_eq_0:
  "p + n \<le> length a \<Longrightarrow> q + n \<le> length b \<Longrightarrow>
   memcmp a p b q n = Inr 0 \<longleftrightarrow> take n (drop p a) = take n (drop q b)"
proof (induction n arbitrary: p q)
  case (Suc n)
  then have "take (Suc n) (drop p a) = a ! p # take n (drop (Suc p) a)"
    and "take (Suc n) (drop q b) = b ! q # take n (drop (Suc q) b)"
    by (simp_all add: Cons_nth_drop_Suc [symmetric])
  with Suc show ?case by simp
qed simp

lemma strlen_cstr: "cstr b p s \<Longrightarrow> strlen b p = Inr (length s)"
  by (induction s arbitrary: p) (auto simp: strlen.simps [of b])

lemma sint_u8_inj [simp]: "sint (x :: u8) = sint y \<longleftrightarrow> x = y"
  by (metis signed_word_eqI)

lemma sint_u8_eq_0 [simp]: "sint (x :: u8) = 0 \<longleftrightarrow> x = 0"
  using sint_u8_inj [of x 0] by simp

lemma strcmp_cstr:
  assumes "cstr a p s" and "cstr b q t"
  shows "\<exists>r. strcmp a p b q = Inr r \<and> (r = 0 \<longleftrightarrow> s = t)"
  using assms
proof (induction s arbitrary: p q t)
  case Nil
  then show ?case
    by (cases t) (auto simp: strcmp.simps [of a] not_less order_le_less)
next
  case (Cons c s)
  then show ?case
    by (cases t) (auto simp: strcmp.simps [of a] not_less order_le_less)
qed

lemma strcpy_cstr:
  "cstr src q s \<Longrightarrow> p + length s < length dst \<Longrightarrow>
   strcpy dst p src q = Inr (put p (s @ [0]) dst)"
  by (induction s arbitrary: dst p q) (auto simp: strcpy.simps [of _ _ src] put_Cons)

lemma strcat_copy_cstr:
  "cstr src q s \<Longrightarrow> p + length s \<le> length dst \<Longrightarrow>
   strcat_copy dst p src q = Inr (put p s dst)"
  by (induction s arbitrary: dst p q) (auto simp: strcat_copy.simps [of _ _ src] put_Cons)

lemma cstr_put_join:
  assumes "cstr b p s" and "0 \<notin> set t" and "p + length s + length t < length b"
    and "b ! (p + length s + length t) = 0"
  shows "cstr (put (p + length s) t b) p (s @ t)"
proof (rule cstrI)
  fix i assume i: "i < length (s @ t)"
  show "put (p + length s) t b ! (p + i) = (s @ t) ! i"
  proof (cases "i < length s")
    case True
    then show ?thesis using assms(1,3) by (simp add: nth_append cstr_nth)
  next
    case False
    then have "p + i = p + length s + (i - length s)" and "i - length s < length t"
      using i by auto
    then show ?thesis using False i assms(3) by (simp add: nth_append nth_put)
  qed
qed (use assms cstr_no_zero [OF assms(1)] in \<open>auto simp: add.assoc\<close>)

lemma cstr_put_string:
  assumes "0 \<notin> set t" and "p + length t < length b"
  shows "cstr (put p (t @ [0]) b) p t"
  by (rule cstrI) (use assms in \<open>auto simp: nth_put nth_append\<close>)

lemma cstr_put_outside:
  assumes "cstr b p s" and "q + length t \<le> length b" and "q + length t \<le> p \<or> p + length s < q"
  shows "cstr (put q t b) p s"
proof (rule cstrI)
  fix i assume "i < length s"
  then show "put q t b ! (p + i) = s ! i" using assms by (auto simp: cstr_nth)
qed (use assms cstr_no_zero [OF assms(1)] cstr_length [OF assms(1)] cstr_end [OF assms(1)] in auto)

text \<open>A signed \<^verbatim>\<open>char\<close> equals a \<^verbatim>\<open>uint8_t\<close> below 128 exactly when the bytes are the same; it
  never equals one from 128 on.\<close>

lemma char_match:
  fixes c ch :: u8
  assumes "ch < 128"
  shows "sint c = uint ch \<longleftrightarrow> c = ch"
proof -
  have "uint ch < 128" using assms by (simp add: word_less_def)
  moreover have "- 128 \<le> uint ch" using uint_ge_0 [of ch] by linarith
  ultimately have "signed_take_bit 7 (uint ch) = uint ch"
    by (intro signed_take_bit_int_eq_self) simp_all
  then have "sint ch = uint ch" by (simp add: sint_uint)
  then show ?thesis by (metis sint_u8_inj)
qed

lemma char_no_match:
  fixes c ch :: u8
  assumes "128 \<le> ch"
  shows "sint c \<noteq> uint ch"
proof -
  have "128 \<le> uint ch" using assms by (simp add: word_le_def)
  moreover have "sint c < 128" using sint_lt [of c] by simp
  ultimately show ?thesis by linarith
qed

lemma strchr_cstr:
  assumes "cstr b p s" and "ch < 128"
  shows "strchr b p ch =
    Inr (if ch \<in> set s then Some (p + length (takeWhile (\<lambda>c. c \<noteq> ch) s)) else None)"
  using assms
proof (induction s arbitrary: p)
  case (Cons c s)
  then show ?case by (auto simp: strchr.simps [of b p] char_match)
qed (auto simp: strchr.simps [of b])

lemma strchr_high: "cstr b p s \<Longrightarrow> 128 \<le> ch \<Longrightarrow> strchr b p ch = Inr None"
proof (induction s arbitrary: p)
  case (Cons c s)
  then show ?case by (auto simp: strchr.simps [of b p] char_no_match)
qed (auto simp: strchr.simps [of b])

lemma strrchr_loop_none:
  assumes "cstr b p s" and "ch < 128" and "ch \<notin> set s"
  shows "strrchr_loop b p ch l = Inr l"
  using assms
proof (induction s arbitrary: p)
  case (Cons c s)
  then show ?case by (auto simp: strrchr_loop.simps [of b p] char_match)
qed (auto simp: strrchr_loop.simps [of b])

lemma strrchr_loop_cstr:
  assumes "cstr b p (s @ ch # t)" and "ch < 128" and "ch \<notin> set t"
  shows "strrchr_loop b p ch l = Inr (Some (p + length s))"
  using assms
proof (induction s arbitrary: p l)
  case Nil
  then show ?case by (auto simp: strrchr_loop.simps [of b p] char_match strrchr_loop_none)
next
  case (Cons c s)
  then show ?case by (auto simp: strrchr_loop.simps [of b p] char_match)
qed

lemma strrchr_last:
  "cstr b p (s @ ch # t) \<Longrightarrow> ch < 128 \<Longrightarrow> ch \<notin> set t \<Longrightarrow>
   strrchr b p ch = Inr (Some (p + length s))"
  by (simp add: strrchr_def strrchr_loop_cstr)

lemma strrchr_none:
  "cstr b p s \<Longrightarrow> ch < 128 \<Longrightarrow> ch \<notin> set s \<Longrightarrow> strrchr b p ch = Inr None"
  by (simp add: strrchr_def strrchr_loop_none)

lemma strchrs_loop_cstr:
  "cstr b p s \<Longrightarrow> ch < 128 \<Longrightarrow> strchrs_loop b p ch n = Inr (n + of_nat (count_list s ch))"
proof (induction s arbitrary: p n)
  case (Cons c s)
  then show ?case by (auto simp: strchrs_loop.simps [of b p] char_match algebra_simps)
qed (auto simp: strchrs_loop.simps [of b])

lemma strchrs_cstr: "cstr b p s \<Longrightarrow> ch < 128 \<Longrightarrow> strchrs b p ch = Inr (of_nat (count_list s ch))"
  by (simp add: strchrs_def strchrs_loop_cstr)

text \<open>
  \<^verbatim>\<open>strcat(dst, src)\<close> on a destination that holds \<open>s\<close>, with room for \<open>t\<close> and a zero byte where
  the joined text ends, leaves the string \<open>s @ t\<close> in the destination, changes no byte outside
  the range of \<open>t\<close> and keeps the buffer's length. The zero byte is needed: \<^verbatim>\<open>strcat\<close> writes no
  terminator of its own.
\<close>

theorem strcat_appends:
  assumes "cstr dst p s" and "cstr src q t"
    and "p + length s + length t < length dst" and "dst ! (p + length s + length t) = 0"
  shows "\<exists>dst'. strcat dst p src q = Inr dst' \<and> cstr dst' p (s @ t) \<and> length dst' = length dst
    \<and> (\<forall>i. i < p + length s \<or> p + length s + length t \<le> i \<longrightarrow> dst' ! i = dst ! i)"
proof (intro exI conjI)
  show "strcat dst p src q = Inr (put (p + length s) t dst)"
    using assms by (simp add: strcat_def strlen_cstr strcat_copy_cstr)
  show "cstr (put (p + length s) t dst) p (s @ t)"
    using assms cstr_no_zero by (intro cstr_put_join) auto
qed (use assms in auto)

theorem strcat_appends_witness:
  "\<exists>dst'. strcat [97, 98, 0, 0, 0] 0 [99, 100, 0] 0 = Inr dst' \<and> cstr dst' 0 [97, 98, 99, 100]"
  using strcat_appends [of "[97, 98, 0, 0, 0]" 0 "[97, 98]" "[99, 100, 0]" 0 "[99, 100]"]
  by auto

lemma strcat_unterminated:
  "strcat [97, 0, 7] 0 [98, 0] 0 = Inr [97, 98, 7]"
  by (simp add: strcat_def strlen.simps strcat_copy.simps)

end
