(* ===== verification/Bitmap.thy ===== *)
theory Bitmap
  imports Prelude Cstring
begin

section \<open>Bitmaps (\<^verbatim>\<open>lib/bitmap.c\<close>)\<close>

text \<open>
  The bitmap is the resource manager of the kernel: the page pools, the virtual address
  pools, the process identifiers, the inodes and the disk blocks are each handed out by
  \<^verbatim>\<open>bitmap_scan\<close> and recorded by \<^verbatim>\<open>bitmap_set\<close>.

  A \<^verbatim>\<open>struct bitmap\<close> is its length in bytes and the memory its \<open>bits\<close> pointer reaches. That
  memory may go on after the bitmap (the bitmaps of the page pools lie one after the other),
  so \<open>bits\<close> may be longer than \<open>btmp_bytes_len\<close>: the routines read past the end of the
  bitmap, and the model shows where. All index arithmetic is on 32-bit words, as in the code.
\<close>

record bitmap =
  btmp_bytes_len :: u32
  bits :: buf

subsection \<open>The routines\<close>

definition bitmap_init :: "bitmap \<Rightarrow> bitmap res" where
  "bitmap_init btmp =
     bindR (memset (bits btmp) 0 0 (unat (btmp_bytes_len btmp))) (\<lambda>b. Inr (btmp\<lparr>bits := b\<rparr>))"

text \<open>\<^verbatim>\<open>BITMAP_MASK << k\<close>, an \<^verbatim>\<open>int\<close>, and its conjunction with a byte of the bitmap.\<close>

definition bit_mask :: "u32 \<Rightarrow> u32" where
  "bit_mask k = push_bit (unat k) 1"

definition byte_and_mask :: "u8 \<Rightarrow> u32 \<Rightarrow> u32" where
  "byte_and_mask b k = ucast b AND bit_mask k"

definition bitmap_scan_test :: "bitmap \<Rightarrow> u32 \<Rightarrow> u32 res" where
  "bitmap_scan_test btmp bit_idx =
     bindR (rd (bits btmp) (unat (bit_idx div 8))) (\<lambda>b. Inr (byte_and_mask b (bit_idx mod 8)))"

text \<open>The first loop of \<^verbatim>\<open>bitmap_scan\<close>: it reads the byte before it compares the index with the
  length.\<close>

function skip_full :: "bitmap \<Rightarrow> u32 \<Rightarrow> u32 res" where
  "skip_full btmp byte_index =
     bindR (rd (bits btmp) (unat byte_index)) (\<lambda>b.
       if b = 0xff \<and> byte_index < btmp_bytes_len btmp then skip_full btmp (byte_index + 1)
       else Inr byte_index)"
  by pat_completeness auto
termination
proof (relation "measure (\<lambda>(btmp, i). unat (btmp_bytes_len btmp) - unat i)")
  fix btmp :: bitmap and byte_index b
  assume "b = 0xff \<and> byte_index < btmp_bytes_len btmp"
  then have "unat byte_index < unat (btmp_bytes_len btmp)" by (simp add: word_less_nat_alt)
  moreover from this have "unat (byte_index + 1) = unat byte_index + 1"
    using unat_u32_lt [of "btmp_bytes_len btmp"] by (intro u32_plus_1) auto
  ultimately show "((btmp, byte_index + 1), btmp, byte_index)
      \<in> measure (\<lambda>(btmp, i). unat (btmp_bytes_len btmp) - unat i)"
    by simp
qed simp

text \<open>The second loop looks for a clear bit in the byte \<open>b\<close> that ended the first; \<open>bit_index\<close> is
  an \<^verbatim>\<open>int\<close> that stays below 9, because a byte has no bit from position 8 on.\<close>

lemma byte_and_mask_iff: "byte_and_mask b (of_nat k) \<noteq> 0 \<longleftrightarrow> bit b k" if "k < 32"
proof
  assume "byte_and_mask b (of_nat k) \<noteq> 0"
  then obtain n where "bit (byte_and_mask b (of_nat k)) n"
    by (auto simp: bit_eq_iff)
  then show "bit b k"
    using that by (auto simp: byte_and_mask_def bit_mask_def bit_simps unat_of_nat)
next
  assume "bit b k"
  then have "bit (byte_and_mask b (of_nat k)) k"
    using that bit_imp_le_length [of b k]
    by (auto simp: byte_and_mask_def bit_mask_def bit_simps unat_of_nat)
  then show "byte_and_mask b (of_nat k) \<noteq> 0" by auto
qed

function first_clear :: "u8 \<Rightarrow> nat \<Rightarrow> nat" where
  "first_clear b bit_index =
     (if bit_index < 32 \<and> byte_and_mask b (of_nat bit_index) \<noteq> 0
      then first_clear b (Suc bit_index) else bit_index)"
  by pat_completeness auto
termination
  by (relation "measure (\<lambda>(b, i). 32 - i)") auto

text \<open>The third loop: look for \<open>cnt\<close> clear bits in a row.\<close>

function scan_run :: "bitmap \<Rightarrow> u32 \<Rightarrow> u32 \<Rightarrow> u32 \<Rightarrow> u32 \<Rightarrow> u32 res" where
  "scan_run btmp cnt bit_left bit_next count =
     (if bit_left > 0 then
        bindR (bitmap_scan_test btmp bit_next) (\<lambda>t.
          let count' = (if t = 0 then count + 1 else 0) in
          if count' = cnt then Inr (bit_next - cnt + 1)
          else scan_run btmp cnt (bit_left - 1) (bit_next + 1) count')
      else Inr (-1))"
  by pat_completeness auto
termination
proof (relation "measure (\<lambda>(btmp, cnt, bit_left, bit_next, count). unat bit_left)")
  fix btmp :: bitmap and cnt bit_left bit_next count t count' :: u32
  assume "bit_left > 0"
  then have "unat (bit_left - 1) < unat bit_left"
    by (simp add: unat_sub_small word_less_nat_alt Suc_le_eq)
  then show "((btmp, cnt, bit_left - 1, bit_next + 1, count'), btmp, cnt, bit_left, bit_next, count)
      \<in> measure (\<lambda>(btmp, cnt, bit_left, bit_next, count). unat bit_left)"
    by simp
qed simp

declare skip_full.simps [simp del] first_clear.simps [simp del] scan_run.simps [simp del]

definition bitmap_scan :: "bitmap \<Rightarrow> u32 \<Rightarrow> u32 res" where
  "bitmap_scan btmp cnt =
     bindR (skip_full btmp 0) (\<lambda>byte_index.
     ASSERT (byte_index < btmp_bytes_len btmp) (
     if byte_index = btmp_bytes_len btmp then Inr (-1)
     else
       bindR (rd (bits btmp) (unat byte_index)) (\<lambda>b.
       let bit_start = byte_index * 8 + of_nat (first_clear b 0) in
       if cnt = 1 then Inr bit_start
       else scan_run btmp cnt (btmp_bytes_len btmp * 8 - bit_start) (bit_start + 1) 1)))"

definition bitmap_set :: "bitmap \<Rightarrow> u32 \<Rightarrow> u8 \<Rightarrow> bitmap res" where
  "bitmap_set btmp bit_idx v =
     ASSERT (v = 0 \<or> v = 1) (
     bindR (rd (bits btmp) (unat (bit_idx div 8))) (\<lambda>b.
     let m = bit_mask (bit_idx mod 8);
         b' = (if v \<noteq> 0 then ucast ((ucast b :: u32) OR m) else ucast ((ucast b :: u32) AND NOT m))
     in bindR (wr (bits btmp) (unat (bit_idx div 8)) b') (\<lambda>bs. Inr (btmp\<lparr>bits := bs\<rparr>))))"

subsection \<open>The abstract view: a set of used indices\<close>

definition bit_at :: "bitmap \<Rightarrow> nat \<Rightarrow> bool" where
  "bit_at btmp i = bit (bits btmp ! (i div 8)) (i mod 8)"

definition bit_cnt :: "bitmap \<Rightarrow> nat" where
  "bit_cnt btmp = 8 * unat (btmp_bytes_len btmp)"

definition used_bits :: "bitmap \<Rightarrow> nat set" where
  "used_bits btmp = {i. i < bit_cnt btmp \<and> bit_at btmp i}"

text \<open>A bitmap as the kernel sets it up: its memory is there, and its bits can be numbered with
  an \<^verbatim>\<open>int\<close>.\<close>

definition bitmap_ok :: "bitmap \<Rightarrow> bool" where
  "bitmap_ok btmp \<longleftrightarrow> unat (btmp_bytes_len btmp) \<le> length (bits btmp) \<and> bit_cnt btmp < 2 ^ 31"

text \<open>\<open>clear_run btmp s n\<close>: the \<open>n\<close> bits from \<open>s\<close> on are clear.\<close>

definition clear_run :: "bitmap \<Rightarrow> nat \<Rightarrow> nat \<Rightarrow> bool" where
  "clear_run btmp s n \<longleftrightarrow> (\<forall>j. s \<le> j \<and> j < s + n \<longrightarrow> \<not> bit_at btmp j)"

lemma unat_div_8 [simp]: "unat ((i :: u32) div 8) = unat i div 8"
  by (simp add: unat_div)

lemma mod_8_of_nat: "(i :: u32) mod 8 = of_nat (unat i mod 8)"
proof -
  have "unat (i mod 8) = unat i mod 8" by (simp add: unat_mod)
  then show ?thesis by (metis of_nat_unat ucast_id)
qed

lemma byte_bit_iff:
  "byte_and_mask b ((i :: u32) mod 8) \<noteq> 0 \<longleftrightarrow> bit b (unat i mod 8)"
  by (subst mod_8_of_nat, rule byte_and_mask_iff) (use mod_less_divisor [of 8 "unat i"] in simp)

lemma bitmap_scan_test_ok:
  assumes "unat i < 8 * length (bits btmp)"
  shows "\<exists>t. bitmap_scan_test btmp i = Inr t \<and> (t = 0 \<longleftrightarrow> \<not> bit_at btmp (unat i))"
proof -
  have "unat i div 8 < length (bits btmp)" using assms by (simp add: div_less_iff_less_mult mult.commute)
  then show ?thesis
    using byte_bit_iff [of "bits btmp ! (unat i div 8)" i]
    by (auto simp: bitmap_scan_test_def bit_at_def)
qed

lemma first_clear_spec:
  assumes "\<forall>j<i. bit b j"
  shows "\<not> bit b (first_clear b i) \<and> (\<forall>j<first_clear b i. bit b j)"
  using assms
proof (induction b i rule: first_clear.induct)
  case (1 b i)
  show ?case
  proof (cases "i < 32 \<and> byte_and_mask b (of_nat i) \<noteq> 0")
    case True
    then have "bit b i" using byte_and_mask_iff by blast
    with "1.prems" have "\<forall>j<Suc i. bit b j" by (auto simp: less_Suc_eq)
    with "1.IH" True show ?thesis by (simp add: first_clear.simps [of b i])
  next
    case False
    have "\<not> bit b i"
    proof
      assume b: "bit b i"
      then have "i < 8" using bit_imp_le_length [of b i] by simp
      with False b byte_and_mask_iff [of i b] show False by simp
    qed
    moreover from False have "first_clear b i = i" by (simp only: first_clear.simps [of b i] if_False)
    ultimately show ?thesis using "1.prems" by simp
  qed
qed

lemma first_clear_lt_8:
  assumes "b \<noteq> 0xff"
  shows "first_clear b 0 < 8"
proof (rule ccontr)
  assume "\<not> first_clear b 0 < 8"
  then have "\<forall>j<8. bit b j" using first_clear_spec [of 0 b] by auto
  then have "b = -1" by (auto intro!: bit_eqI simp: bit_simps dest: bit_imp_le_length)
  with assms show False by simp
qed

text \<open>The bytes of a full bitmap, in both views.\<close>

lemma full_byte_iff:
  fixes b :: u8
  shows "b = 0xff \<longleftrightarrow> (\<forall>k<8. bit b k)"
proof
  assume "\<forall>k<8. bit b k"
  then have "b = -1" by (auto intro!: bit_eqI simp: bit_simps dest: bit_imp_le_length)
  then show "b = 0xff" by simp
next
  assume "b = 0xff"
  then have "b = -1" by simp
  then show "\<forall>k<8. bit b k" by simp
qed

lemma byte_full_bits:
  "(\<forall>k<8. bit_at btmp (8 * q + k)) \<longleftrightarrow> bits btmp ! q = 0xff"
  by (simp add: full_byte_iff bit_at_def)

lemma bit_at_in_full_byte:
  assumes "bits btmp ! (j div 8) = 0xff"
  shows "bit_at btmp j"
  using assms full_byte_iff [of "bits btmp ! (j div 8)"] by (simp add: bit_at_def)

lemma skip_full_finds:
  assumes "bitmap_ok btmp" and "unat i \<le> q" and "q < unat (btmp_bytes_len btmp)"
    and "bits btmp ! q \<noteq> 0xff" and "\<forall>j. unat i \<le> j \<and> j < q \<longrightarrow> bits btmp ! j = 0xff"
  shows "skip_full btmp i = Inr (of_nat q)"
  using assms
proof (induction btmp i rule: skip_full.induct)
  case (1 btmp i)
  have i: "unat i < unat (btmp_bytes_len btmp)" and len: "unat i < length (bits btmp)"
    using "1.prems" by (auto simp: bitmap_ok_def)
  show ?case
  proof (cases "unat i = q")
    case True
    then have "skip_full btmp i = Inr i"
      using "1.prems"(4) len by (subst skip_full.simps) simp
    with True show ?thesis by auto
  next
    case False
    with "1.prems"(2,5) have "bits btmp ! unat i = 0xff" by simp
    moreover have "i < btmp_bytes_len btmp" using i by (simp add: word_less_nat_alt)
    moreover have "unat (i + 1) = unat i + 1"
      using i unat_u32_lt [of "btmp_bytes_len btmp"] by (intro u32_plus_1) auto
    ultimately show ?thesis
      using "1.IH" "1.prems" False len by (simp add: skip_full.simps [of btmp i])
  qed
qed

text \<open>On a full bitmap the loop leaves the bitmap: it stops at the length, after reading the byte
  there.\<close>

lemma skip_full_passes_end:
  assumes "bitmap_ok btmp" and "unat i \<le> unat (btmp_bytes_len btmp)"
    and "\<forall>j. unat i \<le> j \<and> j < unat (btmp_bytes_len btmp) \<longrightarrow> bits btmp ! j = 0xff"
  shows "skip_full btmp i =
    (if unat (btmp_bytes_len btmp) < length (bits btmp) then Inr (btmp_bytes_len btmp)
     else Inl Bad_Access)"
  using assms
proof (induction btmp i rule: skip_full.induct)
  case (1 btmp i)
  show ?case
  proof (cases "unat i = unat (btmp_bytes_len btmp)")
    case True
    then have "i = btmp_bytes_len btmp" by (rule unsigned_word_eqI)
    then show ?thesis by (subst skip_full.simps) (simp add: not_less)
  next
    case False
    with "1.prems" have i: "unat i < unat (btmp_bytes_len btmp)" by simp
    with "1.prems" have "bits btmp ! unat i = 0xff" and "unat i < length (bits btmp)"
      by (auto simp: bitmap_ok_def)
    moreover have "i < btmp_bytes_len btmp" using i by (simp add: word_less_nat_alt)
    moreover have "unat (i + 1) = unat i + 1"
      using i unat_u32_lt [of "btmp_bytes_len btmp"] by (intro u32_plus_1) auto
    ultimately show ?thesis
      using "1.IH" "1.prems" i by (simp add: skip_full.simps [of btmp i])
  qed
qed

lemma first_free_byte:
  assumes "bitmap_ok btmp" and "k < bit_cnt btmp" and "\<not> bit_at btmp k"
    and "\<forall>j<k. bit_at btmp j"
  shows "k div 8 < unat (btmp_bytes_len btmp)" and "bits btmp ! (k div 8) \<noteq> 0xff"
    and "\<forall>q<k div 8. bits btmp ! q = 0xff"
    and "first_clear (bits btmp ! (k div 8)) 0 = k mod 8"
proof -
  show "k div 8 < unat (btmp_bytes_len btmp)"
    using assms(2) by (simp add: bit_cnt_def div_less_iff_less_mult mult.commute)
  show b: "bits btmp ! (k div 8) \<noteq> 0xff"
    using assms(3) bit_at_in_full_byte by blast
  show "\<forall>q<k div 8. bits btmp ! q = 0xff"
  proof (intro allI impI)
    fix q assume q: "q < k div 8"
    have "\<forall>m<8. bit_at btmp (8 * q + m)"
    proof (intro allI impI)
      fix m :: nat assume "m < 8"
      with q have "8 * q + m < k" by linarith
      with assms(4) show "bit_at btmp (8 * q + m)" by simp
    qed
    then show "bits btmp ! q = 0xff" by (simp only: byte_full_bits)
  qed
  let ?f = "first_clear (bits btmp ! (k div 8)) 0"
  have f: "\<not> bit (bits btmp ! (k div 8)) ?f" "\<forall>j<?f. bit (bits btmp ! (k div 8)) j"
    using first_clear_spec [of 0] by auto
  have "\<forall>j<k mod 8. bit (bits btmp ! (k div 8)) j"
  proof (intro allI impI)
    fix j assume "j < k mod 8"
    then have "j < 8" and "8 * (k div 8) + j < k" by presburger+
    then have "8 * (k div 8) + j < k" and "(8 * (k div 8) + j) mod 8 = j"
      and "(8 * (k div 8) + j) div 8 = k div 8"
      by simp_all
    with assms(4) show "bit (bits btmp ! (k div 8)) j" unfolding bit_at_def by metis
  qed
  moreover have "\<not> bit (bits btmp ! (k div 8)) (k mod 8)" using assms(3) by (simp add: bit_at_def)
  ultimately show "?f = k mod 8" using f by (metis linorder_neqE_nat)
qed

subsection \<open>Scanning\<close>

lemma least_free:
  assumes "\<exists>k<bit_cnt btmp. \<not> bit_at btmp k"
  obtains k where "k < bit_cnt btmp" and "\<not> bit_at btmp k" and "\<forall>j<k. bit_at btmp j"
proof -
  from assms have "\<exists>k. k < bit_cnt btmp \<and> \<not> bit_at btmp k" by blast
  then obtain k where "k < bit_cnt btmp \<and> \<not> bit_at btmp k"
    and "\<forall>j<k. \<not> (j < bit_cnt btmp \<and> \<not> bit_at btmp j)"
    using exists_least_iff [of "\<lambda>k. k < bit_cnt btmp \<and> \<not> bit_at btmp k"] by blast
  with that show thesis by force
qed

lemma bitmap_scan_from_free:
  assumes ok: "bitmap_ok btmp" and k: "k < bit_cnt btmp" "\<not> bit_at btmp k" "\<forall>j<k. bit_at btmp j"
  shows "bitmap_scan btmp cnt =
    (if cnt = 1 then Inr (of_nat k)
     else scan_run btmp cnt (btmp_bytes_len btmp * 8 - of_nat k) (of_nat k + 1) 1)"
proof -
  note b = first_free_byte [OF ok k]
  have small: "k div 8 < 2 ^ 32" using b(1) unat_u32_lt [of "btmp_bytes_len btmp"] by simp
  have skip: "skip_full btmp 0 = Inr (of_nat (k div 8))"
    by (rule skip_full_finds) (use ok b in auto)
  have lt: "(of_nat (k div 8) :: u32) < btmp_bytes_len btmp"
    using b(1) small by (simp add: word_less_nat_alt unat_of_nat take_bit_nat_eq_self)
  have len: "unat (of_nat (k div 8) :: u32) < length (bits btmp)"
    and nth: "bits btmp ! unat (of_nat (k div 8) :: u32) = bits btmp ! (k div 8)"
    using b(1) ok small by (auto simp: bitmap_ok_def unat_of_nat take_bit_nat_eq_self)
  have start: "(of_nat (k div 8) * 8 + of_nat (k mod 8) :: u32) = of_nat k"
    by (metis of_nat_add of_nat_mult of_nat_numeral div_mult_mod_eq)
  show ?thesis
    using lt len nth b(4) start less_imp_neq [OF lt] by (simp add: bitmap_scan_def skip Let_def)
qed

lemma bitmap_scan_free:
  assumes "bitmap_ok btmp" and "\<exists>k<bit_cnt btmp. \<not> bit_at btmp k"
  shows "\<exists>i. bitmap_scan btmp 1 = Inr i \<and> unat i < bit_cnt btmp \<and> \<not> bit_at btmp (unat i)
    \<and> (\<forall>j<unat i. bit_at btmp j)"
proof -
  obtain k where k: "k < bit_cnt btmp" "\<not> bit_at btmp k" "\<forall>j<k. bit_at btmp j"
    using least_free [OF assms(2)] by blast
  moreover have "k < 2 ^ 32" using k(1) assms(1) by (simp add: bitmap_ok_def)
  then have "unat (of_nat k :: u32) = k" by (simp add: unat_of_nat take_bit_nat_eq_self)
  ultimately show ?thesis using bitmap_scan_from_free [OF assms(1) k, of 1] by simp
qed

text \<open>
  Scanning for one bit returns the lowest clear bit of a bitmap that has one.
\<close>

theorem bitmap_scan_lowest:
  assumes "bitmap_ok btmp" and "\<exists>k<bit_cnt btmp. \<not> bit_at btmp k"
  shows "\<exists>i. bitmap_scan btmp 1 = Inr i \<and> unat i < bit_cnt btmp \<and> \<not> bit_at btmp (unat i)
    \<and> (\<forall>j<unat i. bit_at btmp j)"
  using assms by (rule bitmap_scan_free)

theorem bitmap_scan_lowest_witness:
  "\<exists>i. bitmap_scan \<lparr>btmp_bytes_len = 2, bits = [0xff, 0x0b]\<rparr> 1 = Inr i \<and> unat i = 10"
proof -
  let ?b = "\<lparr>btmp_bytes_len = 2, bits = [0xff, 0x0b]\<rparr>"
  have ok: "bitmap_ok ?b" by (simp add: bitmap_ok_def bit_cnt_def)
  have free: "\<not> bit_at ?b 10" by code_simp
  then have "\<exists>k<bit_cnt ?b. \<not> bit_at ?b k" by (intro exI [of _ 10]) (simp add: bit_cnt_def)
  from bitmap_scan_lowest [OF ok this] obtain i where i: "bitmap_scan ?b 1 = Inr i"
    "\<not> bit_at ?b (unat i)" "\<forall>j<unat i. bit_at ?b j" by blast
  have "list_all (bit_at ?b) [0..<10]" by code_simp
  then have "\<forall>j<10. bit_at ?b j" by (simp add: list_all_iff)
  with i free have "unat i = 10" by (metis linorder_neqE_nat)
  with i show ?thesis by blast
qed

lemma bitmap_scan_no_free:
  assumes "bitmap_ok btmp" and "\<forall>k<bit_cnt btmp. bit_at btmp k"
  shows "bitmap_scan btmp cnt =
    Inl (if unat (btmp_bytes_len btmp) < length (bits btmp) then Assert_Fail else Bad_Access)"
proof -
  have "\<forall>j. unat (0 :: u32) \<le> j \<and> j < unat (btmp_bytes_len btmp) \<longrightarrow> bits btmp ! j = 0xff"
  proof (intro allI impI)
    fix j assume "unat (0 :: u32) \<le> j \<and> j < unat (btmp_bytes_len btmp)"
    then have "\<forall>m<8. bit_at btmp (8 * j + m)" using assms(2) by (simp add: bit_cnt_def)
    then show "bits btmp ! j = 0xff" by (simp only: byte_full_bits)
  qed
  with assms(1) have "skip_full btmp 0 =
    (if unat (btmp_bytes_len btmp) < length (bits btmp) then Inr (btmp_bytes_len btmp)
     else Inl Bad_Access)"
    by (intro skip_full_passes_end) auto
  then show ?thesis by (simp add: bitmap_scan_def)
qed

text \<open>
  A scan of a full bitmap never returns: the \<^verbatim>\<open>ASSERT(byte_index < btmp_bytes_len)\<close> after the
  first loop fires (or the loop has already read outside the memory), so the \<open>-1\<close> that the code
  after it returns, and that every caller tests for, cannot be seen.
\<close>

theorem bitmap_scan_full_halts:
  assumes "bitmap_ok btmp" and "\<forall>k<bit_cnt btmp. bit_at btmp k"
  shows "bitmap_scan btmp cnt =
    Inl (if unat (btmp_bytes_len btmp) < length (bits btmp) then Assert_Fail else Bad_Access)"
  using assms by (rule bitmap_scan_no_free)

theorem bitmap_scan_full_halts_witness:
  "bitmap_scan \<lparr>btmp_bytes_len = 1, bits = [0xff, 0]\<rparr> 1 = Inl Assert_Fail"
proof -
  let ?b = "\<lparr>btmp_bytes_len = 1, bits = [0xff, 0]\<rparr>"
  have ok: "bitmap_ok ?b" by (simp add: bitmap_ok_def bit_cnt_def)
  have "list_all (bit_at ?b) [0..<bit_cnt ?b]" by code_simp
  then have "\<forall>k<bit_cnt ?b. bit_at ?b k" by (simp add: list_all_iff)
  from bitmap_scan_full_halts [OF ok this, of 1] show ?thesis by simp
qed

lemma clear_run_0 [simp]: "clear_run btmp s 0"
  by (auto simp: clear_run_def)

lemma clear_run_1 [simp]: "clear_run btmp s (Suc 0) \<longleftrightarrow> \<not> bit_at btmp s"
  by (auto simp: clear_run_def less_Suc_eq)

text \<open>The third loop. \<open>n\<close> is the next bit to test and \<open>c\<close> the length of the clear run that ends
  there; no run of \<open>C\<close> clear bits ends earlier.\<close>

lemma scan_run_spec:
  assumes "unat bit_left = L" and "unat bit_next = n" and "unat count = c" and "unat cnt = C"
    and "n + L < 2 ^ 32" and "n + L \<le> 8 * length (bits btmp)" and "c < C" and "c \<le> n"
    and "clear_run btmp (n - c) c" and "c < n \<Longrightarrow> bit_at btmp (n - c - 1)"
    and "\<forall>s. s + C \<le> n \<longrightarrow> \<not> clear_run btmp s C"
  shows "(\<exists>s. scan_run btmp cnt bit_left bit_next count = Inr (of_nat s) \<and> s + C \<le> n + L
            \<and> clear_run btmp s C \<and> (\<forall>r. r < s \<longrightarrow> \<not> clear_run btmp r C))
      \<or> (scan_run btmp cnt bit_left bit_next count = Inr (-1)
            \<and> (\<forall>s. s + C \<le> n + L \<longrightarrow> \<not> clear_run btmp s C))"
  using assms
proof (induction btmp cnt bit_left bit_next count arbitrary: L n c rule: scan_run.induct)
  case (1 btmp cnt bit_left bit_next count)
  note p = "1.prems"
  show ?case
  proof (cases "bit_left > 0")
    case False
    then have "L = 0" and "scan_run btmp cnt bit_left bit_next count = Inr (-1)"
      using p(1) by (simp_all add: scan_run.simps [of btmp cnt bit_left] word_less_nat_alt)
    then show ?thesis using p(11) by simp
  next
    case True
    then have L: "0 < L" using p(1) by (simp add: word_less_nat_alt)
    have "unat bit_next < 8 * length (bits btmp)" using p(2,6) L by simp
    from bitmap_scan_test_ok [OF this] obtain t where
      t: "bitmap_scan_test btmp bit_next = Inr t" "t = 0 \<longleftrightarrow> \<not> bit_at btmp n"
      using p(2) by blast
    have left: "unat (bit_left - 1) = L - 1" using L p(1) by (subst unat_sub_small) auto
    have nextn: "unat (bit_next + 1) = n + 1"
      using p(2,5) L by (subst unat_add_small) auto
    have eqn: "scan_run btmp cnt bit_left bit_next count =
      (let count' = (if t = 0 then count + 1 else 0) in
       if count' = cnt then Inr (bit_next - cnt + 1)
       else scan_run btmp cnt (bit_left - 1) (bit_next + 1) count')"
      using True t(1) by (subst scan_run.simps) simp
    show ?thesis
    proof (cases "t = 0")
      case clear: True
      have run: "clear_run btmp (n - c) (Suc c)"
        using p(8,9) t(2) clear by (auto simp: clear_run_def less_Suc_eq)
      have cnt': "unat (count + 1) = c + 1"
        using p(3,7) p(4) unat_u32_lt [of cnt] by (subst unat_add_small) auto
      have none: "\<not> clear_run btmp s C" if "s + C \<le> Suc n" "s + C = Suc n \<Longrightarrow> Suc c < C" for s
      proof (cases "s + C \<le> n")
        case False
        with that have "s + C = Suc n" "Suc c < C" by auto
        then have "s \<le> n - c - 1" "n - c - 1 < s + C" "c < n" by auto
        with p(10) show ?thesis by (auto simp: clear_run_def)
      qed (use p(11) in blast)
      show ?thesis
      proof (cases "count + 1 = cnt")
        case True
        then have C: "C = Suc c" using cnt' p(4) by simp
        have "unat cnt \<le> unat bit_next + 1" using C p(2,4,8) by simp
        have "bit_next - cnt + 1 = of_nat (n - c)"
        proof -
          have "(of_nat (n - c) :: u32) = of_nat n - of_nat c" using p(8) by (simp add: of_nat_diff)
          moreover have "of_nat n = bit_next" using p(2) by auto
          moreover have "(of_nat c :: u32) = cnt - 1" using True p(3) by auto
          ultimately show ?thesis by simp
        qed
        moreover have "\<not> clear_run btmp r C" if "r < n - c" for r
          using p(11) that C by simp
        moreover have "n - c + C \<le> n + L" using C L p(8) by simp
        ultimately show ?thesis using run C eqn clear True by (auto simp: Let_def)
      next
        case False
        then have "Suc c < C" using cnt' p(4,7) by (metis Suc_eq_plus1 Suc_lessI unsigned_word_eqI)
        then show ?thesis
          using "1.IH" [of t "count + 1" "L - 1" "Suc n" "Suc c"] True t(1) clear False
            left nextn cnt' p(4,5,6,8,10) run none L eqn
          by (auto simp: Let_def Suc_diff_le)
      qed
    next
      case False
      have zero: "cnt \<noteq> 0" using p(4,7) by auto
      have none: "\<not> clear_run btmp s C" if "s + C \<le> Suc n" for s
      proof (cases "s + C \<le> n")
        case False
        with that p(7) have "s \<le> n" "n < s + C" by auto
        with t(2) \<open>t \<noteq> 0\<close> show ?thesis by (auto simp: clear_run_def)
      qed (use p(11) in blast)
      show ?thesis
        using "1.IH" [of t 0 "L - 1" "Suc n" 0] True t False zero left nextn p(4,5,6,7) none L eqn
        by (auto simp: Let_def)
    qed
  qed
qed

text \<open>
  Scanning for \<open>cnt\<close> bits, at least two, in a bitmap with a clear bit and a readable byte after
  it: the result is the lowest start of \<open>cnt\<close> clear bits in a row among the bits of the bitmap
  and the one bit after them, or \<open>-1\<close> if there is none. The bit after the bitmap counts because
  the loop runs \<open>bit_left\<close> times from the bit after \<open>bit_start\<close>.
\<close>

theorem bitmap_scan_lowest_run:
  assumes "bitmap_ok btmp" and "unat (btmp_bytes_len btmp) < length (bits btmp)"
    and "\<exists>k<bit_cnt btmp. \<not> bit_at btmp k" and "2 \<le> unat cnt"
  shows "(\<exists>s. bitmap_scan btmp cnt = Inr (of_nat s) \<and> s + unat cnt \<le> bit_cnt btmp + 1
            \<and> clear_run btmp s (unat cnt) \<and> (\<forall>r. r < s \<longrightarrow> \<not> clear_run btmp r (unat cnt)))
      \<or> (bitmap_scan btmp cnt = Inr (-1)
            \<and> (\<forall>s. s + unat cnt \<le> bit_cnt btmp + 1 \<longrightarrow> \<not> clear_run btmp s (unat cnt)))"
proof -
  obtain k where k: "k < bit_cnt btmp" "\<not> bit_at btmp k" "\<forall>j<k. bit_at btmp j"
    using least_free [OF assms(3)] by blast
  have cnt: "bit_cnt btmp < 2 ^ 31" using assms(1) by (simp add: bitmap_ok_def)
  have c1: "cnt \<noteq> 1" using assms(4) by auto
  have uk: "unat (of_nat k :: u32) = k" using k(1) cnt by (simp add: unat_of_nat take_bit_nat_eq_self)
  have u8len: "unat (btmp_bytes_len btmp * 8) = bit_cnt btmp"
    using cnt by (subst unat_mult_small) (auto simp: bit_cnt_def)
  have left: "unat (btmp_bytes_len btmp * 8 - of_nat k) = bit_cnt btmp - k"
    using k(1) uk u8len by (subst unat_sub_small) auto
  have nextb: "unat (of_nat k + 1 :: u32) = k + 1"
    using k(1) uk cnt by (subst unat_add_small) auto
  have run: "clear_run btmp (k + 1 - 1) 1" using k(2) by simp
  have none: "\<forall>s. s + unat cnt \<le> k + 1 \<longrightarrow> \<not> clear_run btmp s (unat cnt)"
    using k(3) assms(4) by (force simp: clear_run_def)
  have "bitmap_scan btmp cnt =
      scan_run btmp cnt (btmp_bytes_len btmp * 8 - of_nat k) (of_nat k + 1) 1"
    using bitmap_scan_from_free [OF assms(1) k] c1 by simp
  then show ?thesis
    using scan_run_spec [OF left nextb _ refl _ _ _ _ run _ none, where count = 1]
      k cnt assms(2,4) by (auto simp: bit_cnt_def)
qed

theorem bitmap_scan_lowest_run_witness:
  "(\<exists>s. bitmap_scan \<lparr>btmp_bytes_len = 2, bits = [0xdb, 0x0c, 0xff]\<rparr> 3 = Inr (of_nat s) \<and> s + 3 \<le> 17)
   \<or> bitmap_scan \<lparr>btmp_bytes_len = 2, bits = [0xdb, 0x0c, 0xff]\<rparr> 3 = Inr (-1)"
proof -
  let ?b = "\<lparr>btmp_bytes_len = 2, bits = [0xdb, 0x0c, 0xff]\<rparr>"
  have "\<not> bit_at ?b 2" by code_simp
  then have "\<exists>k<bit_cnt ?b. \<not> bit_at ?b k" by (intro exI [of _ 2]) (simp add: bit_cnt_def)
  from bitmap_scan_lowest_run [OF _ _ this, of 3] show ?thesis
    by (auto simp: bitmap_ok_def bit_cnt_def)
qed

text \<open>
  The overrun is real: in a one-byte bitmap whose only clear bit is the last, a scan for two
  bits returns 7, so the caller takes bit 8, which belongs to whatever follows the bitmap; and
  when nothing follows it, the scan reads outside the memory.
\<close>

theorem bitmap_scan_overruns:
  "bitmap_scan \<lparr>btmp_bytes_len = 1, bits = [0x7f, 0xfe]\<rparr> 2 = Inr 7
   \<and> bitmap_scan \<lparr>btmp_bytes_len = 1, bits = [0x7f]\<rparr> 2 = Inl Bad_Access"
  by code_simp

subsection \<open>Setting a bit\<close>

lemma byte_set_bit:
  fixes b :: u8
  assumes "k < 8"
  shows "bit (ucast ((ucast b :: u32) OR bit_mask (of_nat k)) :: u8) j \<longleftrightarrow> j < 8 \<and> (bit b j \<or> j = k)"
    and "bit (ucast ((ucast b :: u32) AND NOT (bit_mask (of_nat k))) :: u8) j \<longleftrightarrow> bit b j \<and> j \<noteq> k"
  using assms
  by (auto simp: bit_mask_def bit_simps unat_of_nat dest: bit_imp_le_length)

lemma bitmap_set_at:
  assumes "unat i < 8 * length (bits btmp)" and "v = 0 \<or> v = 1"
  shows "\<exists>btmp'. bitmap_set btmp i v = Inr btmp' \<and> btmp_bytes_len btmp' = btmp_bytes_len btmp
    \<and> length (bits btmp') = length (bits btmp)
    \<and> (\<forall>j. bit_at btmp' j \<longleftrightarrow> (if j = unat i then v = 1 else bit_at btmp j))"
proof -
  let ?q = "unat i div 8" and ?k = "unat i mod 8"
  let ?b = "bits btmp ! ?q"
  let ?b' = "if v \<noteq> 0 then ucast ((ucast ?b :: u32) OR bit_mask (i mod 8))
             else ucast ((ucast ?b :: u32) AND NOT (bit_mask (i mod 8))) :: u8"
  let ?r = "btmp\<lparr>bits := (bits btmp)[?q := ?b']\<rparr>"
  have q: "?q < length (bits btmp)" using assms(1) by (simp add: div_less_iff_less_mult mult.commute)
  have b': "bit ?b' j \<longleftrightarrow> (if j = ?k then v = 1 else bit ?b j)" if "j < 8" for j
    using that assms(2) byte_set_bit [of ?k ?b j] by (subst (1 2) mod_8_of_nat) auto
  have "bit_at ?r j \<longleftrightarrow> (if j = unat i then v = 1 else bit_at btmp j)" for j
  proof (cases "j div 8 = ?q")
    case True
    then have "j = unat i \<longleftrightarrow> j mod 8 = ?k" by (metis div_mult_mod_eq)
    with True b' [of "j mod 8"] q show ?thesis by (simp add: bit_at_def)
  next
    case False
    then have "j \<noteq> unat i" by auto
    with False show ?thesis by (simp add: bit_at_def)
  qed
  moreover have "bitmap_set btmp i v = Inr ?r" using q assms(2) by (simp add: bitmap_set_def Let_def)
  ultimately show ?thesis by auto
qed

text \<open>
  \<^verbatim>\<open>bitmap_set\<close> on an index inside the bitmap's memory succeeds, keeps the length, and gives the
  bit the value asked for and every other bit the value it had.
\<close>

theorem bitmap_set_frame:
  assumes "unat i < 8 * length (bits btmp)" and "v = 0 \<or> v = 1"
  shows "\<exists>btmp'. bitmap_set btmp i v = Inr btmp' \<and> btmp_bytes_len btmp' = btmp_bytes_len btmp
    \<and> length (bits btmp') = length (bits btmp)
    \<and> (\<forall>j. bit_at btmp' j \<longleftrightarrow> (if j = unat i then v = 1 else bit_at btmp j))"
  using assms by (rule bitmap_set_at)

theorem bitmap_set_frame_witness:
  "\<exists>btmp'. bitmap_set \<lparr>btmp_bytes_len = 1, bits = [5]\<rparr> 4 1 = Inr btmp' \<and> bit_at btmp' 4 \<and> bit_at btmp' 0"
proof -
  let ?b = "\<lparr>btmp_bytes_len = 1, bits = [5]\<rparr>"
  have "bit_at ?b 0" by code_simp
  with bitmap_set_frame [of 4 ?b 1] show ?thesis by auto
qed

text \<open>The same on the set of used indices; every pool of the kernel uses its bitmap this way.\<close>

lemma bitmap_set_used:
  assumes "bitmap_ok btmp" and "unat i < bit_cnt btmp" and "v = 0 \<or> v = 1"
  obtains btmp' where "bitmap_set btmp i v = Inr btmp'" and "bitmap_ok btmp'"
    and "bit_cnt btmp' = bit_cnt btmp" and "length (bits btmp') = length (bits btmp)"
    and "btmp_bytes_len btmp' = btmp_bytes_len btmp"
    and "used_bits btmp' = (if v = 1 then insert (unat i) (used_bits btmp) else used_bits btmp - {unat i})"
proof -
  have "unat i < 8 * length (bits btmp)" using assms(1,2) by (simp add: bitmap_ok_def bit_cnt_def)
  from bitmap_set_at [OF this assms(3)] obtain btmp' where b:
    "bitmap_set btmp i v = Inr btmp'" "btmp_bytes_len btmp' = btmp_bytes_len btmp"
    "length (bits btmp') = length (bits btmp)"
    "\<And>j. bit_at btmp' j \<longleftrightarrow> (if j = unat i then v = 1 else bit_at btmp j)" by blast
  then have "bit_cnt btmp' = bit_cnt btmp" by (simp add: bit_cnt_def)
  with b assms show thesis
    by (intro that [of btmp']) (auto simp: bitmap_ok_def used_bits_def)
qed

lemma used_bits_free:
  "used_bits btmp \<noteq> {..<bit_cnt btmp} \<longleftrightarrow> (\<exists>k<bit_cnt btmp. \<not> bit_at btmp k)"
  by (auto simp: used_bits_def)

lemma finite_used_bits [simp]: "finite (used_bits btmp)"
  by (simp add: used_bits_def)

lemma used_bits_bound: "used_bits btmp \<subseteq> {..<bit_cnt btmp}"
  by (auto simp: used_bits_def)

text \<open>Scanning for one bit and setting it, the step every pool is made of.\<close>

lemma bitmap_take:
  assumes "bitmap_ok btmp" and "used_bits btmp \<noteq> {..<bit_cnt btmp}"
  obtains i btmp' where "bitmap_scan btmp 1 = Inr i" and "unat i < bit_cnt btmp" and "unat i < 2 ^ 31"
    and "unat i \<notin> used_bits btmp" and "bitmap_set btmp i 1 = Inr btmp'"
    and "bitmap_ok btmp'" and "bit_cnt btmp' = bit_cnt btmp"
    and "length (bits btmp') = length (bits btmp)"
    and "used_bits btmp' = insert (unat i) (used_bits btmp)"
proof -
  from assms(2) have free: "\<exists>k<bit_cnt btmp. \<not> bit_at btmp k" by (simp add: used_bits_free)
  from bitmap_scan_free [OF assms(1) this] obtain i where i: "bitmap_scan btmp 1 = Inr i"
    "unat i < bit_cnt btmp" "\<not> bit_at btmp (unat i)" by blast
  from assms(1) i(2) have "unat i < 2 ^ 31" by (simp add: bitmap_ok_def)
  moreover obtain btmp' where "bitmap_set btmp i 1 = Inr btmp'" "bitmap_ok btmp'"
    "bit_cnt btmp' = bit_cnt btmp" "length (bits btmp') = length (bits btmp)"
    "used_bits btmp' = insert (unat i) (used_bits btmp)"
    using bitmap_set_used [OF assms(1) i(2), of 1] by auto
  ultimately show thesis using i that by (auto simp: used_bits_def)
qed

lemma bitmap_scan_full:
  assumes "bitmap_ok btmp" and "used_bits btmp = {..<bit_cnt btmp}"
  shows "\<exists>e. bitmap_scan btmp cnt = Inl e"
  using assms bitmap_scan_no_free [OF assms(1), of cnt] by (auto simp: used_bits_def)

subsection \<open>The interface of a pool of numbered slots\<close>

text \<open>
  What the kernel expects of each of its pools: taking a slot gives one that was free, a full
  pool does not return, giving a slot back frees that slot and no other. The bitmap is the
  first provider; the process identifiers, the page pools, the inodes and the blocks are
  the others, each in its own theory.
\<close>

primrec take_n :: "('s \<Rightarrow> (nat \<times> 's) res) \<Rightarrow> nat \<Rightarrow> 's \<Rightarrow> (nat list \<times> 's) res" where
  "take_n tk 0 s = Inr ([], s)"
| "take_n tk (Suc n) s =
     bindR (tk s) (\<lambda>(i, s'). bindR (take_n tk n s') (\<lambda>(ks, s''). Inr (i # ks, s'')))"

locale slot_pool =
  fixes ok :: "'s \<Rightarrow> bool" and cap :: "'s \<Rightarrow> nat" and used :: "'s \<Rightarrow> nat set"
    and tk :: "'s \<Rightarrow> (nat \<times> 's) res" and give :: "'s \<Rightarrow> nat \<Rightarrow> 's res"
  assumes used_bound: "ok s \<Longrightarrow> used s \<subseteq> {..<cap s}"
    and take_free: "ok s \<Longrightarrow> used s \<noteq> {..<cap s} \<Longrightarrow>
      \<exists>i s'. tk s = Inr (i, s') \<and> i \<notin> used s \<and> i < cap s \<and> used s' = insert i (used s)
        \<and> ok s' \<and> cap s' = cap s"
    and take_full: "ok s \<Longrightarrow> used s = {..<cap s} \<Longrightarrow> \<exists>e. tk s = Inl e"
    and give_back: "ok s \<Longrightarrow> i < cap s \<Longrightarrow>
      \<exists>s'. give s i = Inr s' \<and> used s' = used s - {i} \<and> ok s' \<and> cap s' = cap s"
begin

lemma take_fresh:
  assumes "ok s" and "tk s = Inr (i, s')"
  shows "i \<notin> used s \<and> i < cap s \<and> used s' = insert i (used s) \<and> ok s' \<and> cap s' = cap s"
proof (cases "used s = {..<cap s}")
  case True
  with assms take_full show ?thesis by fastforce
next
  case False
  with assms take_free show ?thesis by fastforce
qed

lemma take_then_give:
  assumes "ok s" and "tk s = Inr (i, s')"
  shows "\<exists>s''. give s' i = Inr s'' \<and> used s'' = used s \<and> ok s'' \<and> cap s'' = cap s"
proof -
  note t = take_fresh [OF assms]
  then obtain s'' where "give s' i = Inr s''" "used s'' = used s' - {i}" "ok s''" "cap s'' = cap s'"
    using give_back [of s' i] by auto
  with t show ?thesis by auto
qed

lemma finite_used: "ok s \<Longrightarrow> finite (used s)"
  using used_bound finite_subset by blast

lemma card_used: "ok s \<Longrightarrow> card (used s) \<le> cap s"
  using used_bound card_mono [of "{..<cap s}" "used s"] by fastforce

text \<open>As many takes as there are free slots succeed and give different slots; one more does
  not return.\<close>

lemma take_n_distinct:
  assumes "ok s" and "card (used s) + n \<le> cap s"
  shows "\<exists>ks s'. take_n tk n s = Inr (ks, s') \<and> length ks = n \<and> distinct ks
    \<and> set ks \<inter> used s = {} \<and> used s' = used s \<union> set ks \<and> ok s' \<and> cap s' = cap s"
  using assms
proof (induction n arbitrary: s)
  case (Suc n)
  then have "used s \<noteq> {..<cap s}" by auto
  then obtain i s' where t: "tk s = Inr (i, s')" "i \<notin> used s" "used s' = insert i (used s)"
    "ok s'" "cap s' = cap s" using take_free Suc.prems(1) by blast
  then have "card (used s') + n \<le> cap s'" using Suc.prems finite_used by simp
  from Suc.IH [OF t(4) this] obtain ks s'' where r: "take_n tk n s' = Inr (ks, s'')"
    "length ks = n" "distinct ks" "set ks \<inter> used s' = {}" "used s'' = used s' \<union> set ks"
    "ok s''" "cap s'' = cap s'" by blast
  then have "take_n tk (Suc n) s = Inr (i # ks, s'')" using t(1) by simp
  then show ?case using r t by (intro exI [of _ "i # ks"] exI [of _ s'']) auto
qed auto

lemma take_n_exhausts:
  assumes "ok s" and "cap s < card (used s) + n"
  shows "\<exists>e. take_n tk n s = Inl e"
  using assms
proof (induction n arbitrary: s)
  case 0
  then show ?case using card_used [of s] by simp
next
  case (Suc n)
  show ?case
  proof (cases "used s = {..<cap s}")
    case True
    with Suc.prems take_full show ?thesis by fastforce
  next
    case False
    then obtain i s' where t: "tk s = Inr (i, s')" "i \<notin> used s" "used s' = insert i (used s)"
      "ok s'" "cap s' = cap s" using take_free Suc.prems(1) by blast
    then have "cap s' < card (used s') + n" using Suc.prems finite_used by simp
    from Suc.IH [OF t(4) this] t show ?thesis by auto
  qed
qed

end

interpretation bm: slot_pool bitmap_ok bit_cnt used_bits
  "\<lambda>b. bindR (bitmap_scan b 1) (\<lambda>i. bindR (bitmap_set b i 1) (\<lambda>b'. Inr (unat i, b')))"
  "\<lambda>b i. bitmap_set b (of_nat i) 0"
proof unfold_locales
  fix s
  show "used_bits s \<subseteq> {..<bit_cnt s}" by (rule used_bits_bound)
  assume ok: "bitmap_ok s"
  show "\<exists>i s'. bindR (bitmap_scan s 1) (\<lambda>i. bindR (bitmap_set s i 1) (\<lambda>b'. Inr (unat i, b'))) = Inr (i, s')
      \<and> i \<notin> used_bits s \<and> i < bit_cnt s \<and> used_bits s' = insert i (used_bits s)
      \<and> bitmap_ok s' \<and> bit_cnt s' = bit_cnt s"
    if "used_bits s \<noteq> {..<bit_cnt s}"
  proof (rule bitmap_take [OF ok that])
    fix i b' assume "bitmap_scan s 1 = Inr i" "bitmap_set s i 1 = Inr b'" "unat i \<notin> used_bits s"
      "unat i < bit_cnt s" "used_bits b' = insert (unat i) (used_bits s)" "bitmap_ok b'"
      "bit_cnt b' = bit_cnt s"
    then show ?thesis by (intro exI [of _ "unat i"] exI [of _ b']) simp
  qed
  show "\<exists>e. bindR (bitmap_scan s 1) (\<lambda>i. bindR (bitmap_set s i 1) (\<lambda>b'. Inr (unat i, b'))) = Inl e"
    if "used_bits s = {..<bit_cnt s}"
    using bitmap_scan_full [OF ok that, of 1] by auto
  show "\<exists>s'. bitmap_set s (of_nat i) 0 = Inr s' \<and> used_bits s' = used_bits s - {i} \<and> bitmap_ok s'
      \<and> bit_cnt s' = bit_cnt s" if i: "i < bit_cnt s" for i
  proof -
    have u: "unat (of_nat i :: u32) = i"
      using i ok by (simp add: bitmap_ok_def unat_of_nat take_bit_nat_eq_self)
    with i have "unat (of_nat i :: u32) < bit_cnt s" by simp
    from bitmap_set_used [OF ok this, of 0] u show ?thesis by auto
  qed
qed

end
