(* ===== verification/Interrupt.thy ===== *)
theory Interrupt
  imports Prelude
begin

section \<open>Interrupt flag and interrupt table (\<^verbatim>\<open>kernel/interrupt.c\<close>)\<close>

text \<open>
  The interrupt flag is bit 9 of the \<^verbatim>\<open>EFLAGS\<close> register, so the state of this component is the
  register and, for the table, the three arrays \<^verbatim>\<open>idt\<close>, \<^verbatim>\<open>idt_table\<close> and \<^verbatim>\<open>intr_name\<close>. The
  instructions \<^verbatim>\<open>sti\<close> and \<^verbatim>\<open>cli\<close> set and clear the flag. A handler is named by its address.
\<close>

subsection \<open>Switching interrupts on and off\<close>

datatype intr_status = INTR_OFF | INTR_ON

definition EFLAGS_IF :: u32 where
  "EFLAGS_IF = 0x200"

definition sti :: "u32 \<Rightarrow> u32" where
  "sti eflags = eflags OR EFLAGS_IF"

definition cli :: "u32 \<Rightarrow> u32" where
  "cli eflags = eflags AND NOT EFLAGS_IF"

definition intr_get_status :: "u32 \<Rightarrow> intr_status" where
  "intr_get_status eflags = (if eflags AND EFLAGS_IF \<noteq> 0 then INTR_ON else INTR_OFF)"

text \<open>Each gives the old status and the new register.\<close>

definition intr_enable :: "u32 \<Rightarrow> intr_status \<times> u32" where
  "intr_enable eflags =
     (if intr_get_status eflags = INTR_ON then (INTR_ON, eflags) else (INTR_OFF, sti eflags))"

definition intr_disable :: "u32 \<Rightarrow> intr_status \<times> u32" where
  "intr_disable eflags =
     (if intr_get_status eflags = INTR_ON then (INTR_ON, cli eflags) else (INTR_OFF, eflags))"

definition intr_set_status :: "intr_status \<Rightarrow> u32 \<Rightarrow> intr_status \<times> u32" where
  "intr_set_status status eflags =
     (if status = INTR_ON then intr_enable eflags else intr_disable eflags)"

lemma bit_EFLAGS_IF [simp]: "bit EFLAGS_IF n \<longleftrightarrow> n = 9"
proof -
  have eq: "EFLAGS_IF = push_bit 9 1" by (simp add: EFLAGS_IF_def)
  show ?thesis unfolding eq by (simp only: bit_push_bit_iff bit_1_iff possible_bit_word) auto
qed

lemma if_bit: "eflags AND EFLAGS_IF \<noteq> 0 \<longleftrightarrow> bit eflags 9"
proof
  assume a: "eflags AND EFLAGS_IF \<noteq> 0"
  show "bit eflags 9"
  proof (rule ccontr)
    assume "\<not> bit eflags 9"
    then have "eflags AND EFLAGS_IF = 0" by (intro bit_eqI) (auto simp: bit_and_iff)
    with a show False by simp
  qed
next
  assume "bit eflags 9"
  then have "bit (eflags AND EFLAGS_IF) 9" by (simp add: bit_and_iff)
  then show "eflags AND EFLAGS_IF \<noteq> 0" by auto
qed

lemma intr_get_status_iff: "intr_get_status e = INTR_ON \<longleftrightarrow> bit e 9"
  by (simp add: intr_get_status_def if_bit)

lemma intr_get_status_off_iff: "intr_get_status e = INTR_OFF \<longleftrightarrow> \<not> bit e 9"
  by (simp add: intr_get_status_def if_bit)

lemma intr_get_status_sti [simp]: "intr_get_status (sti e) = INTR_ON"
  by (simp add: intr_get_status_iff sti_def bit_simps)

lemma intr_get_status_cli [simp]: "intr_get_status (cli e) = INTR_OFF"
  by (simp add: intr_get_status_off_iff cli_def bit_simps)

lemma intr_disable_off [simp]: "intr_get_status (snd (intr_disable e)) = INTR_OFF"
  by (cases "intr_get_status e") (auto simp: intr_disable_def)

lemma intr_enable_on [simp]: "intr_get_status (snd (intr_enable e)) = INTR_ON"
  by (cases "intr_get_status e") (auto simp: intr_enable_def)

lemma sti_cli: "bit e 9 \<Longrightarrow> sti (cli e) = e"
  by (rule bit_eqI) (auto simp: sti_def cli_def bit_simps)

lemma intr_bracket:
  "intr_get_status (snd (intr_disable e)) = INTR_OFF
   \<and> snd (intr_set_status (fst (intr_disable e)) (snd (intr_disable e))) = e"
proof (cases "intr_get_status e")
  case INTR_OFF
  then show ?thesis by (simp add: intr_disable_def intr_set_status_def)
next
  case INTR_ON
  then have "bit e 9" by (simp add: intr_get_status_iff)
  with INTR_ON show ?thesis
    by (simp add: intr_disable_def intr_set_status_def intr_enable_def sti_cli)
qed

text \<open>
  The bracket every critical section of the kernel uses: \<^verbatim>\<open>intr_disable\<close>, a body that leaves the
  other flags alone, \<^verbatim>\<open>intr_set_status(old_status)\<close>. Inside, interrupts are off; afterwards the
  register is the one before, whatever it was.
\<close>

theorem intr_bracket_restores:
  "intr_get_status (snd (intr_disable e)) = INTR_OFF
   \<and> snd (intr_set_status (fst (intr_disable e)) (snd (intr_disable e))) = e"
  by (rule intr_bracket)

subsection \<open>The interrupt table\<close>

record gate_desc =
  func_offset_low_word :: u16
  selector :: u16
  dcount :: u8
  attribute :: u8
  func_offset_high_word :: u16

definition IDT_DESC_CNT :: nat where
  "IDT_DESC_CNT = 0x81"

definition SELECTOR_K_CODE :: u16 where
  "SELECTOR_K_CODE = push_bit 3 1 + push_bit 2 0 + 0"

definition IDT_DESC_ATTR_DPL0 :: u8 where
  "IDT_DESC_ATTR_DPL0 = push_bit 7 1 + push_bit 5 0 + 0xe"

definition IDT_DESC_ATTR_DPL3 :: u8 where
  "IDT_DESC_ATTR_DPL3 = push_bit 7 1 + push_bit 5 3 + 0xe"

definition make_idt_desc :: "u8 \<Rightarrow> u32 \<Rightarrow> gate_desc" where
  "make_idt_desc attr function =
     \<lparr>func_offset_low_word = ucast (function AND 0x0000ffff),
      selector = SELECTOR_K_CODE,
      dcount = 0,
      attribute = attr,
      func_offset_high_word = ucast (drop_bit 16 (function AND 0xffff0000))\<rparr>"

text \<open>The address the processor puts together from a gate.\<close>

definition gate_offset :: "gate_desc \<Rightarrow> u32" where
  "gate_offset g = push_bit 16 (ucast (func_offset_high_word g)) OR ucast (func_offset_low_word g)"

definition gate_dpl :: "gate_desc \<Rightarrow> u8" where
  "gate_dpl g = drop_bit 5 (attribute g) AND 3"

text \<open>The last vector, 0x80, is the system call gate.\<close>

definition idt_desc_init :: "u32 list \<Rightarrow> u32 \<Rightarrow> gate_desc list" where
  "idt_desc_init intr_entry_table syscall_handler =
     (map (\<lambda>i. make_idt_desc IDT_DESC_ATTR_DPL0 (intr_entry_table ! i)) [0..<IDT_DESC_CNT])
       [IDT_DESC_CNT - 1 := make_idt_desc IDT_DESC_ATTR_DPL3 syscall_handler]"

definition register_handler :: "u32 list \<Rightarrow> u8 \<Rightarrow> u32 \<Rightarrow> u32 list res" where
  "register_handler idt_table vector_no function = wr idt_table (unat vector_no) function"

text \<open>\<^verbatim>\<open>exception_init\<close>: every entry gets the general handler and the name \<^verbatim>\<open>unknow\<close>, then the
  exceptions get their names.\<close>

definition exception_init :: "u32 \<Rightarrow> u32 list \<times> string list" where
  "exception_init general_intr_handler =
     (replicate IDT_DESC_CNT general_intr_handler,
      (replicate IDT_DESC_CNT ''unknow'')
        [0 := ''#DE Divide Error'', 1 := ''#DB Debug Exception'', 2 := ''#INT Interrupt'',
         3 := ''#BP BreakPoint Exception'', 4 := ''#OF OverFlow Exception'',
         5 := ''#BR Bound Range Exceeded Exception'', 6 := ''#UD Invalid Opcode Exception'',
         7 := ''#NM Device Not Available Exception'', 8 := ''#DF Double fault Exception'',
         9 := ''#Coprocessor Segment Overrun'', 10 := ''#TS Invalid TSS Exception'',
         11 := ''#NP Segment Not Present'', 12 := ''#SS Stack fault Exception'',
         13 := ''#GP General Protect Exception'', 14 := ''#PF Page_fault Exception'',
         16 := ''#MF x86 FPU Floating-Point Error'', 17 := ''#AC Alignment Check Exception'',
         18 := ''#MC Machine-Check Exception'', 19 := ''#XM SIMD Floating-Point Exception''])"

text \<open>\<^verbatim>\<open>pic_init\<close>: the writes to the two interrupt controllers, in order (port, byte).\<close>

definition pic_init :: "(u16 \<times> u8) list" where
  "pic_init =
     [(0x20, 0x11), (0x21, 0x20), (0x21, 0x04), (0x21, 0x01),
      (0xa0, 0x11), (0xa1, 0x28), (0xa1, 0x02), (0xa1, 0x01),
      (0x21, 0xf8), (0xa1, 0xbf)]"

text \<open>\<^verbatim>\<open>general_intr_handler\<close>: the two spurious vectors are ignored; any other exception is
  reported on the screen (theory Boot) and the kernel spins.\<close>

definition general_intr_handler :: "u8 \<Rightarrow> unit res" where
  "general_intr_handler vec_nr = (if vec_nr = 0x27 \<or> vec_nr = 0x2f then Inr () else Inl Diverge)"

lemma low_half_mask: "(f :: u32) AND 0x0000ffff = take_bit 16 f"
  by (simp add: take_bit_eq_mask mask_eq_exp_minus_1)

lemma high_half_mask: "drop_bit 16 ((f :: u32) AND 0xffff0000) = drop_bit 16 f"
proof -
  have m: "(0xffff0000 :: u32) = push_bit 16 (mask 16)" by (simp add: mask_eq_exp_minus_1)
  have "bit f (16 + n) \<Longrightarrow> n < 16 \<and> 16 + n < LENGTH(32)" for n
    using bit_imp_le_length [of f "16 + n"] by simp
  then show ?thesis
    unfolding m by (intro bit_eqI) (auto simp only: bit_drop_bit_eq bit_and_iff bit_push_bit_iff
      bit_mask_iff possible_bit_word o_def add_diff_cancel_left')
qed

text \<open>
  Every gate carries its handler's address: the two halves that \<^verbatim>\<open>make_idt_desc\<close> stores are put
  together to the address of the handler, all vectors are kernel-only except 0x80, which user
  code may raise.
\<close>

theorem idt_gates_roundtrip:
  assumes "length tab = IDT_DESC_CNT" and "i < IDT_DESC_CNT"
  shows "gate_offset (idt_desc_init tab sc ! i) = (if i = 0x80 then sc else tab ! i)
    \<and> gate_dpl (idt_desc_init tab sc ! i) = (if i = 0x80 then 3 else 0)"
proof -
  have off: "gate_offset (make_idt_desc a f) = f" for a f
    by (rule bit_eqI)
      (auto simp: gate_offset_def make_idt_desc_def low_half_mask high_half_mask bit_simps
        dest: bit_imp_le_length)
  have dpl: "gate_dpl (make_idt_desc IDT_DESC_ATTR_DPL0 f) = 0"
    "gate_dpl (make_idt_desc IDT_DESC_ATTR_DPL3 f) = 3" for f
    by (simp_all add: gate_dpl_def make_idt_desc_def IDT_DESC_ATTR_DPL0_def IDT_DESC_ATTR_DPL3_def)
  show ?thesis
    using assms by (auto simp: idt_desc_init_def off dpl IDT_DESC_CNT_def nth_list_update)
qed

theorem idt_gates_roundtrip_witness:
  "gate_offset (idt_desc_init (replicate IDT_DESC_CNT 0xc0001500) 0xc0001800 ! 0x80) = 0xc0001800"
  using idt_gates_roundtrip [of "replicate IDT_DESC_CNT 0xc0001500" "0x80" "0xc0001800"]
  by (simp add: IDT_DESC_CNT_def)

end
