(* ===== verification/Klist.thy ===== *)
theory Klist
  imports Prelude Interrupt
begin

section \<open>Doubly linked lists (\<^verbatim>\<open>lib/list.c\<close>)\<close>

text \<open>
  The kernel's lists (ready queue, all threads, waiters of a semaphore, free blocks, open
  inodes, partitions) are intrusive doubly linked lists with a head and a tail element. The
  state is the store of list elements, addressed by 32-bit pointers, and the \<^verbatim>\<open>EFLAGS\<close>
  register, because the two routines that write pointers switch interrupts off around it. An
  address with no element (the null pointer among them) is \<open>None\<close>; following it is \<open>Bad_Access\<close>.

  \<open>dlist h p xs\<close> says that the list structure at \<open>p\<close> holds the elements \<open>xs\<close> in order. The
  lemmas show that each routine is the list operation it is meant to be and leaves other
  lists alone; the locale \<open>klist\<close> is the contract that the other components use, and the
  theories above this one represent a kernel list by the list of its elements.
\<close>

subsection \<open>The store\<close>

record list_elem =
  prev_ptr :: u32
  next_ptr :: u32

type_synonym heap = "u32 \<Rightarrow> list_elem option"

record lstate =
  lheap :: heap
  lflags :: u32

definition get_prev :: "heap \<Rightarrow> u32 \<Rightarrow> u32 res" where
  "get_prev h a = (case h a of None \<Rightarrow> Inl Bad_Access | Some e \<Rightarrow> Inr (prev_ptr e))"

definition get_next :: "heap \<Rightarrow> u32 \<Rightarrow> u32 res" where
  "get_next h a = (case h a of None \<Rightarrow> Inl Bad_Access | Some e \<Rightarrow> Inr (next_ptr e))"

definition set_prev :: "heap \<Rightarrow> u32 \<Rightarrow> u32 \<Rightarrow> heap res" where
  "set_prev h a v =
     (case h a of None \<Rightarrow> Inl Bad_Access | Some e \<Rightarrow> Inr (h(a \<mapsto> e\<lparr>prev_ptr := v\<rparr>)))"

definition set_next :: "heap \<Rightarrow> u32 \<Rightarrow> u32 \<Rightarrow> heap res" where
  "set_next h a v =
     (case h a of None \<Rightarrow> Inl Bad_Access | Some e \<Rightarrow> Inr (h(a \<mapsto> e\<lparr>next_ptr := v\<rparr>)))"

text \<open>\<^verbatim>\<open>struct list\<close> at \<open>p\<close>: the head element at \<open>p\<close>, the tail element 8 bytes further.\<close>

definition head_of :: "u32 \<Rightarrow> u32" where
  "head_of p = p"

definition tail_of :: "u32 \<Rightarrow> u32" where
  "tail_of p = p + 8"

subsection \<open>The routines\<close>

definition list_init :: "u32 \<Rightarrow> lstate \<Rightarrow> lstate res" where
  "list_init plist s =
     bindR (set_prev (lheap s) (head_of plist) 0) (\<lambda>h1.
     bindR (set_next h1 (head_of plist) (tail_of plist)) (\<lambda>h2.
     bindR (set_prev h2 (tail_of plist) (head_of plist)) (\<lambda>h3.
     bindR (set_next h3 (tail_of plist) 0) (\<lambda>h4. Inr (s\<lparr>lheap := h4\<rparr>)))))"

definition list_insert_before :: "u32 \<Rightarrow> u32 \<Rightarrow> lstate \<Rightarrow> lstate res" where
  "list_insert_before before elem s =
     (let (old_status, fl) = intr_disable (lflags s) in
      bindR (get_prev (lheap s) before) (\<lambda>bp.
      bindR (set_next (lheap s) bp elem) (\<lambda>h1.
      bindR (get_prev h1 before) (\<lambda>bp'.
      bindR (set_prev h1 elem bp') (\<lambda>h2.
      bindR (set_next h2 elem before) (\<lambda>h3.
      bindR (set_prev h3 before elem) (\<lambda>h4.
      Inr (s\<lparr>lheap := h4, lflags := snd (intr_set_status old_status fl)\<rparr>))))))))"

definition list_push :: "u32 \<Rightarrow> u32 \<Rightarrow> lstate \<Rightarrow> lstate res" where
  "list_push plist elem s =
     bindR (get_next (lheap s) (head_of plist)) (\<lambda>before. list_insert_before before elem s)"

definition list_append :: "u32 \<Rightarrow> u32 \<Rightarrow> lstate \<Rightarrow> lstate res" where
  "list_append plist elem s = list_insert_before (tail_of plist) elem s"

definition list_remove :: "u32 \<Rightarrow> lstate \<Rightarrow> lstate res" where
  "list_remove elem s =
     (let (old_status, fl) = intr_disable (lflags s) in
      bindR (get_prev (lheap s) elem) (\<lambda>ep.
      bindR (get_next (lheap s) elem) (\<lambda>en.
      bindR (set_next (lheap s) ep en) (\<lambda>h1.
      bindR (get_next h1 elem) (\<lambda>en'.
      bindR (get_prev h1 elem) (\<lambda>ep'.
      bindR (set_prev h1 en' ep') (\<lambda>h2.
      Inr (s\<lparr>lheap := h2, lflags := snd (intr_set_status old_status fl)\<rparr>))))))))"

definition list_pop :: "u32 \<Rightarrow> lstate \<Rightarrow> (u32 \<times> lstate) res" where
  "list_pop plist s =
     bindR (get_next (lheap s) (head_of plist)) (\<lambda>top.
     bindR (list_remove top s) (\<lambda>s'. Inr (top, s')))"

definition list_empty :: "u32 \<Rightarrow> lstate \<Rightarrow> bool res" where
  "list_empty plist s =
     bindR (get_next (lheap s) (head_of plist)) (\<lambda>n. Inr (n = tail_of plist))"

text \<open>The three loops follow the links until the tail; on a damaged list they may never reach
  it, so they are \<open>None\<close> when they do not end.\<close>

partial_function (option) len_loop :: "heap \<Rightarrow> u32 \<Rightarrow> u32 \<Rightarrow> u32 \<Rightarrow> u32 res option" where
  "len_loop h tl_ptr len pt =
     (if pt = tl_ptr then Some (Inr len)
      else case get_next h pt of
        Inl e \<Rightarrow> Some (Inl e)
      | Inr n \<Rightarrow> len_loop h tl_ptr (len + 1) n)"

definition list_len :: "u32 \<Rightarrow> lstate \<Rightarrow> u32 res option" where
  "list_len plist s =
     (case get_next (lheap s) (head_of plist) of
        Inl e \<Rightarrow> Some (Inl e)
      | Inr n \<Rightarrow> len_loop (lheap s) (tail_of plist) 0 n)"

partial_function (option) find_loop :: "heap \<Rightarrow> u32 \<Rightarrow> u32 \<Rightarrow> u32 \<Rightarrow> bool res option" where
  "find_loop h tl_ptr elem pt =
     (if pt = tl_ptr then Some (Inr False)
      else if pt = elem then Some (Inr True)
      else case get_next h pt of
        Inl e \<Rightarrow> Some (Inl e)
      | Inr n \<Rightarrow> find_loop h tl_ptr elem n)"

definition elem_find :: "u32 \<Rightarrow> u32 \<Rightarrow> lstate \<Rightarrow> bool res option" where
  "elem_find plist elem s =
     (case get_next (lheap s) (head_of plist) of
        Inl e \<Rightarrow> Some (Inl e)
      | Inr n \<Rightarrow> find_loop (lheap s) (tail_of plist) elem n)"

text \<open>The callback of \<^verbatim>\<open>list_traversal\<close> may change a state of its own (it adopts children, it
  prints), so it takes and gives a state \<open>'c\<close>; it leaves the links alone.\<close>

partial_function (option) traversal_loop ::
    "(u32 \<Rightarrow> 'c \<Rightarrow> (bool \<times> 'c) res) \<Rightarrow> heap \<Rightarrow> u32 \<Rightarrow> u32 \<Rightarrow> 'c \<Rightarrow> (u32 \<times> 'c) res option" where
  "traversal_loop func h tl_ptr pt c =
     (if pt = tl_ptr then Some (Inr (0, c))
      else case func pt c of
        Inl e \<Rightarrow> Some (Inl e)
      | Inr r \<Rightarrow>
          if fst r then Some (Inr (pt, snd r))
          else case get_next h pt of
            Inl e \<Rightarrow> Some (Inl e)
          | Inr n \<Rightarrow> traversal_loop func h tl_ptr n (snd r))"

definition list_traversal ::
    "u32 \<Rightarrow> (u32 \<Rightarrow> 'c \<Rightarrow> (bool \<times> 'c) res) \<Rightarrow> lstate \<Rightarrow> 'c \<Rightarrow> (u32 \<times> 'c) res option" where
  "list_traversal plist func s c =
     (case list_empty plist s of
        Inl e \<Rightarrow> Some (Inl e)
      | Inr True \<Rightarrow> Some (Inr (0, c))
      | Inr False \<Rightarrow>
          (case get_next (lheap s) (head_of plist) of
             Inl e \<Rightarrow> Some (Inl e)
           | Inr n \<Rightarrow> traversal_loop func (lheap s) (tail_of plist) n c))"

subsection \<open>Links and chains\<close>

definition next_of :: "heap \<Rightarrow> u32 \<Rightarrow> u32" where
  "next_of h a = next_ptr (the (h a))"

definition prev_of :: "heap \<Rightarrow> u32 \<Rightarrow> u32" where
  "prev_of h a = prev_ptr (the (h a))"

definition link :: "heap \<Rightarrow> u32 \<Rightarrow> u32 \<Rightarrow> bool" where
  "link h a b \<longleftrightarrow> a \<in> dom h \<and> b \<in> dom h \<and> next_of h a = b \<and> prev_of h b = a"

fun chain :: "heap \<Rightarrow> u32 list \<Rightarrow> bool" where
  "chain h (a # b # xs) \<longleftrightarrow> link h a b \<and> chain h (b # xs)"
| "chain h xs \<longleftrightarrow> True"

definition dlist :: "heap \<Rightarrow> u32 \<Rightarrow> u32 list \<Rightarrow> bool" where
  "dlist h p xs \<longleftrightarrow> chain h (head_of p # xs @ [tail_of p])
     \<and> distinct (head_of p # xs @ [tail_of p]) \<and> next_of h (tail_of p) = 0"

text \<open>The addresses a list occupies: its head, its elements and its tail.\<close>

definition nodes :: "u32 \<Rightarrow> u32 list \<Rightarrow> u32 set" where
  "nodes p xs = insert (head_of p) (insert (tail_of p) (set xs))"

definition upd_next :: "heap \<Rightarrow> u32 \<Rightarrow> u32 \<Rightarrow> heap" where
  "upd_next h a v = h(a := map_option (\<lambda>e. e\<lparr>next_ptr := v\<rparr>) (h a))"

definition upd_prev :: "heap \<Rightarrow> u32 \<Rightarrow> u32 \<Rightarrow> heap" where
  "upd_prev h a v = h(a := map_option (\<lambda>e. e\<lparr>prev_ptr := v\<rparr>) (h a))"

lemma dom_upd [simp]: "dom (upd_next h a v) = dom h" "dom (upd_prev h a v) = dom h"
  by (auto simp: upd_next_def upd_prev_def split: if_splits)

lemma next_of_upd [simp]:
  "next_of (upd_next h a v) x = (if x = a \<and> a \<in> dom h then v else next_of h x)"
  "next_of (upd_prev h a v) x = next_of h x"
  "prev_of (upd_prev h a v) x = (if x = a \<and> a \<in> dom h then v else prev_of h x)"
  "prev_of (upd_next h a v) x = prev_of h x"
  by (cases "h a"; auto simp: next_of_def prev_of_def upd_next_def upd_prev_def)+

lemma upd_outside [simp]:
  "x \<noteq> a \<Longrightarrow> upd_next h a v x = h x" "x \<noteq> a \<Longrightarrow> upd_prev h a v x = h x"
  by (simp_all add: upd_next_def upd_prev_def)

lemma access_dom [simp]:
  "a \<in> dom h \<Longrightarrow> get_next h a = Inr (next_of h a)"
  "a \<in> dom h \<Longrightarrow> get_prev h a = Inr (prev_of h a)"
  "a \<in> dom h \<Longrightarrow> set_next h a v = Inr (upd_next h a v)"
  "a \<in> dom h \<Longrightarrow> set_prev h a v = Inr (upd_prev h a v)"
  by (auto simp: get_next_def get_prev_def set_next_def set_prev_def next_of_def prev_of_def
      upd_next_def upd_prev_def)

lemma in_set_tl: "x \<in> set (tl xs) \<Longrightarrow> x \<in> set xs"
  by (cases xs) auto

lemma chain_append: "chain h (xs @ a # ys) \<longleftrightarrow> chain h (xs @ [a]) \<and> chain h (a # ys)"
proof (induction xs)
  case (Cons x xs)
  then show ?case by (cases xs) auto
qed simp

text \<open>A chain depends on the next pointers of all its elements but the last and on the previous
  pointers of all but the first.\<close>

lemma chain_cong:
  assumes "dom h' = dom h" and "\<And>x. x \<in> set (butlast xs) \<Longrightarrow> next_of h' x = next_of h x"
    and "\<And>x. x \<in> set (tl xs) \<Longrightarrow> prev_of h' x = prev_of h x"
  shows "chain h' xs = chain h xs"
  using assms
proof (induction h xs rule: chain.induct)
  case (1 h a b xs)
  have "link h' a b = link h a b" using "1.prems" by (simp add: link_def)
  moreover have "chain h' (b # xs) = chain h (b # xs)"
  proof (rule "1.IH")
    show "next_of h' x = next_of h x" if "x \<in> set (butlast (b # xs))" for x
      using "1.prems"(2) [of x] that by simp
    show "prev_of h' x = prev_of h x" if "x \<in> set (tl (b # xs))" for x
      using "1.prems"(3) [of x] that by simp
  qed (rule "1.prems"(1))
  ultimately show ?case by simp
qed auto

lemma chain_dom: "chain h (a # b # xs) \<Longrightarrow> set (a # b # xs) \<subseteq> dom h"
proof (induction xs arbitrary: a b)
  case (Cons c xs)
  then show ?case by (auto simp: link_def)
qed (auto simp: link_def)

lemma chain_insert:
  assumes c: "chain h (us @ a # b # vs)" and d: "distinct (us @ a # e # b # vs)" and e: "e \<in> dom h"
    and h': "h' = upd_prev (upd_next (upd_prev (upd_next h a e) e a) e b) b e"
  shows "chain h' (us @ a # e # b # vs)"
proof -
  have l: "link h a b" and us: "chain h (us @ [a])" and vs: "chain h (b # vs)"
    using c chain_append [of h us a "b # vs"] by auto
  have ab: "a \<in> dom h" "b \<in> dom h" using l by (auto simp: link_def)
  have "chain h' (us @ [a])"
    using us by (subst chain_cong [of h' h])
      (use d h' in \<open>auto simp: butlast_append in_set_butlastD dest!: in_set_tl split: if_splits\<close>)
  moreover have "chain h' (b # vs)"
    using vs by (subst chain_cong [of h' h]) (use d h' in \<open>auto dest!: in_set_butlastD split: if_splits\<close>)
  moreover have "link h' a e" "link h' e b" using ab e d h' by (auto simp: link_def)
  ultimately show ?thesis using chain_append [of h' us a "e # b # vs"] by auto
qed

lemma chain_delete:
  assumes c: "chain h (us @ a # e # b # vs)" and d: "distinct (us @ a # e # b # vs)"
    and h': "h' = upd_prev (upd_next h a b) b a"
  shows "chain h' (us @ a # b # vs)"
proof -
  have us: "chain h (us @ [a])" and vs: "chain h (b # vs)" and ab: "a \<in> dom h" "b \<in> dom h"
    using c chain_append [of h us a "e # b # vs"] by (auto simp: link_def)
  have "chain h' (us @ [a])"
    using us by (subst chain_cong [of h' h])
      (use d h' in \<open>auto simp: butlast_append in_set_butlastD dest!: in_set_tl split: if_splits\<close>)
  moreover have "chain h' (b # vs)"
    using vs by (subst chain_cong [of h' h]) (use d h' in \<open>auto dest!: in_set_butlastD split: if_splits\<close>)
  moreover have "link h' a b" using ab d h' by (auto simp: link_def)
  ultimately show ?thesis using chain_append [of h' us a "b # vs"] by auto
qed

subsection \<open>The routines on lists\<close>

text \<open>\<open>changes_only A h h'\<close>: the two stores hold the same elements and differ at most at \<open>A\<close>.\<close>

definition changes_only :: "u32 set \<Rightarrow> heap \<Rightarrow> heap \<Rightarrow> bool" where
  "changes_only A h h' \<longleftrightarrow> dom h' = dom h \<and> (\<forall>x. x \<notin> A \<longrightarrow> h' x = h x)"

lemma changes_only_refl [simp]: "changes_only A h h"
  by (simp add: changes_only_def)

lemma changes_only_upd:
  assumes "changes_only A h h'" and "a \<in> A"
  shows "changes_only A h (upd_next h' a v)" and "changes_only A h (upd_prev h' a v)"
proof -
  have "x \<noteq> a" if "x \<notin> A" for x using that assms(2) by blast
  then show "changes_only A h (upd_next h' a v)" and "changes_only A h (upd_prev h' a v)"
    using assms(1) by (simp_all add: changes_only_def)
qed

lemma dlist_other:
  assumes "changes_only A h h'" and "dlist h q ys" and "nodes q ys \<inter> A = {}"
  shows "dlist h' q ys"
proof -
  have "h' x = h x" if "x \<in> set (head_of q # ys @ [tail_of q])" for x
    using assms(1,3) that by (auto simp: changes_only_def nodes_def)
  then have "chain h' (head_of q # ys @ [tail_of q]) = chain h (head_of q # ys @ [tail_of q])"
    using assms(1) by (intro chain_cong) (auto simp: changes_only_def next_of_def prev_of_def
        dest!: in_set_butlastD in_set_tl)
  moreover have "next_of h' (tail_of q) = next_of h (tail_of q)"
    using assms(1,3) by (auto simp: changes_only_def nodes_def next_of_def)
  ultimately show ?thesis using assms(2) by (simp add: dlist_def)
qed

lemma dlist_dom: "dlist h p xs \<Longrightarrow> nodes p xs \<subseteq> dom h"
  using chain_dom [of h "head_of p" "hd (xs @ [tail_of p])" "tl (xs @ [tail_of p])"]
  by (cases xs) (auto simp: dlist_def nodes_def)

lemma dlist_first: "dlist h p xs \<Longrightarrow> next_of h (head_of p) = hd (xs @ [tail_of p])"
  by (cases xs) (auto simp: dlist_def link_def)

text \<open>The element before a position and the one after it, as the links see them.\<close>

lemma split_at:
  obtains us' a where "head_of p # us = us' @ [a]" and "a \<in> insert (head_of p) (set us)"
proof (cases "head_of p # us" rule: rev_cases)
  case (snoc ys y)
  then have "y \<in> set (head_of p # us)" by (metis in_set_conv_decomp)
  then have "y \<in> insert (head_of p) (set us)" by simp
  with snoc show thesis by (rule that)
qed simp

lemma dlist_insert:
  assumes d: "dlist (lheap s) p (us @ vs)" and b: "before = hd (vs @ [tail_of p])"
    and e: "elem \<in> dom (lheap s)" "elem \<notin> nodes p (us @ vs)"
  shows "\<exists>s'. list_insert_before before elem s = Inr s' \<and> dlist (lheap s') p (us @ elem # vs)
    \<and> lflags s' = lflags s \<and> changes_only (insert elem (nodes p (us @ vs))) (lheap s) (lheap s')"
proof -
  let ?h = "lheap s"
  obtain us' a where usa: "head_of p # us = us' @ [a]" and a: "a \<in> insert (head_of p) (set us)"
    by (rule split_at)
  obtain vs' where vsb: "vs @ [tail_of p] = before # vs'" using b by (cases vs) auto
  have all: "head_of p # (us @ vs) @ [tail_of p] = us' @ a # before # vs'"
    using arg_cong2 [OF usa vsb, of append] by simp
  have new: "head_of p # (us @ elem # vs) @ [tail_of p] = us' @ a # elem # before # vs'"
    using arg_cong2 [OF usa vsb, of "\<lambda>x y. x @ elem # y"] by simp
  have c: "chain ?h (us' @ a # before # vs')" using d all by (simp only: dlist_def)
  have "distinct (head_of p # (us @ elem # vs) @ [tail_of p])"
    using d e(2) by (auto simp: dlist_def nodes_def)
  then have dist: "distinct (us' @ a # elem # before # vs')" by (simp only: new)
  have l: "link ?h a before" using c chain_append [of ?h us' a "before # vs'"] by auto
  let ?h' = "upd_prev (upd_next (upd_prev (upd_next ?h a elem) elem a) elem before) before elem"
  have run: "list_insert_before before elem s = Inr (s\<lparr>lheap := ?h', lflags := lflags s\<rparr>)"
    using l e intr_bracket [of "lflags s"]
    by (simp add: list_insert_before_def link_def split_beta)
  have ends: "next_of ?h' (tail_of p) = 0"
    using a d e(2) by (auto simp: dlist_def nodes_def)
  have "dlist ?h' p (us @ elem # vs)"
    using chain_insert [OF c dist e(1) refl] dist ends by (simp only: dlist_def new)
  moreover note run
  moreover have "changes_only (insert elem (nodes p (us @ vs))) ?h ?h'"
    using a b by (intro changes_only_upd changes_only_refl; cases vs) (auto simp: nodes_def)
  ultimately show ?thesis by auto
qed

lemma dlist_delete:
  assumes d: "dlist (lheap s) p (us @ elem # vs)"
  shows "\<exists>s'. list_remove elem s = Inr s' \<and> dlist (lheap s') p (us @ vs)
    \<and> lflags s' = lflags s \<and> changes_only (nodes p (us @ vs)) (lheap s) (lheap s')"
proof -
  let ?h = "lheap s"
  obtain us' a where usa: "head_of p # us = us' @ [a]" and a: "a \<in> insert (head_of p) (set us)"
    by (rule split_at)
  obtain b vs' where vsb: "vs @ [tail_of p] = b # vs'" and b: "b \<in> insert (tail_of p) (set vs)"
    by (cases vs) auto
  have all: "head_of p # (us @ elem # vs) @ [tail_of p] = us' @ a # elem # b # vs'"
    using arg_cong2 [OF usa vsb, of "\<lambda>x y. x @ elem # y"] by simp
  have new: "head_of p # (us @ vs) @ [tail_of p] = us' @ a # b # vs'"
    using arg_cong2 [OF usa vsb, of append] by simp
  have c: "chain ?h (us' @ a # elem # b # vs')" using d by (simp only: dlist_def all)
  have dist: "distinct (us' @ a # elem # b # vs')" using d by (simp only: dlist_def all)
  have l: "link ?h a elem" "link ?h elem b"
    using c chain_append [of ?h us' a "elem # b # vs'"] by auto
  let ?h' = "upd_prev (upd_next ?h a b) b a"
  have "elem \<noteq> a" using dist by auto
  then have run: "list_remove elem s = Inr (s\<lparr>lheap := ?h', lflags := lflags s\<rparr>)"
    using l intr_bracket [of "lflags s"]
    by (simp add: list_remove_def link_def split_beta)
  have "distinct (us' @ a # b # vs')" using dist by simp
  moreover have "next_of ?h' (tail_of p) = 0" using a d by (auto simp: dlist_def)
  ultimately have "dlist ?h' p (us @ vs)"
    using chain_delete [OF c dist refl] by (simp only: dlist_def new)
  moreover note run
  moreover have "changes_only (nodes p (us @ vs)) ?h ?h'"
    using a b by (intro changes_only_upd changes_only_refl) (auto simp: nodes_def)
  ultimately show ?thesis by auto
qed

lemma list_init_dlist:
  assumes "head_of p \<in> dom (lheap s)" and "tail_of p \<in> dom (lheap s)"
  shows "\<exists>s'. list_init p s = Inr s' \<and> dlist (lheap s') p [] \<and> lflags s' = lflags s
    \<and> changes_only (nodes p []) (lheap s) (lheap s')"
proof -
  have ne: "head_of p \<noteq> tail_of p" by (simp add: head_of_def tail_of_def)
  let ?h = "upd_next (upd_prev (upd_next (upd_prev (lheap s) (head_of p) 0) (head_of p) (tail_of p))
      (tail_of p) (head_of p)) (tail_of p) 0"
  have "list_init p s = Inr (s\<lparr>lheap := ?h\<rparr>)"
    using assms by (simp add: list_init_def)
  moreover have "dlist ?h p []" using assms ne by (auto simp: dlist_def link_def)
  moreover have "changes_only (nodes p []) (lheap s) ?h"
    by (intro changes_only_upd changes_only_refl) (auto simp: nodes_def)
  ultimately show ?thesis by auto
qed

lemma list_push_dlist:
  assumes "dlist (lheap s) p xs" and "e \<in> dom (lheap s)" and "e \<notin> nodes p xs"
  shows "\<exists>s'. list_push p e s = Inr s' \<and> dlist (lheap s') p (e # xs) \<and> lflags s' = lflags s
    \<and> changes_only (insert e (nodes p xs)) (lheap s) (lheap s')"
  using assms dlist_insert [of s p "[]" xs "hd (xs @ [tail_of p])" e] dlist_first [OF assms(1)]
    dlist_dom [OF assms(1)] by (auto simp: list_push_def nodes_def)

lemma list_append_dlist:
  assumes "dlist (lheap s) p xs" and "e \<in> dom (lheap s)" and "e \<notin> nodes p xs"
  shows "\<exists>s'. list_append p e s = Inr s' \<and> dlist (lheap s') p (xs @ [e]) \<and> lflags s' = lflags s
    \<and> changes_only (insert e (nodes p xs)) (lheap s) (lheap s')"
  using assms dlist_insert [of s p xs "[]" "tail_of p" e] by (auto simp: list_append_def)

lemma list_pop_dlist:
  assumes "dlist (lheap s) p (x # xs)"
  shows "\<exists>s'. list_pop p s = Inr (x, s') \<and> dlist (lheap s') p xs \<and> lflags s' = lflags s
    \<and> changes_only (nodes p xs) (lheap s) (lheap s')"
proof -
  have "get_next (lheap s) (head_of p) = Inr x"
    using dlist_first [OF assms] dlist_dom [OF assms] by (auto simp: nodes_def)
  then show ?thesis using dlist_delete [of s p "[]" x xs] assms by (auto simp: list_pop_def)
qed

text \<open>Popping an empty list unlinks its tail, whose next pointer is null.\<close>

lemma list_pop_empty:
  assumes "dlist (lheap s) p []" and "lheap s 0 = None"
  shows "list_pop p s = Inl Bad_Access"
proof -
  have l: "link (lheap s) (head_of p) (tail_of p)" and z: "next_of (lheap s) (tail_of p) = 0"
    and ne: "head_of p \<noteq> tail_of p"
    using assms(1) by (auto simp: dlist_def)
  then have "set_prev (upd_next (lheap s) (head_of p) 0) 0 (head_of p) = Inl Bad_Access"
    using assms(2) by (auto simp: set_prev_def upd_next_def link_def)
  with l z ne show ?thesis
    by (auto simp: list_pop_def list_remove_def link_def split_beta)
qed

lemma list_empty_dlist: "dlist (lheap s) p xs \<Longrightarrow> list_empty p s = Inr (xs = [])"
  using dlist_first [of "lheap s" p xs] dlist_dom [of "lheap s" p xs]
  by (cases xs) (auto simp: list_empty_def nodes_def dlist_def)

subsection \<open>The loops end on a list\<close>

lemma chain_step:
  assumes "chain h (y # ys @ [t])"
  shows "get_next h y = Inr (hd (ys @ [t]))" and "chain h (ys @ [t])"
  using assms by (cases ys; auto simp: link_def)+

lemma len_loop_chain:
  "chain h (ys @ [t]) \<Longrightarrow> t \<notin> set ys \<Longrightarrow>
   len_loop h t n (hd (ys @ [t])) = Some (Inr (n + of_nat (length ys)))"
proof (induction ys arbitrary: n)
  case Nil
  then show ?case by (simp add: len_loop.simps)
next
  case (Cons y ys)
  then show ?case
    using chain_step [of h y ys t] by (subst len_loop.simps) (auto simp: algebra_simps)
qed

lemma find_loop_chain:
  "chain h (ys @ [t]) \<Longrightarrow> t \<notin> set ys \<Longrightarrow>
   find_loop h t e (hd (ys @ [t])) = Some (Inr (e \<in> set ys))"
proof (induction ys)
  case Nil
  then show ?case by (simp add: find_loop.simps)
next
  case (Cons y ys)
  then show ?case
    using chain_step [of h y ys t] by (subst find_loop.simps) auto
qed

text \<open>The traversal on the list of elements: the callback's state goes from element to element
  until the callback says true; the null pointer stands for "none".\<close>

fun traverse :: "(u32 \<Rightarrow> 'c \<Rightarrow> (bool \<times> 'c) res) \<Rightarrow> u32 list \<Rightarrow> 'c \<Rightarrow> (u32 \<times> 'c) res" where
  "traverse func [] c = Inr (0, c)"
| "traverse func (x # xs) c =
     bindR (func x c) (\<lambda>r. if fst r then Inr (x, snd r) else traverse func xs (snd r))"

lemma traversal_loop_chain:
  "chain h (ys @ [t]) \<Longrightarrow> t \<notin> set ys \<Longrightarrow>
   traversal_loop func h t (hd (ys @ [t])) c = Some (traverse func ys c)"
proof (induction ys arbitrary: c)
  case Nil
  then show ?case by (simp add: traversal_loop.simps)
next
  case (Cons y ys)
  then show ?case
    using chain_step [of h y ys t]
    by (subst traversal_loop.simps) (auto simp: bindR_def split: sum.split)
qed

lemma dlist_walk:
  assumes "dlist h p xs"
  shows "chain h (xs @ [tail_of p])" and "tail_of p \<notin> set xs"
    and "get_next h (head_of p) = Inr (hd (xs @ [tail_of p]))"
  using assms chain_step [of h "head_of p" xs "tail_of p"] by (auto simp: dlist_def)

lemma list_len_dlist: "dlist (lheap s) p xs \<Longrightarrow> list_len p s = Some (Inr (of_nat (length xs)))"
  using dlist_walk [of "lheap s" p xs] len_loop_chain [of "lheap s" xs "tail_of p" 0]
  by (simp add: list_len_def)

lemma elem_find_dlist: "dlist (lheap s) p xs \<Longrightarrow> elem_find p e s = Some (Inr (e \<in> set xs))"
  using dlist_walk [of "lheap s" p xs] find_loop_chain [of "lheap s" xs "tail_of p" e]
  by (simp add: elem_find_def)

lemma list_traversal_dlist:
  "dlist (lheap s) p xs \<Longrightarrow> list_traversal p func s c = Some (traverse func xs c)"
  using dlist_walk [of "lheap s" p xs] traversal_loop_chain [of "lheap s" xs "tail_of p" func c]
  by (cases "xs = []") (simp_all add: list_traversal_def list_empty_dlist)

subsection \<open>The contract of a kernel list\<close>

text \<open>
  What the scheduler, the semaphores and the allocator use of a list. \<open>rep h xs\<close>: the state \<open>h\<close>
  represents \<open>xs\<close>; \<open>avail h e\<close>: \<open>e\<close> may be put into the list when it is not in it.
\<close>

text \<open>Appending several elements, and popping several.\<close>

primrec append_all :: "('e \<Rightarrow> 'h \<Rightarrow> 'h res) \<Rightarrow> 'e list \<Rightarrow> 'h \<Rightarrow> 'h res" where
  "append_all app [] h = Inr h"
| "append_all app (e # es) h = bindR (app e h) (append_all app es)"

primrec pop_n :: "('h \<Rightarrow> ('e \<times> 'h) res) \<Rightarrow> nat \<Rightarrow> 'h \<Rightarrow> ('e list \<times> 'h) res" where
  "pop_n pp 0 h = Inr ([], h)"
| "pop_n pp (Suc n) h =
     bindR (pp h) (\<lambda>(x, h'). bindR (pop_n pp n h') (\<lambda>(xs, h''). Inr (x # xs, h'')))"

locale klist =
  fixes rep :: "'h \<Rightarrow> 'e list \<Rightarrow> bool" and avail :: "'h \<Rightarrow> 'e \<Rightarrow> bool"
    and push :: "'e \<Rightarrow> 'h \<Rightarrow> 'h res" and append :: "'e \<Rightarrow> 'h \<Rightarrow> 'h res"
    and remove :: "'e \<Rightarrow> 'h \<Rightarrow> 'h res" and pop :: "'h \<Rightarrow> ('e \<times> 'h) res"
    and empty :: "'h \<Rightarrow> bool res" and find :: "'e \<Rightarrow> 'h \<Rightarrow> bool res option"
  assumes rep_distinct: "rep h xs \<Longrightarrow> distinct xs"
    and rep_push: "rep h xs \<Longrightarrow> avail h e \<Longrightarrow> e \<notin> set xs \<Longrightarrow>
      \<exists>h'. push e h = Inr h' \<and> rep h' (e # xs) \<and> avail h' = avail h"
    and rep_append: "rep h xs \<Longrightarrow> avail h e \<Longrightarrow> e \<notin> set xs \<Longrightarrow>
      \<exists>h'. append e h = Inr h' \<and> rep h' (xs @ [e]) \<and> avail h' = avail h"
    and rep_remove: "rep h (us @ e # vs) \<Longrightarrow>
      \<exists>h'. remove e h = Inr h' \<and> rep h' (us @ vs) \<and> avail h' = avail h"
    and rep_pop: "rep h (x # xs) \<Longrightarrow> \<exists>h'. pop h = Inr (x, h') \<and> rep h' xs \<and> avail h' = avail h"
    and rep_empty: "rep h xs \<Longrightarrow> empty h = Inr (xs = [])"
    and rep_find: "rep h xs \<Longrightarrow> find e h = Some (Inr (e \<in> set xs))"
begin

lemma push_then_pop:
  assumes "rep h xs" and "avail h e" and "e \<notin> set xs"
  shows "\<exists>h' h''. push e h = Inr h' \<and> pop h' = Inr (e, h'') \<and> rep h'' xs"
proof -
  obtain h' where "push e h = Inr h'" "rep h' (e # xs)" using rep_push assms by blast
  then show ?thesis using rep_pop by blast
qed

lemma append_then_remove:
  assumes "rep h xs" and "avail h e" and "e \<notin> set xs"
  shows "\<exists>h' h''. append e h = Inr h' \<and> remove e h' = Inr h'' \<and> rep h'' xs"
proof -
  obtain h' where "append e h = Inr h'" "rep h' (xs @ [e])" using rep_append assms by blast
  then show ?thesis using rep_remove [of h' xs e "[]"] by auto
qed

lemma append_all_rep:
  assumes "rep h xs" and "\<forall>e\<in>set es. avail h e" and "distinct (xs @ es)"
  shows "\<exists>h'. append_all append es h = Inr h' \<and> rep h' (xs @ es)"
  using assms
proof (induction es arbitrary: h xs)
  case (Cons e es)
  then obtain h' where h': "append e h = Inr h'" "rep h' (xs @ [e])" "avail h' = avail h"
    using rep_append [of h xs e] by auto
  with Cons.IH [of h' "xs @ [e]"] Cons.prems show ?case by auto
qed simp

lemma pop_n_rep:
  "rep h (xs @ ys) \<Longrightarrow> \<exists>h'. pop_n pop (length xs) h = Inr (xs, h') \<and> rep h' ys"
proof (induction xs arbitrary: h)
  case (Cons x xs)
  then obtain h' where "pop h = Inr (x, h')" "rep h' (xs @ ys)" using rep_pop [of h x] by auto
  with Cons.IH show ?case by fastforce
qed auto

text \<open>First in, first out.\<close>

lemma fifo:
  assumes "rep h []" and "\<forall>e\<in>set es. avail h e" and "distinct es"
  shows "\<exists>h' h''. append_all append es h = Inr h' \<and> pop_n pop (length es) h' = Inr (es, h'') \<and> rep h'' []"
proof -
  obtain h' where "append_all append es h = Inr h'" "rep h' (es @ [])" using append_all_rep assms by force
  then show ?thesis using pop_n_rep by blast
qed

end

text \<open>The pointer routines keep the contract, for the list structure at any address.\<close>

interpretation pl: klist "\<lambda>s xs. dlist (lheap (s :: lstate)) p xs"
  "\<lambda>s e. e \<in> dom (lheap s) \<and> e \<noteq> head_of p \<and> e \<noteq> tail_of p"
  "list_push p" "list_append p" list_remove "list_pop p" "list_empty p" "elem_find p"
  for p
proof unfold_locales
  fix h :: lstate and xs e us vs x
  show "distinct xs" if "dlist (lheap h) p xs" using that by (simp add: dlist_def)
  show "\<exists>h'. list_push p e h = Inr h' \<and> dlist (lheap h') p (e # xs) \<and> (\<lambda>e. e \<in> dom (lheap h')
      \<and> e \<noteq> head_of p \<and> e \<noteq> tail_of p) = (\<lambda>e. e \<in> dom (lheap h) \<and> e \<noteq> head_of p \<and> e \<noteq> tail_of p)"
    if "dlist (lheap h) p xs" "e \<in> dom (lheap h) \<and> e \<noteq> head_of p \<and> e \<noteq> tail_of p" "e \<notin> set xs"
    using list_push_dlist [OF that(1), of e] that(2,3) by (auto simp: nodes_def changes_only_def)
  show "\<exists>h'. list_append p e h = Inr h' \<and> dlist (lheap h') p (xs @ [e]) \<and> (\<lambda>e. e \<in> dom (lheap h')
      \<and> e \<noteq> head_of p \<and> e \<noteq> tail_of p) = (\<lambda>e. e \<in> dom (lheap h) \<and> e \<noteq> head_of p \<and> e \<noteq> tail_of p)"
    if "dlist (lheap h) p xs" "e \<in> dom (lheap h) \<and> e \<noteq> head_of p \<and> e \<noteq> tail_of p" "e \<notin> set xs"
    using list_append_dlist [OF that(1), of e] that(2,3) by (auto simp: nodes_def changes_only_def)
  show "\<exists>h'. list_remove e h = Inr h' \<and> dlist (lheap h') p (us @ vs) \<and> (\<lambda>e. e \<in> dom (lheap h')
      \<and> e \<noteq> head_of p \<and> e \<noteq> tail_of p) = (\<lambda>e. e \<in> dom (lheap h) \<and> e \<noteq> head_of p \<and> e \<noteq> tail_of p)"
    if "dlist (lheap h) p (us @ e # vs)"
    using dlist_delete [OF that] by (auto simp: changes_only_def)
  show "\<exists>h'. list_pop p h = Inr (x, h') \<and> dlist (lheap h') p xs \<and> (\<lambda>e. e \<in> dom (lheap h')
      \<and> e \<noteq> head_of p \<and> e \<noteq> tail_of p) = (\<lambda>e. e \<in> dom (lheap h) \<and> e \<noteq> head_of p \<and> e \<noteq> tail_of p)"
    if "dlist (lheap h) p (x # xs)"
    using list_pop_dlist [OF that] by (auto simp: changes_only_def)
  show "list_empty p h = Inr (xs = [])" if "dlist (lheap h) p xs" by (rule list_empty_dlist [OF that])
  show "elem_find p e h = Some (Inr (e \<in> set xs))" if "dlist (lheap h) p xs"
    by (rule elem_find_dlist [OF that])
qed

subsection \<open>Lists without pointers\<close>

text \<open>
  The theories above this one keep the plain list of the elements. A routine whose pointer
  version would damage the links (the element is in the list already, or is not in it) is
  \<open>Bad_Access\<close>.
\<close>

definition kl_push :: "'e \<Rightarrow> 'e list \<Rightarrow> 'e list res" where
  "kl_push e xs = (if e \<in> set xs then Inl Bad_Access else Inr (e # xs))"

definition kl_append :: "'e \<Rightarrow> 'e list \<Rightarrow> 'e list res" where
  "kl_append e xs = (if e \<in> set xs then Inl Bad_Access else Inr (xs @ [e]))"

definition kl_remove :: "'e \<Rightarrow> 'e list \<Rightarrow> 'e list res" where
  "kl_remove e xs = (if e \<in> set xs then Inr (remove1 e xs) else Inl Bad_Access)"

definition kl_pop :: "'e list \<Rightarrow> ('e \<times> 'e list) res" where
  "kl_pop xs = (case xs of [] \<Rightarrow> Inl Bad_Access | x # ys \<Rightarrow> Inr (x, ys))"

lemma kl_append_ok [simp, res_simps]: "e \<notin> set xs \<Longrightarrow> kl_append e xs = Inr (xs @ [e])"
  by (simp add: kl_append_def)

lemma kl_append_eq_Inr [res_elims]: "kl_append e xs = Inr ys \<longleftrightarrow> e \<notin> set xs \<and> ys = xs @ [e]"
  by (auto simp: kl_append_def)

lemma kl_push_ok [simp, res_simps]: "e \<notin> set xs \<Longrightarrow> kl_push e xs = Inr (e # xs)"
  by (simp add: kl_push_def)

lemma kl_push_eq_Inr [res_elims]: "kl_push e xs = Inr ys \<longleftrightarrow> e \<notin> set xs \<and> ys = e # xs"
  by (auto simp: kl_push_def)

lemma kl_remove_ok [simp, res_simps]: "e \<in> set xs \<Longrightarrow> kl_remove e xs = Inr (remove1 e xs)"
  by (simp add: kl_remove_def)

lemma kl_remove_eq_Inr [res_elims]: "kl_remove e xs = Inr ys \<longleftrightarrow> e \<in> set xs \<and> ys = remove1 e xs"
  by (auto simp: kl_remove_def)

lemma kl_pop_Cons [simp, res_simps]: "kl_pop (x # xs) = Inr (x, xs)"
  by (simp add: kl_pop_def)

lemma kl_pop_Nil [simp, res_simps]: "kl_pop [] = Inl Bad_Access"
  by (simp add: kl_pop_def)

lemma kl_pop_eq_Inr [res_elims]: "kl_pop xs = Inr r \<longleftrightarrow> xs = fst r # snd r"
  by (cases xs; cases r) auto

interpretation kl: klist "\<lambda>h xs. h = xs \<and> distinct xs" "\<lambda>h e. True" kl_push kl_append kl_remove kl_pop
  "\<lambda>h. Inr (h = [])" "\<lambda>e h. Some (Inr (e \<in> set h))"
  by unfold_locales (auto simp: remove1_append)

text \<open>Every run on the plain list is matched by the pointer routines.\<close>

lemma kl_append_refines:
  assumes "kl_append e xs = Inr ys" and "dlist (lheap s) p xs" and "e \<in> dom (lheap s)"
    and "e \<noteq> head_of p" and "e \<noteq> tail_of p"
  shows "\<exists>s'. list_append p e s = Inr s' \<and> dlist (lheap s') p ys"
  using list_append_dlist [OF assms(2,3)] assms by (auto simp: res_elims nodes_def)

lemma kl_remove_refines:
  assumes "kl_remove e xs = Inr ys" and "dlist (lheap s) p xs"
  shows "\<exists>s'. list_remove e s = Inr s' \<and> dlist (lheap s') p ys"
proof -
  obtain us vs where "xs = us @ e # vs" "e \<notin> set us"
    using assms(1) split_list_first [of e xs] by (auto simp: res_elims)
  then show ?thesis using dlist_delete [of s p us e vs] assms by (auto simp: res_elims remove1_append)
qed

lemma kl_pop_refines:
  assumes "kl_pop xs = Inr (x, ys)" and "dlist (lheap s) p xs"
  shows "\<exists>s'. list_pop p s = Inr (x, s') \<and> dlist (lheap s') p ys"
  using list_pop_dlist [of s p x ys] assms by (auto simp: res_elims)

subsection \<open>What a caller of the pointer routines may rely on\<close>

text \<open>
  \<^verbatim>\<open>list_append\<close> puts a fresh element behind the elements of its list, gives the interrupt flag
  back as it was, and leaves every list that shares no element with it alone.
\<close>

theorem list_append_behind:
  assumes "dlist (lheap s) p xs" and "e \<in> dom (lheap s)" and "e \<notin> nodes p xs"
    and "dlist (lheap s) q ys" and "nodes q ys \<inter> insert e (nodes p xs) = {}"
  shows "\<exists>s'. list_append p e s = Inr s' \<and> dlist (lheap s') p (xs @ [e]) \<and> dlist (lheap s') q ys
    \<and> lflags s' = lflags s"
  using list_append_dlist [OF assms(1-3)] dlist_other [OF _ assms(4)] assms(5) by blast

text \<open>Three elements in a small store: the head at 16, the tail at 24, a free element at 64, and
  a second, empty list at 32.\<close>

definition small_heap :: heap where
  "small_heap = [16 \<mapsto> \<lparr>prev_ptr = 0, next_ptr = 24\<rparr>, 24 \<mapsto> \<lparr>prev_ptr = 16, next_ptr = 0\<rparr>,
     64 \<mapsto> \<lparr>prev_ptr = 0, next_ptr = 0\<rparr>, 32 \<mapsto> \<lparr>prev_ptr = 0, next_ptr = 40\<rparr>,
     40 \<mapsto> \<lparr>prev_ptr = 32, next_ptr = 0\<rparr>]"

lemma small_heap_lists: "dlist small_heap 16 []" "dlist small_heap 32 []" "64 \<in> dom small_heap"
  by (simp_all add: dlist_def link_def small_heap_def head_of_def tail_of_def next_of_def prev_of_def)

theorem list_append_behind_witness:
  "\<exists>s'. list_append 16 64 \<lparr>lheap = small_heap, lflags = 0x202\<rparr> = Inr s'
     \<and> dlist (lheap s') 16 [64] \<and> dlist (lheap s') 32 [] \<and> lflags s' = 0x202"
  using list_append_behind [of "\<lparr>lheap = small_heap, lflags = 0x202\<rparr>" 16 "[]" 64 32 "[]"]
    small_heap_lists by (simp add: nodes_def head_of_def tail_of_def)

text \<open>
  \<^verbatim>\<open>list_remove\<close> takes out the element it is given, wherever it is in its list, keeps the order of
  the others, gives the interrupt flag back as it was, and leaves every other list alone.
\<close>

theorem list_remove_unlinks:
  assumes "dlist (lheap s) p (us @ e # vs)" and "dlist (lheap s) q ys"
    and "nodes q ys \<inter> nodes p (us @ e # vs) = {}"
  shows "\<exists>s'. list_remove e s = Inr s' \<and> dlist (lheap s') p (us @ vs) \<and> dlist (lheap s') q ys
    \<and> lflags s' = lflags s"
proof -
  have "nodes p (us @ vs) \<subseteq> nodes p (us @ e # vs)" by (auto simp: nodes_def)
  then show ?thesis using dlist_delete [OF assms(1)] dlist_other [OF _ assms(2)] assms(3) by blast
qed

theorem list_remove_unlinks_witness:
  "\<exists>s'. list_remove 64 \<lparr>lheap = small_heap(16 \<mapsto> \<lparr>prev_ptr = 0, next_ptr = 64\<rparr>,
       64 \<mapsto> \<lparr>prev_ptr = 16, next_ptr = 24\<rparr>, 24 \<mapsto> \<lparr>prev_ptr = 64, next_ptr = 0\<rparr>), lflags = 0x202\<rparr> = Inr s'
     \<and> dlist (lheap s') 16 [] \<and> dlist (lheap s') 32 []"
proof -
  let ?h = "small_heap(16 \<mapsto> \<lparr>prev_ptr = 0, next_ptr = 64\<rparr>,
    64 \<mapsto> \<lparr>prev_ptr = 16, next_ptr = 24\<rparr>, 24 \<mapsto> \<lparr>prev_ptr = 64, next_ptr = 0\<rparr>)"
  have "dlist ?h 16 [64]" "dlist ?h 32 []"
    by (simp_all add: dlist_def link_def small_heap_def head_of_def tail_of_def next_of_def prev_of_def)
  then show ?thesis
    using list_remove_unlinks [of "\<lparr>lheap = ?h, lflags = 0x202\<rparr>" 16 "[]" 64 "[]" 32 "[]"]
    by (auto simp: nodes_def head_of_def tail_of_def)
qed

text \<open>
  First in, first out: elements appended to an empty list with \<^verbatim>\<open>list_append\<close> come back from
  \<^verbatim>\<open>list_pop\<close> in the order they went in, and the list is empty again.
\<close>

theorem list_fifo:
  assumes "dlist (lheap s) p []" and "set es \<subseteq> dom (lheap s) - {head_of p, tail_of p}" and "distinct es"
  shows "\<exists>s' s''. append_all (list_append p) es s = Inr s'
    \<and> pop_n (list_pop p) (length es) s' = Inr (es, s'') \<and> dlist (lheap s'') p []"
  using pl.fifo [of s p es] assms by auto

theorem list_fifo_witness:
  "\<exists>s' s''. append_all (list_append 16) [64] \<lparr>lheap = small_heap, lflags = 0x202\<rparr> = Inr s'
    \<and> pop_n (list_pop 16) 1 s' = Inr ([64], s'')"
  using list_fifo [of "\<lparr>lheap = small_heap, lflags = 0x202\<rparr>" 16 "[64]"] small_heap_lists
  by (auto simp: head_of_def tail_of_def)

text \<open>
  The walks along a list end: the length is the number of elements, \<^verbatim>\<open>elem_find\<close> finds exactly the
  elements, and \<^verbatim>\<open>list_traversal\<close> calls its function on the elements in order until it says true.
\<close>

theorem list_walks_end:
  assumes "dlist (lheap s) p xs"
  shows "list_len p s = Some (Inr (of_nat (length xs)))
    \<and> elem_find p e s = Some (Inr (e \<in> set xs))
    \<and> list_traversal p func s c = Some (traverse func xs c)"
  by (simp add: list_len_dlist [OF assms] elem_find_dlist [OF assms] list_traversal_dlist [OF assms])

theorem list_walks_end_witness:
  "list_len 16 \<lparr>lheap = small_heap, lflags = 0x202\<rparr> = Some (Inr 0)"
  using list_walks_end [of "\<lparr>lheap = small_heap, lflags = 0x202\<rparr>" 16 "[]" 64 "\<lambda>e c. Inr (False, c)" 0]
    small_heap_lists by auto

end
