(* ===== verification/Paging.thy ===== *)
theory Paging
  imports Prelude
begin

section \<open>Two-level paging (\<^verbatim>\<open>kernel/memory.c\<close>, the page table part)\<close>

text \<open>
  The kernel reaches its page tables through the last entry of the page directory, which points
  to the directory itself: \<^verbatim>\<open>pde_ptr\<close> and \<^verbatim>\<open>pte_ptr\<close> compute addresses that the processor then
  translates like any other. The state is the physical memory, as 32-bit words at addresses
  that are multiples of 4, and the register \<^verbatim>\<open>CR3\<close>; \<open>vtrans\<close> is the processor's translation
  (the access rights are left out: the kernel runs in ring 0 with write protection off, and the
  translation buffer is left out). An access to a page that is not present is a page fault,
  \<open>Bad_Access\<close>.
\<close>

subsection \<open>The processor's translation\<close>

record cpu =
  pmem :: "u32 \<Rightarrow> u32"
  cr3 :: u32
  eflags :: u32
  esp :: u32
  tss_esp0 :: u32

definition PG_P_1 :: u32 where "PG_P_1 = 1"
definition PG_RW_W :: u32 where "PG_RW_W = 2"
definition PG_US_U :: u32 where "PG_US_U = 4"

definition PDE_IDX :: "u32 \<Rightarrow> u32" where
  "PDE_IDX addr = drop_bit 22 (addr AND 0xffc00000)"

definition PTE_IDX :: "u32 \<Rightarrow> u32" where
  "PTE_IDX addr = drop_bit 12 (addr AND 0x003ff000)"

definition frame_of :: "u32 \<Rightarrow> u32" where
  "frame_of x = x AND 0xfffff000"

definition off_of :: "u32 \<Rightarrow> u32" where
  "off_of x = x AND 0x00000fff"

definition present :: "u32 \<Rightarrow> bool" where
  "present e \<longleftrightarrow> e AND 1 \<noteq> 0"

definition dir_entry_at :: "(u32 \<Rightarrow> u32) \<Rightarrow> u32 \<Rightarrow> u32 \<Rightarrow> u32" where
  "dir_entry_at pm pd v = pm (frame_of pd + PDE_IDX v * 4)"

definition vtrans :: "(u32 \<Rightarrow> u32) \<Rightarrow> u32 \<Rightarrow> u32 \<Rightarrow> u32 option" where
  "vtrans pm pd v =
     (let pde = dir_entry_at pm pd v in
      if \<not> present pde then None
      else let pte = pm (frame_of pde + PTE_IDX v * 4) in
           if \<not> present pte then None else Some (frame_of pte + off_of v))"

definition vread :: "u32 \<Rightarrow> 'a cpu_scheme \<Rightarrow> u32 res" where
  "vread v s = (case vtrans (pmem s) (cr3 s) v of None \<Rightarrow> Inl Bad_Access | Some a \<Rightarrow> Inr (pmem s a))"

definition vwrite :: "u32 \<Rightarrow> u32 \<Rightarrow> 'a cpu_scheme \<Rightarrow> 'a cpu_scheme res" where
  "vwrite v x s = (case vtrans (pmem s) (cr3 s) v of
       None \<Rightarrow> Inl Bad_Access | Some a \<Rightarrow> Inr (s\<lparr>pmem := (pmem s)(a := x)\<rparr>))"

subsection \<open>The kernel's view\<close>

definition pte_ptr :: "u32 \<Rightarrow> u32" where
  "pte_ptr vaddr = 0xffc00000 + drop_bit 10 (vaddr AND 0xffc00000) + PTE_IDX vaddr * 4"

definition pde_ptr :: "u32 \<Rightarrow> u32" where
  "pde_ptr vaddr = 0xfffff000 + PDE_IDX vaddr * 4"

definition addr_v2p :: "u32 \<Rightarrow> 'a cpu_scheme \<Rightarrow> u32 res" where
  "addr_v2p vaddr s =
     bindR (vread (pte_ptr vaddr) s) (\<lambda>pte. Inr ((pte AND 0xfffff000) + (vaddr AND 0x00000fff)))"

definition page_table_pte_remove :: "u32 \<Rightarrow> 'a cpu_scheme \<Rightarrow> 'a cpu_scheme res" where
  "page_table_pte_remove vaddr s =
     bindR (vread (pte_ptr vaddr) s) (\<lambda>pte. vwrite (pte_ptr vaddr) (pte AND NOT PG_P_1) s)"

text \<open>\<^verbatim>\<open>page_table_add\<close> takes the page for a missing page table from \<open>pallocK\<close>, the physical
  allocator of the kernel pool, which the theory of the pools supplies.\<close>

primrec vzero :: "nat \<Rightarrow> u32 \<Rightarrow> 'a cpu_scheme \<Rightarrow> 'a cpu_scheme res" where
  "vzero 0 v s = Inr s"
| "vzero (Suc n) v s = bindR (vwrite v 0 s) (vzero n (v + 4))"

definition page_table_add :: "('a cpu_scheme \<Rightarrow> (u32 \<times> 'a cpu_scheme) res) \<Rightarrow> u32 \<Rightarrow> u32 \<Rightarrow>
    'a cpu_scheme \<Rightarrow> 'a cpu_scheme res" where
  "page_table_add pallocK vaddr page_phyaddr s =
     (let pde = pde_ptr vaddr; pte = pte_ptr vaddr in
      bindR (vread pde s) (\<lambda>d.
      if d AND 0x00000001 \<noteq> 0 then
        bindR (vread pte s) (\<lambda>t.
        ASSERT (t AND 0x00000001 = 0)
          (vwrite pte (page_phyaddr OR PG_US_U OR PG_RW_W OR PG_P_1) s))
      else
        bindR (pallocK s) (\<lambda>(pde_phyaddr, s1).
        bindR (vwrite pde (pde_phyaddr OR PG_US_U OR PG_RW_W OR PG_P_1) s1) (\<lambda>s2.
        bindR (vzero (unat (PAGE_SIZE div 4)) (pte AND 0xfffff000) s2) (\<lambda>s3.
        bindR (vread pte s3) (\<lambda>t.
        ASSERT (t AND 0x00000001 = 0)
          (vwrite pte (page_phyaddr OR PG_US_U OR PG_RW_W OR PG_P_1) s3)))))))"

subsection \<open>Addresses as numbers\<close>

lemma and_mask_div:
  fixes w :: u32
  shows "drop_bit 22 (w AND 0xffc00000) = drop_bit 22 w"
    and "drop_bit 12 (w AND 0x003ff000) = take_bit 10 (drop_bit 12 w)"
    and "w AND 0x00000fff = take_bit 12 w"
    and "w AND 0xfffff000 = push_bit 12 (drop_bit 12 w)"
    and "drop_bit 10 (w AND 0xffc00000) = push_bit 12 (drop_bit 22 w)"
proof -
  have c: "(0xffc00000 :: u32) = NOT (mask 22)" "(0x003ff000 :: u32) = push_bit 12 (mask 10)"
    "(0x00000fff :: u32) = mask 12" "(0xfffff000 :: u32) = NOT (mask 12)"
    by (simp_all add: mask_eq_exp_minus_1 not_eq_complement)
  show "drop_bit 22 (w AND 0xffc00000) = drop_bit 22 w"
    unfolding c by (rule bit_eqI) (auto simp: bit_simps dest: bit_imp_le_length)
  show "drop_bit 12 (w AND 0x003ff000) = take_bit 10 (drop_bit 12 w)"
    unfolding c by (rule bit_eqI) (auto simp: bit_simps dest: bit_imp_le_length)
  show "w AND 0x00000fff = take_bit 12 w"
    unfolding c by (rule bit_eqI) (auto simp: bit_simps dest: bit_imp_le_length)
  show "w AND 0xfffff000 = push_bit 12 (drop_bit 12 w)"
    unfolding c by (rule bit_eqI) (auto simp: bit_simps dest: bit_imp_le_length)
  show "drop_bit 10 (w AND 0xffc00000) = push_bit 12 (drop_bit 22 w)"
    unfolding c by (rule bit_eqI) (auto simp: bit_simps dest: bit_imp_le_length)
qed

lemma unat_parts:
  "unat (PDE_IDX v) = unat v div 2 ^ 22"
  "unat (PTE_IDX v) = unat v div 2 ^ 12 mod 2 ^ 10"
  "unat (off_of v) = unat v mod 2 ^ 12"
  "unat (frame_of v) = unat v div 2 ^ 12 * 2 ^ 12"
proof -
  show "unat (PDE_IDX v) = unat v div 2 ^ 22"
    unfolding PDE_IDX_def and_mask_div unsigned_drop_bit_eq
    by (simp add: drop_bit_eq_div [where 'a = nat] take_bit_nat_eq_self [OF unat_u32_lt])
  show "unat (PTE_IDX v) = unat v div 2 ^ 12 mod 2 ^ 10"
    unfolding PTE_IDX_def and_mask_div unsigned_take_bit_eq unsigned_drop_bit_eq
    by (simp add: drop_bit_eq_div [where 'a = nat] take_bit_eq_mod [where 'a = nat]
        mod_less [OF unat_u32_lt [simplified]])
  show "unat (off_of v) = unat v mod 2 ^ 12"
    unfolding off_of_def and_mask_div unsigned_take_bit_eq
    by (simp add: take_bit_eq_mod [where 'a = nat])
  have "unat v div 4096 * 4096 \<le> unat v" by (rule div_times_less_eq_dividend)
  also have "\<dots> < 2 ^ 32" by (rule unat_u32_lt)
  finally show "unat (frame_of v) = unat v div 2 ^ 12 * 2 ^ 12"
    unfolding frame_of_def and_mask_div unsigned_push_bit_eq unsigned_drop_bit_eq
    by (simp add: drop_bit_eq_div [where 'a = nat] push_bit_eq_mult [where 'a = nat]
        take_bit_nat_eq_self take_bit_nat_eq_self [OF unat_u32_lt])
qed

text \<open>Two addresses with the same parts are the same.\<close>

lemma addr_eqI:
  fixes a b :: u32
  assumes "unat a div 2 ^ 12 = unat b div 2 ^ 12" and "unat a mod 2 ^ 12 = unat b mod 2 ^ 12"
  shows "a = b"
proof -
  have "unat a = unat b" using assms by (metis div_mult_mod_eq)
  then show ?thesis by (rule unsigned_word_eqI)
qed

lemma idx_less: "unat (PDE_IDX v) < 1024" "unat (PTE_IDX v) < 1024" "unat (off_of v) < 4096"
proof -
  show "unat (PDE_IDX v) < 1024"
    using unat_u32_lt [of v] by (simp add: unat_parts div_less_iff_less_mult)
qed (simp_all add: unat_parts)

lemma frame_off: "frame_of v + off_of v = v"
proof -
  have "unat (frame_of v) + unat (off_of v) = unat v" by (simp add: unat_parts)
  then have "unat (frame_of v + off_of v) = unat v"
    using unat_u32_lt [of v] by (subst unat_add_small) auto
  then show ?thesis by (rule unsigned_word_eqI)
qed

text \<open>A frame and an offset below the page size.\<close>

lemma unat_frame_plus:
  assumes "unat x < 4096"
  shows "unat (frame_of f + x) = unat (frame_of f) + unat x"
proof (rule unat_add_small)
  have "unat f div 4096 < 1048576" using unat_u32_lt [of f] by (simp add: div_less_iff_less_mult)
  then have "unat f div 4096 * 4096 \<le> 1048575 * 4096" by (intro mult_le_mono1) simp
  with assms show "unat (frame_of f) + unat x < 2 ^ LENGTH(32)" by (simp add: unat_parts)
qed

lemma unat_entry [simp]: "unat (PDE_IDX v * 4) = unat (PDE_IDX v) * 4" "unat (PTE_IDX v * 4) = unat (PTE_IDX v) * 4"
  using idx_less [of v] by (subst unat_mult_small; simp)+

lemma frame_plus_parts [simp]:
  assumes "unat x < 4096"
  shows "frame_of (frame_of f + x) = frame_of f" and "off_of (frame_of f + x) = x"
proof -
  have u: "unat (frame_of f + x) = unat f div 4096 * 4096 + unat x"
    using unat_frame_plus [OF assms, of f] by (simp add: unat_parts)
  have "unat (frame_of (frame_of f + x)) = unat (frame_of f)"
    using assms by (simp add: unat_parts(4) u)
  then show "frame_of (frame_of f + x) = frame_of f" by (rule unsigned_word_eqI)
  have "unat (off_of (frame_of f + x)) = unat x"
    using assms by (simp add: unat_parts(3) u)
  then show "off_of (frame_of f + x) = x" by (rule unsigned_word_eqI)
qed

lemma entry_off [simp]: "unat (PDE_IDX v * 4) < 4096" "unat (PTE_IDX v * 4) < 4096"
  using idx_less [of v] by simp_all

lemma frame_plus_entry [simp]:
  "frame_of (frame_of f + PDE_IDX v * 4) = frame_of f" "off_of (frame_of f + PDE_IDX v * 4) = PDE_IDX v * 4"
  "frame_of (frame_of f + PTE_IDX v * 4) = frame_of f" "off_of (frame_of f + PTE_IDX v * 4) = PTE_IDX v * 4"
  by (rule frame_plus_parts, rule entry_off)+

lemma frame_idem [simp]: "frame_of (frame_of f) = frame_of f"
  using frame_plus_parts(1) [of 0 f] by simp

lemma unat_pte_ptr:
  "unat (pte_ptr v) = 0xffc00000 + unat (PDE_IDX v) * 4096 + unat (PTE_IDX v) * 4"
proof -
  have e: "drop_bit 10 (v AND 0xffc00000) = PDE_IDX v * 4096"
    unfolding PDE_IDX_def and_mask_div by (simp add: push_bit_eq_mult)
  have a: "unat (PDE_IDX v * 4096) = unat (PDE_IDX v) * 4096"
    using idx_less(1) [of v] by (subst unat_mult_small) auto
  have "unat (0xffc00000 + PDE_IDX v * 4096) = 0xffc00000 + unat (PDE_IDX v) * 4096"
    using idx_less(1) [of v] a by (subst unat_add_small) auto
  then have "unat (0xffc00000 + PDE_IDX v * 4096 + PTE_IDX v * 4)
      = 0xffc00000 + unat (PDE_IDX v) * 4096 + unat (PTE_IDX v) * 4"
    using idx_less [of v] by (subst unat_add_small) auto
  then show ?thesis by (simp only: pte_ptr_def e)
qed

lemma unat_pde_ptr: "unat (pde_ptr v) = 0xfffff000 + unat (PDE_IDX v) * 4"
  unfolding pde_ptr_def using idx_less(1) [of v] by (subst unat_add_small) auto

lemma block_parts:
  fixes a b n :: nat
  assumes "b < n"
  shows "(a * n + b) div n = a" and "(a * n + b) mod n = b"
  using assms by (simp_all add: div_mult_self3)

lemma pte_ptr_parts [simp]:
  "PDE_IDX (pte_ptr v) = 1023" "PTE_IDX (pte_ptr v) = PDE_IDX v" "off_of (pte_ptr v) = PTE_IDX v * 4"
proof -
  have d: "unat (PDE_IDX v) < 1024" and t: "unat (PTE_IDX v) < 1024" by (rule idx_less)+
  have u: "unat (pte_ptr v) = (1023 * 1024 + unat (PDE_IDX v)) * 4096 + unat (PTE_IDX v) * 4"
    by (simp add: unat_pte_ptr)
  have q: "unat (pte_ptr v) div 4096 = 1023 * 1024 + unat (PDE_IDX v)"
    and r: "unat (pte_ptr v) mod 4096 = unat (PTE_IDX v) * 4"
    unfolding u using t by (simp_all only: block_parts [of "unat (PTE_IDX v) * 4" 4096])
  have "unat (pte_ptr v) div 2 ^ 22 = unat (pte_ptr v) div 4096 div 1024"
    by (simp add: div_mult2_eq [symmetric])
  also have "\<dots> = 1023" unfolding q using d by simp
  finally have "unat (PDE_IDX (pte_ptr v)) = unat (1023 :: u32)" by (simp add: unat_parts)
  then show "PDE_IDX (pte_ptr v) = 1023" by (rule unsigned_word_eqI)
  have "unat (PTE_IDX (pte_ptr v)) = unat (PDE_IDX v)" 
    using d by (simp add: unat_parts(2) q block_parts [of "unat (PDE_IDX v)" 1024 1023, simplified])
  then show "PTE_IDX (pte_ptr v) = PDE_IDX v" by (rule unsigned_word_eqI)
  have "unat (off_of (pte_ptr v)) = unat (PTE_IDX v * 4)" using r by (simp add: unat_parts(3))
  then show "off_of (pte_ptr v) = PTE_IDX v * 4" by (rule unsigned_word_eqI)
qed

lemma pde_ptr_parts [simp]:
  "PDE_IDX (pde_ptr v) = 1023" "PTE_IDX (pde_ptr v) = 1023" "off_of (pde_ptr v) = PDE_IDX v * 4"
proof -
  have d: "unat (PDE_IDX v) < 1024" by (rule idx_less)
  have u: "unat (pde_ptr v) = 1048575 * 4096 + unat (PDE_IDX v) * 4"
    by (simp add: unat_pde_ptr)
  have q: "unat (pde_ptr v) div 4096 = 1048575" and r: "unat (pde_ptr v) mod 4096 = unat (PDE_IDX v) * 4"
    unfolding u using d block_parts [of "unat (PDE_IDX v) * 4" 4096 1048575] by simp_all
  have "unat (pde_ptr v) div 2 ^ 22 = unat (pde_ptr v) div 4096 div 1024"
    by (simp add: div_mult2_eq [symmetric])
  then have "unat (PDE_IDX (pde_ptr v)) = unat (1023 :: u32)" using q by (simp add: unat_parts)
  then show "PDE_IDX (pde_ptr v) = 1023" by (rule unsigned_word_eqI)
  have "unat (PTE_IDX (pde_ptr v)) = unat (1023 :: u32)" using q by (simp add: unat_parts)
  then show "PTE_IDX (pde_ptr v) = 1023" by (rule unsigned_word_eqI)
  have "unat (off_of (pde_ptr v)) = unat (PDE_IDX v * 4)" using r by (simp add: unat_parts(3))
  then show "off_of (pde_ptr v) = PDE_IDX v * 4" by (rule unsigned_word_eqI)
qed

subsection \<open>The recursive entry\<close>

text \<open>The last entry of the directory at \<open>pd\<close> points to the directory and is present.\<close>

definition self_map :: "(u32 \<Rightarrow> u32) \<Rightarrow> u32 \<Rightarrow> bool" where
  "self_map pm pd \<longleftrightarrow> frame_of pd = pd \<and> frame_of (pm (pd + 1023 * 4)) = pd \<and> present (pm (pd + 1023 * 4))"

text \<open>The physical address of the entry of \<open>v\<close>'s page table.\<close>

definition pte_addr :: "(u32 \<Rightarrow> u32) \<Rightarrow> u32 \<Rightarrow> u32 \<Rightarrow> u32" where
  "pte_addr pm pd v = frame_of (dir_entry_at pm pd v) + PTE_IDX v * 4"

lemma self_map_entry:
  assumes "self_map pm pd" and "PDE_IDX v = 1023"
  shows "dir_entry_at pm pd v = pm (pd + 1023 * 4)"
  using assms by (simp add: self_map_def dir_entry_at_def)

lemma vtrans_pte_ptr:
  assumes "self_map pm pd"
  shows "vtrans pm pd (pte_ptr v) =
    (if present (dir_entry_at pm pd v) then Some (pte_addr pm pd v) else None)"
  using assms self_map_entry [OF assms, of "pte_ptr v"]
  by (auto simp: vtrans_def self_map_def pte_addr_def dir_entry_at_def Let_def)

lemma vtrans_pde_ptr:
  assumes "self_map pm pd"
  shows "vtrans pm pd (pde_ptr v) = Some (pd + PDE_IDX v * 4)"
  using assms self_map_entry [OF assms, of "pde_ptr v"]
  by (auto simp: vtrans_def self_map_def Let_def)

lemma vread_pte:
  assumes "self_map (pmem s) (cr3 s)"
  shows "vread (pte_ptr v) s = (if present (dir_entry_at (pmem s) (cr3 s) v)
    then Inr (pmem s (pte_addr (pmem s) (cr3 s) v)) else Inl Bad_Access)"
  by (simp add: vread_def vtrans_pte_ptr [OF assms])

lemma vread_pde:
  assumes "self_map (pmem s) (cr3 s)"
  shows "vread (pde_ptr v) s = Inr (dir_entry_at (pmem s) (cr3 s) v)"
  using assms by (simp add: vread_def vtrans_pde_ptr [OF assms] dir_entry_at_def self_map_def)

lemma vtrans_eq:
  "vtrans pm pd v = (if present (dir_entry_at pm pd v) \<and> present (pm (pte_addr pm pd v))
     then Some (frame_of (pm (pte_addr pm pd v)) + off_of v) else None)"
  by (simp add: vtrans_def pte_addr_def Let_def)

lemma addr_v2p_vtrans:
  assumes "self_map (pmem s) (cr3 s)" and "vtrans (pmem s) (cr3 s) v = Some a"
  shows "addr_v2p v s = Inr a"
  using assms
  by (auto simp: addr_v2p_def vread_pte vtrans_eq frame_of_def [symmetric] off_of_def [symmetric]
      split: if_splits)

text \<open>
  C21. Through the recursive entry, \<^verbatim>\<open>pde_ptr\<close> and \<^verbatim>\<open>pte_ptr\<close> reach the entries the processor uses for an
  address, so \<^verbatim>\<open>addr_v2p\<close> gives the physical address that the processor translates it to.
\<close>

theorem addr_v2p_is_translation:
  assumes "self_map (pmem s) (cr3 s)" and "vtrans (pmem s) (cr3 s) v = Some a"
  shows "addr_v2p v s = Inr a
    \<and> vtrans (pmem s) (cr3 s) (pde_ptr v) = Some (cr3 s + PDE_IDX v * 4)
    \<and> vtrans (pmem s) (cr3 s) (pte_ptr v) = Some (pte_addr (pmem s) (cr3 s) v)"
  using addr_v2p_vtrans [OF assms] vtrans_pde_ptr [OF assms(1), of v] vtrans_pte_ptr [OF assms(1), of v]
    assms(2) by (simp add: vtrans_eq split: if_splits)

text \<open>A directory at 0x100000 with its recursive entry and one page table at 0x101000 for the
  addresses from 0xc0000000, which maps the page 0xc0005000 to the frame 0x7000.\<close>

definition small_cpu :: cpu where
  "small_cpu = \<lparr>pmem = (\<lambda>_. 0)(0x100ffc := 0x100007, 0x100c00 := 0x101007, 0x101014 := 0x7007),
     cr3 = 0x100000, eflags = 2, esp = 0xc009f000, tss_esp0 = 0\<rparr>"

lemma small_cpu_maps:
  "self_map (pmem small_cpu) (cr3 small_cpu)"
  "vtrans (pmem small_cpu) (cr3 small_cpu) 0xc0005123 = Some 0x7123"
  by code_simp+

theorem addr_v2p_is_translation_witness:
  "addr_v2p 0xc0005123 small_cpu = Inr 0x7123"
  using addr_v2p_is_translation [OF small_cpu_maps] by blast

subsection \<open>Changing one page's entry\<close>

lemma same_page: "frame_of w = frame_of v \<longleftrightarrow> PDE_IDX w = PDE_IDX v \<and> PTE_IDX w = PTE_IDX v"
proof
  assume "frame_of w = frame_of v"
  then have f: "unat w div 4096 = unat v div 4096"
    using unat_parts(4) [of w] unat_parts(4) [of v] by simp
  have "unat (PDE_IDX w) = unat w div 4096 div 1024" "unat (PDE_IDX v) = unat v div 4096 div 1024"
    by (simp_all add: unat_parts(1) div_mult2_eq [symmetric])
  moreover have "unat (PTE_IDX w) = unat (PTE_IDX v)" by (simp add: unat_parts(2) f)
  ultimately show "PDE_IDX w = PDE_IDX v \<and> PTE_IDX w = PTE_IDX v"
    using f by (metis unsigned_word_eqI)
next
  have f: "unat x div 4096 = unat (PDE_IDX x) * 1024 + unat (PTE_IDX x)" for x :: u32
    by (simp add: unat_parts(1,2) div_mult2_eq [of "unat x" 4096 1024, simplified])
  assume "PDE_IDX w = PDE_IDX v \<and> PTE_IDX w = PTE_IDX v"
  then have "unat (frame_of w) = unat (frame_of v)" by (simp add: unat_parts(4) f)
  then show "frame_of w = frame_of v" by (rule unsigned_word_eqI)
qed

text \<open>The table of \<open>v\<close> is neither the directory nor the table of another directory entry.\<close>

definition own_table :: "(u32 \<Rightarrow> u32) \<Rightarrow> u32 \<Rightarrow> u32 \<Rightarrow> bool" where
  "own_table pm pd v \<longleftrightarrow> self_map pm pd \<and> present (dir_entry_at pm pd v)
     \<and> frame_of (dir_entry_at pm pd v) \<noteq> pd
     \<and> (\<forall>w. PDE_IDX w \<noteq> PDE_IDX v \<longrightarrow> present (dir_entry_at pm pd w)
          \<longrightarrow> frame_of (dir_entry_at pm pd w) \<noteq> frame_of (dir_entry_at pm pd v))"

lemma entry_inj:
  assumes "frame_of f + PTE_IDX w * 4 = frame_of g + PTE_IDX v * 4"
  shows "frame_of f = frame_of g \<and> PTE_IDX w = PTE_IDX v"
proof -
  have "frame_of f = frame_of g" 
    using frame_plus_entry(3) [of f w] assms by simp
  moreover have "PTE_IDX w * 4 = PTE_IDX v * 4" using assms calculation by simp
  then have "unat (PTE_IDX w) * 4 = unat (PTE_IDX v) * 4" using unat_entry(2) by metis
  then have "PTE_IDX w = PTE_IDX v" by (intro unsigned_word_eqI) simp
  ultimately show ?thesis by blast
qed

lemma vtrans_upd_pte:
  assumes o: "own_table pm pd v"
  shows "vtrans (pm(pte_addr pm pd v := x)) pd w =
    (if frame_of w = frame_of v then if present x then Some (frame_of x + off_of w) else None
     else vtrans pm pd w)"
    and "self_map (pm(pte_addr pm pd v := x)) pd"
    and "dir_entry_at (pm(pte_addr pm pd v := x)) pd w = dir_entry_at pm pd w"
proof -
  let ?a = "pte_addr pm pd v" and ?pm = "pm(pte_addr pm pd v := x)"
  have fa: "frame_of ?a \<noteq> pd" using o by (auto simp: own_table_def pte_addr_def)
  have pd: "frame_of pd = pd" using o by (simp add: own_table_def self_map_def)
  have dir: "dir_entry_at ?pm pd u = dir_entry_at pm pd u" for u
  proof -
    have "frame_of (frame_of pd + PDE_IDX u * 4) = pd" using frame_plus_entry(1) [of pd u] pd by metis
    with fa have "frame_of pd + PDE_IDX u * 4 \<noteq> ?a" by metis
    then show ?thesis by (simp add: dir_entry_at_def)
  qed
  then show "dir_entry_at ?pm pd w = dir_entry_at pm pd w" .
  have sm: "self_map pm pd" using o by (simp add: own_table_def)
  have "frame_of (frame_of pd + 1023 * 4) = pd" using frame_plus_parts(1) [of "1023 * 4" pd] pd by simp
  then have "pd + 1023 * 4 \<noteq> ?a" using fa pd by auto
  then show "self_map ?pm pd" using sm by (simp add: self_map_def)
  have pa: "pte_addr ?pm pd w = pte_addr pm pd w"
    by (subst (1 3) pte_addr_def) (simp only: dir)
  have "pte_addr pm pd w = ?a \<longleftrightarrow> frame_of w = frame_of v" if "present (dir_entry_at pm pd w)"
  proof
    assume "pte_addr pm pd w = ?a"
    then have "frame_of (dir_entry_at pm pd w) = frame_of (dir_entry_at pm pd v)" "PTE_IDX w = PTE_IDX v"
      using entry_inj by (auto simp: pte_addr_def)
    with o that show "frame_of w = frame_of v" by (auto simp: own_table_def same_page)
  next
    assume "frame_of w = frame_of v"
    then show "pte_addr pm pd w = ?a" by (simp add: same_page pte_addr_def dir_entry_at_def)
  qed
  moreover have "present (dir_entry_at pm pd w)" if "frame_of w = frame_of v"
    using o that by (auto simp: own_table_def same_page dir_entry_at_def)
  ultimately show "vtrans ?pm pd w =
    (if frame_of w = frame_of v then if present x then Some (frame_of x + off_of w) else None
     else vtrans pm pd w)"
    by (auto simp: vtrans_eq dir pa)
qed

lemma own_table_upd: "own_table pm pd v \<Longrightarrow> own_table (pm(pte_addr pm pd v := x)) pd v"
  using vtrans_upd_pte(2,3) [of pm pd v x] by (simp add: own_table_def)

lemma vtrans_page: "frame_of w = frame_of v \<Longrightarrow> vtrans pm pd w = None \<longleftrightarrow> vtrans pm pd v = None"
  by (simp add: vtrans_def dir_entry_at_def same_page Let_def)

lemma page_flags:
  assumes "frame_of p = p"
  shows "frame_of (p OR PG_US_U OR PG_RW_W OR PG_P_1) = p"
    and "present (p OR PG_US_U OR PG_RW_W OR PG_P_1)"
proof -
  have p: "\<not> bit p n" if "n < 12" for n
  proof -
    have "p = push_bit 12 (drop_bit 12 p)" using assms by (simp only: frame_of_def and_mask_div)
    then have "bit p n = bit (push_bit 12 (drop_bit 12 p)) n" by (rule arg_cong)
    with that show ?thesis by (simp add: bit_push_bit_iff)
  qed
  have c: "PG_US_U = push_bit 2 1" "PG_RW_W = push_bit 1 1" "PG_P_1 = push_bit 0 1"
    by (simp_all add: PG_US_U_def PG_RW_W_def PG_P_1_def)
  show "frame_of (p OR PG_US_U OR PG_RW_W OR PG_P_1) = p"
  proof (rule bit_eqI)
    fix n assume "possible_bit TYPE(u32) n"
    then show "bit (frame_of (p OR PG_US_U OR PG_RW_W OR PG_P_1)) n = bit p n"
      unfolding frame_of_def and_mask_div c using p [of n]
      by (cases "n < 12") (auto simp: bit_simps simp del: push_bit_of_1)
  qed
  show "present (p OR PG_US_U OR PG_RW_W OR PG_P_1)"
  proof -
    have "bit ((p OR PG_US_U OR PG_RW_W OR PG_P_1) AND 1) 0"
      by (simp add: bit_and_iff bit_or_iff PG_P_1_def bit_1_iff)
    then show ?thesis unfolding present_def by (metis bit_0_eq bot_apply bot_bool_def)
  qed
qed

lemma page_table_add_maps_lemma:
  assumes o: "own_table (pmem s) (cr3 s) v" and free: "vtrans (pmem s) (cr3 s) v = None"
    and p: "frame_of p = p"
  shows "\<exists>s'. page_table_add f v p s = Inr s'
    \<and> s' = s\<lparr>pmem := pmem s'\<rparr> \<and> own_table (pmem s') (cr3 s) v
    \<and> (\<forall>w. dir_entry_at (pmem s') (cr3 s) w = dir_entry_at (pmem s) (cr3 s) w)
    \<and> (\<forall>w. vtrans (pmem s') (cr3 s) w =
          (if frame_of w = frame_of v then Some (p + off_of w) else vtrans (pmem s) (cr3 s) w))"
proof -
  have sm: "self_map (pmem s) (cr3 s)" and pr: "present (dir_entry_at (pmem s) (cr3 s) v)"
    using o by (auto simp: own_table_def)
  with free have "\<not> present (pmem s (pte_addr (pmem s) (cr3 s) v))" by (simp add: vtrans_eq split: if_splits)
  then have "page_table_add f v p s =
    Inr (s\<lparr>pmem := (pmem s)(pte_addr (pmem s) (cr3 s) v := p OR PG_US_U OR PG_RW_W OR PG_P_1)\<rparr>)"
    using pr by (simp add: page_table_add_def vread_pde [OF sm] vread_pte [OF sm] vwrite_def
        vtrans_pte_ptr [OF sm] Let_def present_def)
  then show ?thesis using vtrans_upd_pte(1,3) [OF o] page_flags [OF p] own_table_upd [OF o] by simp
qed

text \<open>
  Mapping a page whose table is there and whose entry is not present: \<^verbatim>\<open>page_table_add\<close> succeeds,
  the addresses of that page translate to the given frame, and no other address translates
  differently, as long as no two directory entries share a table.
\<close>

theorem page_table_add_maps:
  assumes "own_table (pmem s) (cr3 s) v" and "vtrans (pmem s) (cr3 s) v = None" and "frame_of p = p"
  shows "\<exists>s'. page_table_add pallocK v p s = Inr s' \<and> s' = s\<lparr>pmem := pmem s'\<rparr>
    \<and> (\<forall>w. vtrans (pmem s') (cr3 s) w =
          (if frame_of w = frame_of v then Some (p + off_of w) else vtrans (pmem s) (cr3 s) w))"
  using page_table_add_maps_lemma [OF assms, of pallocK] by blast

lemma small_cpu_dir:
  "dir_entry_at (pmem small_cpu) (cr3 small_cpu) w =
    (if PDE_IDX w = 1023 then 0x100007 else if PDE_IDX w = 768 then 0x101007 else 0)"
proof -
  have f: "frame_of 0x100000 = 0x100000" by (simp add: frame_of_def)
  have u: "unat (0x100000 + PDE_IDX w * 4) = 0x100000 + unat (PDE_IDX w) * 4"
    using unat_frame_plus [OF entry_off(1), of "0x100000" w] f by simp
  have eq: "0x100000 + PDE_IDX w * 4 = x \<longleftrightarrow> 0x100000 + unat (PDE_IDX w) * 4 = unat x" for x
    by (simp only: word_unat_eq_iff [of "0x100000 + PDE_IDX w * 4" x] u)
  have idx: "PDE_IDX w = x \<longleftrightarrow> unat (PDE_IDX w) = unat x" for x by (rule word_unat_eq_iff)
  show ?thesis
    using idx_less(1) [of w]
    by (simp add: dir_entry_at_def small_cpu_def f eq idx)
qed

lemma small_cpu_own_table: "own_table (pmem small_cpu) (cr3 small_cpu) 0xc0005000"
proof -
  have i: "PDE_IDX 0xc0005000 = 768" by code_simp
  have f: "frame_of 0x101007 = 0x101000" "frame_of 0x100007 = 0x100000" "cr3 small_cpu = 0x100000"
    "present 0x101007" "\<not> present 0"
    by code_simp+
  show ?thesis
    unfolding own_table_def small_cpu_dir i using small_cpu_maps(1) f by simp
qed

theorem page_table_add_maps_witness:
  "\<exists>s'. page_table_add (\<lambda>s. Inl Assert_Fail) 0xc0006000 0x8000 small_cpu = Inr s'
    \<and> vtrans (pmem s') 0x100000 0xc0006010 = Some 0x8010
    \<and> vtrans (pmem s') 0x100000 0xc0005123 = Some 0x7123"
proof -
  have same: "own_table (pmem small_cpu) (cr3 small_cpu) 0xc0006000"
    using small_cpu_own_table by (simp add: own_table_def dir_entry_at_def PDE_IDX_def)
  have n: "vtrans (pmem small_cpu) (cr3 small_cpu) 0xc0006000 = None" "frame_of 0x8000 = 0x8000"
    "frame_of 0xc0006010 = frame_of 0xc0006000" "frame_of 0xc0005123 \<noteq> frame_of 0xc0006000"
    "off_of 0xc0006010 = 0x10" "cr3 small_cpu = 0x100000"
    by code_simp+
  show ?thesis
    using page_table_add_maps [OF same n(1,2), of "\<lambda>s. Inl Assert_Fail"] n small_cpu_maps(2) by auto
qed

lemma page_table_pte_remove_unmaps:
  assumes o: "own_table (pmem s) (cr3 s) v"
  shows "\<exists>s'. page_table_pte_remove v s = Inr s' \<and> s' = s\<lparr>pmem := pmem s'\<rparr>
    \<and> (\<forall>w. vtrans (pmem s') (cr3 s) w =
          (if frame_of w = frame_of v then None else vtrans (pmem s) (cr3 s) w))"
proof -
  have sm: "self_map (pmem s) (cr3 s)" and pr: "present (dir_entry_at (pmem s) (cr3 s) v)"
    using o by (auto simp: own_table_def)
  let ?a = "pte_addr (pmem s) (cr3 s) v"
  have "page_table_pte_remove v s = Inr (s\<lparr>pmem := (pmem s)(?a := pmem s ?a AND NOT PG_P_1)\<rparr>)"
    using pr by (simp add: page_table_pte_remove_def vread_pte [OF sm] vwrite_def vtrans_pte_ptr [OF sm])
  moreover have "\<not> present (x AND NOT PG_P_1)" for x
  proof -
    have "(x AND NOT PG_P_1) AND 1 = 0" by (rule bit_eqI) (auto simp: PG_P_1_def bit_simps)
    then show ?thesis by (simp add: present_def)
  qed
  ultimately show ?thesis using vtrans_upd_pte(1) [OF o] by simp
qed

text \<open>
  \<^verbatim>\<open>page_table_add\<close> followed by \<^verbatim>\<open>page_table_pte_remove\<close> on the same page gives back the translation
  of every address.
\<close>

theorem page_add_remove_roundtrip:
  assumes "own_table (pmem s) (cr3 s) v" and "vtrans (pmem s) (cr3 s) v = None" and "frame_of p = p"
  shows "\<exists>s' s''. page_table_add pallocK v p s = Inr s' \<and> page_table_pte_remove v s' = Inr s''
    \<and> vtrans (pmem s'') (cr3 s'') = vtrans (pmem s) (cr3 s)"
proof -
  obtain s' where a: "page_table_add pallocK v p s = Inr s'" "s' = s\<lparr>pmem := pmem s'\<rparr>"
      "own_table (pmem s') (cr3 s) v" and a': "\<And>w. vtrans (pmem s') (cr3 s) w =
      (if frame_of w = frame_of v then Some (p + off_of w) else vtrans (pmem s) (cr3 s) w)"
    using page_table_add_maps_lemma [OF assms, of pallocK] by blast
  have c: "cr3 s' = cr3 s" by (subst a(2)) simp
  with a(3) obtain s'' where r: "page_table_pte_remove v s' = Inr s''" "s'' = s'\<lparr>pmem := pmem s''\<rparr>"
    and r': "\<And>w. vtrans (pmem s'') (cr3 s) w =
      (if frame_of w = frame_of v then None else vtrans (pmem s') (cr3 s) w)"
    using page_table_pte_remove_unmaps [of s' v] by auto
  have c': "cr3 s'' = cr3 s" using c by (subst r(2)) simp
  have "vtrans (pmem s'') (cr3 s) w = vtrans (pmem s) (cr3 s) w" for w
    using r' [of w] a' [of w] vtrans_page [of w v "pmem s" "cr3 s"] assms(2) by auto
  then show ?thesis using a(1) r(1) c' by auto
qed

theorem page_add_remove_roundtrip_witness:
  "\<exists>s' s''. page_table_add (\<lambda>s. Inl Assert_Fail) 0xc0006000 0x8000 small_cpu = Inr s'
    \<and> page_table_pte_remove 0xc0006000 s' = Inr s''
    \<and> vtrans (pmem s'') (cr3 s'') = vtrans (pmem small_cpu) (cr3 small_cpu)"
proof -
  have "own_table (pmem small_cpu) (cr3 small_cpu) 0xc0006000"
    using small_cpu_own_table by (simp add: own_table_def dir_entry_at_def PDE_IDX_def)
  moreover have "vtrans (pmem small_cpu) (cr3 small_cpu) 0xc0006000 = None" "frame_of 0x8000 = 0x8000"
    by code_simp+
  ultimately show ?thesis by (rule page_add_remove_roundtrip)
qed

subsection \<open>Pages of data\<close>

definition tables :: "(u32 \<Rightarrow> u32) \<Rightarrow> u32 \<Rightarrow> u32 \<Rightarrow> u32 set" where
  "tables pm pd v = {frame_of pd, frame_of (dir_entry_at pm pd v)}"

text \<open>A set of pages with their frames, none of which holds a table of one of them.\<close>

definition data_pages :: "(u32 \<times> u32) set \<Rightarrow> (u32 \<Rightarrow> u32) \<Rightarrow> u32 \<Rightarrow> bool" where
  "data_pages M pm pd \<longleftrightarrow> (\<forall>(v, f)\<in>M. frame_of v = v \<and> frame_of f = f \<and> vtrans pm pd v = Some f
     \<and> (\<forall>(w, g)\<in>M. f \<notin> tables pm pd w))"

lemma tables_upd:
  assumes "frame_of a \<notin> tables pm pd v"
  shows "dir_entry_at (pm(a := x)) pd v = dir_entry_at pm pd v" "tables (pm(a := x)) pd v = tables pm pd v"
    "vtrans (pm(a := x)) pd v = vtrans pm pd v"
proof -
  have "frame_of pd + PDE_IDX v * 4 \<noteq> a" using assms frame_plus_entry(1) [of pd v] by (auto simp: tables_def)
  then show d: "dir_entry_at (pm(a := x)) pd v = dir_entry_at pm pd v" by (simp add: dir_entry_at_def)
  then show "tables (pm(a := x)) pd v = tables pm pd v" by (simp add: tables_def)
  have "pte_addr pm pd v \<noteq> a" using assms frame_plus_entry(3) [of "dir_entry_at pm pd v" v] by (auto simp: tables_def pte_addr_def)
  then show "vtrans (pm(a := x)) pd v = vtrans pm pd v" using d by (simp add: vtrans_eq pte_addr_def)
qed

lemma page_plus:
  assumes "frame_of v = v" and "unat c < 4096"
  shows "frame_of (v + c) = v" "off_of (v + c) = c"
  using frame_plus_parts [OF assms(2), of v] assms(1) by simp_all

lemma vtrans_page_off:
  assumes "vtrans pm pd v = Some f" and "frame_of v = v" and "unat c < 4096"
  shows "vtrans pm pd (v + c) = Some (f + c)"
proof -
  have "off_of v = 0" using frame_off [of v] assms(2) by simp
  then show ?thesis
    using assms same_page [of "v + c" v] page_plus [OF assms(2,3)] by (auto simp: vtrans_eq dir_entry_at_def pte_addr_def split: if_splits)
qed

lemma data_page_access:
  assumes "data_pages M (pmem s) (cr3 s)" and "(v, f) \<in> M" and "unat c < 4096"
  shows "vread (v + c) s = Inr (pmem s (f + c))" "vwrite (v + c) x s = Inr (s\<lparr>pmem := (pmem s)(f + c := x)\<rparr>)"
    "data_pages M ((pmem s)(f + c := x)) (cr3 s)"
proof -
  have v: "vtrans (pmem s) (cr3 s) v = Some f" "frame_of v = v" "frame_of f = f" using assms(1,2) by (auto simp: data_pages_def)
  show "vread (v + c) s = Inr (pmem s (f + c))" "vwrite (v + c) x s = Inr (s\<lparr>pmem := (pmem s)(f + c := x)\<rparr>)"
    using vtrans_page_off [OF v(1,2) assms(3)] by (simp_all add: vread_def vwrite_def)
  have "frame_of (f + c) = f" using page_plus(1) [OF v(3) assms(3)] .
  then have t: "frame_of (f + c) \<notin> tables (pmem s) (cr3 s) w" if "(w, g) \<in> M" for w g
    using assms(1,2) that by (auto simp: data_pages_def)
  show "data_pages M ((pmem s)(f + c := x)) (cr3 s)"
    unfolding data_pages_def using assms(1) tables_upd [OF t] by (auto simp: data_pages_def) blast+
qed

lemma vzero_page:
  assumes "data_pages M (pmem s) (cr3 s)" and "(v, f) \<in> M" and "k + n \<le> 1024"
  shows "\<exists>pm. vzero n (v + 4 * of_nat k) s = Inr (s\<lparr>pmem := pm\<rparr>) \<and> data_pages M pm (cr3 s)
    \<and> (\<forall>x. frame_of x \<noteq> f \<longrightarrow> pm x = pmem s x)"
  using assms
proof (induction n arbitrary: k s)
  case (Suc n)
  have "unat (4 * of_nat k :: u32) = 4 * k"
    using Suc.prems(3) by (subst unat_mult_small) (simp_all add: unat_of_nat take_bit_nat_eq_self)
  then have k: "unat (4 * of_nat k :: u32) < 4096" using Suc.prems(3) by simp
  note wr = data_page_access(2,3) [OF Suc.prems(1,2) k, of 0]
  let ?s = "s\<lparr>pmem := (pmem s)(f + 4 * of_nat k := 0)\<rparr>"
  have nx: "v + 4 * of_nat k + 4 = v + 4 * of_nat (Suc k)" by simp
  have "data_pages M (pmem ?s) (cr3 ?s)" using wr(2) by simp
  from Suc.IH [OF this Suc.prems(2), of "Suc k"] Suc.prems(3) obtain pm where
      i: "vzero n (v + 4 * of_nat (Suc k)) ?s = Inr (?s\<lparr>pmem := pm\<rparr>)" "data_pages M pm (cr3 s)"
      "\<forall>x. frame_of x \<noteq> f \<longrightarrow> pm x = pmem ?s x" by auto
  have "frame_of f = f" using Suc.prems(1,2) by (auto simp: data_pages_def)
  then have "frame_of (f + 4 * of_nat k) = f" by (rule page_plus(1) [OF _ k])
  then have "\<forall>x. frame_of x \<noteq> f \<longrightarrow> pm x = pmem s x" using i(3) by auto
  moreover have "vzero (Suc n) (v + 4 * of_nat k) s = Inr (s\<lparr>pmem := pm\<rparr>)"
    using wr(1) i(1) unfolding vzero.simps nx by simp
  ultimately show ?case using i(2) by blast
next
  case 0
  then show ?case by (intro exI [of _ "pmem s"]) auto
qed

end
