(* ===== verification/Thread.thy ===== *)
theory Thread
  imports Prelude Bitmap Interrupt Klist Paging
begin

section \<open>Threads and the scheduler (\<^verbatim>\<open>thread/thread.c\<close>, \<^verbatim>\<open>device/timer.c\<close>, \<^verbatim>\<open>userprog/process.c\<close>)\<close>

text \<open>
  A thread is named by the address of its PCB, which is the page that also holds its kernel
  stack; so the running thread is the page of the stack pointer. The state \<open>kernel\<close> extends the
  processor state by the PCBs, the two lists of threads (as plain lists, see theory Klist) and
  the global variables of \<^verbatim>\<open>thread.c\<close> and \<^verbatim>\<open>timer.c\<close>; the theories above extend it further. The
  list tags of a PCB have no fields of their own: being linked is being in a list.

  A routine that ends in \<^verbatim>\<open>schedule()\<close> is modelled up to the switch: the result is the state in
  which the next thread runs. What the routine does after the switch (giving back the interrupt
  flag) is a definition of its own, which runs when the thread is scheduled again.
\<close>

subsection \<open>The PCB\<close>

datatype task_status =
  TASK_RUNNING | TASK_READY | TASK_BLOCKED | TASK_WAITING | TASK_HANGING | TASK_DIED

record virtual_addr =
  vaddr_bitmap :: bitmap
  vaddr_start :: u32

record mem_block_desc =
  block_size :: u32
  blocks_pre_arena :: u32
  free_list :: "u32 list"

type_synonym pid_t = "16 word"

record task_struct =
  self_kstack :: u32
  pid :: pid_t
  status :: task_status
  name :: buf
  priority :: u8
  ticks :: u8
  elapsed_ticks :: u32
  fd_table :: "u32 list"
  pgdir :: u32
  userprog_vaddr :: virtual_addr
  u_block_desc :: "mem_block_desc list"
  cwd_inode_nr :: u8
  parent_pid :: "16 word"
  exit_status :: u8
  stack_magic :: u32

definition STACK_MAGIC :: u32 where
  "STACK_MAGIC = 0x19870916"

subsection \<open>The state\<close>

record kernel = cpu +
  pcbs :: "u32 \<Rightarrow> task_struct option"
  thread_ready_list :: "u32 list"
  thread_all_list :: "u32 list"
  idle_thread :: u32
  main_thread :: u32
  sys_ticks :: u32

definition running_thread :: "'a cpu_scheme \<Rightarrow> u32" where
  "running_thread s = esp s AND 0xfffff000"

definition pcb :: "u32 \<Rightarrow> 'a kernel_scheme \<Rightarrow> task_struct res" where
  "pcb p s = (case pcbs s p of None \<Rightarrow> Inl Bad_Access | Some t \<Rightarrow> Inr t)"

definition upd_pcb :: "u32 \<Rightarrow> (task_struct \<Rightarrow> task_struct) \<Rightarrow> 'a kernel_scheme \<Rightarrow> 'a kernel_scheme res" where
  "upd_pcb p f s = bindR (pcb p s) (\<lambda>t. Inr (s\<lparr>pcbs := (pcbs s)(p \<mapsto> f t)\<rparr>))"

subsection \<open>Switching\<close>

definition page_dir_activate :: "u32 \<Rightarrow> 'a kernel_scheme \<Rightarrow> 'a kernel_scheme res" where
  "page_dir_activate p_thread s =
     bindR (pcb p_thread s) (\<lambda>t.
     bindR (if pgdir t \<noteq> 0 then addr_v2p (pgdir t) s else Inr 0x100000) (\<lambda>pagedir_phy_addr.
     Inr (s\<lparr>cr3 := pagedir_phy_addr\<rparr>)))"

definition update_tss_esp :: "u32 \<Rightarrow> 'a cpu_scheme \<Rightarrow> 'a cpu_scheme" where
  "update_tss_esp pthread s = s\<lparr>tss_esp0 := pthread + PAGE_SIZE\<rparr>"

definition process_activate :: "u32 \<Rightarrow> 'a kernel_scheme \<Rightarrow> 'a kernel_scheme res" where
  "process_activate p_thread s =
     ASSERT (p_thread \<noteq> 0)
       (bindR (page_dir_activate p_thread s) (\<lambda>s1.
        bindR (pcb p_thread s1) (\<lambda>t.
        Inr (if pgdir t \<noteq> 0 then update_tss_esp p_thread s1 else s1))))"

text \<open>\<^verbatim>\<open>switch_to\<close> (\<^verbatim>\<open>thread/switch.s\<close>) stores the stack pointer in the first word of the old PCB and
  loads it from the new one. The four registers it pushes before and pops after are not part of the state: they stay on the
  stack of the thread that is switched out, which no other thread uses, and come back unchanged. What the pops find at a
  first switch, when nothing was pushed, is the subject of theory Stacks.\<close>

definition switch_to :: "u32 \<Rightarrow> u32 \<Rightarrow> 'a kernel_scheme \<Rightarrow> 'a kernel_scheme res" where
  "switch_to cur nxt s =
     bindR (upd_pcb cur (\<lambda>t. t\<lparr>self_kstack := esp s\<rparr>) s) (\<lambda>s1.
     bindR (pcb nxt s1) (\<lambda>t. Inr (s1\<lparr>esp := self_kstack t\<rparr>)))"

subsection \<open>Blocking, unblocking and scheduling\<close>

definition wait_status :: "task_status \<Rightarrow> bool" where
  "wait_status st \<longleftrightarrow> st = TASK_BLOCKED \<or> st = TASK_WAITING \<or> st = TASK_HANGING"

definition thread_unblock :: "u32 \<Rightarrow> 'a kernel_scheme \<Rightarrow> 'a kernel_scheme res" where
  "thread_unblock pthread s0 =
     (let (old_status, fl) = intr_disable (eflags s0); s = s0\<lparr>eflags := fl\<rparr> in
      bindR (pcb pthread s) (\<lambda>t.
      ASSERT (wait_status (status t))
        (bindR (if status t \<noteq> TASK_READY then
                  ASSERT (pthread \<notin> set (thread_ready_list s))
                    (bindR (kl_push pthread (thread_ready_list s)) (\<lambda>r.
                     upd_pcb pthread (\<lambda>t. t\<lparr>status := TASK_READY\<rparr>) (s\<lparr>thread_ready_list := r\<rparr>)))
                else Inr s) (\<lambda>s1.
         Inr (s1\<lparr>eflags := snd (intr_set_status old_status (eflags s1))\<rparr>)))))"

text \<open>The second half of \<^verbatim>\<open>schedule\<close>: take the first ready thread and switch to it.\<close>

definition dispatch :: "u32 \<Rightarrow> 'a kernel_scheme \<Rightarrow> 'a kernel_scheme res" where
  "dispatch cur s2 =
     bindR (kl_pop (thread_ready_list s2)) (\<lambda>(nxt, r).
     bindR (upd_pcb nxt (\<lambda>t. t\<lparr>status := TASK_RUNNING\<rparr>) (s2\<lparr>thread_ready_list := r\<rparr>)) (\<lambda>s3.
     bindR (process_activate nxt s3) (\<lambda>s4.
     switch_to cur nxt s4)))"

definition schedule :: "'a kernel_scheme \<Rightarrow> 'a kernel_scheme res" where
  "schedule s =
     ASSERT (intr_get_status (eflags s) = INTR_OFF)
       (let cur = running_thread s in
        bindR (pcb cur s) (\<lambda>c.
        bindR (if status c = TASK_RUNNING then
                 ASSERT (cur \<notin> set (thread_ready_list s))
                   (bindR (kl_append cur (thread_ready_list s)) (\<lambda>r.
                    upd_pcb cur (\<lambda>t. t\<lparr>ticks := priority t, status := TASK_READY\<rparr>)
                      (s\<lparr>thread_ready_list := r\<rparr>)))
               else Inr s) (\<lambda>s1.
        bindR (if thread_ready_list s1 = [] then thread_unblock (idle_thread s1) s1 else Inr s1) (\<lambda>s2.
        dispatch cur s2))))"

text \<open>The first component of the result is \<^verbatim>\<open>old_status\<close>, which stays on the stack of the thread that
  was switched out.\<close>

definition thread_block :: "task_status \<Rightarrow> 'a kernel_scheme \<Rightarrow> (intr_status \<times> 'a kernel_scheme) res" where
  "thread_block stat s =
     ASSERT (wait_status stat)
       (let (old_status, fl) = intr_disable (eflags s); s1 = s\<lparr>eflags := fl\<rparr> in
        bindR (upd_pcb (running_thread s1) (\<lambda>t. t\<lparr>status := stat\<rparr>) s1) (\<lambda>s2.
        bindR (schedule s2) (\<lambda>s3. Inr (old_status, s3))))"

definition block_return :: "intr_status \<Rightarrow> 'a kernel_scheme \<Rightarrow> 'a kernel_scheme" where
  "block_return old_status s = s\<lparr>eflags := snd (intr_set_status old_status (eflags s))\<rparr>"

definition thread_yield :: "'a kernel_scheme \<Rightarrow> (intr_status \<times> 'a kernel_scheme) res" where
  "thread_yield s =
     (let cur = running_thread s; (old_status, fl) = intr_disable (eflags s); s1 = s\<lparr>eflags := fl\<rparr> in
      ASSERT (cur \<notin> set (thread_ready_list s1))
        (bindR (kl_append cur (thread_ready_list s1)) (\<lambda>r.
         bindR (schedule (s1\<lparr>thread_ready_list := r\<rparr>)) (\<lambda>s2. Inr (old_status, s2)))))"

subsection \<open>The timer\<close>

definition intr_timer_handler :: "'a kernel_scheme \<Rightarrow> 'a kernel_scheme res" where
  "intr_timer_handler s =
     (let cur_thread = running_thread s in
      bindR (pcb cur_thread s) (\<lambda>t.
      ASSERT (stack_magic t = STACK_MAGIC)
        (bindR (upd_pcb cur_thread (\<lambda>t. t\<lparr>elapsed_ticks := elapsed_ticks t + 1\<rparr>)
                 (s\<lparr>sys_ticks := sys_ticks s + 1\<rparr>)) (\<lambda>s1.
         if ticks t = 0 then schedule s1
         else upd_pcb cur_thread (\<lambda>t. t\<lparr>ticks := ticks t - 1\<rparr>) s1))))"

definition mil_seconds_per_intr :: u32 where
  "mil_seconds_per_intr = 10"

text \<open>One pass of the waiting loop of \<^verbatim>\<open>ticks_to_sleep\<close>: done, or give up the processor.\<close>

definition sleep_pass :: "u32 \<Rightarrow> u32 \<Rightarrow> 'a kernel_scheme \<Rightarrow> ((intr_status option) \<times> 'a kernel_scheme) res" where
  "sleep_pass start_tick sleep_ticks s =
     (if sys_ticks s - start_tick < sleep_ticks
      then bindR (thread_yield s) (\<lambda>(old_status, s'). Inr (Some old_status, s'))
      else Inr (None, s))"

definition mtime_sleep :: "u32 \<Rightarrow> 'a kernel_scheme \<Rightarrow> ((intr_status option) \<times> 'a kernel_scheme) res" where
  "mtime_sleep m_seconds s =
     (let sleep_ticks = DIV_ROUND_UP m_seconds mil_seconds_per_intr in
      ASSERT (sleep_ticks > 0) (sleep_pass (sys_ticks s) sleep_ticks s))"

subsection \<open>The invariant of the scheduler\<close>

text \<open>The address spaces: in each of a set of page directories (with the current one and the
  kernel's among them) the directory page of every process is mapped, to one of them.\<close>

definition proc_dirs :: "(u32 \<Rightarrow> task_struct option) \<Rightarrow> u32 set" where
  "proc_dirs m = {pgdir t | p t. m p = Some t \<and> pgdir t \<noteq> 0}"

definition spaces_ok :: "'a kernel_scheme \<Rightarrow> bool" where
  "spaces_ok s \<longleftrightarrow> (\<exists>dirs. cr3 s \<in> dirs \<and> 0x100000 \<in> dirs
     \<and> (\<forall>d\<in>dirs. \<forall>v\<in>proc_dirs (pcbs s). \<exists>f\<in>dirs. addr_v2p v (s\<lparr>cr3 := d\<rparr>) = Inr f))"

text \<open>What holds whenever \<^verbatim>\<open>schedule\<close> is called: the running thread may be in any state but ready.\<close>

definition thread_ok :: "'a kernel_scheme \<Rightarrow> u32 \<Rightarrow> task_struct \<Rightarrow> bool" where
  "thread_ok s p t \<longleftrightarrow> p \<noteq> 0 \<and> frame_of p = p
     \<and> (status t = TASK_READY \<longleftrightarrow> p \<in> set (thread_ready_list s))
     \<and> (p \<noteq> running_thread s \<longrightarrow> status t \<noteq> TASK_RUNNING \<and> frame_of (self_kstack t) = p)"

definition sched_inv :: "'a kernel_scheme \<Rightarrow> bool" where
  "sched_inv s \<longleftrightarrow> running_thread s \<in> dom (pcbs s)
     \<and> distinct (thread_ready_list s) \<and> set (thread_ready_list s) \<subseteq> dom (pcbs s)
     \<and> running_thread s \<notin> set (thread_ready_list s)
     \<and> (\<forall>p t. pcbs s p = Some t \<longrightarrow> thread_ok s p t)
     \<and> (\<exists>t. pcbs s (idle_thread s) = Some t \<and> status t \<noteq> TASK_DIED)
     \<and> spaces_ok s"

definition cur_status :: "'a kernel_scheme \<Rightarrow> task_status option" where
  "cur_status s = map_option status (pcbs s (running_thread s))"

text \<open>What holds while a thread runs.\<close>

definition sched_ok :: "'a kernel_scheme \<Rightarrow> bool" where
  "sched_ok s \<longleftrightarrow> sched_inv s \<and> cur_status s = Some TASK_RUNNING"

text \<open>The order in which the threads get the processor when none blocks.\<close>

definition run_order :: "'a kernel_scheme \<Rightarrow> u32 list" where
  "run_order s = running_thread s # thread_ready_list s"

lemma running_thread_simps [simp]:
  "running_thread (s\<lparr>eflags := x\<rparr>) = running_thread s"
  "running_thread (s\<lparr>cr3 := x\<rparr>) = running_thread s"
  "running_thread (s\<lparr>tss_esp0 := x\<rparr>) = running_thread s"
  by (simp_all add: running_thread_def)

lemma running_thread_simps2 [simp]:
  fixes k :: "'a kernel_scheme"
  shows "running_thread (k\<lparr>pcbs := m\<rparr>) = running_thread k"
    "running_thread (k\<lparr>thread_ready_list := r\<rparr>) = running_thread k"
    "running_thread (k\<lparr>sys_ticks := y\<rparr>) = running_thread k"
  by (simp_all add: running_thread_def)

lemma pcb_Some [simp]: "pcbs s p = Some t \<Longrightarrow> pcb p s = Inr t"
  by (simp add: pcb_def)

lemma upd_pcb_Some [simp]: "pcbs s p = Some t \<Longrightarrow> upd_pcb p f s = Inr (s\<lparr>pcbs := (pcbs s)(p \<mapsto> f t)\<rparr>)"
  by (simp add: upd_pcb_def)

lemma addr_v2p_cong: "pmem s = pmem s' \<Longrightarrow> cr3 s = cr3 s' \<Longrightarrow> addr_v2p v s = addr_v2p v s'"
  by (simp add: addr_v2p_def vread_def cong: option.case_cong)

lemma spaces_ok_cong:
  assumes "spaces_ok s" and "pmem s' = pmem s" and "cr3 s' = cr3 s" and "proc_dirs (pcbs s') = proc_dirs (pcbs s)"
  shows "spaces_ok s'"
proof -
  have "addr_v2p v (s'\<lparr>cr3 := d\<rparr>) = addr_v2p v (s\<lparr>cr3 := d\<rparr>)" for v d
    using assms(2) by (intro addr_v2p_cong) simp_all
  then show ?thesis using assms(1,3,4) by (simp add: spaces_ok_def)
qed

lemma proc_dirs_upd:
  assumes "m p = Some t" and "pgdir t' = pgdir t"
  shows "proc_dirs (m(p \<mapsto> t')) = proc_dirs m"
  using assms unfolding proc_dirs_def by (auto; metis option.sel)

lemma process_activate_ok:
  assumes "spaces_ok s" and "pcbs s p = Some t" and "p \<noteq> 0"
  shows "\<exists>d e. process_activate p s = Inr (s\<lparr>cr3 := d, tss_esp0 := e\<rparr>) \<and> spaces_ok (s\<lparr>cr3 := d, tss_esp0 := e\<rparr>)"
proof -
  obtain dirs where d: "cr3 s \<in> dirs" "0x100000 \<in> dirs"
    "\<forall>d\<in>dirs. \<forall>v\<in>proc_dirs (pcbs s). \<exists>f\<in>dirs. addr_v2p v (s\<lparr>cr3 := d\<rparr>) = Inr f"
    using assms(1) by (auto simp: spaces_ok_def)
  have "\<exists>f\<in>dirs. (if pgdir t \<noteq> 0 then addr_v2p (pgdir t) s else Inr 0x100000) = Inr f"
  proof (cases "pgdir t = 0")
    case False
    then have "pgdir t \<in> proc_dirs (pcbs s)" using assms(2) by (auto simp: proc_dirs_def)
    then obtain f where "f \<in> dirs" "addr_v2p (pgdir t) (s\<lparr>cr3 := cr3 s\<rparr>) = Inr f" using d(1,3) by blast
    then show ?thesis using False by auto
  qed (use d(2) in simp)
  then obtain f where f: "f \<in> dirs"
    "(if pgdir t \<noteq> 0 then addr_v2p (pgdir t) s else Inr 0x100000) = Inr f" by blast
  define e where "e = (if pgdir t \<noteq> 0 then p + PAGE_SIZE else tss_esp0 s)"
  have "process_activate p s = Inr (s\<lparr>cr3 := f, tss_esp0 := e\<rparr>)"
    using assms(2,3) f(2) by (simp add: e_def process_activate_def page_dir_activate_def update_tss_esp_def)
  moreover have "spaces_ok (s\<lparr>cr3 := f, tss_esp0 := e\<rparr>)"
  proof -
    have "addr_v2p v (s\<lparr>tss_esp0 := e, cr3 := d'\<rparr>) = addr_v2p v (s\<lparr>cr3 := d'\<rparr>)" for v d'
      by (rule addr_v2p_cong) simp_all
    then show ?thesis using d(2,3) f(1) unfolding spaces_ok_def by (intro exI [of _ dirs]) simp
  qed
  ultimately show ?thesis by blast
qed

lemma thread_unblock_ok:
  assumes "pcbs s p = Some t" and "wait_status (status t)" and "p \<notin> set (thread_ready_list s)"
  shows "thread_unblock p s = Inr (s\<lparr>thread_ready_list := p # thread_ready_list s,
    pcbs := (pcbs s)(p \<mapsto> t\<lparr>status := TASK_READY\<rparr>)\<rparr>)"
proof -
  have "status t \<noteq> TASK_READY" using assms(2) by (auto simp: wait_status_def)
  then show ?thesis
    using assms intr_bracket [of "eflags s"]
    by (simp add: thread_unblock_def split_beta Let_def)
qed

subsection \<open>One call of \<^verbatim>\<open>schedule\<close>\<close>

text \<open>The queue that \<^verbatim>\<open>schedule\<close> takes the next thread from.\<close>

definition sched_queue :: "'a kernel_scheme \<Rightarrow> u32 list" where
  "sched_queue s =
     (if cur_status s = Some TASK_RUNNING then thread_ready_list s @ [running_thread s]
      else if thread_ready_list s = [] then [idle_thread s] else thread_ready_list s)"

text \<open>What a switch leaves alone.\<close>

definition same_globals :: "'a kernel_scheme \<Rightarrow> 'a kernel_scheme \<Rightarrow> bool" where
  "same_globals s s' \<longleftrightarrow> pmem s' = pmem s \<and> eflags s' = eflags s \<and> dom (pcbs s') = dom (pcbs s)
     \<and> thread_all_list s' = thread_all_list s \<and> idle_thread s' = idle_thread s
     \<and> main_thread s' = main_thread s \<and> sys_ticks s' = sys_ticks s \<and> kernel.more s' = kernel.more s"

lemma same_globals_trans: "same_globals s s' \<Longrightarrow> same_globals s' s'' \<Longrightarrow> same_globals s s''"
  by (simp add: same_globals_def)

text \<open>Between choosing the queue and taking its first thread, no thread is marked running.\<close>

definition queued :: "'a kernel_scheme \<Rightarrow> bool" where
  "queued s \<longleftrightarrow> running_thread s \<in> dom (pcbs s)
     \<and> distinct (thread_ready_list s) \<and> set (thread_ready_list s) \<subseteq> dom (pcbs s)
     \<and> thread_ready_list s \<noteq> []
     \<and> (\<forall>p t. pcbs s p = Some t \<longrightarrow> thread_ok s p t \<and> status t \<noteq> TASK_RUNNING)
     \<and> (\<exists>t. pcbs s (idle_thread s) = Some t \<and> status t \<noteq> TASK_DIED)
     \<and> spaces_ok s"

lemma switch_part:
  assumes q: "queued s" and l: "thread_ready_list s = nxt # r"
  shows "\<exists>s'. dispatch (running_thread s) s = Inr s' \<and> sched_ok s' \<and> run_order s' = nxt # r \<and> same_globals s s'
    \<and> (\<forall>p. map_option status (pcbs s' p) =
           (if p = nxt then Some TASK_RUNNING else map_option status (pcbs s p)))"
proof -
  let ?cur = "running_thread s"
  have nx: "nxt \<in> dom (pcbs s)" "nxt \<notin> set r" "distinct r" "set r \<subseteq> dom (pcbs s)"
    using q l by (auto simp: queued_def)
  obtain t c where t: "pcbs s nxt = Some t" and c: "pcbs s ?cur = Some c"
    using nx(1) q by (auto simp: queued_def)
  have ok: "thread_ok s p u" "status u \<noteq> TASK_RUNNING" if "pcbs s p = Some u" for p u
    using q that by (auto simp: queued_def)
  let ?t = "t\<lparr>status := TASK_RUNNING\<rparr>"
  let ?s3 = "s\<lparr>thread_ready_list := r, pcbs := (pcbs s)(nxt \<mapsto> ?t)\<rparr>"
  have "spaces_ok s" using q by (simp add: queued_def)
  then have "spaces_ok ?s3" by (rule spaces_ok_cong) (simp_all add: proc_dirs_upd [of _ nxt t] t)
  moreover have "nxt \<noteq> 0" using ok(1) [OF t] by (simp add: thread_ok_def)
  ultimately obtain d e where act: "process_activate nxt ?s3 = Inr (?s3\<lparr>cr3 := d, tss_esp0 := e\<rparr>)"
    and sp: "spaces_ok (?s3\<lparr>cr3 := d, tss_esp0 := e\<rparr>)"
    using process_activate_ok [of ?s3 nxt ?t] by auto
  let ?s4 = "?s3\<lparr>cr3 := d, tss_esp0 := e\<rparr>"
  let ?c = "(if nxt = ?cur then ?t else c)\<lparr>self_kstack := esp s\<rparr>"
  let ?esp = "if nxt = ?cur then esp s else self_kstack t"
  let ?s' = "?s4\<lparr>pcbs := (pcbs ?s3)(?cur \<mapsto> ?c), esp := ?esp\<rparr>"
  have run: "dispatch ?cur s = Inr ?s'"
    using t c act l by (auto simp: dispatch_def switch_to_def)
  have cur': "running_thread ?s' = nxt"
    using ok(1) [OF t] by (auto simp: thread_ok_def running_thread_def frame_of_def)
  have pc: "pcbs ?s' p = (if p = ?cur then Some ?c else if p = nxt then Some ?t else pcbs s p)" for p
    by auto
  have st: "map_option status (pcbs ?s' p) =
      (if p = nxt then Some TASK_RUNNING else map_option status (pcbs s p))" for p
    using c by (auto simp: pc)
  have "thread_ok ?s' p u" if u: "pcbs ?s' p = Some u" for p u
  proof -
    consider "p = nxt" | "p = ?cur" "p \<noteq> nxt" "u = c\<lparr>self_kstack := esp s\<rparr>"
      | "p \<noteq> nxt" "p \<noteq> ?cur" "pcbs s p = Some u"
      using u unfolding pc by (cases "p = nxt"; cases "p = ?cur") auto
    then show ?thesis
    proof cases
      case 1
      then have "status u = TASK_RUNNING" using st [of p] u by simp
      then show ?thesis using 1 ok(1) [OF t] nx(2) cur' by (simp add: thread_ok_def)
    next
      case 2
      then show ?thesis
        using ok [OF c] cur' l by (auto simp: thread_ok_def running_thread_def frame_of_def)
    next
      case 3
      then show ?thesis using ok [OF 3(3)] cur' l by (auto simp: thread_ok_def)
    qed
  qed
  moreover have "\<exists>u. pcbs ?s' (idle_thread ?s') = Some u \<and> status u \<noteq> TASK_DIED"
  proof -
    obtain i where i: "pcbs s (idle_thread s) = Some i" "status i \<noteq> TASK_DIED"
      using q by (auto simp: queued_def)
    then have "map_option status (pcbs ?s' (idle_thread s)) \<noteq> Some TASK_DIED"
      "map_option status (pcbs ?s' (idle_thread s)) \<noteq> None"
      using st [of "idle_thread s"] by auto
    then show ?thesis by auto
  qed
  moreover have "dom (pcbs ?s') = dom (pcbs s)" using t c by auto
  moreover have "spaces_ok ?s'"
    using sp
  proof (rule spaces_ok_cong)
    show "proc_dirs (pcbs ?s') = proc_dirs (pcbs (?s3\<lparr>cr3 := d, tss_esp0 := e\<rparr>))"
      using proc_dirs_upd [of "pcbs ?s3" ?cur "if nxt = ?cur then ?t else c" ?c] c by simp
  qed simp_all
  moreover have "cur_status ?s' = Some TASK_RUNNING" 
    unfolding cur_status_def cur' using st [of nxt] by presburger
  ultimately have "sched_ok ?s'" using nx cur' by (simp add: sched_ok_def sched_inv_def)
  moreover have "run_order ?s' = nxt # r" using cur' by (simp add: run_order_def)
  moreover have "same_globals s ?s'" using \<open>dom (pcbs ?s') = dom (pcbs s)\<close> by (simp add: same_globals_def)
  ultimately show ?thesis using run st by blast
qed

lemma sched_inv_queued:
  assumes i: "sched_inv s" and st: "cur_status s \<noteq> Some TASK_RUNNING" and ne: "thread_ready_list s \<noteq> []"
  shows "queued s"
proof -
  have "status t \<noteq> TASK_RUNNING" if "pcbs s p = Some t" for p t
    using i st that by (cases "p = running_thread s") (auto simp: sched_inv_def thread_ok_def cur_status_def)
  with i ne show ?thesis by (simp add: sched_inv_def queued_def)
qed

text \<open>The running thread is put behind the others.\<close>

lemma requeue_queued:
  assumes i: "sched_inv s" and t: "pcbs s (running_thread s) = Some t" and st: "status t = TASK_RUNNING"
  shows "queued (s\<lparr>thread_ready_list := thread_ready_list s @ [running_thread s],
    pcbs := (pcbs s)(running_thread s \<mapsto> t\<lparr>ticks := priority t, status := TASK_READY\<rparr>)\<rparr>)"
    (is "queued ?s")
proof -
  have "thread_ok ?s p u \<and> status u \<noteq> TASK_RUNNING" if u: "pcbs ?s p = Some u" for p u
  proof (cases "p = running_thread s")
    case True
    then show ?thesis using u i t by (auto simp: sched_inv_def thread_ok_def)
  next
    case False
    then have "pcbs s p = Some u" using u by simp
    with False i show ?thesis by (auto simp: sched_inv_def thread_ok_def)
  qed
  moreover have "spaces_ok ?s"
    using i t by (intro spaces_ok_cong [of s ?s]) (auto simp: sched_inv_def intro!: proc_dirs_upd)
  moreover have "\<exists>u. pcbs ?s (idle_thread ?s) = Some u \<and> status u \<noteq> TASK_DIED"
    using i by (auto simp: sched_inv_def)
  ultimately show ?thesis using i by (auto simp: queued_def sched_inv_def)
qed

text \<open>Nothing is ready: the idle thread is waiting, and is made ready.\<close>

lemma idle_queued:
  assumes i: "sched_inv s" and st: "cur_status s \<noteq> Some TASK_RUNNING" and e: "thread_ready_list s = []"
  shows "\<exists>s'. thread_unblock (idle_thread s) s = Inr s' \<and> queued s' \<and> thread_ready_list s' = [idle_thread s]
    \<and> running_thread s' = running_thread s \<and> same_globals s s'
    \<and> (\<forall>p. p \<noteq> idle_thread s \<longrightarrow> pcbs s' p = pcbs s p)"
proof -
  obtain t where t: "pcbs s (idle_thread s) = Some t" "status t \<noteq> TASK_DIED"
    using i by (auto simp: sched_inv_def)
  have ok: "thread_ok s (idle_thread s) t" using i t(1) by (auto simp: sched_inv_def)
  have "status t \<noteq> TASK_RUNNING"
    using ok st t(1) by (cases "idle_thread s = running_thread s") (auto simp: thread_ok_def cur_status_def)
  moreover have "status t \<noteq> TASK_READY" using ok e by (simp add: thread_ok_def)
  ultimately have "wait_status (status t)" using t(2) by (cases "status t") (auto simp: wait_status_def)
  then have run: "thread_unblock (idle_thread s) s = Inr (s\<lparr>thread_ready_list := [idle_thread s],
      pcbs := (pcbs s)(idle_thread s \<mapsto> t\<lparr>status := TASK_READY\<rparr>)\<rparr>)" (is "_ = Inr ?s")
    using thread_unblock_ok [OF t(1)] e by simp
  have "thread_ok ?s p u \<and> status u \<noteq> TASK_RUNNING" if u: "pcbs ?s p = Some u" for p u
  proof (cases "p = idle_thread s")
    case True
    then show ?thesis using u ok by (auto simp: thread_ok_def)
  next
    case False
    then have p: "pcbs s p = Some u" using u by simp
    with i have "thread_ok s p u" by (auto simp: sched_inv_def)
    moreover have "status u \<noteq> TASK_RUNNING"
      using p st calculation by (cases "p = running_thread s") (auto simp: cur_status_def thread_ok_def)
    ultimately show ?thesis using False e by (auto simp: thread_ok_def)
  qed
  moreover have "spaces_ok ?s"
    using i t by (intro spaces_ok_cong [of s ?s]) (auto simp: sched_inv_def intro!: proc_dirs_upd)
  ultimately have "queued ?s" using i t(1) by (auto simp: queued_def sched_inv_def)
  moreover have "same_globals s ?s" using t(1) by (auto simp: same_globals_def)
  ultimately show ?thesis using run by auto
qed

lemma schedule_steps:
  assumes i: "sched_inv s" and off: "intr_get_status (eflags s) = INTR_OFF"
  shows "\<exists>s' nxt r. schedule s = Inr s' \<and> sched_queue s = nxt # r \<and> sched_ok s' \<and> run_order s' = nxt # r
    \<and> same_globals s s'
    \<and> (\<forall>p. p \<noteq> nxt \<longrightarrow> p \<noteq> running_thread s \<longrightarrow>
          map_option status (pcbs s' p) = map_option status (pcbs s p))
    \<and> (cur_status s \<noteq> Some TASK_RUNNING \<longrightarrow> nxt \<noteq> running_thread s \<longrightarrow>
          map_option status (pcbs s' (running_thread s)) = cur_status s)"
proof -
  obtain t where t: "pcbs s (running_thread s) = Some t" and nr: "running_thread s \<notin> set (thread_ready_list s)"
    using i by (auto simp: sched_inv_def)
  have cs: "cur_status s = Some (status t)" using t by (simp add: cur_status_def)
  consider (run) "status t = TASK_RUNNING" | (idle) "status t \<noteq> TASK_RUNNING" "thread_ready_list s = []"
    | (wait) "status t \<noteq> TASK_RUNNING" "thread_ready_list s \<noteq> []" by blast
  then show ?thesis
  proof cases
    case run
    let ?s1 = "s\<lparr>thread_ready_list := thread_ready_list s @ [running_thread s],
      pcbs := (pcbs s)(running_thread s \<mapsto> t\<lparr>ticks := priority t, status := TASK_READY\<rparr>)\<rparr>"
    have q: "queued ?s1" by (rule requeue_queued [OF i t run])
    obtain nxt r where l: "thread_ready_list s @ [running_thread s] = nxt # r"
      by (cases "thread_ready_list s") auto
    have sch: "schedule s = dispatch (running_thread ?s1) ?s1"
      using t run nr off by (simp add: schedule_def Let_def)
    obtain s' where s': "schedule s = Inr s'" "sched_ok s'" "run_order s' = nxt # r" "same_globals ?s1 s'"
      "\<And>p. map_option status (pcbs s' p) =
         (if p = nxt then Some TASK_RUNNING else map_option status (pcbs ?s1 p))"
      using switch_part [OF q, of nxt r] l unfolding sch by auto
    have "same_globals s ?s1" using t by (auto simp: same_globals_def)
    from same_globals_trans [OF this s'(4)] s' show ?thesis
      using run cs l by (intro exI [of _ s'] exI [of _ nxt] exI [of _ r]) (simp add: sched_queue_def)
  next
    case idle
    then have st: "cur_status s \<noteq> Some TASK_RUNNING" using cs by simp
    obtain s1 where s1: "thread_unblock (idle_thread s) s = Inr s1" "queued s1"
      "thread_ready_list s1 = [idle_thread s]" "running_thread s1 = running_thread s" "same_globals s s1"
      "\<forall>p. p \<noteq> idle_thread s \<longrightarrow> pcbs s1 p = pcbs s p"
      using idle_queued [OF i st idle(2)] by blast
    have sch: "schedule s = dispatch (running_thread s1) s1"
      using t idle off s1(1,4) by (simp add: schedule_def Let_def)
    obtain s' where s': "schedule s = Inr s'" "sched_ok s'" "run_order s' = [idle_thread s]" "same_globals s1 s'"
      "\<And>p. map_option status (pcbs s' p) =
         (if p = idle_thread s then Some TASK_RUNNING else map_option status (pcbs s1 p))"
      using switch_part [OF s1(2,3)] unfolding sch by auto
    from same_globals_trans [OF s1(5) s'(4)] s' show ?thesis
      using st idle(2) s1(6) by (intro exI [of _ s'] exI [of _ "idle_thread s"] exI [of _ "[]"])
        (auto simp: sched_queue_def cur_status_def)
  next
    case wait
    then have st: "cur_status s \<noteq> Some TASK_RUNNING" using cs by simp
    have q: "queued s" by (rule sched_inv_queued [OF i st wait(2)])
    obtain nxt r where l: "thread_ready_list s = nxt # r" using wait(2) by (cases "thread_ready_list s") auto
    have sch: "schedule s = dispatch (running_thread s) s"
      using t wait off by (simp add: schedule_def Let_def)
    obtain s' where s': "schedule s = Inr s'" "sched_ok s'" "run_order s' = nxt # r" "same_globals s s'"
      "\<And>p. map_option status (pcbs s' p) =
         (if p = nxt then Some TASK_RUNNING else map_option status (pcbs s p))"
      using switch_part [OF q l] unfolding sch by auto
    then show ?thesis
      using st l by (intro exI [of _ s'] exI [of _ nxt] exI [of _ r])
        (simp add: sched_queue_def cur_status_def)
  qed
qed

lemmas schedule_frame = same_globals_def run_order_def

lemma schedule_runs:
  assumes "sched_inv s" and "intr_get_status (eflags s) = INTR_OFF"
  obtains s' where "schedule s = Inr s'" and "sched_ok s'" and "run_order s' = sched_queue s"
    and "same_globals s s'"
    and "\<forall>p. p \<noteq> running_thread s' \<longrightarrow> p \<noteq> running_thread s \<longrightarrow>
          map_option status (pcbs s' p) = map_option status (pcbs s p)"
    and "cur_status s \<noteq> Some TASK_RUNNING \<longrightarrow> running_thread s' \<noteq> running_thread s \<longrightarrow>
          map_option status (pcbs s' (running_thread s)) = cur_status s"
  using schedule_steps [OF assms] by (auto simp: run_order_def)

text \<open>A change of a PCB that leaves the status, the stack pointer and the page directory alone.\<close>

lemma sched_inv_upd:
  assumes i: "sched_inv s" and t: "pcbs s p = Some t"
    and u: "status (f t) = status t" "self_kstack (f t) = self_kstack t" "pgdir (f t) = pgdir t"
  shows "sched_inv (s\<lparr>pcbs := (pcbs s)(p \<mapsto> f t)\<rparr>)" (is "sched_inv ?s")
proof -
  have "thread_ok ?s q v" if q: "pcbs ?s q = Some v" for q v
  proof (cases "q = p")
    case True
    then show ?thesis using q u i t by (auto simp: sched_inv_def thread_ok_def)
  next
    case False
    then have "pcbs s q = Some v" using q by simp
    with i show ?thesis by (auto simp: sched_inv_def thread_ok_def)
  qed
  moreover have "spaces_ok ?s"
    using i t u by (intro spaces_ok_cong [of s ?s]) (auto simp: sched_inv_def intro!: proc_dirs_upd)
  moreover have "\<exists>v. pcbs ?s (idle_thread ?s) = Some v \<and> status v \<noteq> TASK_DIED"
    using i t u by (auto simp: sched_inv_def)
  ultimately show ?thesis using i by (auto simp: sched_inv_def)
qed

lemma sched_inv_ticks [simp]: "sched_inv (s\<lparr>sys_ticks := x\<rparr>) = sched_inv s"
  "sched_inv (s\<lparr>eflags := y\<rparr>) = sched_inv s"
proof -
  have sp: "spaces_ok (s\<lparr>sys_ticks := x\<rparr>) = spaces_ok s" "spaces_ok (s\<lparr>eflags := y\<rparr>) = spaces_ok s"
  proof -
    have "addr_v2p v (s\<lparr>sys_ticks := x, cr3 := d\<rparr>) = addr_v2p v (s\<lparr>cr3 := d\<rparr>)"
      "addr_v2p v (s\<lparr>cr3 := d, sys_ticks := x\<rparr>) = addr_v2p v (s\<lparr>cr3 := d\<rparr>)"
      "addr_v2p v (s\<lparr>cr3 := d, eflags := y\<rparr>) = addr_v2p v (s\<lparr>cr3 := d\<rparr>)"
      "addr_v2p v (s\<lparr>eflags := y, cr3 := d\<rparr>) = addr_v2p v (s\<lparr>cr3 := d\<rparr>)" for v d
      by (rule addr_v2p_cong; simp)+
    then show "spaces_ok (s\<lparr>sys_ticks := x\<rparr>) = spaces_ok s" "spaces_ok (s\<lparr>eflags := y\<rparr>) = spaces_ok s"
      by (simp_all add: spaces_ok_def)
  qed
  show "sched_inv (s\<lparr>sys_ticks := x\<rparr>) = sched_inv s" "sched_inv (s\<lparr>eflags := y\<rparr>) = sched_inv s"
    by (simp_all add: sched_inv_def thread_ok_def sp)
qed

lemma cur_status_upd:
  assumes "pcbs s p = Some t" and "status (f t) = status t"
  shows "cur_status (s\<lparr>pcbs := (pcbs s)(p \<mapsto> f t)\<rparr>) = cur_status s"
  using assms by (simp add: cur_status_def)

lemma cur_status_ticks [simp]: "cur_status (s\<lparr>sys_ticks := x\<rparr>) = cur_status s"
  "cur_status (s\<lparr>eflags := y\<rparr>) = cur_status s"
  by (simp_all add: cur_status_def)

subsection \<open>A small machine\<close>

text \<open>Three kernel threads: 0x9f000 runs, 0x8000 is ready, and the idle thread 0x7000 is blocked.\<close>

definition blank_task :: task_struct where
  "blank_task = \<lparr>self_kstack = 0, pid = 1, status = TASK_BLOCKED, name = replicate 16 0, priority = 2,
     ticks = 2, elapsed_ticks = 0, fd_table = [0, 1, 2, -1, -1, -1, -1, -1], pgdir = 0,
     userprog_vaddr = \<lparr>vaddr_bitmap = \<lparr>btmp_bytes_len = 0, bits = []\<rparr>, vaddr_start = 0\<rparr>,
     u_block_desc = [], cwd_inode_nr = 0, parent_pid = -1, exit_status = 0, stack_magic = STACK_MAGIC\<rparr>"

definition small_kernel :: kernel where
  "small_kernel = \<lparr>pmem = (\<lambda>_. 0), cr3 = 0x100000, eflags = 2, esp = 0x9ff00, tss_esp0 = 0,
     pcbs = [0x9f000 \<mapsto> blank_task\<lparr>status := TASK_RUNNING\<rparr>,
             0x8000 \<mapsto> blank_task\<lparr>self_kstack := 0x8e50, status := TASK_READY, pid := 2\<rparr>,
             0x7000 \<mapsto> blank_task\<lparr>self_kstack := 0x7e50, pid := 3\<rparr>],
     thread_ready_list = [0x8000], thread_all_list = [0x9f000, 0x8000, 0x7000],
     idle_thread = 0x7000, main_thread = 0x9f000, sys_ticks = 0\<rparr>"

lemma small_kernel_ok: "sched_ok small_kernel" "intr_get_status (eflags small_kernel) = INTR_OFF"
  "run_order small_kernel = [0x9f000, 0x8000]"
proof -
  have r: "running_thread small_kernel = 0x9f000" by (simp add: running_thread_def small_kernel_def)
  then show "run_order small_kernel = [0x9f000, 0x8000]" by (simp add: run_order_def small_kernel_def)
  show "intr_get_status (eflags small_kernel) = INTR_OFF"
    by (simp add: small_kernel_def intr_get_status_def EFLAGS_IF_def)
  have "proc_dirs (pcbs small_kernel) = {}"
    by (auto simp: proc_dirs_def small_kernel_def blank_task_def split: if_splits)
  then have "spaces_ok small_kernel"
    by (auto simp: spaces_ok_def small_kernel_def intro: exI [of _ "{0x100000}"])
  moreover have "thread_ok small_kernel p t" if "pcbs small_kernel p = Some t" for p t
    using that r by (auto simp: thread_ok_def small_kernel_def blank_task_def frame_of_def split: if_splits)
  ultimately show "sched_ok small_kernel"
    using r by (auto simp: sched_ok_def sched_inv_def cur_status_def)
      (simp_all add: small_kernel_def blank_task_def)
qed

subsection \<open>What the scheduler promises\<close>

text \<open>
  C11. \<^verbatim>\<open>schedule\<close> called with interrupts off never panics and never faults: it switches to the first
  thread of the queue (the ready threads, with the caller behind them if it is still running;
  the idle thread, which it wakes, if there is none), leaves the others queued in their order,
  and ends in a state where exactly the running thread is marked running.
\<close>

theorem schedule_switches:
  assumes "sched_inv s" and "intr_get_status (eflags s) = INTR_OFF"
  shows "\<exists>s'. schedule s = Inr s' \<and> sched_ok s' \<and> run_order s' = sched_queue s
    \<and> thread_all_list s' = thread_all_list s \<and> dom (pcbs s') = dom (pcbs s) \<and> eflags s' = eflags s
    \<and> (cur_status s \<noteq> Some TASK_RUNNING \<longrightarrow> running_thread s' \<noteq> running_thread s
        \<longrightarrow> map_option status (pcbs s' (running_thread s)) = cur_status s)"
  by (rule schedule_runs [OF assms]) (auto simp: same_globals_def)

theorem schedule_switches_witness:
  "\<exists>s'. schedule small_kernel = Inr s' \<and> run_order s' = [0x8000, 0x9f000]"
proof -
  have "sched_queue small_kernel = [0x8000, 0x9f000]" by code_simp
  then show ?thesis
    using schedule_switches [of small_kernel] small_kernel_ok by (auto simp: sched_ok_def)
qed

primrec schedule_n :: "nat \<Rightarrow> 'a kernel_scheme \<Rightarrow> 'a kernel_scheme res" where
  "schedule_n 0 s = Inr s"
| "schedule_n (Suc n) s = bindR (schedule s) (schedule_n n)"

lemma schedule_rotates:
  assumes "sched_ok s" and "intr_get_status (eflags s) = INTR_OFF"
  obtains s' where "schedule s = Inr s'" and "sched_ok s'" and "run_order s' = rotate1 (run_order s)"
    and "eflags s' = eflags s" and "sys_ticks s' = sys_ticks s"
proof -
  have i: "sched_inv s" and c: "cur_status s = Some TASK_RUNNING" using assms(1) by (auto simp: sched_ok_def)
  obtain s' where s': "schedule s = Inr s'" "sched_ok s'" "run_order s' = sched_queue s" "same_globals s s'"
    by (rule schedule_runs [OF i assms(2)])
  show thesis
    by (rule that [of s']) (use c s' in \<open>auto simp: same_globals_def sched_queue_def run_order_def\<close>)
qed

text \<open>
  C13. Round robin: while no thread blocks, the order of the running and the ready threads rotates by
  one with every call of \<^verbatim>\<open>schedule\<close>, so every ready thread gets the processor within as many
  calls as there are threads before it.
\<close>

theorem schedule_round_robin:
  assumes "sched_ok s" and "intr_get_status (eflags s) = INTR_OFF"
  shows "\<exists>s'. schedule_n n s = Inr s' \<and> sched_ok s' \<and> run_order s' = rotate n (run_order s)
    \<and> (n < length (run_order s) \<longrightarrow> running_thread s' = run_order s ! n)"
proof -
  have "\<exists>s'. schedule_n n s = Inr s' \<and> sched_ok s' \<and> run_order s' = rotate n (run_order s)"
    using assms
  proof (induction n arbitrary: s)
    case (Suc n)
    obtain s1 where s1: "schedule s = Inr s1" "sched_ok s1" "run_order s1 = rotate1 (run_order s)"
      "eflags s1 = eflags s"
      by (rule schedule_rotates [OF Suc.prems])
    then show ?case using Suc.IH [of s1] Suc.prems(2) by (auto simp: rotate1_rotate_swap)
  qed simp
  then obtain s' where s': "schedule_n n s = Inr s'" "sched_ok s'" "run_order s' = rotate n (run_order s)"
    by blast
  moreover have "running_thread s' = run_order s ! n" if "n < length (run_order s)"
  proof -
    have "running_thread s' = hd (rotate n (run_order s))"
      using s'(3) by (metis list.sel(1) run_order_def)
    also have "\<dots> = run_order s ! n"
      using that hd_rotate_conv_nth [of "run_order s" n] by (auto simp: run_order_def)
    finally show ?thesis .
  qed
  ultimately show ?thesis by blast
qed

theorem schedule_round_robin_witness:
  "\<exists>s'. schedule_n 1 small_kernel = Inr s' \<and> running_thread s' = 0x8000"
  using schedule_round_robin [OF small_kernel_ok(1,2), of 1] small_kernel_ok(3) by auto

primrec timer_n :: "nat \<Rightarrow> 'a kernel_scheme \<Rightarrow> 'a kernel_scheme res" where
  "timer_n 0 s = Inr s"
| "timer_n (Suc n) s = bindR (intr_timer_handler s) (timer_n n)"

text \<open>A tick that does not end the time slice.\<close>

lemma timer_tick:
  assumes "sched_ok s" and "pcbs s (running_thread s) = Some t" and "stack_magic t = STACK_MAGIC"
    and "ticks t \<noteq> 0"
  obtains s' where "intr_timer_handler s = Inr s'" and "sched_ok s'" and "run_order s' = run_order s"
    and "pcbs s' (running_thread s') = Some (t\<lparr>elapsed_ticks := elapsed_ticks t + 1, ticks := ticks t - 1\<rparr>)"
    and "sys_ticks s' = sys_ticks s + 1" and "eflags s' = eflags s"
proof -
  let ?p = "running_thread s" and ?t = "t\<lparr>elapsed_ticks := elapsed_ticks t + 1, ticks := ticks t - 1\<rparr>"
  let ?s = "s\<lparr>sys_ticks := sys_ticks s + 1, pcbs := (pcbs s)(?p \<mapsto> ?t)\<rparr>"
  have "intr_timer_handler s = Inr ?s" using assms(2-4) by (simp add: intr_timer_handler_def Let_def)
  moreover have "sched_ok ?s"
    using assms(1) sched_inv_upd [of "s\<lparr>sys_ticks := sys_ticks s + 1\<rparr>" ?p t "\<lambda>_. ?t"]
      cur_status_upd [of "s\<lparr>sys_ticks := sys_ticks s + 1\<rparr>" ?p t "\<lambda>_. ?t"] assms(2)
    by (simp add: sched_ok_def)
  moreover have "run_order ?s = run_order s" by (simp add: run_order_def)
  ultimately show thesis using that [of ?s] by simp
qed

text \<open>The tick that does.\<close>

lemma timer_expires:
  assumes "sched_ok s" and "pcbs s (running_thread s) = Some t" and "stack_magic t = STACK_MAGIC"
    and "ticks t = 0" and "intr_get_status (eflags s) = INTR_OFF"
  obtains s' where "intr_timer_handler s = Inr s'" and "sched_ok s'"
    and "run_order s' = rotate1 (run_order s)" and "sys_ticks s' = sys_ticks s + 1"
proof -
  let ?p = "running_thread s" and ?t = "t\<lparr>elapsed_ticks := elapsed_ticks t + 1\<rparr>"
  let ?s = "s\<lparr>sys_ticks := sys_ticks s + 1, pcbs := (pcbs s)(?p \<mapsto> ?t)\<rparr>"
  have ok: "sched_ok ?s"
    using assms(1) sched_inv_upd [of "s\<lparr>sys_ticks := sys_ticks s + 1\<rparr>" ?p t "\<lambda>_. ?t"]
      cur_status_upd [of "s\<lparr>sys_ticks := sys_ticks s + 1\<rparr>" ?p t "\<lambda>_. ?t"] assms(2)
    by (simp add: sched_ok_def)
  have "intr_get_status (eflags ?s) = INTR_OFF" using assms(5) by simp
  from schedule_rotates [OF ok this] obtain s' where "schedule ?s = Inr s'" "sched_ok s'"
    "run_order s' = rotate1 (run_order ?s)" "sys_ticks s' = sys_ticks ?s" by blast
  moreover have "intr_timer_handler s = schedule ?s" using assms(2-4) by (simp add: intr_timer_handler_def Let_def)
  moreover have "run_order ?s = run_order s" by (simp add: run_order_def)
  ultimately show thesis using that [of s'] by simp
qed

text \<open>
  The time slice: a running thread with \<open>n\<close> ticks left keeps the processor for \<open>n\<close> timer interrupts,
  each counted in its \<^verbatim>\<open>elapsed_ticks\<close>, and the next one switches to the first ready thread.
\<close>

theorem timer_slice:
  assumes "sched_ok s" and "intr_get_status (eflags s) = INTR_OFF"
    and "pcbs s (running_thread s) = Some t" and "stack_magic t = STACK_MAGIC" and "unat (ticks t) = n"
  shows "\<exists>s' s''. timer_n n s = Inr s' \<and> run_order s' = run_order s
    \<and> pcbs s' (running_thread s) = Some (t\<lparr>elapsed_ticks := elapsed_ticks t + of_nat n, ticks := 0\<rparr>)
    \<and> intr_timer_handler s' = Inr s'' \<and> run_order s'' = rotate1 (run_order s)
    \<and> sys_ticks s'' = sys_ticks s + of_nat n + 1"
  using assms
proof (induction n arbitrary: s t)
  case 0
  then have "ticks t = 0" by (simp add: unat_eq_0)
  from timer_expires [OF "0.prems"(1,3,4) this "0.prems"(2)] obtain s' where
    "intr_timer_handler s = Inr s'" "run_order s' = rotate1 (run_order s)" "sys_ticks s' = sys_ticks s + 1"
    by blast
  then show ?case using "0.prems"(3) \<open>ticks t = 0\<close> by (intro exI [of _ s] exI [of _ s']) simp
next
  case (Suc n)
  then have nz: "ticks t \<noteq> 0" by auto
  from timer_tick [OF Suc.prems(1,3,4) nz] obtain s1 where s1: "intr_timer_handler s = Inr s1" "sched_ok s1"
    "run_order s1 = run_order s"
    "pcbs s1 (running_thread s1) = Some (t\<lparr>elapsed_ticks := elapsed_ticks t + 1, ticks := ticks t - 1\<rparr>)"
    "sys_ticks s1 = sys_ticks s + 1" "eflags s1 = eflags s" by blast
  have "unat (ticks t - 1) = n"
    using Suc.prems(5) nz by (simp add: unat_minus_one)
  then show ?case
    using Suc.IH [OF s1(2) _ s1(4)] s1 Suc.prems(2,4)
    by (auto simp: algebra_simps run_order_def intro!: exI)
qed

theorem timer_slice_witness:
  "\<exists>s' s''. timer_n 2 small_kernel = Inr s' \<and> run_order s' = [0x9f000, 0x8000]
    \<and> intr_timer_handler s' = Inr s'' \<and> run_order s'' = [0x8000, 0x9f000]"
proof -
  have "pcbs small_kernel (running_thread small_kernel) = Some (blank_task\<lparr>status := TASK_RUNNING\<rparr>)"
    by (simp add: small_kernel_def running_thread_def)
  from timer_slice [OF small_kernel_ok(1,2) this, of 2] small_kernel_ok(3) show ?thesis
    by (auto simp: blank_task_def)
qed

text \<open>Blocking: the running thread leaves the order of the processor.\<close>

lemma thread_block_sched:
  assumes "sched_ok s" and "wait_status stat"
  obtains s' where "thread_block stat s = Inr (fst (intr_disable (eflags s)), s')" and "sched_ok s'"
    and "run_order s' = (if thread_ready_list s = [] then [idle_thread s] else thread_ready_list s)"
    and "eflags s' = snd (intr_disable (eflags s))" and "idle_thread s' = idle_thread s"
    and "dom (pcbs s') = dom (pcbs s)"
    and "running_thread s' \<noteq> running_thread s \<longrightarrow>
      map_option status (pcbs s' (running_thread s)) = Some stat"
    and "\<forall>p. p \<noteq> running_thread s' \<longrightarrow> p \<noteq> running_thread s \<longrightarrow>
      map_option status (pcbs s' p) = map_option status (pcbs s p)"
proof -
  let ?p = "running_thread s"
  have i: "sched_inv s" using assms(1) by (simp add: sched_ok_def)
  obtain t where t: "pcbs s ?p = Some t" using i by (auto simp: sched_inv_def)
  let ?s1 = "s\<lparr>eflags := snd (intr_disable (eflags s))\<rparr>"
  let ?s2 = "?s1\<lparr>pcbs := (pcbs ?s1)(?p \<mapsto> t\<lparr>status := stat\<rparr>)\<rparr>"
  have i1: "sched_inv ?s1" using i by simp
  have st: "stat \<noteq> TASK_READY" "stat \<noteq> TASK_RUNNING" "stat \<noteq> TASK_DIED"
    using assms(2) by (auto simp: wait_status_def)
  have "thread_ok ?s2 q v" if q: "pcbs ?s2 q = Some v" for q v
  proof (cases "q = ?p")
    case True
    then have "v = t\<lparr>status := stat\<rparr>" using q by simp
    then show ?thesis using True i t st by (auto simp: sched_inv_def thread_ok_def)
  next
    case False
    then have "pcbs s q = Some v" using q by simp
    with i False show ?thesis by (auto simp: sched_inv_def thread_ok_def)
  qed
  moreover have "spaces_ok ?s2"
    using i1 t by (intro spaces_ok_cong [of ?s1 ?s2]) (auto simp: sched_inv_def intro!: proc_dirs_upd)
  moreover have "\<exists>v. pcbs ?s2 (idle_thread ?s2) = Some v \<and> status v \<noteq> TASK_DIED"
    using i t st by (auto simp: sched_inv_def)
  ultimately have i2: "sched_inv ?s2" using i by (auto simp: sched_inv_def)
  have c2: "cur_status ?s2 = Some stat" by (simp add: cur_status_def)
  have off: "intr_get_status (eflags ?s2) = INTR_OFF" by simp
  obtain s' where s': "schedule ?s2 = Inr s'" "sched_ok s'" "run_order s' = sched_queue ?s2"
    "same_globals ?s2 s'"
    "\<forall>p. p \<noteq> running_thread s' \<longrightarrow> p \<noteq> running_thread ?s2 \<longrightarrow>
      map_option status (pcbs s' p) = map_option status (pcbs ?s2 p)"
    "cur_status ?s2 \<noteq> Some TASK_RUNNING \<longrightarrow> running_thread s' \<noteq> running_thread ?s2 \<longrightarrow>
      map_option status (pcbs s' (running_thread ?s2)) = cur_status ?s2"
    by (rule schedule_runs [OF i2 off])
  have "thread_block stat s = Inr (fst (intr_disable (eflags s)), s')"
    using s'(1) assms(2) t by (simp add: thread_block_def split_beta Let_def)
  moreover have "dom (pcbs s') = dom (pcbs s)" using s'(4) t by (auto simp: same_globals_def)
  moreover have "running_thread s' \<noteq> ?p \<longrightarrow> map_option status (pcbs s' ?p) = Some stat"
    using s'(6) c2 st by simp
  moreover have "\<forall>p. p \<noteq> running_thread s' \<longrightarrow> p \<noteq> ?p \<longrightarrow>
      map_option status (pcbs s' p) = map_option status (pcbs s p)"
    using s'(5) by simp
  ultimately show thesis
    using that [of s'] s'(2-4) st c2 by (simp add: same_globals_def sched_queue_def)
qed

lemma thread_unblock_sched:
  assumes "sched_ok s" and "pcbs s p = Some t" and "wait_status (status t)"
  shows "\<exists>s'. thread_unblock p s = Inr s' \<and> sched_ok s' \<and> running_thread s' = running_thread s
    \<and> thread_ready_list s' = p # thread_ready_list s \<and> same_globals s s'
    \<and> (\<forall>q. q \<noteq> p \<longrightarrow> pcbs s' q = pcbs s q)"
proof -
  have i: "sched_inv s" and c: "cur_status s = Some TASK_RUNNING" using assms(1) by (auto simp: sched_ok_def)
  have ok: "thread_ok s p t" using i assms(2) by (auto simp: sched_inv_def)
  then have np: "p \<notin> set (thread_ready_list s)" using assms(3) by (auto simp: thread_ok_def wait_status_def)
  have nr: "p \<noteq> running_thread s" using c assms(2,3) by (auto simp: cur_status_def wait_status_def)
  let ?s = "s\<lparr>thread_ready_list := p # thread_ready_list s, pcbs := (pcbs s)(p \<mapsto> t\<lparr>status := TASK_READY\<rparr>)\<rparr>"
  have "thread_ok ?s q v" if q: "pcbs ?s q = Some v" for q v
  proof (cases "q = p")
    case True
    then have "v = t\<lparr>status := TASK_READY\<rparr>" using q by simp
    then show ?thesis using True ok nr by (auto simp: thread_ok_def)
  next
    case False
    then have "pcbs s q = Some v" using q by simp
    with i False show ?thesis by (auto simp: sched_inv_def thread_ok_def)
  qed
  moreover have "spaces_ok ?s"
    using i assms(2) by (intro spaces_ok_cong [of s ?s]) (auto simp: sched_inv_def intro!: proc_dirs_upd)
  moreover have "\<exists>v. pcbs ?s (idle_thread ?s) = Some v \<and> status v \<noteq> TASK_DIED"
    using i assms(2) by (auto simp: sched_inv_def)
  ultimately have "sched_ok ?s"
    using i c assms(2) np nr by (auto simp: sched_ok_def sched_inv_def cur_status_def)
  then show ?thesis
    using thread_unblock_ok [OF assms(2,3) np] assms(2) by (auto simp: same_globals_def)
qed

text \<open>
  A thread that blocks itself hands the processor to the first ready thread (or the idle thread)
  and is not ready any more; once the then running thread unblocks it, it is the first of the
  ready threads, and nothing panics on the way.
\<close>

theorem block_then_unblock:
  assumes "sched_ok s" and "wait_status stat" and "thread_ready_list s = nxt # r"
  shows "\<exists>s' s''. thread_block stat s = Inr (fst (intr_disable (eflags s)), s') \<and> sched_ok s'
    \<and> run_order s' = nxt # r
    \<and> thread_unblock (running_thread s) s' = Inr s'' \<and> sched_ok s''
    \<and> run_order s'' = nxt # running_thread s # r \<and> eflags s'' = eflags s'"
proof -
  obtain s' where s': "thread_block stat s = Inr (fst (intr_disable (eflags s)), s')" "sched_ok s'"
    "run_order s' = (if thread_ready_list s = [] then [idle_thread s] else thread_ready_list s)"
    "running_thread s' \<noteq> running_thread s \<longrightarrow>
      map_option status (pcbs s' (running_thread s)) = Some stat"
    by (rule thread_block_sched [OF assms(1,2)])
  have ro: "running_thread s' = nxt" "thread_ready_list s' = r" using s'(3) assms(3) by (auto simp: run_order_def)
  have "nxt \<noteq> running_thread s" using assms(1,3) by (auto simp: sched_ok_def sched_inv_def)
  then obtain t where t: "pcbs s' (running_thread s) = Some t" "status t = stat" using s'(4) ro by auto
  then obtain s'' where "thread_unblock (running_thread s) s' = Inr s''" "sched_ok s''"
    "running_thread s'' = running_thread s'" "thread_ready_list s'' = running_thread s # thread_ready_list s'"
    "same_globals s' s''"
    using thread_unblock_sched [OF s'(2) t(1)] assms(2) by auto
  then show ?thesis using s' ro assms(3)
    by (intro exI [of _ s'] exI [of _ s'']) (auto simp: run_order_def same_globals_def)
qed

theorem block_then_unblock_witness:
  "\<exists>s' s''. thread_block TASK_BLOCKED small_kernel = Inr (INTR_OFF, s') \<and> run_order s' = [0x8000]
    \<and> thread_unblock 0x9f000 s' = Inr s'' \<and> run_order s'' = [0x8000, 0x9f000]"
proof -
  have "wait_status TASK_BLOCKED" "thread_ready_list small_kernel = [0x8000]"
    "running_thread small_kernel = 0x9f000" "fst (intr_disable (eflags small_kernel)) = INTR_OFF"
    by code_simp+
  with block_then_unblock [OF small_kernel_ok(1)] show ?thesis by metis
qed

text \<open>
  C14. \<^verbatim>\<open>thread_yield\<close> cannot be used: it appends the running thread to the ready list without changing
  its status, so the \<^verbatim>\<open>ASSERT\<close> of \<^verbatim>\<open>schedule\<close> that a running thread is not in that list fires. Hence
  \<^verbatim>\<open>mtime_sleep\<close>, which waits by yielding, panics for every duration.
\<close>

theorem thread_yield_panics:
  assumes "sched_ok s"
  shows "thread_yield s = Inl Assert_Fail \<and> mtime_sleep m_seconds s = Inl Assert_Fail"
proof -
  obtain t where t: "pcbs s (running_thread s) = Some t" "status t = TASK_RUNNING"
    "running_thread s \<notin> set (thread_ready_list s)"
    using assms by (auto simp: sched_ok_def sched_inv_def cur_status_def)
  then have "thread_yield s = Inl Assert_Fail"
    by (simp add: thread_yield_def schedule_def split_beta Let_def)
  then show ?thesis
    by (simp add: mtime_sleep_def sleep_pass_def Let_def ASSERT_def word_gt_0)
qed

theorem thread_yield_panics_witness: "thread_yield small_kernel = Inl Assert_Fail"
  using thread_yield_panics [OF small_kernel_ok(1)] by blast

end
