(* ===== verification/Sync.thy ===== *)
theory Sync
  imports Prelude Klist Thread
begin

section \<open>Semaphores and locks (\<^verbatim>\<open>thread/sync.c\<close>)\<close>

text \<open>
  The operations as functions of the semaphore or lock and the kernel state, first for one
  thread (a call that would have to wait is \<open>Would_Block\<close>), then as the steps of a system in
  which any number of threads use one lock: each thread has a place in the code, the running
  thread does the next step, and the timer may switch threads wherever interrupts are on. A
  step is a stretch of code between two points where that can happen; the body of \<^verbatim>\<open>sema_down\<close>'s
  loop and the whole of \<^verbatim>\<open>sema_up\<close> run with interrupts off and are one step each, with
  \<^verbatim>\<open>thread_block\<close> as the only place where another thread comes in.
\<close>

subsection \<open>The data and the operations\<close>

record semaphore =
  sem_value :: u8
  waiters :: "u32 list"

record lock =
  holder :: u32
  sema :: semaphore
  holder_repeat_nr :: u32

definition sema_init :: "u8 \<Rightarrow> semaphore" where
  "sema_init v = \<lparr>sem_value = v, waiters = []\<rparr>"

definition lock_init :: lock where
  "lock_init = \<lparr>holder = 0, sema = sema_init 1, holder_repeat_nr = 0\<rparr>"

text \<open>The loop body of \<^verbatim>\<open>sema_down\<close> with what follows the loop, interrupts off: true if the semaphore
  was taken; false if the thread is now among the waiters and another one runs.\<close>

definition sema_down_pass :: "semaphore \<Rightarrow> 'a kernel_scheme \<Rightarrow> (bool \<times> semaphore \<times> 'a kernel_scheme) res" where
  "sema_down_pass psema s =
     (if sem_value psema = 0 then
        ASSERT (running_thread s \<notin> set (waiters psema))
          (bindR (kl_append (running_thread s) (waiters psema)) (\<lambda>w.
           bindR (thread_block TASK_BLOCKED s) (\<lambda>(old_status, s'). Inr (False, psema\<lparr>waiters := w\<rparr>, s'))))
      else
        (let v = sem_value psema - 1 in
         ASSERT (v = 0) (Inr (True, psema\<lparr>sem_value := v\<rparr>, s))))"

definition sema_down :: "semaphore \<Rightarrow> 'a kernel_scheme \<Rightarrow> (semaphore \<times> 'a kernel_scheme) res" where
  "sema_down psema s =
     (let (old_status, fl) = intr_disable (eflags s) in
      bindR (sema_down_pass psema (s\<lparr>eflags := fl\<rparr>)) (\<lambda>(got, psema', s1).
      if got then Inr (psema', s1\<lparr>eflags := snd (intr_set_status old_status (eflags s1))\<rparr>)
      else Inl Would_Block))"

definition sema_up :: "semaphore \<Rightarrow> 'a kernel_scheme \<Rightarrow> (semaphore \<times> 'a kernel_scheme) res" where
  "sema_up psema s0 =
     (let (old_status, fl) = intr_disable (eflags s0); s = s0\<lparr>eflags := fl\<rparr> in
      ASSERT (sem_value psema = 0)
        (bindR (if waiters psema \<noteq> [] then
                  bindR (kl_pop (waiters psema)) (\<lambda>(thread_blocked, w).
                  bindR (thread_unblock thread_blocked s) (\<lambda>s1. Inr (psema\<lparr>waiters := w\<rparr>, s1)))
                else Inr (psema, s)) (\<lambda>(psema1, s1).
         let v = sem_value psema1 + 1 in
         ASSERT (v = 1)
           (Inr (psema1\<lparr>sem_value := v\<rparr>, s1\<lparr>eflags := snd (intr_set_status old_status (eflags s1))\<rparr>)))))"

definition lock_acquire :: "lock \<Rightarrow> 'a kernel_scheme \<Rightarrow> (lock \<times> 'a kernel_scheme) res" where
  "lock_acquire plock s =
     (if holder plock \<noteq> running_thread s then
        bindR (sema_down (sema plock) s) (\<lambda>(m, s1).
        let plock1 = plock\<lparr>sema := m, holder := running_thread s1\<rparr> in
        ASSERT (holder_repeat_nr plock1 = 0) (Inr (plock1\<lparr>holder_repeat_nr := 1\<rparr>, s1)))
      else Inr (plock\<lparr>holder_repeat_nr := holder_repeat_nr plock + 1\<rparr>, s))"

definition lock_release :: "lock \<Rightarrow> 'a kernel_scheme \<Rightarrow> (lock \<times> 'a kernel_scheme) res" where
  "lock_release plock s =
     ASSERT (holder plock = running_thread s)
       (if holder_repeat_nr plock > 1 then
          Inr (plock\<lparr>holder_repeat_nr := holder_repeat_nr plock - 1\<rparr>, s)
        else
          ASSERT (holder_repeat_nr plock = 1)
            (bindR (sema_up (sema plock) s) (\<lambda>(m, s1).
             Inr (plock\<lparr>holder_repeat_nr := 0, holder := 0, sema := m\<rparr>, s1))))"

subsection \<open>Any number of threads\<close>

text \<open>Where a thread is with respect to the lock: outside; past the test of the holder in
  \<^verbatim>\<open>lock_acquire\<close>; at the loop of \<^verbatim>\<open>sema_down\<close> (with the interrupt status to give back); before the
  two assignments that follow it; inside; in \<^verbatim>\<open>lock_release\<close> before the holder is cleared; before
  \<^verbatim>\<open>sema_up\<close>.\<close>

datatype lock_pc =
  L_Out | L_Acq | L_Down intr_status | L_SetHolder | L_SetRep | L_Held | L_RelHolder | L_Up

record lock_sys =
  lk_k :: kernel
  lk_lock :: lock
  lk_pc :: "u32 \<Rightarrow> lock_pc"

text \<open>What can happen next: the running thread does its next step (\<open>Go\<close>; inside, this is the
  release), acquires the lock it holds once more (\<open>Again\<close>), changes its interrupt flag, is
  switched out by the timer, blocks for another reason, or unblocks a thread that blocked for
  another reason.\<close>

datatype lock_move =
  Go | Again | Flags u32 | Preempt | Sleep task_status | Wake u32

definition in_loop :: "lock_pc \<Rightarrow> bool" where
  "in_loop c \<longleftrightarrow> (case c of L_Down _ \<Rightarrow> True | _ \<Rightarrow> False)"

definition lock_go :: "lock_sys \<Rightarrow> lock_sys res" where
  "lock_go g =
     (let k = lk_k g; l = lk_lock g; p = running_thread k; to = (\<lambda>c. (lk_pc g)(p := c)) in
      case lk_pc g p of
        L_Out \<Rightarrow>
          if holder l \<noteq> p then Inr (g\<lparr>lk_pc := to L_Acq\<rparr>)
          else Inr (g\<lparr>lk_lock := l\<lparr>holder_repeat_nr := holder_repeat_nr l + 1\<rparr>, lk_pc := to L_Held\<rparr>)
      | L_Acq \<Rightarrow>
          (let (old_status, fl) = intr_disable (eflags k) in
           Inr (g\<lparr>lk_k := k\<lparr>eflags := fl\<rparr>, lk_pc := to (L_Down old_status)\<rparr>))
      | L_Down old_status \<Rightarrow>
          bindR (sema_down_pass (sema l) k) (\<lambda>(got, m, k1).
          if got then
            Inr (g\<lparr>lk_k := k1\<lparr>eflags := snd (intr_set_status old_status (eflags k1))\<rparr>,
                   lk_lock := l\<lparr>sema := m\<rparr>, lk_pc := to L_SetHolder\<rparr>)
          else Inr (g\<lparr>lk_k := k1, lk_lock := l\<lparr>sema := m\<rparr>\<rparr>))
      | L_SetHolder \<Rightarrow> Inr (g\<lparr>lk_lock := l\<lparr>holder := p\<rparr>, lk_pc := to L_SetRep\<rparr>)
      | L_SetRep \<Rightarrow>
          ASSERT (holder_repeat_nr l = 0)
            (Inr (g\<lparr>lk_lock := l\<lparr>holder_repeat_nr := 1\<rparr>, lk_pc := to L_Held\<rparr>))
      | L_Held \<Rightarrow>
          ASSERT (holder l = p)
            (if holder_repeat_nr l > 1
             then Inr (g\<lparr>lk_lock := l\<lparr>holder_repeat_nr := holder_repeat_nr l - 1\<rparr>\<rparr>)
             else ASSERT (holder_repeat_nr l = 1)
               (Inr (g\<lparr>lk_lock := l\<lparr>holder_repeat_nr := 0\<rparr>, lk_pc := to L_RelHolder\<rparr>)))
      | L_RelHolder \<Rightarrow> Inr (g\<lparr>lk_lock := l\<lparr>holder := 0\<rparr>, lk_pc := to L_Up\<rparr>)
      | L_Up \<Rightarrow>
          bindR (sema_up (sema l) k) (\<lambda>(m, k1).
          Inr (g\<lparr>lk_k := k1, lk_lock := l\<lparr>sema := m\<rparr>, lk_pc := to L_Out\<rparr>)))"

definition lock_step :: "lock_move \<Rightarrow> lock_sys \<Rightarrow> lock_sys res" where
  "lock_step mv g =
     (let k = lk_k g; l = lk_lock g in
      case mv of
        Go \<Rightarrow> lock_go g
      | Again \<Rightarrow> Inr (g\<lparr>lk_lock := l\<lparr>holder_repeat_nr := holder_repeat_nr l + 1\<rparr>\<rparr>)
      | Flags fl \<Rightarrow> Inr (g\<lparr>lk_k := k\<lparr>eflags := fl\<rparr>\<rparr>)
      | Preempt \<Rightarrow> bindR (schedule (k\<lparr>eflags := cli (eflags k)\<rparr>)) (\<lambda>k1. Inr (g\<lparr>lk_k := k1\<rparr>))
      | Sleep stat \<Rightarrow> bindR (thread_block stat k) (\<lambda>(old_status, k1). Inr (g\<lparr>lk_k := k1\<rparr>))
      | Wake q \<Rightarrow> bindR (thread_unblock q k) (\<lambda>k1. Inr (g\<lparr>lk_k := k1\<rparr>)))"

text \<open>Which moves are possible. The idle thread only blocks itself. A thread that acquires the lock
  it holds over and over must stop before the 32-bit counter wraps.\<close>

definition enabled :: "lock_move \<Rightarrow> lock_sys \<Rightarrow> bool" where
  "enabled mv g \<longleftrightarrow>
     (let k = lk_k g; p = running_thread k; c = lk_pc g p in
      case mv of
        Go \<Rightarrow> p \<noteq> idle_thread k
      | Again \<Rightarrow> c = L_Held \<and> holder_repeat_nr (lk_lock g) \<noteq> -1
      | Flags _ \<Rightarrow> \<not> in_loop c
      | Preempt \<Rightarrow> intr_get_status (eflags k) = INTR_ON
      | Sleep stat \<Rightarrow> wait_status stat \<and> \<not> in_loop c
      | Wake q \<Rightarrow> \<not> in_loop c \<and> \<not> in_loop (lk_pc g q)
          \<and> (case pcbs k q of None \<Rightarrow> False | Some t \<Rightarrow> wait_status (status t)))"

inductive lock_reach :: "lock_sys \<Rightarrow> bool" where
  lr_init: "sched_ok k \<Longrightarrow> lock_reach \<lparr>lk_k = k, lk_lock = lock_init, lk_pc = (\<lambda>_. L_Out)\<rparr>"
| lr_step: "lock_reach g \<Longrightarrow> enabled mv g \<Longrightarrow> lock_step mv g = Inr g' \<Longrightarrow> lock_reach g'"

subsection \<open>The invariant of a lock\<close>

definition asleep :: "'a kernel_scheme \<Rightarrow> u32 \<Rightarrow> bool" where
  "asleep k p \<longleftrightarrow> map_option status (pcbs k p) = Some TASK_BLOCKED"

text \<open>The critical section, from the taken semaphore to \<^verbatim>\<open>sema_up\<close>.\<close>

definition in_cs :: "lock_pc \<Rightarrow> bool" where
  "in_cs c \<longleftrightarrow> (case c of L_Out \<Rightarrow> False | L_Acq \<Rightarrow> False | L_Down _ \<Rightarrow> False | _ \<Rightarrow> True)"

definition owner_ok :: "lock \<Rightarrow> u32 \<Rightarrow> lock_pc \<Rightarrow> bool" where
  "owner_ok l p c \<longleftrightarrow>
     (case c of
        L_SetHolder \<Rightarrow> holder l = 0 \<and> holder_repeat_nr l = 0
      | L_SetRep \<Rightarrow> holder l = p \<and> holder_repeat_nr l = 0
      | L_Held \<Rightarrow> holder l = p \<and> holder_repeat_nr l \<noteq> 0
      | L_RelHolder \<Rightarrow> holder l = p \<and> holder_repeat_nr l = 0
      | L_Up \<Rightarrow> holder l = 0 \<and> holder_repeat_nr l = 0
      | _ \<Rightarrow> False)"

text \<open>The waiters sleep at the loop; a thread at the loop that is not among them can run.\<close>

definition waiters_inv :: "lock_sys \<Rightarrow> bool" where
  "waiters_inv g \<longleftrightarrow>
     (let k = lk_k g; w = waiters (sema (lk_lock g)); pc = lk_pc g in
      sched_ok k \<and> distinct w
      \<and> (\<forall>p\<in>set w. in_loop (pc p) \<and> asleep k p)
      \<and> (\<forall>p. in_loop (pc p) \<longrightarrow> p \<in> set w \<or> p \<in> set (run_order k))
      \<and> \<not> in_loop (pc (idle_thread k))
      \<and> (in_loop (pc (running_thread k)) \<longrightarrow> intr_get_status (eflags k) = INTR_OFF))"

text \<open>Value 0: exactly one thread is in the critical section. Value 1: none is, and if threads wait
  then one that will try again can run.\<close>

definition owner_held :: "lock \<Rightarrow> (u32 \<Rightarrow> lock_pc) \<Rightarrow> bool" where
  "owner_held l pc \<longleftrightarrow> (\<exists>p. in_cs (pc p) \<and> owner_ok l p (pc p) \<and> (\<forall>q. in_cs (pc q) \<longrightarrow> q = p))"

definition lock_free :: "lock \<Rightarrow> (u32 \<Rightarrow> lock_pc) \<Rightarrow> u32 set \<Rightarrow> bool" where
  "lock_free l pc runnable \<longleftrightarrow> holder l = 0 \<and> holder_repeat_nr l = 0 \<and> (\<forall>q. \<not> in_cs (pc q))
     \<and> (waiters (sema l) \<noteq> [] \<longrightarrow> (\<exists>p\<in>runnable. in_loop (pc p)))"

definition owner_inv :: "lock_sys \<Rightarrow> bool" where
  "owner_inv g \<longleftrightarrow>
     (let l = lk_lock g; pc = lk_pc g in
      (sem_value (sema l) = 0 \<and> owner_held l pc)
      \<or> (sem_value (sema l) = 1 \<and> lock_free l pc (set (run_order (lk_k g)))))"

definition lock_inv :: "lock_sys \<Rightarrow> bool" where
  "lock_inv g \<longleftrightarrow> waiters_inv g \<and> owner_inv g"

lemmas pc_simps = in_loop_def in_cs_def owner_ok_def

lemma sched_ok_eflags [simp]: "sched_ok (k\<lparr>eflags := x\<rparr>) = sched_ok k"
  by (simp add: sched_ok_def)

lemma run_order_eflags [simp]: "run_order (k\<lparr>eflags := x\<rparr>) = run_order k"
  by (simp add: run_order_def)

lemma asleep_eflags [simp]: "asleep (k\<lparr>eflags := x\<rparr>) p = asleep k p"
  by (simp add: asleep_def)

lemma asleep_not_running:
  assumes "sched_ok k" and "asleep k p"
  shows "p \<notin> set (run_order k)" and "p \<noteq> running_thread k"
proof -
  obtain t where t: "pcbs k p = Some t" "status t = TASK_BLOCKED" using assms(2) by (auto simp: asleep_def)
  then have "thread_ok k p t" using assms(1) by (auto simp: sched_ok_def sched_inv_def)
  then have "p \<notin> set (thread_ready_list k)" using t(2) by (auto simp: thread_ok_def)
  moreover show "p \<noteq> running_thread k" using assms(1) t by (auto simp: sched_ok_def cur_status_def)
  ultimately show "p \<notin> set (run_order k)" by (simp add: run_order_def)
qed

text \<open>What the scheduler's routines do to the sleeping and the runnable threads.\<close>

lemma preempt_frame:
  assumes "sched_ok k"
  obtains k' where "schedule (k\<lparr>eflags := cli (eflags k)\<rparr>) = Inr k'" and "sched_ok k'"
    and "set (run_order k') = set (run_order k)" and "\<forall>p. asleep k p \<longrightarrow> asleep k' p"
    and "idle_thread k' = idle_thread k" and "intr_get_status (eflags k') = INTR_OFF"
proof -
  let ?k = "k\<lparr>eflags := cli (eflags k)\<rparr>"
  have i: "sched_inv ?k" and c: "cur_status ?k = Some TASK_RUNNING" using assms by (auto simp: sched_ok_def)
  have off: "intr_get_status (eflags ?k) = INTR_OFF" by simp
  obtain k' where k': "schedule ?k = Inr k'" "sched_ok k'" "run_order k' = sched_queue ?k"
    "same_globals ?k k'" "\<forall>p. p \<noteq> running_thread k' \<longrightarrow> p \<noteq> running_thread ?k \<longrightarrow>
      map_option status (pcbs k' p) = map_option status (pcbs ?k p)"
    by (rule schedule_runs [OF i off])
  have ro: "set (run_order k') = set (run_order k)"
    using k'(3) c by (simp add: sched_queue_def run_order_def)
  have "asleep k' p" if "asleep k p" for p
  proof -
    have "p \<notin> set (run_order k)" by (rule asleep_not_running [OF assms that])
    then have "p \<noteq> running_thread k'" "p \<noteq> running_thread k"
      using ro by (auto simp: run_order_def)
    then show ?thesis using k'(5) that by (simp add: asleep_def)
  qed
  with that [of k'] k' ro show thesis by (auto simp: same_globals_def)
qed

lemma sleep_frame:
  assumes "sched_ok k" and "wait_status stat"
  obtains old k' where "thread_block stat k = Inr (old, k')" and "sched_ok k'"
    and "set (run_order k') \<supseteq> set (thread_ready_list k)"
    and "set (run_order k') \<subseteq> insert (idle_thread k) (set (thread_ready_list k))"
    and "\<forall>p. p \<noteq> idle_thread k \<longrightarrow> asleep k p \<longrightarrow> asleep k' p"
    and "stat = TASK_BLOCKED \<longrightarrow> running_thread k \<noteq> idle_thread k \<longrightarrow> asleep k' (running_thread k)"
    and "idle_thread k' = idle_thread k" and "intr_get_status (eflags k') = INTR_OFF"
proof -
  obtain k' where k': "thread_block stat k = Inr (fst (intr_disable (eflags k)), k')" "sched_ok k'"
    "run_order k' = (if thread_ready_list k = [] then [idle_thread k] else thread_ready_list k)"
    "eflags k' = snd (intr_disable (eflags k))" "idle_thread k' = idle_thread k" "dom (pcbs k') = dom (pcbs k)"
    "running_thread k' \<noteq> running_thread k \<longrightarrow>
      map_option status (pcbs k' (running_thread k)) = Some stat"
    "\<forall>p. p \<noteq> running_thread k' \<longrightarrow> p \<noteq> running_thread k \<longrightarrow>
      map_option status (pcbs k' p) = map_option status (pcbs k p)"
    by (rule thread_block_sched [OF assms])
  have nr: "running_thread k' \<in> insert (idle_thread k) (set (thread_ready_list k))"
    using k'(3) by (metis list.set_intros(1) insertCI run_order_def set_ConsD list.sel(1))
  have cur: "running_thread k \<notin> set (thread_ready_list k)"
    using assms(1) by (auto simp: sched_ok_def sched_inv_def)
  have "asleep k' p" if "p \<noteq> idle_thread k" "asleep k p" for p
  proof -
    have "p \<notin> set (run_order k)" by (rule asleep_not_running [OF assms(1) that(2)])
    then have "p \<noteq> running_thread k'" "p \<noteq> running_thread k"
      using nr that(1) by (auto simp: run_order_def)
    then show ?thesis using k'(8) that by (simp add: asleep_def)
  qed
  moreover have "asleep k' (running_thread k)" if "stat = TASK_BLOCKED" "running_thread k \<noteq> idle_thread k"
  proof -
    have "running_thread k' \<noteq> running_thread k" using nr cur that(2) by auto
    then show ?thesis using k'(7) that(1) by (simp add: asleep_def)
  qed
  moreover have "set (run_order k') \<supseteq> set (thread_ready_list k)"
    "set (run_order k') \<subseteq> insert (idle_thread k) (set (thread_ready_list k))"
    using k'(3) by auto
  moreover have "intr_get_status (eflags k') = INTR_OFF" using k'(4) by simp
  ultimately show thesis using k'(1,2,5) by (intro that) auto
qed

lemma wake_frame:
  assumes "sched_ok k" and "pcbs k q = Some t" and "wait_status (status t)"
  obtains k' where "thread_unblock q k = Inr k'" and "sched_ok k'"
    and "running_thread k' = running_thread k" and "set (run_order k') = insert q (set (run_order k))"
    and "\<forall>p. p \<noteq> q \<longrightarrow> asleep k p \<longrightarrow> asleep k' p"
    and "idle_thread k' = idle_thread k" and "eflags k' = eflags k"
proof -
  obtain k' where "thread_unblock q k = Inr k'" "sched_ok k'" "running_thread k' = running_thread k"
    "thread_ready_list k' = q # thread_ready_list k" "same_globals k k'"
    "\<forall>p. p \<noteq> q \<longrightarrow> pcbs k' p = pcbs k p"
    using thread_unblock_sched [OF assms] by blast
  then show thesis by (intro that [of k']) (auto simp: run_order_def same_globals_def asleep_def)
qed

subsection \<open>Every step keeps the invariant and does not panic\<close>

lemma waiters_inv_local:
  assumes "waiters_inv g" and "\<not> in_loop (lk_pc g p)" and "\<not> in_loop c"
    and "waiters (sema l) = waiters (sema (lk_lock g))"
  shows "waiters_inv (g\<lparr>lk_lock := l, lk_pc := (lk_pc g)(p := c)\<rparr>)"
    and "waiters_inv (g\<lparr>lk_lock := l\<rparr>)" and "waiters_inv (g\<lparr>lk_pc := (lk_pc g)(p := c)\<rparr>)"
  using assms by (auto simp: waiters_inv_def Let_def)

lemma owner_inv_cs:
  assumes "owner_inv g" and "in_cs (lk_pc g p)"
  shows "sem_value (sema (lk_lock g)) = 0" and "owner_ok (lk_lock g) p (lk_pc g p)"
    and "\<forall>q. in_cs (lk_pc g q) \<longrightarrow> q = p"
  using assms by (auto simp: owner_inv_def owner_held_def lock_free_def Let_def)

text \<open>The owner moves on inside the critical section.\<close>

lemma owner_moves:
  assumes "owner_inv g" and "in_cs (lk_pc g p)" and "in_cs c" and "owner_ok l p c"
    and "sema l = sema (lk_lock g)"
  shows "owner_inv (g\<lparr>lk_lock := l, lk_pc := (lk_pc g)(p := c)\<rparr>)"
  using owner_inv_cs [OF assms(1,2)] assms(3-5) by (auto simp: owner_inv_def owner_held_def lock_free_def Let_def)

lemma running_nonzero: "waiters_inv g \<Longrightarrow> running_thread (lk_k g) \<noteq> 0"
  by (auto simp: waiters_inv_def Let_def sched_ok_def sched_inv_def thread_ok_def)

text \<open>A thread that is outside is not the holder.\<close>

lemma outside_not_holder:
  assumes "lock_inv g" and "\<not> in_cs (lk_pc g p)" and "p \<noteq> 0"
  shows "holder (lk_lock g) \<noteq> p"
proof -
  have "owner_inv g" using assms(1) by (simp add: lock_inv_def)
  then show ?thesis
  proof (cases "sem_value (sema (lk_lock g)) = 0")
    case True
    then obtain q where "in_cs (lk_pc g q)" "owner_ok (lk_lock g) q (lk_pc g q)"
      using \<open>owner_inv g\<close> by (auto simp: owner_inv_def owner_held_def lock_free_def Let_def)
    with assms(2,3) show ?thesis by (auto simp: pc_simps split: lock_pc.splits)
  next
    case False
    then show ?thesis using \<open>owner_inv g\<close> assms(3) by (auto simp: owner_inv_def owner_held_def lock_free_def Let_def)
  qed
qed

text \<open>A thread outside the critical section moves, and stays at the loop if it was there.\<close>

lemma owner_inv_outside:
  assumes "owner_inv g" and "\<not> in_cs (lk_pc g p)" and "\<not> in_cs c"
    and "in_loop (lk_pc g p) \<longrightarrow> in_loop c" and "set (run_order k) = set (run_order (lk_k g))"
  shows "owner_inv (g\<lparr>lk_k := k, lk_pc := (lk_pc g)(p := c)\<rparr>)"
proof -
  let ?pc = "(lk_pc g)(p := c)" and ?l = "lk_lock g"
  have "owner_held ?l ?pc" if held: "owner_held ?l (lk_pc g)"
  proof -
    obtain q where q: "in_cs (lk_pc g q)" "owner_ok ?l q (lk_pc g q)" "\<forall>r. in_cs (lk_pc g r) \<longrightarrow> r = q"
      using held unfolding owner_held_def by blast
    have ne: "q \<noteq> p" using assms(2) q(1) by blast
    then have same: "?pc q = lk_pc g q" by simp
    have "r = q" if "in_cs (?pc r)" for r
      using q(3) that assms(3) by (cases "r = p") simp_all
    then show ?thesis using q(1,2) same unfolding owner_held_def by metis
  qed
  moreover have "lock_free ?l ?pc (set (run_order k))" if free: "lock_free ?l (lk_pc g) (set (run_order (lk_k g)))"
  proof -
    have "\<exists>r\<in>set (run_order k). in_loop (?pc r)" if "waiters (sema ?l) \<noteq> []"
    proof -
      obtain r where "r \<in> set (run_order (lk_k g))" "in_loop (lk_pc g r)"
        using free \<open>waiters (sema ?l) \<noteq> []\<close> by (auto simp: lock_free_def)
      then show ?thesis using assms(4,5) by (intro bexI [of _ r]) auto
    qed
    then show ?thesis using free assms(3) by (simp add: lock_free_def)
  qed
  ultimately show ?thesis using assms(1) by (auto simp: owner_inv_def Let_def)
qed

lemma go_outside:
  assumes "lock_inv g" and "lk_pc g (running_thread (lk_k g)) = L_Out"
  shows "\<exists>g'. lock_go g = Inr g' \<and> lock_inv g'"
proof -
  let ?p = "running_thread (lk_k g)"
  have w: "waiters_inv g" and o: "owner_inv g" using assms(1) by (auto simp: lock_inv_def)
  have "holder (lk_lock g) \<noteq> ?p"
    using outside_not_holder [OF assms(1)] running_nonzero [OF w] assms(2) by (simp add: in_cs_def)
  then have run: "lock_go g = Inr (g\<lparr>lk_pc := (lk_pc g)(?p := L_Acq)\<rparr>)"
    using assms(2) by (simp add: lock_go_def Let_def)
  have "waiters_inv (g\<lparr>lk_pc := (lk_pc g)(?p := L_Acq)\<rparr>)"
    using w assms(2) by (intro waiters_inv_local(3)) (simp_all add: in_loop_def)
  moreover have "owner_inv (g\<lparr>lk_pc := (lk_pc g)(?p := L_Acq)\<rparr>)"
    using owner_inv_outside [OF o, of ?p L_Acq "lk_k g"] assms(2) by (simp add: in_cs_def in_loop_def)
  ultimately show ?thesis using run by (simp add: lock_inv_def)
qed

lemma go_disable:
  assumes "lock_inv g" and "lk_pc g (running_thread (lk_k g)) = L_Acq"
    and "running_thread (lk_k g) \<noteq> idle_thread (lk_k g)"
  shows "\<exists>g'. lock_go g = Inr g' \<and> lock_inv g'"
proof -
  let ?k = "lk_k g"
  let ?p = "running_thread ?k"
  let ?g = "g\<lparr>lk_k := ?k\<lparr>eflags := snd (intr_disable (eflags ?k))\<rparr>,
    lk_pc := (lk_pc g)(?p := L_Down (fst (intr_disable (eflags ?k))))\<rparr>"
  have w: "waiters_inv g" and o: "owner_inv g" using assms(1) by (auto simp: lock_inv_def)
  have run: "lock_go g = Inr ?g" using assms(2) by (simp add: lock_go_def Let_def split_beta)
  have "waiters_inv ?g"
    using w assms(3) by (auto simp: waiters_inv_def Let_def in_loop_def run_order_def)
  moreover have "owner_inv ?g"
    using owner_inv_outside [OF o, of ?p "L_Down (fst (intr_disable (eflags ?k)))"] assms(2)
    by (simp add: in_cs_def in_loop_def)
  ultimately show ?thesis using run by (simp add: lock_inv_def)
qed

lemma go_take:
  assumes "lock_inv g" and "lk_pc g (running_thread (lk_k g)) = L_Down old"
    and "sem_value (sema (lk_lock g)) \<noteq> 0"
  shows "\<exists>g'. lock_go g = Inr g' \<and> lock_inv g'"
proof -
  let ?k = "lk_k g" and ?l = "lk_lock g"
  let ?p = "running_thread ?k"
  have w: "waiters_inv g" and o: "owner_inv g" using assms(1) by (auto simp: lock_inv_def)
  have v: "sem_value (sema ?l) = 1" "holder ?l = 0" "holder_repeat_nr ?l = 0" "\<forall>q. \<not> in_cs (lk_pc g q)"
    using o assms(3) by (auto simp: owner_inv_def owner_held_def lock_free_def Let_def)
  let ?g = "g\<lparr>lk_k := ?k\<lparr>eflags := snd (intr_set_status old (eflags ?k))\<rparr>,
    lk_lock := ?l\<lparr>sema := (sema ?l)\<lparr>sem_value := 0\<rparr>\<rparr>, lk_pc := (lk_pc g)(?p := L_SetHolder)\<rparr>"
  have run: "lock_go g = Inr ?g"
    using assms(2) v(1) by (simp add: lock_go_def sema_down_pass_def Let_def)
  have "?p \<notin> set (waiters (sema ?l))"
    using w asleep_not_running(2) by (auto simp: waiters_inv_def Let_def)
  then have "waiters_inv ?g"
    using w assms(2) by (auto simp: waiters_inv_def Let_def in_loop_def)
  moreover have "owner_inv ?g"
    using v by (auto simp: owner_inv_def owner_held_def lock_free_def Let_def in_cs_def owner_ok_def)
  ultimately show ?thesis using run by (simp add: lock_inv_def)
qed

lemma go_wait:
  assumes "lock_inv g" and "lk_pc g (running_thread (lk_k g)) = L_Down old"
    and "running_thread (lk_k g) \<noteq> idle_thread (lk_k g)" and "sem_value (sema (lk_lock g)) = 0"
  shows "\<exists>g'. lock_go g = Inr g' \<and> lock_inv g'"
proof -
  let ?k = "lk_k g" and ?l = "lk_lock g"
  let ?p = "running_thread ?k" and ?w = "waiters (sema (lk_lock g))"
  have w: "waiters_inv g" and o: "owner_inv g" using assms(1) by (auto simp: lock_inv_def)
  have ok: "sched_ok ?k" using w by (simp add: waiters_inv_def Let_def)
  have np: "?p \<notin> set ?w" using w asleep_not_running(2) by (auto simp: waiters_inv_def Let_def)
  have nid: "idle_thread ?k \<notin> set ?w" using w by (auto simp: waiters_inv_def Let_def)
  obtain ol k' where k': "thread_block TASK_BLOCKED ?k = Inr (ol, k')" "sched_ok k'"
    "set (run_order k') \<supseteq> set (thread_ready_list ?k)"
    "set (run_order k') \<subseteq> insert (idle_thread ?k) (set (thread_ready_list ?k))"
    "\<forall>p. p \<noteq> idle_thread ?k \<longrightarrow> asleep ?k p \<longrightarrow> asleep k' p"
    "TASK_BLOCKED = TASK_BLOCKED \<longrightarrow> ?p \<noteq> idle_thread ?k \<longrightarrow> asleep k' ?p"
    "idle_thread k' = idle_thread ?k" "intr_get_status (eflags k') = INTR_OFF"
    by (rule sleep_frame [OF ok, of TASK_BLOCKED]) (simp add: wait_status_def)
  let ?g = "g\<lparr>lk_k := k', lk_lock := ?l\<lparr>sema := (sema ?l)\<lparr>waiters := ?w @ [?p]\<rparr>\<rparr>\<rparr>"
  have run: "lock_go g = Inr ?g"
    using assms(2,4) np k'(1) by (simp add: lock_go_def sema_down_pass_def Let_def)
  have "asleep k' p" if "p \<in> set ?w" for p
  proof -
    have "asleep ?k p" using w that by (simp add: waiters_inv_def Let_def)
    moreover have "p \<noteq> idle_thread ?k" using that nid by auto
    ultimately show ?thesis using k'(5) by blast
  qed
  moreover have "p \<in> insert ?p (set ?w) \<or> p \<in> set (run_order k')" if "in_loop (lk_pc g p)" for p
    using w that k'(3) by (auto simp: waiters_inv_def Let_def run_order_def)
  ultimately have "waiters_inv ?g"
    using w np k' assms(2,3) by (auto simp: waiters_inv_def Let_def in_loop_def)
  moreover have "owner_inv ?g" using o assms(4) by (auto simp: owner_inv_def owner_held_def lock_free_def Let_def owner_ok_def split: lock_pc.splits)
  ultimately show ?thesis using run by (simp add: lock_inv_def)
qed

text \<open>The steps of the owner up to \<^verbatim>\<open>sema_up\<close>.\<close>

lemma go_owner:
  assumes "lock_inv g" and "in_cs (lk_pc g (running_thread (lk_k g)))"
    and "lk_pc g (running_thread (lk_k g)) \<noteq> L_Up"
  shows "\<exists>g'. lock_go g = Inr g' \<and> lock_inv g'"
proof -
  let ?p = "running_thread (lk_k g)" and ?l = "lk_lock g"
  have w: "waiters_inv g" and o: "owner_inv g" using assms(1) by (auto simp: lock_inv_def)
  have nl: "\<not> in_loop (lk_pc g ?p)" using assms(2) by (auto simp: pc_simps split: lock_pc.splits)
  have ok: "owner_ok ?l ?p (lk_pc g ?p)" by (rule owner_inv_cs [OF o assms(2)])
  have moved: "lock_inv (g\<lparr>lk_lock := l, lk_pc := (lk_pc g)(?p := c)\<rparr>)"
    if "in_cs c" "owner_ok l ?p c" "sema l = sema ?l" for l c
  proof -
    have "\<not> in_loop c" using that(1) by (auto simp: pc_simps split: lock_pc.splits)
    then show ?thesis
      using waiters_inv_local(1) [OF w nl] owner_moves [OF o assms(2) that] that(3) by (simp add: lock_inv_def)
  qed
  show ?thesis
  proof (cases "lk_pc g ?p")
    case L_SetHolder
    then show ?thesis using moved [of L_SetRep "?l\<lparr>holder := ?p\<rparr>"] ok
      by (simp add: lock_go_def Let_def pc_simps)
  next
    case L_SetRep
    then show ?thesis using moved [of L_Held "?l\<lparr>holder_repeat_nr := 1\<rparr>"] ok
      by (simp add: lock_go_def Let_def pc_simps)
  next
    case L_RelHolder
    then show ?thesis using moved [of L_Up "?l\<lparr>holder := 0\<rparr>"] ok
      by (simp add: lock_go_def Let_def pc_simps)
  next
    case L_Held
    show ?thesis
    proof (cases "holder_repeat_nr ?l > 1")
      case True
      then have "holder_repeat_nr ?l - 1 \<noteq> 0" by (metis eq_iff_diff_eq_0 order.irrefl)
      moreover have "(lk_pc g)(?p := L_Held) = lk_pc g" using L_Held by auto
      ultimately show ?thesis
        using moved [of L_Held "?l\<lparr>holder_repeat_nr := holder_repeat_nr ?l - 1\<rparr>"] ok L_Held True
        by (simp add: lock_go_def Let_def pc_simps)
    next
      case False
      have "holder_repeat_nr ?l = 1"
      proof -
        have "holder_repeat_nr ?l \<noteq> 0" using ok L_Held by (simp add: owner_ok_def)
        then have "0 < unat (holder_repeat_nr ?l)" by (simp add: unat_gt_0)
        moreover have "unat (holder_repeat_nr ?l) \<le> 1" using False by (simp add: word_less_nat_alt)
        ultimately have "unat (holder_repeat_nr ?l) = unat (1 :: u32)" by simp
        then show ?thesis by (rule unsigned_word_eqI)
      qed
      then show ?thesis
        using moved [of L_RelHolder "?l\<lparr>holder_repeat_nr := 0\<rparr>"] ok L_Held False
        by (simp add: lock_go_def Let_def pc_simps)
    qed
  qed (use assms(2,3) in \<open>auto simp: in_cs_def\<close>)
qed

lemma go_up:
  assumes "lock_inv g" and "lk_pc g (running_thread (lk_k g)) = L_Up"
  shows "\<exists>g'. lock_go g = Inr g' \<and> lock_inv g'"
proof -
  let ?k = "lk_k g" and ?l = "lk_lock g"
  let ?p = "running_thread ?k" and ?w = "waiters (sema (lk_lock g))"
  have w: "waiters_inv g" and o: "owner_inv g" using assms(1) by (auto simp: lock_inv_def)
  have cs: "in_cs (lk_pc g ?p)" using assms(2) by (simp add: in_cs_def)
  have v: "sem_value (sema ?l) = 0" and l: "holder ?l = 0" "holder_repeat_nr ?l = 0"
    and un: "\<forall>q. in_cs (lk_pc g q) \<longrightarrow> q = ?p"
    using owner_inv_cs [OF o cs] assms(2) by (auto simp: owner_ok_def)
  have ok: "sched_ok ?k" using w by (simp add: waiters_inv_def Let_def)
  let ?off = "?k\<lparr>eflags := snd (intr_disable (eflags ?k))\<rparr>"
  have bk: "snd (intr_set_status (fst (intr_disable (eflags ?k))) (snd (intr_disable (eflags ?k)))) = eflags ?k"
    using intr_bracket by blast
  let ?g = "\<lambda>k' w'. g\<lparr>lk_k := k'\<lparr>eflags := eflags ?k\<rparr>,
    lk_lock := ?l\<lparr>sema := \<lparr>sem_value = 1, waiters = w'\<rparr>\<rparr>, lk_pc := (lk_pc g)(?p := L_Out)\<rparr>"
  have sem: "sema ?l = \<lparr>sem_value = 0, waiters = ?w\<rparr>" using v by simp
  show ?thesis
  proof (cases ?w)
    case Nil
    have "lock_go g = Inr (?g ?off [])"
      using assms(2) v Nil bk by (simp add: lock_go_def sema_up_def Let_def split_beta)
    moreover have "waiters_inv (?g ?off [])"
      using w assms(2) Nil by (auto simp: waiters_inv_def Let_def in_loop_def)
    moreover have "owner_inv (?g ?off [])" using l un by (auto simp: owner_inv_def owner_held_def lock_free_def Let_def in_cs_def)
    ultimately show ?thesis by (auto simp: lock_inv_def)
  next
    case (Cons q ws)
    have q: "in_loop (lk_pc g q)" "asleep ?k q" "q \<notin> set ws" "distinct ws"
      using w Cons by (auto simp: waiters_inv_def Let_def)
    then obtain t where t: "pcbs ?off q = Some t" "wait_status (status t)"
      by (auto simp: asleep_def wait_status_def)
    have qp: "q \<noteq> ?p" using q(1) assms(2) by (auto simp: in_loop_def)
    have "sched_ok ?off" using ok by simp
    then obtain k' where k': "thread_unblock q ?off = Inr k'" "sched_ok k'"
      "running_thread k' = running_thread ?off" "set (run_order k') = insert q (set (run_order ?off))"
      "\<forall>p. p \<noteq> q \<longrightarrow> asleep ?off p \<longrightarrow> asleep k' p" "idle_thread k' = idle_thread ?off"
      "eflags k' = eflags ?off"
      by (rule wake_frame [OF _ t])
    have "lock_go g = Inr (?g k' ws)"
      using assms(2) v Cons k'(1,7) bk
      by (simp add: lock_go_def sema_up_def Let_def split_beta)
    moreover have "waiters_inv (?g k' ws)"
      using w Cons q k' assms(2) qp by (auto simp: waiters_inv_def Let_def in_loop_def)
    moreover have "owner_inv (?g k' ws)"
      using l un q(1) qp k'(4) by (auto simp: owner_inv_def owner_held_def lock_free_def Let_def in_cs_def)
    ultimately show ?thesis by (auto simp: lock_inv_def)
  qed
qed

lemma go_ok:
  assumes "lock_inv g" and "running_thread (lk_k g) \<noteq> idle_thread (lk_k g)"
  shows "\<exists>g'. lock_go g = Inr g' \<and> lock_inv g'"
proof (cases "lk_pc g (running_thread (lk_k g))")
  case L_Out
  then show ?thesis by (rule go_outside [OF assms(1)])
next
  case L_Acq
  then show ?thesis using go_disable [OF assms(1)] assms(2) by blast
next
  case (L_Down old)
  then show ?thesis
    using go_take [OF assms(1)] go_wait [OF assms(1) _ assms(2)] by blast
next
  case L_Up
  then show ?thesis by (rule go_up [OF assms(1)])
qed (use go_owner [OF assms(1)] in \<open>simp_all add: in_cs_def\<close>)

text \<open>The kernel changes, the lock and the places do not: the sleeping waiters still sleep, and no
  runnable thread at the loop stops being runnable.\<close>

lemma lock_inv_kernel:
  assumes i: "lock_inv g" and ok: "sched_ok k"
    and sl: "\<forall>p. in_loop (lk_pc g p) \<longrightarrow> asleep (lk_k g) p \<longrightarrow> asleep k p"
    and rn: "\<forall>p. in_loop (lk_pc g p) \<longrightarrow> p \<in> set (run_order (lk_k g)) \<longrightarrow> p \<in> set (run_order k)"
    and id: "idle_thread k = idle_thread (lk_k g)"
    and fl: "in_loop (lk_pc g (running_thread k)) \<longrightarrow> intr_get_status (eflags k) = INTR_OFF"
  shows "lock_inv (g\<lparr>lk_k := k\<rparr>)"
proof -
  have "waiters_inv (g\<lparr>lk_k := k\<rparr>)"
    using i ok sl rn id fl by (simp add: lock_inv_def waiters_inv_def Let_def) blast
  moreover have "lock_free l (lk_pc g) (set (run_order k))"
    if "lock_free l (lk_pc g) (set (run_order (lk_k g)))" for l
    using that rn unfolding lock_free_def by blast
  then have "owner_inv (g\<lparr>lk_k := k\<rparr>)"
    using i by (auto simp: lock_inv_def owner_inv_def Let_def)
  ultimately show ?thesis by (simp add: lock_inv_def)
qed

lemma again_ok:
  assumes "lock_inv g" and "lk_pc g (running_thread (lk_k g)) = L_Held"
    and "holder_repeat_nr (lk_lock g) \<noteq> -1"
  shows "lock_inv (g\<lparr>lk_lock := (lk_lock g)\<lparr>holder_repeat_nr := holder_repeat_nr (lk_lock g) + 1\<rparr>\<rparr>)"
proof -
  let ?p = "running_thread (lk_k g)"
  let ?l = "(lk_lock g)\<lparr>holder_repeat_nr := holder_repeat_nr (lk_lock g) + 1\<rparr>"
  have w: "waiters_inv g" and o: "owner_inv g" using assms(1) by (auto simp: lock_inv_def)
  have cs: "in_cs (lk_pc g ?p)" using assms(2) by (simp add: in_cs_def)
  have "holder_repeat_nr (lk_lock g) + 1 \<noteq> 0" using assms(3) by (metis add_eq_0_iff2)
  then have "owner_ok ?l ?p L_Held"
    using owner_inv_cs(2) [OF o cs] assms(2) by (simp add: owner_ok_def)
  moreover have "(lk_pc g)(?p := L_Held) = lk_pc g" using assms(2) by auto
  ultimately show ?thesis
    using owner_moves [OF o cs, of L_Held ?l] waiters_inv_local(2) [OF w, of ?p L_Held ?l] assms(2)
    by (simp add: lock_inv_def pc_simps)
qed

lemma lock_step_ok:
  assumes i: "lock_inv g" and e: "enabled mv g"
  shows "\<exists>g'. lock_step mv g = Inr g' \<and> lock_inv g'"
proof -
  let ?k = "lk_k g"
  have ok: "sched_ok ?k" and nid: "\<not> in_loop (lk_pc g (idle_thread ?k))"
    using i by (auto simp: lock_inv_def waiters_inv_def Let_def)
  show ?thesis
  proof (cases mv)
    case Go
    then show ?thesis using go_ok [OF i] e by (simp add: lock_step_def enabled_def Let_def)
  next
    case Again
    then show ?thesis using again_ok [OF i] e by (simp add: lock_step_def enabled_def Let_def)
  next
    case (Flags fl)
    then have "\<not> in_loop (lk_pc g (running_thread ?k))" using e by (simp add: enabled_def Let_def)
    then show ?thesis
      using lock_inv_kernel [OF i, of "?k\<lparr>eflags := fl\<rparr>"] ok Flags by (simp add: lock_step_def)
  next
    case Preempt
    obtain k' where k': "schedule (?k\<lparr>eflags := cli (eflags ?k)\<rparr>) = Inr k'" "sched_ok k'"
      "set (run_order k') = set (run_order ?k)" "\<forall>p. asleep ?k p \<longrightarrow> asleep k' p"
      "idle_thread k' = idle_thread ?k" "intr_get_status (eflags k') = INTR_OFF"
      by (rule preempt_frame [OF ok])
    then show ?thesis
      using lock_inv_kernel [OF i, of k'] Preempt by (simp add: lock_step_def)
  next
    case (Sleep stat)
    then have st: "wait_status stat" and nl: "\<not> in_loop (lk_pc g (running_thread ?k))"
      using e by (simp_all add: enabled_def Let_def)
    obtain old k' where k': "thread_block stat ?k = Inr (old, k')" "sched_ok k'"
      "set (run_order k') \<supseteq> set (thread_ready_list ?k)"
      "set (run_order k') \<subseteq> insert (idle_thread ?k) (set (thread_ready_list ?k))"
      "\<forall>p. p \<noteq> idle_thread ?k \<longrightarrow> asleep ?k p \<longrightarrow> asleep k' p"
      "stat = TASK_BLOCKED \<longrightarrow> running_thread ?k \<noteq> idle_thread ?k \<longrightarrow> asleep k' (running_thread ?k)"
      "idle_thread k' = idle_thread ?k" "intr_get_status (eflags k') = INTR_OFF"
      by (rule sleep_frame [OF ok st])
    have "p \<in> set (run_order k')" if "in_loop (lk_pc g p)" "p \<in> set (run_order ?k)" for p
      using that nl k'(3) by (auto simp: run_order_def)
    moreover have "asleep k' p" if "in_loop (lk_pc g p)" "asleep ?k p" for p
      using that nid k'(5) by metis
    ultimately show ?thesis
      using lock_inv_kernel [OF i, of k'] k' Sleep by (simp add: lock_step_def)
  next
    case (Wake q)
    then obtain t where q: "pcbs ?k q = Some t" "wait_status (status t)"
      and nl: "\<not> in_loop (lk_pc g (running_thread ?k))" "\<not> in_loop (lk_pc g q)"
      using e by (auto simp: enabled_def Let_def split: option.splits)
    obtain k' where k': "thread_unblock q ?k = Inr k'" "sched_ok k'"
      "running_thread k' = running_thread ?k" "set (run_order k') = insert q (set (run_order ?k))"
      "\<forall>p. p \<noteq> q \<longrightarrow> asleep ?k p \<longrightarrow> asleep k' p" "idle_thread k' = idle_thread ?k" "eflags k' = eflags ?k"
      by (rule wake_frame [OF ok q])
    have "asleep k' p" if "in_loop (lk_pc g p)" "asleep ?k p" for p
      using that nl(2) k'(5) by metis
    then show ?thesis
      using lock_inv_kernel [OF i, of k'] k' nl Wake by (simp add: lock_step_def)
  qed
qed

lemma lock_reach_inv: "lock_reach g \<Longrightarrow> lock_inv g"
proof (induction rule: lock_reach.induct)
  case (lr_init k)
  then show ?case
    by (simp add: lock_inv_def waiters_inv_def owner_inv_def lock_free_def lock_init_def sema_init_def
        Let_def pc_simps)
next
  case (lr_step g mv g')
  then show ?case using lock_step_ok [of g mv] by auto
qed

text \<open>Sequences of moves, for running examples.\<close>

primrec lock_run :: "lock_move list \<Rightarrow> lock_sys \<Rightarrow> lock_sys option" where
  "lock_run [] g = Some g"
| "lock_run (mv # mvs) g =
     (if enabled mv g then case lock_step mv g of Inl e \<Rightarrow> None | Inr g' \<Rightarrow> lock_run mvs g' else None)"

lemma lock_run_reach: "lock_reach g \<Longrightarrow> lock_run mvs g = Some g' \<Longrightarrow> lock_reach g'"
proof (induction mvs arbitrary: g)
  case (Cons mv mvs)
  then show ?case by (auto split: if_splits sum.splits intro: lr_step)
qed simp

text \<open>The first thread acquires the lock; the timer switches to the second one, which has to wait.\<close>

definition contention :: "lock_sys option" where
  "contention = lock_run [Go, Go, Go, Go, Go, Flags 0x202, Preempt, Flags 0x202, Go, Go, Go]
     \<lparr>lk_k = small_kernel, lk_lock = lock_init, lk_pc = (\<lambda>_. L_Out)\<rparr>"

lemma contention_runs:
  "map_option (\<lambda>g. (waiters (sema (lk_lock g)), holder (lk_lock g), lk_pc g 0x9f000, lk_pc g 0x8000,
     running_thread (lk_k g))) contention
   = Some ([0x8000], 0x9f000, L_Held, L_Down INTR_ON, 0x9f000)"
  by code_simp

subsection \<open>What a lock promises\<close>

text \<open>
  C3. Mutual exclusion: in every state that any interleaving of any number of threads can reach, at
  most one thread is between a taken semaphore and its \<^verbatim>\<open>sema_up\<close>; a thread inside is the recorded
  holder, with a positive repeat count.
\<close>

theorem lock_mutual_exclusion:
  assumes "lock_reach g" and "in_cs (lk_pc g p)" and "in_cs (lk_pc g q)"
  shows "p = q \<and> (lk_pc g p = L_Held \<longrightarrow> holder (lk_lock g) = p \<and> holder_repeat_nr (lk_lock g) \<noteq> 0)"
proof -
  have o: "owner_inv g" using lock_reach_inv [OF assms(1)] by (simp add: lock_inv_def)
  have "p = q" using owner_inv_cs(3) [OF o assms(2)] assms(3) by blast
  moreover have "lk_pc g p = L_Held \<longrightarrow> holder (lk_lock g) = p \<and> holder_repeat_nr (lk_lock g) \<noteq> 0"
    using owner_inv_cs(2) [OF o assms(2)] by (simp add: owner_ok_def split: lock_pc.splits)
  ultimately show ?thesis by blast
qed

lemma contention_reach: "lock_reach (the contention)"
proof -
  have "contention \<noteq> None" using contention_runs by auto
  then obtain g where g: "contention = Some g" by blast
  have "lock_reach g"
    by (rule lock_run_reach [OF lr_init [OF small_kernel_ok(1)] g [unfolded contention_def]])
  then show ?thesis unfolding g option.sel .
qed

theorem lock_mutual_exclusion_witness:
  "{q. in_cs (lk_pc (the contention) q)} = {0x9f000}"
proof -
  have h: "in_cs (lk_pc (the contention) 0x9f000)" by code_simp
  show ?thesis using lock_mutual_exclusion [OF contention_reach _ h] h by blast
qed

text \<open>
  C4. No interleaving makes the lock code panic or fault: whatever can happen next in a reachable
  state succeeds; none of the assertions of \<^verbatim>\<open>sema_down\<close>, \<^verbatim>\<open>sema_up\<close>, \<^verbatim>\<open>lock_acquire\<close>,
  \<^verbatim>\<open>lock_release\<close>, \<^verbatim>\<open>thread_block\<close>, \<^verbatim>\<open>thread_unblock\<close> and \<^verbatim>\<open>schedule\<close> fires.
\<close>

theorem lock_never_panics:
  assumes "lock_reach g" and "enabled mv g"
  shows "\<exists>g'. lock_step mv g = Inr g' \<and> lock_reach g' \<and> sched_ok (lk_k g')"
proof -
  obtain g' where "lock_step mv g = Inr g'" "lock_inv g'"
    using lock_step_ok [OF lock_reach_inv [OF assms(1)] assms(2)] by blast
  then show ?thesis using lr_step [OF assms] by (auto simp: lock_inv_def waiters_inv_def Let_def)
qed

theorem lock_never_panics_witness:
  "\<exists>g'. lock_step Go (the contention) = Inr g' \<and> lock_reach g'"
proof -
  have "enabled Go (the contention)" by code_simp
  then show ?thesis using lock_never_panics [OF contention_reach] by blast
qed

text \<open>
  C5. No wake-up is lost: while threads wait for the lock, either some thread is in the critical
  section and will wake the first of them, or a thread that will try again is running or ready.
  Every thread at the loop either waits, asleep, or can run.
\<close>

theorem lock_no_lost_wakeup:
  assumes "lock_reach g" and "waiters (sema (lk_lock g)) \<noteq> []"
  shows "((\<exists>p. in_cs (lk_pc g p)) \<or> (\<exists>p\<in>set (run_order (lk_k g)). in_loop (lk_pc g p)))
    \<and> (\<forall>p. in_loop (lk_pc g p) \<longrightarrow>
          (p \<in> set (waiters (sema (lk_lock g))) \<longleftrightarrow> asleep (lk_k g) p)
          \<and> (p \<notin> set (waiters (sema (lk_lock g))) \<longrightarrow> p \<in> set (run_order (lk_k g))))"
proof -
  have w: "waiters_inv g" and o: "owner_inv g" using lock_reach_inv [OF assms(1)] by (auto simp: lock_inv_def)
  have "(\<exists>p. in_cs (lk_pc g p)) \<or> (\<exists>p\<in>set (run_order (lk_k g)). in_loop (lk_pc g p))"
    using o assms(2) unfolding owner_inv_def owner_held_def lock_free_def Let_def by blast
  moreover have "p \<in> set (waiters (sema (lk_lock g)))" if "in_loop (lk_pc g p)" "asleep (lk_k g) p" for p
    using w that asleep_not_running(1) [of "lk_k g" p] by (auto simp: waiters_inv_def Let_def)
  ultimately show ?thesis using w by (simp add: waiters_inv_def Let_def) blast
qed

theorem lock_no_lost_wakeup_witness:
  "(\<exists>p. in_cs (lk_pc (the contention) p))
   \<or> (\<exists>p\<in>set (run_order (lk_k (the contention))). in_loop (lk_pc (the contention) p))"
proof -
  have "waiters (sema (lk_lock (the contention))) \<noteq> []" by code_simp
  then show ?thesis using lock_no_lost_wakeup [OF contention_reach] by blast
qed

subsection \<open>One thread alone\<close>

text \<open>When nothing else happens, the steps of one thread make up \<^verbatim>\<open>lock_acquire\<close>.\<close>

lemma lock_acquire_free:
  assumes "holder l = 0" and "sema l = \<lparr>sem_value = 1, waiters = w\<rparr>" and "holder_repeat_nr l = 0"
    and "running_thread s \<noteq> 0"
  shows "lock_acquire l s = Inr (l\<lparr>holder := running_thread s, sema := \<lparr>sem_value = 0, waiters = w\<rparr>,
    holder_repeat_nr := 1\<rparr>, s)"
proof -
  have bk: "snd (intr_set_status (fst (intr_disable (eflags s))) (snd (intr_disable (eflags s)))) = eflags s"
    using intr_bracket by blast
  show ?thesis
    using assms bk by (simp add: lock_acquire_def sema_down_def sema_down_pass_def Let_def split_beta)
qed

lemma lock_release_free:
  assumes "holder l = running_thread s" and "sema l = \<lparr>sem_value = 0, waiters = []\<rparr>"
    and "holder_repeat_nr l = 1"
  shows "lock_release l s = Inr (l\<lparr>holder := 0, sema := \<lparr>sem_value = 1, waiters = []\<rparr>,
    holder_repeat_nr := 0\<rparr>, s)"
proof -
  have bk: "snd (intr_set_status (fst (intr_disable (eflags s))) (snd (intr_disable (eflags s)))) = eflags s"
    using intr_bracket by blast
  show ?thesis using assms bk by (simp add: lock_release_def sema_up_def Let_def split_beta)
qed

text \<open>A free lock around a body that leaves it and the running thread alone.\<close>

definition lock_taken :: "u32 \<Rightarrow> lock" where
  "lock_taken p = \<lparr>holder = p, sema = \<lparr>sem_value = 0, waiters = []\<rparr>, holder_repeat_nr = 1\<rparr>"

lemma lock_acquire_init [simp]:
  "running_thread s \<noteq> 0 \<Longrightarrow> lock_acquire lock_init s = Inr (lock_taken (running_thread s), s)"
  using lock_acquire_free [of lock_init "[]" s]
  by (simp add: lock_init_def sema_init_def lock_taken_def)

lemma lock_release_taken [simp]:
  "running_thread s = p \<Longrightarrow> lock_release (lock_taken p) s = Inr (lock_init, s)"
  using lock_release_free [of "lock_taken p" s]
  by (simp add: lock_init_def sema_init_def lock_taken_def)

lemma lock_nested:
  "running_thread s = p \<Longrightarrow> p \<noteq> 0 \<Longrightarrow>
   bindR (lock_acquire (lock_taken p) s) (\<lambda>(l, s1). lock_release l s1) = Inr (lock_taken p, s)"
  by (simp add: lock_acquire_def lock_release_def lock_taken_def)

subsection \<open>The steps are the functions\<close>

text \<open>Each way through the lock, as the function computes it and as the steps of the running thread do it when nothing
  comes in between.\<close>

lemma intr_back [simp]:
  "snd (intr_set_status (fst (intr_disable e)) (snd (intr_disable e))) = e"
  using intr_bracket by blast

lemmas lock_path_defs = enabled_def lock_step_def lock_go_def sema_down_pass_def Let_def split_beta

lemma steps_take:
  assumes p: "running_thread k = p" "p \<noteq> idle_thread k" "pc p = L_Out" and l: "holder l \<noteq> p" "holder_repeat_nr l = 0"
    and m: "sema l = \<lparr>sem_value = 1, waiters = w\<rparr>"
  shows "lock_acquire l k = Inr (\<lparr>holder = p, sema = \<lparr>sem_value = 0, waiters = w\<rparr>, holder_repeat_nr = 1\<rparr>, k)"
    and "lock_run [Go, Go, Go, Go, Go] \<lparr>lk_k = k, lk_lock = l, lk_pc = pc\<rparr>
      = Some \<lparr>lk_k = k, lk_lock = \<lparr>holder = p, sema = \<lparr>sem_value = 0, waiters = w\<rparr>, holder_repeat_nr = 1\<rparr>, lk_pc = pc(p := L_Held)\<rparr>"
  using assms by (simp_all add: lock_path_defs lock_acquire_def sema_down_def)

lemma steps_again:
  assumes p: "running_thread k = p" "p \<noteq> idle_thread k" "pc p = L_Held" and l: "holder l = p"
    and r: "0 < holder_repeat_nr l" "holder_repeat_nr l \<noteq> -1"
  shows "lock_acquire l k = Inr (l\<lparr>holder_repeat_nr := holder_repeat_nr l + 1\<rparr>, k)"
    and "lock_run [Again] \<lparr>lk_k = k, lk_lock = l, lk_pc = pc\<rparr>
      = Some \<lparr>lk_k = k, lk_lock = l\<lparr>holder_repeat_nr := holder_repeat_nr l + 1\<rparr>, lk_pc = pc\<rparr>"
    and "lock_release (l\<lparr>holder_repeat_nr := holder_repeat_nr l + 1\<rparr>) k = Inr (l, k)"
    and "lock_run [Go] \<lparr>lk_k = k, lk_lock = l\<lparr>holder_repeat_nr := holder_repeat_nr l + 1\<rparr>, lk_pc = pc\<rparr>
      = Some \<lparr>lk_k = k, lk_lock = l, lk_pc = pc\<rparr>"
proof -
  have "unat (- 1 :: u32) = 2 ^ 32 - 1" by (simp add: unsigned_minus_1_eq_mask mask_eq_exp_minus_1)
  then have "unat (holder_repeat_nr l) \<noteq> 2 ^ 32 - 1" using r(2) by (metis word_unat_eq_iff)
  then have "unat (holder_repeat_nr l) + 1 < 2 ^ 32" using unat_u32_lt [of "holder_repeat_nr l"] by simp
  then have "unat (holder_repeat_nr l + 1) = unat (holder_repeat_nr l) + 1" by (subst unat_add_small) auto
  then have g: "1 < holder_repeat_nr l + 1" using r(1) by (simp add: word_less_nat_alt)
  show "lock_acquire l k = Inr (l\<lparr>holder_repeat_nr := holder_repeat_nr l + 1\<rparr>, k)"
    "lock_run [Again] \<lparr>lk_k = k, lk_lock = l, lk_pc = pc\<rparr>
      = Some \<lparr>lk_k = k, lk_lock = l\<lparr>holder_repeat_nr := holder_repeat_nr l + 1\<rparr>, lk_pc = pc\<rparr>"
    using p l r by (simp_all add: lock_path_defs lock_acquire_def)
  show "lock_release (l\<lparr>holder_repeat_nr := holder_repeat_nr l + 1\<rparr>) k = Inr (l, k)"
    "lock_run [Go] \<lparr>lk_k = k, lk_lock = l\<lparr>holder_repeat_nr := holder_repeat_nr l + 1\<rparr>, lk_pc = pc\<rparr>
      = Some \<lparr>lk_k = k, lk_lock = l, lk_pc = pc\<rparr>"
    using p l g by (simp_all add: lock_path_defs lock_release_def)
qed

lemma steps_wait:
  assumes ok: "sched_ok k" and p: "running_thread k = p" "p \<noteq> idle_thread k" "pc p = L_Out" and l: "holder l \<noteq> p"
    and m: "sema l = \<lparr>sem_value = 0, waiters = w\<rparr>" "p \<notin> set w"
  shows "lock_acquire l k = Inl Would_Block"
    and "\<exists>k1. lock_run [Go, Go, Go] \<lparr>lk_k = k, lk_lock = l, lk_pc = pc\<rparr>
      = Some \<lparr>lk_k = k1, lk_lock = l\<lparr>sema := \<lparr>sem_value = 0, waiters = w @ [p]\<rparr>\<rparr>, lk_pc = pc(p := L_Down (fst (intr_disable (eflags k))))\<rparr>
      \<and> asleep k1 p \<and> running_thread k1 = (if thread_ready_list k = [] then idle_thread k else hd (thread_ready_list k))
      \<and> intr_get_status (eflags k1) = INTR_OFF"
proof -
  let ?k = "k\<lparr>eflags := snd (intr_disable (eflags k))\<rparr>"
  have ok': "sched_ok ?k" using ok by simp
  obtain k1 where k1: "thread_block TASK_BLOCKED ?k = Inr (fst (intr_disable (eflags ?k)), k1)" "sched_ok k1"
    "run_order k1 = (if thread_ready_list ?k = [] then [idle_thread ?k] else thread_ready_list ?k)"
    "eflags k1 = snd (intr_disable (eflags ?k))" "idle_thread k1 = idle_thread ?k" "dom (pcbs k1) = dom (pcbs ?k)"
    "running_thread k1 \<noteq> running_thread ?k \<longrightarrow> map_option status (pcbs k1 (running_thread ?k)) = Some TASK_BLOCKED"
    by (rule thread_block_sched [OF ok', of TASK_BLOCKED]) (simp add: wait_status_def, blast)
  have r: "running_thread ?k = p" using p(1) by (simp add: running_thread_def)
  have hd: "running_thread k1 = (if thread_ready_list k = [] then idle_thread k else hd (thread_ready_list k))"
    using k1(3) by (auto simp: run_order_def split: if_splits) (metis list.sel(1))
  have "p \<notin> set (thread_ready_list k)" using ok p(1) by (auto simp: sched_ok_def sched_inv_def)
  then have ne: "running_thread k1 \<noteq> p" using hd p(2) by (cases "thread_ready_list k") auto
  then have sl: "asleep k1 p" using k1(7) r by (simp add: asleep_def)
  have off: "intr_get_status (eflags k1) = INTR_OFF" using k1(4) by simp
  show "lock_acquire l k = Inl Would_Block"
    using p l m r k1(1) by (simp add: lock_acquire_def sema_down_def sema_down_pass_def Let_def split_beta)
  show "\<exists>k1. lock_run [Go, Go, Go] \<lparr>lk_k = k, lk_lock = l, lk_pc = pc\<rparr>
      = Some \<lparr>lk_k = k1, lk_lock = l\<lparr>sema := \<lparr>sem_value = 0, waiters = w @ [p]\<rparr>\<rparr>, lk_pc = pc(p := L_Down (fst (intr_disable (eflags k))))\<rparr>
      \<and> asleep k1 p \<and> running_thread k1 = (if thread_ready_list k = [] then idle_thread k else hd (thread_ready_list k))
      \<and> intr_get_status (eflags k1) = INTR_OFF"
    using p l m r k1(1) hd sl off by (intro exI [of _ k1]) (simp add: lock_path_defs)
qed

lemma steps_retry:
  assumes p: "running_thread k = p" "p \<noteq> idle_thread k" "pc p = L_Down old" and l: "holder_repeat_nr l = 0"
    and m: "sema l = \<lparr>sem_value = 1, waiters = w\<rparr>"
  shows "lock_run [Go, Go, Go] \<lparr>lk_k = k, lk_lock = l, lk_pc = pc\<rparr>
    = Some \<lparr>lk_k = k\<lparr>eflags := snd (intr_set_status old (eflags k))\<rparr>,
        lk_lock = \<lparr>holder = p, sema = \<lparr>sem_value = 0, waiters = w\<rparr>, holder_repeat_nr = 1\<rparr>, lk_pc = pc(p := L_Held)\<rparr>"
  using assms by (simp add: lock_path_defs)

lemma steps_wait_again:
  assumes ok: "sched_ok k" and p: "running_thread k = p" "p \<noteq> idle_thread k" "pc p = L_Down old"
    and m: "sema l = \<lparr>sem_value = 0, waiters = w\<rparr>" "p \<notin> set w"
  shows "\<exists>k1. lock_run [Go] \<lparr>lk_k = k, lk_lock = l, lk_pc = pc\<rparr>
      = Some \<lparr>lk_k = k1, lk_lock = l\<lparr>sema := \<lparr>sem_value = 0, waiters = w @ [p]\<rparr>\<rparr>, lk_pc = pc\<rparr> \<and> asleep k1 p"
proof -
  obtain o1 k1 where k1: "thread_block TASK_BLOCKED k = Inr (o1, k1)"
    "TASK_BLOCKED = TASK_BLOCKED \<longrightarrow> running_thread k \<noteq> idle_thread k \<longrightarrow> asleep k1 (running_thread k)"
    by (rule sleep_frame [OF ok, of TASK_BLOCKED]) (auto simp: wait_status_def)
  then show ?thesis using p m by (intro exI [of _ k1]) (simp add: lock_path_defs)
qed

lemma steps_release:
  assumes p: "running_thread k = p" "p \<noteq> idle_thread k" "pc p = L_Held" and l: "holder l = p" "holder_repeat_nr l = 1"
    and m: "sema l = \<lparr>sem_value = 0, waiters = []\<rparr>"
  shows "lock_release l k = Inr (lock_init, k)"
    and "lock_run [Go, Go, Go] \<lparr>lk_k = k, lk_lock = l, lk_pc = pc\<rparr> = Some \<lparr>lk_k = k, lk_lock = lock_init, lk_pc = pc(p := L_Out)\<rparr>"
  using assms by (simp_all add: lock_path_defs lock_release_def sema_up_def lock_init_def sema_init_def)

lemma steps_hand_over:
  assumes ok: "sched_ok k" and p: "running_thread k = p" "p \<noteq> idle_thread k" "pc p = L_Held"
    and l: "holder l = p" "holder_repeat_nr l = 1" and m: "sema l = \<lparr>sem_value = 0, waiters = q # w\<rparr>" and q: "asleep k q"
  shows "\<exists>k1. lock_release l k = Inr (\<lparr>holder = 0, sema = \<lparr>sem_value = 1, waiters = w\<rparr>, holder_repeat_nr = 0\<rparr>, k1)
    \<and> lock_run [Go, Go, Go] \<lparr>lk_k = k, lk_lock = l, lk_pc = pc\<rparr>
      = Some \<lparr>lk_k = k1, lk_lock = \<lparr>holder = 0, sema = \<lparr>sem_value = 1, waiters = w\<rparr>, holder_repeat_nr = 0\<rparr>, lk_pc = pc(p := L_Out)\<rparr>
    \<and> thread_ready_list k1 = q # thread_ready_list k \<and> map_option status (pcbs k1 q) = Some TASK_READY
    \<and> running_thread k1 = p \<and> eflags k1 = eflags k"
proof -
  let ?k = "k\<lparr>eflags := snd (intr_disable (eflags k))\<rparr>"
  obtain t where t: "pcbs ?k q = Some t" "wait_status (status t)" using q by (auto simp: asleep_def wait_status_def)
  have ok': "sched_ok ?k" using ok by simp
  obtain k1 where k1: "thread_unblock q ?k = Inr k1" "sched_ok k1" "running_thread k1 = running_thread ?k"
    "thread_ready_list k1 = q # thread_ready_list ?k" "same_globals ?k k1"
    using thread_unblock_sched [OF ok' t] by blast
  let ?k1 = "k1\<lparr>eflags := eflags k\<rparr>"
  have e: "eflags k1 = snd (intr_disable (eflags k))" using k1(5) by (simp add: same_globals_def)
  have "map_option status (pcbs k1 q) = Some TASK_READY"
    using k1(2,4) by (auto simp: sched_ok_def sched_inv_def thread_ok_def)
  moreover have "lock_release l k = Inr (\<lparr>holder = 0, sema = \<lparr>sem_value = 1, waiters = w\<rparr>, holder_repeat_nr = 0\<rparr>, ?k1)"
    using p l m k1(1) e by (simp add: lock_release_def sema_up_def Let_def split_beta)
  moreover have "lock_run [Go, Go, Go] \<lparr>lk_k = k, lk_lock = l, lk_pc = pc\<rparr>
      = Some \<lparr>lk_k = ?k1, lk_lock = \<lparr>holder = 0, sema = \<lparr>sem_value = 1, waiters = w\<rparr>, holder_repeat_nr = 0\<rparr>, lk_pc = pc(p := L_Out)\<rparr>"
    using p l m k1(1) e by (simp add: lock_path_defs sema_up_def)
  moreover have "running_thread ?k1 = p" using k1(3) p(1) by (simp add: running_thread_def)
  ultimately show ?thesis using k1(4) by (intro exI [of _ ?k1]) simp
qed

text \<open>
  C20. The steps of a thread through a lock are the calls of \<^verbatim>\<open>lock_acquire\<close> and \<^verbatim>\<open>lock_release\<close>, on every path. A free lock is taken
  in five steps, as by the call, by the side of whatever waiters there are. A holder that acquires again counts up, and its
  release counts down again. On a lock that is taken the call cannot go on, and three steps leave the thread asleep
  at the end of the waiters, with the next ready thread running; when it runs again it goes back to sleep if the lock is
  taken, and otherwise holds it after three steps, its interrupt flag given back. The last release frees the lock; it
  wakes the first of the waiters, who is then the first ready thread, and goes on running.
\<close>

theorem lock_steps_are_the_code:
  assumes ok: "sched_ok k" and p: "running_thread k = p" "p \<noteq> idle_thread k"
  shows "(pc p = L_Out \<and> holder l \<noteq> p \<and> holder_repeat_nr l = 0 \<and> sema l = \<lparr>sem_value = 1, waiters = w\<rparr> \<longrightarrow>
      lock_acquire l k = Inr (\<lparr>holder = p, sema = \<lparr>sem_value = 0, waiters = w\<rparr>, holder_repeat_nr = 1\<rparr>, k)
      \<and> lock_run [Go, Go, Go, Go, Go] \<lparr>lk_k = k, lk_lock = l, lk_pc = pc\<rparr>
        = Some \<lparr>lk_k = k, lk_lock = \<lparr>holder = p, sema = \<lparr>sem_value = 0, waiters = w\<rparr>, holder_repeat_nr = 1\<rparr>, lk_pc = pc(p := L_Held)\<rparr>)
    \<and> (pc p = L_Held \<and> holder l = p \<and> 0 < holder_repeat_nr l \<and> holder_repeat_nr l \<noteq> -1 \<longrightarrow>
      (let l' = l\<lparr>holder_repeat_nr := holder_repeat_nr l + 1\<rparr> in
       lock_acquire l k = Inr (l', k) \<and> lock_release l' k = Inr (l, k)
       \<and> lock_run [Again] \<lparr>lk_k = k, lk_lock = l, lk_pc = pc\<rparr> = Some \<lparr>lk_k = k, lk_lock = l', lk_pc = pc\<rparr>
       \<and> lock_run [Go] \<lparr>lk_k = k, lk_lock = l', lk_pc = pc\<rparr> = Some \<lparr>lk_k = k, lk_lock = l, lk_pc = pc\<rparr>))
    \<and> (pc p = L_Out \<and> holder l \<noteq> p \<and> sema l = \<lparr>sem_value = 0, waiters = w\<rparr> \<and> p \<notin> set w \<longrightarrow>
      lock_acquire l k = Inl Would_Block
      \<and> (\<exists>k1. lock_run [Go, Go, Go] \<lparr>lk_k = k, lk_lock = l, lk_pc = pc\<rparr>
          = Some \<lparr>lk_k = k1, lk_lock = l\<lparr>sema := \<lparr>sem_value = 0, waiters = w @ [p]\<rparr>\<rparr>, lk_pc = pc(p := L_Down (fst (intr_disable (eflags k))))\<rparr>
          \<and> asleep k1 p \<and> running_thread k1 = (if thread_ready_list k = [] then idle_thread k else hd (thread_ready_list k))))
    \<and> (pc p = L_Down old \<and> sema l = \<lparr>sem_value = 0, waiters = w\<rparr> \<and> p \<notin> set w \<longrightarrow>
      (\<exists>k1. lock_run [Go] \<lparr>lk_k = k, lk_lock = l, lk_pc = pc\<rparr>
          = Some \<lparr>lk_k = k1, lk_lock = l\<lparr>sema := \<lparr>sem_value = 0, waiters = w @ [p]\<rparr>\<rparr>, lk_pc = pc\<rparr> \<and> asleep k1 p))
    \<and> (pc p = L_Down old \<and> holder_repeat_nr l = 0 \<and> sema l = \<lparr>sem_value = 1, waiters = w\<rparr> \<longrightarrow>
      lock_run [Go, Go, Go] \<lparr>lk_k = k, lk_lock = l, lk_pc = pc\<rparr>
        = Some \<lparr>lk_k = k\<lparr>eflags := snd (intr_set_status old (eflags k))\<rparr>,
            lk_lock = \<lparr>holder = p, sema = \<lparr>sem_value = 0, waiters = w\<rparr>, holder_repeat_nr = 1\<rparr>, lk_pc = pc(p := L_Held)\<rparr>)
    \<and> (pc p = L_Held \<and> holder l = p \<and> holder_repeat_nr l = 1 \<and> sema l = \<lparr>sem_value = 0, waiters = []\<rparr> \<longrightarrow>
      lock_release l k = Inr (lock_init, k)
      \<and> lock_run [Go, Go, Go] \<lparr>lk_k = k, lk_lock = l, lk_pc = pc\<rparr> = Some \<lparr>lk_k = k, lk_lock = lock_init, lk_pc = pc(p := L_Out)\<rparr>)
    \<and> (pc p = L_Held \<and> holder l = p \<and> holder_repeat_nr l = 1 \<and> sema l = \<lparr>sem_value = 0, waiters = q # w\<rparr> \<and> asleep k q \<longrightarrow>
      (\<exists>k1. lock_release l k = Inr (\<lparr>holder = 0, sema = \<lparr>sem_value = 1, waiters = w\<rparr>, holder_repeat_nr = 0\<rparr>, k1)
        \<and> lock_run [Go, Go, Go] \<lparr>lk_k = k, lk_lock = l, lk_pc = pc\<rparr>
          = Some \<lparr>lk_k = k1, lk_lock = \<lparr>holder = 0, sema = \<lparr>sem_value = 1, waiters = w\<rparr>, holder_repeat_nr = 0\<rparr>, lk_pc = pc(p := L_Out)\<rparr>
        \<and> thread_ready_list k1 = q # thread_ready_list k \<and> map_option status (pcbs k1 q) = Some TASK_READY
        \<and> running_thread k1 = p \<and> eflags k1 = eflags k))"
  apply (intro conjI)
  apply (use steps_take [OF p] in blast)
  apply (use steps_again [OF p] in \<open>simp add: Let_def\<close>)
  apply (use steps_wait [OF ok p] in blast)
  apply (use steps_wait_again [OF ok p] in blast)
  apply (use steps_retry [OF p] in blast)
  apply (use steps_release [OF p] in blast)
  apply (use steps_hand_over [OF ok p] in blast)
  done

theorem lock_steps_are_the_code_witness:
  "\<exists>k1. lock_release (lk_lock (the contention)) (lk_k (the contention))
      = Inr (\<lparr>holder = 0, sema = \<lparr>sem_value = 1, waiters = []\<rparr>, holder_repeat_nr = 0\<rparr>, k1)
    \<and> thread_ready_list k1 = 0x8000 # thread_ready_list (lk_k (the contention)) \<and> running_thread k1 = 0x9f000"
proof -
  let ?g = "the contention"
  have ok: "sched_ok (lk_k ?g)"
    using lock_reach_inv [OF contention_reach] by (simp add: lock_inv_def waiters_inv_def Let_def)
  have p: "running_thread (lk_k ?g) = 0x9f000" "0x9f000 \<noteq> idle_thread (lk_k ?g)" by code_simp+
  have l: "lk_pc ?g 0x9f000 = L_Held \<and> holder (lk_lock ?g) = 0x9f000 \<and> holder_repeat_nr (lk_lock ?g) = 1
    \<and> sema (lk_lock ?g) = \<lparr>sem_value = 0, waiters = [0x8000]\<rparr>" by code_simp
  have "asleep (lk_k ?g) 0x8000"
    using lock_reach_inv [OF contention_reach] l by (simp add: lock_inv_def waiters_inv_def Let_def)
  then show ?thesis using lock_steps_are_the_code [OF ok p] l by blast
qed

end
