(* ===== verification/Ioqueue.thy ===== *)
theory Ioqueue
  imports Prelude Thread Sync "HOL-Library.Signed_Division"
begin

section \<open>The ring buffer between keyboard and readers (\<^verbatim>\<open>device/ioqueue.c\<close>)\<close>

text \<open>
  A buffer of 64 bytes with a head (where the producer writes) and a tail (where the consumer
  reads); one cell stays free. A reader of an empty queue takes the queue's lock, leaves its
  address in \<^verbatim>\<open>consumer\<close> and blocks; \<^verbatim>\<open>ioq_putchar\<close> wakes it. A routine that blocks gives \<open>None\<close>
  and the state in which another thread runs; \<open>ioq_get_resume\<close> and \<open>ioq_put_resume\<close> are what the
  thread does when it runs again. \<open>contents\<close> is the queue as a list of bytes.
\<close>

definition bufsize :: nat where
  "bufsize = 64"

record ioqueue =
  ioq_lock :: lock
  producer :: u32
  consumer :: u32
  ioq_buf :: buf
  ioq_head :: int
  ioq_tail :: int

text \<open>An array with an \<^verbatim>\<open>int32_t\<close> index.\<close>

definition rdi :: "'a list \<Rightarrow> int \<Rightarrow> 'a res" where
  "rdi xs i = (if 0 \<le> i then rd xs (nat i) else Inl Bad_Access)"

definition wri :: "'a list \<Rightarrow> int \<Rightarrow> 'a \<Rightarrow> 'a list res" where
  "wri xs i v = (if 0 \<le> i then wr xs (nat i) v else Inl Bad_Access)"

definition ioqueue_init :: "ioqueue \<Rightarrow> ioqueue" where
  "ioqueue_init ioq = ioq\<lparr>ioq_lock := lock_init, producer := 0, consumer := 0, ioq_head := 0, ioq_tail := 0\<rparr>"

definition next_pos :: "int \<Rightarrow> int" where
  "next_pos pos = (pos + 1) smod int bufsize"

definition ioq_full :: "ioqueue \<Rightarrow> 'a kernel_scheme \<Rightarrow> bool res" where
  "ioq_full ioq s =
     ASSERT (intr_get_status (eflags s) = INTR_OFF) (Inr (next_pos (ioq_head ioq) = ioq_tail ioq))"

definition ioq_empty :: "ioqueue \<Rightarrow> 'a kernel_scheme \<Rightarrow> bool res" where
  "ioq_empty ioq s =
     ASSERT (intr_get_status (eflags s) = INTR_OFF) (Inr (ioq_head ioq = ioq_tail ioq))"

text \<open>Both give the new value of the waiter cell.\<close>

definition ioq_wait :: "u32 \<Rightarrow> 'a kernel_scheme \<Rightarrow> (u32 \<times> 'a kernel_scheme) res" where
  "ioq_wait waiter s =
     ASSERT (waiter = 0)
       (bindR (thread_block TASK_BLOCKED s) (\<lambda>(old_status, s'). Inr (running_thread s, s')))"

definition ioq_wakeup :: "u32 \<Rightarrow> 'a kernel_scheme \<Rightarrow> (u32 \<times> 'a kernel_scheme) res" where
  "ioq_wakeup waiter s =
     ASSERT (waiter \<noteq> 0) (bindR (thread_unblock waiter s) (\<lambda>s'. Inr (0, s')))"

definition ioq_get_loop :: "ioqueue \<Rightarrow> 'a kernel_scheme \<Rightarrow> (u8 option \<times> ioqueue \<times> 'a kernel_scheme) res" where
  "ioq_get_loop ioq s =
     bindR (ioq_empty ioq s) (\<lambda>e.
     if e then
       bindR (lock_acquire (ioq_lock ioq) s) (\<lambda>(l, s1).
       bindR (ioq_wait (consumer ioq) s1) (\<lambda>(w, s2).
       Inr (None, ioq\<lparr>ioq_lock := l, consumer := w\<rparr>, s2)))
     else
       bindR (rdi (ioq_buf ioq) (ioq_tail ioq)) (\<lambda>byte.
       let ioq1 = ioq\<lparr>ioq_tail := next_pos (ioq_tail ioq)\<rparr> in
       if producer ioq1 \<noteq> 0 then
         bindR (ioq_wakeup (producer ioq1) s) (\<lambda>(w, s1). Inr (Some byte, ioq1\<lparr>producer := w\<rparr>, s1))
       else Inr (Some byte, ioq1, s)))"

definition ioq_getchar :: "ioqueue \<Rightarrow> 'a kernel_scheme \<Rightarrow> (u8 option \<times> ioqueue \<times> 'a kernel_scheme) res" where
  "ioq_getchar ioq s = ASSERT (intr_get_status (eflags s) = INTR_OFF) (ioq_get_loop ioq s)"

definition ioq_get_resume :: "ioqueue \<Rightarrow> 'a kernel_scheme \<Rightarrow> (u8 option \<times> ioqueue \<times> 'a kernel_scheme) res" where
  "ioq_get_resume ioq s =
     bindR (lock_release (ioq_lock ioq) (block_return INTR_OFF s)) (\<lambda>(l, s1).
     ioq_get_loop (ioq\<lparr>ioq_lock := l\<rparr>) s1)"

text \<open>For \<^verbatim>\<open>ioq_putchar\<close> the first component says whether the byte was put.\<close>

definition ioq_put_loop :: "ioqueue \<Rightarrow> u8 \<Rightarrow> 'a kernel_scheme \<Rightarrow> (bool \<times> ioqueue \<times> 'a kernel_scheme) res" where
  "ioq_put_loop ioq byte s =
     bindR (ioq_full ioq s) (\<lambda>f.
     if f then
       bindR (lock_acquire (ioq_lock ioq) s) (\<lambda>(l, s1).
       bindR (ioq_wait (producer ioq) s1) (\<lambda>(w, s2).
       Inr (False, ioq\<lparr>ioq_lock := l, producer := w\<rparr>, s2)))
     else
       bindR (wri (ioq_buf ioq) (ioq_head ioq) byte) (\<lambda>b.
       let ioq1 = ioq\<lparr>ioq_buf := b, ioq_head := next_pos (ioq_head ioq)\<rparr> in
       if consumer ioq1 \<noteq> 0 then
         bindR (ioq_wakeup (consumer ioq1) s) (\<lambda>(w, s1). Inr (True, ioq1\<lparr>consumer := w\<rparr>, s1))
       else Inr (True, ioq1, s)))"

definition ioq_putchar :: "ioqueue \<Rightarrow> u8 \<Rightarrow> 'a kernel_scheme \<Rightarrow> (bool \<times> ioqueue \<times> 'a kernel_scheme) res" where
  "ioq_putchar ioq byte s = ASSERT (intr_get_status (eflags s) = INTR_OFF) (ioq_put_loop ioq byte s)"

definition ioq_put_resume :: "ioqueue \<Rightarrow> u8 \<Rightarrow> 'a kernel_scheme \<Rightarrow> (bool \<times> ioqueue \<times> 'a kernel_scheme) res" where
  "ioq_put_resume ioq byte s =
     bindR (lock_release (ioq_lock ioq) (block_return INTR_OFF s)) (\<lambda>(l, s1).
     ioq_put_loop (ioq\<lparr>ioq_lock := l\<rparr>) byte s1)"

subsection \<open>The queue as a list\<close>

definition ioq_ok :: "ioqueue \<Rightarrow> bool" where
  "ioq_ok q \<longleftrightarrow> length (ioq_buf q) = bufsize
     \<and> 0 \<le> ioq_head q \<and> ioq_head q < int bufsize \<and> 0 \<le> ioq_tail q \<and> ioq_tail q < int bufsize"

definition ioq_count :: "ioqueue \<Rightarrow> nat" where
  "ioq_count q = nat ((ioq_head q - ioq_tail q) mod int bufsize)"

definition contents :: "ioqueue \<Rightarrow> u8 list" where
  "contents q = map (\<lambda>i. ioq_buf q ! ((nat (ioq_tail q) + i) mod bufsize)) [0..<ioq_count q]"

lemma next_pos_eq: "0 \<le> p \<Longrightarrow> p < int bufsize \<Longrightarrow> next_pos p = (p + 1) mod int bufsize"
  by (simp add: next_pos_def signed_modulo_int_def signed_divide_int_def sgn_if minus_div_mult_eq_mod bufsize_def)

lemma next_pos_bounds: "0 \<le> p \<Longrightarrow> p < int bufsize \<Longrightarrow> 0 \<le> next_pos p \<and> next_pos p < int bufsize"
  by (simp add: next_pos_eq bufsize_def)

lemma rdi_ok [simp]: "0 \<le> i \<Longrightarrow> nat i < length xs \<Longrightarrow> rdi xs i = Inr (xs ! nat i)"
  by (simp add: rdi_def)

lemma wri_ok [simp]: "0 \<le> i \<Longrightarrow> nat i < length xs \<Longrightarrow> wri xs i v = Inr (xs[nat i := v])"
  by (simp add: wri_def)

lemma length_contents: "length (contents q) = ioq_count q"
  by (simp add: contents_def)

lemma ioq_count_bound: "ioq_count q < bufsize"
  by (simp add: ioq_count_def bufsize_def nat_less_iff)

text \<open>Positions modulo 64, by cases.\<close>

lemma mod64:
  fixes x :: int
  shows "0 \<le> x \<Longrightarrow> x < 64 \<Longrightarrow> x mod 64 = x" and "64 \<le> x \<Longrightarrow> x < 128 \<Longrightarrow> x mod 64 = x - 64"
    and "-64 \<le> x \<Longrightarrow> x < 0 \<Longrightarrow> x mod 64 = x + 64"
proof -
  show "x mod 64 = x" if "0 \<le> x" "x < 64" using that by simp
  show "x mod 64 = x - 64" if "64 \<le> x" "x < 128"
    using that mod_pos_pos_trivial [of "x - 64" 64] by (simp add: minus_mod_self2)
  show "x mod 64 = x + 64" if "-64 \<le> x" "x < 0"
    using that mod_pos_pos_trivial [of "x + 64" 64] by simp
qed

lemma diff_mod64:
  fixes h t :: int
  assumes "0 \<le> h" "h < 64" "0 \<le> t" "t < 64"
  shows "(h - t) mod 64 = (if t \<le> h then h - t else h - t + 64)"
    and "(h + 1) mod 64 = (if h = 63 then 0 else h + 1)"
  using assms mod64 [of "h - t"] mod64 [of "h + 1"] by auto

lemma pos_arith:
  fixes h t :: int
  assumes "0 \<le> h" "h < 64" "0 \<le> t" "t < 64"
  shows "h = t \<longleftrightarrow> nat ((h - t) mod 64) = 0" and "(h + 1) mod 64 = t \<longleftrightarrow> nat ((h - t) mod 64) = 63"
  using assms by (auto simp: diff_mod64 nat_eq_iff split: if_splits)

lemma ioq_empty_iff: "ioq_ok q \<Longrightarrow> ioq_head q = ioq_tail q \<longleftrightarrow> contents q = []"
proof -
  assume "ioq_ok q"
  then have "ioq_head q = ioq_tail q \<longleftrightarrow> ioq_count q = 0"
    using pos_arith(1) [of "ioq_head q" "ioq_tail q"] by (simp add: ioq_ok_def ioq_count_def bufsize_def)
  then show ?thesis by (metis length_0_conv length_contents)
qed

lemma ioq_full_iff: "ioq_ok q \<Longrightarrow> next_pos (ioq_head q) = ioq_tail q \<longleftrightarrow> length (contents q) = bufsize - 1"
  using pos_arith(2) [of "ioq_head q" "ioq_tail q"] length_contents [of q]
  by (simp add: ioq_ok_def ioq_count_def next_pos_eq bufsize_def)

text \<open>Writing at the head appends.\<close>

lemma put_arith:
  fixes h t :: int
  assumes "0 \<le> h" "h < 64" "0 \<le> t" "t < 64"
  shows "(h + 1) mod 64 \<noteq> t \<Longrightarrow> nat (((h + 1) mod 64 - t) mod 64) = Suc (nat ((h - t) mod 64))"
    and "i \<le> nat ((h - t) mod 64) \<Longrightarrow>
      (nat t + i) mod 64 = nat h \<longleftrightarrow> i = nat ((h - t) mod 64)"
proof -
  have b: "0 \<le> (h + 1) mod 64" "(h + 1) mod 64 < 64" by simp_all
  show "nat (((h + 1) mod 64 - t) mod 64) = Suc (nat ((h - t) mod 64))" if "(h + 1) mod 64 \<noteq> t"
    using assms that diff_mod64(1) [OF b assms(3,4)] diff_mod64 [OF assms]
    by (auto split: if_splits)
  show "(nat t + i) mod 64 = nat h \<longleftrightarrow> i = nat ((h - t) mod 64)" if "i \<le> nat ((h - t) mod 64)"
  proof -
    have i: "int i \<le> (h - t) mod 64" using that by linarith
    have "int ((nat t + i) mod 64) = (t + int i) mod 64" using assms by (simp add: zmod_int)
    also have "\<dots> = (if t + int i < 64 then t + int i else t + int i - 64)"
      using assms i mod64 [of "t + int i"] pos_mod_bound [of 64 "h - t"] by auto
    finally have "(nat t + i) mod 64 = nat h \<longleftrightarrow>
        (if t + int i < 64 then t + int i else t + int i - 64) = h"
      using assms by linarith
    then show ?thesis using i assms diff_mod64(1) [OF assms] by (auto split: if_splits)
  qed
qed

lemma contents_put:
  fixes v :: u8
  assumes ok: "ioq_ok q" and nf: "next_pos (ioq_head q) \<noteq> ioq_tail q"
  defines "q' \<equiv> q\<lparr>ioq_buf := (ioq_buf q)[nat (ioq_head q) := v], ioq_head := next_pos (ioq_head q)\<rparr>"
  shows "contents q' = contents q @ [v]" and "ioq_ok q'"
proof -
  let ?h = "ioq_head q" and ?t = "ioq_tail q"
  have b: "length (ioq_buf q) = 64" "0 \<le> ?h" "?h < 64" "0 \<le> ?t" "?t < 64"
    using ok by (auto simp: ioq_ok_def bufsize_def)
  have np: "next_pos ?h = (?h + 1) mod 64" using b by (simp add: next_pos_eq bufsize_def)
  have cnt: "ioq_count q' = Suc (ioq_count q)"
    using put_arith(1) [OF b(2-5)] nf by (simp add: q'_def ioq_count_def np bufsize_def)
  have last: "(nat ?t + ioq_count q) mod 64 = nat ?h"
    using put_arith(2) [OF b(2-5), of "nat ((?h - ?t) mod 64)"] by (simp add: ioq_count_def bufsize_def)
  have "ioq_buf q' ! ((nat ?t + i) mod 64) = ioq_buf q ! ((nat ?t + i) mod 64)" if "i < ioq_count q" for i
    using put_arith(2) [OF b(2-5), of i] that by (simp add: q'_def ioq_count_def bufsize_def)
  moreover have "ioq_buf q' ! ((nat ?t + ioq_count q) mod 64) = v"
    unfolding last using b by (simp add: q'_def nat_less_iff)
  ultimately show "contents q' = contents q @ [v]"
    unfolding contents_def cnt by (simp add: q'_def bufsize_def)
  show "ioq_ok q'" using b by (simp add: q'_def ioq_ok_def np bufsize_def)
qed

text \<open>Reading at the tail takes the first byte.\<close>

lemma contents_get:
  assumes ok: "ioq_ok q" and ne: "ioq_head q \<noteq> ioq_tail q"
  defines "q' \<equiv> q\<lparr>ioq_tail := next_pos (ioq_tail q)\<rparr>"
  shows "contents q = ioq_buf q ! nat (ioq_tail q) # contents q'" and "ioq_ok q'"
proof -
  let ?h = "ioq_head q" and ?t = "ioq_tail q"
  have b: "length (ioq_buf q) = 64" "0 \<le> ?h" "?h < 64" "0 \<le> ?t" "?t < 64"
    using ok by (auto simp: ioq_ok_def bufsize_def)
  have np: "next_pos ?t = (?t + 1) mod 64" using b by (simp add: next_pos_eq bufsize_def)
  have "0 \<le> (?t + 1) mod 64" "(?t + 1) mod 64 < 64" by simp_all
  from diff_mod64(1) [OF b(2,3) this] have e: "(?h - ?t) mod 64 = (?h - (?t + 1) mod 64) mod 64 + 1"
    using b ne diff_mod64(1) [OF b(2-5)] diff_mod64(2) [OF b(4,5) b(4,5)] by (auto split: if_splits)
  have cnt: "ioq_count q = Suc (ioq_count q')"
    using e by (simp add: q'_def ioq_count_def np bufsize_def)
  have "(nat ?t + Suc i) mod 64 = (nat ((?t + 1) mod 64) + i) mod 64" for i
  proof -
    have "int ((nat ?t + Suc i) mod 64) = (?t + 1 + int i) mod 64" using b by (simp add: zmod_int add_ac)
    also have "\<dots> = ((?t + 1) mod 64 + int i) mod 64" by (simp add: mod_add_left_eq)
    also have "\<dots> = int ((nat ((?t + 1) mod 64) + i) mod 64)" by (simp add: zmod_int)
    finally show ?thesis by linarith
  qed
  then show "contents q = ioq_buf q ! nat ?t # contents q'"
    unfolding contents_def cnt upt_conv_Cons [OF zero_less_Suc] map_Suc_upt [symmetric] list.map
    using b by (simp add: q'_def np bufsize_def comp_def nat_less_iff)
  show "ioq_ok q'" using b by (simp add: q'_def ioq_ok_def np bufsize_def)
qed

subsection \<open>Putting and getting without waiting\<close>

lemma ioq_putchar_room:
  assumes "ioq_ok q" and "length (contents q) < bufsize - 1" and "consumer q = 0"
    and "intr_get_status (eflags s) = INTR_OFF"
  shows "\<exists>q'. ioq_putchar q v s = Inr (True, q', s) \<and> ioq_ok q' \<and> contents q' = contents q @ [v]
    \<and> consumer q' = 0 \<and> producer q' = producer q \<and> ioq_lock q' = ioq_lock q"
proof -
  have nf: "next_pos (ioq_head q) \<noteq> ioq_tail q" using assms(1,2) by (simp add: ioq_full_iff)
  have h: "0 \<le> ioq_head q" "nat (ioq_head q) < length (ioq_buf q)"
    using assms(1) by (auto simp: ioq_ok_def)
  let ?q = "q\<lparr>ioq_buf := (ioq_buf q)[nat (ioq_head q) := v], ioq_head := next_pos (ioq_head q)\<rparr>"
  have "ioq_putchar q v s = Inr (True, ?q, s)"
    using nf h assms(3,4) by (simp add: ioq_putchar_def ioq_put_loop_def ioq_full_def Let_def)
  then show ?thesis using contents_put [OF assms(1) nf, of v] assms(3) by auto
qed

lemma ioq_get_loop_some:
  assumes "ioq_ok q" and "contents q = v # vs" and "producer q = 0"
    and "intr_get_status (eflags s) = INTR_OFF"
  shows "\<exists>q'. ioq_get_loop q s = Inr (Some v, q', s) \<and> ioq_ok q' \<and> contents q' = vs
    \<and> consumer q' = consumer q \<and> producer q' = 0 \<and> ioq_lock q' = ioq_lock q"
proof -
  have ne: "ioq_head q \<noteq> ioq_tail q" using assms(1,2) ioq_empty_iff by auto
  have h: "0 \<le> ioq_tail q" "nat (ioq_tail q) < length (ioq_buf q)"
    using assms(1) by (auto simp: ioq_ok_def)
  let ?q = "q\<lparr>ioq_tail := next_pos (ioq_tail q)\<rparr>"
  have "ioq_get_loop q s = Inr (Some (ioq_buf q ! nat (ioq_tail q)), ?q, s)"
    using ne h assms(3,4) by (simp add: ioq_get_loop_def ioq_empty_def Let_def)
  then show ?thesis using contents_get [OF assms(1) ne] assms(2,3) by auto
qed

subsection \<open>The contract of a bounded queue\<close>

locale bounded_queue =
  fixes ok :: "'q \<Rightarrow> bool" and abs :: "'q \<Rightarrow> 'e list" and cap :: nat
    and put :: "'e \<Rightarrow> 'q \<Rightarrow> 'q res" and get :: "'q \<Rightarrow> ('e \<times> 'q) res"
  assumes put_room: "ok q \<Longrightarrow> length (abs q) < cap \<Longrightarrow> \<exists>q'. put e q = Inr q' \<and> ok q' \<and> abs q' = abs q @ [e]"
    and put_full: "ok q \<Longrightarrow> length (abs q) = cap \<Longrightarrow> \<exists>f. put e q = Inl f"
    and get_some: "ok q \<Longrightarrow> abs q = e # es \<Longrightarrow> \<exists>q'. get q = Inr (e, q') \<and> ok q' \<and> abs q' = es"
    and get_none: "ok q \<Longrightarrow> abs q = [] \<Longrightarrow> \<exists>f. get q = Inl f"
begin

lemma put_all:
  "ok q \<Longrightarrow> length (abs q) + length es \<le> cap \<Longrightarrow>
   \<exists>q'. append_all put es q = Inr q' \<and> ok q' \<and> abs q' = abs q @ es"
proof (induction es arbitrary: q)
  case (Cons e es)
  then obtain q1 where "put e q = Inr q1" "ok q1" "abs q1 = abs q @ [e]" using put_room [of q e] by auto
  with Cons.IH [of q1] Cons.prems show ?case by auto
qed simp

lemma get_all:
  "ok q \<Longrightarrow> abs q = xs @ ys \<Longrightarrow> \<exists>q'. pop_n get (length xs) q = Inr (xs, q') \<and> ok q' \<and> abs q' = ys"
proof (induction xs arbitrary: q)
  case (Cons x xs)
  then obtain q1 where "get q = Inr (x, q1)" "ok q1" "abs q1 = xs @ ys" using get_some [of q x] by auto
  with Cons.IH [of q1] show ?case by fastforce
qed auto

text \<open>What goes in comes out in order, up to the capacity; one more is refused.\<close>

lemma fifo:
  assumes "ok q" and "abs q = []" and "length es \<le> cap"
  shows "\<exists>q' q''. append_all put es q = Inr q' \<and> pop_n get (length es) q' = Inr (es, q'') \<and> abs q'' = []
    \<and> (length es = cap \<longrightarrow> (\<exists>f. put e q' = Inl f)) \<and> (\<exists>f. get q'' = Inl f)"
proof -
  obtain q' where q': "append_all put es q = Inr q'" "ok q'" "abs q' = es"
    using put_all [of q es] assms by auto
  obtain q'' where "pop_n get (length es) q' = Inr (es, q'')" "ok q''" "abs q'' = []"
    using get_all [of q' es "[]"] q' by auto
  with q' put_full [of q' e] get_none [of q''] show ?thesis by auto
qed

end

text \<open>The ring buffer with the kernel state, used without waiting.\<close>

definition ioq_put_nowait :: "u8 \<Rightarrow> ioqueue \<times> 'a kernel_scheme \<Rightarrow> (ioqueue \<times> 'a kernel_scheme) res" where
  "ioq_put_nowait v qs =
     bindR (ioq_putchar (fst qs) v (snd qs)) (\<lambda>(done, q', s').
     if done then Inr (q', s') else Inl Would_Block)"

definition ioq_get_nowait :: "ioqueue \<times> 'a kernel_scheme \<Rightarrow> (u8 \<times> ioqueue \<times> 'a kernel_scheme) res" where
  "ioq_get_nowait qs =
     bindR (ioq_getchar (fst qs) (snd qs)) (\<lambda>(r, q', s').
     case r of None \<Rightarrow> Inl Would_Block | Some v \<Rightarrow> Inr (v, q', s'))"

definition ioq_free :: "ioqueue \<times> 'a kernel_scheme \<Rightarrow> bool" where
  "ioq_free qs \<longleftrightarrow> ioq_ok (fst qs) \<and> consumer (fst qs) = 0 \<and> producer (fst qs) = 0
     \<and> intr_get_status (eflags (snd qs)) = INTR_OFF"

interpretation ioq: bounded_queue "ioq_free :: ioqueue \<times> 'a kernel_scheme \<Rightarrow> bool" "contents \<circ> fst"
  "bufsize - 1" ioq_put_nowait ioq_get_nowait
proof unfold_locales
  fix qs :: "ioqueue \<times> 'a kernel_scheme" and e es
  obtain q s where qs: "qs = (q, s)" by (cases qs)
  assume free: "ioq_free qs"
  then have ok: "ioq_ok q" and c: "consumer q = 0" "producer q = 0"
    and off: "intr_get_status (eflags s) = INTR_OFF"
    by (auto simp: ioq_free_def qs)
  show "\<exists>q'. ioq_put_nowait e qs = Inr q' \<and> ioq_free q' \<and> (contents \<circ> fst) q' = (contents \<circ> fst) qs @ [e]"
    if "length ((contents \<circ> fst) qs) < bufsize - 1"
    using ioq_putchar_room [OF ok _ c(1) off, of e] that free
    by (auto simp: ioq_put_nowait_def qs ioq_free_def)
  show "\<exists>f. ioq_put_nowait e qs = Inl f" if "length ((contents \<circ> fst) qs) = bufsize - 1"
  proof -
    have "next_pos (ioq_head q) = ioq_tail q" using that ok by (simp add: qs ioq_full_iff)
    then have "fst r = False" if "ioq_putchar q e s = Inr r" for r
      using that off by (auto simp: ioq_putchar_def ioq_put_loop_def ioq_full_def res_elims)
    then show ?thesis
      by (cases "ioq_putchar q e s") (auto simp: ioq_put_nowait_def qs split: prod.splits)
  qed
  show "\<exists>q'. ioq_get_nowait qs = Inr (e, q') \<and> ioq_free q' \<and> (contents \<circ> fst) q' = es"
    if "(contents \<circ> fst) qs = e # es"
    using ioq_get_loop_some [OF ok _ c(2) off, of e es] that free off
    by (auto simp: ioq_get_nowait_def ioq_getchar_def qs ioq_free_def)
  show "\<exists>f. ioq_get_nowait qs = Inl f" if "(contents \<circ> fst) qs = []"
  proof -
    have "ioq_head q = ioq_tail q" using that ok by (simp add: qs ioq_empty_iff)
    then have "fst r = None" if "ioq_getchar q s = Inr r" for r
      using that off by (auto simp: ioq_getchar_def ioq_get_loop_def ioq_empty_def res_elims)
    then show ?thesis
      by (cases "ioq_getchar q s") (auto simp: ioq_get_nowait_def qs split: prod.splits)
  qed
qed

subsection \<open>What the queue promises\<close>

definition empty_queue :: ioqueue where
  "empty_queue = ioqueue_init \<lparr>ioq_lock = lock_init, producer = 0, consumer = 0,
     ioq_buf = replicate bufsize 0, ioq_head = 62, ioq_tail = 5\<rparr>"

lemma empty_queue_ok: "ioq_ok empty_queue" "contents empty_queue = []"
  by (simp_all add: empty_queue_def ioqueue_init_def ioq_ok_def bufsize_def contents_def ioq_count_def)

text \<open>
  C22. The ring buffer is a first-in first-out queue of 63 bytes: up to 63 bytes put into an empty queue
  come out in order, wherever the head and the tail stand; after 63 the queue is full, and
  reading an empty queue does not give a byte.
\<close>

theorem ioqueue_is_fifo:
  assumes "ioq_ok q" and "contents q = []" and "consumer q = 0" and "producer q = 0"
    and "intr_get_status (eflags s) = INTR_OFF" and "length vs \<le> 63"
  shows "\<exists>qs' qs''. append_all ioq_put_nowait vs (q, s) = Inr qs'
    \<and> pop_n ioq_get_nowait (length vs) qs' = Inr (vs, qs'') \<and> contents (fst qs'') = []
    \<and> (length vs = 63 \<longrightarrow> (\<exists>f. ioq_put_nowait v qs' = Inl f)) \<and> (\<exists>f. ioq_get_nowait qs'' = Inl f)"
  using ioq.fifo [of "(q, s)" vs v] assms by (simp add: ioq_free_def bufsize_def)

theorem ioqueue_is_fifo_witness:
  "\<exists>qs' qs''. append_all ioq_put_nowait [7, 8, 9] (empty_queue, small_kernel) = Inr qs'
    \<and> pop_n ioq_get_nowait 3 qs' = Inr ([7, 8, 9], qs'')"
proof -
  have "consumer empty_queue = 0" "producer empty_queue = 0"
    by (simp_all add: empty_queue_def ioqueue_init_def)
  moreover have "length [7, 8, 9 :: u8] \<le> 63" "length [7, 8, 9 :: u8] = 3" by simp_all
  ultimately show ?thesis
    using ioqueue_is_fifo [OF empty_queue_ok _ _ small_kernel_ok(2), of "[7, 8, 9]" 0] by metis
qed

text \<open>A byte put while a reader waits: the reader is made ready, first in line.\<close>

lemma ioq_putchar_wakes:
  assumes "ioq_ok q" and "length (contents q) < bufsize - 1" and "consumer q = w" and "w \<noteq> 0"
    and "sched_ok s" and "pcbs s w = Some t" and "wait_status (status t)"
    and "intr_get_status (eflags s) = INTR_OFF"
  shows "\<exists>q' s'. ioq_putchar q v s = Inr (True, q', s') \<and> ioq_ok q' \<and> contents q' = contents q @ [v]
    \<and> consumer q' = 0 \<and> producer q' = producer q \<and> ioq_lock q' = ioq_lock q
    \<and> sched_ok s' \<and> running_thread s' = running_thread s
    \<and> thread_ready_list s' = w # thread_ready_list s \<and> same_globals s s'"
proof -
  have nf: "next_pos (ioq_head q) \<noteq> ioq_tail q" using assms(1,2) by (simp add: ioq_full_iff)
  have h: "0 \<le> ioq_head q" "nat (ioq_head q) < length (ioq_buf q)"
    using assms(1) by (auto simp: ioq_ok_def)
  let ?q = "q\<lparr>ioq_buf := (ioq_buf q)[nat (ioq_head q) := v], ioq_head := next_pos (ioq_head q), consumer := 0\<rparr>"
  obtain s' where s': "thread_unblock w s = Inr s'" "sched_ok s'" "running_thread s' = running_thread s"
    "thread_ready_list s' = w # thread_ready_list s" "same_globals s s'"
    using thread_unblock_sched [OF assms(5-7)] by blast
  have "ioq_putchar q v s = Inr (True, ?q, s')"
    using nf h s'(1) assms(3,4,8)
    by (simp add: ioq_putchar_def ioq_put_loop_def ioq_full_def ioq_wakeup_def Let_def)
  moreover have "contents ?q = contents q @ [v]" "ioq_ok ?q"
    using contents_put [OF assms(1) nf, of v] by (simp_all add: contents_def ioq_count_def ioq_ok_def)
  ultimately show ?thesis using s' by auto
qed

text \<open>A read of an empty queue: the reader takes the lock, registers and blocks.\<close>

lemma ioq_getchar_waits:
  assumes "ioq_ok q" and "contents q = []" and "consumer q = 0" and "ioq_lock q = lock_init"
    and "sched_ok s" and "intr_get_status (eflags s) = INTR_OFF" and "thread_ready_list s = nxt # r"
  obtains s' t where "ioq_getchar q s = Inr (None,
      q\<lparr>ioq_lock := lock_taken (running_thread s), consumer := running_thread s\<rparr>, s')"
    and "sched_ok s'" and "run_order s' = nxt # r" and "nxt \<noteq> running_thread s"
    and "pcbs s' (running_thread s) = Some t" and "status t = TASK_BLOCKED"
    and "intr_get_status (eflags s') = INTR_OFF"
proof -
  have em: "ioq_head q = ioq_tail q" using assms(1,2) by (simp add: ioq_empty_iff)
  have p: "running_thread s \<noteq> 0" "nxt \<noteq> running_thread s"
    using assms(5,7) by (auto simp: sched_ok_def sched_inv_def thread_ok_def)
  obtain s' where s': "thread_block TASK_BLOCKED s = Inr (fst (intr_disable (eflags s)), s')" "sched_ok s'"
    "run_order s' = (if thread_ready_list s = [] then [idle_thread s] else thread_ready_list s)"
    "eflags s' = snd (intr_disable (eflags s))" "idle_thread s' = idle_thread s" "dom (pcbs s') = dom (pcbs s)"
    "running_thread s' \<noteq> running_thread s \<longrightarrow>
      map_option status (pcbs s' (running_thread s)) = Some TASK_BLOCKED"
    "\<forall>p. p \<noteq> running_thread s' \<longrightarrow> p \<noteq> running_thread s \<longrightarrow>
      map_option status (pcbs s' p) = map_option status (pcbs s p)"
    by (rule thread_block_sched [OF assms(5), of TASK_BLOCKED]) (simp add: wait_status_def)
  have "running_thread s' = nxt" using s'(3) assms(7) by (simp add: run_order_def)
  with s'(7) p(2) obtain t where t: "pcbs s' (running_thread s) = Some t" "status t = TASK_BLOCKED" by auto
  have "ioq_getchar q s = Inr (None,
      q\<lparr>ioq_lock := lock_taken (running_thread s), consumer := running_thread s\<rparr>, s')"
    using em assms(3,4,6) p(1) s'(1)
    by (simp add: ioq_getchar_def ioq_get_loop_def ioq_empty_def ioq_wait_def)
  moreover have "intr_get_status (eflags s') = INTR_OFF" unfolding s'(4) by simp
  ultimately show thesis
    using s'(2,3) t p(2) assms(7) by (intro that) (simp_all add: run_order_def)
qed

text \<open>
  C23. A waiting reader gets the key: a thread that reads an empty queue blocks and the next thread runs;
  when a byte is put, the reader is the first ready thread; when it runs again it gives the lock
  back and gets exactly that byte. No assertion of the queue, the lock or the scheduler fires.
\<close>

theorem reader_gets_the_key:
  assumes "ioq_ok q" and "contents q = []" and "consumer q = 0" and "producer q = 0"
    and "ioq_lock q = lock_init" and "sched_ok s" and "intr_get_status (eflags s) = INTR_OFF"
    and "thread_ready_list s = nxt # r"
  shows "\<exists>q1 s1 q2 s2 s3 q4 s4. ioq_getchar q s = Inr (None, q1, s1) \<and> running_thread s1 = nxt
    \<and> ioq_putchar q1 v s1 = Inr (True, q2, s2) \<and> run_order s2 = nxt # running_thread s # r
    \<and> schedule s2 = Inr s3 \<and> running_thread s3 = running_thread s
    \<and> ioq_get_resume q2 s3 = Inr (Some v, q4, s4) \<and> contents q4 = [] \<and> ioq_lock q4 = lock_init
    \<and> consumer q4 = 0"
proof -
  let ?p = "running_thread s"
  have p: "?p \<noteq> 0" using assms(6) by (auto simp: sched_ok_def sched_inv_def thread_ok_def)
  obtain s1 t where s1: "ioq_getchar q s = Inr (None, q\<lparr>ioq_lock := lock_taken ?p, consumer := ?p\<rparr>, s1)"
    "sched_ok s1" "run_order s1 = nxt # r" "nxt \<noteq> ?p"
    "pcbs s1 ?p = Some t" "status t = TASK_BLOCKED" "intr_get_status (eflags s1) = INTR_OFF"
    by (rule ioq_getchar_waits [OF assms(1-3,5-8)])
  let ?q1 = "q\<lparr>ioq_lock := lock_taken ?p, consumer := ?p\<rparr>"
  have q1: "ioq_ok ?q1" "contents ?q1 = []" using assms(1,2) by (simp_all add: ioq_ok_def contents_def ioq_count_def)
  have room: "length (contents ?q1) < bufsize - 1" by (simp only: q1(2)) (simp add: bufsize_def)
  have ws: "wait_status (status t)" using s1(6) by (simp add: wait_status_def)
  obtain q2 s2 where q2: "ioq_putchar ?q1 v s1 = Inr (True, q2, s2)" "ioq_ok q2" "contents q2 = [v]"
    "consumer q2 = 0" "producer q2 = 0" "ioq_lock q2 = lock_taken ?p" "sched_ok s2"
    "running_thread s2 = running_thread s1" "thread_ready_list s2 = ?p # thread_ready_list s1" "same_globals s1 s2"
    using ioq_putchar_wakes [OF q1(1) room _ p s1(2,5) ws s1(7), of v] q1(2) assms(4) by auto
  have off2: "intr_get_status (eflags s2) = INTR_OFF" using q2(10) s1(7) by (simp add: same_globals_def)
  obtain s3 where s3: "schedule s2 = Inr s3" "sched_ok s3" "run_order s3 = rotate1 (run_order s2)"
    "eflags s3 = eflags s2" "sys_ticks s3 = sys_ticks s2"
    by (rule schedule_rotates [OF q2(7) off2])
  have r3: "running_thread s3 = ?p" using s3(3) q2(9) by (simp add: run_order_def)
  have off3: "intr_get_status (eflags (block_return INTR_OFF s3)) = INTR_OFF"
    by (simp add: block_return_def intr_set_status_def)
  have r3': "running_thread (block_return INTR_OFF s3) = ?p" using r3 by (simp add: block_return_def)
  obtain q4 where q4: "ioq_get_loop (q2\<lparr>ioq_lock := lock_init\<rparr>) (block_return INTR_OFF s3)
      = Inr (Some v, q4, block_return INTR_OFF s3)" "contents q4 = []" "consumer q4 = 0" "ioq_lock q4 = lock_init"
    using ioq_get_loop_some [OF _ _ _ off3, of "q2\<lparr>ioq_lock := lock_init\<rparr>" v "[]"] q2(2-5)
    by (auto simp: ioq_ok_def contents_def ioq_count_def)
  then have "ioq_get_resume q2 s3 = Inr (Some v, q4, block_return INTR_OFF s3)"
    using q2(6) r3' by (simp add: ioq_get_resume_def)
  moreover have "running_thread s1 = nxt" "run_order s2 = nxt # ?p # r"
    using s1(3) q2(8,9) by (auto simp: run_order_def)
  ultimately show ?thesis using s1(1) q2(1) s3(1) r3 q4(2-4) by blast
qed

theorem reader_gets_the_key_witness:
  "\<exists>q1 s1 q2 s2 s3 q4 s4. ioq_getchar empty_queue small_kernel = Inr (None, q1, s1)
    \<and> running_thread s1 = 0x8000 \<and> ioq_putchar q1 65 s1 = Inr (True, q2, s2)
    \<and> schedule s2 = Inr s3 \<and> ioq_get_resume q2 s3 = Inr (Some 65, q4, s4)"
proof -
  have e: "consumer empty_queue = 0" "producer empty_queue = 0" "ioq_lock empty_queue = lock_init"
    by (simp_all add: empty_queue_def ioqueue_init_def)
  have "thread_ready_list small_kernel = [0x8000]" by (simp add: small_kernel_def)
  from reader_gets_the_key [OF empty_queue_ok e small_kernel_ok(1,2) this, of 65]
  show ?thesis by blast
qed

end
