(* ===== verification/Keyboard.thy ===== *)
theory Keyboard
  imports Prelude Thread Sync Ioqueue
begin

section \<open>The keyboard driver (\<^verbatim>\<open>device/keyboard.c\<close>)\<close>

text \<open>
  The interrupt handler turns scan codes into characters and keeps the state of the modifier keys.
  Its state is the five flags and the ring buffer \<^verbatim>\<open>kbd_buf\<close>; the byte read from the port is an
  argument. Characters are bytes; \<open>keymap\<close> gives for every make code the plain and the shifted
  character, 0 for a key without one.
\<close>

subsection \<open>The handler\<close>

record kbd =
  ctrl_status :: bool
  shift_status :: bool
  caps_lock_status :: bool
  alt_status :: bool
  ext_status :: bool
  kbd_buf :: ioqueue

definition keymap :: "(u8 \<times> u8) list" where
  "keymap =
    [(0, 0), (27, 27), (49, 33), (50, 64), (51, 35), (52, 36), (53, 37), (54, 94),
     (55, 38), (56, 42), (57, 40), (48, 41), (45, 95), (61, 43), (8, 8), (9, 9),
     (113, 81), (119, 87), (101, 69), (114, 82), (116, 84), (121, 89), (117, 85), (105, 73),
     (111, 79), (112, 80), (91, 123), (93, 125), (13, 13), (0, 0), (97, 65), (115, 83),
     (100, 68), (102, 70), (103, 71), (104, 72), (106, 74), (107, 75), (108, 76), (59, 58),
     (39, 34), (96, 126), (0, 0), (92, 124), (122, 90), (120, 88), (99, 67), (118, 86),
     (98, 66), (110, 78), (109, 77), (44, 60), (46, 62), (47, 63), (0, 0), (42, 42),
     (0, 0), (32, 32), (0, 0)]"

definition shift_l_make :: u16 where "shift_l_make = 0x2a"
definition shift_r_make :: u16 where "shift_r_make = 0x36"
definition alt_l_make :: u16 where "alt_l_make = 0x38"
definition alt_r_make :: u16 where "alt_r_make = 0xe038"
definition ctrl_l_make :: u16 where "ctrl_l_make = 0x1d"
definition ctrl_r_make :: u16 where "ctrl_r_make = 0xe01d"
definition caps_lock_make :: u16 where "caps_lock_make = 0x3a"

lemmas make_codes = shift_l_make_def shift_r_make_def alt_l_make_def alt_r_make_def ctrl_l_make_def
  ctrl_r_make_def caps_lock_make_def

text \<open>The keys with two characters, which the shift key alone decides.\<close>

definition two_char_key :: "u16 \<Rightarrow> bool" where
  "two_char_key scancode \<longleftrightarrow> scancode < 0x0e \<or> scancode = 0x29 \<or> scancode = 0x1a \<or> scancode = 0x1b
     \<or> scancode = 0x2b \<or> scancode = 0x27 \<or> scancode = 0x28 \<or> scancode = 0x33
     \<or> scancode = 0x34 \<or> scancode = 0x35"

definition shift_of :: "u16 \<Rightarrow> bool \<Rightarrow> bool \<Rightarrow> bool" where
  "shift_of scancode shift_down_last caps_lock_last =
     (if two_char_key scancode then shift_down_last
      else if shift_down_last \<and> caps_lock_last then False
      else if shift_down_last \<or> caps_lock_last then True else False)"

text \<open>The release of a key.\<close>

definition kbd_break :: "u16 \<Rightarrow> kbd \<Rightarrow> kbd" where
  "kbd_break make_code k =
     (let k1 = (if make_code = ctrl_l_make \<or> make_code = ctrl_r_make then k\<lparr>ctrl_status := False\<rparr> else k);
          k2 = (if make_code = shift_r_make \<or> make_code = shift_l_make then k1\<lparr>shift_status := False\<rparr> else k1)
      in if make_code = alt_r_make \<or> make_code = alt_l_make then k2\<lparr>alt_status := False\<rparr> else k2)"

text \<open>A make code, already masked, of a key without a character.\<close>

definition kbd_modifier :: "u16 \<Rightarrow> kbd \<Rightarrow> kbd" where
  "kbd_modifier scancode k =
     (if scancode = ctrl_l_make \<or> scancode = ctrl_r_make then k\<lparr>ctrl_status := True\<rparr>
      else if scancode = shift_l_make \<or> scancode = shift_r_make then k\<lparr>shift_status := True\<rparr>
      else if scancode = alt_r_make \<or> scancode = alt_l_make then k\<lparr>alt_status := True\<rparr>
      else if caps_lock_make = scancode then k\<lparr>caps_lock_status := \<not> caps_lock_status k\<rparr>
      else k)"

definition kbd_make :: "u16 \<Rightarrow> kbd \<Rightarrow> 'a kernel_scheme \<Rightarrow> (kbd \<times> 'a kernel_scheme) res" where
  "kbd_make scancode k s =
     (let shift = shift_of scancode (shift_status k) (caps_lock_status k);
          code = scancode AND 0x00ff in
      bindR (rd keymap (unat code)) (\<lambda>row.
      let cur_char = (if shift then snd row else fst row) in
      if cur_char \<noteq> 0 then
        (let ch = (if (ctrl_status k \<and> cur_char = 108) \<or> (ctrl_status k \<and> cur_char = 117)
                   then cur_char - 97 else cur_char) in
         bindR (ioq_full (kbd_buf k) s) (\<lambda>full.
         if \<not> full then
           bindR (ioq_putchar (kbd_buf k) ch s) (\<lambda>(put_done, q, s'). Inr (k\<lparr>kbd_buf := q\<rparr>, s'))
         else Inr (k, s)))
      else Inr (kbd_modifier code k, s)))"

text \<open>The handler. For a code that is not in the table it prints ``unknow key'', which is output on the screen and is left out
  here.\<close>

definition intr_keyboard_handler :: "u8 \<Rightarrow> kbd \<Rightarrow> 'a kernel_scheme \<Rightarrow> (kbd \<times> 'a kernel_scheme) res" where
  "intr_keyboard_handler byte k0 s =
     (if byte = 0xe0 then Inr (k0\<lparr>ext_status := True\<rparr>, s)
      else
        (let scancode = (if ext_status k0 then 0xe000 OR ucast byte else ucast byte) :: u16;
             k = k0\<lparr>ext_status := False\<rparr> in
         if scancode AND 0x0080 \<noteq> 0 then Inr (kbd_break (scancode AND 0xff7f) k, s)
         else if (scancode > 0x00 \<and> scancode < 0x3b) \<or> scancode = alt_r_make \<or> scancode = ctrl_r_make
         then kbd_make scancode k s
         else Inr (k, s)))"

primrec kbd_run :: "u8 list \<Rightarrow> kbd \<Rightarrow> 'a kernel_scheme \<Rightarrow> (kbd \<times> 'a kernel_scheme) res" where
  "kbd_run [] k s = Inr (k, s)"
| "kbd_run (b # bs) k s = bindR (intr_keyboard_handler b k s) (\<lambda>(k', s'). kbd_run bs k' s')"

lemma kbd_run_append:
  "kbd_run (as @ bs) k s = bindR (kbd_run as k s) (\<lambda>(k', s'). kbd_run bs k' s')"
  by (induction as arbitrary: k s) (simp_all add: bindR_assoc case_prod_beta')

subsection \<open>What a key means\<close>

text \<open>The keys with a character; the character that a key stands for: shift and caps lock cancel
  each other on letters, and caps lock does nothing on the other keys.\<close>

definition visible :: "u8 \<Rightarrow> bool" where
  "visible c \<longleftrightarrow> 0 < unat c \<and> unat c < 0x3b \<and> fst (keymap ! unat c) \<noteq> 0"

definition is_letter :: "u8 \<Rightarrow> bool" where
  "is_letter ch \<longleftrightarrow> 97 \<le> ch \<and> ch \<le> 122"

definition key_char :: "bool \<Rightarrow> bool \<Rightarrow> u8 \<Rightarrow> u8" where
  "key_char shift caps c =
     (let row = keymap ! unat c in
      if is_letter (fst row) then (if shift \<noteq> caps then snd row else fst row)
      else (if shift then snd row else fst row))"

text \<open>Facts about the 58 make codes, by evaluation.\<close>

definition code_in_range :: "u8 \<Rightarrow> bool" where
  "code_in_range c \<longleftrightarrow> c \<noteq> 0xe0 \<and> (ucast c :: u16) AND 0x0080 = 0
     \<and> (ucast c :: u16) AND 0x00ff = ucast c \<and> unat (ucast c :: u16) = unat c
     \<and> 0 < (ucast c :: u16) \<and> (ucast c :: u16) < 0x3b \<and> unat c < length keymap
     \<and> c OR 0x80 \<noteq> 0xe0 \<and> (ucast (c OR 0x80) :: u16) AND 0x0080 \<noteq> 0
     \<and> (ucast (c OR 0x80) :: u16) AND 0xff7f = ucast c"

definition char_as_meant :: "u8 \<Rightarrow> bool \<Rightarrow> bool \<Rightarrow> bool" where
  "char_as_meant c sh cl \<longleftrightarrow>
     (if shift_of (ucast c) sh cl then snd (keymap ! unat c) else fst (keymap ! unat c)) = key_char sh cl c
     \<and> (visible c \<longrightarrow> key_char sh cl c \<noteq> 0)"

definition no_modifier :: "u8 \<Rightarrow> bool" where
  "no_modifier c \<longleftrightarrow> visible c \<longrightarrow> (ucast c :: u16) \<noteq> ctrl_l_make \<and> (ucast c :: u16) \<noteq> ctrl_r_make
     \<and> (ucast c :: u16) \<noteq> shift_l_make \<and> (ucast c :: u16) \<noteq> shift_r_make
     \<and> (ucast c :: u16) \<noteq> alt_l_make \<and> (ucast c :: u16) \<noteq> alt_r_make"

lemma make_code_cases:
  assumes "list_all (\<lambda>n. P (of_nat n :: u8)) [1..<0x3b]" and "0 < unat c" and "unat c < 0x3b"
  shows "P c"
proof -
  have "unat c \<in> set [1..<0x3b]" using assms(2,3) by simp
  then have "P (of_nat (unat c))" using assms(1) by (simp only: list_all_iff)
  then show ?thesis by simp
qed

lemma make_code_facts:
  assumes "0 < unat c" and "unat c < 0x3b"
  shows "code_in_range c" and "char_as_meant c sh cl" and "no_modifier c"
proof -
  show "code_in_range c" by (rule make_code_cases [OF _ assms]) code_simp
  show "no_modifier c" by (rule make_code_cases [OF _ assms]) code_simp
  have "char_as_meant c True True" "char_as_meant c True False"
    "char_as_meant c False True" "char_as_meant c False False"
    by (rule make_code_cases [OF _ assms], code_simp)+
  then show "char_as_meant c sh cl" by (cases sh; cases cl) simp_all
qed

subsection \<open>Pressing and releasing\<close>

definition tap :: "u8 \<Rightarrow> u8 list" where
  "tap c = [c, c OR 0x80]"

text \<open>The driver between two keys: no extended code pending, control up, no reader waiting.\<close>

definition kbd_ready :: "kbd \<Rightarrow> 'a kernel_scheme \<Rightarrow> bool" where
  "kbd_ready k s \<longleftrightarrow> \<not> ext_status k \<and> \<not> ctrl_status k \<and> ioq_ok (kbd_buf k) \<and> consumer (kbd_buf k) = 0
     \<and> intr_get_status (eflags s) = INTR_OFF"

lemma press_visible:
  assumes r: "kbd_ready k s" and v: "visible c" and room: "length (contents (kbd_buf k)) < bufsize - 1"
  shows "\<exists>q. intr_keyboard_handler c k s = Inr (k\<lparr>kbd_buf := q\<rparr>, s) \<and> kbd_ready (k\<lparr>kbd_buf := q\<rparr>) s
    \<and> contents q = contents (kbd_buf k) @ [key_char (shift_status k) (caps_lock_status k) c]"
proof -
  have c: "0 < unat c" "unat c < 0x3b" using v by (auto simp: visible_def)
  note f = make_code_facts(1) [OF c, unfolded code_in_range_def]
    make_code_facts(2) [OF c, of "shift_status k" "caps_lock_status k", unfolded char_as_meant_def]
  have ext: "k\<lparr>ext_status := False\<rparr> = k" using r by (simp add: kbd_ready_def)
  have ok: "ioq_ok (kbd_buf k)" and cons: "consumer (kbd_buf k) = 0"
    and off: "intr_get_status (eflags s) = INTR_OFF" and ctl: "\<not> ctrl_status k" "\<not> ext_status k"
    using r by (auto simp: kbd_ready_def)
  let ?ch = "key_char (shift_status k) (caps_lock_status k) c"
  have nf: "next_pos (ioq_head (kbd_buf k)) \<noteq> ioq_tail (kbd_buf k)"
    using room ok by (simp add: ioq_full_iff)
  obtain q where q: "ioq_putchar (kbd_buf k) ?ch s = Inr (True, q, s)" "ioq_ok q"
    "contents q = contents (kbd_buf k) @ [?ch]" "consumer q = 0"
    using ioq_putchar_room [OF ok room cons off] by blast
  have "kbd_make (ucast c) k s = Inr (k\<lparr>kbd_buf := q\<rparr>, s)"
    using f v ctl q(1) nf off by (simp add: kbd_make_def ioq_full_def Let_def)
  moreover have "intr_keyboard_handler c k s = kbd_make (ucast c) (k\<lparr>ext_status := False\<rparr>) s"
    using f ctl by (simp add: intr_keyboard_handler_def Let_def)
  ultimately have "intr_keyboard_handler c k s = Inr (k\<lparr>kbd_buf := q\<rparr>, s)"
    by (simp only: ext)
  then show ?thesis using q r by (auto simp: kbd_ready_def)
qed

lemma release_visible:
  assumes "kbd_ready k s" and v: "visible c"
  shows "intr_keyboard_handler (c OR 0x80) k s = Inr (k, s)"
proof -
  have c: "0 < unat c" "unat c < 0x3b" using v by (auto simp: visible_def)
  note f = make_code_facts(1) [OF c, unfolded code_in_range_def]
  have "k\<lparr>ext_status := False\<rparr> = k" "\<not> ext_status k" using assms(1) by (simp_all add: kbd_ready_def)
  moreover have "kbd_break (ucast c) k' = k'" for k'
    using make_code_facts(3) [OF c] v by (simp add: no_modifier_def kbd_break_def Let_def)
  ultimately show ?thesis using f by (simp add: intr_keyboard_handler_def Let_def)
qed

lemma typing_lemma:
  assumes "kbd_ready k s" and "\<forall>c\<in>set cs. visible c"
    and "length (contents (kbd_buf k)) + length cs \<le> bufsize - 1"
  shows "\<exists>q. kbd_run (concat (map tap cs)) k s = Inr (k\<lparr>kbd_buf := q\<rparr>, s) \<and> kbd_ready (k\<lparr>kbd_buf := q\<rparr>) s
    \<and> contents q = contents (kbd_buf k) @ map (key_char (shift_status k) (caps_lock_status k)) cs"
  using assms
proof (induction cs arbitrary: k)
  case Nil
  then show ?case by (intro exI [of _ "kbd_buf k"]) simp
next
  case (Cons c cs)
  then have v: "visible c" and room: "length (contents (kbd_buf k)) < bufsize - 1" by auto
  obtain q where q: "intr_keyboard_handler c k s = Inr (k\<lparr>kbd_buf := q\<rparr>, s)" "kbd_ready (k\<lparr>kbd_buf := q\<rparr>) s"
    "contents q = contents (kbd_buf k) @ [key_char (shift_status k) (caps_lock_status k) c]"
    using press_visible [OF Cons.prems(1) v room] by blast
  have rel: "intr_keyboard_handler (c OR 0x80) (k\<lparr>kbd_buf := q\<rparr>) s = Inr (k\<lparr>kbd_buf := q\<rparr>, s)"
    by (rule release_visible [OF q(2) v])
  show ?case
    using Cons.IH [OF q(2)] Cons.prems(2,3) q(1,3) rel by (auto simp: tap_def)
qed

text \<open>The left shift key, and the caps lock key.\<close>

lemma shift_keys:
  assumes "\<not> ext_status k"
  shows "intr_keyboard_handler 0x2a k s = Inr (k\<lparr>shift_status := True\<rparr>, s)"
    and "intr_keyboard_handler 0xaa k s = Inr (k\<lparr>shift_status := False\<rparr>, s)"
    and "kbd_run (tap 0x3a) k s = Inr (k\<lparr>caps_lock_status := \<not> caps_lock_status k\<rparr>, s)"
proof -
  obtain c sh cl al e q where k: "k = \<lparr>ctrl_status = c, shift_status = sh, caps_lock_status = cl,
      alt_status = al, ext_status = e, kbd_buf = q\<rparr>" by (cases k)
  then have e: "e = False" using assms by simp
  have m: "keymap ! 0x2a = (0, 0)" "keymap ! 0x3a = (0, 0)" "length keymap = 0x3b" by (simp_all add: keymap_def)
  show "intr_keyboard_handler 0x2a k s = Inr (k\<lparr>shift_status := True\<rparr>, s)"
    "intr_keyboard_handler 0xaa k s = Inr (k\<lparr>shift_status := False\<rparr>, s)"
    "kbd_run (tap 0x3a) k s = Inr (k\<lparr>caps_lock_status := \<not> caps_lock_status k\<rparr>, s)"
    unfolding k e
    by (simp_all add: intr_keyboard_handler_def kbd_make_def kbd_break_def kbd_modifier_def make_codes m
        tap_def Let_def)
qed

text \<open>
  Typing: pressing and releasing any keys that have a character puts exactly their characters into
  the buffer, in order, as long as there is room, and leaves the modifiers as they were. The
  character is the one \<open>key_char\<close> says: shift and caps lock cancel each other on letters, and only
  shift counts on the other keys, so the handler's list of two-character keys is complete.
\<close>

theorem typing_fills_buffer:
  assumes "kbd_ready k s" and "\<forall>c\<in>set cs. visible c" and "length (contents (kbd_buf k)) + length cs \<le> 63"
  shows "\<exists>q. kbd_run (concat (map tap cs)) k s = Inr (k\<lparr>kbd_buf := q\<rparr>, s)
    \<and> contents q = contents (kbd_buf k) @ map (key_char (shift_status k) (caps_lock_status k)) cs"
  using typing_lemma [of k s cs] assms by (auto simp: bufsize_def)

definition idle_kbd :: kbd where
  "idle_kbd = \<lparr>ctrl_status = False, shift_status = False, caps_lock_status = False, alt_status = False,
     ext_status = False, kbd_buf = empty_queue\<rparr>"

lemma idle_kbd_ready: "kbd_ready idle_kbd small_kernel"
  using empty_queue_ok small_kernel_ok(2)
  by (simp add: kbd_ready_def idle_kbd_def) (simp add: empty_queue_def ioqueue_init_def)

lemma keys_visible: "\<forall>c\<in>set [0x23, 0x17, 2 :: u8]. visible c"
  by (simp add: visible_def keymap_def)

theorem typing_fills_buffer_witness:
  "\<exists>q. kbd_run [0x23, 0xa3, 0x17, 0x97, 2, 0x82] idle_kbd small_kernel
      = Inr (idle_kbd\<lparr>kbd_buf := q\<rparr>, small_kernel) \<and> contents q = [104, 105, 49]"
proof -
  have e: "contents (kbd_buf idle_kbd) = []" using empty_queue_ok(2) by (simp add: idle_kbd_def)
  have "concat (map tap [0x23, 0x17, 2]) = [0x23, 0xa3, 0x17, 0x97, 2, 0x82]" by code_simp
  moreover have "map (key_char (shift_status idle_kbd) (caps_lock_status idle_kbd)) [0x23, 0x17, 2] = [104, 105, 49]"
    by code_simp
  ultimately show ?thesis
    using typing_fills_buffer [OF idle_kbd_ready keys_visible] e by auto
qed

text \<open>
  C24. Holding shift while typing gives the shifted characters, and afterwards shift is up again; the
  caps lock key, pressed and released, turns caps lock over.
\<close>

theorem typing_with_shift:
  assumes "kbd_ready k s" and "\<forall>c\<in>set cs. visible c" and "length (contents (kbd_buf k)) + length cs \<le> 63"
    and "\<not> shift_status k"
  shows "\<exists>q. kbd_run ([0x2a] @ concat (map tap cs) @ [0xaa]) k s = Inr (k\<lparr>kbd_buf := q\<rparr>, s)
    \<and> contents q = contents (kbd_buf k) @ map (key_char True (caps_lock_status k)) cs
    \<and> kbd_run (tap 0x3a) k s = Inr (k\<lparr>caps_lock_status := \<not> caps_lock_status k\<rparr>, s)"
proof -
  have e: "\<not> ext_status k" using assms(1) by (simp add: kbd_ready_def)
  let ?k = "k\<lparr>shift_status := True\<rparr>"
  have "kbd_ready ?k s" using assms(1) by (simp add: kbd_ready_def)
  then obtain q where q: "kbd_run (concat (map tap cs)) ?k s = Inr (?k\<lparr>kbd_buf := q\<rparr>, s)"
    "kbd_ready (?k\<lparr>kbd_buf := q\<rparr>) s"
    "contents q = contents (kbd_buf k) @ map (key_char True (caps_lock_status k)) cs"
    using typing_lemma [of ?k s cs] assms(2,3) by (auto simp: bufsize_def)
  have back_up: "k\<lparr>kbd_buf := q, shift_status := False\<rparr> = k\<lparr>kbd_buf := q\<rparr>" using assms(4) by simp
  have "\<not> ext_status (?k\<lparr>kbd_buf := q\<rparr>)" using e by simp
  from shift_keys(2) [OF this, of s] have
    "intr_keyboard_handler 0xaa (?k\<lparr>kbd_buf := q\<rparr>) s = Inr (k\<lparr>kbd_buf := q\<rparr>, s)"
    using back_up by simp
  then have "kbd_run ([0x2a] @ concat (map tap cs) @ [0xaa]) k s = Inr (k\<lparr>kbd_buf := q\<rparr>, s)"
    using q(1) shift_keys(1) [OF e, of s] by (simp add: kbd_run_append)
  then show ?thesis using q(3) shift_keys(3) [OF e] by blast
qed

theorem typing_with_shift_witness:
  "\<exists>q. kbd_run [0x2a, 0x23, 0xa3, 0x17, 0x97, 2, 0x82, 0xaa] idle_kbd small_kernel
      = Inr (idle_kbd\<lparr>kbd_buf := q\<rparr>, small_kernel) \<and> contents q = [72, 73, 33]"
proof -
  have e: "contents (kbd_buf idle_kbd) = []" using empty_queue_ok(2) by (simp add: idle_kbd_def)
  have "concat (map tap [0x23, 0x17, 2]) = [0x23, 0xa3, 0x17, 0x97, 2, 0x82]" by code_simp
  moreover have "map (key_char True (caps_lock_status idle_kbd)) [0x23, 0x17, 2] = [72, 73, 33]"
    by code_simp
  ultimately show ?thesis
    using typing_with_shift [OF idle_kbd_ready keys_visible] e by (auto simp: idle_kbd_def)
qed

subsection \<open>The handler and a waiting reader\<close>

text \<open>No reader waits, or the one that does is blocked.\<close>

definition reader_ok :: "ioqueue \<Rightarrow> 'a kernel_scheme \<Rightarrow> bool" where
  "reader_ok q s \<longleftrightarrow> consumer q = 0 \<or> (\<exists>t. pcbs s (consumer q) = Some t \<and> wait_status (status t))"

lemma put_when_room:
  assumes "ioq_ok q" and "next_pos (ioq_head q) \<noteq> ioq_tail q" and "reader_ok q s" and "sched_ok s"
    and "intr_get_status (eflags s) = INTR_OFF"
  shows "\<exists>q' s'. ioq_putchar q v s = Inr (True, q', s') \<and> ioq_ok q' \<and> contents q' = contents q @ [v]
    \<and> consumer q' = 0 \<and> sched_ok s' \<and> running_thread s' = running_thread s"
proof -
  have "length (contents q) \<noteq> bufsize - 1" using assms(1,2) by (simp add: ioq_full_iff)
  then have room: "length (contents q) < bufsize - 1"
    using ioq_count_bound [of q] length_contents [of q] by simp
  show ?thesis
  proof (cases "consumer q = 0")
    case True
    then show ?thesis using ioq_putchar_room [OF assms(1) room True assms(5), of v] assms(4) by auto
  next
    case False
    then obtain t where "pcbs s (consumer q) = Some t" "wait_status (status t)"
      using assms(3) by (auto simp: reader_ok_def)
    then show ?thesis
      using ioq_putchar_wakes [OF assms(1) room refl False assms(4) _ _ assms(5), of t v] by blast
  qed
qed

lemma scancode_index:
  assumes "(0 < sc \<and> sc < 0x3b) \<or> sc = alt_r_make \<or> sc = ctrl_r_make"
  shows "unat (sc AND 0x00ff) < length keymap"
proof -
  have l: "length keymap = 0x3b" by (simp add: keymap_def)
  consider "sc < 0x3b" | "sc = 0xe038" | "sc = 0xe01d" using assms by (auto simp: make_codes)
  then show ?thesis
  proof cases
    case 1
    have "sc AND 0x00ff \<le> sc" by (rule word_and_le2)
    with 1 have "sc AND 0x00ff < 0x3b" by simp
    then show ?thesis by (simp add: l word_less_nat_alt)
  qed (simp_all add: l)
qed

text \<open>The result \<open>r\<close> of handling a byte in state \<open>k\<close>, \<open>s\<close>: at most one more character.\<close>

definition handled :: "kbd \<Rightarrow> 'a kernel_scheme \<Rightarrow> (kbd \<times> 'a kernel_scheme) res \<Rightarrow> bool" where
  "handled k s r \<longleftrightarrow> (\<exists>k' s' cs. r = Inr (k', s') \<and> ioq_ok (kbd_buf k')
     \<and> contents (kbd_buf k') = contents (kbd_buf k) @ cs \<and> length cs \<le> 1 \<and> length (contents (kbd_buf k')) \<le> 63
     \<and> (cs \<noteq> [] \<longrightarrow> consumer (kbd_buf k') = 0) \<and> sched_ok s' \<and> running_thread s' = running_thread s)"

lemma contents_le_63: "length (contents q) \<le> 63"
  using ioq_count_bound [of q] length_contents [of q] by (simp add: bufsize_def)

lemma handled_same:
  assumes "ioq_ok (kbd_buf k)" and "sched_ok s" and "r = Inr (k', s)" and "kbd_buf k' = kbd_buf k"
  shows "handled k s r"
  unfolding handled_def using assms contents_le_63
  by (intro exI [of _ k'] exI [of _ s] exI [of _ "[]"]) simp

lemma modifier_buf [simp]: "kbd_buf (kbd_break c k) = kbd_buf k" "kbd_buf (kbd_modifier c k) = kbd_buf k"
  by (simp_all add: kbd_break_def kbd_modifier_def Let_def)

lemma kbd_make_handled:
  assumes "ioq_ok (kbd_buf k)" and "reader_ok (kbd_buf k) s" and "sched_ok s"
    and off: "intr_get_status (eflags s) = INTR_OFF" and idx: "unat (sc AND 0x00ff) < length keymap"
  shows "handled k s (kbd_make sc k s)"
proof -
  define ch0 where "ch0 = (if shift_of sc (shift_status k) (caps_lock_status k)
    then snd (keymap ! unat (sc AND 0x00ff)) else fst (keymap ! unat (sc AND 0x00ff)))"
  define ch where "ch = (if (ctrl_status k \<and> ch0 = 108) \<or> (ctrl_status k \<and> ch0 = 117) then ch0 - 97 else ch0)"
  have run: "kbd_make sc k s = (if ch0 \<noteq> 0 then bindR (ioq_full (kbd_buf k) s) (\<lambda>full.
      if \<not> full then bindR (ioq_putchar (kbd_buf k) ch s) (\<lambda>(put_done, q, s'). Inr (k\<lparr>kbd_buf := q\<rparr>, s'))
      else Inr (k, s)) else Inr (kbd_modifier (sc AND 0x00ff) k, s))"
    unfolding kbd_make_def Let_def rd_ok [OF idx] bindR_Inr ch_def ch0_def by (rule refl)
  show ?thesis
  proof (cases "ch0 = 0 \<or> next_pos (ioq_head (kbd_buf k)) = ioq_tail (kbd_buf k)")
    case True
    then have "\<exists>k'. kbd_make sc k s = Inr (k', s) \<and> kbd_buf k' = kbd_buf k"
      using off unfolding run by (auto simp: ioq_full_def)
    then show ?thesis using handled_same [OF assms(1,3)] by blast
  next
    case False
    then obtain q' s' where q': "ioq_putchar (kbd_buf k) ch s = Inr (True, q', s')" "ioq_ok q'"
      "contents q' = contents (kbd_buf k) @ [ch]" "consumer q' = 0" "sched_ok s'"
      "running_thread s' = running_thread s"
      using put_when_room [OF assms(1) _ assms(2-4), of ch] by blast
    then have "kbd_make sc k s = Inr (k\<lparr>kbd_buf := q'\<rparr>, s')"
      using False off unfolding run by (simp add: ioq_full_def)
    then show ?thesis
      unfolding handled_def using q' contents_le_63 [of q']
      by (intro exI [of _ "k\<lparr>kbd_buf := q'\<rparr>"] exI [of _ s'] exI [of _ "[ch]"]) simp
  qed
qed

text \<open>
  The keyboard interrupt never panics, blocks or switches threads, whatever byte arrives and
  whatever the state of the modifiers: it puts at most one character into the buffer, never one
  too many, and if a reader waits for it the reader is made ready.
\<close>

theorem keyboard_never_blocks:
  assumes "ioq_ok (kbd_buf k)" and "reader_ok (kbd_buf k) s" and "sched_ok s"
    and "intr_get_status (eflags s) = INTR_OFF"
  shows "\<exists>k' s' cs. intr_keyboard_handler b k s = Inr (k', s') \<and> ioq_ok (kbd_buf k')
    \<and> contents (kbd_buf k') = contents (kbd_buf k) @ cs \<and> length cs \<le> 1 \<and> length (contents (kbd_buf k')) \<le> 63
    \<and> (cs \<noteq> [] \<longrightarrow> consumer (kbd_buf k') = 0) \<and> sched_ok s' \<and> running_thread s' = running_thread s"
proof -
  let ?k = "k\<lparr>ext_status := False\<rparr>"
  define sc where "sc = (if ext_status k then 0xe000 OR ucast b else ucast b :: u16)"
  have run: "intr_keyboard_handler b k s = (if b = 0xe0 then Inr (k\<lparr>ext_status := True\<rparr>, s)
     else if sc AND 0x0080 \<noteq> 0 then Inr (kbd_break (sc AND 0xff7f) ?k, s)
     else if (sc > 0x00 \<and> sc < 0x3b) \<or> sc = alt_r_make \<or> sc = ctrl_r_make then kbd_make sc ?k s
     else Inr (?k, s))"
    unfolding intr_keyboard_handler_def Let_def sc_def by (rule refl)
  have "handled ?k s (kbd_make sc ?k s)"
    if "(sc > 0x00 \<and> sc < 0x3b) \<or> sc = alt_r_make \<or> sc = ctrl_r_make"
    using kbd_make_handled [of ?k s sc] scancode_index [OF that] assms by simp
  then have "handled k s (kbd_make sc ?k s)"
    if "(sc > 0x00 \<and> sc < 0x3b) \<or> sc = alt_r_make \<or> sc = ctrl_r_make"
    using that by (simp add: handled_def)
  then have "handled k s (intr_keyboard_handler b k s)"
    unfolding run using handled_same [OF assms(1,3)] by simp
  then show ?thesis unfolding handled_def .
qed

theorem keyboard_never_blocks_witness:
  "\<exists>k' s'. intr_keyboard_handler 0x1e idle_kbd small_kernel = Inr (k', s')
    \<and> length (contents (kbd_buf k')) \<le> 63 \<and> running_thread s' = running_thread small_kernel"
proof -
  have "ioq_ok (kbd_buf idle_kbd)" "reader_ok (kbd_buf idle_kbd) small_kernel"
    using empty_queue_ok(1)
    by (simp_all add: idle_kbd_def reader_ok_def) (simp add: empty_queue_def ioqueue_init_def)
  from keyboard_never_blocks [OF this small_kernel_ok(1,2)] show ?thesis by blast
qed

end
