(* ===== verification/Stdio.thy ===== *)
theory Stdio
  imports Prelude Cstring
begin

section \<open>Formatted output (\<^verbatim>\<open>lib/stdio.c\<close>)\<close>

text \<open>
  \<^verbatim>\<open>vsprintf\<close> and \<^verbatim>\<open>itoa\<close> on byte buffers. The arguments behind the format are a list of values;
  taking one of another type than the format says, or more than there are, is \<open>Bad_Access\<close>.
  \<^verbatim>\<open>vsprintf\<close> writes no terminator (except inside \<^verbatim>\<open>%s\<close>), so the meaning \<open>render\<close> is reached on a
  buffer whose rest is zero, which is what \<^verbatim>\<open>printf\<close> and \<^verbatim>\<open>printk\<close> pass.
\<close>

subsection \<open>The routines\<close>

datatype arg = AInt u32 | AStr buf nat | AChar u8

definition digit_char :: "nat \<Rightarrow> u8" where
  "digit_char m = (if m < 10 then of_nat m + 48 else of_nat m - 10 + 65)"

declare unat_ucast_u8 [simp]

text \<open>A base of 0 divides by zero and one of 1 never ends; the callers pass 10 and 16.\<close>

function itoa :: "u32 \<Rightarrow> buf \<Rightarrow> nat \<Rightarrow> u8 \<Rightarrow> (buf \<times> nat) res" where
  "itoa v buf p base =
     (if base = 0 then Inl Bad_Access
      else if base = 1 \<and> v \<noteq> 0 then Inl Diverge
      else let m = v mod ucast base; i = v div ucast base in
        bindR (if i \<noteq> 0 then itoa i buf p base else Inr (buf, p)) (\<lambda>(buf1, p1).
        bindR (wr buf1 p1 (digit_char (unat m))) (\<lambda>buf2. Inr (buf2, Suc p1))))"
  by pat_completeness auto
termination
proof (relation "measure (\<lambda>(v, buf, p, base). unat v)")
  fix v :: u32 and buf :: buf and p :: nat and base :: u8 and x xa
  assume a: "base \<noteq> 0" "\<not> (base = 1 \<and> v \<noteq> 0)" "x = v mod ucast base" "xa = v div ucast base" "xa \<noteq> 0"
  have n: "unat v \<noteq> 0" using a(4,5) by (auto simp: unat_eq_0)
  then have "base \<noteq> 1" using a(2) by auto
  then have "2 \<le> unat base" using a(1) by (metis One_nat_def Suc_1 less_2_cases not_less unat_1 unat_eq_0 word_unat_eq_iff)
  then have b: "2 \<le> unat (ucast base :: u32)" by simp
  then have "unat v div unat (ucast base :: u32) < unat v" using n by simp
  then show "((xa, buf, p, base), v, buf, p, base) \<in> measure (\<lambda>(v, buf, p, base). unat v)"
    using a(4) by (simp add: unat_div)
qed simp

declare itoa.simps [simp del]

text \<open>The loop of \<^verbatim>\<open>vsprintf\<close>: \<open>p\<close> is the place in the output, \<open>i\<close> the place in the format whose
  character is \<open>index_char\<close>.\<close>

function vsprintf_loop :: "buf \<Rightarrow> nat \<Rightarrow> buf \<Rightarrow> nat \<Rightarrow> arg list \<Rightarrow> buf res" where
  "vsprintf_loop str p fmt i args =
     (if i < length fmt then
        let index_char = fmt ! i in
        if index_char = 0 then Inr str
        else if index_char \<noteq> 37 then
          bindR (wr str p index_char) (\<lambda>str1. vsprintf_loop str1 (Suc p) fmt (Suc i) args)
        else bindR (rd fmt (Suc i)) (\<lambda>c.
          if c = 120 then
            (case args of AInt v # rest \<Rightarrow>
               bindR (itoa v str p 16) (\<lambda>(str1, p1). vsprintf_loop str1 p1 fmt (i + 2) rest)
             | _ \<Rightarrow> Inl Bad_Access)
          else if c = 115 then
            (case args of AStr b q # rest \<Rightarrow>
               bindR (strcpy str p b q) (\<lambda>str1.
               bindR (strlen b q) (\<lambda>n. vsprintf_loop str1 (p + n) fmt (i + 2) rest))
             | _ \<Rightarrow> Inl Bad_Access)
          else if c = 100 then
            (case args of AInt v # rest \<Rightarrow>
               bindR (if sint v < 0 then bindR (wr str p 45) (\<lambda>str1. Inr (0 - v, str1, Suc p))
                      else Inr (v, str, p)) (\<lambda>(v1, str1, p1).
               bindR (itoa v1 str1 p1 10) (\<lambda>(str2, p2). vsprintf_loop str2 p2 fmt (i + 2) rest))
             | _ \<Rightarrow> Inl Bad_Access)
          else if c = 99 then
            (case args of AChar v # rest \<Rightarrow>
               bindR (wr str p v) (\<lambda>str1. vsprintf_loop str1 (Suc p) fmt (i + 2) rest)
             | _ \<Rightarrow> Inl Bad_Access)
          else vsprintf_loop str p fmt (Suc i) args)
      else Inl Bad_Access)"
  by pat_completeness auto
termination
  by (relation "measure (\<lambda>(str, p, fmt, i, args). length fmt - i)") auto

declare vsprintf_loop.simps [simp del]

definition vsprintf :: "buf \<Rightarrow> nat \<Rightarrow> buf \<Rightarrow> nat \<Rightarrow> arg list \<Rightarrow> (nat \<times> buf) res" where
  "vsprintf str p fmt i ap =
     bindR (vsprintf_loop str p fmt i ap) (\<lambda>str1. bindR (strlen str1 p) (\<lambda>n. Inr (n, str1)))"

definition sprintf :: "buf \<Rightarrow> nat \<Rightarrow> buf \<Rightarrow> nat \<Rightarrow> arg list \<Rightarrow> (nat \<times> buf) res" where
  "sprintf buf p fmt i ap = vsprintf buf p fmt i ap"

text \<open>\<^verbatim>\<open>printf\<close> and \<^verbatim>\<open>printk\<close>: format into 1024 zero bytes; the result is what is written out.\<close>

definition printf_text :: "buf \<Rightarrow> nat \<Rightarrow> arg list \<Rightarrow> u8 list res" where
  "printf_text fmt i args =
     bindR (vsprintf (replicate 1024 0) 0 fmt i args) (\<lambda>(n, buf).
     bindR (strlen buf 0) (\<lambda>k. Inr (take k buf)))"

subsection \<open>Numbers\<close>

function digits :: "nat \<Rightarrow> nat \<Rightarrow> nat list" where
  "digits b n = (if b < 2 \<or> n < b then [n] else digits b (n div b) @ [n mod b])"
  by pat_completeness auto
termination
  by (relation "measure snd") auto

declare digits.simps [simp del]

definition num_text :: "nat \<Rightarrow> nat \<Rightarrow> u8 list" where
  "num_text b n = map digit_char (digits b n)"

text \<open>Reading a number back.\<close>

definition digit_val :: "u8 \<Rightarrow> nat" where
  "digit_val c = (if c < 58 then unat c - 48 else unat c - 55)"

definition num_read :: "nat \<Rightarrow> u8 list \<Rightarrow> nat" where
  "num_read b = foldl (\<lambda>a c. a * b + digit_val c) 0"

lemma digits_less: "2 \<le> b \<Longrightarrow> \<forall>d\<in>set (digits b n). d < b"
proof (induction b n rule: digits.induct)
  case (1 b n)
  then show ?case by (subst digits.simps) auto
qed

lemma digit_val_char: "d < 36 \<Longrightarrow> digit_val (digit_char d) = d"
proof -
  assume "d < 36"
  moreover have "list_all (\<lambda>d. digit_val (digit_char d) = d) [0..<36]" by code_simp
  ultimately show ?thesis by (simp only: list_all_iff atLeastLessThan_upt [symmetric]) simp
qed

lemma num_read_text:
  assumes "2 \<le> b" and "b \<le> 36"
  shows "num_read b (num_text b n) = n"
proof -
  have "foldl (\<lambda>a c. a * b + digit_val c) a (map digit_char ds) = foldl (\<lambda>a d. a * b + d) a ds"
    if "\<forall>d\<in>set ds. d < 36" for a ds
    using that by (induction ds arbitrary: a) (auto simp: digit_val_char)
  moreover have "\<forall>d\<in>set (digits b n). d < 36" using digits_less [OF assms(1), of n] assms(2) by auto
  moreover have "foldl (\<lambda>a d. a * b + d) 0 (digits b n) = n"
    using assms(1)
  proof (induction b n rule: digits.induct)
    case (1 b n)
    then show ?case by (subst digits.simps) auto
  qed
  ultimately show ?thesis by (simp add: num_read_def num_text_def)
qed

lemma num_text_no_zero:
  assumes "2 \<le> b" and "b \<le> 36"
  shows "0 \<notin> set (num_text b n)"
proof -
  have "list_all (\<lambda>d. digit_char d \<noteq> 0) [0..<36]" by code_simp
  then have "digit_char d \<noteq> 0" if "d < 36" for d
    using that by (simp only: list_all_iff atLeastLessThan_upt [symmetric]) simp
  moreover have "\<forall>d\<in>set (digits b n). d < 36" using digits_less [OF assms(1), of n] assms(2) by auto
  ultimately show ?thesis by (force simp: num_text_def)
qed

subsection \<open>Writing into a zero buffer\<close>

lemma update_end [simp]:
  "0 < k \<Longrightarrow> (out @ replicate k 0)[length out := c] = out @ c # replicate (k - Suc 0) 0"
  by (cases k) (simp_all add: list_update_append)

lemma update_end_app [simp]:
  "0 < k \<Longrightarrow> (out @ xs @ replicate k 0)[length out + length xs := c]
     = out @ xs @ c # replicate (k - Suc 0) 0"
  using update_end [of k "out @ xs" c] by simp

lemma itoa_text:
  assumes "2 \<le> base" and "length (num_text (unat base) (unat v)) \<le> k"
  shows "itoa v (out @ replicate k 0) (length out) base =
    Inr (out @ num_text (unat base) (unat v) @ replicate (k - length (num_text (unat base) (unat v))) 0,
         length out + length (num_text (unat base) (unat v)))"
  using assms
proof (induction v "out @ replicate k (0 :: u8)" "length out" base rule: itoa.induct)
  case (1 v base)
  let ?b = "unat base" and ?n = "unat v"
  have b: "2 \<le> ?b" using "1.prems"(1) by (simp add: word_le_nat_alt)
  then have c: "base \<noteq> 0" "base \<noteq> 1" by auto
  then have c2: "\<not> (base = 1 \<and> v \<noteq> 0)" by simp
  have m: "unat (v mod ucast base) = ?n mod ?b" "unat (v div ucast base) = ?n div ?b"
    by (simp_all add: unat_mod unat_div)
  have z: "v div ucast base = 0 \<longleftrightarrow> ?n < ?b"
  proof -
    have "v div ucast base = 0 \<longleftrightarrow> ?n div ?b = 0" using m(2) by (simp add: unat_eq_0 [symmetric])
    then show ?thesis using b by (auto simp: div_eq_0_iff)
  qed
  show ?case
  proof (cases "?n < ?b")
    case True
    then have t: "num_text ?b ?n = [digit_char (?n mod ?b)]" by (simp add: num_text_def digits.simps)
    then show ?thesis using True z c m(1) "1.prems"(2) by (subst itoa.simps) (simp add: Let_def)
  next
    case False
    then have t: "num_text ?b ?n = num_text ?b (?n div ?b) @ [digit_char (?n mod ?b)]"
      using b by (subst num_text_def, subst digits.simps) (simp add: num_text_def)
    let ?r = "num_text ?b (?n div ?b)"
    have "itoa (v div ucast base) (out @ replicate k 0) (length out) base =
        Inr (out @ ?r @ replicate (k - length ?r) 0, length out + length ?r)"
      using "1.hyps" [OF c(1) c2 refl refl] "1.prems" False z t m(2) by simp
    then show ?thesis
      using False z c m(1) "1.prems"(2) t by (subst itoa.simps) (simp add: Let_def)
  qed
qed

subsection \<open>What a format means\<close>

definition int_text :: "int \<Rightarrow> u8 list" where
  "int_text i = (if i < 0 then 45 # num_text 10 (nat (- i)) else num_text 10 (nat i))"

text \<open>The text of one argument for the conversion character \<open>d\<close>.\<close>

definition arg_text :: "u8 \<Rightarrow> arg \<Rightarrow> u8 list option" where
  "arg_text d a =
     (case a of
        AInt v \<Rightarrow> if d = 120 then Some (num_text 16 (unat v))
                  else if d = 100 then Some (int_text (sint v)) else None
      | AStr b q \<Rightarrow> if d = 115 then (case strlen b q of Inl e \<Rightarrow> None | Inr n \<Rightarrow> Some (take n (drop q b))) else None
      | AChar c \<Rightarrow> if d = 99 then Some [c] else None)"

text \<open>An unknown conversion character is output as it is, without its percent sign.\<close>

fun render :: "u8 list \<Rightarrow> arg list \<Rightarrow> u8 list option" where
  "render [] args = Some []"
| "render [c] args = Some (if c = 37 then [] else [c])"
| "render (c # d # f) args =
     (if c \<noteq> 37 then map_option ((#) c) (render (d # f) args)
      else if d = 120 \<or> d = 115 \<or> d = 100 \<or> d = 99 then
        (case args of
           [] \<Rightarrow> None
         | a # rest \<Rightarrow>
            (case arg_text d a of
               None \<Rightarrow> None
             | Some t \<Rightarrow> map_option ((@) t) (render f rest)))
      else render (d # f) args)"

lemma unat_minus_sint:
  fixes v :: u32
  assumes "sint v < 0"
  shows "unat (0 - v) = nat (- sint v)"
proof -
  have "uint (word_of_int (- sint v) :: u32) = (- sint v) mod 2 ^ 32"
    using uint_word_of_int [of "- sint v", where 'a = 32] by simp
  moreover have "word_of_int (- sint v) = - v" by simp
  moreover have "- sint v \<le> 2 ^ 31" using sint_ge [of v] by simp
  ultimately have "uint (- v) = - sint v" using assms by simp
  then show ?thesis by (simp add: unat_eq_nat_uint)
qed

lemma unat_sint:
  fixes v :: u32
  assumes "\<not> sint v < 0"
  shows "unat v = nat (sint v)"
proof -
  have "uint (word_of_int (sint v) :: u32) = sint v mod 2 ^ 32"
    using uint_word_of_int [of "sint v", where 'a = 32] by simp
  moreover have "sint v < 2 ^ 31" using sint_lt [of v] by simp
  ultimately have "uint v = sint v" using assms by simp
  then show ?thesis by (simp add: unat_eq_nat_uint)
qed

text \<open>One conversion of the format.\<close>

lemma itoa_text_16:
  "length (num_text 16 (unat v)) \<le> k \<Longrightarrow> itoa v (out @ replicate k 0) (length out) 16 =
    Inr (out @ num_text 16 (unat v) @ replicate (k - length (num_text 16 (unat v))) 0,
         length out + length (num_text 16 (unat v)))"
  using itoa_text [of 16 v k out] by simp

lemma itoa_text_10:
  "length (num_text 10 (unat v)) \<le> k \<Longrightarrow> itoa v (out @ replicate k 0) (length out) 10 =
    Inr (out @ num_text 10 (unat v) @ replicate (k - length (num_text 10 (unat v))) 0,
         length out + length (num_text 10 (unat v)))"
  using itoa_text [of 10 v k out] by simp

lemma put_end:
  "length s < k \<Longrightarrow> put (length out) (s @ [0]) (out @ replicate k 0) = out @ s @ replicate (k - length s) (0 :: u8)"
  by (simp add: put_def replicate_app_Cons_same [symmetric] Suc_diff_Suc [symmetric])

lemma strlen_string:
  "strlen b q = Inr n \<Longrightarrow> cstr b q (take n (drop q b)) \<and> n = length (take n (drop q b))"
proof (induction b q arbitrary: n rule: strlen.induct)
  case (1 b q)
  from "1.prems" have q: "q < length b" by (subst (asm) strlen.simps) (auto split: if_splits)
  show ?case
  proof (cases "b ! q = 0")
    case True
    then have "n = 0" using "1.prems" q by (subst (asm) strlen.simps) simp
    with True q show ?thesis by simp
  next
    case False
    then obtain m where m: "strlen b (Suc q) = Inr m" "n = Suc m"
      using "1.prems" q by (subst (asm) strlen.simps) (auto simp: res_elims)
    with "1.IH" [OF q False m(1)] q False show ?thesis
      by (simp add: Cons_nth_drop_Suc [symmetric])
  qed
qed

lemma vsprintf_conversion:
  assumes t: "arg_text d a = Some t" and k: "length t < k" and i: "Suc i < length fmt"
    and f: "fmt ! i = 37" "fmt ! Suc i = d"
  shows "vsprintf_loop (out @ replicate k 0) (length out) fmt i (a # rest) =
    vsprintf_loop ((out @ t) @ replicate (k - length t) 0) (length (out @ t)) fmt (i + 2) rest"
proof (cases a)
  case (AInt v)
  then consider "d = 120" "t = num_text 16 (unat v)" | "d = 100" "t = int_text (sint v)"
    using t by (auto simp: arg_text_def split: if_splits)
  then show ?thesis
  proof cases
    case 1
    then show ?thesis using AInt k i f itoa_text_16 [of v k out]
      by (subst vsprintf_loop.simps) simp
  next
    case 2
    show ?thesis
    proof (cases "sint v < 0")
      case True
      then have t': "t = 45 # num_text 10 (unat (0 - v))"
        using 2 unat_minus_sint [of v] by (simp add: int_text_def)
      have "itoa (0 - v) ((out @ [45]) @ replicate (k - 1) 0) (length (out @ [45])) 10 =
        Inr ((out @ t) @ replicate (k - length t) 0, length (out @ t))"
        using itoa_text_10 [of "0 - v" "k - 1" "out @ [45]"] k t' by simp
      then show ?thesis using AInt 2 k i f True t' by (subst vsprintf_loop.simps) simp
    next
      case False
      then have t': "t = num_text 10 (unat v)" using 2 unat_sint [of v] by (simp add: int_text_def)
      then show ?thesis using AInt 2 k i f False itoa_text_10 [of v k out]
        by (subst vsprintf_loop.simps) simp
    qed
  qed
next
  case (AStr b q)
  then obtain n where n: "strlen b q = Inr n" "t = take n (drop q b)" "d = 115"
    using t by (auto simp: arg_text_def split: if_splits sum.splits)
  have c: "cstr b q t" and l: "length t = n" using strlen_string [OF n(1)] n(2) by auto
  have "strcpy (out @ replicate k 0) (length out) b q = Inr (out @ t @ replicate (k - length t) 0)"
    using strcpy_cstr [OF c, of "length out" "out @ replicate k 0"] k put_end [OF k, of out] by simp
  then show ?thesis using AStr n i f l by (subst vsprintf_loop.simps) simp
next
  case (AChar c)
  then have "d = 99" "t = [c]" using t by (auto simp: arg_text_def split: if_splits)
  then show ?thesis using AChar k i f by (subst vsprintf_loop.simps) simp
qed

lemma vsprintf_plain:
  assumes "cstr fmt i (c # f)" and "c \<noteq> 37" and "0 < k"
  shows "vsprintf_loop (out @ replicate k 0) (length out) fmt i args =
    vsprintf_loop ((out @ [c]) @ replicate (k - 1) 0) (length (out @ [c])) fmt (Suc i) args"
  using assms by (subst vsprintf_loop.simps) auto

lemma vsprintf_loop_renders:
  assumes "cstr fmt i f" and "render f args = Some r" and "length r < k"
  shows "vsprintf_loop (out @ replicate k 0) (length out) fmt i args =
    Inr (out @ r @ replicate (k - length r) 0)"
  using assms
proof (induction f args arbitrary: i r k out rule: render.induct)
  case (1 args)
  then show ?case by (subst vsprintf_loop.simps) simp
next
  case (2 c args)
  then have c: "c \<noteq> 0" "i < length fmt" "fmt ! i = c" "Suc i < length fmt" "fmt ! Suc i = 0" by auto
  show ?case
  proof (cases "c = 37")
    case True
    have "vsprintf_loop (out @ replicate k 0) (length out) fmt (Suc i) args = Inr (out @ replicate k 0)"
      using c by (subst vsprintf_loop.simps) simp
    then show ?thesis using c True "2.prems"(2,3) by (subst vsprintf_loop.simps) auto
  next
    case False
    then have "vsprintf_loop ((out @ [c]) @ replicate (k - 1) 0) (length (out @ [c])) fmt (Suc i) args
        = Inr ((out @ [c]) @ replicate (k - 1) 0)"
      using c by (subst vsprintf_loop.simps) simp
    then show ?thesis using vsprintf_plain [OF "2.prems"(1) False] "2.prems"(2,3) False by auto
  qed
next
  case (3 c d f args)
  then have c: "c \<noteq> 0" "i < length fmt" "fmt ! i = c" "Suc i < length fmt" "fmt ! Suc i = d" "d \<noteq> 0"
    and rest: "cstr fmt (Suc i) (d # f)" "cstr fmt (i + 2) f" by auto
  consider (plain) "c \<noteq> 37" | (conv) "c = 37" "d = 120 \<or> d = 115 \<or> d = 100 \<or> d = 99"
    | (other) "c = 37" "\<not> (d = 120 \<or> d = 115 \<or> d = 100 \<or> d = 99)" by blast
  then show ?case
  proof cases
    case plain
    then obtain r' where r': "render (d # f) args = Some r'" "r = c # r'" using "3.prems"(2) by auto
    have "length r' < k - 1" using r' "3.prems"(3) by simp
    from "3.IH"(1) [OF plain rest(1) r'(1) this, of "out @ [c]"] show ?thesis
      using vsprintf_plain [OF "3.prems"(1) plain] r' "3.prems"(3) by auto
  next
    case conv
    then obtain a rs t r' where a: "args = a # rs" "arg_text d a = Some t" "render f rs = Some r'" "r = t @ r'"
      using "3.prems"(2) by (auto split: list.splits option.splits)
    have k: "length t < k" "length r' < k - length t" using a(4) "3.prems"(3) by auto
    have "vsprintf_loop ((out @ t) @ replicate (k - length t) 0) (length (out @ t)) fmt (i + 2) rs =
        Inr ((out @ t) @ r' @ replicate (k - length t - length r') 0)"
      using "3.IH"(2) [OF _ conv(2) a(1,2) rest(2) a(3) k(2), of "out @ t"] conv(1) by simp
    then show ?thesis
      using vsprintf_conversion [OF a(2) k(1) c(4) _ c(5), of out rs] conv(1) c(3) a(1,4) by simp
  next
    case other
    then have r: "render (d # f) args = Some r" using "3.prems"(2) by simp
    have "vsprintf_loop (out @ replicate k 0) (length out) fmt i args =
        vsprintf_loop (out @ replicate k 0) (length out) fmt (Suc i) args"
      using c other by (subst vsprintf_loop.simps) simp
    then show ?thesis using "3.IH"(3) [OF _ other(2) rest(1) r "3.prems"(3)] other(1) by simp
  qed
qed

lemma vsprintf_text:
  assumes "cstr fmt i f" and "render f args = Some r" and "0 \<notin> set r" and "length r < k"
  shows "vsprintf (out @ replicate k 0) (length out) fmt i args =
    Inr (length r, out @ r @ replicate (k - length r) 0)"
proof -
  have "cstr (out @ r @ replicate (k - length r) 0) (length out) r"
    by (rule cstrI) (use assms(3,4) in \<open>auto simp: nth_append\<close>)
  then show ?thesis
    using vsprintf_loop_renders [OF assms(1,2,4)] by (simp add: vsprintf_def strlen_cstr)
qed

text \<open>
  Formatted output: for a format and arguments that fit each other, \<^verbatim>\<open>vsprintf\<close> into a buffer whose
  rest is zero writes the text that the format means (numbers in hexadecimal and signed
  decimal, strings, characters; other percent signs dropped) and returns its length.
\<close>

theorem vsprintf_renders:
  assumes "cstr fmt i f" and "render f args = Some r" and "0 \<notin> set r" and "length r < k"
  shows "vsprintf (out @ replicate k 0) (length out) fmt i args =
    Inr (length r, out @ r @ replicate (k - length r) 0)"
  using assms by (rule vsprintf_text)

theorem vsprintf_renders_witness:
  "vsprintf (replicate 20 0) 0 [112, 37, 100, 32, 37, 120, 0] 0 [AInt (-42), AInt 0xbeef] =
    Inr (9, [112, 45, 52, 50, 32, 66, 69, 69, 70] @ replicate 11 0)"
proof -
  have "cstr [112, 37, 100, 32, 37, 120, 0] 0 [112, 37, 100, 32, 37, 120]" by simp
  moreover have "render [112, 37, 100, 32, 37, 120] [AInt (-42), AInt 0xbeef]
      = Some [112, 45, 52, 50, 32, 66, 69, 69, 70]"
    by (simp add: arg_text_def int_text_def num_text_def digits.simps digit_char_def)
  moreover have "0 \<notin> set [112, 45, 52, 50, 32, 66, 69, 69, 70 :: u8]"
    "length [112, 45, 52, 50, 32, 66, 69, 69, 70 :: u8] < 20" by simp_all
  ultimately have "vsprintf ([] @ replicate 20 0) (length ([] :: u8 list)) [112, 37, 100, 32, 37, 120, 0] 0
      [AInt (-42), AInt 0xbeef] = Inr (length [112, 45, 52, 50, 32, 66, 69, 69, 70 :: u8],
      [] @ [112, 45, 52, 50, 32, 66, 69, 69, 70] @ replicate (20 - length [112, 45, 52, 50, 32, 66, 69, 69, 70 :: u8]) 0)"
    by (rule vsprintf_renders)
  then show ?thesis by simp
qed

lemma length_digits: "2 \<le> b \<Longrightarrow> n < 2 ^ m \<Longrightarrow> 1 \<le> m \<Longrightarrow> length (digits b n) \<le> m"
proof (induction b n arbitrary: m rule: digits.induct)
  case (1 b n)
  show ?case
  proof (cases "n < b")
    case True
    then show ?thesis using "1.prems"(3) by (subst digits.simps) simp
  next
    case False
    then have m: "2 \<le> m" using "1.prems" by (cases m; cases "m - 1") auto
    have "n div b \<le> n div 2" using "1.prems"(1) by (simp add: div_le_mono2)
    also have "\<dots> < 2 ^ (m - 1)"
      using "1.prems"(2) m by (simp add: div_less_iff_less_mult power_eq_if [of 2 m])
    finally have "length (digits b (n div b)) \<le> m - 1"
      using "1.IH" "1.prems"(1) False m by auto
    then show ?thesis using False "1.prems"(1) m by (subst digits.simps) simp
  qed
qed

lemma print_one:
  assumes "render [37, c] [a] = Some r" and "c \<noteq> 0" and "0 \<notin> set r" and "length r < 1024"
  shows "printf_text [37, c, 0] 0 [a] = Inr r"
proof -
  have "cstr [37, c, 0] 0 [37, c]" using assms(2) by simp
  from vsprintf_text [OF this assms(1,3,4), of "[]"]
  have v: "vsprintf (replicate 1024 0) 0 [37, c, 0] 0 [a] = Inr (length r, r @ replicate (1024 - length r) 0)"
    by simp
  have "cstr (r @ replicate (1024 - length r) 0) 0 r"
    by (rule cstrI) (use assms(3,4) in \<open>auto simp: nth_append\<close>)
  then show ?thesis by (simp add: printf_text_def v strlen_cstr)
qed

text \<open>
  A number printed with \<^verbatim>\<open>printf("%x")\<close> or, when it is not negative, with \<^verbatim>\<open>printf("%d")\<close> reads back
  as that number, in base 16 and 10.
\<close>

theorem printed_number_reads_back:
  assumes "\<not> sint v < 0"
  shows "\<exists>h d. printf_text [37, 120, 0] 0 [AInt v] = Inr h \<and> num_read 16 h = unat v
    \<and> printf_text [37, 100, 0] 0 [AInt v] = Inr d \<and> num_read 10 d = unat v"
proof -
  have len: "length (num_text b (unat v)) < 1024" if "2 \<le> b" for b
    using length_digits [OF that unat_u32_lt [of v]] by (simp add: num_text_def)
  have "printf_text [37, 120, 0] 0 [AInt v] = Inr (num_text 16 (unat v))"
    by (rule print_one) (use len [of 16] num_text_no_zero [of 16] in \<open>simp_all add: arg_text_def\<close>)
  moreover have "printf_text [37, 100, 0] 0 [AInt v] = Inr (num_text 10 (unat v))"
    by (rule print_one)
      (use assms len [of 10] num_text_no_zero [of 10] unat_sint [of v] in \<open>simp_all add: arg_text_def int_text_def\<close>)
  ultimately show ?thesis using num_read_text by simp
qed

theorem printed_number_reads_back_witness:
  "\<exists>h. printf_text [37, 120, 0] 0 [AInt 0xcafe] = Inr h \<and> num_read 16 h = 0xcafe"
proof -
  have "\<not> sint (0xcafe :: u32) < 0" by simp
  from printed_number_reads_back [OF this] show ?thesis by auto
qed

end
