(* ===== verification/Disk.thy ===== *)
theory Disk
  imports Prelude Cstring Stdio Thread Sync
begin

section \<open>The disk driver (\<^verbatim>\<open>device/ide.c\<close>)\<close>

text \<open>
  The driver talks to an ATA controller through ports. The controller is hardware: the record \<open>ata\<close>
  holds the registers the driver writes, the status it reads, the contents of the two disks as
  functions from sector numbers to 512 bytes, and what they answer to the identify command; \<open>ata_lba\<close> and \<open>ata_count\<close> are how a controller reads
  its registers (a count of 0 means 256). The status register is one value: the one the driver sees
  once the command is done. A transfer is modelled with the interrupt of the controller arriving
  before \<^verbatim>\<open>sema_down\<close>, so the thread need not wait.

  \<open>read_secs\<close> and \<open>write_secs\<close> are what the driver means to do; the file system is modelled on them.
\<close>

subsection \<open>The controller\<close>

type_synonym disk = "u32 \<Rightarrow> buf"

record ata =
  r_cnt :: u8
  r_lba_l :: u8
  r_lba_m :: u8
  r_lba_h :: u8
  r_dev :: u8
  r_cmd :: u8
  r_status :: u8
  platter :: "bool \<Rightarrow> disk"
  ident :: "bool \<Rightarrow> buf"

text \<open>A write to the port at an offset from the channel's base.\<close>

definition ata_outb :: "u16 \<Rightarrow> u8 \<Rightarrow> ata \<Rightarrow> ata" where
  "ata_outb off v a =
     (if off = 2 then a\<lparr>r_cnt := v\<rparr>
      else if off = 3 then a\<lparr>r_lba_l := v\<rparr>
      else if off = 4 then a\<lparr>r_lba_m := v\<rparr>
      else if off = 5 then a\<lparr>r_lba_h := v\<rparr>
      else if off = 6 then a\<lparr>r_dev := v\<rparr>
      else if off = 7 then a\<lparr>r_cmd := v\<rparr>
      else a)"

definition ata_lba :: "ata \<Rightarrow> u32" where
  "ata_lba a = ucast (r_lba_l a) + ucast (r_lba_m a) * 0x100 + ucast (r_lba_h a) * 0x10000
     + (ucast (r_dev a) AND 0xf) * 0x1000000"

definition ata_count :: "ata \<Rightarrow> nat" where
  "ata_count a = (if r_cnt a = 0 then 256 else unat (r_cnt a))"

definition ata_slave :: "ata \<Rightarrow> bool" where
  "ata_slave a = (r_dev a AND 0x10 \<noteq> 0)"

definition read_secs :: "disk \<Rightarrow> u32 \<Rightarrow> nat \<Rightarrow> buf" where
  "read_secs d lba n = concat (map (\<lambda>i. d (lba + of_nat i)) [0..<n])"

primrec write_secs :: "nat \<Rightarrow> u32 \<Rightarrow> buf \<Rightarrow> disk \<Rightarrow> disk" where
  "write_secs 0 lba b d = d"
| "write_secs (Suc n) lba b d = write_secs n (lba + 1) (drop 512 b) (d(lba := take 512 b))"

subsection \<open>The driver\<close>

definition BIT_ALT_STAT_BSY :: u8 where "BIT_ALT_STAT_BSY = 0x80"
definition BIT_ALT_STAT_DRQ :: u8 where "BIT_ALT_STAT_DRQ = 0x8"
definition BIT_DEV_MBS :: u8 where "BIT_DEV_MBS = 0xa0"
definition BIT_DEV_LBA :: u8 where "BIT_DEV_LBA = 0x40"
definition BIT_DEV_DEV :: u8 where "BIT_DEV_DEV = 0x10"
definition CMD_IDENTIFY :: u8 where "CMD_IDENTIFY = 0xec"
definition CMD_READ_SECTOR :: u8 where "CMD_READ_SECTOR = 0x20"
definition CMD_WRITE_SECTOR :: u8 where "CMD_WRITE_SECTOR = 0x30"
definition max_lba :: u32 where "max_lba = 163839"

record ide_channel =
  ch_name :: buf
  port_base :: u16
  irq_no :: u8
  ch_lock :: lock
  expecting_intr :: bool
  disk_done :: semaphore
  ch_ata :: ata

definition outb :: "u16 \<Rightarrow> u8 \<Rightarrow> ide_channel \<Rightarrow> ide_channel" where
  "outb off v c = c\<lparr>ch_ata := ata_outb off v (ch_ata c)\<rparr>"

text \<open>The start of a channel in \<^verbatim>\<open>ide_init\<close>, from its number and its controller.\<close>

definition channel_init :: "nat \<Rightarrow> ata \<Rightarrow> ide_channel res" where
  "channel_init channel_no a =
     bindR (sprintf (replicate 8 0) 0 [105, 100, 101, 37, 100, 0] 0 [AInt (of_nat channel_no)]) (\<lambda>(n, nm).
     Inr \<lparr>ch_name = nm, port_base = (if channel_no = 0 then 0x1f0 else 0x170),
      irq_no = (if channel_no = 0 then 0x20 + 14 else 0x20 + 15), ch_lock = lock_init,
      expecting_intr = False, disk_done = sema_init 0, ch_ata = a\<rparr>)"

definition select_disk :: "u8 \<Rightarrow> ide_channel \<Rightarrow> ide_channel" where
  "select_disk dev_no c =
     outb 6 ((BIT_DEV_MBS OR BIT_DEV_LBA) OR (if dev_no = 1 then BIT_DEV_DEV else 0)) c"

text \<open>The arguments are cut to bytes as by the calls in C.\<close>

definition select_sector :: "u8 \<Rightarrow> u32 \<Rightarrow> u8 \<Rightarrow> ide_channel \<Rightarrow> ide_channel res" where
  "select_sector dev_no lba sec_cnt c =
     ASSERT (lba \<le> max_lba)
       (Inr (outb 6 (ucast (ucast (BIT_DEV_MBS OR BIT_DEV_LBA OR (if dev_no = 1 then BIT_DEV_DEV else 0)) OR drop_bit 24 lba))
         (outb 5 (ucast (drop_bit 16 lba))
         (outb 4 (ucast (drop_bit 8 lba))
         (outb 3 (ucast lba)
         (outb 2 sec_cnt c))))))"

definition cmd_out :: "u8 \<Rightarrow> ide_channel \<Rightarrow> ide_channel" where
  "cmd_out cmd c = outb 7 cmd (c\<lparr>expecting_intr := True\<rparr>)"

text \<open>What the controller has for the driver, and what it does with the driver's data.\<close>

definition ata_data :: "ata \<Rightarrow> buf" where
  "ata_data a =
     (if r_cmd a = CMD_IDENTIFY then ident a (ata_slave a)
      else read_secs (platter a (ata_slave a)) (ata_lba a) (ata_count a))"

definition ata_store :: "buf \<Rightarrow> ata \<Rightarrow> ata" where
  "ata_store b a = a\<lparr>platter := (platter a)(ata_slave a :=
     write_secs (ata_count a) (ata_lba a) b (platter a (ata_slave a)))\<rparr>"

definition sec_bytes :: "u8 \<Rightarrow> nat" where
  "sec_bytes sec_cnt = (if sec_cnt = 0 then 256 * 512 else unat sec_cnt * 512)"

definition read_from_sector :: "u8 \<Rightarrow> ide_channel \<Rightarrow> buf" where
  "read_from_sector sec_cnt c = take (2 * (sec_bytes sec_cnt div 2)) (ata_data (ch_ata c))"

definition write2sector :: "buf \<Rightarrow> u8 \<Rightarrow> ide_channel \<Rightarrow> ide_channel" where
  "write2sector b sec_cnt c = c\<lparr>ch_ata := ata_store (take (2 * (sec_bytes sec_cnt div 2)) b) (ch_ata c)\<rparr>"

text \<open>The loop condition of \<^verbatim>\<open>busy_wait\<close> is always true (its counter is unsigned); a busy disk is waited
  for in \<^verbatim>\<open>mtime_sleep\<close>.\<close>

definition busy_wait :: "ide_channel \<Rightarrow> 'a kernel_scheme \<Rightarrow> (bool \<times> 'a kernel_scheme) res" where
  "busy_wait c s =
     (if r_status (ch_ata c) AND BIT_ALT_STAT_BSY = 0
      then Inr (r_status (ch_ata c) AND BIT_ALT_STAT_DRQ \<noteq> 0, s)
      else bindR (mtime_sleep 10 s) (\<lambda>r. Inl Would_Block))"

definition intr_hd_handler :: "u8 \<Rightarrow> ide_channel \<Rightarrow> 'a kernel_scheme \<Rightarrow> (ide_channel \<times> 'a kernel_scheme) res" where
  "intr_hd_handler irq c s =
     ASSERT (irq = 0x2e \<or> irq = 0x2f)
       (ASSERT (irq_no c = irq)
         (if expecting_intr c then
            bindR (sema_up (disk_done c) s) (\<lambda>(m, s'). Inr (c\<lparr>expecting_intr := False, disk_done := m\<rparr>, s'))
          else Inr (c, s)))"

definition wait_done :: "ide_channel \<Rightarrow> 'a kernel_scheme \<Rightarrow> (ide_channel \<times> 'a kernel_scheme) res" where
  "wait_done c s = bindR (sema_down (disk_done c) s) (\<lambda>(m, s'). Inr (c\<lparr>disk_done := m\<rparr>, s'))"

text \<open>One round of the loops of \<^verbatim>\<open>ide_read\<close> and \<^verbatim>\<open>ide_write\<close>.\<close>

definition read_round :: "u8 \<Rightarrow> u32 \<Rightarrow> nat \<Rightarrow> ide_channel \<Rightarrow> 'a kernel_scheme \<Rightarrow> (buf \<times> ide_channel \<times> 'a kernel_scheme) res" where
  "read_round dev_no lba secs_op c s =
     bindR (select_sector dev_no lba (of_nat secs_op) c) (\<lambda>c1.
     bindR (intr_hd_handler (irq_no c1) (cmd_out CMD_READ_SECTOR c1) s) (\<lambda>(c2, s1).
     bindR (wait_done c2 s1) (\<lambda>(c3, s2).
     bindR (busy_wait c3 s2) (\<lambda>(ready, s3).
     ASSERT ready (Inr (read_from_sector (of_nat secs_op) c3, c3, s3))))))"

definition write_round :: "u8 \<Rightarrow> u32 \<Rightarrow> nat \<Rightarrow> buf \<Rightarrow> ide_channel \<Rightarrow> 'a kernel_scheme \<Rightarrow> (ide_channel \<times> 'a kernel_scheme) res" where
  "write_round dev_no lba secs_op b c s =
     bindR (select_sector dev_no lba (of_nat secs_op) c) (\<lambda>c1.
     let c2 = cmd_out CMD_WRITE_SECTOR c1 in
     bindR (busy_wait c2 s) (\<lambda>(ready, s1).
     ASSERT ready
       (bindR (intr_hd_handler (irq_no c2) (write2sector b (of_nat secs_op) c2) s1) (\<lambda>(c3, s2).
        wait_done c3 s2))))"

function read_loop :: "u8 \<Rightarrow> u32 \<Rightarrow> nat \<Rightarrow> nat \<Rightarrow> ide_channel \<Rightarrow> 'a kernel_scheme \<Rightarrow> (buf \<times> ide_channel \<times> 'a kernel_scheme) res" where
  "read_loop dev_no lba sec_cnt secs_done c s =
     (if secs_done < sec_cnt then
        (let secs_op = (if secs_done + 256 \<le> sec_cnt then 256 else sec_cnt - secs_done) in
         bindR (read_round dev_no (lba + of_nat secs_done) secs_op c s) (\<lambda>(b, c1, s1).
         bindR (read_loop dev_no lba sec_cnt (secs_done + secs_op) c1 s1) (\<lambda>(b', c2, s2).
         Inr (b @ b', c2, s2))))
      else Inr ([], c, s))"
  by pat_completeness auto
termination
  by (relation "measure (\<lambda>(dev_no, lba, sec_cnt, secs_done, c, s). sec_cnt - secs_done)") auto

function write_loop :: "u8 \<Rightarrow> u32 \<Rightarrow> nat \<Rightarrow> nat \<Rightarrow> buf \<Rightarrow> ide_channel \<Rightarrow> 'a kernel_scheme \<Rightarrow> (ide_channel \<times> 'a kernel_scheme) res" where
  "write_loop dev_no lba sec_cnt secs_done b c s =
     (if secs_done < sec_cnt then
        (let secs_op = (if secs_done + 256 \<le> sec_cnt then 256 else sec_cnt - secs_done) in
         bindR (write_round dev_no (lba + of_nat secs_done) secs_op (drop (secs_done * 512) b) c s) (\<lambda>(c1, s1).
         write_loop dev_no lba sec_cnt (secs_done + secs_op) b c1 s1))
      else Inr (c, s))"
  by pat_completeness auto
termination
  by (relation "measure (\<lambda>(dev_no, lba, sec_cnt, secs_done, b, c, s). sec_cnt - secs_done)") auto

declare read_loop.simps [simp del] write_loop.simps [simp del]

definition acquire_channel :: "ide_channel \<Rightarrow> 'a kernel_scheme \<Rightarrow> (ide_channel \<times> 'a kernel_scheme) res" where
  "acquire_channel c s = bindR (lock_acquire (ch_lock c) s) (\<lambda>(l, s'). Inr (c\<lparr>ch_lock := l\<rparr>, s'))"

definition release_channel :: "ide_channel \<Rightarrow> 'a kernel_scheme \<Rightarrow> (ide_channel \<times> 'a kernel_scheme) res" where
  "release_channel c s = bindR (lock_release (ch_lock c) s) (\<lambda>(l, s'). Inr (c\<lparr>ch_lock := l\<rparr>, s'))"

definition ide_read :: "u8 \<Rightarrow> u32 \<Rightarrow> u32 \<Rightarrow> ide_channel \<Rightarrow> 'a kernel_scheme \<Rightarrow> (buf \<times> ide_channel \<times> 'a kernel_scheme) res" where
  "ide_read dev_no lba sec_cnt c s =
     ASSERT (lba \<le> max_lba) (ASSERT (sec_cnt > 0)
       (bindR (acquire_channel c s) (\<lambda>(c1, s1).
        bindR (read_loop dev_no lba (unat sec_cnt) 0 (select_disk dev_no c1) s1) (\<lambda>(b, c2, s2).
        bindR (release_channel c2 s2) (\<lambda>(c3, s3). Inr (b, c3, s3))))))"

definition ide_write :: "u8 \<Rightarrow> u32 \<Rightarrow> buf \<Rightarrow> u32 \<Rightarrow> ide_channel \<Rightarrow> 'a kernel_scheme \<Rightarrow> (ide_channel \<times> 'a kernel_scheme) res" where
  "ide_write dev_no lba b sec_cnt c s =
     ASSERT (lba \<le> max_lba) (ASSERT (sec_cnt > 0)
       (bindR (acquire_channel c s) (\<lambda>(c1, s1).
        bindR (write_loop dev_no lba (unat sec_cnt) 0 b (select_disk dev_no c1) s1) (\<lambda>(c2, s2).
        release_channel c2 s2))))"

subsection \<open>What the drives hold\<close>

text \<open>\<^verbatim>\<open>identify_disk\<close> prints three things it reads: the serial number, the model and the number of
  sectors.\<close>

function swap_pairs_bytes :: "buf \<Rightarrow> nat \<Rightarrow> buf \<Rightarrow> nat \<Rightarrow> nat \<Rightarrow> buf res" where
  "swap_pairs_bytes src d b idx len =
     (if idx < len then
        bindR (rd src d) (\<lambda>x. bindR (wr b (idx + 1) x) (\<lambda>b1.
        bindR (rd src (d + 1)) (\<lambda>y. bindR (wr b1 idx y) (\<lambda>b2.
        swap_pairs_bytes src (d + 2) b2 (idx + 2) len))))
      else wr b idx 0)"
  by pat_completeness auto
termination
  by (relation "measure (\<lambda>(src, d, b, idx, len). len - idx)") auto

definition le32 :: "buf \<Rightarrow> nat \<Rightarrow> u32 res" where
  "le32 b i = (if i + 4 \<le> length b then
     Inr (ucast (b ! i) + ucast (b ! (i + 1)) * 0x100 + ucast (b ! (i + 2)) * 0x10000 + ucast (b ! (i + 3)) * 0x1000000)
   else Inl Bad_Access)"

definition identify_disk :: "u8 \<Rightarrow> ide_channel \<Rightarrow> 'a kernel_scheme \<Rightarrow> ((buf \<times> buf \<times> u32) \<times> ide_channel \<times> 'a kernel_scheme) res" where
  "identify_disk dev_no c s =
     bindR (intr_hd_handler (irq_no c) (cmd_out CMD_IDENTIFY (select_disk dev_no c)) s) (\<lambda>(c1, s1).
     bindR (wait_done c1 s1) (\<lambda>(c2, s2).
     bindR (busy_wait c2 s2) (\<lambda>(ready, s3).
     ASSERT ready
       (let id_info = read_from_sector 1 c2 in
        bindR (swap_pairs_bytes id_info 20 (replicate 64 0) 0 20) (\<lambda>sn.
        bindR (swap_pairs_bytes id_info 54 (replicate 64 0) 0 40) (\<lambda>md.
        bindR (le32 id_info 120) (\<lambda>sectors.
        Inr ((sn, md, sectors), c2, s3)))))))) "

subsection \<open>Partitions\<close>

record partition_ent =
  pe_start_lba :: u32
  pe_sec_cnt :: u32
  pe_name :: buf

text \<open>The variables of \<^verbatim>\<open>partition_scan\<close>: three globals, the two arrays of the disk, and the list of all
  partitions, of which a member is named by the disk, the array it is in and its place there.\<close>

datatype part_tag = Prim u8 nat | Logic u8 nat

record part_scan =
  ext_lba_base :: u32
  p_no :: u8
  l_no :: u8
  prim_parts :: "partition_ent list"
  logic_parts :: "partition_ent list"
  partition_list :: "part_tag list"

definition part_name :: "buf \<Rightarrow> u32 \<Rightarrow> buf res" where
  "part_name hd_name n =
     bindR (sprintf (replicate 8 0) 0 [37, 115, 37, 100, 0] 0 [AStr hd_name 0, AInt n]) (\<lambda>(k, nm). Inr nm)"

text \<open>The entries of the partition table of a boot sector: type, first sector, number of sectors.\<close>

definition table_entry :: "buf \<Rightarrow> nat \<Rightarrow> (u8 \<times> u32 \<times> u32) res" where
  "table_entry bs i =
     bindR (rd bs (446 + 16 * i + 4)) (\<lambda>fs_type.
     bindR (le32 bs (446 + 16 * i + 8)) (\<lambda>start_lba.
     bindR (le32 bs (446 + 16 * i + 12)) (\<lambda>sec_cnt. Inr (fs_type, start_lba, sec_cnt))))"

definition add_prim :: "u8 \<Rightarrow> buf \<Rightarrow> u32 \<Rightarrow> u32 \<Rightarrow> part_scan \<Rightarrow> part_scan res" where
  "add_prim hd_no hd_name lba cnt g =
     bindR (part_name hd_name (ucast (p_no g) + 1)) (\<lambda>nm.
     bindR (wr (prim_parts g) (unat (p_no g)) \<lparr>pe_start_lba = lba, pe_sec_cnt = cnt, pe_name = nm\<rparr>) (\<lambda>ps.
     ASSERT (p_no g + 1 < 4)
       (Inr (g\<lparr>prim_parts := ps, partition_list := partition_list g @ [Prim hd_no (unat (p_no g))],
               p_no := p_no g + 1\<rparr>))))"

definition add_logic :: "u8 \<Rightarrow> buf \<Rightarrow> u32 \<Rightarrow> u32 \<Rightarrow> part_scan \<Rightarrow> part_scan res" where
  "add_logic hd_no hd_name lba cnt g =
     bindR (part_name hd_name (ucast (l_no g) + 5)) (\<lambda>nm.
     bindR (wr (logic_parts g) (unat (l_no g)) \<lparr>pe_start_lba = lba, pe_sec_cnt = cnt, pe_name = nm\<rparr>) (\<lambda>ps.
     Inr (g\<lparr>logic_parts := ps, partition_list := partition_list g @ [Logic hd_no (unat (l_no g))],
            l_no := l_no g + 1\<rparr>)))"

text \<open>\<^verbatim>\<open>partition_scan\<close>: the first argument bounds the depth of the recursion, which on a disk whose
  extended partitions form a cycle has no end. The loop over the four entries is \<open>scan_from\<close>.\<close>

definition scan_entry :: "(u32 \<Rightarrow> part_scan \<Rightarrow> part_scan res) \<Rightarrow> u8 \<Rightarrow> buf \<Rightarrow> u32 \<Rightarrow> (u8 \<times> u32 \<times> u32) \<Rightarrow> part_scan \<Rightarrow> (bool \<times> part_scan) res" where
  "scan_entry sub hd_no hd_name ext_lba e g =
     (case e of (fs_type, start, cnt) \<Rightarrow>
      if fs_type = 5 then
        (if ext_lba_base g \<noteq> 0 then bindR (sub (start + ext_lba_base g) g) (\<lambda>g1. Inr (False, g1))
         else bindR (sub start (g\<lparr>ext_lba_base := start\<rparr>)) (\<lambda>g1. Inr (False, g1)))
      else if fs_type \<noteq> 0 then
        (if ext_lba = 0 then bindR (add_prim hd_no hd_name (ext_lba + start) cnt g) (\<lambda>g1. Inr (False, g1))
         else bindR (add_logic hd_no hd_name (ext_lba + start) cnt g) (\<lambda>g1. Inr (l_no g1 \<ge> 8, g1)))
      else Inr (False, g))"

fun scan_from :: "(u32 \<Rightarrow> part_scan \<Rightarrow> part_scan res) \<Rightarrow> u8 \<Rightarrow> buf \<Rightarrow> u32 \<Rightarrow> buf \<Rightarrow> nat list \<Rightarrow> part_scan \<Rightarrow> part_scan res" where
  "scan_from sub hd_no hd_name ext_lba bs [] g = Inr g"
| "scan_from sub hd_no hd_name ext_lba bs (i # is) g =
     bindR (table_entry bs i) (\<lambda>e.
     bindR (scan_entry sub hd_no hd_name ext_lba e g) (\<lambda>(full, g1).
     if full then Inr g1 else scan_from sub hd_no hd_name ext_lba bs is g1))"

primrec partition_scan :: "nat \<Rightarrow> disk \<Rightarrow> u8 \<Rightarrow> buf \<Rightarrow> u32 \<Rightarrow> part_scan \<Rightarrow> part_scan res" where
  "partition_scan 0 d hd_no hd_name ext_lba g = Inl Diverge"
| "partition_scan (Suc n) d hd_no hd_name ext_lba g =
     scan_from (partition_scan n d hd_no hd_name) hd_no hd_name ext_lba (read_secs d ext_lba 1) [0, 1, 2, 3] g"

text \<open>The loop over the drives of a channel in \<^verbatim>\<open>ide_init\<close>: each has a name and is identified; the second
  of a channel is scanned for partitions (its arrays are empty then), the first is the one the
  kernel was started from. The numbers of the next drive start again at 0, \<^verbatim>\<open>ext_lba_base\<close> does not.\<close>

definition no_parts :: partition_ent where
  "no_parts = \<lparr>pe_start_lba = 0, pe_sec_cnt = 0, pe_name = replicate 8 0\<rparr>"

definition init_device :: "nat \<Rightarrow> u8 \<Rightarrow> u8 \<Rightarrow> ide_channel \<Rightarrow> 'a kernel_scheme \<Rightarrow> part_scan \<Rightarrow> (buf \<times> ide_channel \<times> 'a kernel_scheme \<times> part_scan) res" where
  "init_device n channel_no dev_no c s g0 =
     (let g = g0\<lparr>prim_parts := replicate 4 no_parts, logic_parts := replicate 8 no_parts\<rparr> in
      bindR (sprintf (replicate 8 0) 0 [115, 100, 37, 99, 0] 0 [AChar (97 + channel_no * 2 + dev_no)]) (\<lambda>(k, nm).
      bindR (identify_disk dev_no c s) (\<lambda>(info, c1, s1).
      bindR (if dev_no \<noteq> 0 then partition_scan n (platter (ch_ata c1) (dev_no = 1)) (channel_no * 2 + dev_no) nm 0 g
             else Inr g) (\<lambda>g1.
      Inr (nm, c1, s1, g1\<lparr>p_no := 0, l_no := 0\<rparr>)))))"

subsection \<open>Sectors\<close>

definition disk_ok :: "disk \<Rightarrow> bool" where
  "disk_ok d \<longleftrightarrow> (\<forall>l. length (d l) = 512)"

lemma read_secs_0 [simp]: "read_secs d l 0 = []"
  by (simp add: read_secs_def)

lemma read_secs_Suc: "read_secs d l (Suc n) = d l @ read_secs d (l + 1) n"
proof -
  have "map (\<lambda>i. d (l + of_nat i)) [0..<Suc n] = d l # map (\<lambda>i. d (l + of_nat (Suc i))) [0..<n]"
    by (simp add: upt_conv_Cons map_Suc_upt [symmetric] del: upt_Suc)
  then show ?thesis by (simp add: read_secs_def ac_simps)
qed

lemma read_secs_1 [simp]: "read_secs d l (Suc 0) = d l"
  by (simp add: read_secs_Suc)

lemma read_secs_add: "read_secs d l (m + n) = read_secs d l m @ read_secs d (l + of_nat m) n"
  by (induction m arbitrary: l) (simp_all add: read_secs_Suc ac_simps)

lemma length_read_secs: "disk_ok d \<Longrightarrow> length (read_secs d l n) = 512 * n"
  by (induction n arbitrary: l) (simp_all add: read_secs_Suc disk_ok_def)

lemma write_secs_add:
  "write_secs (m + n) l b d = write_secs n (l + of_nat m) (drop (512 * m) b) (write_secs m l b d)"
  by (induction m arbitrary: l b d) (simp_all add: ac_simps)

lemma write_secs_take: "512 * n \<le> k \<Longrightarrow> write_secs n l (take k b) d = write_secs n l b d"
  by (induction n arbitrary: l b d k) (simp_all add: drop_take)

lemma write_secs_ok: "disk_ok d \<Longrightarrow> 512 * n \<le> length b \<Longrightarrow> disk_ok (write_secs n l b d)"
  by (induction n arbitrary: l b d) (simp_all add: disk_ok_def)

lemma write_secs_other:
  "unat l + n \<le> 2 ^ 32 \<Longrightarrow> unat x < unat l \<or> unat l + n \<le> unat x \<Longrightarrow> write_secs n l b d x = d x"
proof (induction n arbitrary: l b d)
  case (Suc n)
  show ?case
  proof (cases n)
    case 0
    then show ?thesis using Suc.prems(2) by auto
  next
    case (Suc m)
    have u: "unat (l + 1) = unat l + 1" using Suc.prems(1) Suc by (intro u32_plus_1 [of _ "2 ^ 32 - 1"]) auto
    have x: "x \<noteq> l" using Suc.prems(2) by auto
    have "write_secs n (l + 1) (drop 512 b) (d(l := take 512 b)) x = (d(l := take 512 b)) x"
      by (rule Suc.IH) (use Suc.prems u in auto)
    then show ?thesis using x by simp
  qed
qed simp

lemma read_write_secs:
  assumes "unat l + n \<le> 2 ^ 32" and "512 * n \<le> length b"
  shows "read_secs (write_secs n l b d) l n = take (512 * n) b"
  using assms
proof (induction n arbitrary: l b d)
  case (Suc n)
  show ?case
  proof (cases n)
    case 0
    then show ?thesis by simp
  next
    case (Suc m)
    have u: "unat (l + 1) = unat l + 1" using Suc.prems(1) Suc by (intro u32_plus_1 [of _ "2 ^ 32 - 1"]) auto
    have h: "write_secs n (l + 1) (drop 512 b) (d(l := take 512 b)) l = take 512 b"
      using write_secs_other [of "l + 1" n l] u Suc.prems(1) by simp
    have e: "read_secs (write_secs n (l + 1) (drop 512 b) (d(l := take 512 b))) (l + 1) n = take (512 * n) (drop 512 b)"
      using Suc.IH [of "l + 1" "drop 512 b"] u Suc.prems by simp
    have "take (512 + 512 * n) b = take 512 b @ take (512 * n) (drop 512 b)"
      by (rule take_add)
    then show ?thesis by (simp add: read_secs_Suc h e)
  qed
qed simp

subsection \<open>What the controller is told\<close>

lemma u32_bytes:
  fixes l :: u32
  assumes "unat l < 2 ^ 24"
  shows "ucast (ucast l :: u8) + ucast (ucast (drop_bit 8 l) :: u8) * 0x100
     + ucast (ucast (drop_bit 16 l) :: u8) * 0x10000 = l"
proof -
  have b: "unat (ucast (drop_bit k l) :: u8) = unat l div 2 ^ k mod 256" for k
    by (simp add: unsigned_ucast_eq unat_drop_bit_eq take_bit_eq_mod) (simp add: drop_bit_eq_div)
  have b0: "unat (ucast l :: u8) = unat l mod 256" using b [of 0] by simp
  define x y z :: u32 where d: "x = ucast (ucast l :: u8)" "y = ucast (ucast (drop_bit 8 l) :: u8)"
    "z = ucast (ucast (drop_bit 16 l) :: u8)"
  have u: "unat x = unat l mod 256" "unat y = unat l div 256 mod 256" "unat z = unat l div 65536 mod 256"
    using b0 b [of 8] b [of 16] by (simp_all add: d)
  have z: "unat l div 65536 mod 256 = unat l div 65536" using assms by simp
  have s: "m mod 256 + m div 256 mod 256 * 256 + m div 65536 * 65536 = m" for m :: nat
  proof -
    have "m div 65536 = m div 256 div 256" by (simp add: div_mult2_eq [symmetric])
    then show ?thesis using div_mult_mod_eq [of m 256] div_mult_mod_eq [of "m div 256" 256] by linarith
  qed
  have b: "unat y < 256" "unat z < 256" "unat x < 256" by (simp_all add: u)
  have m: "unat (y * 0x100) = unat y * 256" "unat (z * 0x10000) = unat z * 65536"
    using b unat_mult_small [of y "0x100"] unat_mult_small [of z "0x10000"] by simp_all
  have t: "unat x + unat y * 256 + unat z * 65536 = unat l" using s [of "unat l"] z u by simp
  then have a: "unat (x + y * 0x100) = unat x + unat y * 256"
    using unat_u32_lt [of l] unat_add_small [of x "y * 0x100"] m by simp
  then have "unat (x + y * 0x100 + z * 0x10000) = unat l"
    using unat_u32_lt [of l] unat_add_small [of "x + y * 0x100" "z * 0x10000"] m t by simp
  then show ?thesis unfolding d [symmetric] word_unat_eq_iff .
qed

lemma high_byte_0:
  fixes l :: u32
  assumes "unat l < 2 ^ 24"
  shows "drop_bit 24 l = 0"
  using assms by (metis div_less unat_drop_bit_eq drop_bit_eq_div unat_eq_0)

text \<open>After \<^verbatim>\<open>select_sector\<close> the controller has the disk, the sector and the number of sectors the
  driver means, 256 being sent as 0.\<close>

lemma select_sector_ok:
  assumes "lba \<le> max_lba" and "0 < n" "n \<le> 256"
  obtains c1 where "select_sector dev_no lba (of_nat n) c = Inr c1"
    and "ata_lba (ch_ata c1) = lba" and "ata_count (ch_ata c1) = n"
    and "ata_slave (ch_ata c1) = (dev_no = 1)"
    and "platter (ch_ata c1) = platter (ch_ata c)" "r_status (ch_ata c1) = r_status (ch_ata c)"
    and "irq_no c1 = irq_no c" "disk_done c1 = disk_done c" "ch_lock c1 = ch_lock c"
    and "ident (ch_ata c1) = ident (ch_ata c)" "port_base c1 = port_base c" "ch_name c1 = ch_name c"
proof -
  have l: "unat lba < 2 ^ 24" using assms(1) by (simp add: max_lba_def word_le_nat_alt)
  have h: "drop_bit 24 lba = 0" by (rule high_byte_0 [OF l])
  have cnt: "n = 256 \<or> n < 256" using assms(3) by auto
  have un: "unat (of_nat n :: u8) = n mod 256" by (simp add: unat_of_nat)
  show thesis
  proof (rule that)
    show "select_sector dev_no lba (of_nat n) c = Inr (outb 6 (ucast (ucast (BIT_DEV_MBS OR BIT_DEV_LBA OR (if dev_no = 1 then BIT_DEV_DEV else 0)) OR drop_bit 24 lba))
         (outb 5 (ucast (drop_bit 16 lba)) (outb 4 (ucast (drop_bit 8 lba)) (outb 3 (ucast lba) (outb 2 (of_nat n) c)))))"
      (is "_ = Inr ?c") using assms(1) by (simp add: select_sector_def)
    have d: "r_dev (ch_ata ?c) = (if dev_no = 1 then 0xf0 else 0xe0)"
      by (simp add: outb_def ata_outb_def h BIT_DEV_MBS_def BIT_DEV_LBA_def BIT_DEV_DEV_def)
    have r: "r_lba_l (ch_ata ?c) = ucast lba" "r_lba_m (ch_ata ?c) = ucast (drop_bit 8 lba)"
      "r_lba_h (ch_ata ?c) = ucast (drop_bit 16 lba)" "r_cnt (ch_ata ?c) = of_nat n"
      by (simp_all add: outb_def ata_outb_def)
    show "ata_lba (ch_ata ?c) = lba" using u32_bytes [OF l] by (simp add: ata_lba_def d r)
    show "ata_count (ch_ata ?c) = n" using cnt assms(2) un unat_eq_0 [of "of_nat n :: u8"] by (auto simp: ata_count_def r)
    show "ata_slave (ch_ata ?c) = (dev_no = 1)" by (simp add: ata_slave_def d)
  qed (simp_all add: outb_def ata_outb_def)
qed
subsection \<open>The rounds and the loops\<close>

text \<open>A channel nobody uses, whose controller answers: idle semaphore, no lock, its interrupt number,
  and the status of a drive that is done and has data.\<close>

definition drive_ready :: "ata \<Rightarrow> bool" where
  "drive_ready a \<longleftrightarrow> r_status a AND BIT_ALT_STAT_BSY = 0 \<and> r_status a AND BIT_ALT_STAT_DRQ \<noteq> 0"

definition channel_idle :: "ide_channel \<Rightarrow> bool" where
  "channel_idle c \<longleftrightarrow> disk_done c = sema_init 0 \<and> (irq_no c = 0x2e \<or> irq_no c = 0x2f)
     \<and> drive_ready (ch_ata c)"

definition same_channel :: "ide_channel \<Rightarrow> ide_channel \<Rightarrow> bool" where
  "same_channel c c' \<longleftrightarrow> ch_lock c' = ch_lock c \<and> ident (ch_ata c') = ident (ch_ata c)
     \<and> irq_no c' = irq_no c \<and> port_base c' = port_base c \<and> ch_name c' = ch_name c"

lemma same_channel_trans: "same_channel c c' \<Longrightarrow> same_channel c' c'' \<Longrightarrow> same_channel c c''"
  by (simp add: same_channel_def)

lemma sema_up_idle [simp]: "sema_up (sema_init 0) s = Inr (sema_init 1, s)"
proof -
  have bk: "snd (intr_set_status (fst (intr_disable (eflags s))) (snd (intr_disable (eflags s)))) = eflags s"
    using intr_bracket by blast
  show ?thesis by (simp add: sema_up_def sema_init_def Let_def split_beta bk)
qed

lemma sema_down_once [simp]: "sema_down (sema_init 1) s = Inr (sema_init 0, s)"
proof -
  have bk: "snd (intr_set_status (fst (intr_disable (eflags s))) (snd (intr_disable (eflags s)))) = eflags s"
    using intr_bracket by blast
  show ?thesis by (simp add: sema_down_def sema_down_pass_def sema_init_def Let_def split_beta bk)
qed

lemma hd_interrupt [simp]:
  "disk_done c = sema_init 0 \<Longrightarrow> irq_no c = 0x2e \<or> irq_no c = 0x2f \<Longrightarrow> expecting_intr c \<Longrightarrow>
   bindR (intr_hd_handler (irq_no c) c s) (\<lambda>(c2, s1). wait_done c2 s1)
   = Inr (c\<lparr>expecting_intr := False\<rparr>, s)"
  by (auto simp: intr_hd_handler_def wait_done_def)

lemma busy_wait_ready [simp]: "drive_ready (ch_ata c) \<Longrightarrow> busy_wait c s = Inr (True, s)"
  by (simp add: busy_wait_def drive_ready_def)

lemma cmd_out_regs [simp]:
  "ata_lba (ch_ata (cmd_out k c)) = ata_lba (ch_ata c)" "ata_count (ch_ata (cmd_out k c)) = ata_count (ch_ata c)"
  "ata_slave (ch_ata (cmd_out k c)) = ata_slave (ch_ata c)" "platter (ch_ata (cmd_out k c)) = platter (ch_ata c)"
  "r_status (ch_ata (cmd_out k c)) = r_status (ch_ata c)" "r_cmd (ch_ata (cmd_out k c)) = k"
  "irq_no (cmd_out k c) = irq_no c" "disk_done (cmd_out k c) = disk_done c" "ch_lock (cmd_out k c) = ch_lock c"
  "ident (ch_ata (cmd_out k c)) = ident (ch_ata c)" "port_base (cmd_out k c) = port_base c"
  "ch_name (cmd_out k c) = ch_name c" "expecting_intr (cmd_out k c)"
  by (simp_all add: cmd_out_def outb_def ata_outb_def ata_lba_def ata_count_def ata_slave_def)

lemma read_round_ok:
  assumes "lba \<le> max_lba" and "0 < n" "n \<le> 256" and c: "channel_idle c"
    and d: "disk_ok (platter (ch_ata c) (dev_no = 1))"
  obtains c' where "read_round dev_no lba n c s = Inr (read_secs (platter (ch_ata c) (dev_no = 1)) lba n, c', s)"
    and "channel_idle c'" "same_channel c c'" "platter (ch_ata c') = platter (ch_ata c)"
proof -
  note cc = c [unfolded channel_idle_def]
  obtain c1 where c1: "select_sector dev_no lba (of_nat n) c = Inr c1"
    "ata_lba (ch_ata c1) = lba" "ata_count (ch_ata c1) = n" "ata_slave (ch_ata c1) = (dev_no = 1)"
    "platter (ch_ata c1) = platter (ch_ata c)" "r_status (ch_ata c1) = r_status (ch_ata c)"
    "irq_no c1 = irq_no c" "disk_done c1 = disk_done c" "ch_lock c1 = ch_lock c"
    "ident (ch_ata c1) = ident (ch_ata c)" "port_base c1 = port_base c" "ch_name c1 = ch_name c"
    by (rule select_sector_ok [OF assms(1-3)])
  let ?c2 = "cmd_out CMD_READ_SECTOR c1"
  have f: "ata_lba (ch_ata ?c2) = lba" "ata_count (ch_ata ?c2) = n" "ata_slave (ch_ata ?c2) = (dev_no = 1)"
    "platter (ch_ata ?c2) = platter (ch_ata c)" "r_status (ch_ata ?c2) = r_status (ch_ata c)"
    "r_cmd (ch_ata ?c2) = 0x20" "irq_no ?c2 = irq_no c" "disk_done ?c2 = disk_done c" "ch_lock ?c2 = ch_lock c"
    "ident (ch_ata ?c2) = ident (ch_ata c)" "port_base ?c2 = port_base c" "ch_name ?c2 = ch_name c" "expecting_intr ?c2"
    using c1 by (simp_all add: CMD_READ_SECTOR_def)
  let ?c3 = "?c2\<lparr>expecting_intr := False\<rparr>"
  have sb: "sec_bytes (of_nat n) = 512 * n"
    using assms(2,3) unat_eq_0 [of "of_nat n :: u8"] by (cases "n = 256") (auto simp: sec_bytes_def unat_of_nat)
  have data: "read_from_sector (of_nat n) ?c3 = read_secs (platter (ch_ata c) (dev_no = 1)) lba n"
    by (simp add: read_from_sector_def sb ata_data_def c1(2-6) CMD_IDENTIFY_def CMD_READ_SECTOR_def length_read_secs [OF d])
  have h: "bindR (intr_hd_handler (irq_no c1) ?c2 s) (\<lambda>(c2, s1). bindR (wait_done c2 s1) k) = k (?c3, s)" for k
    using hd_interrupt [of ?c2 s] f cc c1(7) bindR_assoc [of "intr_hd_handler (irq_no c1) ?c2 s" "\<lambda>(c2, s1). wait_done c2 s1" k]
    by (simp add: case_prod_unfold)
  have r: "drive_ready (ch_ata ?c2)" using cc f(5) by (simp add: drive_ready_def)
  show thesis
  proof (rule that)
    show "read_round dev_no lba n c s = Inr (read_secs (platter (ch_ata c) (dev_no = 1)) lba n, ?c3, s)"
      by (simp add: read_round_def c1(1) h r data)
  qed (use f cc r in \<open>simp_all add: channel_idle_def same_channel_def\<close>)
qed

lemma write_round_ok:
  assumes "lba \<le> max_lba" and "0 < n" "n \<le> 256" and c: "channel_idle c"
  obtains c' where "write_round dev_no lba n b c s = Inr (c', s)"
    and "channel_idle c'" "same_channel c c'"
    and "platter (ch_ata c') = (platter (ch_ata c))(dev_no = 1 := write_secs n lba b (platter (ch_ata c) (dev_no = 1)))"
proof -
  note cc = c [unfolded channel_idle_def]
  obtain c1 where c1: "select_sector dev_no lba (of_nat n) c = Inr c1"
    "ata_lba (ch_ata c1) = lba" "ata_count (ch_ata c1) = n" "ata_slave (ch_ata c1) = (dev_no = 1)"
    "platter (ch_ata c1) = platter (ch_ata c)" "r_status (ch_ata c1) = r_status (ch_ata c)"
    "irq_no c1 = irq_no c" "disk_done c1 = disk_done c" "ch_lock c1 = ch_lock c"
    "ident (ch_ata c1) = ident (ch_ata c)" "port_base c1 = port_base c" "ch_name c1 = ch_name c"
    by (rule select_sector_ok [OF assms(1-3)])
  let ?c2 = "cmd_out CMD_WRITE_SECTOR c1"
  have f: "ata_lba (ch_ata ?c2) = lba" "ata_count (ch_ata ?c2) = n" "ata_slave (ch_ata ?c2) = (dev_no = 1)"
    "platter (ch_ata ?c2) = platter (ch_ata c)" "r_status (ch_ata ?c2) = r_status (ch_ata c)"
    "irq_no ?c2 = irq_no c" "disk_done ?c2 = disk_done c" "ch_lock ?c2 = ch_lock c"
    "ident (ch_ata ?c2) = ident (ch_ata c)" "port_base ?c2 = port_base c" "ch_name ?c2 = ch_name c" "expecting_intr ?c2"
    using c1 by simp_all
  have sb: "sec_bytes (of_nat n) = 512 * n"
    using assms(2,3) unat_eq_0 [of "of_nat n :: u8"] by (cases "n = 256") (auto simp: sec_bytes_def unat_of_nat)
  let ?c3 = "write2sector b (of_nat n) ?c2"
  have p: "platter (ch_ata ?c3) = (platter (ch_ata c))(dev_no = 1 := write_secs n lba b (platter (ch_ata c) (dev_no = 1)))"
    by (simp add: write2sector_def ata_store_def c1(2-6) sb write_secs_take)
  have g: "irq_no ?c3 = irq_no c" "disk_done ?c3 = disk_done c" "ch_lock ?c3 = ch_lock c"
    "ident (ch_ata ?c3) = ident (ch_ata c)" "port_base ?c3 = port_base c" "ch_name ?c3 = ch_name c" "expecting_intr ?c3"
    "r_status (ch_ata ?c3) = r_status (ch_ata c)"
    using f by (simp_all add: write2sector_def ata_store_def)
  have h: "bindR (intr_hd_handler (irq_no ?c2) ?c3 s) (\<lambda>(c2, s1). wait_done c2 s1) = Inr (?c3\<lparr>expecting_intr := False\<rparr>, s)"
    using hd_interrupt [of ?c3 s] g cc f(6) by simp
  have r: "drive_ready (ch_ata ?c2)" using cc f(5) by (simp add: drive_ready_def)
  show thesis
  proof (rule that)
    show "write_round dev_no lba n b c s = Inr (?c3\<lparr>expecting_intr := False\<rparr>, s)"
      using h by (simp add: write_round_def c1(1) Let_def r)
  qed (use p g cc in \<open>simp_all add: channel_idle_def same_channel_def drive_ready_def\<close>)
qed
lemma read_loop_ok:
  assumes "channel_idle c" and "disk_ok (platter (ch_ata c) (dev_no = 1))"
    and "unat lba + n \<le> unat max_lba + 1"
  shows "\<exists>c'. read_loop dev_no lba n k c s
        = Inr (read_secs (platter (ch_ata c) (dev_no = 1)) (lba + of_nat k) (n - k), c', s)
    \<and> channel_idle c' \<and> same_channel c c' \<and> platter (ch_ata c') = platter (ch_ata c)"
  using assms(1,2)
proof (induction "n - k" arbitrary: k c rule: less_induct)
  case less
  show ?case
  proof (cases "k < n")
    case False
    then show ?thesis using less.prems by (subst read_loop.simps) (simp add: same_channel_def)
  next
    case True
    define m where "m = (if k + 256 \<le> n then 256 else n - k)"
    have m: "0 < m" "m \<le> 256" "k + m \<le> n" using True by (auto simp: m_def)
    have u: "unat (lba + of_nat k) = unat lba + k"
      using assms(3) True by (simp add: unat_word_ariths unat_of_nat max_lba_def)
    have l: "lba + of_nat k \<le> max_lba" using u assms(3) True by (simp add: word_le_nat_alt)
    obtain c1 where c1: "read_round dev_no (lba + of_nat k) m c s
        = Inr (read_secs (platter (ch_ata c) (dev_no = 1)) (lba + of_nat k) m, c1, s)"
      "channel_idle c1" "same_channel c c1" "platter (ch_ata c1) = platter (ch_ata c)"
      by (rule read_round_ok [OF l m(1,2) less.prems])
    have lt: "n - (k + m) < n - k" using m True by simp
    obtain c2 where c2: "read_loop dev_no lba n (k + m) c1 s
        = Inr (read_secs (platter (ch_ata c) (dev_no = 1)) (lba + of_nat (k + m)) (n - (k + m)), c2, s)"
      "channel_idle c2" "same_channel c1 c2" "platter (ch_ata c2) = platter (ch_ata c)"
      using less.hyps [OF lt c1(2)] c1(4) less.prems(2) by auto
    have "read_secs d (lba + of_nat k) (n - k)
        = read_secs d (lba + of_nat k) m @ read_secs d (lba + of_nat (k + m)) (n - (k + m))" for d
      using read_secs_add [of d "lba + of_nat k" m "n - (k + m)"] m by (simp add: ac_simps)
    then have "read_loop dev_no lba n k c s
        = Inr (read_secs (platter (ch_ata c) (dev_no = 1)) (lba + of_nat k) (n - k), c2, s)"
      using True c1(1) c2(1) by (subst read_loop.simps) (simp add: Let_def flip: m_def)
    then show ?thesis using c2 same_channel_trans [OF c1(3) c2(3)] by blast
  qed
qed

lemma write_loop_ok:
  assumes "channel_idle c" and "unat lba + n \<le> unat max_lba + 1" and "512 * n \<le> length b"
  shows "\<exists>c'. write_loop dev_no lba n k b c s = Inr (c', s)
    \<and> channel_idle c' \<and> same_channel c c'
    \<and> platter (ch_ata c') = (platter (ch_ata c))(dev_no = 1 :=
        write_secs (n - k) (lba + of_nat k) (drop (512 * k) b) (platter (ch_ata c) (dev_no = 1)))"
  using assms(1)
proof (induction "n - k" arbitrary: k c rule: less_induct)
  case less
  show ?case
  proof (cases "k < n")
    case False
    then show ?thesis using less.prems by (subst write_loop.simps) (simp add: same_channel_def)
  next
    case True
    define m where "m = (if k + 256 \<le> n then 256 else n - k)"
    have m: "0 < m" "m \<le> 256" "k + m \<le> n" using True by (auto simp: m_def)
    have u: "unat (lba + of_nat k) = unat lba + k"
      using assms(2) True by (simp add: unat_word_ariths unat_of_nat max_lba_def)
    have l: "lba + of_nat k \<le> max_lba" using u assms(2) True by (simp add: word_le_nat_alt)
    let ?d = "platter (ch_ata c) (dev_no = 1)"
    obtain c1 where c1: "write_round dev_no (lba + of_nat k) m (drop (k * 512) b) c s = Inr (c1, s)"
      "channel_idle c1" "same_channel c c1"
      "platter (ch_ata c1) = (platter (ch_ata c))(dev_no = 1 := write_secs m (lba + of_nat k) (drop (k * 512) b) ?d)"
      by (rule write_round_ok [OF l m(1,2) less.prems])
    have lt: "n - (k + m) < n - k" using m True by simp
    obtain c2 where c2: "write_loop dev_no lba n (k + m) b c1 s = Inr (c2, s)"
      "channel_idle c2" "same_channel c1 c2"
      "platter (ch_ata c2) = (platter (ch_ata c1))(dev_no = 1 :=
        write_secs (n - (k + m)) (lba + of_nat (k + m)) (drop (512 * (k + m)) b) (platter (ch_ata c1) (dev_no = 1)))"
      using less.hyps [OF lt c1(2)] by auto
    have "write_secs (n - k) (lba + of_nat k) (drop (512 * k) b) ?d
        = write_secs (n - (k + m)) (lba + of_nat (k + m)) (drop (512 * (k + m)) b)
            (write_secs m (lba + of_nat k) (drop (k * 512) b) ?d)"
      using write_secs_add [of m "n - (k + m)" "lba + of_nat k" "drop (512 * k) b" ?d] m
      by (simp add: ac_simps)
    then have p: "platter (ch_ata c2) = (platter (ch_ata c))(dev_no = 1 :=
        write_secs (n - k) (lba + of_nat k) (drop (512 * k) b) ?d)"
      using c1(4) c2(4) by simp
    have "write_loop dev_no lba n k b c s = Inr (c2, s)"
      using True c1(1) c2(1) by (subst write_loop.simps) (simp add: Let_def flip: m_def)
    then show ?thesis using p c2(2) same_channel_trans [OF c1(3) c2(3)] by blast
  qed
qed

subsection \<open>Reading and writing\<close>

definition channel_free :: "ide_channel \<Rightarrow> bool" where
  "channel_free c \<longleftrightarrow> channel_idle c \<and> ch_lock c = lock_init"

lemma channel_locked:
  assumes "channel_free c" and "running_thread s \<noteq> 0"
  obtains c1 where "acquire_channel c s = Inr (c1, s)" and "channel_idle (select_disk dev_no c1)"
    and "ch_lock (select_disk dev_no c1) = lock_taken (running_thread s)"
    and "platter (ch_ata (select_disk dev_no c1)) = platter (ch_ata c)"
    and "ident (ch_ata (select_disk dev_no c1)) = ident (ch_ata c)"
proof (rule that)
  show "acquire_channel c s = Inr (c\<lparr>ch_lock := lock_taken (running_thread s)\<rparr>, s)"
    using assms by (simp add: acquire_channel_def channel_free_def)
qed (use assms in \<open>simp_all add: channel_free_def channel_idle_def select_disk_def outb_def ata_outb_def drive_ready_def\<close>)

lemma ide_read_ok:
  assumes "channel_free c" and "running_thread s \<noteq> 0" and "disk_ok (platter (ch_ata c) (dev_no = 1))"
    and "0 < cnt" and "unat lba + unat cnt \<le> unat max_lba + 1"
  obtains c' where "ide_read dev_no lba cnt c s = Inr (read_secs (platter (ch_ata c) (dev_no = 1)) lba (unat cnt), c', s)"
    and "channel_free c'" and "platter (ch_ata c') = platter (ch_ata c)"
proof -
  obtain c1 where c1: "acquire_channel c s = Inr (c1, s)" "channel_idle (select_disk dev_no c1)"
    "ch_lock (select_disk dev_no c1) = lock_taken (running_thread s)"
    "platter (ch_ata (select_disk dev_no c1)) = platter (ch_ata c)"
    by (rule channel_locked [OF assms(1,2), of dev_no])
  obtain c2 where c2: "read_loop dev_no lba (unat cnt) 0 (select_disk dev_no c1) s
      = Inr (read_secs (platter (ch_ata c) (dev_no = 1)) lba (unat cnt), c2, s)"
    "channel_idle c2" "same_channel (select_disk dev_no c1) c2" "platter (ch_ata c2) = platter (ch_ata c)"
    using read_loop_ok [OF c1(2) _ assms(5), of dev_no 0 s] c1(4) assms(3) by auto
  have l: "ch_lock c2 = lock_taken (running_thread s)" using c2(3) c1(3) by (simp add: same_channel_def)
  have a: "lba \<le> max_lba" "cnt \<noteq> 0" using assms(4,5) by (auto simp: word_le_nat_alt word_less_nat_alt)
  show thesis
  proof (rule that)
    show "ide_read dev_no lba cnt c s = Inr (read_secs (platter (ch_ata c) (dev_no = 1)) lba (unat cnt), c2\<lparr>ch_lock := lock_init\<rparr>, s)"
      using a assms(4) by (simp add: ide_read_def c1(1) c2(1) release_channel_def l)
  qed (use c2 in \<open>simp_all add: channel_free_def channel_idle_def\<close>)
qed

lemma ide_write_ok:
  assumes "channel_free c" and "running_thread s \<noteq> 0" and "512 * unat cnt \<le> length b"
    and "0 < cnt" and "unat lba + unat cnt \<le> unat max_lba + 1"
  obtains c' where "ide_write dev_no lba b cnt c s = Inr (c', s)" and "channel_free c'"
    and "platter (ch_ata c') = (platter (ch_ata c))(dev_no = 1 := write_secs (unat cnt) lba b (platter (ch_ata c) (dev_no = 1)))"
proof -
  obtain c1 where c1: "acquire_channel c s = Inr (c1, s)" "channel_idle (select_disk dev_no c1)"
    "ch_lock (select_disk dev_no c1) = lock_taken (running_thread s)"
    "platter (ch_ata (select_disk dev_no c1)) = platter (ch_ata c)"
    by (rule channel_locked [OF assms(1,2), of dev_no])
  obtain c2 where c2: "write_loop dev_no lba (unat cnt) 0 b (select_disk dev_no c1) s = Inr (c2, s)"
    "channel_idle c2" "same_channel (select_disk dev_no c1) c2"
    "platter (ch_ata c2) = (platter (ch_ata c))(dev_no = 1 := write_secs (unat cnt) lba b (platter (ch_ata c) (dev_no = 1)))"
    using write_loop_ok [OF c1(2) assms(5,3), of dev_no 0 s] c1(4) by auto
  have l: "ch_lock c2 = lock_taken (running_thread s)" using c2(3) c1(3) by (simp add: same_channel_def)
  have a: "lba \<le> max_lba" "cnt \<noteq> 0" using assms(4,5) by (auto simp: word_le_nat_alt word_less_nat_alt)
  show thesis
  proof (rule that)
    show "ide_write dev_no lba b cnt c s = Inr (c2\<lparr>ch_lock := lock_init\<rparr>, s)"
      using a assms(4) by (simp add: ide_write_def c1(1) c2(1) release_channel_def l)
  qed (use c2 in \<open>simp_all add: channel_free_def channel_idle_def\<close>)
qed
subsection \<open>The properties\<close>

text \<open>A zeroed drive behind the first channel, for concrete cases.\<close>

definition blank_ata :: ata where
  "blank_ata = \<lparr>r_cnt = 0, r_lba_l = 0, r_lba_m = 0, r_lba_h = 0, r_dev = 0, r_cmd = 0, r_status = 0x48,
     platter = (\<lambda>_ _. replicate 512 0), ident = (\<lambda>_. replicate 512 0)\<rparr>"

definition blank_channel :: ide_channel where
  "blank_channel = \<lparr>ch_name = [], port_base = 0x1f0, irq_no = 0x2e, ch_lock = lock_init,
     expecting_intr = False, disk_done = sema_init 0, ch_ata = blank_ata\<rparr>"

lemma blank_channel_ok:
  "channel_free blank_channel" "disk_ok (platter (ch_ata blank_channel) x)"
  "running_thread small_kernel \<noteq> 0"
proof -
  show "channel_free blank_channel"
    by (simp add: channel_free_def channel_idle_def blank_channel_def blank_ata_def drive_ready_def
        BIT_ALT_STAT_BSY_def BIT_ALT_STAT_DRQ_def)
  show "disk_ok (platter (ch_ata blank_channel) x)" by (simp add: disk_ok_def blank_channel_def blank_ata_def)
  show "running_thread small_kernel \<noteq> 0" by code_simp
qed

text \<open>
  \<^verbatim>\<open>ide_read\<close> of any number of sectors within the 80 MB of the disk, through the registers, the
  command and the interrupt of each round of at most 256 sectors, reads exactly the sectors asked
  for, in order, from the disk asked for; it leaves the disks, the kernel and the lock of the channel as
  they were.
\<close>

theorem ide_read_sectors:
  assumes "channel_free c" and "running_thread s \<noteq> 0" and "disk_ok (platter (ch_ata c) (dev_no = 1))"
    and "0 < cnt" and "unat lba + unat cnt \<le> 163840"
  shows "\<exists>c'. ide_read dev_no lba cnt c s = Inr (concat (map (\<lambda>i. platter (ch_ata c) (dev_no = 1) (lba + of_nat i)) [0..<unat cnt]), c', s)
    \<and> channel_free c' \<and> platter (ch_ata c') = platter (ch_ata c)"
proof -
  have l: "unat lba + unat cnt \<le> unat max_lba + 1" using assms(5) by (simp add: max_lba_def)
  obtain c' where "ide_read dev_no lba cnt c s = Inr (read_secs (platter (ch_ata c) (dev_no = 1)) lba (unat cnt), c', s)"
    "channel_free c'" "platter (ch_ata c') = platter (ch_ata c)"
    by (rule ide_read_ok [OF assms(1-4) l])
  then show ?thesis unfolding read_secs_def by blast
qed

theorem ide_read_sectors_witness:
  "\<exists>c'. ide_read 1 2048 300 blank_channel small_kernel
     = Inr (concat (map (\<lambda>i. replicate 512 0) [0..<300]), c', small_kernel)"
  using ide_read_sectors [OF blank_channel_ok(1,3,2), of 300 2048 1] by (auto simp: blank_channel_def blank_ata_def)

text \<open>
  C30. What \<^verbatim>\<open>ide_write\<close> writes, \<^verbatim>\<open>ide_read\<close> reads back, whatever the number of rounds; every sector
  outside the range and the other disk of the channel keep their contents.
\<close>

theorem ide_write_read:
  assumes "channel_free c" and "running_thread s \<noteq> 0" and "disk_ok (platter (ch_ata c) (dev_no = 1))"
    and "0 < cnt" and "unat lba + unat cnt \<le> 163840" and "512 * unat cnt \<le> length b"
  shows "\<exists>c1 c2. ide_write dev_no lba b cnt c s = Inr (c1, s)
    \<and> ide_read dev_no lba cnt c1 s = Inr (take (512 * unat cnt) b, c2, s) \<and> channel_free c2
    \<and> platter (ch_ata c1) (dev_no \<noteq> 1) = platter (ch_ata c) (dev_no \<noteq> 1)
    \<and> (\<forall>x. unat x < unat lba \<or> unat lba + unat cnt \<le> unat x \<longrightarrow>
         platter (ch_ata c1) (dev_no = 1) x = platter (ch_ata c) (dev_no = 1) x)"
proof -
  have l: "unat lba + unat cnt \<le> unat max_lba + 1" using assms(5) by (simp add: max_lba_def)
  let ?d = "platter (ch_ata c) (dev_no = 1)"
  obtain c1 where c1: "ide_write dev_no lba b cnt c s = Inr (c1, s)" "channel_free c1"
    "platter (ch_ata c1) = (platter (ch_ata c))(dev_no = 1 := write_secs (unat cnt) lba b ?d)"
    by (rule ide_write_ok [OF assms(1,2,6,4) l])
  then have d: "disk_ok (platter (ch_ata c1) (dev_no = 1))" using write_secs_ok [OF assms(3,6)] by simp
  obtain c2 where c2: "ide_read dev_no lba cnt c1 s = Inr (read_secs (platter (ch_ata c1) (dev_no = 1)) lba (unat cnt), c2, s)"
    "channel_free c2" by (rule ide_read_ok [OF c1(2) assms(2) d assms(4) l])
  have "read_secs (write_secs (unat cnt) lba b ?d) lba (unat cnt) = take (512 * unat cnt) b"
    using read_write_secs [of lba "unat cnt" b ?d] assms(5,6) by simp
  moreover have "write_secs (unat cnt) lba b ?d x = ?d x"
    if "unat x < unat lba \<or> unat lba + unat cnt \<le> unat x" for x
    using write_secs_other [of lba "unat cnt" x b ?d] that assms(5) by simp
  ultimately show ?thesis using c1 c2 by auto
qed

theorem ide_write_read_witness:
  "\<exists>c1 c2. ide_write 1 2048 (replicate 153600 7) 300 blank_channel small_kernel = Inr (c1, small_kernel)
    \<and> ide_read 1 2048 300 c1 small_kernel = Inr (replicate 153600 7, c2, small_kernel)"
  using ide_write_read [OF blank_channel_ok(1,3,2), of 300 2048 "replicate 153600 7" 1] by auto

end
