(* ===== verification/Memory.thy ===== *)
theory Memory
  imports Prelude Bitmap Klist Paging Thread Sync
begin

section \<open>Physical and virtual pages (\<^verbatim>\<open>kernel/memory.c\<close>)\<close>

text \<open>
  Bitmaps say which physical pages of the kernel's and of the user's pool and which virtual pages
  of the kernel and of each process (in its PCB) are in use. The
  state extends the scheduler's by the pools and by what the heap on top of the pages (theory
  Heap) needs: the kernel's block descriptors and the arena headers, which are kept by address
  space and page and not in the physical memory.
  The locks of the pools are taken and released as in the code, for one thread.
\<close>

subsection \<open>State\<close>

definition MEM_BITMAP_BASE :: u32 where "MEM_BITMAP_BASE = 0xc009a000"
definition K_HEAP_START :: u32 where "K_HEAP_START = 0xc0100000"
definition DESC_CNT :: nat where "DESC_CNT = 7"

text \<open>\<^verbatim>\<open>sizeof(struct arena)\<close>: a pointer, a counter and an enum.\<close>

definition ARENA_SIZE :: u32 where "ARENA_SIZE = 12"

datatype pool_flags = PF_KERNEL | PF_USER

record pool =
  pool_lock :: lock
  pool_bitmap :: bitmap
  phy_addr_start :: u32
  pool_size :: u32

text \<open>A pointer to a block descriptor: one of the kernel's, or one in a PCB.\<close>

datatype desc_ref = KDesc nat | UDesc u32 nat

record arena =
  arena_desc :: "desc_ref option"
  arena_cnt :: u32
  arena_large :: bool

record kmem = kernel +
  kernel_pool :: pool
  user_pool :: pool
  kernel_vaddr :: virtual_addr
  k_block_descs :: "mem_block_desc list"
  arenas :: "u32 \<Rightarrow> u32 \<Rightarrow> arena option"

definition the_pool :: "pool_flags \<Rightarrow> 'a kmem_scheme \<Rightarrow> pool" where
  "the_pool pf s = (if pf = PF_KERNEL then kernel_pool s else user_pool s)"

definition set_pool :: "pool_flags \<Rightarrow> pool \<Rightarrow> 'a kmem_scheme \<Rightarrow> 'a kmem_scheme" where
  "set_pool pf p s = (if pf = PF_KERNEL then s\<lparr>kernel_pool := p\<rparr> else s\<lparr>user_pool := p\<rparr>)"

definition acquire_pool :: "pool_flags \<Rightarrow> 'a kmem_scheme \<Rightarrow> 'a kmem_scheme res" where
  "acquire_pool pf s =
     bindR (lock_acquire (pool_lock (the_pool pf s)) s) (\<lambda>(l, s1).
     Inr (set_pool pf ((the_pool pf s1)\<lparr>pool_lock := l\<rparr>) s1))"

definition release_pool :: "pool_flags \<Rightarrow> 'a kmem_scheme \<Rightarrow> 'a kmem_scheme res" where
  "release_pool pf s =
     bindR (lock_release (pool_lock (the_pool pf s)) s) (\<lambda>(l, s1).
     Inr (set_pool pf ((the_pool pf s1)\<lparr>pool_lock := l\<rparr>) s1))"

subsection \<open>Physical and virtual pages\<close>

definition palloc :: "pool_flags \<Rightarrow> 'a kmem_scheme \<Rightarrow> (u32 \<times> 'a kmem_scheme) res" where
  "palloc pf s =
     (let m_pool = the_pool pf s in
      bindR (bitmap_scan (pool_bitmap m_pool) 1) (\<lambda>bit_idx.
      if bit_idx = -1 then Inr (0, s)
      else bindR (bitmap_set (pool_bitmap m_pool) bit_idx 1) (\<lambda>b.
        Inr (bit_idx * PAGE_SIZE + phy_addr_start m_pool, set_pool pf (m_pool\<lparr>pool_bitmap := b\<rparr>) s))))"

text \<open>\<^verbatim>\<open>pfree\<close> and \<^verbatim>\<open>free_a_phy_page\<close> have the same body.\<close>

definition pfree :: "u32 \<Rightarrow> 'a kmem_scheme \<Rightarrow> 'a kmem_scheme res" where
  "pfree pg_phy_addr s =
     (let pf = (if pg_phy_addr \<ge> phy_addr_start (user_pool s) then PF_USER else PF_KERNEL);
          mem_pool = the_pool pf s;
          bit_idx = (pg_phy_addr - phy_addr_start mem_pool) div PAGE_SIZE in
      bindR (bitmap_set (pool_bitmap mem_pool) bit_idx 0) (\<lambda>b.
      Inr (set_pool pf (mem_pool\<lparr>pool_bitmap := b\<rparr>) s)))"

definition free_a_phy_page :: "u32 \<Rightarrow> 'a kmem_scheme \<Rightarrow> 'a kmem_scheme res" where
  "free_a_phy_page = pfree"

text \<open>The virtual pages of the kernel, or of the running process.\<close>

definition the_vaddr :: "pool_flags \<Rightarrow> 'a kmem_scheme \<Rightarrow> virtual_addr res" where
  "the_vaddr pf s =
     (if pf = PF_KERNEL then Inr (kernel_vaddr s)
      else bindR (pcb (running_thread s) s) (\<lambda>t. Inr (userprog_vaddr t)))"

definition set_vaddr :: "pool_flags \<Rightarrow> virtual_addr \<Rightarrow> 'a kmem_scheme \<Rightarrow> 'a kmem_scheme res" where
  "set_vaddr pf va s =
     (if pf = PF_KERNEL then Inr (s\<lparr>kernel_vaddr := va\<rparr>)
      else upd_pcb (running_thread s) (\<lambda>t. t\<lparr>userprog_vaddr := va\<rparr>) s)"

primrec set_bits :: "nat \<Rightarrow> u32 \<Rightarrow> u8 \<Rightarrow> bitmap \<Rightarrow> bitmap res" where
  "set_bits 0 i v b = Inr b"
| "set_bits (Suc n) i v b = bindR (bitmap_set b i v) (set_bits n (i + 1) v)"

definition vaddr_get :: "pool_flags \<Rightarrow> u32 \<Rightarrow> 'a kmem_scheme \<Rightarrow> (u32 \<times> 'a kmem_scheme) res" where
  "vaddr_get pf pg_cnt s =
     bindR (the_vaddr pf s) (\<lambda>va.
     bindR (bitmap_scan (vaddr_bitmap va) pg_cnt) (\<lambda>bit_idx_start.
     if bit_idx_start = -1 then Inr (0, s)
     else
       bindR (set_bits (unat pg_cnt) bit_idx_start 1 (vaddr_bitmap va)) (\<lambda>b.
       bindR (set_vaddr pf (va\<lparr>vaddr_bitmap := b\<rparr>) s) (\<lambda>s1.
       let v = vaddr_start va + bit_idx_start * PAGE_SIZE in
       if pf = PF_KERNEL then Inr (v, s1)
       else ASSERT (v < 0xc0000000 - PAGE_SIZE) (Inr (v, s1))))))"

definition vaddr_remove :: "pool_flags \<Rightarrow> u32 \<Rightarrow> u32 \<Rightarrow> 'a kmem_scheme \<Rightarrow> 'a kmem_scheme res" where
  "vaddr_remove pf vaddr pg_cnt s =
     bindR (the_vaddr pf s) (\<lambda>va.
     bindR (set_bits (unat pg_cnt) ((vaddr - vaddr_start va) div PAGE_SIZE) 0 (vaddr_bitmap va)) (\<lambda>b.
     set_vaddr pf (va\<lparr>vaddr_bitmap := b\<rparr>) s))"

text \<open>The loop of \<^verbatim>\<open>malloc_page\<close>: false if a page was missing.\<close>

primrec map_pages :: "pool_flags \<Rightarrow> nat \<Rightarrow> u32 \<Rightarrow> 'a kmem_scheme \<Rightarrow> (bool \<times> 'a kmem_scheme) res" where
  "map_pages pf 0 vaddr s = Inr (True, s)"
| "map_pages pf (Suc n) vaddr s =
     bindR (palloc pf s) (\<lambda>(page_phyaddr, s1).
     if page_phyaddr = 0 then Inr (False, s1)
     else bindR (page_table_add (palloc PF_KERNEL) vaddr page_phyaddr s1) (map_pages pf n (vaddr + PAGE_SIZE)))"

definition malloc_page :: "pool_flags \<Rightarrow> u32 \<Rightarrow> 'a kmem_scheme \<Rightarrow> (u32 \<times> 'a kmem_scheme) res" where
  "malloc_page pf pg_cnt s =
     ASSERT (pg_cnt > 0 \<and> pg_cnt < 3840)
       (bindR (vaddr_get pf pg_cnt s) (\<lambda>(vaddr_start, s1).
        if vaddr_start = 0 then Inr (0, s1)
        else bindR (map_pages pf (unat pg_cnt) vaddr_start s1) (\<lambda>(got, s2).
          Inr (if got then vaddr_start else 0, s2))))"

definition vmemset0 :: "u32 \<Rightarrow> u32 \<Rightarrow> 'a cpu_scheme \<Rightarrow> 'a cpu_scheme res" where
  "vmemset0 vaddr len s = vzero (unat len div 4) vaddr s"

definition get_pages :: "pool_flags \<Rightarrow> u32 \<Rightarrow> 'a kmem_scheme \<Rightarrow> (u32 \<times> 'a kmem_scheme) res" where
  "get_pages pf pg_cnt s =
     bindR (acquire_pool pf s) (\<lambda>s1.
     bindR (malloc_page pf pg_cnt s1) (\<lambda>(vaddr, s2).
     bindR (if vaddr \<noteq> 0 then vmemset0 vaddr (pg_cnt * PAGE_SIZE) s2 else Inr s2) (\<lambda>s3.
     bindR (release_pool pf s3) (\<lambda>s4. Inr (vaddr, s4)))))"

definition get_kernel_pages :: "u32 \<Rightarrow> 'a kmem_scheme \<Rightarrow> (u32 \<times> 'a kmem_scheme) res" where
  "get_kernel_pages = get_pages PF_KERNEL"

definition get_user_pages :: "u32 \<Rightarrow> 'a kmem_scheme \<Rightarrow> (u32 \<times> 'a kmem_scheme) res" where
  "get_user_pages = get_pages PF_USER"

text \<open>When \<^verbatim>\<open>palloc\<close> fails, \<^verbatim>\<open>get_a_page\<close> returns without releasing the lock.\<close>

definition get_a_page :: "pool_flags \<Rightarrow> u32 \<Rightarrow> 'a kmem_scheme \<Rightarrow> (u32 \<times> 'a kmem_scheme) res" where
  "get_a_page pf vaddr s =
     bindR (acquire_pool pf s) (\<lambda>s1.
     bindR (pcb (running_thread s1) s1) (\<lambda>cur.
     ASSERT ((pgdir cur \<noteq> 0 \<and> pf = PF_USER) \<or> (pgdir cur = 0 \<and> pf = PF_KERNEL))
       (bindR (the_vaddr pf s1) (\<lambda>va.
        let bit_idx = (vaddr - vaddr_start va) div PAGE_SIZE in
        ASSERT (0 < sint bit_idx)
          (bindR (bitmap_set (vaddr_bitmap va) bit_idx 1) (\<lambda>b.
           bindR (set_vaddr pf (va\<lparr>vaddr_bitmap := b\<rparr>) s1) (\<lambda>s2.
           bindR (palloc pf s2) (\<lambda>(page_phyaddr, s3).
           if page_phyaddr = 0 then Inr (0, s3)
           else bindR (page_table_add (palloc PF_KERNEL) vaddr page_phyaddr s3) (\<lambda>s4.
             bindR (release_pool pf s4) (\<lambda>s5. Inr (vaddr, s5)))))))))))"

definition get_a_page_without_opvaddrbitmap :: "pool_flags \<Rightarrow> u32 \<Rightarrow> 'a kmem_scheme \<Rightarrow> (u32 \<times> 'a kmem_scheme) res" where
  "get_a_page_without_opvaddrbitmap pf vaddr s =
     bindR (acquire_pool pf s) (\<lambda>s1.
     bindR (palloc pf s1) (\<lambda>(page_phyaddr, s2).
     if page_phyaddr = 0 then bindR (release_pool pf s2) (\<lambda>s3. Inr (0, s3))
     else bindR (page_table_add (palloc PF_KERNEL) vaddr page_phyaddr s2) (\<lambda>s3.
       bindR (release_pool pf s3) (\<lambda>s4. Inr (vaddr, s4)))))"

text \<open>The loop of \<^verbatim>\<open>mfree_page\<close>; \<open>ok\<close> is the range check of the branch it is in.\<close>

primrec free_pages_loop :: "(u32 \<Rightarrow> 'a kmem_scheme \<Rightarrow> bool) \<Rightarrow> nat \<Rightarrow> u32 \<Rightarrow> 'a kmem_scheme \<Rightarrow> 'a kmem_scheme res" where
  "free_pages_loop ok 0 vaddr s = Inr s"
| "free_pages_loop ok (Suc n) vaddr s =
     bindR (addr_v2p vaddr s) (\<lambda>pg_phy_addr.
     ASSERT (pg_phy_addr mod PAGE_SIZE = 0 \<and> ok pg_phy_addr s)
       (bindR (pfree pg_phy_addr s) (\<lambda>s1.
        bindR (page_table_pte_remove vaddr s1) (\<lambda>s2.
        free_pages_loop ok n (vaddr + PAGE_SIZE) s2))))"

definition mfree_page :: "pool_flags \<Rightarrow> u32 \<Rightarrow> u32 \<Rightarrow> 'a kmem_scheme \<Rightarrow> 'a kmem_scheme res" where
  "mfree_page pf vaddr pg_cnt s =
     ASSERT (pg_cnt \<ge> 1 \<and> vaddr mod PAGE_SIZE = 0)
       (bindR (addr_v2p vaddr s) (\<lambda>pg_phy_addr.
        ASSERT (pg_phy_addr mod PAGE_SIZE = 0 \<and> pg_phy_addr \<ge> 0x102000)
          (bindR (if pg_phy_addr \<ge> phy_addr_start (user_pool s)
                  then free_pages_loop (\<lambda>a s. a \<ge> phy_addr_start (user_pool s)) (unat pg_cnt) vaddr s
                  else free_pages_loop (\<lambda>a s. a \<ge> phy_addr_start (kernel_pool s)
                         \<and> a < phy_addr_start (user_pool s)) (unat pg_cnt) vaddr s)
             (vaddr_remove pf vaddr pg_cnt))))"

subsection \<open>Initialisation\<close>

text \<open>The bits of a bitmap are an array of their own; in the kernel the three lie behind each other
  from \<open>MEM_BITMAP_BASE\<close> on. So an access past the end of one, which reaches the next one there, is the fault \<open>Bad_Access\<close>
  here: the model refuses runs that the program would go on with on foreign bits.\<close>

definition mem_pool_init :: "u32 \<Rightarrow> 'a kmem_scheme \<Rightarrow> 'a kmem_scheme" where
  "mem_pool_init all_mem s =
     (let page_table_size = PAGE_SIZE * 256;
          used_mem = 0x100000 + page_table_size;
          free_mem = all_mem - used_mem;
          free_pages = ucast (free_mem div PAGE_SIZE) :: u16;
          kernel_free_pages = free_pages div 2;
          user_free_pages = free_pages - kernel_free_pages;
          kbm_length = ucast (kernel_free_pages div 8) :: u32;
          ubm_length = ucast (user_free_pages div 8) :: u32;
          kp_start = used_mem;
          up_start = kp_start + ucast kernel_free_pages * PAGE_SIZE;
          zero_map = (\<lambda>n. \<lparr>btmp_bytes_len = n, bits = replicate (unat n) 0\<rparr>) in
      s\<lparr>kernel_pool := \<lparr>pool_lock = lock_init, pool_bitmap = zero_map kbm_length,
          phy_addr_start = kp_start, pool_size = ucast kernel_free_pages * PAGE_SIZE\<rparr>,
        user_pool := \<lparr>pool_lock = lock_init, pool_bitmap = zero_map ubm_length,
          phy_addr_start = up_start, pool_size = ucast user_free_pages * PAGE_SIZE\<rparr>,
        kernel_vaddr := \<lparr>vaddr_bitmap = zero_map kbm_length, vaddr_start = K_HEAP_START\<rparr>\<rparr>)"

primrec block_desc_loop :: "nat \<Rightarrow> u16 \<Rightarrow> mem_block_desc list" where
  "block_desc_loop 0 bs = []"
| "block_desc_loop (Suc n) bs =
     \<lparr>block_size = ucast bs, blocks_pre_arena = (PAGE_SIZE - ARENA_SIZE) div ucast bs, free_list = []\<rparr>
     # block_desc_loop n (bs * 2)"

definition block_desc_init :: "mem_block_desc list" where
  "block_desc_init = block_desc_loop DESC_CNT 16"

definition mem_init :: "u32 \<Rightarrow> 'a kmem_scheme \<Rightarrow> 'a kmem_scheme" where
  "mem_init mem_bytes_total s = (mem_pool_init mem_bytes_total s)\<lparr>k_block_descs := block_desc_init\<rparr>"

subsection \<open>Ranges of a bitmap\<close>

text \<open>Whatever a scan returns is clear and inside the memory of the bitmap.\<close>

lemma scan_run_got:
  assumes "scan_run btmp cnt bit_left bit_next count = Inr r" and "r \<noteq> -1"
    and "unat bit_next + unat bit_left < 2 ^ 32" and "unat count < unat cnt" and "unat count \<le> unat bit_next"
    and "clear_run btmp (unat bit_next - unat count) (unat count)"
  shows "unat r + unat cnt \<le> 8 * length (bits btmp) \<and> clear_run btmp (unat r) (unat cnt)"
  using assms
proof (induction btmp cnt bit_left bit_next count rule: scan_run.induct)
  case (1 btmp cnt bit_left bit_next count)
  from "1.prems"(1,2) have left: "bit_left > 0" by (subst (asm) scan_run.simps) (auto split: if_splits)
  with "1.prems"(1) obtain t where t: "bitmap_scan_test btmp bit_next = Inr t"
    by (subst (asm) scan_run.simps) (auto simp: bindR_eq_Inr)
  then have inb: "unat bit_next < 8 * length (bits btmp)"
    by (auto simp: bitmap_scan_test_def bindR_eq_Inr rd_eq_Inr)
  with t bitmap_scan_test_ok [of bit_next btmp] have bt: "t = 0 \<longleftrightarrow> \<not> bit_at btmp (unat bit_next)" by auto
  define c' where "c' = (if t = 0 then count + 1 else 0)"
  have run: "(if c' = cnt then Inr (bit_next - cnt + 1)
      else scan_run btmp cnt (bit_left - 1) (bit_next + 1) c') = Inr r"
    using "1.prems"(1) left t by (subst (asm) scan_run.simps) (simp only: c'_def Let_def bindR_Inr if_True)
  have ln: "unat (bit_left - 1) = unat bit_left - 1" "0 < unat bit_left"
    using left by (simp_all add: unat_sub_small word_less_nat_alt Suc_le_eq)
  have nn: "unat (bit_next + 1) = unat bit_next + 1" using "1.prems"(3) ln(2) by (subst unat_add_small) auto
  have cc: "unat c' = (if t = 0 then unat count + 1 else 0)"
    using "1.prems"(4) unat_u32_lt [of cnt] by (simp add: c'_def unat_add_small)
  have cr: "clear_run btmp (unat bit_next + 1 - unat c') (unat c')"
    using "1.prems"(5,6) bt cc by (auto simp: clear_run_def less_Suc_eq)
  show ?case
  proof (cases "c' = cnt")
    case True
    then have "t = 0" using cc "1.prems"(4) by (auto split: if_splits)
    have "unat cnt \<le> unat bit_next + 1" using True cc \<open>t = 0\<close> "1.prems"(5) by auto
    then have "unat (bit_next + 1 - cnt) = unat bit_next + 1 - unat cnt"
      using nn by (subst unat_sub_small) auto
    moreover have "r = bit_next + 1 - cnt" using run True by (simp add: algebra_simps)
    ultimately show ?thesis using True cr inb \<open>unat cnt \<le> unat bit_next + 1\<close> by auto
  next
    case False
    have "unat c' < unat cnt" using False cc "1.prems"(4) by (metis Suc_eq_plus1 gr0I less_Suc_eq_0_disj
      linorder_neqE_nat not_less_eq unat_0 word_unat_eq_iff)
    with False run "1.IH" [OF left t c'_def False] "1.prems"(2,3,5) ln nn cc cr show ?thesis
      by (auto split: if_splits)
  qed
qed

lemma bitmap_scan_got:
  assumes "bitmap_ok btmp" and "cnt \<noteq> 0" and "bitmap_scan btmp cnt = Inr r" and "r \<noteq> -1"
  shows "unat r + unat cnt \<le> 8 * length (bits btmp) \<and> clear_run btmp (unat r) (unat cnt)"
proof -
  have ex: "\<exists>k<bit_cnt btmp. \<not> bit_at btmp k"
    using bitmap_scan_no_free [OF assms(1), of cnt] assms(3) by auto
  obtain k where k: "k < bit_cnt btmp" "\<not> bit_at btmp k" "\<forall>j<k. bit_at btmp j"
    using least_free [OF ex] by blast
  have kb: "k < 2 ^ 31" "bit_cnt btmp < 2 ^ 31" "bit_cnt btmp \<le> 8 * length (bits btmp)"
    using k(1) assms(1) by (auto simp: bitmap_ok_def bit_cnt_def)
  then have uk: "unat (of_nat k :: u32) = k" by (simp add: unat_of_nat take_bit_nat_eq_self)
  note s = bitmap_scan_from_free [OF assms(1) k, of cnt]
  show ?thesis
  proof (cases "cnt = 1")
    case True
    then show ?thesis using s assms(3) uk k kb by auto
  next
    case False
    have "unat (btmp_bytes_len btmp * 8) = bit_cnt btmp"
      using kb(2) by (subst unat_mult_small) (auto simp: bit_cnt_def)
    then have l: "unat (btmp_bytes_len btmp * 8 - of_nat k) = bit_cnt btmp - k"
      using k(1) uk by (subst unat_sub_small) auto
    have n: "unat (of_nat k + 1 :: u32) = k + 1" using uk kb by (subst unat_add_small) auto
    have "1 < unat cnt" using False assms(2) by (metis One_nat_def less_one linorder_neqE_nat
      unat_eq_0 unat_1 word_unat_eq_iff)
    then show ?thesis
      using False s assms(3,4) l n k kb
      by (intro scan_run_got [of btmp cnt "btmp_bytes_len btmp * 8 - of_nat k" "of_nat k + 1" 1]) auto
  qed
qed

lemma set_bits_at:
  assumes "unat i + n \<le> 8 * length (bits b)" and "unat i + n < 2 ^ 32" and "v = 0 \<or> v = 1"
  shows "\<exists>b'. set_bits n i v b = Inr b' \<and> btmp_bytes_len b' = btmp_bytes_len b
    \<and> length (bits b') = length (bits b)
    \<and> (\<forall>j. bit_at b' j \<longleftrightarrow> (if unat i \<le> j \<and> j < unat i + n then v = 1 else bit_at b j))"
  using assms
proof (induction n arbitrary: i b)
  case (Suc n)
  then have "unat i < 8 * length (bits b)" by simp
  from bitmap_set_at [OF this Suc.prems(3)] obtain b1 where b1: "bitmap_set b i v = Inr b1"
    "btmp_bytes_len b1 = btmp_bytes_len b" "length (bits b1) = length (bits b)"
    "\<And>j. bit_at b1 j \<longleftrightarrow> (if j = unat i then v = 1 else bit_at b j)" by blast
  have i: "unat (i + 1) = unat i + 1" using Suc.prems(2) by (subst unat_add_small) auto
  have "unat (i + 1) + n \<le> 8 * length (bits b1)" "unat (i + 1) + n < 2 ^ 32"
    using Suc.prems(1,2) i b1(3) by auto
  from Suc.IH [OF this Suc.prems(3)] obtain b2 where b2: "set_bits n (i + 1) v b1 = Inr b2"
    "btmp_bytes_len b2 = btmp_bytes_len b1" "length (bits b2) = length (bits b1)"
    "\<And>j. bit_at b2 j \<longleftrightarrow> (if unat (i + 1) \<le> j \<and> j < unat (i + 1) + n then v = 1 else bit_at b1 j)" by blast
  have "bit_at b2 j \<longleftrightarrow> (if unat i \<le> j \<and> j < unat i + Suc n then v = 1 else bit_at b j)" for j
    unfolding b2(4) b1(4) i by auto
  then show ?case using b1 b2 by simp
qed auto

subsection \<open>The pools of frames\<close>

definition pool_frames :: "pool_flags \<Rightarrow> 'a kmem_scheme \<Rightarrow> nat" where
  "pool_frames pf s = bit_cnt (pool_bitmap (the_pool pf s))"

definition used_frames :: "pool_flags \<Rightarrow> 'a kmem_scheme \<Rightarrow> nat set" where
  "used_frames pf s = used_bits (pool_bitmap (the_pool pf s))"

definition frame_addr :: "pool_flags \<Rightarrow> 'a kmem_scheme \<Rightarrow> nat \<Rightarrow> u32" where
  "frame_addr pf s i = phy_addr_start (the_pool pf s) + of_nat i * PAGE_SIZE"

definition frame_no :: "pool_flags \<Rightarrow> 'a kmem_scheme \<Rightarrow> u32 \<Rightarrow> nat" where
  "frame_no pf s a = unat ((a - phy_addr_start (the_pool pf s)) div PAGE_SIZE)"

text \<open>The two pools are page aligned and lie behind each other in the physical memory.\<close>

definition pools_ok :: "'a kmem_scheme \<Rightarrow> bool" where
  "pools_ok s \<longleftrightarrow> bitmap_ok (pool_bitmap (kernel_pool s)) \<and> bitmap_ok (pool_bitmap (user_pool s))
     \<and> frame_of (phy_addr_start (kernel_pool s)) = phy_addr_start (kernel_pool s)
     \<and> frame_of (phy_addr_start (user_pool s)) = phy_addr_start (user_pool s)
     \<and> 0 < unat (phy_addr_start (kernel_pool s))
     \<and> unat (phy_addr_start (kernel_pool s)) + 4096 * pool_frames PF_KERNEL s \<le> unat (phy_addr_start (user_pool s))
     \<and> unat (phy_addr_start (user_pool s)) + 4096 * pool_frames PF_USER s \<le> 2 ^ 32"

lemma the_pool_set [simp]:
  "the_pool pf (set_pool pf p s) = p"
  "pf \<noteq> pf' \<Longrightarrow> the_pool pf (set_pool pf' p s) = the_pool pf s"
  by (cases pf; cases pf'; simp add: the_pool_def set_pool_def)+

lemma the_pool_simps [simp]:
  "the_pool PF_KERNEL s = kernel_pool s" "the_pool PF_USER s = user_pool s"
  by (simp_all add: the_pool_def)

lemma frame_addr_unat:
  assumes "pools_ok s" and "i < pool_frames pf s"
  shows "unat (frame_addr pf s i) = unat (phy_addr_start (the_pool pf s)) + 4096 * i"
    and "0 < unat (phy_addr_start (the_pool pf s))"
    and "unat (phy_addr_start (the_pool pf s)) + 4096 * pool_frames pf s \<le> 2 ^ 32"
proof -
  show b: "unat (phy_addr_start (the_pool pf s)) + 4096 * pool_frames pf s \<le> 2 ^ 32"
    using assms(1) by (cases pf) (auto simp: pools_ok_def)
  show "0 < unat (phy_addr_start (the_pool pf s))"
    using assms by (cases pf) (auto simp: pools_ok_def)
  have i: "unat (of_nat i :: u32) = i" using b assms(2) by (simp add: unat_of_nat take_bit_nat_eq_self)
  have m: "unat (of_nat i * PAGE_SIZE) = i * 4096"
    using b assms(2) i by (subst unat_mult_small) (auto simp: PAGE_SIZE_def)
  show "unat (frame_addr pf s i) = unat (phy_addr_start (the_pool pf s)) + 4096 * i"
    unfolding frame_addr_def using b assms(2) m by (subst unat_add_small) auto
qed

lemma frame_no_addr:
  assumes "pools_ok s" and "i < pool_frames pf s"
  shows "frame_no pf s (frame_addr pf s i) = i"
proof -
  note f = frame_addr_unat [OF assms]
  have "unat (frame_addr pf s i - phy_addr_start (the_pool pf s)) = 4096 * i"
    using f by (subst unat_sub_small) auto
  then show ?thesis by (simp add: frame_no_def unat_div PAGE_SIZE_def)
qed

lemma frame_addr_pos:
  assumes "pools_ok s" and "i < pool_frames pf s"
  shows "frame_addr pf s i \<noteq> 0" and "frame_of (frame_addr pf s i) = frame_addr pf s i"
proof -
  note f = frame_addr_unat [OF assms]
  then have "0 < unat (frame_addr pf s i)" by simp
  then show "frame_addr pf s i \<noteq> 0" by (metis less_irrefl unat_0)
  have "frame_of (phy_addr_start (the_pool pf s)) = phy_addr_start (the_pool pf s)"
    using assms(1) by (cases pf) (auto simp: pools_ok_def)
  then have "unat (frame_of (phy_addr_start (the_pool pf s))) = unat (phy_addr_start (the_pool pf s))" by simp
  then have "unat (phy_addr_start (the_pool pf s)) mod 4096 = 0"
    unfolding unat_parts(4) using mod_mult_self2_is_0 [of "unat (phy_addr_start (the_pool pf s)) div 4096" 4096]
    by simp
  then have "unat (frame_addr pf s i) mod 4096 = 0" unfolding f(1) by presburger
  then have "unat (frame_of (frame_addr pf s i)) = unat (frame_addr pf s i)"
    unfolding unat_parts(4) by (simp flip: minus_mod_eq_div_mult)
  then show "frame_of (frame_addr pf s i) = frame_addr pf s i" by (rule unsigned_word_eqI)
qed

lemma frame_addr_apart:
  assumes "pools_ok s" and "i < pool_frames PF_KERNEL s" and "j < pool_frames PF_USER s"
  shows "frame_addr PF_KERNEL s i \<noteq> frame_addr PF_USER s j"
proof
  assume "frame_addr PF_KERNEL s i = frame_addr PF_USER s j"
  then have "unat (phy_addr_start (kernel_pool s)) + 4096 * i = unat (phy_addr_start (user_pool s)) + 4096 * j"
    using frame_addr_unat(1) [OF assms(1,2)] frame_addr_unat(1) [OF assms(1,3)] by simp
  moreover have "4096 * i < 4096 * pool_frames PF_KERNEL s" using assms(2) by simp
  ultimately show False using assms(1) by (simp add: pools_ok_def)
qed

lemma pool_swap_ok:
  assumes "pools_ok s" and "bitmap_ok b" and "bit_cnt b = pool_frames pf s"
  shows "pools_ok (set_pool pf ((the_pool pf s)\<lparr>pool_bitmap := b\<rparr>) s)"
    and "pool_frames pf' (set_pool pf ((the_pool pf s)\<lparr>pool_bitmap := b\<rparr>) s) = pool_frames pf' s"
    and "used_frames pf' (set_pool pf ((the_pool pf s)\<lparr>pool_bitmap := b\<rparr>) s)
      = (if pf' = pf then used_bits b else used_frames pf' s)"
    and "frame_addr pf' (set_pool pf ((the_pool pf s)\<lparr>pool_bitmap := b\<rparr>) s) = frame_addr pf' s"
    and "frame_no pf' (set_pool pf ((the_pool pf s)\<lparr>pool_bitmap := b\<rparr>) s) = frame_no pf' s"
  using assms
  by (cases pf; cases pf'; simp add: pools_ok_def pool_frames_def used_frames_def set_pool_def
      frame_addr_def frame_no_def fun_eq_iff)+

lemma unat_m1: "unat (- 1 :: u32) = 4294967295"
  by (simp add: unsigned_minus_1_eq_mask mask_eq_exp_minus_1)

lemma palloc_free:
  assumes "pools_ok s" and "used_frames pf s \<noteq> {..<pool_frames pf s}"
  obtains i b where "palloc pf s = Inr (frame_addr pf s i, set_pool pf ((the_pool pf s)\<lparr>pool_bitmap := b\<rparr>) s)"
    and "i \<notin> used_frames pf s" and "i < pool_frames pf s"
    and "bitmap_ok b" and "bit_cnt b = pool_frames pf s" and "used_bits b = insert i (used_frames pf s)"
proof -
  let ?m = "the_pool pf s"
  have "bitmap_ok (pool_bitmap ?m)" using assms(1) by (cases pf) (auto simp: pools_ok_def)
  from bitmap_take [OF this] assms(2) obtain i b where i: "bitmap_scan (pool_bitmap ?m) 1 = Inr i"
    "unat i < pool_frames pf s" "unat i < 2 ^ 31" "unat i \<notin> used_frames pf s"
    "bitmap_set (pool_bitmap ?m) i 1 = Inr b" "bitmap_ok b" "bit_cnt b = pool_frames pf s"
    "used_bits b = insert (unat i) (used_frames pf s)"
    unfolding used_frames_def pool_frames_def by metis
  have "i \<noteq> -1" using i(3) by (auto simp: unat_m1)
  then have "palloc pf s = Inr (i * PAGE_SIZE + phy_addr_start ?m, set_pool pf (?m\<lparr>pool_bitmap := b\<rparr>) s)"
    by (simp only: palloc_def Let_def i(1,5) bindR_Inr if_False)
  moreover have "i * PAGE_SIZE + phy_addr_start ?m = frame_addr pf s (unat i)"
    by (simp add: frame_addr_def add.commute)
  ultimately have "palloc pf s = Inr (frame_addr pf s (unat i), set_pool pf (?m\<lparr>pool_bitmap := b\<rparr>) s)"
    by simp
  then show thesis by (rule that [OF _ i(4,2,6,7,8)])
qed

lemma palloc_full:
  assumes "pools_ok s" and "used_frames pf s = {..<pool_frames pf s}"
  shows "\<exists>e. palloc pf s = Inl e"
proof -
  have "bitmap_ok (pool_bitmap (the_pool pf s))" using assms(1) by (cases pf) (auto simp: pools_ok_def)
  from bitmap_scan_full [OF this, of 1] assms(2) show ?thesis
    by (auto simp: palloc_def used_frames_def pool_frames_def)
qed

lemma pfree_frame:
  assumes "pools_ok s" and "i < pool_frames pf s"
  obtains b where "pfree (frame_addr pf s i) s = Inr (set_pool pf ((the_pool pf s)\<lparr>pool_bitmap := b\<rparr>) s)"
    and "bitmap_ok b" and "bit_cnt b = pool_frames pf s" and "used_bits b = used_frames pf s - {i}"
proof -
  let ?a = "frame_addr pf s i"
  have pf: "(if ?a \<ge> phy_addr_start (user_pool s) then PF_USER else PF_KERNEL) = pf"
    using frame_addr_unat [OF assms] assms by (cases pf) (auto simp: word_le_nat_alt pools_ok_def)
  have ok: "bitmap_ok (pool_bitmap (the_pool pf s))" using assms(1) by (cases pf) (auto simp: pools_ok_def)
  have n: "unat ((?a - phy_addr_start (the_pool pf s)) div PAGE_SIZE) = i"
    using frame_no_addr [OF assms] by (simp add: frame_no_def)
  with assms(2) have "unat ((?a - phy_addr_start (the_pool pf s)) div PAGE_SIZE) < bit_cnt (pool_bitmap (the_pool pf s))"
    by (simp add: pool_frames_def)
  from bitmap_set_used [OF ok this, of 0] obtain b where b:
    "bitmap_set (pool_bitmap (the_pool pf s)) ((?a - phy_addr_start (the_pool pf s)) div PAGE_SIZE) 0 = Inr b"
    "bitmap_ok b" "bit_cnt b = bit_cnt (pool_bitmap (the_pool pf s))"
    "used_bits b = used_bits (pool_bitmap (the_pool pf s)) - {i}" using n by auto
  have "pfree ?a s = Inr (set_pool pf ((the_pool pf s)\<lparr>pool_bitmap := b\<rparr>) s)"
    unfolding pfree_def Let_def pf using b(1) by simp
  then show thesis using b by (intro that) (auto simp: pool_frames_def used_frames_def)
qed

text \<open>The frames of either pool are a pool of slots.\<close>

lemma frames_slots:
  "slot_pool pools_ok (pool_frames pf) (used_frames pf)
    (\<lambda>s. bindR (palloc pf s) (\<lambda>(a, s'). Inr (frame_no pf s a, s'))) (\<lambda>s i. pfree (frame_addr pf s i) s)"
proof unfold_locales
  fix s :: "'a kmem_scheme"
  show "used_frames pf s \<subseteq> {..<pool_frames pf s}"
    unfolding used_frames_def pool_frames_def by (rule used_bits_bound)
  assume ok: "pools_ok s"
  show "\<exists>i s'. bindR (palloc pf s) (\<lambda>(a, s'). Inr (frame_no pf s a, s')) = Inr (i, s')
    \<and> i \<notin> used_frames pf s \<and> i < pool_frames pf s \<and> used_frames pf s' = insert i (used_frames pf s)
    \<and> pools_ok s' \<and> pool_frames pf s' = pool_frames pf s"
    if free: "used_frames pf s \<noteq> {..<pool_frames pf s}"
    by (rule palloc_free [OF ok free]) (auto simp: frame_no_addr [OF ok] pool_swap_ok [OF ok])
  show "\<exists>e. bindR (palloc pf s) (\<lambda>(a, s'). Inr (frame_no pf s a, s')) = Inl e"
    if "used_frames pf s = {..<pool_frames pf s}"
    using palloc_full [OF ok that] by auto
  show "\<exists>s'. pfree (frame_addr pf s i) s = Inr s' \<and> used_frames pf s' = used_frames pf s - {i}
    \<and> pools_ok s' \<and> pool_frames pf s' = pool_frames pf s" if i: "i < pool_frames pf s" for i
    by (rule pfree_frame [OF ok i]) (auto simp: pool_swap_ok [OF ok])
qed

interpretation kframes: slot_pool pools_ok "pool_frames PF_KERNEL" "used_frames PF_KERNEL"
  "\<lambda>s. bindR (palloc PF_KERNEL s) (\<lambda>(a, s'). Inr (frame_no PF_KERNEL s a, s'))"
  "\<lambda>s i. pfree (frame_addr PF_KERNEL s i) s"
  by (rule frames_slots)

interpretation uframes: slot_pool pools_ok "pool_frames PF_USER" "used_frames PF_USER"
  "\<lambda>s. bindR (palloc PF_USER s) (\<lambda>(a, s'). Inr (frame_no PF_USER s a, s'))"
  "\<lambda>s i. pfree (frame_addr PF_USER s i) s"
  by (rule frames_slots)

text \<open>
  A pool with a free frame: \<^verbatim>\<open>palloc\<close> gives a page-aligned address that is not null, of a frame
  that was free and now is used, without touching the other pool; \<^verbatim>\<open>pfree\<close> of that address finds
  the right pool by itself and makes exactly this frame free again.
\<close>

theorem palloc_pfree_roundtrip:
  assumes "pools_ok s" and "used_frames pf s \<noteq> {..<pool_frames pf s}"
  shows "\<exists>a s' s''. palloc pf s = Inr (a, s') \<and> a \<noteq> 0 \<and> frame_of a = a
    \<and> frame_no pf s a \<notin> used_frames pf s \<and> frame_no pf s a < pool_frames pf s
    \<and> (\<forall>pf'. used_frames pf' s' =
          (if pf' = pf then insert (frame_no pf s a) (used_frames pf s) else used_frames pf' s))
    \<and> pfree a s' = Inr s'' \<and> (\<forall>pf'. used_frames pf' s'' = used_frames pf' s)"
proof -
  from palloc_free [OF assms] obtain i b where p:
    "palloc pf s = Inr (frame_addr pf s i, set_pool pf ((the_pool pf s)\<lparr>pool_bitmap := b\<rparr>) s)"
    "i \<notin> used_frames pf s" "i < pool_frames pf s" "bitmap_ok b" "bit_cnt b = pool_frames pf s"
    "used_bits b = insert i (used_frames pf s)" .
  let ?s = "set_pool pf ((the_pool pf s)\<lparr>pool_bitmap := b\<rparr>) s"
  note sw = pool_swap_ok [OF assms(1) p(4,5)]
  have i: "i < pool_frames pf ?s" using p(3) sw(2) by simp
  from pfree_frame [OF sw(1) i] obtain b' where f:
    "pfree (frame_addr pf ?s i) ?s = Inr (set_pool pf ((the_pool pf ?s)\<lparr>pool_bitmap := b'\<rparr>) ?s)"
    "bitmap_ok b'" "bit_cnt b' = pool_frames pf ?s" "used_bits b' = used_frames pf ?s - {i}" .
  note sw' = pool_swap_ok [OF sw(1) f(2,3)]
  have "pfree (frame_addr pf s i) ?s = Inr (set_pool pf ((the_pool pf ?s)\<lparr>pool_bitmap := b'\<rparr>) ?s)"
    using f(1) unfolding sw(4) .
  moreover have "used_frames pf' (set_pool pf ((the_pool pf ?s)\<lparr>pool_bitmap := b'\<rparr>) ?s) = used_frames pf' s" for pf'
    using p(2,6) unfolding sw'(3) f(4) sw(3) by auto
  ultimately show ?thesis
    using p(1,2,3,6) sw(3) frame_no_addr [OF assms(1) p(3)] frame_addr_pos [OF assms(1) p(3)] by metis
qed

definition small_pools :: kmem where
  "small_pools = kernel.extend small_kernel
     \<lparr>kernel_pool = \<lparr>pool_lock = lock_init, pool_bitmap = \<lparr>btmp_bytes_len = 1, bits = [7]\<rparr>,
        phy_addr_start = 0x200000, pool_size = 0x8000\<rparr>,
      user_pool = \<lparr>pool_lock = lock_init, pool_bitmap = \<lparr>btmp_bytes_len = 1, bits = [0]\<rparr>,
        phy_addr_start = 0x208000, pool_size = 0x8000\<rparr>,
      kernel_vaddr = \<lparr>vaddr_bitmap = \<lparr>btmp_bytes_len = 1, bits = [1]\<rparr>, vaddr_start = K_HEAP_START\<rparr>,
      k_block_descs = block_desc_init, arenas = (\<lambda>_ _. None)\<rparr>"

lemma small_pools_simps [simp]:
  "kernel_pool small_pools = \<lparr>pool_lock = lock_init, pool_bitmap = \<lparr>btmp_bytes_len = 1, bits = [7]\<rparr>,
        phy_addr_start = 0x200000, pool_size = 0x8000\<rparr>"
  "user_pool small_pools = \<lparr>pool_lock = lock_init, pool_bitmap = \<lparr>btmp_bytes_len = 1, bits = [0]\<rparr>,
        phy_addr_start = 0x208000, pool_size = 0x8000\<rparr>"
  by (simp_all add: small_pools_def kernel.extend_def)

lemma small_pools_ok:
  "pools_ok small_pools" "pool_frames PF_KERNEL small_pools = 8" "pool_frames PF_USER small_pools = 8"
  by (simp_all add: pools_ok_def pool_frames_def bit_cnt_def bitmap_ok_def frame_of_def)

lemma small_pools_used: "used_frames PF_KERNEL small_pools = {0, 1, 2}"
proof -
  let ?b = "\<lparr>btmp_bytes_len = 1, bits = [7]\<rparr>"
  have "filter (bit_at ?b) [0..<8] = [0, 1, 2]" by code_simp
  then have "set (filter (bit_at ?b) [0..<8]) = set [0, 1, 2]" by (rule arg_cong)
  moreover have "used_frames PF_KERNEL small_pools = set (filter (bit_at ?b) [0..<8])"
    by (auto simp: used_frames_def used_bits_def bit_cnt_def)
  ultimately show ?thesis by simp
qed

lemma small_pools_room: "used_frames PF_KERNEL small_pools \<noteq> {..<pool_frames PF_KERNEL small_pools}"
proof
  assume a: "used_frames PF_KERNEL small_pools = {..<pool_frames PF_KERNEL small_pools}"
  have "7 < pool_frames PF_KERNEL small_pools" by (simp only: small_pools_ok(2))
  then have "7 \<in> {0, 1, 2 :: nat}" unfolding small_pools_used [symmetric] a by (rule lessThan_iff [THEN iffD2])
  then show False by simp
qed

theorem palloc_pfree_roundtrip_witness:
  "\<exists>a s' s''. palloc PF_KERNEL small_pools = Inr (a, s') \<and> a \<noteq> 0
    \<and> pfree a s' = Inr s'' \<and> used_frames PF_KERNEL s'' = {0, 1, 2}"
proof -
  from palloc_pfree_roundtrip [OF small_pools_ok(1) small_pools_room] obtain a s' s'' where
    "palloc PF_KERNEL small_pools = Inr (a, s')" "a \<noteq> 0" "pfree a s' = Inr s''"
    "used_frames PF_KERNEL s'' = used_frames PF_KERNEL small_pools" by blast
  then show ?thesis unfolding small_pools_used by blast
qed

text \<open>
  C28. As many frames as the kernel pool has left can be taken from it; their addresses are pairwise
  different, none was in use, and none lies in the user pool.
\<close>

theorem frames_never_shared:
  assumes "pools_ok s" and "card (used_frames PF_KERNEL s) + n \<le> pool_frames PF_KERNEL s"
  shows "\<exists>ks s'. take_n (\<lambda>s. bindR (palloc PF_KERNEL s) (\<lambda>(a, s'). Inr (frame_no PF_KERNEL s a, s'))) n s
      = Inr (ks, s') \<and> length ks = n \<and> distinct (map (frame_addr PF_KERNEL s) ks)
    \<and> set ks \<inter> used_frames PF_KERNEL s = {}
    \<and> frame_addr PF_KERNEL s ` set ks \<inter> frame_addr PF_USER s ` {..<pool_frames PF_USER s} = {}"
proof -
  from kframes.take_n_distinct [OF assms] obtain ks s' where t:
    "take_n (\<lambda>s. bindR (palloc PF_KERNEL s) (\<lambda>(a, s'). Inr (frame_no PF_KERNEL s a, s'))) n s = Inr (ks, s')"
    "length ks = n" "distinct ks" "set ks \<inter> used_frames PF_KERNEL s = {}"
    "used_frames PF_KERNEL s' = used_frames PF_KERNEL s \<union> set ks" "pools_ok s'"
    "pool_frames PF_KERNEL s' = pool_frames PF_KERNEL s" by blast
  have b: "set ks \<subseteq> {..<pool_frames PF_KERNEL s}"
    using t(5,7) kframes.used_bound [OF t(6)] by auto
  have "inj_on (frame_addr PF_KERNEL s) (set ks)"
    by (rule inj_on_inverseI [of _ "frame_no PF_KERNEL s"]) (use b frame_no_addr [OF assms(1)] in auto)
  with t(3) have "distinct (map (frame_addr PF_KERNEL s) ks)" by (simp add: distinct_map)
  moreover have "frame_addr PF_KERNEL s i \<noteq> frame_addr PF_USER s j"
    if "i \<in> set ks" "j < pool_frames PF_USER s" for i j
    by (rule frame_addr_apart [OF assms(1)]) (use b that in auto)
  ultimately show ?thesis using t(1,2,4) by (intro exI [of _ ks] exI [of _ s']) auto
qed

theorem frames_never_shared_witness:
  "\<exists>ks s'. take_n (\<lambda>s. bindR (palloc PF_KERNEL s) (\<lambda>(a, s'). Inr (frame_no PF_KERNEL s a, s'))) 5 small_pools
      = Inr (ks, s') \<and> length ks = 5 \<and> distinct (map (frame_addr PF_KERNEL small_pools) ks)"
proof -
  have "card (used_frames PF_KERNEL small_pools) + 5 \<le> pool_frames PF_KERNEL small_pools"
    unfolding small_pools_used small_pools_ok by simp
  from frames_never_shared [OF small_pools_ok(1) this] show ?thesis by blast
qed

lemma zero_bitmap:
  assumes "8 * unat n < 2 ^ 31"
  shows "bitmap_ok \<lparr>btmp_bytes_len = n, bits = replicate (unat n) 0\<rparr>"
    and "used_bits \<lparr>btmp_bytes_len = n, bits = replicate (unat n) 0\<rparr> = {}"
  using assms by (auto simp: bitmap_ok_def bit_cnt_def used_bits_def bit_at_def)

lemma unat_ucast_u16 [simp]: "unat (ucast (w :: u16) :: u32) = unat w"
proof -
  have "unat w < 2 ^ 16" using unsigned_less [of w] by simp
  then show ?thesis by (simp add: unsigned_ucast_eq take_bit_nat_eq_self)
qed

lemma eighths: "x = 8 * (x div 8) + x mod 8" "x mod 8 < 8" for x :: nat
  by simp_all

lemma free_pages_count:
  fixes m :: u32
  assumes "0x200000 \<le> unat m" and "unat m < 0x10200000"
  shows "unat (ucast ((m - 0x200000) div 4096) :: u16) = (unat m - 0x200000) div 4096"
proof -
  have "unat (m - 0x200000) = unat m - 0x200000" using assms(1) by (subst unat_sub_small) auto
  then have "unat ((m - 0x200000) div 4096) = (unat m - 0x200000) div 4096" by (simp add: unat_div)
  moreover have "(unat m - 0x200000) div 4096 < 2 ^ 16" using assms by simp
  ultimately show ?thesis by (simp add: unsigned_ucast_eq take_bit_nat_eq_self)
qed

text \<open>
  C29. On a machine with at least 2 MB and less than 258 MB, \<^verbatim>\<open>mem_pool_init\<close> gives the kernel pool
  the frames from 2 MB on and the user pool frames behind them, all free, all inside the memory,
  and all but at most fifteen of the whole frames that are left.
\<close>

theorem mem_pool_init_partitions:
  fixes s :: "'a kmem_scheme"
  assumes "0x200000 \<le> unat m" and "unat m < 0x10200000"
  shows "pools_ok (mem_pool_init m s) \<and> phy_addr_start (kernel_pool (mem_pool_init m s)) = 0x200000
    \<and> used_frames PF_KERNEL (mem_pool_init m s) = {} \<and> used_frames PF_USER (mem_pool_init m s) = {}
    \<and> unat (phy_addr_start (user_pool (mem_pool_init m s))) + 4096 * pool_frames PF_USER (mem_pool_init m s)
        \<le> unat m
    \<and> (unat m - 0x200000) div 4096
        \<le> pool_frames PF_KERNEL (mem_pool_init m s) + pool_frames PF_USER (mem_pool_init m s) + 15"
proof -
  define s' where "s' = mem_pool_init m s"
  define n where "n = (unat m - 0x200000) div 4096"
  define fp :: u16 where "fp = ucast ((m - 0x200000) div 4096)"
  have n: "n < 2 ^ 16" using assms by (simp add: n_def)
  have fp: "unat fp = n" unfolding fp_def n_def using assms(1,2) by (rule free_pages_count)
  have k: "unat (fp div 2) = n div 2" by (simp add: unat_div fp)
  have u: "unat (fp - fp div 2) = n - n div 2" using k fp by (subst unat_sub_small) auto
  have kl: "unat (ucast (fp div 2 div 8) :: u32) = n div 2 div 8" by (simp add: unat_div fp)
  have ul: "unat (ucast ((fp - fp div 2) div 8) :: u32) = (n - n div 2) div 8" using u by (simp add: unat_div)
  have km: "unat (ucast (fp div 2) * 4096 :: u32) = n div 2 * 4096"
    using n k by (subst unat_mult_small) auto
  have up: "unat (0x200000 + ucast (fp div 2) * 4096 :: u32) = 0x200000 + n div 2 * 4096"
    using n km by (subst unat_add_small) auto
  have al: "frame_of (0x200000 + ucast (fp div 2) * 4096) = 0x200000 + ucast (fp div 2) * 4096"
    by (simp only: word_unat_eq_iff unat_parts(4) up) simp
  let ?kb = "\<lparr>btmp_bytes_len = ucast (fp div 2 div 8), bits = replicate (unat (ucast (fp div 2 div 8) :: u32)) 0\<rparr>"
  let ?ub = "\<lparr>btmp_bytes_len = ucast ((fp - fp div 2) div 8),
    bits = replicate (unat (ucast ((fp - fp div 2) div 8) :: u32)) 0\<rparr>"
  have s': "pool_bitmap (kernel_pool s') = ?kb" "pool_bitmap (user_pool s') = ?ub"
    "phy_addr_start (kernel_pool s') = 0x200000"
    "phy_addr_start (user_pool s') = 0x200000 + ucast (fp div 2) * 4096"
    by (simp_all add: s'_def mem_pool_init_def Let_def PAGE_SIZE_def fp_def)
  have kb: "bitmap_ok ?kb" "used_bits ?kb = {}" by (rule zero_bitmap; use n kl in simp)+
  have ub: "bitmap_ok ?ub" "used_bits ?ub = {}" by (rule zero_bitmap; use n ul in simp)+
  have fr: "pool_frames PF_KERNEL s' = 8 * (n div 2 div 8)" "pool_frames PF_USER s' = 8 * ((n - n div 2) div 8)"
    unfolding pool_frames_def bit_cnt_def the_pool_simps s' by (simp_all only: bitmap.simps kl ul)
  have m: "0x200000 + 4096 * n \<le> unat m" using assms(1) by (simp add: n_def)
  have a: "n div 2 * 4096 + 32768 * ((n - n div 2) div 8) \<le> 4096 * n"
    "n \<le> 8 * (n div 2 div 8) + 8 * ((n - n div 2) div 8) + 15"
    using eighths [of "n div 2"] eighths [of "n - n div 2"] by linarith+
  have "pools_ok s'"
    unfolding pools_ok_def s' fr up using kb(1) ub(1) n al by (simp add: frame_of_def)
  then show ?thesis
    unfolding s'_def [symmetric] fr s' used_frames_def the_pool_simps up using kb ub m a by (simp flip: n_def)
qed

theorem mem_pool_init_partitions_witness:
  "pools_ok (mem_pool_init 0x2000000 small_pools)
   \<and> phy_addr_start (kernel_pool (mem_pool_init 0x2000000 small_pools)) = 0x200000"
  using mem_pool_init_partitions [of "0x2000000" small_pools] by simp

text \<open>The number of free pages is kept in 16 bits: on a machine with 258 MB nothing is left for either
  pool.\<close>

lemma mem_pool_init_truncates:
  "pool_frames PF_KERNEL (mem_pool_init 0x10200000 s) = 0 \<and> pool_frames PF_USER (mem_pool_init 0x10200000 s) = 0"
  by (simp add: mem_pool_init_def pool_frames_def bit_cnt_def PAGE_SIZE_def)

end
