(* ===== verification/Heap.thy ===== *)
theory Heap
  imports Memory
begin

section \<open>The heap (\<^verbatim>\<open>sys_malloc\<close> and \<^verbatim>\<open>sys_free\<close> of \<^verbatim>\<open>kernel/memory.c\<close>)\<close>

text \<open>
  \<^verbatim>\<open>sys_malloc\<close> cuts a page into blocks of one of seven sizes, 16 to 1024 bytes, behind a header
  of 12 bytes, the arena; larger requests get pages of their own. The free blocks of a size are
  in the list of its descriptor, and a page whose blocks are all free is given back. A free block's
  list links lie in the block itself; the model keeps the lists as lists of block addresses, and
  zeroing a block is a write to the memory as in the code.
\<close>

subsection \<open>The routines\<close>

definition get_desc :: "desc_ref \<Rightarrow> 'a kmem_scheme \<Rightarrow> mem_block_desc res" where
  "get_desc r s = (case r of KDesc i \<Rightarrow> rd (k_block_descs s) i
     | UDesc p i \<Rightarrow> bindR (pcb p s) (\<lambda>t. rd (u_block_desc t) i))"

definition set_desc :: "desc_ref \<Rightarrow> mem_block_desc \<Rightarrow> 'a kmem_scheme \<Rightarrow> 'a kmem_scheme res" where
  "set_desc r d s = (case r of
       KDesc i \<Rightarrow> bindR (wr (k_block_descs s) i d) (\<lambda>ds. Inr (s\<lparr>k_block_descs := ds\<rparr>))
     | UDesc p i \<Rightarrow> bindR (pcb p s) (\<lambda>t. bindR (wr (u_block_desc t) i d) (\<lambda>ds.
         upd_pcb p (\<lambda>t. t\<lparr>u_block_desc := ds\<rparr>) s)))"

text \<open>The address space an address belongs to: 0 for the kernel's part, which all processes share,
  and the page directory for the rest.\<close>

definition space_of :: "u32 \<Rightarrow> 'a cpu_scheme \<Rightarrow> u32" where
  "space_of a s = (if a \<ge> 0xc0000000 then 0 else cr3 s)"

definition arena_at :: "u32 \<Rightarrow> 'a kmem_scheme \<Rightarrow> arena res" where
  "arena_at a s = (case arenas s (space_of a s) a of None \<Rightarrow> Inl Bad_Access | Some ar \<Rightarrow> Inr ar)"

definition set_arena :: "u32 \<Rightarrow> arena option \<Rightarrow> 'a kmem_scheme \<Rightarrow> 'a kmem_scheme" where
  "set_arena a ar s = s\<lparr>arenas := (arenas s)(space_of a s := (arenas s (space_of a s))(a := ar))\<rparr>"

text \<open>The address of a block from the descriptor behind \<^verbatim>\<open>a->desc\<close>.\<close>

definition arena2block :: "u32 \<Rightarrow> mem_block_desc \<Rightarrow> u32 \<Rightarrow> u32" where
  "arena2block a d idx = a + ARENA_SIZE + idx * block_size d"

definition block2arena :: "u32 \<Rightarrow> u32" where
  "block2arena b = b AND 0xfffff000"

text \<open>The search for the size class, in the array of descriptors.\<close>

primrec find_desc :: "nat \<Rightarrow> nat \<Rightarrow> (nat \<Rightarrow> desc_ref) \<Rightarrow> u32 \<Rightarrow> 'a kmem_scheme \<Rightarrow> nat res" where
  "find_desc 0 desc_idx dref sz s = Inr desc_idx"
| "find_desc (Suc n) desc_idx dref sz s =
     bindR (get_desc (dref desc_idx) s) (\<lambda>d.
     if sz \<le> block_size d then Inr desc_idx else find_desc n (Suc desc_idx) dref sz s)"

text \<open>Cutting a new arena into blocks: the descriptor with its longer list.\<close>

primrec fill_arena :: "nat \<Rightarrow> u32 \<Rightarrow> u32 \<Rightarrow> mem_block_desc \<Rightarrow> mem_block_desc res" where
  "fill_arena 0 block_idx a d = Inr d"
| "fill_arena (Suc n) block_idx a d =
     (let b = arena2block a d block_idx in
      ASSERT (b \<notin> set (free_list d))
        (bindR (kl_append b (free_list d)) (\<lambda>l. fill_arena n (block_idx + 1) a (d\<lparr>free_list := l\<rparr>))))"

definition new_arena :: "pool_flags \<Rightarrow> desc_ref \<Rightarrow> 'a kmem_scheme \<Rightarrow> (bool \<times> 'a kmem_scheme) res" where
  "new_arena pf r s =
     bindR (malloc_page pf 1 s) (\<lambda>(a, s1).
     if a = 0 then Inr (False, s1)
     else
       bindR (vmemset0 a PAGE_SIZE s1) (\<lambda>s2.
       bindR (get_desc r s2) (\<lambda>d.
       let s3 = set_arena a (Some \<lparr>arena_desc = Some r, arena_cnt = blocks_pre_arena d, arena_large = False\<rparr>) s2;
           (old_status, fl) = intr_disable (eflags s3) in
       bindR (fill_arena (unat (blocks_pre_arena d)) 0 a d) (\<lambda>d1.
       bindR (set_desc r d1 (s3\<lparr>eflags := fl\<rparr>)) (\<lambda>s4.
       Inr (True, s4\<lparr>eflags := snd (intr_set_status old_status (eflags s4))\<rparr>))))))"

definition take_block :: "desc_ref \<Rightarrow> 'a kmem_scheme \<Rightarrow> (u32 \<times> 'a kmem_scheme) res" where
  "take_block r s =
     bindR (get_desc r s) (\<lambda>d.
     bindR (kl_pop (free_list d)) (\<lambda>(b, l).
     bindR (set_desc r (d\<lparr>free_list := l\<rparr>) s) (\<lambda>s1.
     bindR (vmemset0 b (block_size d) s1) (\<lambda>s2.
     bindR (arena_at (block2arena b) s2) (\<lambda>ar.
     Inr (b, set_arena (block2arena b) (Some (ar\<lparr>arena_cnt := arena_cnt ar - 1\<rparr>)) s2))))))"

definition malloc_small :: "pool_flags \<Rightarrow> (nat \<Rightarrow> desc_ref) \<Rightarrow> u32 \<Rightarrow> 'a kmem_scheme \<Rightarrow> (u32 \<times> 'a kmem_scheme) res" where
  "malloc_small pf dref sz s =
     bindR (find_desc DESC_CNT 0 dref sz s) (\<lambda>desc_idx.
     bindR (get_desc (dref desc_idx) s) (\<lambda>d.
     bindR (if free_list d = [] then new_arena pf (dref desc_idx) s else Inr (True, s)) (\<lambda>(ok, s1).
     if ok then take_block (dref desc_idx) s1 else Inr (0, s1))))"

definition malloc_large :: "pool_flags \<Rightarrow> u32 \<Rightarrow> 'a kmem_scheme \<Rightarrow> (u32 \<times> 'a kmem_scheme) res" where
  "malloc_large pf sz s =
     (let page_cnt = DIV_ROUND_UP (sz + ARENA_SIZE) PAGE_SIZE in
      bindR (malloc_page pf page_cnt s) (\<lambda>(a, s1).
      if a \<noteq> 0 then
        bindR (vmemset0 a (page_cnt * PAGE_SIZE) s1) (\<lambda>s2.
        Inr (a + ARENA_SIZE,
             set_arena a (Some \<lparr>arena_desc = None, arena_cnt = page_cnt, arena_large = True\<rparr>) s2))
      else Inr (0, s1)))"

definition task_pool :: "task_struct \<Rightarrow> pool_flags" where
  "task_pool t = (if pgdir t = 0 then PF_KERNEL else PF_USER)"

definition task_descs :: "u32 \<Rightarrow> task_struct \<Rightarrow> nat \<Rightarrow> desc_ref" where
  "task_descs cur t = (if pgdir t = 0 then KDesc else UDesc cur)"

definition sys_malloc :: "u32 \<Rightarrow> 'a kmem_scheme \<Rightarrow> (u32 \<times> 'a kmem_scheme) res" where
  "sys_malloc sz s =
     bindR (pcb (running_thread s) s) (\<lambda>t.
     let pf = task_pool t in
     if \<not> (sz > 0 \<and> sz < pool_size (the_pool pf s)) then Inr (0, s)
     else
       bindR (acquire_pool pf s) (\<lambda>s1.
       bindR (if sz > 1024 then malloc_large pf sz s1
              else malloc_small pf (task_descs (running_thread s) t) sz s1) (\<lambda>(p, s2).
       bindR (release_pool pf s2) (\<lambda>s3. Inr (p, s3)))))"

text \<open>Taking the blocks of a whole arena off the list.\<close>

primrec unlink_blocks :: "nat \<Rightarrow> u32 \<Rightarrow> u32 \<Rightarrow> mem_block_desc \<Rightarrow> mem_block_desc res" where
  "unlink_blocks 0 block_idx a d = Inr d"
| "unlink_blocks (Suc n) block_idx a d =
     (let b = arena2block a d block_idx in
      ASSERT (b \<in> set (free_list d))
        (bindR (kl_remove b (free_list d)) (\<lambda>l. unlink_blocks n (block_idx + 1) a (d\<lparr>free_list := l\<rparr>))))"

definition free_block :: "pool_flags \<Rightarrow> u32 \<Rightarrow> arena \<Rightarrow> desc_ref \<Rightarrow> 'a kmem_scheme \<Rightarrow> 'a kmem_scheme res" where
  "free_block pf b ar r s =
     (let a = block2arena b; n = arena_cnt ar + 1 in
      bindR (get_desc r s) (\<lambda>d.
      bindR (kl_append b (free_list d)) (\<lambda>l.
      let d1 = d\<lparr>free_list := l\<rparr>; s1 = set_arena a (Some (ar\<lparr>arena_cnt := n\<rparr>)) s in
      if n = blocks_pre_arena d1 then
        bindR (unlink_blocks (unat (blocks_pre_arena d1)) 0 a d1) (\<lambda>d2.
        bindR (set_desc r d2 s1) (\<lambda>s2.
        bindR (mfree_page pf a 1 s2) (\<lambda>s3. Inr (set_arena a None s3))))
      else set_desc r d1 s1)))"

text \<open>Once its pages are given back, an arena's header is gone.\<close>

definition sys_free :: "u32 \<Rightarrow> 'a kmem_scheme \<Rightarrow> 'a kmem_scheme res" where
  "sys_free ptr s =
     (if ptr = 0 then Inr s
      else
        bindR (pcb (running_thread s) s) (\<lambda>t.
        let pf = task_pool t in
        ASSERT (pgdir t = 0 \<longrightarrow> ptr \<ge> K_HEAP_START)
          (bindR (acquire_pool pf s) (\<lambda>s1.
           let a = block2arena ptr in
           bindR (arena_at a s1) (\<lambda>ar.
           bindR (if arena_desc ar = None \<and> arena_large ar then
                    bindR (mfree_page pf a (arena_cnt ar) s1) (\<lambda>s2. Inr (set_arena a None s2))
                  else case arena_desc ar of None \<Rightarrow> Inl Bad_Access
                       | Some r \<Rightarrow> free_block pf ptr ar r s1) (\<lambda>s2.
           release_pool pf s2))))))"

subsection \<open>The shape of an arena\<close>

definition blk_size :: "nat \<Rightarrow> nat" where
  "blk_size i = 16 * 2 ^ i"

definition blk_cnt :: "nat \<Rightarrow> nat" where
  "blk_cnt i = 4084 div blk_size i"

definition arena_block :: "u32 \<Rightarrow> nat \<Rightarrow> nat \<Rightarrow> u32" where
  "arena_block a i k = a + ARENA_SIZE + of_nat k * of_nat (blk_size i)"

definition arena_blocks :: "u32 \<Rightarrow> nat \<Rightarrow> u32 set" where
  "arena_blocks a i = arena_block a i ` {..<blk_cnt i}"

lemma blk_bounds:
  assumes "k < blk_cnt i"
  shows "12 + k * blk_size i + blk_size i \<le> 4096" and "0 < blk_size i"
proof -
  show p: "0 < blk_size i" by (simp add: blk_size_def)
  have "Suc k * blk_size i \<le> blk_cnt i * blk_size i" using assms by (intro mult_le_mono1) simp
  also have "\<dots> \<le> 4084" unfolding blk_cnt_def by (rule div_times_less_eq_dividend)
  finally show "12 + k * blk_size i + blk_size i \<le> 4096" by simp
qed

lemma blk_cnt_less: "blk_cnt i < 256"
proof -
  have "16 \<le> blk_size i" by (simp add: blk_size_def)
  then have "blk_cnt i * 16 \<le> blk_cnt i * blk_size i" by (rule mult_le_mono2)
  also have "\<dots> \<le> 4084" unfolding blk_cnt_def by (rule div_times_less_eq_dividend)
  finally show ?thesis by simp
qed

lemma aligned_unat: "frame_of a = a \<Longrightarrow> unat a = 4096 * (unat a div 4096) \<and> unat a + 4096 \<le> 2 ^ 32"
proof -
  assume "frame_of a = a"
  then have "unat (frame_of a) = unat a" by simp
  then have "unat a = 4096 * (unat a div 4096)" unfolding unat_parts(4) by simp
  then obtain q where q: "unat a = 4096 * q" by blast
  then have "q < 2 ^ 20" using unat_u32_lt [of a] by simp
  then show ?thesis unfolding q by simp
qed

lemma block2arena_frame: "block2arena b = frame_of b"
  by (simp add: block2arena_def frame_of_def)

lemma in_page:
  assumes "frame_of a = a" and "unat b = unat a + n" and "n < 4096"
  shows "block2arena b = a"
proof -
  obtain q where q: "unat a = 4096 * q" using aligned_unat [OF assms(1)] by blast
  have "unat (frame_of b) = unat a" unfolding unat_parts(4) assms(2) q using assms(3) by simp
  then show ?thesis unfolding block2arena_frame by (rule unsigned_word_eqI)
qed

lemma arena_block_unat:
  assumes "frame_of a = a" and "k < blk_cnt i"
  shows "unat (arena_block a i k) = unat a + 12 + k * blk_size i"
proof -
  note a = aligned_unat [OF assms(1)] and b = blk_bounds [OF assms(2)]
  have "blk_size i < 2 ^ 32" "k < 2 ^ 32" using b blk_cnt_less [of i] assms(2) by auto
  then have u: "unat (of_nat k :: u32) = k" "unat (of_nat (blk_size i) :: u32) = blk_size i"
    by (simp_all add: unat_of_nat take_bit_nat_eq_self)
  then have m: "unat (of_nat k * of_nat (blk_size i) :: u32) = k * blk_size i"
    using b by (subst unat_mult_small) auto
  have s: "unat (a + ARENA_SIZE) = unat a + 12" using a by (subst unat_add_small) (auto simp: ARENA_SIZE_def)
  show ?thesis unfolding arena_block_def using a b m s by (subst unat_add_small) auto
qed

lemma arena_block_page:
  assumes "frame_of a = a" and "b \<in> arena_blocks a i"
  shows "block2arena b = a" and "unat a + 12 \<le> unat b" and "unat b + blk_size i \<le> unat a + 4096"
proof -
  from assms(2) obtain k where k: "k < blk_cnt i" "b = arena_block a i k" by (auto simp: arena_blocks_def)
  note u = arena_block_unat [OF assms(1) k(1), folded k(2)] and bb = blk_bounds [OF k(1)]
  show "block2arena b = a" by (rule in_page [OF assms(1), of _ "12 + k * blk_size i"]) (use u bb in auto)
  show "unat a + 12 \<le> unat b" "unat b + blk_size i \<le> unat a + 4096" using u bb by auto
qed

lemma arena_block_inj: "frame_of a = a \<Longrightarrow> inj_on (arena_block a i) {..<blk_cnt i}"
proof (rule inj_onI)
  fix k k' assume a: "frame_of a = a" "k \<in> {..<blk_cnt i}" "k' \<in> {..<blk_cnt i}" "arena_block a i k = arena_block a i k'"
  then have "unat a + 12 + k * blk_size i = unat a + 12 + k' * blk_size i"
    using arena_block_unat [OF a(1)] by (metis lessThan_iff)
  then show "k = k'" by (simp add: blk_size_def)
qed

lemma card_arena_blocks: "frame_of a = a \<Longrightarrow> card (arena_blocks a i) = blk_cnt i"
  unfolding arena_blocks_def by (subst card_image) (auto intro: arena_block_inj)

lemma finite_arena_blocks [simp]: "finite (arena_blocks a i)"
  by (simp add: arena_blocks_def)

lemma arena_blocks_apart:
  assumes "frame_of a = a" and "b \<in> arena_blocks a i" and "b' \<in> arena_blocks a i" and "b \<noteq> b'"
  shows "unat b + blk_size i \<le> unat b' \<or> unat b' + blk_size i \<le> unat b"
proof -
  from assms(2,3) obtain k k' where k: "k < blk_cnt i" "b = arena_block a i k"
    and k': "k' < blk_cnt i" "b' = arena_block a i k'" by (auto simp: arena_blocks_def)
  have u: "unat b = unat a + 12 + k * blk_size i" "unat b' = unat a + 12 + k' * blk_size i"
    using arena_block_unat [OF assms(1)] k k' by auto
  have "k < k' \<or> k' < k" using assms(4) k k' by (cases k k' rule: linorder_cases) auto
  then have "Suc k * blk_size i \<le> k' * blk_size i \<or> Suc k' * blk_size i \<le> k * blk_size i"
    using mult_le_mono1 [of "Suc k" k' "blk_size i"] mult_le_mono1 [of "Suc k'" k "blk_size i"] by auto
  then show ?thesis using u by auto
qed

subsection \<open>The invariant of the kernel's heap\<close>

text \<open>\<open>F i\<close> is the list of free blocks of size class \<open>i\<close>, \<open>A\<close> gives the arenas and \<open>U\<close> the numbers
  of the virtual pages in use.\<close>

definition npages :: "arena \<Rightarrow> nat" where
  "npages ar = (if arena_large ar then unat (arena_cnt ar) else 1)"

definition apages :: "u32 \<Rightarrow> arena \<Rightarrow> nat set" where
  "apages a ar = {unat a div 4096 ..< unat a div 4096 + npages ar}"

definition small_arena :: "(u32 \<Rightarrow> arena option) \<Rightarrow> u32 \<Rightarrow> arena \<Rightarrow> nat \<Rightarrow> bool" where
  "small_arena A a ar i \<longleftrightarrow> A a = Some ar \<and> arena_desc ar = Some (KDesc i) \<and> \<not> arena_large ar \<and> i < 7"

definition large_arena :: "(u32 \<Rightarrow> arena option) \<Rightarrow> u32 \<Rightarrow> arena \<Rightarrow> bool" where
  "large_arena A a ar \<longleftrightarrow> A a = Some ar \<and> arena_desc ar = None \<and> arena_large ar \<and> 0 < unat (arena_cnt ar)"

definition lists_ok :: "(nat \<Rightarrow> u32 list) \<Rightarrow> (u32 \<Rightarrow> arena option) \<Rightarrow> bool" where
  "lists_ok F A \<longleftrightarrow> (\<forall>i<7. distinct (F i)
     \<and> (\<forall>b\<in>set (F i). \<exists>ar. small_arena A (block2arena b) ar i \<and> b \<in> arena_blocks (block2arena b) i))"

definition arenas_ok :: "(nat \<Rightarrow> u32 list) \<Rightarrow> (u32 \<Rightarrow> arena option) \<Rightarrow> nat set \<Rightarrow> bool" where
  "arenas_ok F A U \<longleftrightarrow> (\<forall>a ar. A a = Some ar \<longrightarrow> frame_of a = a \<and> apages a ar \<subseteq> U
     \<and> (large_arena A a ar
        \<or> (\<exists>i. small_arena A a ar i \<and> unat (arena_cnt ar) = card (arena_blocks a i \<inter> set (F i)))))"

definition arenas_apart :: "(u32 \<Rightarrow> arena option) \<Rightarrow> bool" where
  "arenas_apart A \<longleftrightarrow> (\<forall>a ar a' ar'. A a = Some ar \<longrightarrow> A a' = Some ar' \<longrightarrow> a \<noteq> a'
     \<longrightarrow> apages a ar \<inter> apages a' ar' = {})"

definition kernel_pages :: "nat set \<Rightarrow> bool" where
  "kernel_pages U \<longleftrightarrow> U \<subseteq> {0xc0000 ..< 2 ^ 20}"

definition heap_inv :: "(nat \<Rightarrow> u32 list) \<Rightarrow> (u32 \<Rightarrow> arena option) \<Rightarrow> nat set \<Rightarrow> bool" where
  "heap_inv F A U \<longleftrightarrow> lists_ok F A \<and> arenas_ok F A U \<and> arenas_apart A \<and> kernel_pages U"

text \<open>What is allocated: the start and the length of every block that was given out.\<close>

definition live :: "(nat \<Rightarrow> u32 list) \<Rightarrow> (u32 \<Rightarrow> arena option) \<Rightarrow> (u32 \<times> nat) set" where
  "live F A = {(b, blk_size i) | a ar i b. small_arena A a ar i \<and> b \<in> arena_blocks a i \<and> b \<notin> set (F i)}
     \<union> {(a + ARENA_SIZE, 4096 * unat (arena_cnt ar) - 12) | a ar. large_arena A a ar}"

lemmas arena_defs = small_arena_def large_arena_def

lemma live_in_arena:
  assumes "heap_inv F A U" and "(b, n) \<in> live F A"
  obtains a ar where "A a = Some ar" and "unat a + 12 \<le> unat b" and "unat b + n \<le> unat a + 4096 * npages ar"
    and "unat a = 4096 * (unat a div 4096)" and "unat a div 4096 + npages ar \<le> 2 ^ 20" and "n > 0"
    and "large_arena A a ar \<and> b = a + ARENA_SIZE \<and> n = 4096 * unat (arena_cnt ar) - 12
       \<or> (\<exists>i. small_arena A a ar i \<and> b \<in> arena_blocks a i \<and> n = blk_size i)"
proof -
  have pg: "frame_of a = a \<and> unat a div 4096 + npages ar \<le> 2 ^ 20" if "A a = Some ar" "0 < npages ar" for a ar
  proof -
    have "apages a ar \<subseteq> {0xc0000 ..< 2 ^ 20}" and f: "frame_of a = a"
      using assms(1) that(1) by (auto simp: heap_inv_def arenas_ok_def kernel_pages_def)
    moreover have "unat a div 4096 + npages ar - 1 \<in> apages a ar" using that(2) by (auto simp: apages_def)
    ultimately have "unat a div 4096 + npages ar - 1 < 2 ^ 20" by auto
    with f that(2) show ?thesis by auto
  qed
  consider (small) a ar i where "small_arena A a ar i" "b \<in> arena_blocks a i" "n = blk_size i"
    | (large) a ar where "large_arena A a ar" "b = a + ARENA_SIZE" "n = 4096 * unat (arena_cnt ar) - 12"
    using assms(2) by (auto simp: live_def)
  then show thesis
  proof cases
    case small
    then have "A a = Some ar" "npages ar = 1" by (auto simp: small_arena_def npages_def)
    moreover have "frame_of a = a" using pg [of a ar] calculation by simp
    moreover have "0 < n" using small(3) by (simp add: blk_size_def)
    ultimately show ?thesis
      using small pg [of a ar] arena_block_page [OF \<open>frame_of a = a\<close> small(2)] aligned_unat [of a]
      by (intro that [of a ar]) auto
  next
    case large
    then have np: "A a = Some ar" "npages ar = unat (arena_cnt ar)" "0 < npages ar"
      by (auto simp: large_arena_def npages_def)
    then have f: "frame_of a = a" using pg by blast
    have b: "unat b = unat a + 12"
      unfolding large(2) using aligned_unat [OF f] by (subst unat_add_small) (auto simp: ARENA_SIZE_def)
    show ?thesis
      by (rule that [of a ar]) (use large np b pg [of a ar] aligned_unat [OF f] in auto)
  qed
qed

lemma ranges_apart:
  fixes x y :: nat
  assumes "{x ..< x + m} \<inter> {y ..< y + n} = {}"
  shows "x + m \<le> y \<or> y + n \<le> x \<or> m = 0 \<or> n = 0"
proof (rule ccontr)
  assume "\<not> ?thesis"
  then have "max x y \<in> {x ..< x + m} \<inter> {y ..< y + n}" by auto
  with assms show False by blast
qed

lemma live_apart:
  assumes "heap_inv F A U" and "(b, n) \<in> live F A" and "(b', n') \<in> live F A" and "(b, n) \<noteq> (b', n')"
  shows "unat b + n \<le> unat b' \<or> unat b' + n' \<le> unat b"
proof -
  obtain a ar where a: "A a = Some ar" "unat a + 12 \<le> unat b"
    "unat b + n \<le> unat a + 4096 * npages ar" "unat a = 4096 * (unat a div 4096)"
    "unat a div 4096 + npages ar \<le> 2 ^ 20" "n > 0"
    "large_arena A a ar \<and> b = a + ARENA_SIZE \<and> n = 4096 * unat (arena_cnt ar) - 12
       \<or> (\<exists>i. small_arena A a ar i \<and> b \<in> arena_blocks a i \<and> n = blk_size i)"
    by (rule live_in_arena [OF assms(1,2)])
  obtain a' ar' where a': "A a' = Some ar'" "unat a' + 12 \<le> unat b'"
    "unat b' + n' \<le> unat a' + 4096 * npages ar'" "unat a' = 4096 * (unat a' div 4096)"
    "unat a' div 4096 + npages ar' \<le> 2 ^ 20" "n' > 0"
    "large_arena A a' ar' \<and> b' = a' + ARENA_SIZE \<and> n' = 4096 * unat (arena_cnt ar') - 12
       \<or> (\<exists>i. small_arena A a' ar' i \<and> b' \<in> arena_blocks a' i \<and> n' = blk_size i)"
    by (rule live_in_arena [OF assms(1,3)])
  show ?thesis
  proof (cases "a = a'")
    case True
    then have "ar' = ar" using a(1) a'(1) by simp
    then obtain i where i: "small_arena A a ar i" "b \<in> arena_blocks a i" "n = blk_size i"
      "b' \<in> arena_blocks a i" "n' = blk_size i"
      using True a(7) a'(7) assms(4) by (auto simp: arena_defs)
    have "frame_of a = a" using assms(1) a(1) by (auto simp: heap_inv_def arenas_ok_def)
    from arena_blocks_apart [OF this i(2,4)] i(3,5) assms(4) show ?thesis by auto
  next
    case False
    then have "apages a ar \<inter> apages a' ar' = {}"
      using assms(1) a(1) a'(1) by (auto simp: heap_inv_def arenas_apart_def)
    then have "unat a div 4096 + npages ar \<le> unat a' div 4096 \<or> unat a' div 4096 + npages ar' \<le> unat a div 4096
      \<or> npages ar = 0 \<or> npages ar' = 0"
      unfolding apages_def by (rule ranges_apart)
    then show ?thesis using a(2,3,4) a'(2,3,4) by linarith
  qed
qed

text \<open>A change of the counter of a small arena.\<close>

lemma cnt_upd:
  assumes "small_arena A a ar i"
  shows "small_arena (A(a \<mapsto> ar\<lparr>arena_cnt := c\<rparr>)) x ar' j \<longleftrightarrow>
      (if x = a then j = i \<and> ar' = ar\<lparr>arena_cnt := c\<rparr> else small_arena A x ar' j)"
    and "large_arena (A(a \<mapsto> ar\<lparr>arena_cnt := c\<rparr>)) x ar' \<longleftrightarrow> large_arena A x ar'"
    and "apages x (ar\<lparr>arena_cnt := c\<rparr>) = apages x ar"
  using assms by (auto simp: arena_defs apages_def npages_def)

lemma small_arena_unique: "small_arena A a ar i \<Longrightarrow> small_arena A a ar' j \<Longrightarrow> ar' = ar \<and> j = i"
  by (auto simp: small_arena_def)

lemma small_arena_block:
  assumes "heap_inv F A U" and "small_arena A a ar i" and "b \<in> arena_blocks a i"
  shows "frame_of a = a" and "block2arena b = a"
    and "unat (arena_cnt ar) = card (arena_blocks a i \<inter> set (F i))"
proof -
  show f: "frame_of a = a" using assms(1,2) by (auto simp: heap_inv_def arenas_ok_def small_arena_def)
  show "block2arena b = a" using arena_block_page(1) [OF f assms(3)] .
  have "A a = Some ar" using assms(2) by (simp add: small_arena_def)
  with assms(1) have "large_arena A a ar
        \<or> (\<exists>i. small_arena A a ar i \<and> unat (arena_cnt ar) = card (arena_blocks a i \<inter> set (F i)))"
    by (auto simp: heap_inv_def arenas_ok_def)
  with assms(2) show "unat (arena_cnt ar) = card (arena_blocks a i \<inter> set (F i))"
    by (auto simp: arena_defs)
qed

lemma listed:
  assumes "heap_inv F A U" and "i < 7" and "b \<in> set (F i)"
  shows "\<exists>ar. small_arena A (block2arena b) ar i \<and> b \<in> arena_blocks (block2arena b) i"
  using assms unfolding heap_inv_def lists_ok_def by blast

text \<open>The invariant after a block of class \<open>i\<close> went off the list or onto it.\<close>

lemma heap_inv_move:
  assumes inv: "heap_inv F A U" and ar: "small_arena A a ar i" and bl: "b \<in> arena_blocks a i"
    and l: "distinct l" "set l \<subseteq> insert b (set (F i))" "set (F i) \<subseteq> insert b (set l)"
    and c: "unat c = card (arena_blocks a i \<inter> set l)"
  shows "heap_inv (F(i := l)) (A(a \<mapsto> ar\<lparr>arena_cnt := c\<rparr>)) U"
proof -
  let ?F = "F(i := l)" and ?A = "A(a \<mapsto> ar\<lparr>arena_cnt := c\<rparr>)"
  have i: "i < 7" "A a = Some ar" "\<not> arena_large ar" using ar by (auto simp: small_arena_def)
  note sb = small_arena_block [OF inv ar bl]
  have "\<exists>ar'. small_arena ?A (block2arena x) ar' j \<and> x \<in> arena_blocks (block2arena x) j"
    if j: "j < 7" and "x \<in> set (?F j)" for j x
  proof (cases "j = i \<and> x = b")
    case True
    then show ?thesis using sb(2) bl by (auto simp: cnt_upd(1) [OF ar])
  next
    case False
    then have "x \<in> set (F j)" using that l(2) by (auto split: if_splits)
    then obtain ar' where x: "small_arena A (block2arena x) ar' j" "x \<in> arena_blocks (block2arena x) j"
      using listed [OF inv j] by blast
    then show ?thesis using small_arena_unique [OF ar] by (auto simp: cnt_upd(1) [OF ar])
  qed
  then have "lists_ok ?F ?A" using inv l(1) by (auto simp: lists_ok_def heap_inv_def)
  moreover have "arenas_ok ?F ?A U"
    unfolding arenas_ok_def
  proof (intro allI impI)
    fix x ar' assume x: "?A x = Some ar'"
    show "frame_of x = x \<and> apages x ar' \<subseteq> U \<and> (large_arena ?A x ar' \<or>
      (\<exists>j. small_arena ?A x ar' j \<and> unat (arena_cnt ar') = card (arena_blocks x j \<inter> set (?F j))))"
    proof (cases "x = a")
      case True
      have "apages a ar \<subseteq> U" using inv i(2) unfolding heap_inv_def arenas_ok_def by blast
      then show ?thesis using True x c sb(1) by (auto simp: cnt_upd [OF ar])
    next
      case False
      then have ax: "A x = Some ar'" using x by simp
      then have fx: "frame_of x = x" "apages x ar' \<subseteq> U" and k: "large_arena A x ar' \<or>
        (\<exists>j. small_arena A x ar' j \<and> unat (arena_cnt ar') = card (arena_blocks x j \<inter> set (F j)))"
        using inv by (auto simp: heap_inv_def arenas_ok_def)
      have "b \<notin> arena_blocks x i" using arena_block_page(1) [OF fx(1), of b i] sb(2) False by auto
      then have "arena_blocks x i \<inter> set l = arena_blocks x i \<inter> set (F i)" using l(2,3) by auto
      then have "arena_blocks x j \<inter> set (?F j) = arena_blocks x j \<inter> set (F j)" for j by simp
      then show ?thesis using k fx False by (auto simp: cnt_upd [OF ar])
    qed
  qed
  moreover have "arenas_apart ?A"
    using inv i(2,3) by (auto simp: heap_inv_def arenas_apart_def cnt_upd(3) [OF ar])
  ultimately show ?thesis using inv by (simp add: heap_inv_def)
qed

lemma large_ptr:
  assumes "frame_of a = a"
  shows "block2arena (a + ARENA_SIZE) = a" and "unat (a + ARENA_SIZE) = unat a + 12"
proof -
  show u: "unat (a + ARENA_SIZE) = unat a + 12"
    using aligned_unat [OF assms] by (subst unat_add_small) (auto simp: ARENA_SIZE_def)
  show "block2arena (a + ARENA_SIZE) = a" by (rule in_page [OF assms u]) simp
qed

text \<open>An allocated block from its address.\<close>

lemma live_iff:
  assumes "\<forall>a ar. A a = Some ar \<longrightarrow> frame_of a = a"
  shows "(x, n) \<in> live F A \<longleftrightarrow>
    (\<exists>j ar. small_arena A (block2arena x) ar j \<and> x \<in> arena_blocks (block2arena x) j \<and> n = blk_size j \<and> x \<notin> set (F j))
    \<or> (\<exists>ar. large_arena A (block2arena x) ar \<and> x = block2arena x + ARENA_SIZE \<and> n = 4096 * unat (arena_cnt ar) - 12)"
    (is "_ \<longleftrightarrow> ?S \<or> ?L")
proof
  assume "(x, n) \<in> live F A"
  then consider (s) a ar j where "small_arena A a ar j" "x \<in> arena_blocks a j" "n = blk_size j" "x \<notin> set (F j)"
    | (l) a ar where "large_arena A a ar" "x = a + ARENA_SIZE" "n = 4096 * unat (arena_cnt ar) - 12"
    by (auto simp: live_def)
  then show "?S \<or> ?L"
  proof cases
    case s
    then have "block2arena x = a" using assms by (intro arena_block_page(1)) (auto simp: small_arena_def)
    with s show ?thesis by auto
  next
    case l
    then have "block2arena x = a" using large_ptr(1) [of a] assms by (auto simp: large_arena_def)
    with l show ?thesis by auto
  qed
next
  assume "?S \<or> ?L"
  then show "(x, n) \<in> live F A" unfolding live_def by blast
qed

lemma heap_inv_aligned: "heap_inv F A U \<Longrightarrow> \<forall>a ar. A a = Some ar \<longrightarrow> frame_of a = a"
  by (auto simp: heap_inv_def arenas_ok_def)

lemma live_move:
  assumes inv: "heap_inv F A U" and ar: "small_arena A a ar i" and bl: "b \<in> arena_blocks a i"
    and l: "set l \<subseteq> insert b (set (F i))" "set (F i) \<subseteq> insert b (set l)"
  shows "(x, n) \<in> live (F(i := l)) (A(a \<mapsto> ar\<lparr>arena_cnt := c\<rparr>)) \<longleftrightarrow>
    (if x = b \<and> n = blk_size i then b \<notin> set l else (x, n) \<in> live F A)"
proof -
  note sb = small_arena_block [OF inv ar bl]
  note al = heap_inv_aligned [OF inv]
  have al': "\<forall>y ar'. (A(a \<mapsto> ar\<lparr>arena_cnt := c\<rparr>)) y = Some ar' \<longrightarrow> frame_of y = y"
    using sb(1) al by auto
  have nl: "\<not> large_arena A a ar'" for ar' using ar by (auto simp: arena_defs)
  have xl: "x \<in> set l \<longleftrightarrow> x \<in> set (F i)" if "x \<noteq> b" using that l by auto
  have sz: "blk_size j = blk_size k \<longleftrightarrow> j = k" for j k by (simp add: blk_size_def)
  show ?thesis
  proof (cases "x = b")
    case True
    then show ?thesis
      unfolding live_iff [OF al] live_iff [OF al'] cnt_upd [OF ar]
      using sb(2) nl ar bl sz by (auto simp: small_arena_def)
  next
    case False
    have su: "small_arena A a ar' j \<longleftrightarrow> ar' = ar \<and> j = i" for ar' j
      using ar by (auto simp: small_arena_def)
    have fj: "x \<in> set ((F(i := l)) j) \<longleftrightarrow> x \<in> set (F j)" for j using xl [OF False] by simp
    from False show ?thesis
      unfolding live_iff [OF al] live_iff [OF al'] cnt_upd [OF ar] fj
      by (cases "block2arena x = a") (simp_all add: su)
  qed
qed

lemma heap_take:
  assumes inv: "heap_inv F A U" and "i < 7" and F: "F i = b # l"
  obtains ar where "A (block2arena b) = Some ar"
    and "heap_inv (F(i := l)) (A(block2arena b \<mapsto> ar\<lparr>arena_cnt := arena_cnt ar - 1\<rparr>)) U"
    and "live (F(i := l)) (A(block2arena b \<mapsto> ar\<lparr>arena_cnt := arena_cnt ar - 1\<rparr>)) = insert (b, blk_size i) (live F A)"
    and "(b, blk_size i) \<notin> live F A"
proof -
  obtain ar where ar: "small_arena A (block2arena b) ar i" "b \<in> arena_blocks (block2arena b) i"
    using listed [OF inv assms(2), of b] F by auto
  have "distinct (F i)" using inv assms(2) by (auto simp: heap_inv_def lists_ok_def)
  then have d: "distinct (b # l)" using F by simp
  note sb = small_arena_block [OF inv ar]
  have "arena_blocks (block2arena b) i \<inter> set (F i) = insert b (arena_blocks (block2arena b) i \<inter> set l)"
    using F ar(2) by auto
  then have c: "unat (arena_cnt ar) = Suc (card (arena_blocks (block2arena b) i \<inter> set l))"
    using sb(3) d by simp
  then have c': "unat (arena_cnt ar - 1) = card (arena_blocks (block2arena b) i \<inter> set l)"
    by (subst unat_sub_small) auto
  have s: "set l \<subseteq> insert b (set (F i))" "set (F i) \<subseteq> insert b (set l)" using F by auto
  show thesis
  proof (rule that)
    show "A (block2arena b) = Some ar" using ar(1) by (simp add: small_arena_def)
    show "heap_inv (F(i := l)) (A(block2arena b \<mapsto> ar\<lparr>arena_cnt := arena_cnt ar - 1\<rparr>)) U"
      using heap_inv_move [OF inv ar _ s c'] d by simp
    show "live (F(i := l)) (A(block2arena b \<mapsto> ar\<lparr>arena_cnt := arena_cnt ar - 1\<rparr>)) = insert (b, blk_size i) (live F A)"
      using live_move [OF inv ar s] d by (auto split: if_splits)
    show "(b, blk_size i) \<notin> live F A"
    proof
      assume "(b, blk_size i) \<in> live F A"
      then show False unfolding live_iff [OF heap_inv_aligned [OF inv]]
        using ar(1) F by (auto simp: arena_defs blk_size_def)
    qed
  qed
qed

lemma heap_put:
  assumes inv: "heap_inv F A U" and ar: "small_arena A (block2arena b) ar i"
    and bl: "b \<in> arena_blocks (block2arena b) i" and n: "b \<notin> set (F i)"
  shows "heap_inv (F(i := F i @ [b])) (A(block2arena b \<mapsto> ar\<lparr>arena_cnt := arena_cnt ar + 1\<rparr>)) U"
    and "live (F(i := F i @ [b])) (A(block2arena b \<mapsto> ar\<lparr>arena_cnt := arena_cnt ar + 1\<rparr>)) = live F A - {(b, blk_size i)}"
proof -
  note sb = small_arena_block [OF inv ar bl]
  have i: "i < 7" using ar by (simp add: small_arena_def)
  then have d: "distinct (F i)" using inv by (auto simp: heap_inv_def lists_ok_def)
  have "card (arena_blocks (block2arena b) i \<inter> set (F i)) \<le> card (arena_blocks (block2arena b) i)"
    by (rule card_mono) auto
  also have "\<dots> < 256" using card_arena_blocks [OF sb(1)] blk_cnt_less by simp
  finally have "unat (arena_cnt ar + 1) = unat (arena_cnt ar) + 1" using sb(3) by (subst unat_add_small) auto
  moreover have "arena_blocks (block2arena b) i \<inter> set (F i @ [b]) = insert b (arena_blocks (block2arena b) i \<inter> set (F i))"
    using bl by auto
  ultimately have c: "unat (arena_cnt ar + 1) = card (arena_blocks (block2arena b) i \<inter> set (F i @ [b]))"
    using n sb(3) by simp
  have s: "set (F i @ [b]) \<subseteq> insert b (set (F i))" "set (F i) \<subseteq> insert b (set (F i @ [b]))" by auto
  show "heap_inv (F(i := F i @ [b])) (A(block2arena b \<mapsto> ar\<lparr>arena_cnt := arena_cnt ar + 1\<rparr>)) U"
    using heap_inv_move [OF inv ar bl _ s c] d n by simp
  show "live (F(i := F i @ [b])) (A(block2arena b \<mapsto> ar\<lparr>arena_cnt := arena_cnt ar + 1\<rparr>)) = live F A - {(b, blk_size i)}"
    using live_move [OF inv ar bl s] by (auto split: if_splits)
qed

text \<open>An arena with all its blocks free goes.\<close>

lemma none_upd:
  "small_arena (A(a := None)) x ar j \<longleftrightarrow> x \<noteq> a \<and> small_arena A x ar j"
  "large_arena (A(a := None)) x ar \<longleftrightarrow> x \<noteq> a \<and> large_arena A x ar"
  by (auto simp: arena_defs)

lemma heap_drop:
  assumes inv: "heap_inv F A U" and a: "A a = Some ar"
    and l: "distinct l" "set l = set (F i) - arena_blocks a i"
    and sm: "arena_desc ar \<noteq> None \<Longrightarrow> small_arena A a ar i \<and> arena_blocks a i \<subseteq> set (F i)"
    and lg: "arena_desc ar = None \<Longrightarrow> arena_blocks a i \<inter> set (F i) = {}"
  shows "heap_inv (F(i := l)) (A(a := None)) (U - apages a ar)"
    and "live (F(i := l)) (A(a := None)) = live F A -
      (if arena_desc ar = None then {(a + ARENA_SIZE, 4096 * unat (arena_cnt ar) - 12)} else {})"
proof -
  let ?F = "F(i := l)" and ?A = "A(a := None)"
  have al: "frame_of x = x" if "A x = Some ar'" for x ar' using heap_inv_aligned [OF inv] that by blast
  have in_a: "block2arena x \<noteq> a" if "x \<in> set (?F j)" "j < 7" for x j
  proof
    assume e: "block2arena x = a"
    have x: "x \<in> set (F j)" using that(1) l(2) by (auto split: if_splits)
    from listed [OF inv that(2) x] e obtain ar' where s: "small_arena A a ar' j" "x \<in> arena_blocks a j" by auto
    then have "ar' = ar" using a by (simp add: small_arena_def)
    then have "small_arena A a ar i" using sm s(1) by (simp add: small_arena_def)
    then have "j = i" using s(1) by (auto simp: small_arena_def)
    then show False using that(1) l(2) s(2) by simp
  qed
  have fj: "arena_blocks x j \<inter> set (?F j) = arena_blocks x j \<inter> set (F j)" if "A x = Some ar'" "x \<noteq> a" for x ar' j
  proof -
    have "arena_blocks x i \<inter> arena_blocks a i = {}"
      using arena_block_page(1) [OF al [OF that(1)]] arena_block_page(1) [OF al [OF a]] that(2) by blast
    then show ?thesis using l(2) by auto
  qed
  have "lists_ok ?F ?A"
    unfolding lists_ok_def
  proof (intro allI impI conjI ballI)
    fix j assume j: "j < (7 :: nat)"
    show "distinct (?F j)" using l(1) inv j by (auto simp: heap_inv_def lists_ok_def)
    fix b assume b: "b \<in> set (?F j)"
    then have "b \<in> set (F j)" using l(2) by (auto split: if_splits)
    with listed [OF inv j this] in_a [OF b j]
    show "\<exists>ar. small_arena ?A (block2arena b) ar j \<and> b \<in> arena_blocks (block2arena b) j"
      by (simp add: none_upd)
  qed
  moreover have "arenas_ok ?F ?A (U - apages a ar)"
    unfolding arenas_ok_def
  proof (intro allI impI)
    fix x ar' assume "?A x = Some ar'"
    then have x: "x \<noteq> a" "A x = Some ar'" by (auto split: if_splits)
    then have "apages x ar' \<inter> apages a ar = {}" "apages x ar' \<subseteq> U"
      and k: "large_arena A x ar' \<or> (\<exists>j. small_arena A x ar' j
        \<and> unat (arena_cnt ar') = card (arena_blocks x j \<inter> set (F j)))"
      using inv a unfolding heap_inv_def arenas_apart_def arenas_ok_def by blast+
    then show "frame_of x = x \<and> apages x ar' \<subseteq> U - apages a ar \<and> (large_arena ?A x ar' \<or>
      (\<exists>j. small_arena ?A x ar' j \<and> unat (arena_cnt ar') = card (arena_blocks x j \<inter> set (?F j))))"
      unfolding none_upd fj [OF x(2,1)] using x al by blast
  qed
  moreover have "arenas_apart ?A" using inv by (simp add: heap_inv_def arenas_apart_def)
  ultimately show "heap_inv ?F ?A (U - apages a ar)" using inv by (auto simp: heap_inv_def kernel_pages_def)
  have al': "\<forall>y ar'. ?A y = Some ar' \<longrightarrow> frame_of y = y" by (simp, use al in blast)
  have "(x, n) \<in> live ?F ?A \<longleftrightarrow> block2arena x \<noteq> a \<and> (x, n) \<in> live F A" for x n
  proof -
    have "x \<notin> set (?F j) \<longleftrightarrow> x \<notin> set (F j)"
      if s: "small_arena A (block2arena x) ar' j" "x \<in> arena_blocks (block2arena x) j" "block2arena x \<noteq> a" for j ar'
    proof -
      have "A (block2arena x) = Some ar'" using s(1) by (simp add: small_arena_def)
      from fj [OF this s(3), of j] s(2) show ?thesis by blast
    qed
    then show ?thesis
      unfolding live_iff [OF heap_inv_aligned [OF inv]] live_iff [OF al'] none_upd by blast
  qed
  moreover have "(x, n) \<in> live F A \<and> block2arena x = a \<longleftrightarrow>
      arena_desc ar = None \<and> (x, n) = (a + ARENA_SIZE, 4096 * unat (arena_cnt ar) - 12)" for x n
  proof (cases "arena_desc ar = None")
    case True
    have "large_arena A a ar \<or> (\<exists>i. small_arena A a ar i)"
      using inv a unfolding heap_inv_def arenas_ok_def by blast
    then have "large_arena A a ar" using True by (auto simp: small_arena_def)
    then show ?thesis
      unfolding live_iff [OF heap_inv_aligned [OF inv]]
      using True large_ptr(1) [OF al [OF a]] by (auto simp: arena_defs)
  next
    case False
    then show ?thesis
      unfolding live_iff [OF heap_inv_aligned [OF inv]]
      using sm [OF False] by (auto simp: arena_defs)
  qed
  ultimately show "live ?F ?A = live F A -
      (if arena_desc ar = None then {(a + ARENA_SIZE, 4096 * unat (arena_cnt ar) - 12)} else {})"
    by (auto split: if_splits)
qed

text \<open>A new arena on pages that were not in use.\<close>

lemma heap_new:
  assumes inv: "heap_inv F A U" and a: "frame_of a = a" and new: "apages a ar \<inter> U = {}"
    and U': "U' = U \<union> apages a ar" "kernel_pages U'" and np: "0 < npages ar"
    and kind: "arena_desc ar = None \<and> arena_large ar \<and> l = F i
      \<or> arena_desc ar = Some (KDesc i) \<and> \<not> arena_large ar \<and> i < 7
        \<and> unat (arena_cnt ar) = blk_cnt i \<and> distinct l \<and> set l = set (F i) \<union> arena_blocks a i"
  shows "heap_inv (F(i := l)) (A(a \<mapsto> ar)) U'"
    and "live (F(i := l)) (A(a \<mapsto> ar)) = live F A \<union>
      (if arena_desc ar = None then {(a + ARENA_SIZE, 4096 * unat (arena_cnt ar) - 12)} else {})"
    and "A a = None"
proof -
  let ?F = "F(i := l)" and ?A = "A(a \<mapsto> ar)"
  have al: "frame_of x = x" if "A x = Some ar'" for x ar' using heap_inv_aligned [OF inv] that by blast
  have np': "0 < npages ar'" if "A x = Some ar'" for x ar'
    using inv that unfolding heap_inv_def arenas_ok_def by (auto simp: arena_defs npages_def)
  have sub: "apages x ar' \<subseteq> U" if "A x = Some ar'" for x ar'
    using inv that unfolding heap_inv_def arenas_ok_def by blast
  show none: "A a = None"
  proof (rule ccontr)
    assume "A a \<noteq> None"
    then obtain ar' where ar': "A a = Some ar'" by auto
    have "unat a div 4096 \<in> apages a ar'" "unat a div 4096 \<in> apages a ar"
      using np' [OF ar'] np by (auto simp: apages_def)
    with sub [OF ar'] new show False by blast
  qed
  define S where "S = (\<lambda>j. arena_desc ar = Some (KDesc j) \<and> \<not> arena_large ar \<and> j < 7)"
  define L where "L \<longleftrightarrow> arena_desc ar = None \<and> arena_large ar \<and> 0 < unat (arena_cnt ar)"
  have upd: "small_arena ?A x ar' j \<longleftrightarrow> (if x = a then S j \<and> ar' = ar else small_arena A x ar' j)"
    "large_arena ?A x ar' \<longleftrightarrow> (if x = a then L \<and> ar' = ar else large_arena A x ar')" for x ar' j
    by (auto simp: arena_defs S_def L_def)
  have kd: "arena_desc ar = None \<and> L \<and> (\<forall>j. \<not> S j) \<or> arena_desc ar = Some (KDesc i) \<and> \<not> L \<and> (\<forall>j. S j \<longleftrightarrow> j = i)"
    using kind np by (auto simp: S_def L_def npages_def)
  have sl: "set (?F j) \<subseteq> set (F j) \<union> arena_blocks a j" "set (F j) \<subseteq> set (?F j)" for j
    using kind by (auto split: if_splits)
  have fa: "block2arena x = a" if "x \<in> arena_blocks a j" for x j using arena_block_page(1) [OF a that] .
  have nf: "x \<notin> set (F j)" if "x \<in> arena_blocks a j" "j < 7" for x j
    using listed [OF inv that(2), of x] fa [OF that(1)] none by (auto simp: small_arena_def)
  have fj: "arena_blocks x j \<inter> set (?F j) = arena_blocks x j \<inter> set (F j)" if "A x = Some ar'" for x ar' j
  proof -
    have "arena_blocks x j \<inter> arena_blocks a j = {}"
      using arena_block_page(1) [OF al [OF that]] fa that none by fastforce
    then show ?thesis using sl [of j] by blast
  qed
  have "lists_ok ?F ?A"
    unfolding lists_ok_def
  proof (intro allI impI conjI ballI)
    fix j assume j: "j < (7 :: nat)"
    show "distinct (?F j)" using kind inv j by (auto simp: heap_inv_def lists_ok_def)
    fix b assume b: "b \<in> set (?F j)"
    show "\<exists>ar. small_arena ?A (block2arena b) ar j \<and> b \<in> arena_blocks (block2arena b) j"
    proof (cases "b \<in> set (F j)")
      case True
      from listed [OF inv j this] none show ?thesis
        unfolding upd by (auto simp: small_arena_def)
    next
      case False
      then have "b \<in> arena_blocks a j" and "j = i \<and> arena_desc ar = Some (KDesc i)"
        using b sl(1) [of j] kind by (auto split: if_splits)
      then show ?thesis using fa kd by (auto simp: upd)
    qed
  qed
  moreover have "arenas_ok ?F ?A U'"
    unfolding arenas_ok_def
  proof (intro allI impI)
    fix x ar' assume x: "?A x = Some ar'"
    show "frame_of x = x \<and> apages x ar' \<subseteq> U' \<and> (large_arena ?A x ar' \<or>
      (\<exists>j. small_arena ?A x ar' j \<and> unat (arena_cnt ar') = card (arena_blocks x j \<inter> set (?F j))))"
    proof (cases "x = a")
      case True
      have "card (arena_blocks a i \<inter> set l) = blk_cnt i" if "arena_desc ar \<noteq> None"
        using kind that card_arena_blocks [OF a, of i] by (auto simp: Int_absorb2)
      then show ?thesis using True x a U'(1) kd kind unfolding upd by auto
    next
      case False
      then have ax: "A x = Some ar'" using x by simp
      have "large_arena A x ar' \<or> (\<exists>j. small_arena A x ar' j
        \<and> unat (arena_cnt ar') = card (arena_blocks x j \<inter> set (F j)))"
        using inv ax unfolding heap_inv_def arenas_ok_def by blast
      then show ?thesis
        unfolding upd fj [OF ax] using False al [OF ax] sub [OF ax] U'(1) by auto
    qed
  qed
  moreover have "arenas_apart ?A"
    using inv new sub unfolding heap_inv_def arenas_apart_def by (simp, blast)
  ultimately show "heap_inv ?F ?A U'" using U'(2) by (simp add: heap_inv_def)
  have al': "\<forall>y ar'. ?A y = Some ar' \<longrightarrow> frame_of y = y" using a by (simp, use al in blast)
  have "(x, n) \<in> live ?F ?A \<longleftrightarrow> (x, n) \<in> live F A
    \<or> (arena_desc ar = None \<and> (x, n) = (a + ARENA_SIZE, 4096 * unat (arena_cnt ar) - 12))" for x n
  proof (cases "block2arena x = a")
    case True
    have "x \<in> set (?F i)" if "x \<in> arena_blocks a i" "arena_desc ar \<noteq> None" using that kind by auto
    then show ?thesis
      unfolding live_iff [OF heap_inv_aligned [OF inv]] live_iff [OF al'] upd
      using True none kd by (auto simp: small_arena_def large_arena_def)
  next
    case False
    have "x \<notin> set (?F j) \<longleftrightarrow> x \<notin> set (F j)"
      if s: "small_arena A (block2arena x) ar' j" "x \<in> arena_blocks (block2arena x) j" for j ar'
    proof -
      have "A (block2arena x) = Some ar'" using s(1) by (simp add: small_arena_def)
      from fj [OF this, of j] s(2) show ?thesis by blast
    qed
    moreover have "x \<noteq> a + ARENA_SIZE" using False large_ptr(1) [OF a] by auto
    ultimately show ?thesis
      unfolding live_iff [OF heap_inv_aligned [OF inv]] live_iff [OF al'] upd if_not_P [OF False] by blast
  qed
  then show "live ?F ?A = live F A \<union>
      (if arena_desc ar = None then {(a + ARENA_SIZE, 4096 * unat (arena_cnt ar) - 12)} else {})"
    by (auto split: if_splits)
qed

end
