(* ===== verification/Heap_Safe.thy ===== *)
theory Heap_Safe
  imports Heap
begin

section \<open>The kernel's heap keeps its blocks apart\<close>

text \<open>
  The invariant of theory Heap on the kernel's state, and what \<^verbatim>\<open>sys_malloc\<close> and \<^verbatim>\<open>sys_free\<close>
  of a kernel thread do to it: they never hand out memory that is in use. The routines below
  them (\<^verbatim>\<open>vaddr_get\<close>, \<^verbatim>\<open>malloc_page\<close>, \<^verbatim>\<open>mfree_page\<close>) are shown to take and give back exactly the
  virtual pages they should. The lemmas are about calls that return; that calls do return is shown
  by the runs of the witnesses.
\<close>

subsection \<open>What the page routines leave alone\<close>

definition heap_part :: "'a kmem_scheme \<Rightarrow> mem_block_desc list \<times> (u32 \<Rightarrow> u32 \<Rightarrow> arena option) \<times> virtual_addr" where
  "heap_part s = (k_block_descs s, arenas s, kernel_vaddr s)"

lemma heap_part_upd [simp]:
  "heap_part (s\<lparr>pmem := m\<rparr>) = heap_part s"
  "heap_part (s\<lparr>eflags := e\<rparr>) = heap_part s"
  "heap_part (s\<lparr>pcbs := p\<rparr>) = heap_part s"
  "heap_part (s\<lparr>thread_ready_list := r\<rparr>) = heap_part s"
  "heap_part (set_pool pf q s) = heap_part s"
  by (simp_all add: heap_part_def set_pool_def)

named_theorems frames \<open>routines that keep the heap's part of the state\<close>

lemma palloc_frame [frames]: "palloc pf s = Inr (a, s') \<Longrightarrow> heap_part s' = heap_part s"
  by (auto simp: palloc_def Let_def bindR_eq_Inr split: if_splits)

lemma pfree_frame_part [frames]: "pfree a s = Inr s' \<Longrightarrow> heap_part s' = heap_part s"
  by (auto simp: pfree_def Let_def bindR_eq_Inr)

lemma vwrite_frame [frames]: "vwrite v x s = Inr s' \<Longrightarrow> heap_part s' = heap_part s"
  by (auto simp: vwrite_def split: option.splits)

lemma vzero_frame [frames]: "vzero n v s = Inr s' \<Longrightarrow> heap_part s' = heap_part s"
  by (induction n arbitrary: v s) (auto simp: bindR_eq_Inr dest: frames)

lemma vmemset0_frame [frames]: "vmemset0 v n s = Inr s' \<Longrightarrow> heap_part s' = heap_part s"
  by (auto simp: vmemset0_def dest: frames)

lemma page_table_add_frame [frames]:
  "page_table_add (palloc PF_KERNEL) v p s = Inr s' \<Longrightarrow> heap_part s' = heap_part s"
  by (auto simp: page_table_add_def Let_def bindR_eq_Inr ASSERT_eq_Inr split: if_splits dest!: frames)

lemma page_table_pte_remove_frame [frames]:
  "page_table_pte_remove v s = Inr s' \<Longrightarrow> heap_part s' = heap_part s"
  by (auto simp: page_table_pte_remove_def bindR_eq_Inr dest: frames)

lemma map_pages_frame [frames]: "map_pages pf n v s = Inr (ok, s') \<Longrightarrow> heap_part s' = heap_part s"
  by (induction n arbitrary: v s) (auto simp: bindR_eq_Inr split: if_splits dest!: frames)

lemma free_pages_loop_frame [frames]: "free_pages_loop ok n v s = Inr s' \<Longrightarrow> heap_part s' = heap_part s"
  by (induction n arbitrary: v s) (auto simp: bindR_eq_Inr ASSERT_eq_Inr dest!: frames)

lemma upd_pcb_frame [frames]: "upd_pcb p f s = Inr s' \<Longrightarrow> heap_part s' = heap_part s"
  by (auto simp: upd_pcb_def bindR_eq_Inr)

lemma thread_unblock_frame [frames]: "thread_unblock p s = Inr s' \<Longrightarrow> heap_part s' = heap_part s"
  by (auto simp: thread_unblock_def Let_def bindR_eq_Inr ASSERT_eq_Inr split_beta split: if_splits dest!: frames)

lemma acquire_pool_frame [frames]: "acquire_pool pf s = Inr s' \<Longrightarrow> heap_part s' = heap_part s"
  by (auto simp: acquire_pool_def lock_acquire_def sema_down_def sema_down_pass_def Let_def bindR_eq_Inr
      ASSERT_eq_Inr split_beta split: if_splits)

lemma release_pool_frame [frames]: "release_pool pf s = Inr s' \<Longrightarrow> heap_part s' = heap_part s"
  by (auto simp: release_pool_def lock_release_def sema_up_def Let_def bindR_eq_Inr
      ASSERT_eq_Inr split_beta split: if_splits dest!: frames)

subsection \<open>Virtual pages\<close>

definition va_ok :: "virtual_addr \<Rightarrow> bool" where
  "va_ok va \<longleftrightarrow> bitmap_ok (vaddr_bitmap va)
     \<and> length (bits (vaddr_bitmap va)) = unat (btmp_bytes_len (vaddr_bitmap va))
     \<and> frame_of (vaddr_start va) = vaddr_start va \<and> 0 < unat (vaddr_start va)
     \<and> unat (vaddr_start va) div 4096 + bit_cnt (vaddr_bitmap va) \<le> 2 ^ 20"

text \<open>The numbers of the virtual pages in use.\<close>

definition vused :: "virtual_addr \<Rightarrow> nat set" where
  "vused va = (\<lambda>j. unat (vaddr_start va) div 4096 + j) ` used_bits (vaddr_bitmap va)"

lemma va_page:
  assumes "va_ok va" and "unat i < bit_cnt (vaddr_bitmap va)"
  shows "unat (vaddr_start va + i * PAGE_SIZE) = unat (vaddr_start va) + 4096 * unat i"
    and "unat (vaddr_start va + i * PAGE_SIZE) div 4096 = unat (vaddr_start va) div 4096 + unat i"
    and "frame_of (vaddr_start va + i * PAGE_SIZE) = vaddr_start va + i * PAGE_SIZE"
    and "vaddr_start va + i * PAGE_SIZE \<noteq> 0"
proof -
  obtain q where q: "unat (vaddr_start va) = 4096 * q"
    using assms(1) aligned_unat [of "vaddr_start va"] by (auto simp: va_ok_def)
  have b: "q + unat i < 2 ^ 20" using assms q by (auto simp: va_ok_def)
  have "unat (i * PAGE_SIZE) = unat i * 4096" using b by (subst unat_mult_small) (auto simp: PAGE_SIZE_def)
  then show u: "unat (vaddr_start va + i * PAGE_SIZE) = unat (vaddr_start va) + 4096 * unat i"
    using b q by (subst unat_add_small) auto
  show "unat (vaddr_start va + i * PAGE_SIZE) div 4096 = unat (vaddr_start va) div 4096 + unat i"
    unfolding u q by simp
  have "unat (frame_of (vaddr_start va + i * PAGE_SIZE)) = unat (vaddr_start va + i * PAGE_SIZE)"
    unfolding unat_parts(4) u q by simp
  then show "frame_of (vaddr_start va + i * PAGE_SIZE) = vaddr_start va + i * PAGE_SIZE"
    by (rule unsigned_word_eqI)
  have "0 < unat (vaddr_start va + i * PAGE_SIZE)" using u assms(1) by (simp add: va_ok_def)
  then show "vaddr_start va + i * PAGE_SIZE \<noteq> 0" by auto
qed

lemma set_bits_1:
  assumes "unat i + n \<le> 8 * length (bits b)" and "unat i + n < 2 ^ 32"
  shows "\<exists>b'. set_bits n i 1 b = Inr b' \<and> btmp_bytes_len b' = btmp_bytes_len b
    \<and> length (bits b') = length (bits b)
    \<and> (\<forall>j. bit_at b' j \<longleftrightarrow> unat i \<le> j \<and> j < unat i + n \<or> bit_at b j)"
  using set_bits_at [OF assms, of 1] by auto

lemma set_bits_0:
  assumes "unat i + n \<le> 8 * length (bits b)" and "unat i + n < 2 ^ 32"
  shows "\<exists>b'. set_bits n i 0 b = Inr b' \<and> btmp_bytes_len b' = btmp_bytes_len b
    \<and> length (bits b') = length (bits b)
    \<and> (\<forall>j. bit_at b' j \<longleftrightarrow> \<not> (unat i \<le> j \<and> j < unat i + n) \<and> bit_at b j)"
  using set_bits_at [OF assms, of 0] by auto

lemma shift_image: "(\<lambda>j. k + j) ` {m ..< m + n} = {k + m ..< k + m + n}" for k m n :: nat
  by (simp add: image_add_atLeastLessThan ac_simps)

lemma vaddr_get_spec:
  assumes va: "the_vaddr pf s = Inr va" "va_ok va" and n: "n \<noteq> 0" and g: "vaddr_get pf n s = Inr (v, s')"
  shows "v = 0 \<and> s' = s \<or> (\<exists>b. va_ok (va\<lparr>vaddr_bitmap := b\<rparr>) \<and> set_vaddr pf (va\<lparr>vaddr_bitmap := b\<rparr>) s = Inr s'
    \<and> v \<noteq> 0 \<and> frame_of v = v \<and> {unat v div 4096 ..< unat v div 4096 + unat n} \<inter> vused va = {}
    \<and> vused (va\<lparr>vaddr_bitmap := b\<rparr>) = vused va \<union> {unat v div 4096 ..< unat v div 4096 + unat n}
    \<and> (pf = PF_USER \<longrightarrow> v < 0xc0000000 - PAGE_SIZE))"
proof -
  let ?b = "vaddr_bitmap va"
  from g va(1) obtain i where i: "bitmap_scan ?b n = Inr i" by (auto simp: vaddr_get_def bindR_eq_Inr)
  show ?thesis
  proof (cases "i = -1")
    case True
    then show ?thesis using g va(1) i by (simp add: vaddr_get_def)
  next
    case False
    have ok: "bitmap_ok ?b" "length (bits ?b) = unat (btmp_bytes_len ?b)" using va(2) by (auto simp: va_ok_def)
    note sc = bitmap_scan_got [OF ok(1) n i False]
    have cnt: "unat i + unat n \<le> bit_cnt ?b" using sc ok(2) by (simp add: bit_cnt_def)
    have lt: "bit_cnt ?b < 2 ^ 31" using ok(1) by (simp add: bitmap_ok_def)
    have "unat i + unat n < 2 ^ 32" using cnt lt by simp
    from set_bits_1 [OF conjunct1 [OF sc] this] obtain b where b: "set_bits (unat n) i 1 ?b = Inr b"
      "btmp_bytes_len b = btmp_bytes_len ?b" "length (bits b) = length (bits ?b)"
      "\<And>j. bit_at b j \<longleftrightarrow> unat i \<le> j \<and> j < unat i + unat n \<or> bit_at ?b j" by blast
    let ?v = "vaddr_start va + i * PAGE_SIZE" and ?va = "va\<lparr>vaddr_bitmap := b\<rparr>"
    have "0 < unat n" using n by (simp add: unat_gt_0)
    then have ib: "unat i < bit_cnt ?b" using cnt by simp
    note pg = va_page [OF va(2) ib]
    have bc: "bit_cnt b = bit_cnt ?b" using b(2) by (simp add: bit_cnt_def)
    have s': "v = ?v" "set_vaddr pf ?va s = Inr s'" "pf = PF_USER \<longrightarrow> v < 0xc0000000 - PAGE_SIZE"
      using g va(1) i False b(1)
      by (auto simp: vaddr_get_def Let_def bindR_eq_Inr ASSERT_eq_Inr split: if_splits)
    have ok': "va_ok ?va" using va(2) b(2,3) bc by (auto simp: va_ok_def bitmap_ok_def)
    have rng: "{unat ?v div 4096 ..< unat ?v div 4096 + unat n}
      = (\<lambda>j. unat (vaddr_start va) div 4096 + j) ` {unat i ..< unat i + unat n}"
      unfolding pg(2) shift_image by (rule refl)
    have "{unat i ..< unat i + unat n} \<inter> used_bits ?b = {}"
      using sc by (auto simp: clear_run_def used_bits_def)
    then have "{unat ?v div 4096 ..< unat ?v div 4096 + unat n} \<inter> vused va = {}"
      unfolding rng vused_def by auto
    moreover have "j < bit_cnt ?b" if "j < unat i + unat n" for j using that cnt by (rule less_le_trans)
    then have "used_bits b = used_bits ?b \<union> {unat i ..< unat i + unat n}"
      unfolding used_bits_def set_eq_iff mem_Collect_eq Un_iff atLeastLessThan_iff b(4) bc by blast
    then have "vused ?va = vused va \<union> {unat ?v div 4096 ..< unat ?v div 4096 + unat n}"
      unfolding rng vused_def by (simp add: image_Un)
    ultimately show ?thesis using s' ok' pg(3,4) by (intro disjI2 exI [of _ b]) simp
  qed
qed

lemma vaddr_remove_spec:
  assumes va: "the_vaddr pf s = Inr va" "va_ok va" and a: "frame_of a = a"
    and n: "{unat a div 4096 ..< unat a div 4096 + unat n} \<subseteq> vused va" and n0: "n \<noteq> 0"
  shows "\<exists>b. va_ok (va\<lparr>vaddr_bitmap := b\<rparr>)
    \<and> vaddr_remove pf a n s = set_vaddr pf (va\<lparr>vaddr_bitmap := b\<rparr>) s
    \<and> vused (va\<lparr>vaddr_bitmap := b\<rparr>) = vused va - {unat a div 4096 ..< unat a div 4096 + unat n}"
proof -
  let ?b = "vaddr_bitmap va" and ?q = "unat (vaddr_start va) div 4096" and ?i = "(a - vaddr_start va) div PAGE_SIZE"
  have ok: "bitmap_ok ?b" "length (bits ?b) = unat (btmp_bytes_len ?b)" using va(2) by (auto simp: va_ok_def)
  have un: "0 < unat n" using n0 by (simp add: unat_gt_0)
  have "unat a div 4096 \<in> vused va" "unat a div 4096 + unat n - 1 \<in> vused va" using n un by auto
  then have q: "?q \<le> unat a div 4096" "unat a div 4096 + unat n \<le> ?q + bit_cnt ?b"
    using un by (auto simp: vused_def used_bits_def)
  obtain p r where pr: "unat (vaddr_start va) = 4096 * p" "unat a = 4096 * r"
    using va(2) aligned_unat [of "vaddr_start va"] aligned_unat [OF a] by (auto simp: va_ok_def)
  then have le: "unat (vaddr_start va) \<le> unat a" using q(1) by simp
  have "unat (a - vaddr_start va) = 4096 * (r - p)" using le pr by (subst unat_sub_small) auto
  then have i: "unat ?i = unat a div 4096 - ?q" using pr by (simp add: unat_div PAGE_SIZE_def)
  have "x - y + m \<le> c" if "y \<le> x" "x + m \<le> y + c" for x y m c :: nat using that by simp
  from this [OF q] have cnt: "unat ?i + unat n \<le> bit_cnt ?b" unfolding i .
  then have "unat ?i + unat n \<le> 8 * length (bits ?b)" "unat ?i + unat n < 2 ^ 32"
    using ok by (auto simp: bit_cnt_def bitmap_ok_def)
  from set_bits_0 [OF this] obtain b where b: "set_bits (unat n) ?i 0 ?b = Inr b"
    "btmp_bytes_len b = btmp_bytes_len ?b" "length (bits b) = length (bits ?b)"
    "\<And>j. bit_at b j \<longleftrightarrow> \<not> (unat ?i \<le> j \<and> j < unat ?i + unat n) \<and> bit_at ?b j" by blast
  let ?va = "va\<lparr>vaddr_bitmap := b\<rparr>"
  have bc: "bit_cnt b = bit_cnt ?b" using b(2) by (simp add: bit_cnt_def)
  have "va_ok ?va" using va(2) b(2,3) bc by (auto simp: va_ok_def bitmap_ok_def)
  moreover have "vaddr_remove pf a n s = set_vaddr pf ?va s"
    using va(1) b(1) by (simp add: vaddr_remove_def)
  moreover have "used_bits b = used_bits ?b - {unat ?i ..< unat ?i + unat n}"
    unfolding used_bits_def set_eq_iff mem_Collect_eq Diff_iff atLeastLessThan_iff b(4) bc by blast
  then have "vused ?va = vused va - (\<lambda>j. ?q + j) ` {unat ?i ..< unat ?i + unat n}"
    unfolding vused_def by (simp add: image_set_diff)
  moreover have "?q + unat ?i = unat a div 4096" unfolding i using q(1) by (rule le_add_diff_inverse)
  then have "(\<lambda>j. ?q + j) ` {unat ?i ..< unat ?i + unat n} = {unat a div 4096 ..< unat a div 4096 + unat n}"
    unfolding shift_image by (simp only:)
  ultimately show ?thesis by (intro exI [of _ b]) simp
qed

subsection \<open>The invariant on the state\<close>

definition flist :: "mem_block_desc list \<Rightarrow> nat \<Rightarrow> u32 list" where
  "flist ds i = (if i < length ds then free_list (ds ! i) else [])"

definition descs_ok :: "mem_block_desc list \<Rightarrow> bool" where
  "descs_ok ds \<longleftrightarrow> length ds = 7 \<and> (\<forall>i<7. block_size (ds ! i) = of_nat (blk_size i)
     \<and> blocks_pre_arena (ds ! i) = of_nat (blk_cnt i))"

definition kheap_ok :: "'a kmem_scheme \<Rightarrow> bool" where
  "kheap_ok s \<longleftrightarrow> descs_ok (k_block_descs s) \<and> va_ok (kernel_vaddr s) \<and> vaddr_start (kernel_vaddr s) = K_HEAP_START
     \<and> heap_inv (flist (k_block_descs s)) (arenas s 0) (vused (kernel_vaddr s))"

definition klive :: "'a kmem_scheme \<Rightarrow> (u32 \<times> nat) set" where
  "klive s = live (flist (k_block_descs s)) (arenas s 0)"

lemma kheap_cong:
  "heap_part s' = heap_part s \<Longrightarrow> kheap_ok s' = kheap_ok s"
  "heap_part s' = heap_part s \<Longrightarrow> klive s' = klive s"
  by (simp_all add: heap_part_def kheap_ok_def klive_def)

lemma flist_upd: "i < length ds \<Longrightarrow> flist (ds[i := d]) = (flist ds)(i := free_list d)"
  by (auto simp: flist_def fun_eq_iff nth_list_update)

lemma descs_ok_upd:
  assumes "descs_ok ds" and "i < 7"
  shows "descs_ok (ds[i := (ds ! i)\<lparr>free_list := l\<rparr>])"
  using assms by (auto simp: descs_ok_def nth_list_update)

lemma kernel_pages_va:
  assumes "va_ok va" and "vaddr_start va = K_HEAP_START"
  shows "kernel_pages (vused va)"
proof -
  have "unat K_HEAP_START div 4096 = 0xc0100" by (simp add: K_HEAP_START_def)
  moreover have "unat K_HEAP_START div 4096 + bit_cnt (vaddr_bitmap va) \<le> 2 ^ 20"
    using assms by (auto simp: va_ok_def)
  ultimately show ?thesis by (auto simp: kernel_pages_def vused_def used_bits_def assms(2))
qed

lemma kernel_addr:
  assumes "kernel_pages U" and "unat a div 4096 \<in> U"
  shows "space_of a s = 0" and "K_HEAP_START \<le> a \<or> a < K_HEAP_START"
proof -
  have "0xc0000 \<le> unat a div 4096" using assms by (auto simp: kernel_pages_def)
  then have "0xc0000000 \<le> unat a" using div_mult_mod_eq [of "unat a" 4096] by linarith
  then show "space_of a s = 0" by (simp add: space_of_def word_le_nat_alt)
  show "K_HEAP_START \<le> a \<or> a < K_HEAP_START" by auto
qed

lemma heap_inv_mono:
  "heap_inv F A U \<Longrightarrow> U \<subseteq> U' \<Longrightarrow> kernel_pages U' \<Longrightarrow> heap_inv F A U'"
  unfolding heap_inv_def arenas_ok_def by blast

lemma malloc_page_kernel:
  assumes ok: "kheap_ok s" and g: "malloc_page PF_KERNEL n s = Inr (v, s')"
  shows "k_block_descs s' = k_block_descs s \<and> arenas s' = arenas s \<and> 0 < unat n \<and> unat n < 3840
    \<and> kheap_ok s'
    \<and> (v \<noteq> 0 \<longrightarrow> frame_of v = v
        \<and> {unat v div 4096 ..< unat v div 4096 + unat n} \<inter> vused (kernel_vaddr s) = {}
        \<and> vused (kernel_vaddr s') = vused (kernel_vaddr s) \<union> {unat v div 4096 ..< unat v div 4096 + unat n})"
proof -
  let ?va = "kernel_vaddr s"
  have va: "the_vaddr PF_KERNEL s = Inr ?va" "va_ok ?va" "vaddr_start ?va = K_HEAP_START"
    using ok by (simp_all add: the_vaddr_def kheap_ok_def)
  from g obtain w s1 where n: "n > 0" "n < 3840" and w: "vaddr_get PF_KERNEL n s = Inr (w, s1)"
    by (auto simp: malloc_page_def ASSERT_eq_Inr bindR_eq_Inr)
  have r: "w = 0 \<and> v = 0 \<and> s' = s1 \<or> w \<noteq> 0 \<and>
      (\<exists>got. map_pages PF_KERNEL (unat n) w s1 = Inr (got, s') \<and> v = (if got then w else 0))"
  proof (cases "w = 0")
    case False
    then have "bindR (map_pages PF_KERNEL (unat n) w s1) (\<lambda>(got, s2). Inr (if got then w else 0, s2)) = Inr (v, s')"
      using g n w by (simp add: malloc_page_def)
    then obtain x where "map_pages PF_KERNEL (unat n) w s1 = Inr x" "v = (if fst x then w else 0)" "s' = snd x"
      by (auto simp: bindR_eq_Inr)
    then have "map_pages PF_KERNEL (unat n) w s1 = Inr (fst x, s')" "v = (if fst x then w else 0)" by simp_all
    with False show ?thesis by blast
  qed (use g n w in \<open>simp add: malloc_page_def\<close>)
  have un: "0 < unat n" "unat n < 3840" using n by (simp_all add: word_less_nat_alt)
  from n have "n \<noteq> 0" by auto
  from vaddr_get_spec [OF va(1,2) this w]
  consider (none) "w = 0" "s1 = s"
    | (some) b where "va_ok (?va\<lparr>vaddr_bitmap := b\<rparr>)" "s1 = s\<lparr>kernel_vaddr := ?va\<lparr>vaddr_bitmap := b\<rparr>\<rparr>"
      "w \<noteq> 0" "frame_of w = w" "{unat w div 4096 ..< unat w div 4096 + unat n} \<inter> vused ?va = {}"
      "vused (?va\<lparr>vaddr_bitmap := b\<rparr>) = vused ?va \<union> {unat w div 4096 ..< unat w div 4096 + unat n}"
    by (auto simp: set_vaddr_def)
  then show ?thesis
  proof cases
    case none
    then show ?thesis using r ok un by auto
  next
    case some
    from r some(3) obtain got where m: "map_pages PF_KERNEL (unat n) w s1 = Inr (got, s')"
      "v = (if got then w else 0)" by auto
    have hp: "heap_part s' = heap_part s1" using m(1) by (rule map_pages_frame)
    have "kernel_pages (vused (?va\<lparr>vaddr_bitmap := b\<rparr>))" using some(1) va(3) by (intro kernel_pages_va) auto
    then have "kheap_ok s1"
      using ok some(1,2,6) by (auto simp: kheap_ok_def intro: heap_inv_mono)
    then have "kheap_ok s'" using kheap_cong(1) [OF hp] by simp
    moreover have "kernel_vaddr s' = ?va\<lparr>vaddr_bitmap := b\<rparr>" "k_block_descs s' = k_block_descs s" "arenas s' = arenas s"
      using hp some(2) by (auto simp: heap_part_def)
    ultimately show ?thesis using some m(2) un by auto
  qed
qed

subsection \<open>The loops over the blocks of an arena\<close>

lemma arena2block_eq: "block_size d = of_nat (blk_size i) \<Longrightarrow> arena2block a d idx = arena_block a i (unat idx)"
  by (simp add: arena2block_def arena_block_def)

lemma fill_arena_spec:
  assumes "fill_arena n idx a d = Inr d'" and "block_size d = of_nat (blk_size i)" and "unat idx + n < 2 ^ 32"
    and "distinct (free_list d)"
  shows "\<exists>l. d' = d\<lparr>free_list := l\<rparr> \<and> distinct l
    \<and> set l = set (free_list d) \<union> arena_block a i ` {unat idx ..< unat idx + n}"
  using assms
proof (induction n arbitrary: idx d)
  case 0
  then show ?case by (intro exI [of _ "free_list d"]) simp
next
  case (Suc n)
  let ?b = "arena_block a i (unat idx)"
  have i: "unat (idx + 1) = unat idx + 1" using Suc.prems(3) by (subst unat_add_small) auto
  have b: "?b \<notin> set (free_list d)" and r: "fill_arena n (idx + 1) a (d\<lparr>free_list := free_list d @ [?b]\<rparr>) = Inr d'"
    using Suc.prems(1) arena2block_eq [OF Suc.prems(2)]
    by (auto simp: Let_def ASSERT_eq_Inr bindR_eq_Inr)
  from Suc.IH [OF r] Suc.prems(2-4) i b obtain l where "d' = d\<lparr>free_list := l\<rparr>" "distinct l"
    "set l = insert ?b (set (free_list d)) \<union> arena_block a i ` {unat idx + 1 ..< unat idx + 1 + n}" by auto
  moreover have "{unat idx ..< unat idx + Suc n} = insert (unat idx) {unat idx + 1 ..< unat idx + 1 + n}" by auto
  ultimately show ?case by auto
qed

lemma unlink_blocks_spec:
  assumes "unlink_blocks n idx a d = Inr d'" and "block_size d = of_nat (blk_size i)" and "unat idx + n < 2 ^ 32"
    and "distinct (free_list d)"
  shows "\<exists>l. d' = d\<lparr>free_list := l\<rparr> \<and> distinct l
    \<and> set l = set (free_list d) - arena_block a i ` {unat idx ..< unat idx + n}
    \<and> arena_block a i ` {unat idx ..< unat idx + n} \<subseteq> set (free_list d)"
  using assms
proof (induction n arbitrary: idx d)
  case 0
  then show ?case by (intro exI [of _ "free_list d"]) simp
next
  case (Suc n)
  let ?b = "arena_block a i (unat idx)"
  have i: "unat (idx + 1) = unat idx + 1" using Suc.prems(3) by (subst unat_add_small) auto
  have b: "?b \<in> set (free_list d)" and r: "unlink_blocks n (idx + 1) a (d\<lparr>free_list := remove1 ?b (free_list d)\<rparr>) = Inr d'"
    using Suc.prems(1) arena2block_eq [OF Suc.prems(2)]
    by (auto simp: Let_def ASSERT_eq_Inr bindR_eq_Inr)
  have rm: "set (remove1 ?b (free_list d)) = set (free_list d) - {?b}" "distinct (remove1 ?b (free_list d))"
    using Suc.prems(4) by auto
  from Suc.IH [OF r] Suc.prems(2,3) i rm obtain l where "d' = d\<lparr>free_list := l\<rparr>" "distinct l"
    "set l = set (free_list d) - {?b} - arena_block a i ` {unat idx + 1 ..< unat idx + 1 + n}"
    "arena_block a i ` {unat idx + 1 ..< unat idx + 1 + n} \<subseteq> set (free_list d) - {?b}" by auto
  moreover have "{unat idx ..< unat idx + Suc n} = insert (unat idx) {unat idx + 1 ..< unat idx + 1 + n}" by auto
  ultimately show ?case using b by auto
qed

lemma find_desc_spec:
  assumes "find_desc n i KDesc sz s = Inr j" and "descs_ok (k_block_descs s)" and "i + n \<le> 7"
  shows "i \<le> j \<and> j \<le> i + n \<and> (j < i + n \<longrightarrow> unat sz \<le> blk_size j) \<and> (\<forall>m. i \<le> m \<and> m < j \<longrightarrow> blk_size m < unat sz)"
  using assms
proof (induction n arbitrary: i)
  case (Suc n)
  have "blk_size i \<le> 16 * 2 ^ 6" using Suc.prems(3) unfolding blk_size_def by (intro mult_le_mono power_increasing) auto
  then have u: "unat (of_nat (blk_size i) :: u32) = blk_size i" by (simp add: unat_of_nat take_bit_nat_eq_self)
  have d: "get_desc (KDesc i) s = Inr (k_block_descs s ! i)" "block_size (k_block_descs s ! i) = of_nat (blk_size i)"
    using Suc.prems(2,3) by (auto simp: descs_ok_def get_desc_def)
  show ?case
  proof (cases "sz \<le> block_size (k_block_descs s ! i)")
    case True
    then show ?thesis using Suc.prems(1) d u by (auto simp: word_le_nat_alt)
  next
    case False
    then have "find_desc n (Suc i) KDesc sz s = Inr j" "blk_size i < unat sz"
      using Suc.prems(1) d u by (auto simp: word_le_nat_alt)
    moreover from Suc.IH [OF this(1) Suc.prems(2)] Suc.prems(3)
    have "Suc i \<le> j" "j \<le> Suc i + n" "j < Suc i + n \<Longrightarrow> unat sz \<le> blk_size j"
      "\<And>m. Suc i \<le> m \<Longrightarrow> m < j \<Longrightarrow> blk_size m < unat sz" by auto
    ultimately show ?thesis by (metis Suc_leD Suc_leI add_Suc_shift le_neq_implies_less)
  qed
qed auto

subsection \<open>The routines keep the invariant\<close>

lemma heap_part_eq:
  "heap_part s' = heap_part s \<longleftrightarrow>
   k_block_descs s' = k_block_descs s \<and> arenas s' = arenas s \<and> kernel_vaddr s' = kernel_vaddr s"
  by (auto simp: heap_part_def)

lemma set_arena_fields [simp]:
  "k_block_descs (set_arena a ar s) = k_block_descs s" "kernel_vaddr (set_arena a ar s) = kernel_vaddr s"
  "space_of a s = 0 \<Longrightarrow> arenas (set_arena a ar s) = (arenas s)(0 := (arenas s 0)(a := ar))"
  by (simp_all add: set_arena_def)

lemma set_desc_kernel: "set_desc (KDesc i) d s = Inr s' \<longleftrightarrow>
    i < length (k_block_descs s) \<and> s' = s\<lparr>k_block_descs := (k_block_descs s)[i := d]\<rparr>"
  by (auto simp: set_desc_def bindR_eq_Inr wr_eq_Inr)

lemma get_desc_kernel: "get_desc (KDesc i) s = Inr d \<longleftrightarrow> i < length (k_block_descs s) \<and> d = k_block_descs s ! i"
  by (auto simp: get_desc_def rd_eq_Inr)

lemma space_of_upd [simp]:
  "space_of a (s\<lparr>k_block_descs := ds\<rparr>) = space_of a s"
  "space_of a (s\<lparr>eflags := e\<rparr>) = space_of a s"
  by (simp_all add: space_of_def)

lemma descs_at:
  assumes "kheap_ok s" and "i < 7"
  shows "i < length (k_block_descs s)" and "block_size (k_block_descs s ! i) = of_nat (blk_size i)"
    and "unat (blocks_pre_arena (k_block_descs s ! i)) = blk_cnt i"
    and "flist (k_block_descs s) i = free_list (k_block_descs s ! i)" and "distinct (free_list (k_block_descs s ! i))"
    and "heap_inv (flist (k_block_descs s)) (arenas s 0) (vused (kernel_vaddr s))"
    and "kernel_pages (vused (kernel_vaddr s))"
proof -
  show l: "i < length (k_block_descs s)" "block_size (k_block_descs s ! i) = of_nat (blk_size i)"
    using assms by (auto simp: kheap_ok_def descs_ok_def)
  show "unat (blocks_pre_arena (k_block_descs s ! i)) = blk_cnt i"
    using assms blk_cnt_less [of i] by (auto simp: kheap_ok_def descs_ok_def unat_of_nat take_bit_nat_eq_self)
  show f: "flist (k_block_descs s) i = free_list (k_block_descs s ! i)" using l by (simp add: flist_def)
  show inv: "heap_inv (flist (k_block_descs s)) (arenas s 0) (vused (kernel_vaddr s))"
    using assms(1) by (simp add: kheap_ok_def)
  then show "kernel_pages (vused (kernel_vaddr s))" by (simp add: heap_inv_def)
  from inv assms(2) have "distinct (flist (k_block_descs s) i)" unfolding heap_inv_def lists_ok_def by blast
  then show "distinct (free_list (k_block_descs s ! i))" unfolding f .
qed

text \<open>What is left to show when a routine has changed list \<open>i\<close> and the kernel's arenas.\<close>

lemma kheap_after:
  assumes ok: "kheap_ok s" and i: "i < 7"
    and s': "k_block_descs s' = (k_block_descs s)[i := (k_block_descs s ! i)\<lparr>free_list := l\<rparr>]"
      "arenas s' 0 = A'" "va_ok (kernel_vaddr s')" "vaddr_start (kernel_vaddr s') = K_HEAP_START"
    and inv: "heap_inv ((flist (k_block_descs s))(i := l)) A' (vused (kernel_vaddr s'))"
  shows "kheap_ok s'" and "klive s' = live ((flist (k_block_descs s))(i := l)) A'"
proof -
  have "flist (k_block_descs s') = (flist (k_block_descs s))(i := l)"
    unfolding s'(1) using flist_upd [OF descs_at(1) [OF ok i]] by simp
  then show "kheap_ok s'" "klive s' = live ((flist (k_block_descs s))(i := l)) A'"
    using ok i s' inv by (simp_all add: kheap_ok_def klive_def descs_ok_upd)
qed

lemma arena_page_used:
  assumes "heap_inv F A U" and "A a = Some ar"
  shows "unat a div 4096 \<in> U"
proof -
  have "apages a ar \<subseteq> U" and "large_arena A a ar \<or> (\<exists>i. small_arena A a ar i)"
    using assms unfolding heap_inv_def arenas_ok_def by blast+
  then show ?thesis by (auto simp: arena_defs apages_def npages_def)
qed

lemma large_pages:
  assumes "unat sz < 2 ^ 31"
  shows "unat sz + 12 \<le> 4096 * unat (DIV_ROUND_UP (sz + ARENA_SIZE) PAGE_SIZE)"
proof -
  have "unat (sz + ARENA_SIZE) = unat sz + 12" using assms by (subst unat_add_small) (auto simp: ARENA_SIZE_def)
  then have "unat (sz + ARENA_SIZE + PAGE_SIZE) = unat sz + 12 + 4096"
    using assms by (subst unat_add_small) (auto simp: PAGE_SIZE_def)
  then have "unat (sz + ARENA_SIZE + PAGE_SIZE - 1) = unat sz + 4107" by (subst unat_sub_small) auto
  then have "unat (DIV_ROUND_UP (sz + ARENA_SIZE) PAGE_SIZE) = (unat sz + 4107) div 4096"
    by (simp add: DIV_ROUND_UP_def unat_div PAGE_SIZE_def)
  moreover have "x + 12 \<le> 4096 * ((x + 4107) div 4096)" for x :: nat
    using div_mult_mod_eq [of "x + 4107" 4096] mod_less_divisor [of 4096 "x + 4107"] by linarith
  ultimately show ?thesis by simp
qed

lemma new_arena_kernel:
  assumes ok: "kheap_ok s" and i: "i < 7" and g: "new_arena PF_KERNEL (KDesc i) s = Inr (got, s')"
  shows "kheap_ok s' \<and> klive s' = klive s"
proof -
  let ?d = "k_block_descs s ! i"
  from g obtain a s1 where m: "malloc_page PF_KERNEL 1 s = Inr (a, s1)" by (auto simp: new_arena_def bindR_eq_Inr)
  note mp = malloc_page_kernel [OF ok m]
  have kp: "kernel_pages (vused (kernel_vaddr s1))" using mp descs_at(7) [OF _ i] by blast
  show ?thesis
  proof (cases "a = 0")
    case True
    then have "s' = s1" using g m by (simp add: new_arena_def)
    then show ?thesis using mp by (auto simp: klive_def)
  next
    case False
    let ?P = "{unat a div 4096 ..< unat a div 4096 + 1}"
    have a: "frame_of a = a" "?P \<inter> vused (kernel_vaddr s) = {}"
      "vused (kernel_vaddr s1) = vused (kernel_vaddr s) \<union> ?P" using mp False by simp_all
    then have sp: "space_of a t = 0" for t :: "'a kmem_scheme" using kernel_addr(1) [OF kp, of a] by auto
    from g m False obtain s2 d d1 s4 where z: "vmemset0 a PAGE_SIZE s1 = Inr s2"
      and d: "get_desc (KDesc i) s2 = Inr d" and f: "fill_arena (unat (blocks_pre_arena d)) 0 a d = Inr d1"
      and s4: "set_desc (KDesc i) d1 ((set_arena a (Some \<lparr>arena_desc = Some (KDesc i), arena_cnt = blocks_pre_arena d,
          arena_large = False\<rparr>) s2)\<lparr>eflags := snd (intr_disable (eflags s2))\<rparr>) = Inr s4"
      and s': "s' = s4\<lparr>eflags := eflags s'\<rparr>"
      by (auto simp: new_arena_def bindR_eq_Inr Let_def split_beta set_arena_def)
    have hp: "k_block_descs s2 = k_block_descs s" "arenas s2 = arenas s" "kernel_vaddr s2 = kernel_vaddr s1"
      using vmemset0_frame [OF z] mp by (auto simp: heap_part_eq)
    have dd: "d = ?d" using d hp by (simp add: get_desc_kernel)
    have "blk_cnt i < 2 ^ 32" using blk_cnt_less [of i] by simp
    with fill_arena_spec [OF f [unfolded dd] descs_at(2) [OF ok i]] descs_at(3,5) [OF ok i] obtain l where l: "d1 = ?d\<lparr>free_list := l\<rparr>"
      "distinct l" "set l = set (free_list ?d) \<union> arena_blocks a i"
      by (auto simp: arena_blocks_def lessThan_atLeast0)
    let ?ar = "\<lparr>arena_desc = Some (KDesc i), arena_cnt = blocks_pre_arena ?d, arena_large = False\<rparr>"
    have ap: "apages a ?ar = ?P" by (simp add: apages_def npages_def)
    note hn = heap_new [OF descs_at(6) [OF ok i] a(1) a(2) [folded ap] a(3) [folded ap] kp, of l i]
    have h: "heap_inv ((flist (k_block_descs s))(i := l)) ((arenas s 0)(a \<mapsto> ?ar)) (vused (kernel_vaddr s1))"
      "live ((flist (k_block_descs s))(i := l)) ((arenas s 0)(a \<mapsto> ?ar)) = klive s"
      using hn l descs_at [OF ok i] i by (simp_all add: npages_def klive_def)
    have e: "k_block_descs s' = (k_block_descs s)[i := ?d\<lparr>free_list := l\<rparr>]"
      "arenas s' 0 = (arenas s 0)(a \<mapsto> ?ar)" "kernel_vaddr s' = kernel_vaddr s1"
      using s4 hp l(1) dd sp by (subst s', auto simp: set_desc_kernel)+
    have v: "va_ok (kernel_vaddr s')" "vaddr_start (kernel_vaddr s') = K_HEAP_START"
      using mp e(3) by (auto simp: kheap_ok_def)
    show ?thesis using kheap_after [OF ok i e(1,2) v] h e(3) by simp
  qed
qed

lemma take_block_kernel:
  assumes ok: "kheap_ok s" and i: "i < 7" and g: "take_block (KDesc i) s = Inr (b, s')"
  shows "kheap_ok s' \<and> klive s' = insert (b, blk_size i) (klive s) \<and> (b, blk_size i) \<notin> klive s"
proof -
  let ?d = "k_block_descs s ! i" and ?a = "block2arena b"
  from g obtain l s2 ar where f: "free_list ?d = b # l"
    and z: "vmemset0 b (block_size ?d) (s\<lparr>k_block_descs := (k_block_descs s)[i := ?d\<lparr>free_list := l\<rparr>]\<rparr>) = Inr s2"
    and ar: "arena_at ?a s2 = Inr ar" and s': "s' = set_arena ?a (Some (ar\<lparr>arena_cnt := arena_cnt ar - 1\<rparr>)) s2"
    by (auto simp: take_block_def bindR_eq_Inr get_desc_kernel set_desc_kernel kl_pop_eq_Inr)
  have hp: "k_block_descs s2 = (k_block_descs s)[i := ?d\<lparr>free_list := l\<rparr>]" "arenas s2 = arenas s"
    "kernel_vaddr s2 = kernel_vaddr s" using vmemset0_frame [OF z] by (auto simp: heap_part_eq)
  have F: "flist (k_block_descs s) i = b # l" using f descs_at(4) [OF ok i] by simp
  obtain ar' where t: "arenas s 0 ?a = Some ar'"
    "heap_inv ((flist (k_block_descs s))(i := l)) ((arenas s 0)(?a \<mapsto> ar'\<lparr>arena_cnt := arena_cnt ar' - 1\<rparr>)) (vused (kernel_vaddr s))"
    "live ((flist (k_block_descs s))(i := l)) ((arenas s 0)(?a \<mapsto> ar'\<lparr>arena_cnt := arena_cnt ar' - 1\<rparr>))
      = insert (b, blk_size i) (live (flist (k_block_descs s)) (arenas s 0))"
    "(b, blk_size i) \<notin> live (flist (k_block_descs s)) (arenas s 0)"
    by (rule heap_take [OF descs_at(6) [OF ok i] i F])
  have "unat ?a div 4096 \<in> vused (kernel_vaddr s)"
    using descs_at(6) [OF ok i] t(1) by (rule arena_page_used)
  then have sp: "space_of ?a u = 0" for u :: "'a kmem_scheme" using kernel_addr(1) [OF descs_at(7) [OF ok i]] by blast
  have "ar = ar'" using ar sp hp(2) t(1) by (simp add: arena_at_def)
  then have e: "arenas s' 0 = (arenas s 0)(?a \<mapsto> ar'\<lparr>arena_cnt := arena_cnt ar' - 1\<rparr>)"
    "k_block_descs s' = (k_block_descs s)[i := ?d\<lparr>free_list := l\<rparr>]" "kernel_vaddr s' = kernel_vaddr s"
    using s' sp hp by simp_all
  have v: "va_ok (kernel_vaddr s')" "vaddr_start (kernel_vaddr s') = K_HEAP_START"
    using ok e(3) by (auto simp: kheap_ok_def)
  show ?thesis using kheap_after [OF ok i e(2,1) v] t(2-4) e(3) by (simp add: klive_def)
qed

lemma malloc_large_kernel:
  assumes ok: "kheap_ok s" and g: "malloc_large PF_KERNEL sz s = Inr (p, s')" and sz: "unat sz < 2 ^ 31"
  shows "kheap_ok s' \<and> (if p = 0 then klive s' = klive s
    else \<exists>n \<ge> unat sz. klive s' = insert (p, n) (klive s) \<and> (p, n) \<notin> klive s)"
proof -
  let ?n = "DIV_ROUND_UP (sz + ARENA_SIZE) PAGE_SIZE"
  from g obtain a s1 where m: "malloc_page PF_KERNEL ?n s = Inr (a, s1)" by (auto simp: malloc_large_def bindR_eq_Inr Let_def)
  note mp = malloc_page_kernel [OF ok m]
  have kp: "kernel_pages (vused (kernel_vaddr s1))" using mp descs_at(7) [of s1 0] by simp
  show ?thesis
  proof (cases "a = 0")
    case True
    then have "s' = s1" "p = 0" using g m by (simp_all add: malloc_large_def Let_def)
    then show ?thesis using mp by (auto simp: klive_def)
  next
    case False
    let ?P = "{unat a div 4096 ..< unat a div 4096 + unat ?n}"
    have a: "frame_of a = a" "?P \<inter> vused (kernel_vaddr s) = {}"
      "vused (kernel_vaddr s1) = vused (kernel_vaddr s) \<union> ?P" and n: "0 < unat ?n" using mp False by simp_all
    have "unat a div 4096 \<in> vused (kernel_vaddr s1)" using a(3) n by auto
    then have sp: "space_of a t = 0" for t :: "'a kmem_scheme" using kernel_addr(1) [OF kp] by blast
    from g m False obtain s2 where z: "vmemset0 a (?n * PAGE_SIZE) s1 = Inr s2" and p: "p = a + ARENA_SIZE"
      and s': "s' = set_arena a (Some \<lparr>arena_desc = None, arena_cnt = ?n, arena_large = True\<rparr>) s2"
      by (auto simp: malloc_large_def bindR_eq_Inr Let_def)
    have hp: "k_block_descs s2 = k_block_descs s" "arenas s2 = arenas s" "kernel_vaddr s2 = kernel_vaddr s1"
      using vmemset0_frame [OF z] mp by (auto simp: heap_part_eq)
    let ?ar = "\<lparr>arena_desc = None, arena_cnt = ?n, arena_large = True\<rparr>" and ?F = "flist (k_block_descs s)"
    have ap: "apages a ?ar = ?P" by (simp add: apages_def npages_def)
    note hn = heap_new [OF descs_at(6) [OF ok] a(1) a(2) [folded ap] a(3) [folded ap] kp, of 0 "?F 0" 0]
    have h: "heap_inv ?F ((arenas s 0)(a \<mapsto> ?ar)) (vused (kernel_vaddr s1))"
      "live ?F ((arenas s 0)(a \<mapsto> ?ar)) = insert (p, 4096 * unat ?n - 12) (klive s)" "arenas s 0 a = None"
      using hn n p by (simp_all add: npages_def klive_def)
    have e: "k_block_descs s' = k_block_descs s" "arenas s' 0 = (arenas s 0)(a \<mapsto> ?ar)" "kernel_vaddr s' = kernel_vaddr s1"
      using s' hp sp by simp_all
    have "kheap_ok s'" "klive s' = insert (p, 4096 * unat ?n - 12) (klive s)"
      using ok mp e h by (simp_all add: kheap_ok_def klive_def)
    moreover have "(p, k) \<notin> klive s" for k
      unfolding klive_def live_iff [OF heap_inv_aligned [OF descs_at(6) [OF ok, of 0, simplified]]]
      using p large_ptr(1) [OF a(1)] h(3) by (auto simp: arena_defs)
    moreover have "unat sz + 12 \<le> 4096 * unat ?n" using sz by (rule large_pages)
    moreover have "p \<noteq> 0" using p large_ptr(2) [OF a(1)] by auto
    ultimately show ?thesis by (auto intro!: exI [of _ "4096 * unat ?n - 12"])
  qed
qed

lemma malloc_small_kernel:
  assumes ok: "kheap_ok s" and g: "malloc_small PF_KERNEL KDesc sz s = Inr (p, s')" and sz: "unat sz \<le> 1024"
  shows "kheap_ok s' \<and> (klive s' = klive s \<and> p = 0
    \<or> (\<exists>i<7. unat sz \<le> blk_size i \<and> (\<forall>m<i. blk_size m < unat sz)
        \<and> klive s' = insert (p, blk_size i) (klive s) \<and> (p, blk_size i) \<notin> klive s))"
proof -
  from g obtain j where j: "find_desc DESC_CNT 0 KDesc sz s = Inr j" by (auto simp: malloc_small_def bindR_eq_Inr)
  from ok have d: "descs_ok (k_block_descs s)" by (simp add: kheap_ok_def)
  note fd = find_desc_spec [OF j d]
  have "j \<noteq> 7"
  proof
    assume "j = 7"
    then have "blk_size 6 < unat sz" using fd by (simp add: DESC_CNT_def)
    then show False using sz by (simp add: blk_size_def)
  qed
  then have jj: "j < 7" "unat sz \<le> blk_size j" "\<forall>m<j. blk_size m < unat sz" using fd by (auto simp: DESC_CNT_def)
  from g j obtain got s1 where n: "(if free_list (k_block_descs s ! j) = [] then new_arena PF_KERNEL (KDesc j) s
      else Inr (True, s)) = Inr (got, s1)" and t: "(if got then take_block (KDesc j) s1 else Inr (0, s1)) = Inr (p, s')"
    by (auto simp: malloc_small_def bindR_eq_Inr get_desc_kernel)
  have s1: "kheap_ok s1" "klive s1 = klive s"
    using n new_arena_kernel [OF ok jj(1)] ok by (auto split: if_splits)
  show ?thesis
  proof (cases got)
    case True
    with t take_block_kernel [OF s1(1) jj(1)] s1(2) have "kheap_ok s'" "klive s' = insert (p, blk_size j) (klive s)"
      "(p, blk_size j) \<notin> klive s" by auto
    with jj show ?thesis by blast
  next
    case False
    with t s1 show ?thesis by simp
  qed
qed

lemma malloc_body_kernel:
  assumes ok: "kheap_ok s1"
    and m: "(if sz > 1024 then malloc_large PF_KERNEL sz s1 else malloc_small PF_KERNEL KDesc sz s1) = Inr (p, s2)"
    and b: "unat sz < 2 ^ 31"
  shows "kheap_ok s2 \<and> (klive s2 = klive s1 \<and> p = 0
    \<or> (\<exists>n. klive s2 = insert (p, n) (klive s1) \<and> (p, n) \<notin> klive s1 \<and> unat sz \<le> n
        \<and> (unat sz \<le> 1024 \<longrightarrow> (\<exists>i<7. n = blk_size i \<and> (\<forall>m<i. blk_size m < unat sz)))))"
proof (cases "sz > 1024")
  case True
  then have n: "\<not> unat sz \<le> 1024" by (simp add: word_less_nat_alt)
  have "malloc_large PF_KERNEL sz s1 = Inr (p, s2)" using m True by simp
  from malloc_large_kernel [OF ok this b] n show ?thesis by (cases "p = 0") auto
next
  case False
  then have n: "unat sz \<le> 1024" by (simp add: word_less_nat_alt)
  have "malloc_small PF_KERNEL KDesc sz s1 = Inr (p, s2)" using m False by simp
  from malloc_small_kernel [OF ok this n] show ?thesis by blast
qed

lemma sys_malloc_parts:
  fixes s :: "'a kmem_scheme"
  assumes t: "pcb (running_thread s) s = Inr t" "pgdir t = 0" and g: "sys_malloc sz s = Inr (p, s')"
    and sz: "sz > 0" "sz < pool_size (kernel_pool s)"
  obtains s1 s2 :: "'a kmem_scheme" where "heap_part s1 = heap_part s" and "heap_part s' = heap_part s2"
    and "(if sz > 1024 then malloc_large PF_KERNEL sz s1 else malloc_small PF_KERNEL KDesc sz s1) = Inr (p, s2)"
proof -
  have "\<exists>s1. acquire_pool PF_KERNEL s = Inr s1 \<and> (\<exists>r. (if sz > 1024 then malloc_large PF_KERNEL sz s1
      else malloc_small PF_KERNEL KDesc sz s1) = Inr r \<and> (\<exists>s3. release_pool PF_KERNEL (snd r) = Inr s3 \<and> (fst r, s3) = (p, s')))"
  proof -
    have "task_pool t = PF_KERNEL" "task_descs (running_thread s) t = KDesc"
      using t(2) by (simp_all add: task_pool_def task_descs_def)
    then show ?thesis
      using g t(1) sz by (cases "sz > 1024") (simp_all add: sys_malloc_def Let_def bindR_eq_Inr split_beta)
  qed
  then obtain s1 r where a: "acquire_pool PF_KERNEL s = Inr s1"
    "(if sz > 1024 then malloc_large PF_KERNEL sz s1 else malloc_small PF_KERNEL KDesc sz s1) = Inr (p, snd r)"
    "release_pool PF_KERNEL (snd r) = Inr s'" by (metis Pair_inject prod.collapse)
  show thesis by (rule that [OF acquire_pool_frame [OF a(1)] release_pool_frame [OF a(3)] a(2)])
qed

text \<open>
  C1. A kernel thread calls \<^verbatim>\<open>sys_malloc\<close> on a heap in order. Whatever it asks for, the heap stays in
  order and nothing that was allocated changes. A request of 0 bytes, or of more than the pool,
  gets the null pointer. Otherwise the result is null, or a block at least as long as asked for that
  was not allocated before, and that does not overlap any allocated block; a block of up to 1024
  bytes has the smallest of the seven sizes that is large enough.
\<close>

theorem sys_malloc_fresh:
  fixes s :: "'a kmem_scheme"
  assumes ok: "kheap_ok s" and t: "pcb (running_thread s) s = Inr t" "pgdir t = 0"
    and pool: "unat (pool_size (kernel_pool s)) < 2 ^ 31" and g: "sys_malloc sz s = Inr (p, s')"
  shows "kheap_ok s' \<and> (klive s' = klive s \<and> p = 0
    \<or> 0 < sz \<and> sz < pool_size (kernel_pool s)
      \<and> (\<exists>n. klive s' = insert (p, n) (klive s) \<and> unat sz \<le> n
        \<and> (unat sz \<le> 1024 \<longrightarrow> (\<exists>i<7. n = blk_size i \<and> (\<forall>m<i. blk_size m < unat sz)))
        \<and> (\<forall>(q, k)\<in>klive s. unat q + k \<le> unat p \<or> unat p + n \<le> unat q)))"
proof (cases "sz > 0 \<and> sz < pool_size (kernel_pool s)")
  case False
  then have "p = 0 \<and> s' = s" using g t by (auto simp: sys_malloc_def Let_def task_pool_def)
  with ok show ?thesis by blast
next
  case True
  obtain s1 s2 :: "'a kmem_scheme" where h: "heap_part s1 = heap_part s" "heap_part s' = heap_part s2"
    and m: "(if sz > 1024 then malloc_large PF_KERNEL sz s1 else malloc_small PF_KERNEL KDesc sz s1) = Inr (p, s2)"
    by (rule sys_malloc_parts [OF t g conjunct1 [OF True] conjunct2 [OF True]])
  have s1: "kheap_ok s1" "klive s1 = klive s" using kheap_cong [OF h(1)] ok by simp_all
  have b: "unat sz < 2 ^ 31" using True pool by (simp add: word_less_nat_alt)
  have res: "kheap_ok s2 \<and> (klive s2 = klive s \<and> p = 0
    \<or> (\<exists>n. klive s2 = insert (p, n) (klive s) \<and> (p, n) \<notin> klive s \<and> unat sz \<le> n
        \<and> (unat sz \<le> 1024 \<longrightarrow> (\<exists>i<7. n = blk_size i \<and> (\<forall>m<i. blk_size m < unat sz)))))"
    using malloc_body_kernel [OF s1(1) m b] unfolding s1(2) .
  have s': "kheap_ok s' = kheap_ok s2" "klive s' = klive s2" using kheap_cong [OF h(2)] by simp_all
  have ap: "unat q + k \<le> unat p \<or> unat p + n \<le> unat q"
    if "klive s2 = insert (p, n) (klive s)" "(p, n) \<notin> klive s" "(q, k) \<in> klive s" "kheap_ok s2" for n q k
    using that live_apart [of "flist (k_block_descs s2)" "arenas s2 0" "vused (kernel_vaddr s2)" q k p n]
    unfolding kheap_ok_def klive_def by auto
  from res consider (none) "klive s2 = klive s" "p = 0"
    | (some) n where "klive s2 = insert (p, n) (klive s)" "(p, n) \<notin> klive s" "unat sz \<le> n"
        "unat sz \<le> 1024 \<longrightarrow> (\<exists>i<7. n = blk_size i \<and> (\<forall>m<i. blk_size m < unat sz))" by blast
  then show ?thesis
  proof cases
    case none
    then show ?thesis using res unfolding s' by blast
  next
    case some
    have "\<forall>(q, k)\<in>klive s. unat q + k \<le> unat p \<or> unat p + n \<le> unat q"
      using ap [OF some(1,2)] res by blast
    then show ?thesis using some(1,3,4) True res unfolding s' by blast
  qed
qed

lemma block_desc_init_eq:
  "block_desc_init = map (\<lambda>(b, n). \<lparr>block_size = b, blocks_pre_arena = n, free_list = []\<rparr>)
     [(16, 255), (32, 127), (64, 63), (128, 31), (256, 15), (512, 7), (1024, 3)]"
proof -
  have D: "DESC_CNT = Suc (Suc (Suc (Suc (Suc (Suc (Suc 0))))))" by (simp add: DESC_CNT_def)
  show ?thesis
    unfolding block_desc_init_def D block_desc_loop.simps by (simp add: PAGE_SIZE_def ARENA_SIZE_def)
qed

lemma less_7: "i < (7 :: nat) \<longleftrightarrow> i = 0 \<or> i = 1 \<or> i = 2 \<or> i = 3 \<or> i = 4 \<or> i = 5 \<or> i = 6"
  by arith

lemma below_7: "(\<forall>i<7. P i) \<longleftrightarrow> P 0 \<and> P 1 \<and> P 2 \<and> P 3 \<and> P 4 \<and> P 5 \<and> P (6 :: nat)"
  unfolding less_7 by blast

lemma block_desc_init_ok: "descs_ok block_desc_init"
  unfolding descs_ok_def below_7 block_desc_init_eq by (simp add: blk_size_def blk_cnt_def)

text \<open>
  C27. After \<^verbatim>\<open>mem_init\<close> on a machine with at least 2 MB and less than 258 MB the kernel's heap is in
  order, with nothing allocated.
\<close>

theorem mem_init_heap:
  assumes m: "0x200000 \<le> unat m" "unat m < 0x10200000" and a: "arenas s 0 = (\<lambda>_. None)"
  shows "kheap_ok (mem_init m s) \<and> klive (mem_init m s) = {}"
proof -
  let ?s = "mem_init m s" and ?n = "ucast (ucast ((m - 0x200000) div 4096) div 2 div 8 :: u16) :: u32"
  have k: "k_block_descs ?s = block_desc_init" "arenas ?s 0 = (\<lambda>_. None)" "vaddr_start (kernel_vaddr ?s) = K_HEAP_START"
    "vaddr_bitmap (kernel_vaddr ?s) = \<lparr>btmp_bytes_len = ?n, bits = replicate (unat ?n) 0\<rparr>"
    using a by (simp_all add: mem_init_def mem_pool_init_def Let_def PAGE_SIZE_def)
  have "unat ?n = (unat m - 0x200000) div 4096 div 2 div 8"
    using free_pages_count [OF m] by (simp add: unat_div)
  then have n: "8 * unat ?n < 2 ^ 16" using m by simp
  then have b: "bitmap_ok \<lparr>btmp_bytes_len = ?n, bits = replicate (unat ?n) 0\<rparr>"
    "used_bits \<lparr>btmp_bytes_len = ?n, bits = replicate (unat ?n) 0\<rparr> = {}"
    by (intro zero_bitmap; simp)+
  have va: "va_ok (kernel_vaddr ?s)"
    unfolding va_ok_def k(3,4) using b(1) n by (simp add: bit_cnt_def K_HEAP_START_def frame_of_def)
  have u: "vused (kernel_vaddr ?s) = {}" unfolding vused_def k(4) b(2) by simp
  have f: "flist (k_block_descs ?s) i = []" for i
    unfolding k(1) by (cases "i < 7") (auto simp: less_7 flist_def block_desc_init_eq)
  have "heap_inv (flist (k_block_descs ?s)) (arenas ?s 0) (vused (kernel_vaddr ?s))"
    unfolding u k(2) by (simp add: heap_inv_def lists_ok_def arenas_ok_def arenas_apart_def kernel_pages_def f)
  moreover have "klive ?s = {}" unfolding klive_def live_def k(2) by (simp add: arena_defs)
  ultimately show ?thesis using va k(1,3) block_desc_init_ok by (simp add: kheap_ok_def)
qed

subsection \<open>Giving a block back\<close>

lemma mfree_page_kernel:
  assumes va: "va_ok (kernel_vaddr s)" and a: "frame_of a = a" and n: "n \<noteq> 0"
    and u: "{unat a div 4096 ..< unat a div 4096 + unat n} \<subseteq> vused (kernel_vaddr s)"
    and g: "mfree_page PF_KERNEL a n s = Inr s'"
  shows "k_block_descs s' = k_block_descs s \<and> arenas s' = arenas s \<and> va_ok (kernel_vaddr s')
    \<and> vaddr_start (kernel_vaddr s') = vaddr_start (kernel_vaddr s)
    \<and> vused (kernel_vaddr s') = vused (kernel_vaddr s) - {unat a div 4096 ..< unat a div 4096 + unat n}"
proof -
  from g obtain ok s1 where l: "free_pages_loop ok (unat n) a s = Inr s1" and r: "vaddr_remove PF_KERNEL a n s1 = Inr s'"
    by (auto simp: mfree_page_def ASSERT_eq_Inr bindR_eq_Inr split: if_splits)
  have hp: "k_block_descs s1 = k_block_descs s" "arenas s1 = arenas s" "kernel_vaddr s1 = kernel_vaddr s"
    using free_pages_loop_frame [OF l] by (auto simp: heap_part_eq)
  have "the_vaddr PF_KERNEL s1 = Inr (kernel_vaddr s)" using hp by (simp add: the_vaddr_def)
  from vaddr_remove_spec [OF this va a u n] obtain b where b: "va_ok ((kernel_vaddr s)\<lparr>vaddr_bitmap := b\<rparr>)"
    "vaddr_remove PF_KERNEL a n s1 = set_vaddr PF_KERNEL ((kernel_vaddr s)\<lparr>vaddr_bitmap := b\<rparr>) s1"
    "vused ((kernel_vaddr s)\<lparr>vaddr_bitmap := b\<rparr>) = vused (kernel_vaddr s) - {unat a div 4096 ..< unat a div 4096 + unat n}"
    by blast
  then have "s' = s1\<lparr>kernel_vaddr := (kernel_vaddr s)\<lparr>vaddr_bitmap := b\<rparr>\<rparr>" using r by (simp add: set_vaddr_def)
  then show ?thesis using hp b by simp
qed

text \<open>An arena goes: its page is given back and its header with it.\<close>

lemma drop_arena:
  assumes inv: "heap_inv F (arenas s 0) (vused (kernel_vaddr s))" and va: "va_ok (kernel_vaddr s)"
    and a: "arenas s 0 a = Some ar" and n: "unat n = npages ar" and sp: "space_of a s' = 0"
    and g: "mfree_page PF_KERNEL a n s = Inr s'"
    and l: "distinct l" "set l = set (F i) - arena_blocks a i"
    and sm: "arena_desc ar \<noteq> None \<Longrightarrow> small_arena (arenas s 0) a ar i \<and> arena_blocks a i \<subseteq> set (F i)"
    and lg: "arena_desc ar = None \<Longrightarrow> arena_blocks a i \<inter> set (F i) = {}"
  shows "heap_inv (F(i := l)) (arenas (set_arena a None s') 0) (vused (kernel_vaddr (set_arena a None s')))"
    and "live (F(i := l)) (arenas (set_arena a None s') 0) = live F (arenas s 0) -
      (if arena_desc ar = None then {(a + ARENA_SIZE, 4096 * unat (arena_cnt ar) - 12)} else {})"
    and "k_block_descs (set_arena a None s') = k_block_descs s" and "va_ok (kernel_vaddr (set_arena a None s'))"
    and "vaddr_start (kernel_vaddr (set_arena a None s')) = vaddr_start (kernel_vaddr s)"
proof -
  have f: "frame_of a = a" using heap_inv_aligned [OF inv] a by blast
  have ap: "apages a ar = {unat a div 4096 ..< unat a div 4096 + unat n}" by (simp add: apages_def n)
  have sub: "apages a ar \<subseteq> vused (kernel_vaddr s)" and k: "large_arena (arenas s 0) a ar \<or> (\<exists>i. small_arena (arenas s 0) a ar i)"
    using inv a unfolding heap_inv_def arenas_ok_def by blast+
  from k have "0 < unat n" unfolding n by (auto simp: arena_defs npages_def)
  then have n0: "n \<noteq> 0" by auto
  note mf = mfree_page_kernel [OF va f n0 sub [unfolded ap] g]
  note hd = heap_drop [OF inv a l sm lg]
  show "heap_inv (F(i := l)) (arenas (set_arena a None s') 0) (vused (kernel_vaddr (set_arena a None s')))"
    using hd(1) mf sp ap by simp
  show "live (F(i := l)) (arenas (set_arena a None s') 0) = live F (arenas s 0) -
      (if arena_desc ar = None then {(a + ARENA_SIZE, 4096 * unat (arena_cnt ar) - 12)} else {})"
    using hd(2) mf sp by simp
  show "k_block_descs (set_arena a None s') = k_block_descs s" "va_ok (kernel_vaddr (set_arena a None s'))"
    "vaddr_start (kernel_vaddr (set_arena a None s')) = vaddr_start (kernel_vaddr s)" using mf by simp_all
qed

lemma free_block_kernel:
  assumes ok: "kheap_ok s" and ar: "small_arena (arenas s 0) (block2arena b) ar i"
    and b: "b \<in> arena_blocks (block2arena b) i" and n: "b \<notin> set (free_list (k_block_descs s ! i))"
    and g: "free_block PF_KERNEL b ar (KDesc i) s = Inr s'"
  shows "kheap_ok s' \<and> klive s' = klive s - {(b, blk_size i)}"
proof -
  let ?a = "block2arena b" and ?d = "k_block_descs s ! i" and ?F = "flist (k_block_descs s)"
  have i: "i < 7" "arenas s 0 ?a = Some ar" using ar by (auto simp: small_arena_def)
  note d = descs_at [OF ok i(1)]
  have sp: "space_of ?a t = 0" for t :: "'a kmem_scheme"
    using kernel_addr(1) [OF d(7) arena_page_used [OF d(6) i(2)]] .
  have nF: "b \<notin> set (?F i)" using n d(4) by simp
  let ?l = "free_list ?d @ [b]" and ?ar = "ar\<lparr>arena_cnt := arena_cnt ar + 1\<rparr>"
  let ?F1 = "?F(i := ?l)" and ?s1 = "set_arena ?a (Some ?ar) s"
  note hp = heap_put [OF d(6) ar b nF, unfolded d(4)]
  have s1: "arenas ?s1 0 = (arenas s 0)(?a \<mapsto> ?ar)" using sp by simp
  from g have r: "if arena_cnt ar + 1 = blocks_pre_arena ?d
    then \<exists>d2 s2 s3. unlink_blocks (unat (blocks_pre_arena ?d)) 0 ?a (?d\<lparr>free_list := ?l\<rparr>) = Inr d2
      \<and> set_desc (KDesc i) d2 ?s1 = Inr s2 \<and> mfree_page PF_KERNEL ?a 1 s2 = Inr s3 \<and> s' = set_arena ?a None s3
    else set_desc (KDesc i) (?d\<lparr>free_list := ?l\<rparr>) ?s1 = Inr s'"
    by (auto simp: free_block_def Let_def bindR_eq_Inr get_desc_kernel kl_append_eq_Inr split: if_splits)
  show ?thesis
  proof (cases "arena_cnt ar + 1 = blocks_pre_arena ?d")
    case False
    with r have s': "s' = ?s1\<lparr>k_block_descs := (k_block_descs s)[i := ?d\<lparr>free_list := ?l\<rparr>]\<rparr>"
      by (simp add: set_desc_kernel)
    have e: "k_block_descs s' = (k_block_descs s)[i := ?d\<lparr>free_list := ?l\<rparr>]" "arenas s' 0 = (arenas s 0)(?a \<mapsto> ?ar)"
      "va_ok (kernel_vaddr s')" "vaddr_start (kernel_vaddr s') = K_HEAP_START" "kernel_vaddr s' = kernel_vaddr s"
      using s1 ok by (simp_all add: s' kheap_ok_def)
    show ?thesis using kheap_after [OF ok i(1) e(1-4)] hp e(5) by (simp add: klive_def)
  next
    case True
    with r obtain d2 s2 s3 where u: "unlink_blocks (unat (blocks_pre_arena ?d)) 0 ?a (?d\<lparr>free_list := ?l\<rparr>) = Inr d2"
      and s2: "set_desc (KDesc i) d2 ?s1 = Inr s2" and m: "mfree_page PF_KERNEL ?a 1 s2 = Inr s3"
      and s': "s' = set_arena ?a None s3" by auto
    have "blk_cnt i < 2 ^ 32" "distinct ?l" using blk_cnt_less [of i] d(5) n by auto
    with unlink_blocks_spec [OF u, of i] d(2,3) obtain l where l: "d2 = ?d\<lparr>free_list := l\<rparr>" "distinct l"
      "set l = set ?l - arena_blocks ?a i" "arena_blocks ?a i \<subseteq> set ?l"
      by (auto simp: arena_blocks_def lessThan_atLeast0)
    have e2: "k_block_descs s2 = (k_block_descs s)[i := ?d\<lparr>free_list := l\<rparr>]" "arenas s2 0 = (arenas s 0)(?a \<mapsto> ?ar)"
      "kernel_vaddr s2 = kernel_vaddr s" using s2 l(1) s1 by (auto simp: set_desc_kernel)
    have va: "va_ok (kernel_vaddr s2)" using ok e2(3) by (simp add: kheap_ok_def)
    have a2: "arenas s2 0 ?a = Some ?ar" using e2(2) by simp
    have np: "unat (1 :: u32) = npages ?ar" using ar by (simp add: small_arena_def npages_def)
    have ar2: "small_arena (arenas s2 0) ?a ?ar i" "arena_desc ?ar \<noteq> None"
      using ar e2(2) by (auto simp: small_arena_def)
    have h2: "heap_inv ?F1 (arenas s2 0) (vused (kernel_vaddr s2))" using hp(1) e2 by simp
    have l2: "set l = set (?F1 i) - arena_blocks ?a i" "arena_blocks ?a i \<subseteq> set (?F1 i)" using l(3,4) by simp_all
    have k2: "arena_desc ?ar \<noteq> None \<Longrightarrow> small_arena (arenas s2 0) ?a ?ar i \<and> arena_blocks ?a i \<subseteq> set (?F1 i)"
      "arena_desc ?ar = None \<Longrightarrow> arena_blocks ?a i \<inter> set (?F1 i) = {}" using ar2 l2(2) by blast+
    note da = drop_arena [OF h2 va a2 np sp m l(2) l2(1) k2, folded s']
    have da1: "heap_inv (?F1(i := l)) (arenas s' 0) (vused (kernel_vaddr s'))"
      "live (?F1(i := l)) (arenas s' 0) = live ?F1 (arenas s2 0)"
      "k_block_descs s' = k_block_descs s2" "va_ok (kernel_vaddr s')"
      "vaddr_start (kernel_vaddr s') = vaddr_start (kernel_vaddr s2)"
      using da(1) da(2) [unfolded if_not_P [OF ar2(2)] Diff_empty] da(3-5) by blast+
    have st: "vaddr_start (kernel_vaddr s') = K_HEAP_START" using da1(5) e2(3) ok by (simp add: kheap_ok_def)
    show ?thesis
      using kheap_after [OF ok i(1) _ refl da1(4) st, of l] da1(1,2,3) e2(1,2) hp(2) by (simp add: klive_def)
  qed
qed

lemma free_large_kernel:
  assumes ok: "kheap_ok s" and lg: "large_arena (arenas s 0) a x" and f: "mfree_page PF_KERNEL a (arena_cnt x) s = Inr s'"
  shows "kheap_ok (set_arena a None s')
    \<and> klive (set_arena a None s') = klive s - {(a + ARENA_SIZE, 4096 * unat (arena_cnt x) - 12)}"
proof -
  let ?F = "flist (k_block_descs s)"
  have x: "arenas s 0 a = Some x" "arena_desc x = None" "arena_large x" using lg by (auto simp: large_arena_def)
  note d = descs_at [OF ok, of 0, simplified]
  have sp: "space_of a s' = 0" using kernel_addr(1) [OF d(7) arena_page_used [OF d(6) x(1)]] .
  have ds: "distinct (?F 0)" using d by simp
  have no: "arena_blocks a 0 \<inter> set (?F 0) = {}"
  proof (rule ccontr)
    assume "arena_blocks a 0 \<inter> set (?F 0) \<noteq> {}"
    then obtain b where b: "b \<in> arena_blocks a 0" "b \<in> set (?F 0)" by blast
    have "frame_of a = a" using heap_inv_aligned [OF d(6)] x(1) by blast
    then have "block2arena b = a" using arena_block_page(1) b(1) by blast
    with listed [OF d(6) _ b(2)] x show False by (auto simp: small_arena_def)
  qed
  have va: "va_ok (kernel_vaddr s)" using ok by (simp add: kheap_ok_def)
  have np: "unat (arena_cnt x) = npages x" using x by (simp add: npages_def)
  have k: "set (?F 0) = set (?F 0) - arena_blocks a 0"
    "arena_desc x \<noteq> None \<Longrightarrow> small_arena (arenas s 0) a x 0 \<and> arena_blocks a 0 \<subseteq> set (?F 0)"
    "arena_desc x = None \<Longrightarrow> arena_blocks a 0 \<inter> set (?F 0) = {}" using no x(2) by auto
  note da = drop_arena [OF d(6) va x(1) np sp f ds k, unfolded fun_upd_triv]
  show ?thesis using da x(2) ok by (simp add: kheap_ok_def klive_def)
qed

text \<open>
  C2. A kernel thread gives an allocated block back with \<^verbatim>\<open>sys_free\<close>: the heap stays in order and this
  block is the only one that is not allocated any more, also when its page goes with it.
\<close>

theorem sys_free_releases:
  assumes ok: "kheap_ok s" and t: "pcb (running_thread s) s = Inr t" "pgdir t = 0"
    and p: "(p, n) \<in> klive s" and g: "sys_free p s = Inr s'"
  shows "kheap_ok s' \<and> klive s' = klive s - {(p, n)}"
proof -
  let ?a = "block2arena p"
  have inv: "heap_inv (flist (k_block_descs s)) (arenas s 0) (vused (kernel_vaddr s))" using ok by (simp add: kheap_ok_def)
  have "p \<noteq> 0"
  proof
    assume "p = 0"
    with live_in_arena [OF inv p [unfolded klive_def]] show False by auto
  qed
  have tp: "task_pool t = PF_KERNEL" using t(2) by (simp add: task_pool_def)
  from g [unfolded sys_free_def t(1) bindR_Inr Let_def tp] t(2) \<open>p \<noteq> 0\<close> obtain s1 s2 ar where a: "acquire_pool PF_KERNEL s = Inr s1" "arena_at ?a s1 = Inr ar"
    and m: "(if arena_desc ar = None \<and> arena_large ar then bindR (mfree_page PF_KERNEL ?a (arena_cnt ar) s1) (\<lambda>s2. Inr (set_arena ?a None s2))
      else case arena_desc ar of None \<Rightarrow> Inl Bad_Access | Some r \<Rightarrow> free_block PF_KERNEL p ar r s1) = Inr s2"
    and r: "release_pool PF_KERNEL s2 = Inr s'"
    by (simp add: bindR_eq_Inr ASSERT_eq_Inr) blast
  note h = acquire_pool_frame [OF a(1)] release_pool_frame [OF r]
  have s1: "kheap_ok s1" "klive s1 = klive s" "arenas s1 = arenas s" "k_block_descs s1 = k_block_descs s"
    using kheap_cong [OF h(1)] ok h(1) by (simp_all add: heap_part_eq)
  have s': "kheap_ok s' = kheap_ok s2" "klive s' = klive s2" using kheap_cong [OF h(2)] by simp_all
  have inv1: "heap_inv (flist (k_block_descs s1)) (arenas s1 0) (vused (kernel_vaddr s1))" using s1(1) by (simp add: kheap_ok_def)
  have sp: "space_of ?a u = 0" if "arenas s1 0 ?a = Some x" for x and u :: "'a kmem_scheme"
    using kernel_addr(1) [OF _ arena_page_used [OF inv1 that]] s1(1) inv1 by (simp add: heap_inv_def)
  from p [unfolded klive_def live_iff [OF heap_inv_aligned [OF inv]]]
  consider (small) j x where "small_arena (arenas s 0) ?a x j" "p \<in> arena_blocks ?a j" "n = blk_size j"
      "p \<notin> set (flist (k_block_descs s) j)"
    | (large) x where "large_arena (arenas s 0) ?a x" "p = ?a + ARENA_SIZE" "n = 4096 * unat (arena_cnt x) - 12" by blast
  then have "kheap_ok s2 \<and> klive s2 = klive s - {(p, n)}"
  proof cases
    case small
    then have x: "arenas s1 0 ?a = Some x" "arena_desc x = Some (KDesc j)" "\<not> arena_large x" "j < 7"
      using s1(3) by (auto simp: small_arena_def)
    have arx: "ar = x" using a(2) sp [OF x(1)] x(1) by (simp add: arena_at_def)
    then have f: "free_block PF_KERNEL p x (KDesc j) s1 = Inr s2" using m x by simp
    have "p \<notin> set (free_list (k_block_descs s1 ! j))" using small(4) s1(4) descs_at(4) [OF s1(1) x(4)] by simp
    from free_block_kernel [OF s1(1) _ small(2) this f] small(1,3) s1(2,3) show ?thesis by simp
  next
    case large
    then have x: "large_arena (arenas s1 0) ?a x" "arenas s1 0 ?a = Some x" using s1(3) by (auto simp: large_arena_def)
    have "ar = x" using a(2) sp [OF x(2)] x(2) by (simp add: arena_at_def)
    then obtain s3 where "mfree_page PF_KERNEL ?a (arena_cnt x) s1 = Inr s3" "s2 = set_arena ?a None s3"
      using m x by (auto simp: bindR_eq_Inr large_arena_def)
    with free_large_kernel [OF s1(1) x(1)] large(2,3) s1(2) show ?thesis by simp
  qed
  then show ?thesis unfolding s' .
qed

text \<open>A heap of one page, cut into blocks of 16 bytes, of which the second and the fourth are free.\<close>

definition cut_heap :: kmem where
  "cut_heap = small_pools\<lparr>pmem := (pmem small_cpu)(0x101400 := 0x7007),
     k_block_descs := block_desc_init[0 := (block_desc_init ! 0)\<lparr>free_list := [0xc010001c, 0xc010003c]\<rparr>],
     arenas := (\<lambda>_ _. None)(0 := [0xc0100000 \<mapsto> \<lparr>arena_desc = Some (KDesc 0), arena_cnt = 2, arena_large = False\<rparr>])\<rparr>"

lemma cut_heap_simps [simp]:
  "k_block_descs cut_heap = block_desc_init[0 := (block_desc_init ! 0)\<lparr>free_list := [0xc010001c, 0xc010003c]\<rparr>]"
  "arenas cut_heap = (\<lambda>_ _. None)(0 := [0xc0100000 \<mapsto> \<lparr>arena_desc = Some (KDesc 0), arena_cnt = 2, arena_large = False\<rparr>])"
  "kernel_vaddr cut_heap = \<lparr>vaddr_bitmap = \<lparr>btmp_bytes_len = 1, bits = [1]\<rparr>, vaddr_start = K_HEAP_START\<rparr>"
  "pool_size (kernel_pool cut_heap) = 0x8000" "running_thread cut_heap = 0x9f000"
  "pcb 0x9f000 cut_heap = Inr (blank_task\<lparr>status := TASK_RUNNING\<rparr>)"
  by (simp_all add: cut_heap_def small_pools_def kernel.extend_def small_kernel_def running_thread_def pcb_def)

lemma cut_heap_lists:
  "flist (k_block_descs cut_heap) i = (if i = 0 then [0xc010001c, 0xc010003c] else [])"
proof (cases "i < 7")
  case True
  then show ?thesis unfolding less_7 by (auto simp: flist_def block_desc_init_eq)
qed (simp add: flist_def block_desc_init_eq)

lemma cut_heap_blocks:
  "frame_of 0xc0100000 = 0xc0100000" "arena_block 0xc0100000 0 1 = 0xc010001c" "arena_block 0xc0100000 0 3 = 0xc010003c"
  "blk_cnt 0 = 255" "block2arena 0xc010001c = 0xc0100000" "block2arena 0xc010003c = 0xc0100000"
  by (simp_all add: frame_of_def arena_block_def ARENA_SIZE_def blk_size_def blk_cnt_def block2arena_def)

lemma cut_heap_used: "vused (kernel_vaddr cut_heap) = {0xc0100}"
proof -
  let ?b = "\<lparr>btmp_bytes_len = 1, bits = [1]\<rparr>"
  have "filter (bit_at ?b) [0..<8] = [0]" by code_simp
  then have "set (filter (bit_at ?b) [0..<8]) = set [0]" by (rule arg_cong)
  moreover have "used_bits ?b = set (filter (bit_at ?b) [0..<8])" by (auto simp: used_bits_def bit_cnt_def)
  ultimately show ?thesis by (simp add: vused_def K_HEAP_START_def)
qed

lemma cut_heap_ok: "kheap_ok cut_heap"
proof -
  let ?F = "flist (k_block_descs cut_heap)" and ?A = "arenas cut_heap 0"
  have mem: "0xc010001c \<in> arena_blocks 0xc0100000 0" "0xc010003c \<in> arena_blocks 0xc0100000 0"
    unfolding arena_blocks_def cut_heap_blocks(2,3) [symmetric] by (auto simp: cut_heap_blocks(4))
  have "small_arena ?A 0xc0100000 \<lparr>arena_desc = Some (KDesc 0), arena_cnt = 2, arena_large = False\<rparr> 0"
    by (simp add: small_arena_def)
  then have "lists_ok ?F ?A"
    unfolding lists_ok_def cut_heap_lists using mem cut_heap_blocks(5,6) by auto
  moreover have "arena_blocks 0xc0100000 0 \<inter> set (?F 0) = {0xc010001c, 0xc010003c}"
    unfolding cut_heap_lists using mem by auto
  then have "arenas_ok ?F ?A {0xc0100}"
    unfolding arenas_ok_def using cut_heap_blocks(1)
    by (auto simp: small_arena_def apages_def npages_def split: if_splits)
  moreover have "arenas_apart ?A" by (simp add: arenas_apart_def)
  moreover have "kernel_pages {0xc0100}" by (simp add: kernel_pages_def)
  ultimately have "heap_inv ?F ?A (vused (kernel_vaddr cut_heap))"
    unfolding heap_inv_def cut_heap_used by blast
  moreover have "va_ok (kernel_vaddr cut_heap)"
    by (simp add: va_ok_def bitmap_ok_def bit_cnt_def K_HEAP_START_def frame_of_def)
  moreover have "descs_ok (k_block_descs cut_heap)"
    unfolding cut_heap_simps using block_desc_init_ok by (intro descs_ok_upd) auto
  ultimately show ?thesis by (simp add: kheap_ok_def)
qed

definition res_ptr :: "(u32 \<times> 'a) res \<Rightarrow> u32 option" where
  "res_ptr r = (case r of Inl e \<Rightarrow> None | Inr (p, s) \<Rightarrow> Some p)"

lemma cut_heap_malloc: "res_ptr (sys_malloc 10 cut_heap) = Some 0xc010001c"
  by code_simp

lemma cut_heap_free: "case sys_free 0xc010000c cut_heap of Inl e \<Rightarrow> False | Inr s \<Rightarrow> True"
  by code_simp

lemma cut_heap_live: "(0xc010000c, 16) \<in> klive cut_heap"
proof -
  have "small_arena (arenas cut_heap 0) 0xc0100000 \<lparr>arena_desc = Some (KDesc 0), arena_cnt = 2, arena_large = False\<rparr> 0"
    by (simp add: small_arena_def)
  moreover have "arena_block 0xc0100000 0 0 = 0xc010000c" by (simp add: arena_block_def ARENA_SIZE_def)
  then have "0xc010000c \<in> arena_blocks 0xc0100000 0"
    unfolding arena_blocks_def cut_heap_blocks(4) by (intro image_eqI [of _ _ 0]) auto
  moreover have "0xc010000c \<notin> set (flist (k_block_descs cut_heap) 0)" unfolding cut_heap_lists by simp
  moreover have "16 = blk_size 0" by (simp add: blk_size_def)
  ultimately show ?thesis unfolding klive_def live_def by blast
qed

theorem sys_malloc_fresh_witness:
  "\<exists>s'. sys_malloc 10 cut_heap = Inr (0xc010001c, s') \<and> kheap_ok s'
    \<and> klive s' = insert (0xc010001c, 16) (klive cut_heap)"
proof -
  obtain s' where g: "sys_malloc 10 cut_heap = Inr (0xc010001c, s')"
    using cut_heap_malloc by (auto simp: res_ptr_def split: sum.splits prod.splits)
  have t: "pcb (running_thread cut_heap) cut_heap = Inr (blank_task\<lparr>status := TASK_RUNNING\<rparr>)"
    "pgdir (blank_task\<lparr>status := TASK_RUNNING\<rparr>) = 0" by (simp_all add: blank_task_def)
  have "unat (pool_size (kernel_pool cut_heap)) < 2 ^ 31" by simp
  from sys_malloc_fresh [OF cut_heap_ok t this g] obtain n i where n: "kheap_ok s'"
    "klive s' = insert (0xc010001c, n) (klive cut_heap)" "n = blk_size i" "\<forall>m<i. blk_size m < 10" by auto
  have "i = 0" using n(4) by (cases i) (auto simp: blk_size_def dest: spec [of _ 0])
  then show ?thesis using g n by (auto simp: blk_size_def)
qed

theorem sys_free_releases_witness:
  "\<exists>s'. sys_free 0xc010000c cut_heap = Inr s' \<and> kheap_ok s' \<and> klive s' = klive cut_heap - {(0xc010000c, 16)}"
proof -
  obtain s' where g: "sys_free 0xc010000c cut_heap = Inr s'"
    using cut_heap_free by (auto split: sum.splits)
  have t: "pcb (running_thread cut_heap) cut_heap = Inr (blank_task\<lparr>status := TASK_RUNNING\<rparr>)"
    "pgdir (blank_task\<lparr>status := TASK_RUNNING\<rparr>) = 0" by (simp_all add: blank_task_def)
  from sys_free_releases [OF cut_heap_ok t cut_heap_live g] g show ?thesis by blast
qed

theorem mem_init_heap_witness:
  "kheap_ok (mem_init 0x2000000 small_pools) \<and> klive (mem_init 0x2000000 small_pools) = {}"
  by (rule mem_init_heap) (simp_all add: small_pools_def kernel.extend_def)

end
