(* ===== verification/Fs_State.thy ===== *)
theory Fs_State
  imports Prelude Cstring Bitmap Klist Thread Disk Heap
begin

section \<open>The state of the file system\<close>

text \<open>
  The data of \<^verbatim>\<open>fileSystem/\<close>, and what its functions are written in: a state monad over the
  outcomes of \<open>Prelude\<close>.

  The state \<open>fs\<close> belongs to one caller: the mounted partition \<^verbatim>\<open>cur_part\<close> and its disk (as sectors;
  \<open>Disk\<close> shows what the driver makes of a transfer), the open inodes and directories by the
  addresses of their structures, the table of open files, the running thread, the keyboard queue
  and what the console has printed. The heap is the parameter \<open>h\<close>: \<^verbatim>\<open>sys_malloc\<close> and \<^verbatim>\<open>sys_free\<close> on
  a state of their own; \<open>sys_heap\<close> is the one of \<open>Heap\<close>. The flag says whether \<^verbatim>\<open>pgdir\<close> is
  set to null around the call, so that the structure ends up in the kernel's heap.

  Structures with more than one reference (inodes, directories) live under their addresses; a buffer that only
  the function itself uses is a local value, and only its allocation and release go to the heap.
  Messages of \<^verbatim>\<open>printk\<close> are left out.
\<close>

subsection \<open>The data\<close>

record inode =
  i_no :: u32
  i_size :: u32
  i_open_cnts :: u32
  write_deny :: bool
  i_sectors :: "u32 list"

record super_block =
  magic :: u32
  sb_sec_cnt :: u32
  inode_cnt :: u32
  part_lba_base :: u32
  block_bitmap_lba :: u32
  block_bitmap_sects :: u32
  inode_bitmap_lba :: u32
  inode_bitmap_sects :: u32
  inode_table_lba :: u32
  inode_table_sects :: u32
  data_start_lba :: u32
  root_inode_no :: u32
  dir_entry_size :: u32

text \<open>The open inodes of a partition are a list of addresses, the last opened first.\<close>

record partition =
  start_lba :: u32
  part_sec_cnt :: u32
  sb :: super_block
  block_bitmap :: bitmap
  inode_bitmap :: bitmap
  open_inodes :: "u32 list"

record dir =
  dir_inode :: u32
  dir_pos :: u32
  dir_buf :: buf

text \<open>A pointer to a directory is the address of the global \<^verbatim>\<open>root_dir\<close> or one from the heap.\<close>

datatype dirp = Root_Dir | Dir u32

record open_file =
  fd_pos :: u32
  fd_flag :: u32
  fd_inode :: u32

definition MAX_FILE_OPEN :: nat where "MAX_FILE_OPEN = 32"
definition MAX_FILES_OPEN_PER_PROC :: nat where "MAX_FILES_OPEN_PER_PROC = 8"
definition MAX_FILE_NAME_LEN :: nat where "MAX_FILE_NAME_LEN = 16"
definition MAX_PATH_LEN :: nat where "MAX_PATH_LEN = 512"
definition MAX_FILES_PER_PART :: u32 where "MAX_FILES_PER_PART = 4096"
definition BITS_PER_SECTOR :: u32 where "BITS_PER_SECTOR = 4096"
definition SECTOR_SIZE :: u32 where "SECTOR_SIZE = 512"
definition BLOCK_SIZE :: u32 where "BLOCK_SIZE = SECTOR_SIZE"

definition FT_UNKNOWN :: u32 where "FT_UNKNOWN = 0"
definition FT_REGULAR :: u32 where "FT_REGULAR = 1"
definition FT_DIRECTORY :: u32 where "FT_DIRECTORY = 2"

definition O_RDONLY :: u8 where "O_RDONLY = 0"
definition O_WRONLY :: u8 where "O_WRONLY = 1"
definition O_RDWR :: u8 where "O_RDWR = 2"
definition O_CREAT :: u8 where "O_CREAT = 4"

lemmas fs_consts = MAX_FILE_OPEN_def MAX_FILES_OPEN_PER_PROC_def MAX_FILE_NAME_LEN_def MAX_PATH_LEN_def
  MAX_FILES_PER_PART_def BITS_PER_SECTOR_def SECTOR_SIZE_def BLOCK_SIZE_def
  FT_UNKNOWN_def FT_REGULAR_def FT_DIRECTORY_def

lemmas o_flags = O_RDONLY_def O_WRONLY_def O_RDWR_def O_CREAT_def

text \<open>The sizes of the structures on the disk and in memory (gcc on x86, packed or naturally aligned).\<close>

definition inode_bytes_cnt :: nat where "inode_bytes_cnt = 76"
definition dir_entry_bytes_cnt :: nat where "dir_entry_bytes_cnt = 24"
definition dir_bytes_cnt :: u32 where "dir_bytes_cnt = 520"

record 'k fs =
  heap :: 'k
  hd_disk :: disk
  cur_part :: partition
  inodes :: "u32 \<Rightarrow> inode option"
  dirs :: "u32 \<Rightarrow> dir option"
  root_dir :: dir
  file_table :: "open_file list"
  cur_task :: task_struct
  kbd_queue :: "u8 list"
  console :: "buf list"

subsection \<open>The monad\<close>

type_synonym ('a, 'k) fsm = "'k fs \<Rightarrow> ('a \<times> 'k fs) res"

definition retM :: "'a \<Rightarrow> ('a, 'k) fsm" where
  "retM x = (\<lambda>s. Inr (x, s))"

definition bindM :: "('a, 'k) fsm \<Rightarrow> ('a \<Rightarrow> ('b, 'k) fsm) \<Rightarrow> ('b, 'k) fsm" where
  "bindM m f = (\<lambda>s. bindR (m s) (\<lambda>(x, s'). f x s'))"

definition failM :: "fault \<Rightarrow> ('a, 'k) fsm" where
  "failM e = (\<lambda>s. Inl e)"

definition assertM :: "bool \<Rightarrow> ('a, 'k) fsm \<Rightarrow> ('a, 'k) fsm" where
  "assertM c m = (\<lambda>s. ASSERT c (m s))"

definition getM :: "('k fs \<Rightarrow> 'a) \<Rightarrow> ('a, 'k) fsm" where
  "getM f = (\<lambda>s. Inr (f s, s))"

definition modM :: "('k fs \<Rightarrow> 'k fs) \<Rightarrow> (unit, 'k) fsm" where
  "modM f = (\<lambda>s. Inr ((), f s))"

definition liftM :: "'a res \<Rightarrow> ('a, 'k) fsm" where
  "liftM r = (\<lambda>s. bindR r (\<lambda>x. Inr (x, s)))"

text \<open>An access through a pointer.\<close>

definition ptrM :: "u32 \<Rightarrow> ('a, 'k) fsm \<Rightarrow> ('a, 'k) fsm" where
  "ptrM p m = (if p = 0 then failM Bad_Access else m)"

lemma retM_run [simp]: "retM x s = Inr (x, s)" by (simp add: retM_def)
lemma bindM_run [simp]: "bindM m f s = bindR (m s) (\<lambda>(x, s'). f x s')" by (simp add: bindM_def)
lemma failM_run [simp]: "failM e s = Inl e" by (simp add: failM_def)
lemma assertM_run [simp]: "assertM c m s = ASSERT c (m s)" by (simp add: assertM_def)
lemma getM_run [simp]: "getM f s = Inr (f s, s)" by (simp add: getM_def)
lemma modM_run [simp]: "modM f s = Inr ((), f s)" by (simp add: modM_def)
lemma liftM_run [simp]: "liftM r s = bindR r (\<lambda>x. Inr (x, s))" by (simp add: liftM_def)
lemma ptrM_run [simp]: "p \<noteq> 0 \<Longrightarrow> ptrM p m s = m s" by (simp add: ptrM_def)

lemma bindM_cong [fundef_cong]:
  assumes "m = m'" and "\<And>x. f x = f' x"
  shows "bindM m f = bindM m' f'"
  using assms by presburger

subsection \<open>Heap, disk, structures\<close>

record 'k heap_ops =
  hmalloc :: "bool \<Rightarrow> u32 \<Rightarrow> 'k \<Rightarrow> (u32 \<times> 'k) res"
  hfree :: "bool \<Rightarrow> u32 \<Rightarrow> 'k \<Rightarrow> 'k res"

definition with_pgdir :: "bool \<Rightarrow> ('k kmem_scheme \<Rightarrow> ('a \<times> 'k kmem_scheme) res) \<Rightarrow> 'k kmem_scheme \<Rightarrow> ('a \<times> 'k kmem_scheme) res" where
  "with_pgdir kern m s =
     (if kern then
        bindR (pcb (running_thread s) s) (\<lambda>cur.
        bindR (upd_pcb (running_thread s) (\<lambda>t. t\<lparr>pgdir := 0\<rparr>) s) (\<lambda>s1.
        bindR (m s1) (\<lambda>(x, s2).
        bindR (upd_pcb (running_thread s) (\<lambda>t. t\<lparr>pgdir := pgdir cur\<rparr>) s2) (\<lambda>s3. Inr (x, s3)))))
      else m s)"

definition sys_heap :: "'k kmem_scheme heap_ops" where
  "sys_heap = \<lparr>hmalloc = (\<lambda>kern n. with_pgdir kern (sys_malloc n)),
     hfree = (\<lambda>kern p s. bindR (with_pgdir kern (\<lambda>s1. bindR (sys_free p s1) (\<lambda>s2. Inr ((), s2))) s) (\<lambda>(u, s'). Inr s'))\<rparr>"

definition mallocM :: "'k heap_ops \<Rightarrow> bool \<Rightarrow> u32 \<Rightarrow> (u32, 'k) fsm" where
  "mallocM h kern n = (\<lambda>s. bindR (hmalloc h kern n (heap s)) (\<lambda>(p, k). Inr (p, s\<lparr>heap := k\<rparr>)))"

definition freeM :: "'k heap_ops \<Rightarrow> bool \<Rightarrow> u32 \<Rightarrow> (unit, 'k) fsm" where
  "freeM h kern p = (\<lambda>s. bindR (hfree h kern p (heap s)) (\<lambda>k. Inr ((), s\<lparr>heap := k\<rparr>)))"

text \<open>\<^verbatim>\<open>ide_read\<close> and \<^verbatim>\<open>ide_write\<close> on the disk of the partition.\<close>

definition readM :: "u32 \<Rightarrow> u32 \<Rightarrow> (buf, 'k) fsm" where
  "readM lba n = (\<lambda>s. ASSERT (lba \<le> max_lba) (ASSERT (0 < n) (Inr (read_secs (hd_disk s) lba (unat n), s))))"

definition writeM :: "u32 \<Rightarrow> buf \<Rightarrow> u32 \<Rightarrow> (unit, 'k) fsm" where
  "writeM lba b n = (\<lambda>s. ASSERT (lba \<le> max_lba) (ASSERT (0 < n)
     (if 512 * unat n \<le> length b then Inr ((), s\<lparr>hd_disk := write_secs (unat n) lba b (hd_disk s)\<rparr>)
      else Inl Bad_Access)))"

definition modPart :: "(partition \<Rightarrow> partition) \<Rightarrow> (unit, 'k) fsm" where
  "modPart f = modM (\<lambda>s. s\<lparr>cur_part := f (cur_part s)\<rparr>)"

definition getSb :: "(super_block \<Rightarrow> 'a) \<Rightarrow> ('a, 'k) fsm" where
  "getSb f = getM (\<lambda>s. f (sb (cur_part s)))"

definition get_inode :: "u32 \<Rightarrow> (inode, 'k) fsm" where
  "get_inode p = (\<lambda>s. case inodes s p of None \<Rightarrow> Inl Bad_Access | Some i \<Rightarrow> Inr (i, s))"

definition upd_inode :: "u32 \<Rightarrow> (inode \<Rightarrow> inode) \<Rightarrow> (unit, 'k) fsm" where
  "upd_inode p f = (\<lambda>s. case inodes s p of None \<Rightarrow> Inl Bad_Access
     | Some i \<Rightarrow> Inr ((), s\<lparr>inodes := (inodes s)(p \<mapsto> f i)\<rparr>))"

definition get_dir :: "dirp \<Rightarrow> (dir, 'k) fsm" where
  "get_dir d = (\<lambda>s. case d of Root_Dir \<Rightarrow> Inr (root_dir s, s)
     | Dir p \<Rightarrow> (case dirs s p of None \<Rightarrow> Inl Bad_Access | Some x \<Rightarrow> Inr (x, s)))"

definition upd_dir :: "dirp \<Rightarrow> (dir \<Rightarrow> dir) \<Rightarrow> (unit, 'k) fsm" where
  "upd_dir d f = (\<lambda>s. case d of Root_Dir \<Rightarrow> Inr ((), s\<lparr>root_dir := f (root_dir s)\<rparr>)
     | Dir p \<Rightarrow> (case dirs s p of None \<Rightarrow> Inl Bad_Access | Some x \<Rightarrow> Inr ((), s\<lparr>dirs := (dirs s)(p \<mapsto> f x)\<rparr>)))"

definition the_inode_of :: "dirp \<Rightarrow> (u32, 'k) fsm" where
  "the_inode_of d = bindM (get_dir d) (\<lambda>x. retM (dir_inode x))"

text \<open>Integer division by a variable (a division by zero is an exception).\<close>

definition divM :: "u32 \<Rightarrow> u32 \<Rightarrow> (u32, 'k) fsm" where
  "divM a b = (if b = 0 then failM Bad_Access else retM (a div b))"

definition set_sector :: "nat \<Rightarrow> u32 \<Rightarrow> inode \<Rightarrow> inode" where
  "set_sector k b i = i\<lparr>i_sectors := (i_sectors i)[k := b]\<rparr>"

subsection \<open>Words in buffers\<close>

definition u32_bytes :: "u32 \<Rightarrow> buf" where
  "u32_bytes w = [ucast w, ucast (drop_bit 8 w), ucast (drop_bit 16 w), ucast (drop_bit 24 w)]"

definition bytes_of :: "u32 list \<Rightarrow> buf" where
  "bytes_of ws = concat (map u32_bytes ws)"

definition get32 :: "buf \<Rightarrow> nat \<Rightarrow> u32" where
  "get32 b i = ucast (b ! i) + ucast (b ! (i + 1)) * 0x100 + ucast (b ! (i + 2)) * 0x10000 + ucast (b ! (i + 3)) * 0x1000000"

definition words_at :: "buf \<Rightarrow> nat \<Rightarrow> nat \<Rightarrow> u32 list" where
  "words_at b i n = map (\<lambda>k. get32 b (i + 4 * k)) [0..<n]"

text \<open>A \<^verbatim>\<open>struct inode\<close> as bytes. The copy that goes to the disk has no list pointers; those read from
  there are overwritten by the list operation that follows.\<close>

definition inode_bytes :: "inode \<Rightarrow> buf" where
  "inode_bytes i = bytes_of ([i_no i, i_size i, i_open_cnts i, if write_deny i then 1 else 0] @ i_sectors i @ [0, 0])"

definition inode_get :: "buf \<Rightarrow> nat \<Rightarrow> inode" where
  "inode_get b i = \<lparr>i_no = get32 b i, i_size = get32 b (i + 4), i_open_cnts = get32 b (i + 8),
     write_deny = (get32 b (i + 12) \<noteq> 0), i_sectors = words_at b (i + 16) 13\<rparr>"

definition inode_at :: "buf \<Rightarrow> nat \<Rightarrow> inode res" where
  "inode_at b i = (if i + inode_bytes_cnt \<le> length b then Inr (inode_get b i) else Inl Bad_Access)"

definition sb_bytes :: "super_block \<Rightarrow> buf" where
  "sb_bytes x = bytes_of [magic x, sb_sec_cnt x, inode_cnt x, part_lba_base x, block_bitmap_lba x,
     block_bitmap_sects x, inode_bitmap_lba x, inode_bitmap_sects x, inode_table_lba x,
     inode_table_sects x, data_start_lba x, root_inode_no x, dir_entry_size x]"

definition sb_at :: "buf \<Rightarrow> super_block" where
  "sb_at b = \<lparr>magic = get32 b 0, sb_sec_cnt = get32 b 4, inode_cnt = get32 b 8, part_lba_base = get32 b 12,
     block_bitmap_lba = get32 b 16, block_bitmap_sects = get32 b 20, inode_bitmap_lba = get32 b 24,
     inode_bitmap_sects = get32 b 28, inode_table_lba = get32 b 32, inode_table_sects = get32 b 36,
     data_start_lba = get32 b 40, root_inode_no = get32 b 44, dir_entry_size = get32 b 48\<rparr>"

text \<open>Where an entry of a directory has its name, its inode number and its type.\<close>

definition de_no :: "buf \<Rightarrow> nat \<Rightarrow> u32 res" where
  "de_no b k = le32 b (24 * k + 16)"

definition de_type :: "buf \<Rightarrow> nat \<Rightarrow> u32 res" where
  "de_type b k = le32 b (24 * k + 20)"

lemma le32_get: "i + 4 \<le> length b \<Longrightarrow> le32 b i = Inr (get32 b i)"
  by (simp add: le32_def get32_def)

subsection \<open>Words and bytes\<close>

lemma byte_of_word: "unat (ucast (drop_bit k l) :: u8) = unat l div 2 ^ k mod 256" for l :: u32
  by (simp add: unsigned_ucast_eq unat_drop_bit_eq take_bit_eq_mod) (simp add: drop_bit_eq_div)

lemma four_digits:
  fixes m :: nat
  shows "m mod 256 + m div 256 mod 256 * 256 + m div 65536 mod 256 * 65536 + m div 16777216 * 16777216 = m"
proof -
  have a: "m div 65536 = m div 256 div 256" "m div 16777216 = m div 65536 div 256"
    by (simp_all add: div_mult2_eq [symmetric])
  show ?thesis
    using div_mult_mod_eq [of m 256] div_mult_mod_eq [of "m div 256" 256] div_mult_mod_eq [of "m div 65536" 256] a
    by linarith
qed

lemma word_of_bytes:
  fixes l :: u32
  shows "ucast (ucast l :: u8) + ucast (ucast (drop_bit 8 l) :: u8) * 0x100
     + ucast (ucast (drop_bit 16 l) :: u8) * 0x10000 + ucast (ucast (drop_bit 24 l) :: u8) * 0x1000000 = l"
proof -
  define x y z w :: u32 where d: "x = ucast (ucast l :: u8)" "y = ucast (ucast (drop_bit 8 l) :: u8)"
    "z = ucast (ucast (drop_bit 16 l) :: u8)" "w = ucast (ucast (drop_bit 24 l) :: u8)"
  have b0: "unat (ucast l :: u8) = unat l mod 256" using byte_of_word [of 0 l] by simp
  have "unat l div 16777216 < 256" using unat_u32_lt [of l] by simp
  then have t24: "unat l div 16777216 mod 256 = unat l div 16777216" by simp
  have u: "unat x = unat l mod 256" "unat y = unat l div 256 mod 256" "unat z = unat l div 65536 mod 256"
    "unat w = unat l div 16777216"
    using b0 byte_of_word [of 8 l] byte_of_word [of 16 l] byte_of_word [of 24 l] t24 by (simp_all add: d)
  have b: "unat x < 256" "unat y < 256" "unat z < 256" "unat w < 256"
    using \<open>unat l div 16777216 < 256\<close> by (simp_all add: u)
  have m: "unat (y * 0x100) = unat y * 256" "unat (z * 0x10000) = unat z * 65536" "unat (w * 0x1000000) = unat w * 16777216"
    using b unat_mult_small [of y "0x100"] unat_mult_small [of z "0x10000"] unat_mult_small [of w "0x1000000"] by simp_all
  have t: "unat x + unat y * 256 + unat z * 65536 + unat w * 16777216 = unat l"
    using four_digits [of "unat l"] u by simp
  have s1: "unat (x + y * 0x100) = unat x + unat y * 256"
    using t unat_u32_lt [of l] unat_add_small [of x "y * 0x100"] m by simp
  have s2: "unat (x + y * 0x100 + z * 0x10000) = unat x + unat y * 256 + unat z * 65536"
    using t unat_u32_lt [of l] unat_add_small [of "x + y * 0x100" "z * 0x10000"] m s1 by simp
  have "unat (x + y * 0x100 + z * 0x10000 + w * 0x1000000) = unat l"
    using t unat_u32_lt [of l] unat_add_small [of "x + y * 0x100 + z * 0x10000" "w * 0x1000000"] m s2 by simp
  then show ?thesis unfolding d [symmetric] word_unat_eq_iff .
qed

lemma length_u32_bytes [simp]: "length (u32_bytes w) = 4"
  by (simp add: u32_bytes_def)

lemma length_bytes_of [simp]: "length (bytes_of ws) = 4 * length ws"
  by (induction ws) (simp_all add: bytes_of_def)

lemma get32_append: "get32 (a @ b) (length a + i) = get32 b i"
  by (simp add: get32_def nth_append)

lemma get32_prefix: "i + 4 \<le> length a \<Longrightarrow> get32 (a @ b) i = get32 a i"
  by (simp add: get32_def nth_append)

lemma get32_u32_bytes [simp]: "get32 (u32_bytes w @ b) 0 = w"
  by (simp add: get32_def u32_bytes_def word_of_bytes numeral_2_eq_2 numeral_3_eq_3)

lemma get32_bytes_of: "k < length ws \<Longrightarrow> get32 (bytes_of ws) (4 * k) = ws ! k"
proof (induction ws arbitrary: k)
  case (Cons w ws)
  have e: "bytes_of (w # ws) = u32_bytes w @ bytes_of ws" by (simp add: bytes_of_def)
  show ?case
  proof (cases k)
    case 0
    then show ?thesis by (simp add: e)
  next
    case (Suc j)
    then show ?thesis using Cons get32_append [of "u32_bytes w" "bytes_of ws" "4 * j"] by (simp add: e)
  qed
qed simp

lemma get32_drop: "get32 (drop m b) i = get32 b (m + i)" if "m \<le> length b"
proof -
  have "get32 (take m b @ drop m b) (length (take m b) + i) = get32 (drop m b) i" by (rule get32_append)
  then show ?thesis using that by simp
qed

lemma words_at_bytes_of: "words_at (bytes_of ws) 0 (length ws) = ws"
  by (rule nth_equalityI) (simp_all add: words_at_def get32_bytes_of)

lemma length_words_at [simp]: "length (words_at b i n) = n"
  by (simp add: words_at_def)

subsection \<open>Overwriting a range\<close>

lemma get32_put_other:
  assumes "p + length xs \<le> length b" and "i + 4 \<le> p \<or> p + length xs \<le> i" and "i + 4 \<le> length b"
  shows "get32 (put p xs b) i = get32 b i"
proof -
  have n: "put p xs b ! j = b ! j" if "j < p \<or> p + length xs \<le> j" "j < length b" for j
    using that assms(1) by (auto simp: put_def nth_append)
  show ?thesis unfolding get32_def using assms by (auto simp: n)
qed

lemma get32_put_in:
  assumes "p + length xs \<le> length b" and "i + 4 \<le> length xs"
  shows "get32 (put p xs b) (p + i) = get32 xs i"
proof -
  have n: "put p xs b ! (p + j) = xs ! j" if "j < length xs" for j
    using that assms(1) by (auto simp: put_def nth_append)
  have "get32 (put p xs b) (p + i) = get32 xs i"
    unfolding get32_def using assms n [of i] n [of "i + 1"] n [of "i + 2"] n [of "i + 3"] by (simp add: add.assoc)
  then show ?thesis .
qed

lemma get32_take_drop:
  assumes "i + 4 \<le> n" and "p + n \<le> length b"
  shows "get32 (take n (drop p b)) i = get32 b (p + i)"
  using assms by (simp add: get32_def add.assoc)

lemma put_put:
  assumes "r + length x \<le> n" and "p + n \<le> length b"
  shows "put p (put r x (take n (drop p b))) b = put (p + r) x b"
proof -
  have "take (p + r) b = take p b @ take r (drop p b)" by (rule take_add)
  moreover have "drop (r + length x) (take n (drop p b)) @ drop (p + n) b = drop (p + r + length x) b"
  proof -
    have "drop (p + r + length x) b = drop (r + length x) (drop p b)" by (simp add: add.commute add.left_commute)
    also have "drop p b = take n (drop p b) @ drop (p + n) b" by (simp add: drop_drop [symmetric] add.commute [of p n] del: drop_drop)
    also have "drop (r + length x) (take n (drop p b) @ drop (p + n) b)
        = drop (r + length x) (take n (drop p b)) @ drop (p + n) b" using assms by simp
    finally show ?thesis ..
  qed
  moreover have "length (put r x (take n (drop p b))) = n" using assms by simp
  ultimately show ?thesis using assms by (simp add: put_def)
qed

lemma take_drop_put:
  assumes "p + length x \<le> length b"
  shows "take (length x) (drop p (put p x b)) = x"
  using assms by (simp add: put_def)

lemma take_drop_put_other:
  assumes "p + length x \<le> length b" and "q + n \<le> p \<or> p + length x \<le> q" and "q + n \<le> length b"
  shows "take n (drop q (put p x b)) = take n (drop q b)"
proof (rule nth_equalityI)
  fix i assume "i < length (take n (drop q (put p x b)))"
  then have "i < n" by simp
  then show "take n (drop q (put p x b)) ! i = take n (drop q b) ! i"
    using assms by (auto simp: put_def nth_append)
qed (use assms in simp)

subsection \<open>Ranges of sectors\<close>

lemma read_secs_part:
  assumes "disk_ok d" and "k + m \<le> n"
  shows "read_secs d (t + of_nat k) m = take (512 * m) (drop (512 * k) (read_secs d t n))"
proof -
  have "read_secs d t n = read_secs d t k @ read_secs d (t + of_nat k) (m + (n - k - m))"
    using read_secs_add [of d t k "m + (n - k - m)"] assms(2) by simp
  then show ?thesis by (simp add: read_secs_add length_read_secs [OF assms(1)])
qed

lemma read_secs_cong: "(\<And>i. i < n \<Longrightarrow> d (l + of_nat i) = d' (l + of_nat i)) \<Longrightarrow> read_secs d l n = read_secs d' l n"
  unfolding read_secs_def by (intro arg_cong [of _ _ concat] map_cong) simp_all

lemma unat_add_nat: "unat (l :: u32) + n < 2 ^ 32 \<Longrightarrow> unat (l + of_nat n) = unat l + n"
  by (simp add: unat_word_ariths unat_of_nat)

lemma read_secs_outside:
  assumes "unat l + n \<le> 2 ^ 32" and "unat q + m \<le> 2 ^ 32" and "unat q + m \<le> unat l \<or> unat l + n \<le> unat q"
  shows "read_secs (write_secs m q x d) l n = read_secs d l n"
proof (rule read_secs_cong)
  fix i assume "i < n"
  then have "unat (l + of_nat i) = unat l + i" using assms(1) by (intro unat_add_nat) simp
  then show "write_secs m q x d (l + of_nat i) = d (l + of_nat i)"
    using assms \<open>i < n\<close> by (intro write_secs_other) auto
qed

lemma read_secs_write_part:
  assumes d: "disk_ok d" and k: "k + m \<le> n" and t: "unat t + n < 2 ^ 32" and x: "length x = 512 * m"
  shows "read_secs (write_secs m (t + of_nat k) x d) t n = put (512 * k) x (read_secs d t n)"
proof -
  let ?e = "write_secs m (t + of_nat k) x d"
  have split: "read_secs f t n = read_secs f t k @ read_secs f (t + of_nat k) m @ read_secs f (t + of_nat (k + m)) (n - k - m)" for f
    using read_secs_add [of f t k "m + (n - k - m)"] read_secs_add [of f "t + of_nat k" m "n - k - m"] k
    by (simp add: add.assoc)
  have uk: "unat (t + of_nat k) = unat t + k" "unat (t + of_nat (k + m)) = unat t + (k + m)"
    using k t by (intro unat_add_nat; simp)+
  have "read_secs ?e t k = read_secs d t k" using k t uk by (intro read_secs_outside) auto
  moreover have "read_secs ?e (t + of_nat (k + m)) (n - k - m) = read_secs d (t + of_nat (k + m)) (n - k - m)"
    by (rule read_secs_outside) (use k t uk in linarith)+
  moreover have "read_secs ?e (t + of_nat k) m = x" using read_write_secs [of "t + of_nat k" m x d] k t uk x by simp
  ultimately have "read_secs ?e t n = read_secs d t k @ x @ read_secs d (t + of_nat (k + m)) (n - k - m)"
    using split [of ?e] by simp
  also have "\<dots> = put (512 * k) x (read_secs d t n)"
    using split [of d] x by (simp add: put_def length_read_secs [OF d])
  finally show ?thesis .
qed

lemma write_1 [simp]: "write_secs (Suc 0) l b d = d(l := take 512 b)"
  by simp

subsection \<open>Calls of the heap\<close>

text \<open>What a function asks of the heap: to get so many bytes, or to put back the \<open>i\<close>-th of the blocks it holds, the
  newest first; the flag is the one of \<open>heap_ops\<close>.\<close>

datatype heap_call = Get bool u32 | Put bool nat

text \<open>\<open>served h cs L ps k\<close>: from \<open>k\<close> on, the heap serves exactly the calls \<open>cs\<close>. What it gives is not null and none of
  the addresses \<open>L\<close> or of the blocks \<open>ps\<close> already held.\<close>

primrec served :: "'k heap_ops \<Rightarrow> heap_call list \<Rightarrow> u32 set \<Rightarrow> u32 list \<Rightarrow> 'k \<Rightarrow> bool" where
  "served h [] L ps k \<longleftrightarrow> True"
| "served h (c # cs) L ps k \<longleftrightarrow> (case c of
     Get kern n \<Rightarrow> (case hmalloc h kern n k of Inl e \<Rightarrow> False
       | Inr (p, k') \<Rightarrow> p \<noteq> 0 \<and> p \<notin> L \<and> p \<notin> set ps \<and> served h cs L (p # ps) k')
   | Put kern i \<Rightarrow> i < length ps \<and> (case hfree h kern (ps ! i) k of Inl e \<Rightarrow> False
       | Inr k' \<Rightarrow> served h cs L (take i ps @ drop (Suc i) ps) k'))"

lemma mallocM_served:
  assumes "served h (Get kern n # cs) L ps (heap s)"
  obtains p k where "mallocM h kern n s = Inr (p, s\<lparr>heap := k\<rparr>)" "p \<noteq> 0" "p \<notin> L" "p \<notin> set ps"
    "served h cs L (p # ps) k"
  using assms by (auto simp: mallocM_def split: sum.splits prod.splits)

lemma freeM_served:
  assumes "served h (Put kern i # cs) L ps (heap s)"
  obtains k where "freeM h kern (ps ! i) s = Inr ((), s\<lparr>heap := k\<rparr>)" "served h cs L (take i ps @ drop (Suc i) ps) k"
  using assms by (auto simp: freeM_def split: sum.splits)

declare served.simps [simp del]

lemma served_none [simp]: "served h [] L ps k"
  by (simp add: served.simps)

end
