(* ===== verification/Stock.thy ===== *)
theory Stock
  imports Fs_State Heap_Safe
begin

section \<open>The kernel's heap serves the file system\<close>

text \<open>
  A kernel thread with a heap in order whose lists hold enough free blocks: every \<^verbatim>\<open>sys_malloc\<close> of 1 to 1024 bytes gets
  one, and every \<^verbatim>\<open>sys_free\<close> takes one back. The file system's calls are of this kind, so this is what lets its
  theorems be about \<open>sys_heap\<close>.
\<close>

subsection \<open>A stocked heap\<close>

text \<open>A block of size class \<open>i\<close> that was given out.\<close>

definition taken :: "'a kmem_scheme \<Rightarrow> u32 \<Rightarrow> nat \<Rightarrow> bool" where
  "taken s p i \<longleftrightarrow> (\<exists>ar. small_arena (arenas s 0) (block2arena p) ar i \<and> p \<in> arena_blocks (block2arena p) i
     \<and> p \<notin> set (flist (k_block_descs s) i))"

text \<open>The heap is in order and the pages of its arenas are mapped by \<open>M\<close>. The addresses \<open>Q\<close> are in no list, and every
  arena has a block among them, so that no page is given back while they stay.\<close>

definition stocked :: "(u32 \<times> u32) set \<Rightarrow> u32 set \<Rightarrow> 'a kmem_scheme \<Rightarrow> bool" where
  "stocked M Q s \<longleftrightarrow> kheap_ok s \<and> data_pages M (pmem s) (cr3 s)
     \<and> (\<forall>a ar i. small_arena (arenas s 0) a ar i \<longrightarrow> (\<exists>f. (a, f) \<in> M) \<and> (\<exists>q\<in>Q. q \<in> arena_blocks a i))
     \<and> (\<forall>i<7. Q \<inter> set (flist (k_block_descs s) i) = {})"

text \<open>The running thread is a thread of the kernel and the lock of the pool is free.\<close>

definition kernel_caller :: "'a kmem_scheme \<Rightarrow> bool" where
  "kernel_caller s \<longleftrightarrow> (\<exists>t. pcbs s (running_thread s) = Some t \<and> pgdir t = 0) \<and> running_thread s \<noteq> 0
     \<and> pool_lock (kernel_pool s) = lock_init \<and> 1024 < pool_size (kernel_pool s)"

text \<open>The size class of a request.\<close>

definition fits :: "nat \<Rightarrow> u32 \<Rightarrow> bool" where
  "fits i n \<longleftrightarrow> unat n \<le> blk_size i \<and> (\<forall>m<i. blk_size m < unat n)"

lemma find_desc_class: "descs_ok (k_block_descs s) \<Longrightarrow> i + n \<le> 7 \<Longrightarrow> \<exists>j. find_desc n i KDesc sz s = Inr j"
proof (induction n arbitrary: i)
  case (Suc n)
  then have "get_desc (KDesc i) s = Inr (k_block_descs s ! i)" by (simp add: get_desc_kernel descs_ok_def)
  then show ?case using Suc.IH [of "Suc i"] Suc.prems by simp
qed simp

lemma find_desc_fits:
  assumes "descs_ok (k_block_descs s)" and "unat sz \<le> 1024"
  obtains i where "find_desc DESC_CNT 0 KDesc sz s = Inr i" "i < 7" "fits i sz"
proof -
  have "0 + DESC_CNT \<le> 7" by (simp add: DESC_CNT_def)
  from find_desc_class [OF assms(1) this] obtain j where j: "find_desc DESC_CNT 0 KDesc sz s = Inr j" by blast
  note fd = find_desc_spec [OF j assms(1)]
  have "j \<noteq> 7"
  proof
    assume "j = 7"
    then have "blk_size 6 < unat sz" using fd by (simp add: DESC_CNT_def)
    then show False using assms(2) by (simp add: blk_size_def)
  qed
  then show thesis using fd by (intro that [OF j]) (auto simp: DESC_CNT_def fits_def)
qed

lemma fits_unique: "fits i n \<Longrightarrow> fits j n \<Longrightarrow> i = j"
  unfolding fits_def by (metis linorder_neqE_nat not_less)

subsection \<open>Getting a block\<close>

lemma zero_block:
  assumes dp: "data_pages M (pmem s) (cr3 s)" and a: "(a, f) \<in> M" and b: "b \<in> arena_blocks a i"
  shows "\<exists>pm. vmemset0 b (of_nat (blk_size i)) s = Inr (s\<lparr>pmem := pm\<rparr>) \<and> data_pages M pm (cr3 s)"
proof -
  from b obtain k where k: "k < blk_cnt i" "b = arena_block a i k" by (auto simp: arena_blocks_def)
  note bb = blk_bounds [OF k(1)]
  let ?w = "4 * 2 ^ i :: nat" and ?o = "3 + k * (4 * 2 ^ i) :: nat"
  have sz: "blk_size i = 4 * ?w" by (simp add: blk_size_def)
  have "(of_nat (k * blk_size i) :: u32) = of_nat (4 * (k * ?w))" unfolding sz by (simp only: mult.left_commute)
  then have e: "b = a + 4 * of_nat ?o" unfolding k(2) arena_block_def by (simp add: ARENA_SIZE_def)
  have "blk_size i < 2 ^ 32" using bb(1) by simp
  then have "unat (of_nat (blk_size i) :: u32) = blk_size i" by (simp add: unat_of_nat take_bit_nat_eq_self)
  then have n: "unat (of_nat (blk_size i) :: u32) div 4 = ?w" unfolding sz by simp
  have "?o + ?w \<le> 1024" using bb(1) unfolding sz by (simp add: mult.left_commute)
  from vzero_page [OF dp a this] show ?thesis unfolding vmemset0_def n e by blast
qed

lemma stocked_flist: "stocked M Q s \<Longrightarrow> i < 7 \<Longrightarrow> flist (k_block_descs s) i = free_list (k_block_descs s ! i)"
  unfolding stocked_def using descs_at(4) by blast

text \<open>The parts of the state a call of the heap leaves alone.\<close>

lemma small_arena_cnt:
  assumes "A a = Some ar" and "small_arena A a ar i"
  shows "(\<exists>ar'. small_arena (A(a \<mapsto> ar\<lparr>arena_cnt := c\<rparr>)) x ar' j) \<longleftrightarrow> (\<exists>ar'. small_arena A x ar' j)"
  unfolding cnt_upd(1) [OF assms(2)] using assms by (cases "x = a") (auto simp: small_arena_def)

lemma stocked_pool [simp]: "stocked M Q (s\<lparr>kernel_pool := kp\<rparr>) \<longleftrightarrow> stocked M Q s"
  "taken (s\<lparr>kernel_pool := kp\<rparr>) p i \<longleftrightarrow> taken s p i"
  by (simp_all add: stocked_def taken_def kheap_ok_def)

lemma taken_iff: "taken s p i \<longleftrightarrow> (\<exists>ar. small_arena (arenas s 0) (block2arena p) ar i) \<and> p \<in> arena_blocks (block2arena p) i
    \<and> p \<notin> set (flist (k_block_descs s) i)"
  by (auto simp: taken_def)

lemma get_block:
  assumes st: "stocked M Q s" and i: "i < 7" and fl: "flist (k_block_descs s) i = b # l"
  obtains s' where "take_block (KDesc i) s = Inr (b, s')" and "stocked M Q s'" and "b \<noteq> 0" and "b \<notin> Q"
    and "flist (k_block_descs s') = (flist (k_block_descs s))(i := l)"
    and "taken s' b i" and "\<And>p j. taken s p j \<Longrightarrow> taken s' p j \<and> p \<noteq> b"
    and "s' = s\<lparr>pmem := pmem s', k_block_descs := k_block_descs s', arenas := arenas s'\<rparr>"
proof -
  have ok: "kheap_ok s" using st by (simp add: stocked_def)
  note d = descs_at [OF ok i]
  let ?d = "k_block_descs s ! i" and ?a = "block2arena b"
  let ?s1 = "s\<lparr>k_block_descs := (k_block_descs s)[i := ?d\<lparr>free_list := l\<rparr>]\<rparr>"
  have F: "free_list ?d = b # l" using fl d(4) by simp
  obtain ar where ar: "small_arena (arenas s 0) ?a ar i" "b \<in> arena_blocks ?a i"
    using listed [OF d(6) i, of b] fl by auto
  then have a0: "arenas s 0 ?a = Some ar" by (simp add: small_arena_def)
  obtain f where f: "(?a, f) \<in> M" using st ar(1) unfolding stocked_def by blast
  have "data_pages M (pmem ?s1) (cr3 ?s1)" using st by (simp add: stocked_def)
  from zero_block [OF this f ar(2)] obtain pm where pm: "vmemset0 b (of_nat (blk_size i)) ?s1 = Inr (?s1\<lparr>pmem := pm\<rparr>)"
    "data_pages M pm (cr3 s)" by auto
  have sp: "space_of ?a u = 0" for u :: "'a kmem_scheme"
    using kernel_addr(1) [OF d(7) arena_page_used [OF d(6) a0]] .
  let ?ar = "ar\<lparr>arena_cnt := arena_cnt ar - 1\<rparr>"
  let ?s' = "set_arena ?a (Some ?ar) (?s1\<lparr>pmem := pm\<rparr>)"
  have t: "take_block (KDesc i) s = Inr (b, ?s')"
    using d(1,2) F pm(1) sp a0 by (simp add: take_block_def get_desc_def set_desc_def arena_at_def)
  have A': "arenas ?s' 0 = (arenas s 0)(?a \<mapsto> ?ar)" and F': "flist (k_block_descs ?s') = (flist (k_block_descs s))(i := l)"
    using sp flist_upd [OF d(1)] by simp_all
  have dst: "b \<notin> set l" using d(5) F by simp
  have nz: "b \<noteq> 0"
    using arena_block_page(2) [OF small_arena_block(1) [OF d(6) ar] ar(2)] by auto
  note sm = small_arena_cnt [OF a0 ar(1), of "arena_cnt ar - 1", folded A']
  have tk: "taken ?s' p j \<longleftrightarrow> p = b \<and> j = i \<or> taken s p j" for p j
  proof (cases "p = b")
    case True
    have "(\<exists>x. small_arena (arenas s 0) ?a x j) \<longleftrightarrow> j = i" using ar(1) small_arena_unique [OF ar(1)] by blast
    then show ?thesis unfolding taken_iff sm F' using True ar(2) dst fl by auto
  next
    case False
    then have "p \<in> set (((flist (k_block_descs s))(i := l)) j) \<longleftrightarrow> p \<in> set (flist (k_block_descs s) j)" using fl by simp
    then show ?thesis unfolding taken_iff sm F' using False by blast
  qed
  have nb: "p \<noteq> b" if "taken s p j" for p j
  proof
    assume "p = b"
    then have "j = i" using that small_arena_unique [OF ar(1)] by (auto simp: taken_def)
    then show False using that fl \<open>p = b\<close> by (simp add: taken_def)
  qed
  have fs: "cr3 ?s' = cr3 s" "pmem ?s' = pm"
    by (simp_all add: set_arena_def)
  have "kheap_ok ?s'" using take_block_kernel [OF ok i t] by blast
  moreover have q: "\<forall>j<7. Q \<inter> set (flist (k_block_descs s) j) = {}" using st by (simp add: stocked_def)
  moreover have "Q \<inter> set l = {}" using q i fl by fastforce
  then have "\<forall>j<7. Q \<inter> set (flist (k_block_descs ?s') j) = {}" using q unfolding F' by simp
  ultimately have "stocked M Q ?s'" using st pm(2) sm unfolding stocked_def fs by blast
  moreover have "b \<notin> Q" using st i fl by (auto simp: stocked_def)
  moreover have "?s' = s\<lparr>pmem := pmem ?s', k_block_descs := k_block_descs ?s', arenas := arenas ?s'\<rparr>"
    by (simp add: set_arena_def)
  moreover have "taken ?s' b i" "\<And>p j. taken s p j \<Longrightarrow> taken ?s' p j \<and> p \<noteq> b"
    using tk nb by blast+
  ultimately show thesis by (intro that [OF t _ nz _ F'])
qed

subsection \<open>Putting a block back\<close>

lemma arena_not_full:
  assumes inv: "heap_inv F A U" and ar: "small_arena A a ar i" and p: "p \<in> arena_blocks a i" "p \<notin> set (F i)"
    and q: "q \<in> arena_blocks a i" "q \<notin> set (F i)" "q \<noteq> p"
  shows "unat (arena_cnt ar + 1) < blk_cnt i"
proof -
  note sb = small_arena_block [OF inv ar p(1)]
  have c: "card (insert p (insert q (arena_blocks a i \<inter> set (F i)))) \<le> card (arena_blocks a i)"
    using p q by (intro card_mono) auto
  have "card (insert p (insert q (arena_blocks a i \<inter> set (F i)))) = Suc (Suc (unat (arena_cnt ar)))"
    using p q sb(3) by simp
  then have l: "unat (arena_cnt ar) + 2 \<le> blk_cnt i" using c card_arena_blocks [OF sb(1), of i] by simp
  then have "unat (arena_cnt ar + 1) = unat (arena_cnt ar) + 1" using blk_cnt_less [of i] by (subst unat_add_small) auto
  then show ?thesis using l by simp
qed

lemma put_block:
  assumes st: "stocked M Q s" and p: "taken s p i" "p \<notin> Q" and ar: "arenas s 0 (block2arena p) = Some ar"
  obtains s' where "free_block PF_KERNEL p ar (KDesc i) s = Inr s'" and "stocked M Q s'"
    and "flist (k_block_descs s') = (flist (k_block_descs s))(i := flist (k_block_descs s) i @ [p])"
    and "\<And>q j. taken s q j \<Longrightarrow> q \<noteq> p \<Longrightarrow> taken s' q j"
    and "s' = s\<lparr>k_block_descs := k_block_descs s', arenas := arenas s'\<rparr>"
proof -
  have ok: "kheap_ok s" using st by (simp add: stocked_def)
  let ?a = "block2arena p" and ?d = "k_block_descs s ! i" and ?F = "flist (k_block_descs s)"
  have sa: "small_arena (arenas s 0) ?a ar i" "p \<in> arena_blocks ?a i" "p \<notin> set (?F i)"
    using p(1) ar by (auto simp: taken_def small_arena_def)
  then have i: "i < 7" by (simp add: small_arena_def)
  note d = descs_at [OF ok i]
  obtain q f where q: "q \<in> Q" "q \<in> arena_blocks ?a i" "(?a, f) \<in> M" using st sa(1) unfolding stocked_def by blast
  have "Q \<inter> set (?F i) = {}" using st i by (simp add: stocked_def)
  then have nq: "q \<notin> set (?F i)" "q \<noteq> p" using q(1) p(2) by auto
  have "unat (arena_cnt ar + 1) \<noteq> blk_cnt i"
    using arena_not_full [OF d(6) sa q(2) nq] by simp
  then have n: "arena_cnt ar + 1 \<noteq> blocks_pre_arena ?d" using d(3) by auto
  have sp: "space_of ?a u = 0" for u :: "'a kmem_scheme"
    using kernel_addr(1) [OF d(7) arena_page_used [OF d(6) ar]] .
  let ?ar = "ar\<lparr>arena_cnt := arena_cnt ar + 1\<rparr>" and ?l = "free_list ?d @ [p]"
  let ?s' = "(set_arena ?a (Some ?ar) s)\<lparr>k_block_descs := (k_block_descs s)[i := ?d\<lparr>free_list := ?l\<rparr>]\<rparr>"
  have t: "free_block PF_KERNEL p ar (KDesc i) s = Inr ?s'"
    using d(1,4) sa(3) n by (simp add: free_block_def get_desc_def set_desc_def kl_append_def)
  have A': "arenas ?s' 0 = (arenas s 0)(?a \<mapsto> ?ar)" and F': "flist (k_block_descs ?s') = ?F(i := ?F i @ [p])"
    using sp flist_upd [OF d(1)] d(4) by simp_all
  note sm = small_arena_cnt [OF ar sa(1), of "arena_cnt ar + 1", folded A']
  have tk: "taken ?s' q j" if "taken s q j" "q \<noteq> p" for q j
    using that unfolding taken_iff sm F' by auto
  have fs: "cr3 ?s' = cr3 s" "pmem ?s' = pmem s"
    by (simp_all add: set_arena_def)
  have np: "p \<notin> set (free_list ?d)" using sa(3) d(4) by simp
  have "kheap_ok ?s'" using free_block_kernel [OF ok sa(1,2) np t] by blast
  moreover have "\<forall>j<7. Q \<inter> set (flist (k_block_descs ?s') j) = {}"
    using st p(2) unfolding F' stocked_def by auto
  ultimately have "stocked M Q ?s'" using st sm unfolding stocked_def fs by blast
  moreover have "?s' = s\<lparr>k_block_descs := k_block_descs ?s', arenas := arenas ?s'\<rparr>"
    by (simp add: set_arena_def)
  ultimately show thesis by (intro that [OF t _ F' tk])
qed

subsection \<open>Every call is served\<close>

lemma sys_malloc_stock:
  assumes st: "stocked M Q s" and k: "kernel_caller s" and n: "0 < n" "unat n \<le> 1024" "fits i n" and i: "i < 7"
    and fl: "flist (k_block_descs s) i = b # l"
  obtains s' where "sys_malloc n s = Inr (b, s')" and "stocked M Q s'" and "kernel_caller s'" and "b \<noteq> 0" and "b \<notin> Q"
    and "flist (k_block_descs s') = (flist (k_block_descs s))(i := l)"
    and "taken s' b i" and "\<And>p j. taken s p j \<Longrightarrow> taken s' p j \<and> p \<noteq> b"
    and "running_thread s' = running_thread s" and "pcbs s' = pcbs s"
proof -
  obtain t where t: "pcbs s (running_thread s) = Some t" "pgdir t = 0" "running_thread s \<noteq> 0"
    "pool_lock (kernel_pool s) = lock_init" "1024 < pool_size (kernel_pool s)" using k by (auto simp: kernel_caller_def)
  let ?s1 = "s\<lparr>kernel_pool := (kernel_pool s)\<lparr>pool_lock := lock_taken (running_thread s)\<rparr>\<rparr>"
  have a: "acquire_pool PF_KERNEL s = Inr ?s1" using t(3,4) by (simp add: acquire_pool_def the_pool_def set_pool_def)
  have st1: "stocked M Q ?s1" "flist (k_block_descs ?s1) i = b # l" using st fl by simp_all
  obtain s2 where s2: "take_block (KDesc i) ?s1 = Inr (b, s2)" "stocked M Q s2" "b \<noteq> 0" "b \<notin> Q"
    "flist (k_block_descs s2) = (flist (k_block_descs ?s1))(i := l)" "taken s2 b i"
    "\<And>p j. taken ?s1 p j \<Longrightarrow> taken s2 p j \<and> p \<noteq> b"
    "s2 = ?s1\<lparr>pmem := pmem s2, k_block_descs := k_block_descs s2, arenas := arenas s2\<rparr>"
    by (rule get_block [OF st1(1) i st1(2)]) blast
  let ?s3 = "s2\<lparr>kernel_pool := (kernel_pool s)\<lparr>pool_lock := lock_init\<rparr>\<rparr>"
  have f2: "kernel_pool s2 = (kernel_pool s)\<lparr>pool_lock := lock_taken (running_thread s)\<rparr>" "running_thread s2 = running_thread s" "pcbs s2 = pcbs s"
    by (subst s2(8), simp add: running_thread_def)+
  have r: "release_pool PF_KERNEL s2 = Inr ?s3" using f2 by (simp add: release_pool_def the_pool_def set_pool_def)
  have ok: "descs_ok (k_block_descs ?s1)" using st by (simp add: stocked_def kheap_ok_def)
  obtain j where j: "find_desc DESC_CNT 0 KDesc n ?s1 = Inr j" "j < 7" "fits j n" by (rule find_desc_fits [OF ok n(2)])
  have ji: "j = i" using fits_unique [OF j(3) n(3)] .
  have g: "get_desc (KDesc i) ?s1 = Inr (k_block_descs s ! i)" "free_list (k_block_descs s ! i) = b # l"
    using ok i stocked_flist [OF st i] fl by (simp_all add: descs_ok_def get_desc_def)
  have m: "malloc_small PF_KERNEL KDesc n ?s1 = Inr (b, s2)" using j(1) ji g s2(1) by (simp add: malloc_small_def)
  have np: "0 < n \<and> n < pool_size (kernel_pool s)" "\<not> n > 1024" using n(1,2) t(5) by (auto simp: word_less_nat_alt word_le_nat_alt)
  have tp: "task_pool t = PF_KERNEL" "task_descs (running_thread s) t = KDesc" using t(2) by (simp_all add: task_pool_def task_descs_def)
  have g: "sys_malloc n s = Inr (b, ?s3)" using t(1) tp a np m r by (simp add: sys_malloc_def pcb_def Let_def the_pool_def)
  show thesis
    by (rule that [OF g]) (use s2 f2 t k in \<open>simp_all add: kernel_caller_def running_thread_def\<close>)
qed

lemma sys_free_stock:
  assumes st: "stocked M Q s" and k: "kernel_caller s" and p: "taken s p i" "p \<notin> Q"
  obtains s' where "sys_free p s = Inr s'" and "stocked M Q s'" and "kernel_caller s'"
    and "flist (k_block_descs s') = (flist (k_block_descs s))(i := flist (k_block_descs s) i @ [p])"
    and "\<And>q j. taken s q j \<Longrightarrow> q \<noteq> p \<Longrightarrow> taken s' q j"
    and "running_thread s' = running_thread s" and "pcbs s' = pcbs s"
proof -
  obtain t where t: "pcbs s (running_thread s) = Some t" "pgdir t = 0" "running_thread s \<noteq> 0"
    "pool_lock (kernel_pool s) = lock_init" using k by (auto simp: kernel_caller_def)
  obtain ar where ar: "small_arena (arenas s 0) (block2arena p) ar i" "p \<in> arena_blocks (block2arena p) i" using p(1) by (auto simp: taken_def)
  have a0: "arenas s 0 (block2arena p) = Some ar" "arena_desc ar = Some (KDesc i)" "i < 7" using ar(1) by (simp_all add: small_arena_def)
  have ok: "kheap_ok s" using st by (simp add: stocked_def)
  note d = descs_at [OF ok a0(3)]
  have sp: "space_of (block2arena p) u = 0" for u :: "'a kmem_scheme"
    using kernel_addr(1) [OF d(7) arena_page_used [OF d(6) a0(1)]] .
  have hs: "K_HEAP_START \<le> p"
  proof -
    have "unat (block2arena p) div 4096 \<in> vused (kernel_vaddr s)" using arena_page_used [OF d(6) a0(1)] .
    then have "unat K_HEAP_START div 4096 \<le> unat (block2arena p) div 4096" using ok by (auto simp: vused_def kheap_ok_def)
    then have "0xc0100 * 4096 \<le> unat (block2arena p)" by (simp add: K_HEAP_START_def)
    then show ?thesis
      using arena_block_page(2) [OF small_arena_block(1) [OF d(6) ar] ar(2)] by (simp add: word_le_nat_alt K_HEAP_START_def)
  qed
  then have nz: "p \<noteq> 0" by (auto simp: K_HEAP_START_def)
  let ?s1 = "s\<lparr>kernel_pool := (kernel_pool s)\<lparr>pool_lock := lock_taken (running_thread s)\<rparr>\<rparr>"
  have a: "acquire_pool PF_KERNEL s = Inr ?s1" using t(3,4) by (simp add: acquire_pool_def the_pool_def set_pool_def)
  have st1: "stocked M Q ?s1" "taken ?s1 p i" "arenas ?s1 0 (block2arena p) = Some ar" using st p(1) a0(1) by simp_all
  obtain s2 where s2: "free_block PF_KERNEL p ar (KDesc i) ?s1 = Inr s2" "stocked M Q s2"
    "flist (k_block_descs s2) = (flist (k_block_descs ?s1))(i := flist (k_block_descs ?s1) i @ [p])"
    "\<And>q j. taken ?s1 q j \<Longrightarrow> q \<noteq> p \<Longrightarrow> taken s2 q j"
    "s2 = ?s1\<lparr>k_block_descs := k_block_descs s2, arenas := arenas s2\<rparr>"
    by (rule put_block [OF st1(1,2) p(2) st1(3)]) blast
  let ?s3 = "s2\<lparr>kernel_pool := (kernel_pool s)\<lparr>pool_lock := lock_init\<rparr>\<rparr>"
  have f2: "kernel_pool s2 = (kernel_pool s)\<lparr>pool_lock := lock_taken (running_thread s)\<rparr>" "running_thread s2 = running_thread s" "pcbs s2 = pcbs s"
    by (subst s2(5), simp add: running_thread_def)+
  have r: "release_pool PF_KERNEL s2 = Inr ?s3" using f2 by (simp add: release_pool_def the_pool_def set_pool_def)
  have at: "arena_at (block2arena p) ?s1 = Inr ar" using sp a0(1) by (simp add: arena_at_def)
  have tp: "task_pool t = PF_KERNEL" using t(2) by (simp add: task_pool_def)
  have g: "sys_free p s = Inr ?s3"
    using nz t(1,2) tp hs a at a0(2) s2(1) r by (simp add: sys_free_def pcb_def Let_def)
  show thesis
    by (rule that [OF g]) (use s2 f2 t k in \<open>simp_all add: kernel_caller_def running_thread_def\<close>)
qed

text \<open>Setting \<^verbatim>\<open>pgdir\<close> to null around a call changes nothing for a thread that has none.\<close>

lemma with_pgdir_kernel:
  assumes "pcbs s (running_thread s) = Some t" and "pgdir t = 0" and "m s = Inr (x, s')" and "pcbs s' = pcbs s"
  shows "with_pgdir kern m s = Inr (x, s')"
proof -
  have t: "t\<lparr>pgdir := 0\<rparr> = t" using assms(2) by simp
  have u: "(pcbs s)(running_thread s \<mapsto> t) = pcbs s" using assms(1) by auto
  have w: "s'\<lparr>pcbs := pcbs s\<rparr> = s'" using assms(4) by simp
  have v: "upd_pcb (running_thread s) (\<lambda>t. t\<lparr>pgdir := 0\<rparr>) s = Inr s" "upd_pcb (running_thread s) (\<lambda>t. t\<lparr>pgdir := 0\<rparr>) s' = Inr s'"
    using assms(1,4) by (simp_all add: upd_pcb_def pcb_def t u w)
  show ?thesis using assms(1-3) v by (simp add: with_pgdir_def pcb_def)
qed

lemma heap_get:
  assumes st: "stocked M Q s" and k: "kernel_caller s" and n: "0 < n" "unat n \<le> 1024" "fits i n" and i: "i < 7"
    and fl: "flist (k_block_descs s) i = b # l"
  obtains s' where "hmalloc sys_heap kern n s = Inr (b, s')" and "stocked M Q s'" and "kernel_caller s'" and "b \<noteq> 0" and "b \<notin> Q"
    and "flist (k_block_descs s') = (flist (k_block_descs s))(i := l)"
    and "taken s' b i" and "\<And>p j. taken s p j \<Longrightarrow> taken s' p j \<and> p \<noteq> b"
proof -
  obtain t where t: "pcbs s (running_thread s) = Some t" "pgdir t = 0" using k by (auto simp: kernel_caller_def)
  obtain s' where m: "sys_malloc n s = Inr (b, s')" "stocked M Q s'" "kernel_caller s'" "b \<noteq> 0" "b \<notin> Q"
    "flist (k_block_descs s') = (flist (k_block_descs s))(i := l)" "taken s' b i" "\<And>p j. taken s p j \<Longrightarrow> taken s' p j \<and> p \<noteq> b"
    "pcbs s' = pcbs s"
    by (rule sys_malloc_stock [OF assms]) blast
  show thesis
    by (rule that [OF _ m(2-8)]) (simp_all add: sys_heap_def with_pgdir_kernel [where m = "sys_malloc n", OF t m(1,9)])
qed

lemma heap_put_back:
  assumes st: "stocked M Q s" and k: "kernel_caller s" and p: "taken s p i" "p \<notin> Q"
  obtains s' where "hfree sys_heap kern p s = Inr s'" and "stocked M Q s'" and "kernel_caller s'"
    and "flist (k_block_descs s') = (flist (k_block_descs s))(i := flist (k_block_descs s) i @ [p])"
    and "\<And>q j. taken s q j \<Longrightarrow> q \<noteq> p \<Longrightarrow> taken s' q j"
proof -
  obtain t where t: "pcbs s (running_thread s) = Some t" "pgdir t = 0" using k by (auto simp: kernel_caller_def)
  obtain s' where m: "sys_free p s = Inr s'" "stocked M Q s'" "kernel_caller s'"
    "flist (k_block_descs s') = (flist (k_block_descs s))(i := flist (k_block_descs s) i @ [p])"
    "\<And>q j. taken s q j \<Longrightarrow> q \<noteq> p \<Longrightarrow> taken s' q j" "pcbs s' = pcbs s"
    by (rule sys_free_stock [OF assms]) blast
  have "with_pgdir kern (\<lambda>s1. bindR (sys_free p s1) (\<lambda>s2. Inr ((), s2))) s = Inr ((), s')"
    by (rule with_pgdir_kernel [OF t]) (simp_all add: m(1,6))
  then show thesis by (intro that [OF _ m(2-5)]) (simp_all add: sys_heap_def)
qed

text \<open>The calls ask for 1 to 1024 bytes and put back only what is held; \<open>gets i cs\<close> counts the blocks of size class \<open>i\<close>
  they ask for.\<close>

primrec calls_ok :: "heap_call list \<Rightarrow> nat \<Rightarrow> bool" where
  "calls_ok [] k \<longleftrightarrow> True"
| "calls_ok (c # cs) k \<longleftrightarrow> (case c of Get kern n \<Rightarrow> 0 < n \<and> unat n \<le> 1024 \<and> calls_ok cs (Suc k)
     | Put kern i \<Rightarrow> i < k \<and> calls_ok cs (k - 1))"

primrec gets :: "nat \<Rightarrow> heap_call list \<Rightarrow> nat" where
  "gets i [] = 0"
| "gets i (c # cs) = (case c of Get kern n \<Rightarrow> if fits i n then Suc (gets i cs) else gets i cs | Put kern j \<Rightarrow> gets i cs)"

lemma fits_some:
  assumes "unat n \<le> 1024"
  obtains i where "i < 7" "fits i n"
proof -
  have "descs_ok (k_block_descs small_pools)" using block_desc_init_ok by (simp add: small_pools_def kernel.extend_def)
  then show thesis by (rule find_desc_fits [OF _ assms]) (use that in blast)
qed

lemma heap_serves:
  assumes "stocked M Q s" and "kernel_caller s" and "L \<subseteq> Q" and "calls_ok cs (length ps)" and "distinct ps"
    and "\<forall>p\<in>set ps. p \<notin> Q \<and> (\<exists>i. taken s p i)" and "\<forall>i<7. gets i cs \<le> length (flist (k_block_descs s) i)"
  shows "served sys_heap cs L ps s"
  using assms
proof (induction cs arbitrary: ps s)
  case (Cons c cs)
  show ?case
  proof (cases c)
    case (Get kern n)
    then have n: "0 < n" "unat n \<le> 1024" using Cons.prems(4) by simp_all
    obtain i where i: "i < 7" "fits i n" by (rule fits_some [OF n(2)])
    have "gets i (c # cs) \<le> length (flist (k_block_descs s) i)" using Cons.prems(7) i(1) by blast
    then obtain b l where bl: "flist (k_block_descs s) i = b # l" using Get i(2) by (cases "flist (k_block_descs s) i") auto
    obtain s' where s': "hmalloc sys_heap kern n s = Inr (b, s')" "stocked M Q s'" "kernel_caller s'" "b \<noteq> 0" "b \<notin> Q"
      "flist (k_block_descs s') = (flist (k_block_descs s))(i := l)" "taken s' b i" "\<And>p j. taken s p j \<Longrightarrow> taken s' p j \<and> p \<noteq> b"
      by (rule heap_get [OF Cons.prems(1,2) n i(2,1) bl]) blast
    have np: "b \<notin> set ps" using Cons.prems(6) s'(8) by blast
    have "served sys_heap cs L (b # ps) s'"
    proof (rule Cons.IH [OF s'(2,3) Cons.prems(3)])
      show "calls_ok cs (length (b # ps))" using Cons.prems(4) Get by simp
      show "distinct (b # ps)" using Cons.prems(5) np by simp
      show "\<forall>p\<in>set (b # ps). p \<notin> Q \<and> (\<exists>i. taken s' p i)"
        using Cons.prems(6) s'(5,7,8) by (metis set_ConsD)
      show "\<forall>j<7. gets j cs \<le> length (flist (k_block_descs s') j)"
      proof (intro allI impI)
        fix j assume j: "j < (7 :: nat)"
        have "gets j (c # cs) \<le> length (flist (k_block_descs s) j)" using Cons.prems(7) j by blast
        then show "gets j cs \<le> length (flist (k_block_descs s') j)"
          unfolding s'(6) using Get i(2) bl by (cases "j = i") (auto split: if_splits)
      qed
    qed
    moreover have "b \<notin> L" using s'(5) Cons.prems(3) by blast
    ultimately show ?thesis using Get s'(1,4) np by (simp add: served.simps)
  next
    case (Put kern j)
    then have j: "j < length ps" "calls_ok cs (length ps - 1)" using Cons.prems(4) by simp_all
    let ?p = "ps ! j" and ?ps = "take j ps @ drop (Suc j) ps"
    have "?p \<in> set ps" using j(1) by simp
    then obtain i where p: "taken s ?p i" "?p \<notin> Q" using Cons.prems(6) by blast
    obtain s' where s': "hfree sys_heap kern ?p s = Inr s'" "stocked M Q s'" "kernel_caller s'"
      "flist (k_block_descs s') = (flist (k_block_descs s))(i := flist (k_block_descs s) i @ [?p])"
      "\<And>q j. taken s q j \<Longrightarrow> q \<noteq> ?p \<Longrightarrow> taken s' q j"
      by (rule heap_put_back [OF Cons.prems(1,2) p]) blast
    have sp: "ps = take j ps @ ?p # drop (Suc j) ps" using j(1) by (simp add: id_take_nth_drop [symmetric])
    then have d: "distinct (take j ps @ ?p # drop (Suc j) ps)" using Cons.prems(5) by simp
    have sub: "set ?ps \<subseteq> set ps" using set_take_subset [of j ps] set_drop_subset [of "Suc j" ps] by auto
    have "served sys_heap cs L ?ps s'"
    proof (rule Cons.IH [OF s'(2,3) Cons.prems(3)])
      show "calls_ok cs (length ?ps)" using j by simp
      show "distinct ?ps" using d by simp
      have "?p \<notin> set ?ps" using d by simp
      then have ne: "q \<noteq> ?p" "q \<in> set ps" if "q \<in> set ?ps" for q using that sub by blast+
      show "\<forall>q\<in>set ?ps. q \<notin> Q \<and> (\<exists>i. taken s' q i)"
      proof (rule ballI)
        fix q assume q: "q \<in> set ?ps"
        then obtain m where "taken s q m" "q \<notin> Q" using Cons.prems(6) ne(2) by blast
        then show "q \<notin> Q \<and> (\<exists>i. taken s' q i)" using s'(5) ne(1) [OF q] by blast
      qed
      show "\<forall>j<7. gets j cs \<le> length (flist (k_block_descs s') j)"
      proof (intro allI impI)
        fix m assume m: "m < (7 :: nat)"
        have "gets m (c # cs) \<le> length (flist (k_block_descs s) m)" using Cons.prems(7) m by blast
        then show "gets m cs \<le> length (flist (k_block_descs s') m)" unfolding s'(4) using Put by auto
      qed
    qed
    then show ?thesis using Put j(1) s'(1) by (simp add: served.simps)
  qed
qed simp

subsection \<open>A heap with three pages\<close>

text \<open>One page each of blocks of 128, 512 and 1024 bytes; the first block of each page is in use, and of the others one,
  two and two are free.\<close>

definition file_heap :: kmem where
  "file_heap = small_pools\<lparr>pmem := (pmem small_cpu)(0x101400 := 0x200007, 0x101404 := 0x201007, 0x101408 := 0x202007),
     kernel_vaddr := \<lparr>vaddr_bitmap = \<lparr>btmp_bytes_len = 1, bits = [7]\<rparr>, vaddr_start = K_HEAP_START\<rparr>,
     k_block_descs := block_desc_init[3 := (block_desc_init ! 3)\<lparr>free_list := [0xc010008c]\<rparr>,
       5 := (block_desc_init ! 5)\<lparr>free_list := [0xc010120c, 0xc010140c]\<rparr>,
       6 := (block_desc_init ! 6)\<lparr>free_list := [0xc010240c, 0xc010280c]\<rparr>],
     arenas := (\<lambda>_ _. None)(0 := [0xc0100000 \<mapsto> \<lparr>arena_desc = Some (KDesc 3), arena_cnt = 1, arena_large = False\<rparr>,
       0xc0101000 \<mapsto> \<lparr>arena_desc = Some (KDesc 5), arena_cnt = 2, arena_large = False\<rparr>,
       0xc0102000 \<mapsto> \<lparr>arena_desc = Some (KDesc 6), arena_cnt = 2, arena_large = False\<rparr>])\<rparr>"

text \<open>Where its pages are mapped, and its blocks in use.\<close>

definition file_heap_map :: "(u32 \<times> u32) set" where
  "file_heap_map = {(0xc0100000, 0x200000), (0xc0101000, 0x201000), (0xc0102000, 0x202000)}"

definition file_heap_used :: "u32 set" where
  "file_heap_used = {0xc010000c, 0xc010100c, 0xc010200c}"

lemma file_heap_simps [simp]:
  "kernel_vaddr file_heap = \<lparr>vaddr_bitmap = \<lparr>btmp_bytes_len = 1, bits = [7]\<rparr>, vaddr_start = K_HEAP_START\<rparr>"
  "arenas file_heap 0 = [0xc0100000 \<mapsto> \<lparr>arena_desc = Some (KDesc 3), arena_cnt = 1, arena_large = False\<rparr>,
       0xc0101000 \<mapsto> \<lparr>arena_desc = Some (KDesc 5), arena_cnt = 2, arena_large = False\<rparr>,
       0xc0102000 \<mapsto> \<lparr>arena_desc = Some (KDesc 6), arena_cnt = 2, arena_large = False\<rparr>]"
  by (simp_all add: file_heap_def)

lemma file_heap_lists:
  "flist (k_block_descs file_heap) i = (if i = 3 then [0xc010008c] else if i = 5 then [0xc010120c, 0xc010140c]
     else if i = 6 then [0xc010240c, 0xc010280c] else [])"
proof (cases "i < 7")
  case True
  then show ?thesis unfolding less_7 by (auto simp: flist_def block_desc_init_eq file_heap_def)
qed (simp add: flist_def block_desc_init_eq file_heap_def)

lemma file_heap_descs: "descs_ok (k_block_descs file_heap)"
  unfolding descs_ok_def below_7 block_desc_init_eq file_heap_def by (simp add: blk_size_def blk_cnt_def)

lemma file_heap_blocks:
  "0xc010000c \<in> arena_blocks 0xc0100000 3" "0xc010008c \<in> arena_blocks 0xc0100000 3"
  "0xc010100c \<in> arena_blocks 0xc0101000 5" "0xc010120c \<in> arena_blocks 0xc0101000 5" "0xc010140c \<in> arena_blocks 0xc0101000 5"
  "0xc010200c \<in> arena_blocks 0xc0102000 6" "0xc010240c \<in> arena_blocks 0xc0102000 6" "0xc010280c \<in> arena_blocks 0xc0102000 6"
proof -
  have b: "k < blk_cnt i \<Longrightarrow> arena_block a i k = x \<Longrightarrow> x \<in> arena_blocks a i" for k i a x by (auto simp: arena_blocks_def)
  note e = arena_block_def ARENA_SIZE_def blk_size_def blk_cnt_def
  show "0xc010000c \<in> arena_blocks 0xc0100000 3" by (rule b [of 0]) (simp_all add: e)
  show "0xc010008c \<in> arena_blocks 0xc0100000 3" by (rule b [of 1]) (simp_all add: e)
  show "0xc010100c \<in> arena_blocks 0xc0101000 5" by (rule b [of 0]) (simp_all add: e)
  show "0xc010120c \<in> arena_blocks 0xc0101000 5" by (rule b [of 1]) (simp_all add: e)
  show "0xc010140c \<in> arena_blocks 0xc0101000 5" by (rule b [of 2]) (simp_all add: e)
  show "0xc010200c \<in> arena_blocks 0xc0102000 6" by (rule b [of 0]) (simp_all add: e)
  show "0xc010240c \<in> arena_blocks 0xc0102000 6" by (rule b [of 1]) (simp_all add: e)
  show "0xc010280c \<in> arena_blocks 0xc0102000 6" by (rule b [of 2]) (simp_all add: e)
qed

lemma file_heap_vused: "vused (kernel_vaddr file_heap) = {0xc0100, 0xc0101, 0xc0102}"
proof -
  let ?b = "\<lparr>btmp_bytes_len = 1, bits = [7]\<rparr>"
  have "filter (bit_at ?b) [0..<8] = [0, 1, 2]" by code_simp
  then have "set (filter (bit_at ?b) [0..<8]) = set [0, 1, 2]" by (rule arg_cong)
  moreover have "used_bits ?b = set (filter (bit_at ?b) [0..<8])" by (auto simp: used_bits_def bit_cnt_def)
  ultimately show ?thesis by (auto simp: vused_def K_HEAP_START_def)
qed

lemma file_heap_ok: "kheap_ok file_heap"
proof -
  let ?F = "flist (k_block_descs file_heap)" and ?A = "arenas file_heap 0"
  note b = file_heap_blocks
  have p: "block2arena 0xc010008c = 0xc0100000" "block2arena 0xc010120c = 0xc0101000" "block2arena 0xc010140c = 0xc0101000"
    "block2arena 0xc010240c = 0xc0102000" "block2arena 0xc010280c = 0xc0102000"
    "frame_of 0xc0100000 = 0xc0100000" "frame_of 0xc0101000 = 0xc0101000" "frame_of 0xc0102000 = 0xc0102000"
    by (simp_all add: block2arena_def frame_of_def)
  have s: "small_arena ?A 0xc0100000 \<lparr>arena_desc = Some (KDesc 3), arena_cnt = 1, arena_large = False\<rparr> 3"
    "small_arena ?A 0xc0101000 \<lparr>arena_desc = Some (KDesc 5), arena_cnt = 2, arena_large = False\<rparr> 5"
    "small_arena ?A 0xc0102000 \<lparr>arena_desc = Some (KDesc 6), arena_cnt = 2, arena_large = False\<rparr> 6"
    by (simp_all add: small_arena_def)
  have "lists_ok ?F ?A"
    unfolding lists_ok_def file_heap_lists using s b p by (auto split: if_splits)
  moreover have "arena_blocks 0xc0100000 3 \<inter> set (?F 3) = {0xc010008c}"
    "arena_blocks 0xc0101000 5 \<inter> set (?F 5) = {0xc010120c, 0xc010140c}"
    "arena_blocks 0xc0102000 6 \<inter> set (?F 6) = {0xc010240c, 0xc010280c}"
    unfolding file_heap_lists using b by auto
  then have "arenas_ok ?F ?A {0xc0100, 0xc0101, 0xc0102}"
    unfolding arenas_ok_def using p(6-8) by (auto simp: small_arena_def apages_def npages_def split: if_splits)
  moreover have "arenas_apart ?A" by (auto simp: arenas_apart_def apages_def npages_def split: if_splits)
  moreover have "kernel_pages {0xc0100, 0xc0101, 0xc0102}" by (simp add: kernel_pages_def)
  ultimately have "heap_inv ?F ?A (vused (kernel_vaddr file_heap))" unfolding heap_inv_def file_heap_vused by blast
  moreover have "va_ok (kernel_vaddr file_heap)"
    by (simp add: va_ok_def bitmap_ok_def bit_cnt_def K_HEAP_START_def frame_of_def)
  ultimately show ?thesis using file_heap_descs by (simp add: kheap_ok_def)
qed

lemma file_heap_pages: "data_pages file_heap_map (pmem file_heap) (cr3 file_heap)"
proof -
  let ?m = "(pmem small_cpu)(0x101400 := 0x200007, 0x101404 := 0x201007, 0x101408 := 0x202007)"
  have f: "pmem file_heap = ?m" "cr3 file_heap = 0x100000" by (simp_all add: file_heap_def small_pools_def kernel.extend_def small_kernel_def)
  have "vtrans ?m 0x100000 0xc0100000 = Some 0x200000" "vtrans ?m 0x100000 0xc0101000 = Some 0x201000"
    "vtrans ?m 0x100000 0xc0102000 = Some 0x202000" by code_simp+
  moreover have "tables ?m 0x100000 0xc0100000 = {0x100000, 0x101000}" "tables ?m 0x100000 0xc0101000 = {0x100000, 0x101000}"
    "tables ?m 0x100000 0xc0102000 = {0x100000, 0x101000}"
    unfolding tables_def by (rule arg_cong2 [of _ _ _ _ "\<lambda>x y. {x, y}"]; code_simp)+
  ultimately show ?thesis unfolding f by (simp add: data_pages_def file_heap_map_def frame_of_def)
qed

lemma file_heap_stocked: "stocked file_heap_map file_heap_used file_heap"
proof -
  have "\<exists>f. (a, f) \<in> file_heap_map" "\<exists>q\<in>file_heap_used. q \<in> arena_blocks a i" if "small_arena (arenas file_heap 0) a ar i" for a ar i
    using that file_heap_blocks by (auto simp: small_arena_def file_heap_map_def file_heap_used_def split: if_splits)
  moreover have "\<forall>i<7. file_heap_used \<inter> set (flist (k_block_descs file_heap) i) = {}"
    unfolding file_heap_lists by (auto simp: file_heap_used_def)
  ultimately show ?thesis using file_heap_ok file_heap_pages unfolding stocked_def by blast
qed

lemma file_heap_caller: "kernel_caller file_heap"
  by (simp add: kernel_caller_def file_heap_def small_pools_def kernel.extend_def small_kernel_def running_thread_def blank_task_def)

text \<open>What it serves: one block of 76 bytes, two of 512 and two of 560 or 1024.\<close>

lemma file_heap_serves:
  assumes "calls_ok cs 0" and "gets 3 cs \<le> 1" and "gets 5 cs \<le> 2" and "gets 6 cs \<le> 2"
    and "gets 0 cs = 0" and "gets 1 cs = 0" and "gets 2 cs = 0" and "gets 4 cs = 0"
  shows "served sys_heap cs {} [] file_heap"
proof -
  have "\<forall>i<7. gets i cs \<le> length (flist (k_block_descs file_heap) i)"
    unfolding file_heap_lists below_7 using assms by simp
  then show ?thesis using assms(1) by (intro heap_serves [OF file_heap_stocked file_heap_caller]) simp_all
qed

text \<open>
  C36. The heap serves its callers. A kernel thread, whose heap is in order and whose lists hold at least as many blocks of each
  size as a sequence of calls asks for, runs the whole sequence of \<^verbatim>\<open>sys_malloc\<close> (1 to 1024 bytes each) and \<^verbatim>\<open>sys_free\<close> (of blocks it
  got) without a fault: every request gets a block that is not null, is not held already and is none of the
  blocks in use elsewhere, and every block is taken back; the lock is free for each call.
\<close>

theorem kernel_heap_serves:
  assumes "stocked M Q k" and "kernel_caller k" and "L \<subseteq> Q" and "calls_ok cs 0"
    and "\<forall>i<7. gets i cs \<le> length (free_list (k_block_descs k ! i))"
  shows "served sys_heap cs L [] k"
proof -
  have "\<forall>i<7. gets i cs \<le> length (flist (k_block_descs k) i)" using assms(5) stocked_flist [OF assms(1)] by simp
  then show ?thesis using assms(1-4) by (intro heap_serves) simp_all
qed

theorem kernel_heap_serves_witness:
  "served sys_heap [Get True 76, Get False 1024, Put False 0, Put True 0, Get False 560, Get False 512, Put False 1, Put False 0]
     file_heap_used [] file_heap"
proof (rule kernel_heap_serves [OF file_heap_stocked file_heap_caller])
  let ?cs = "[Get True 76, Get False 1024, Put False 0, Put True 0, Get False 560, Get False 512, Put False 1, Put False 0]"
  show "calls_ok ?cs 0" by code_simp
  have "gets 0 ?cs = 0" "gets 1 ?cs = 0" "gets 2 ?cs = 0" "gets 3 ?cs = 1" "gets 4 ?cs = 0" "gets 5 ?cs = 1" "gets 6 ?cs = 2"
    by code_simp+
  then show "\<forall>i<7. gets i ?cs \<le> length (free_list (k_block_descs file_heap ! i))"
    unfolding below_7 by (simp add: block_desc_init_eq file_heap_def del: gets.simps)
qed simp

end
