(* ===== verification/Inode.thy ===== *)
theory Inode
  imports Fs_State Stock
begin

section \<open>Inodes and the bitmaps of a partition (\<^verbatim>\<open>fileSystem/inode.c\<close>, \<^verbatim>\<open>file.c\<close>)\<close>

text \<open>
  The inode table of the disk and the open inodes in memory, and the allocation of inodes and blocks
  from the bitmaps of the partition.
\<close>

subsection \<open>The bitmaps\<close>

definition M1 :: u32 where "M1 = -1"

definition inode_bitmap_alloc :: "(u32, 'k) fsm" where
  "inode_bitmap_alloc = bindM (getM (inode_bitmap \<circ> cur_part)) (\<lambda>btmp.
     bindM (liftM (bitmap_scan btmp 1)) (\<lambda>bit_idx.
     if bit_idx = M1 then retM M1
     else bindM (liftM (bitmap_set btmp bit_idx 1)) (\<lambda>b.
       bindM (modPart (\<lambda>p. p\<lparr>inode_bitmap := b\<rparr>)) (\<lambda>_. retM bit_idx))))"

definition block_bitmap_alloc :: "(u32, 'k) fsm" where
  "block_bitmap_alloc = bindM (getM (block_bitmap \<circ> cur_part)) (\<lambda>btmp.
     bindM (liftM (bitmap_scan btmp 1)) (\<lambda>bit_idx.
     if bit_idx = M1 then retM M1
     else bindM (liftM (bitmap_set btmp bit_idx 1)) (\<lambda>b.
       bindM (modPart (\<lambda>p. p\<lparr>block_bitmap := b\<rparr>)) (\<lambda>_.
       bindM (getSb data_start_lba) (\<lambda>d. retM (d + bit_idx))))))"

definition set_inode_bit :: "u32 \<Rightarrow> u8 \<Rightarrow> (unit, 'k) fsm" where
  "set_inode_bit bit_idx v = bindM (getM (inode_bitmap \<circ> cur_part)) (\<lambda>btmp.
     bindM (liftM (bitmap_set btmp bit_idx v)) (\<lambda>b. modPart (\<lambda>p. p\<lparr>inode_bitmap := b\<rparr>)))"

definition set_block_bit :: "u32 \<Rightarrow> u8 \<Rightarrow> (unit, 'k) fsm" where
  "set_block_bit bit_idx v = bindM (getM (block_bitmap \<circ> cur_part)) (\<lambda>btmp.
     bindM (liftM (bitmap_set btmp bit_idx v)) (\<lambda>b. modPart (\<lambda>p. p\<lparr>block_bitmap := b\<rparr>)))"

datatype bitmap_type = INODE_BITMAP | BLOCK_BITMAP

definition bitmap_sync :: "u32 \<Rightarrow> bitmap_type \<Rightarrow> (unit, 'k) fsm" where
  "bitmap_sync bit_idx btmp =
     (let off_sec = bit_idx div 4096; off_size = off_sec * BLOCK_SIZE in
      case btmp of
        INODE_BITMAP \<Rightarrow> bindM (getSb inode_bitmap_lba) (\<lambda>lba. bindM (getM (inode_bitmap \<circ> cur_part)) (\<lambda>b.
          writeM (lba + off_sec) (drop (unat off_size) (bits b)) 1))
      | BLOCK_BITMAP \<Rightarrow> bindM (getSb block_bitmap_lba) (\<lambda>lba. bindM (getM (block_bitmap \<circ> cur_part)) (\<lambda>b.
          writeM (lba + off_sec) (drop (unat off_size) (bits b)) 1)))"

subsection \<open>Inodes\<close>

text \<open>Whether the inode lies in two sectors, its first sector and its place there.\<close>

definition inode_locate :: "u32 \<Rightarrow> (bool \<times> u32 \<times> u32, 'k) fsm" where
  "inode_locate inode_no = assertM (inode_no < 4096)
     (bindM (getSb inode_table_lba) (\<lambda>table.
      let inode_size = 76; off_size = inode_no * inode_size; off_sec = off_size div 512;
          off_size_in_sec = off_size mod 512; left_in_sec = 512 - off_size_in_sec in
      retM (left_in_sec < inode_size, table + off_sec, off_size_in_sec)))"

text \<open>The common part of \<^verbatim>\<open>inode_sync\<close> and \<^verbatim>\<open>inode_delete\<close>: read the sectors of the inode into a buffer of
  \<open>len\<close> bytes, put the new bytes in, write them back.\<close>

definition inode_store :: "nat \<Rightarrow> bool \<times> u32 \<times> u32 \<Rightarrow> buf \<Rightarrow> (unit, 'k) fsm" where
  "inode_store len pos new =
     (case pos of (two_sec, sec_lba, off_size) \<Rightarrow>
      let n = (if two_sec then 2 else 1) in
      if len < 512 * unat n then failM Bad_Access
      else bindM (readM sec_lba n) (\<lambda>inode_buf.
           bindM (liftM (memcpy inode_buf (unat off_size) new 0 (length new))) (\<lambda>b.
           writeM sec_lba b n)))"

text \<open>The number of the inode goes through a \<^verbatim>\<open>uint8_t\<close>. \<open>len\<close> is the size of the buffer the caller
  passes.\<close>

definition inode_sync :: "inode \<Rightarrow> nat \<Rightarrow> (unit, 'k) fsm" where
  "inode_sync i len =
     (let inode_no = (ucast (i_no i) :: u8) in
      bindM (inode_locate (ucast inode_no)) (\<lambda>pos.
      bindM (getM cur_part) (\<lambda>part.
      assertM (fst (snd pos) \<le> start_lba part + part_sec_cnt part)
        (let pure_inode = i\<lparr>i_open_cnts := 0, write_deny := False\<rparr> in
         inode_store len pos (inode_bytes pure_inode)))))"

text \<open>The search among the open inodes.\<close>

fun find_open :: "(u32 \<Rightarrow> inode option) \<Rightarrow> u32 \<Rightarrow> u32 list \<Rightarrow> u32 option res" where
  "find_open ins inode_no [] = Inr None"
| "find_open ins inode_no (p # ps) =
     (case ins p of None \<Rightarrow> Inl Bad_Access
      | Some i \<Rightarrow> if i_no i = inode_no then Inr (Some p) else find_open ins inode_no ps)"

definition push_open :: "u32 \<Rightarrow> (unit, 'k) fsm" where
  "push_open p = bindM (getM (open_inodes \<circ> cur_part)) (\<lambda>l.
     bindM (liftM (kl_push p l)) (\<lambda>l'. modPart (\<lambda>x. x\<lparr>open_inodes := l'\<rparr>)))"

definition inode_load :: "'k heap_ops \<Rightarrow> u32 \<Rightarrow> (u32, 'k) fsm" where
  "inode_load h inode_no =
     bindM (inode_locate inode_no) (\<lambda>(two_sec, sec_lba, off_size).
     bindM (mallocM h True 76) (\<lambda>inode_found.
     bindM (mallocM h False (if two_sec then 1024 else 512)) (\<lambda>inode_buf.
     ptrM inode_buf (bindM (readM sec_lba (if two_sec then 2 else 1)) (\<lambda>b.
     ptrM inode_found (bindM (liftM (inode_at b (unat off_size))) (\<lambda>i.
     bindM (push_open inode_found) (\<lambda>_.
     bindM (modM (\<lambda>s. s\<lparr>inodes := (inodes s)(inode_found \<mapsto> i\<lparr>i_open_cnts := 1\<rparr>)\<rparr>)) (\<lambda>_.
     bindM (freeM h False inode_buf) (\<lambda>_. retM inode_found))))))))))"

definition inode_open :: "'k heap_ops \<Rightarrow> u32 \<Rightarrow> (u32, 'k) fsm" where
  "inode_open h inode_no =
     bindM (getM (\<lambda>s. find_open (inodes s) inode_no (open_inodes (cur_part s)))) (\<lambda>r.
     bindM (liftM r) (\<lambda>found.
     case found of
       Some p \<Rightarrow> bindM (upd_inode p (\<lambda>i. i\<lparr>i_open_cnts := i_open_cnts i + 1\<rparr>)) (\<lambda>_. retM p)
     | None \<Rightarrow> inode_load h inode_no))"

text \<open>The structure of an inode whose last reference goes is freed and gone; interrupts are off in
  between and restored.\<close>

definition inode_close :: "'k heap_ops \<Rightarrow> u32 \<Rightarrow> (unit, 'k) fsm" where
  "inode_close h p =
     bindM (get_inode p) (\<lambda>i.
     let n = i_open_cnts i - 1 in
     if n = 0 then
       bindM (getM (open_inodes \<circ> cur_part)) (\<lambda>l.
       bindM (liftM (kl_remove p l)) (\<lambda>l'.
       bindM (modPart (\<lambda>x. x\<lparr>open_inodes := l'\<rparr>)) (\<lambda>_.
       bindM (modM (\<lambda>s. s\<lparr>inodes := (inodes s)(p := None)\<rparr>)) (\<lambda>_. freeM h True p))))
     else upd_inode p (\<lambda>i. i\<lparr>i_open_cnts := n\<rparr>))"

definition inode_init :: "u32 \<Rightarrow> inode" where
  "inode_init inode_no = \<lparr>i_no = inode_no, i_size = 0, i_open_cnts = 0, write_deny = False,
     i_sectors = replicate 13 0\<rparr>"

definition inode_delete :: "u32 \<Rightarrow> nat \<Rightarrow> (unit, 'k) fsm" where
  "inode_delete inode_no len = assertM (inode_no < 4096)
     (bindM (inode_locate inode_no) (\<lambda>pos.
      bindM (getM cur_part) (\<lambda>part.
      assertM (fst (snd pos) \<le> start_lba part + part_sec_cnt part)
        (inode_store len pos (replicate 76 0)))))"

text \<open>The array of the 140 blocks of an inode as far as it has them: the indirect block is read when there is
  one.\<close>

definition all_blocks_of :: "inode \<Rightarrow> (u32 list, 'k) fsm" where
  "all_blocks_of i =
     (if i_sectors i ! 12 \<noteq> 0 then
        bindM (readM (i_sectors i ! 12) 1) (\<lambda>b. retM (take 12 (i_sectors i) @ words_at b 0 128))
      else retM (take 12 (i_sectors i) @ replicate 128 0))"

text \<open>One block given back.\<close>

definition release_block :: "u32 \<Rightarrow> (unit, 'k) fsm" where
  "release_block lba =
     bindM (getSb data_start_lba) (\<lambda>d.
     let block_bitmap_idx = lba - d in
     assertM (block_bitmap_idx > 0)
       (bindM (set_block_bit block_bitmap_idx 0) (\<lambda>_. bitmap_sync block_bitmap_idx BLOCK_BITMAP)))"

fun release_blocks :: "u32 list \<Rightarrow> (unit, 'k) fsm" where
  "release_blocks [] = retM ()"
| "release_blocks (b # bs) =
     (if b \<noteq> 0 then bindM (release_block b) (\<lambda>_. release_blocks bs) else release_blocks bs)"

definition inode_release :: "'k heap_ops \<Rightarrow> u32 \<Rightarrow> (unit, 'k) fsm" where
  "inode_release h inode_no =
     bindM (inode_open h inode_no) (\<lambda>p.
     bindM (get_inode p) (\<lambda>i.
     assertM (i_no i = inode_no)
       (bindM (all_blocks_of i) (\<lambda>all_blocks.
        bindM (if i_sectors i ! 12 \<noteq> 0 then release_block (i_sectors i ! 12) else retM ()) (\<lambda>_.
        bindM (release_blocks (if i_sectors i ! 12 \<noteq> 0 then all_blocks else take 12 all_blocks)) (\<lambda>_.
        bindM (set_inode_bit inode_no 0) (\<lambda>_.
        bindM (bitmap_sync inode_no INODE_BITMAP) (\<lambda>_.
        bindM (mallocM h False 1024) (\<lambda>io_buf.
        ptrM io_buf (bindM (inode_delete inode_no 1024) (\<lambda>_.
        bindM (freeM h False io_buf) (\<lambda>_. inode_close h p)))))))))))) "

subsection \<open>The inode table\<close>

text \<open>The table of a partition: its first sector, the sectors that hold one inode, and what the disk says of an inode. It
  has 4096 inodes of 76 bytes, which are 608 sectors.\<close>

definition table_lba :: "'k fs \<Rightarrow> u32" where
  "table_lba s = inode_table_lba (sb (cur_part s))"

definition table_bytes :: "'k fs \<Rightarrow> buf" where
  "table_bytes s = read_secs (hd_disk s) (table_lba s) 608"

definition disk_inode :: "'k fs \<Rightarrow> nat \<Rightarrow> inode" where
  "disk_inode s no = inode_get (table_bytes s) (76 * no)"

definition table_ok :: "'k fs \<Rightarrow> bool" where
  "table_ok s \<longleftrightarrow> disk_ok (hd_disk s) \<and> unat (table_lba s) + 608 \<le> 163840
     \<and> unat (table_lba s) + 607 \<le> unat (start_lba (cur_part s) + part_sec_cnt (cur_part s))"

definition inode_secs :: "nat \<Rightarrow> nat \<times> nat" where
  "inode_secs no = (76 * no div 512, if 76 * no mod 512 > 436 then 2 else 1)"

lemma inode_secs_bounds:
  assumes "no < 4096" and "inode_secs no = (k, m)"
  shows "k + m \<le> 608" and "76 * no = 512 * k + 76 * no mod 512" and "76 * no mod 512 + 76 \<le> 512 * m" and "0 < m" "m \<le> 2"
proof -
  have k: "k = 76 * no div 512" and m: "m = (if 76 * no mod 512 > 436 then 2 else 1)"
    using assms(2) by (auto simp: inode_secs_def)
  show e: "76 * no = 512 * k + 76 * no mod 512" unfolding k by (metis mult_div_mod_eq)
  have r: "76 * no mod 512 < 512" by simp
  show "76 * no mod 512 + 76 \<le> 512 * m" "0 < m" "m \<le> 2" using r by (auto simp: m)
  show "k + m \<le> 608"
  proof (cases "76 * no mod 512 > 436")
    case True
    then have "512 * k + 437 \<le> 76 * 4095" using e assms(1) by linarith
    then have "k \<le> 606" by simp
    then show ?thesis using True by (simp add: m)
  next
    case False
    have "512 * k \<le> 76 * 4095" using e assms(1) by linarith
    then have "k \<le> 607" by simp
    then show ?thesis using False by (simp add: m)
  qed
qed

lemma length_table [simp]: "table_ok s \<Longrightarrow> length (table_bytes s) = 311296"
  by (simp add: table_ok_def table_bytes_def length_read_secs)

lemma inode_locate_ok:
  assumes "unat no < 4096" and "inode_secs (unat no) = (k, m)"
  shows "inode_locate no s = Inr ((m = 2, table_lba s + of_nat k, of_nat (76 * unat no mod 512)), s)"
proof -
  have u: "unat (no * 76) = 76 * unat no" using assms(1) unat_mult_small [of no 76] by (simp add: mult.commute)
  have d: "unat (no * 76 div 512) = k" using u assms(2) by (simp add: unat_div inode_secs_def)
  have r: "unat (no * 76 mod 512) = 76 * unat no mod 512" by (simp add: unat_mod u)
  have rl: "76 * unat no mod 512 < 512" by simp
  have dd: "no * 76 div 512 = of_nat k" unfolding d [symmetric] by simp
  have rr: "no * 76 mod 512 = of_nat (76 * unat no mod 512)" unfolding r [symmetric] by simp
  have l: "unat (512 - no * 76 mod 512) = 512 - 76 * unat no mod 512"
    using r rl unat_sub_small [of "no * 76 mod 512" 512] by simp
  have "(512 - no * 76 mod 512 < 76) = (m = 2)"
  proof -
    have "m = (if 76 * unat no mod 512 > 436 then 2 else 1)" using assms(2) by (simp add: inode_secs_def)
    moreover have "512 - x < 76 \<longleftrightarrow> 436 < x" if "x < 512" for x :: nat using that by arith
    ultimately show ?thesis using rl by (simp add: word_less_nat_alt l)
  qed
  then show ?thesis using assms(1) by (simp add: inode_locate_def getSb_def Let_def table_lba_def dd rr word_less_nat_alt)
qed

lemma inode_get_sector:
  assumes "r + 76 \<le> n" and "p + n \<le> length b"
  shows "inode_get (take n (drop p b)) r = inode_get b (p + r)"
proof -
  have "get32 (take n (drop p b)) (r + j) = get32 b (p + r + j)" if "j + 4 \<le> 76" for j
    using get32_take_drop [of "r + j" n p b] assms that by (simp add: add.assoc)
  note g = this [of 0] this [of 4] this [of 8] this [of 12] this
  show ?thesis using g(1-4) by (simp add: inode_get_def words_at_def g(5) add.assoc [symmetric])
      (auto intro!: nth_equalityI simp: g(5) add.assoc)
qed

lemma inode_bytes_length: "length (i_sectors i) = 13 \<Longrightarrow> length (inode_bytes i) = 76"
  by (simp add: inode_bytes_def)

lemma get32_inode_bytes:
  assumes "length (i_sectors i) = 13"
  shows "get32 (inode_bytes i) 0 = i_no i" "get32 (inode_bytes i) 4 = i_size i" "get32 (inode_bytes i) 8 = i_open_cnts i"
    "get32 (inode_bytes i) 12 = (if write_deny i then 1 else 0)"
    "k < 13 \<Longrightarrow> get32 (inode_bytes i) (16 + 4 * k) = i_sectors i ! k"
proof -
  let ?ws = "[i_no i, i_size i, i_open_cnts i, if write_deny i then 1 else 0] @ i_sectors i @ [0, 0]"
  have g: "get32 (inode_bytes i) (4 * j) = ?ws ! j" if "j < 19" for j
    using get32_bytes_of [of j ?ws] that assms by (simp add: inode_bytes_def)
  show "get32 (inode_bytes i) 0 = i_no i" "get32 (inode_bytes i) 4 = i_size i" "get32 (inode_bytes i) 8 = i_open_cnts i"
    "get32 (inode_bytes i) 12 = (if write_deny i then 1 else 0)"
    using g [of 0] g [of 1] g [of 2] g [of 3] by (simp_all add: numeral_2_eq_2 numeral_3_eq_3)
  show "get32 (inode_bytes i) (16 + 4 * k) = i_sectors i ! k" if "k < 13"
    using g [of "4 + k"] that assms by (simp add: nth_append)
qed

text \<open>An inode reads back from the place it was put, and every other place reads as before.\<close>

lemma inode_get_put:
  assumes i: "length (i_sectors i) = 13" and p: "p + 76 \<le> length b"
  shows "inode_get (put p (inode_bytes i) b) p = i"
proof -
  have g: "get32 (put p (inode_bytes i) b) (p + j) = get32 (inode_bytes i) j" if "j + 4 \<le> 76" for j
    using get32_put_in [of p "inode_bytes i" b j] p that by (simp add: inode_bytes_length [OF i])
  have s: "words_at (put p (inode_bytes i) b) (p + 16) 13 = i_sectors i"
  proof (rule nth_equalityI)
    fix k assume "k < length (words_at (put p (inode_bytes i) b) (p + 16) 13)"
    then have k: "k < 13" by simp
    then show "words_at (put p (inode_bytes i) b) (p + 16) 13 ! k = i_sectors i ! k"
      using g [of "16 + 4 * k"] get32_inode_bytes(5) [OF i k] by (simp add: words_at_def add.assoc)
  qed (use i in simp)
  show ?thesis
    using g [of 0] g [of 4] g [of 8] g [of 12] by (simp add: inode_get_def s get32_inode_bytes [OF i])
qed

lemma inode_get_put_other:
  assumes "p + length x \<le> length b" and "q + 76 \<le> p \<or> p + length x \<le> q" and "q + 76 \<le> length b"
  shows "inode_get (put p x b) q = inode_get b q"
proof -
  have g: "get32 (put p x b) (q + j) = get32 b (q + j)" if "j + 4 \<le> 76" for j
    using get32_put_other [of p x b "q + j"] assms that by auto
  note h = g [of 0] g [of 4] g [of 8] g [of 12]
  have "words_at (put p x b) (q + 16) 13 = words_at b (q + 16) 13"
    unfolding words_at_def by (rule map_cong) (auto simp: g add.assoc)
  then show ?thesis using h by (simp add: inode_get_def)
qed

subsection \<open>Writing and reading an inode\<close>

text \<open>What \<^verbatim>\<open>inode_sync\<close> and \<^verbatim>\<open>inode_delete\<close> do to the disk: the bytes of one slot, and no sector but those of the slot.\<close>

lemma inode_store_ok:
  assumes t: "table_ok s" and no: "no < 4096" and sec: "inode_secs no = (k, m)"
    and new: "length new = 76" and len: "512 * m \<le> len"
  obtains d where "inode_store len (m = 2, table_lba s + of_nat k, of_nat (76 * no mod 512)) new s = Inr ((), s\<lparr>hd_disk := d\<rparr>)"
    and "read_secs d (table_lba s) 608 = put (76 * no) new (table_bytes s)" and "disk_ok d"
    and "\<forall>x. unat x < unat (table_lba s) + k \<or> unat (table_lba s) + k + m \<le> unat x \<longrightarrow> d x = hd_disk s x"
proof -
  note b = inode_secs_bounds [OF no sec]
  let ?t = "table_lba s" and ?r = "76 * no mod 512"
  have tb: "unat ?t + 608 \<le> 163840" and d0: "disk_ok (hd_disk s)" using t by (auto simp: table_ok_def)
  have u: "unat (?t + of_nat k) = unat ?t + k" using tb b(1) by (intro unat_add_nat) simp
  let ?buf = "read_secs (hd_disk s) (?t + of_nat k) m"
  have buf: "?buf = take (512 * m) (drop (512 * k) (table_bytes s))"
    unfolding table_bytes_def by (rule read_secs_part [OF d0 b(1)])
  have lb: "length ?buf = 512 * m" by (rule length_read_secs [OF d0])
  let ?new = "put ?r new ?buf"
  let ?d = "write_secs m (?t + of_nat k) ?new (hd_disk s)"
  have ln: "length ?new = 512 * m" using lb b(3) new by simp
  have n: "(if m = 2 then 2 else 1 :: u32) = of_nat m" "unat (of_nat m :: u32) = m" "(of_nat m :: u32) \<noteq> 0"
  proof -
    have "m = 1 \<or> m = 2" using b(4,5) by arith
    then show "(if m = 2 then 2 else 1 :: u32) = of_nat m" "unat (of_nat m :: u32) = m" "(of_nat m :: u32) \<noteq> 0"
      by auto
  qed
  have ml: "?t + of_nat k \<le> max_lba" using u tb b(1,4) by (simp add: word_le_nat_alt max_lba_def)
  have ur: "unat (of_nat ?r :: u32) = ?r" using mod_less_divisor [of 512 "76 * no"] by (simp add: unat_of_nat)
  have cp: "memcpy ?buf ?r new 0 76 = Inr ?new" using memcpy_eq [of ?r 76 ?buf 0 new] lb b(3) new by simp
  show thesis
  proof (rule that [of ?d])
    have "(0 :: u32) < of_nat m" using n(3) by (simp add: word_gt_0)
    then show "inode_store len (m = 2, ?t + of_nat k, of_nat ?r) new s = Inr ((), s\<lparr>hd_disk := ?d\<rparr>)"
      using len new by (simp add: inode_store_def Let_def n(1,2) readM_def writeM_def ml ur cp ln)
    have "read_secs ?d ?t 608 = put (512 * k) ?new (table_bytes s)"
      unfolding table_bytes_def by (rule read_secs_write_part [OF d0 b(1) _ ln]) (use tb in simp)
    also have "\<dots> = put (512 * k + ?r) new (table_bytes s)"
      unfolding buf by (rule put_put) (use b new length_table [OF t] in auto)
    finally show "read_secs ?d ?t 608 = put (76 * no) new (table_bytes s)" using b(2) by simp
    show "disk_ok ?d" by (rule write_secs_ok [OF d0]) (simp add: ln)
    show "\<forall>x. unat x < unat ?t + k \<or> unat ?t + k + m \<le> unat x \<longrightarrow> ?d x = hd_disk s x"
      by (intro allI impI write_secs_other) (use u tb b(1) in auto)
  qed
qed

text \<open>The inode that \<^verbatim>\<open>inode_sync\<close> writes has no opens and no writer.\<close>

definition pure_inode :: "inode \<Rightarrow> inode" where
  "pure_inode i = i\<lparr>i_open_cnts := 0, write_deny := False\<rparr>"

lemma pure_inode_sectors [simp]: "i_sectors (pure_inode i) = i_sectors i" "i_no (pure_inode i) = i_no i"
  "i_size (pure_inode i) = i_size i"
  by (simp_all add: pure_inode_def)

lemma within_partition:
  assumes t: "table_ok s" and no: "no < 4096" and sec: "inode_secs no = (k, m)"
  shows "table_lba s + of_nat k \<le> start_lba (cur_part s) + part_sec_cnt (cur_part s)"
proof -
  have b: "k + m \<le> 608" "0 < m" using inode_secs_bounds [OF no sec] by simp_all
  have "unat (table_lba s + of_nat k) = unat (table_lba s) + k"
    using t b by (intro unat_add_nat) (simp add: table_ok_def)
  then show ?thesis using t b by (simp add: word_le_nat_alt table_ok_def)
qed

text \<open>The slot that an inode number really gets: the number is cut to a byte.\<close>

lemma inode_sync_ok:
  assumes t: "table_ok s" and i: "length (i_sectors i) = 13" and sec: "inode_secs (unat (i_no i) mod 256) = (k, m)"
    and len: "512 * m \<le> len"
  obtains d where "inode_sync i len s = Inr ((), s\<lparr>hd_disk := d\<rparr>)"
    and "read_secs d (table_lba s) 608 = put (76 * (unat (i_no i) mod 256)) (inode_bytes (pure_inode i)) (table_bytes s)" and "disk_ok d"
    and "\<forall>x. unat x < unat (table_lba s) + k \<or> unat (table_lba s) + k + m \<le> unat x \<longrightarrow> d x = hd_disk s x"
proof -
  let ?n = "ucast (ucast (i_no i) :: u8) :: u32"
  have u: "unat ?n = unat (i_no i) mod 256"
    using byte_of_word [of 0 "i_no i"] by simp
  then have no: "unat ?n < 4096" "unat (i_no i) mod 256 < 4096" using mod_less_divisor [of 256 "unat (i_no i)"] by linarith+
  have loc: "inode_locate ?n s = Inr ((m = 2, table_lba s + of_nat k, of_nat (76 * (unat (i_no i) mod 256) mod 512)), s)"
    using inode_locate_ok [OF no(1), of k m s] sec unfolding u by simp
  have lb: "length (inode_bytes (pure_inode i)) = 76" using i by (simp add: inode_bytes_length)
  obtain d where d: "inode_store len (m = 2, table_lba s + of_nat k, of_nat (76 * (unat (i_no i) mod 256) mod 512)) (inode_bytes (pure_inode i)) s = Inr ((), s\<lparr>hd_disk := d\<rparr>)"
    "read_secs d (table_lba s) 608 = put (76 * (unat (i_no i) mod 256)) (inode_bytes (pure_inode i)) (table_bytes s)" "disk_ok d"
    "\<forall>x. unat x < unat (table_lba s) + k \<or> unat (table_lba s) + k + m \<le> unat x \<longrightarrow> d x = hd_disk s x"
    by (rule inode_store_ok [OF t no(2) sec lb len])
  have "inode_sync i len s = Inr ((), s\<lparr>hd_disk := d\<rparr>)"
    using d(1) within_partition [OF t no(2) sec] unfolding inode_sync_def pure_inode_def [symmetric] by (simp add: loc Let_def)
  then show thesis using d(2-4) by (rule that)
qed

text \<open>What \<^verbatim>\<open>inode_open\<close> asks of the heap for an inode that is not open: the structure, from the kernel's part, and
  a buffer of one sector or two, which it puts back.\<close>

definition inode_open_calls :: "u32 \<Rightarrow> heap_call list" where
  "inode_open_calls no = [Get True 76, Get False (if snd (inode_secs (unat no)) = 2 then 1024 else 512), Put False 0]"

lemma inode_load_ok:
  assumes t: "table_ok s" and no: "unat no < 4096"
    and h: "served h (inode_open_calls no @ cs) L ps (heap s)" and l: "set (open_inodes (cur_part s)) \<subseteq> L"
  obtains p k where "inode_load h no s = Inr (p, s\<lparr>heap := k,
      cur_part := (cur_part s)\<lparr>open_inodes := p # open_inodes (cur_part s)\<rparr>,
      inodes := (inodes s)(p \<mapsto> (disk_inode s (unat no))\<lparr>i_open_cnts := 1\<rparr>)\<rparr>)"
    and "p \<noteq> 0" "p \<notin> L" "served h cs L (p # ps) k"
proof -
  obtain a m where sec: "inode_secs (unat no) = (a, m)" by fastforce
  note b = inode_secs_bounds [OF no sec]
  let ?t = "table_lba s" and ?r = "76 * unat no mod 512"
  have tb: "unat ?t + 608 \<le> 163840" and d0: "disk_ok (hd_disk s)" using t by (auto simp: table_ok_def)
  have u: "unat (?t + of_nat a) = unat ?t + a" using tb b(1) by (intro unat_add_nat) simp
  have ml: "?t + of_nat a \<le> max_lba" using u tb b(1,4) by (simp add: word_le_nat_alt max_lba_def)
  have ur: "unat (of_nat ?r :: u32) = ?r" using mod_less_divisor [of 512 "76 * unat no"] by (simp add: unat_of_nat)
  let ?n = "if m = 2 then 1024 else 512 :: u32"
  have h1: "served h (Get True 76 # Get False ?n # Put False 0 # cs) L ps (heap s)" using h sec by (simp add: inode_open_calls_def)
  obtain p k1 where p: "mallocM h True 76 s = Inr (p, s\<lparr>heap := k1\<rparr>)" "p \<noteq> 0" "p \<notin> L"
    "served h (Get False ?n # Put False 0 # cs) L (p # ps) k1"
    by (rule mallocM_served [OF h1])
  have h2: "served h (Get False ?n # Put False 0 # cs) L (p # ps) (heap (s\<lparr>heap := k1\<rparr>))" using p(4) by simp
  obtain q k2 where q: "mallocM h False ?n (s\<lparr>heap := k1\<rparr>) = Inr (q, s\<lparr>heap := k2\<rparr>)"
    "q \<noteq> 0" "served h (Put False 0 # cs) L (q # p # ps) k2"
    by (rule mallocM_served [OF h2], rule that) auto
  let ?s3 = "s\<lparr>heap := k2, cur_part := (cur_part s)\<lparr>open_inodes := p # open_inodes (cur_part s)\<rparr>,
      inodes := (inodes s)(p \<mapsto> (disk_inode s (unat no))\<lparr>i_open_cnts := 1\<rparr>)\<rparr>"
  have h3: "served h (Put False 0 # cs) L (q # p # ps) (heap ?s3)" using q(3) by simp
  obtain k where k: "freeM h False q ?s3 = Inr ((), ?s3\<lparr>heap := k\<rparr>)" and rk: "served h cs L (p # ps) k"
    by (rule freeM_served [OF h3], rule that) auto
  have m12: "m = 1 \<or> m = 2" using b(4,5) by arith
  let ?buf = "read_secs (hd_disk s) (?t + of_nat a) m"
  have buf: "?buf = take (512 * m) (drop (512 * a) (table_bytes s))"
    unfolding table_bytes_def by (rule read_secs_part [OF d0 b(1)])
  have rd: "readM (?t + of_nat a) (if m = 2 then 2 else 1) (s\<lparr>heap := k2\<rparr>) = Inr (?buf, s\<lparr>heap := k2\<rparr>)"
    using m12 ml by (auto simp: readM_def)
  have "inode_get ?buf ?r = disk_inode s (unat no)"
    unfolding buf disk_inode_def using inode_get_sector [of ?r "512 * m" "512 * a" "table_bytes s"] b length_table [OF t]
    by simp
  then have at: "inode_at ?buf ?r = Inr (disk_inode s (unat no))"
    using b(3) by (simp add: inode_at_def inode_bytes_cnt_def length_read_secs [OF d0])
  have np: "p \<notin> set (open_inodes (cur_part s))" using p(3) l by blast
  show thesis
  proof (rule that [OF _ p(2,3) rk])
    show "inode_load h no s = Inr (p, s\<lparr>heap := k, cur_part := (cur_part s)\<lparr>open_inodes := p # open_inodes (cur_part s)\<rparr>,
      inodes := (inodes s)(p \<mapsto> (disk_inode s (unat no))\<lparr>i_open_cnts := 1\<rparr>)\<rparr>)"
      using k rd by (simp add: inode_load_def inode_locate_ok [OF no sec] p(1,2) q(1,2) ur at push_open_def kl_push_def np modPart_def)
  qed
qed

subsection \<open>Blocks\<close>

text \<open>The block bitmap in order: as long as its sectors, and on the disk as in memory.\<close>

definition map_sects :: "'k fs \<Rightarrow> nat" where
  "map_sects s = unat (block_bitmap_sects (sb (cur_part s)))"

definition map_lba :: "'k fs \<Rightarrow> u32" where
  "map_lba s = block_bitmap_lba (sb (cur_part s))"

definition data_lba :: "'k fs \<Rightarrow> u32" where
  "data_lba s = data_start_lba (sb (cur_part s))"

definition map_ok :: "'k fs \<Rightarrow> bool" where
  "map_ok s \<longleftrightarrow> bitmap_ok (block_bitmap (cur_part s)) \<and> length (bits (block_bitmap (cur_part s))) = 512 * map_sects s
     \<and> bit_cnt (block_bitmap (cur_part s)) = 4096 * map_sects s
     \<and> unat (map_lba s) + map_sects s \<le> 163840 \<and> unat (data_lba s) + 4096 * map_sects s < 2 ^ 32 - 1
     \<and> disk_ok (hd_disk s)"

definition map_synced :: "'k fs \<Rightarrow> bool" where
  "map_synced s \<longleftrightarrow> read_secs (hd_disk s) (map_lba s) (map_sects s) = bits (block_bitmap (cur_part s))"

definition used_blocks :: "'k fs \<Rightarrow> nat set" where
  "used_blocks s = used_bits (block_bitmap (cur_part s))"

definition block_cap :: "'k fs \<Rightarrow> nat" where
  "block_cap s = bit_cnt (block_bitmap (cur_part s))"

definition set_map :: "bitmap \<Rightarrow> 'k fs \<Rightarrow> 'k fs" where
  "set_map b s = s\<lparr>cur_part := (cur_part s)\<lparr>block_bitmap := b\<rparr>\<rparr>"

lemma set_map_simps [simp]:
  "hd_disk (set_map b s) = hd_disk s" "block_bitmap (cur_part (set_map b s)) = b" "map_sects (set_map b s) = map_sects s"
  "map_lba (set_map b s) = map_lba s" "data_lba (set_map b s) = data_lba s" "heap (set_map b s) = heap s"
  "inodes (set_map b s) = inodes s" "table_lba (set_map b s) = table_lba s"
  "sb (cur_part (set_map b s)) = sb (cur_part s)" "open_inodes (cur_part (set_map b s)) = open_inodes (cur_part s)"
  by (simp_all add: set_map_def map_sects_def map_lba_def data_lba_def table_lba_def)

lemma bitmap_set_one_byte:
  assumes "bitmap_set b i v = Inr b'"
  shows "\<exists>x. bits b' = (bits b)[unat i div 8 := x]"
  using assms by (auto simp: bitmap_set_def ASSERT_eq_Inr bindR_eq_Inr rd_eq_Inr wr_eq_Inr Let_def)

lemma block_alloc_ok:
  assumes ok: "map_ok s" and free: "used_blocks s \<noteq> {..<block_cap s}"
  obtains i b x where "block_bitmap_alloc s = Inr (data_lba s + i, set_map b s)"
    and "unat i < block_cap s" "unat i \<notin> used_blocks s" "used_bits b = insert (unat i) (used_blocks s)"
    and "map_ok (set_map b s)" "bit_cnt b = block_cap s" "bits b = (bits (block_bitmap (cur_part s)))[unat i div 8 := x]"
    and "data_lba s + i \<noteq> M1"
proof -
  let ?b = "block_bitmap (cur_part s)"
  have bo: "bitmap_ok ?b" using ok by (simp add: map_ok_def)
  obtain i b where i: "bitmap_scan ?b 1 = Inr i" "unat i < bit_cnt ?b" "unat i < 2 ^ 31" "unat i \<notin> used_bits ?b"
    "bitmap_set ?b i 1 = Inr b" "bitmap_ok b" "bit_cnt b = bit_cnt ?b" "length (bits b) = length (bits ?b)"
    "used_bits b = insert (unat i) (used_bits ?b)"
    by (rule bitmap_take [OF bo]) (use free in \<open>auto simp: used_blocks_def block_cap_def\<close>)
  obtain x where x: "bits b = (bits ?b)[unat i div 8 := x]" using bitmap_set_one_byte [OF i(5)] by blast
  have im: "i \<noteq> M1" using i(3) by (auto simp: M1_def unat_m1)
  have "unat (data_lba s) + unat i < 2 ^ 32 - 1" using ok i(2) by (auto simp: map_ok_def)
  then have "unat (data_lba s + i) < 2 ^ 32 - 1" by (simp add: unat_word_ariths)
  then have dm: "data_lba s + i \<noteq> M1" by (auto simp: M1_def unat_m1)
  have "block_bitmap_alloc s = Inr (data_lba s + i, set_map b s)"
    by (simp add: block_bitmap_alloc_def i(1,5) im modPart_def set_map_def getSb_def data_lba_def)
  moreover have "map_ok (set_map b s)" using ok i(6,7,8) by (simp add: map_ok_def)
  ultimately show thesis using i x dm by (intro that [of i b x]) (auto simp: block_cap_def used_blocks_def)
qed

lemma block_alloc_full:
  assumes "map_ok s" and "used_blocks s = {..<block_cap s}"
  shows "\<exists>e. block_bitmap_alloc s = Inl e"
  using bitmap_scan_full [of "block_bitmap (cur_part s)" 1] assms
  by (auto simp: block_bitmap_alloc_def map_ok_def used_blocks_def block_cap_def)

text \<open>Writing the sector of the bitmap that has the changed bit brings the disk up to date.\<close>

lemma block_sync_ok:
  assumes ok: "map_ok s" and i: "unat i < block_cap s"
    and o: "bits (block_bitmap (cur_part s)) = (read_secs (hd_disk s) (map_lba s) (map_sects s))[unat i div 8 := x]"
  obtains d where "bitmap_sync i BLOCK_BITMAP s = Inr ((), s\<lparr>hd_disk := d\<rparr>)"
    and "map_synced (s\<lparr>hd_disk := d\<rparr>)" and "map_ok (s\<lparr>hd_disk := d\<rparr>)"
    and "\<forall>y. unat y < unat (map_lba s) \<or> unat (map_lba s) + map_sects s \<le> unat y \<longrightarrow> d y = hd_disk s y"
proof -
  let ?n = "map_sects s" and ?k = "unat i div 4096" and ?B = "bits (block_bitmap (cur_part s))"
  have m: "unat (map_lba s) + ?n \<le> 163840" "length ?B = 512 * ?n" "disk_ok (hd_disk s)" and k: "?k < ?n"
    using ok i by (auto simp: map_ok_def block_cap_def div_less_iff_less_mult)
  have dk: "i div 4096 = of_nat ?k" by (simp add: word_arith_nat_div [of i])
  have uo: "unat (of_nat ?k * BLOCK_SIZE) = 512 * ?k"
    unfolding dk [symmetric]
    using k m(1) unat_mult_small [of "i div 4096" BLOCK_SIZE] by (simp add: unat_div fs_consts)
  have ul: "unat (map_lba s + of_nat ?k) = unat (map_lba s) + ?k" using k m(1) by (intro unat_add_nat) simp
  have ml: "map_lba s + i div 4096 \<le> max_lba" using ul dk k m(1) by (simp add: word_le_nat_alt max_lba_def)
  have x: "length (take 512 (drop (512 * ?k) ?B)) = 512 * 1" using k m(2) by simp
  have le: "512 \<le> length ?B - 512 * ?k" proof -
    have "512 \<le> 512 * n - 512 * j" if "j < n" for j n :: nat using that by arith
    then show ?thesis using k m(2) by metis
  qed
  let ?R = "read_secs (hd_disk s) (map_lba s) ?n"
  let ?d = "write_secs 1 (map_lba s + of_nat ?k) (take 512 (drop (512 * ?k) ?B)) (hd_disk s)"
  have "read_secs ?d (map_lba s) ?n = put (512 * ?k) (take 512 (drop (512 * ?k) ?B)) ?R"
    by (rule read_secs_write_part [OF m(3) _ _ x]) (use k m(1) in auto)
  also have "\<dots> = ?B"
  proof (rule nth_equalityI)
    have lR: "length ?R = 512 * ?n" by (rule length_read_secs [OF m(3)])
    show l: "length (put (512 * ?k) (take 512 (drop (512 * ?k) ?B)) ?R) = length ?B"
      using x lR k m(2) by (subst length_put) auto
    fix j assume "j < length (put (512 * ?k) (take 512 (drop (512 * ?k) ?B)) ?R)"
    then have j: "j < 512 * ?n" using l m(2) by simp
    have "j \<noteq> unat i div 8" if "j < 512 * ?k \<or> 512 * ?k + 512 \<le> j"
    proof -
      have "?k = unat i div 8 div 512" by (simp add: div_mult2_eq [symmetric])
      then show ?thesis using that div_mult_mod_eq [of "unat i div 8" 512] mod_less_divisor [of 512 "unat i div 8"] by linarith
    qed
    then show "put (512 * ?k) (take 512 (drop (512 * ?k) ?B)) ?R ! j = ?B ! j"
      using j x lR k m(2) by (auto simp: put_def nth_append o)
  qed
  finally have sy: "read_secs ?d (map_lba s) ?n = ?B" .
  have w: "bitmap_sync i BLOCK_BITMAP s = Inr ((), s\<lparr>hd_disk := ?d\<rparr>)"
    using le ml by (simp add: bitmap_sync_def Let_def getSb_def map_lba_def [symmetric] writeM_def uo dk)
  have dok: "disk_ok ?d" by (rule write_secs_ok [OF m(3)]) (simp add: le)
  show thesis
  proof (rule that [OF w])
    show "map_synced (s\<lparr>hd_disk := ?d\<rparr>)" using sy by (simp add: map_synced_def map_lba_def map_sects_def)
    show "map_ok (s\<lparr>hd_disk := ?d\<rparr>)" using ok dok by (simp add: map_ok_def map_lba_def map_sects_def data_lba_def)
    show "\<forall>y. unat y < unat (map_lba s) \<or> unat (map_lba s) + ?n \<le> unat y \<longrightarrow> ?d y = hd_disk s y"
      by (intro allI impI write_secs_other) (use ul k m(1) in auto)
  qed
qed
text \<open>A block allocated and synced: it was free, nothing else on the disk changes but the bitmap, and memory and
  disk agree again.\<close>

definition alloc_step :: "'k fs \<Rightarrow> u32 \<Rightarrow> (u32 \<Rightarrow> inode option) \<Rightarrow> 'k fs \<Rightarrow> bool" where
  "alloc_step s lba f s' \<longleftrightarrow> (\<exists>b d. s' = (set_map b s)\<lparr>inodes := f, hd_disk := d\<rparr>
     \<and> (\<forall>y. unat y < unat (map_lba s) \<or> unat (map_lba s) + map_sects s \<le> unat y \<longrightarrow> d y = hd_disk s y))
     \<and> map_ok s' \<and> map_synced s' \<and> block_cap s' = block_cap s
     \<and> unat (lba - data_lba s) < block_cap s \<and> unat (lba - data_lba s) \<notin> used_blocks s
     \<and> used_blocks s' = insert (unat (lba - data_lba s)) (used_blocks s)"

lemma alloc_then_sync:
  assumes ok: "map_ok s" and sy: "map_synced s" and free: "used_blocks s \<noteq> {..<block_cap s}"
  obtains lba s1 where "block_bitmap_alloc s = Inr (lba, s1)" and "lba \<noteq> M1" and "data_lba s1 = data_lba s"
    and "inodes s1 = inodes s"
    and "\<forall>f. \<exists>s'. bitmap_sync (lba - data_lba s) BLOCK_BITMAP (s1\<lparr>inodes := f\<rparr>) = Inr ((), s') \<and> alloc_step s lba f s'"
proof -
  obtain i b x where i: "block_bitmap_alloc s = Inr (data_lba s + i, set_map b s)"
    "unat i < block_cap s" "unat i \<notin> used_blocks s" "used_bits b = insert (unat i) (used_blocks s)"
    "map_ok (set_map b s)" "bit_cnt b = block_cap s" "bits b = (bits (block_bitmap (cur_part s)))[unat i div 8 := x]"
    "data_lba s + i \<noteq> M1" by (rule block_alloc_ok [OF ok free])
  have "\<exists>s'. bitmap_sync i BLOCK_BITMAP ((set_map b s)\<lparr>inodes := f\<rparr>) = Inr ((), s') \<and> alloc_step s (data_lba s + i) f s'" for f
  proof -
    let ?s = "(set_map b s)\<lparr>inodes := f\<rparr>"
    have f: "map_lba ?s = map_lba s" "map_sects ?s = map_sects s"
      by (simp_all add: map_lba_def map_sects_def set_map_def)
    have o: "map_ok ?s" using i(5) by (simp add: map_ok_def map_lba_def map_sects_def data_lba_def)
    have c: "unat i < block_cap ?s" using i(2,6) by (simp add: block_cap_def)
    have e: "bits (block_bitmap (cur_part ?s)) = (read_secs (hd_disk ?s) (map_lba ?s) (map_sects ?s))[unat i div 8 := x]"
      using i(7) sy by (simp add: map_synced_def f)
    obtain d where d: "bitmap_sync i BLOCK_BITMAP ?s = Inr ((), ?s\<lparr>hd_disk := d\<rparr>)"
      "map_synced (?s\<lparr>hd_disk := d\<rparr>)" "map_ok (?s\<lparr>hd_disk := d\<rparr>)"
      "\<forall>y. unat y < unat (map_lba ?s) \<or> unat (map_lba ?s) + map_sects ?s \<le> unat y \<longrightarrow> d y = hd_disk ?s y"
      by (rule block_sync_ok [OF o c e])
    have "alloc_step s (data_lba s + i) f (?s\<lparr>hd_disk := d\<rparr>)"
      unfolding alloc_step_def
    proof (intro conjI exI [of _ b] exI [of _ d])
      show "\<forall>y. unat y < unat (map_lba s) \<or> unat (map_lba s) + map_sects s \<le> unat y \<longrightarrow> d y = hd_disk s y"
        using d(4) by (simp add: f)
    qed (use d(2,3) i(2-4,6) in \<open>simp_all add: block_cap_def used_blocks_def\<close>)
    then show ?thesis using d(1) by blast
  qed
  then show thesis by (intro that [of "data_lba s + i" "set_map b s", OF i(1,8)]) simp_all
qed
text \<open>The blocks of the partition are a pool of slots.\<close>

definition set_block :: "'k fs \<Rightarrow> nat \<Rightarrow> 'k fs res" where
  "set_block s i = bindR (set_block_bit (of_nat i) 0 s) (\<lambda>(u, s'). Inr s')"

definition take_block_no :: "'k fs \<Rightarrow> (nat \<times> 'k fs) res" where
  "take_block_no s = bindR (block_bitmap_alloc s) (\<lambda>(lba, s'). Inr (unat (lba - data_lba s), s'))"

lemma set_block_ok:
  assumes ok: "map_ok s" and i: "i < block_cap s"
  shows "\<exists>s'. set_block s i = Inr s' \<and> used_blocks s' = used_blocks s - {i} \<and> map_ok s' \<and> block_cap s' = block_cap s"
proof -
  have bo: "bitmap_ok (block_bitmap (cur_part s))" using ok by (simp add: map_ok_def)
  have "i < 2 ^ 32" using ok i by (simp add: map_ok_def block_cap_def)
  then have u: "unat (of_nat i :: u32) = i" by (simp add: unat_of_nat take_bit_nat_eq_self)
  have "unat (of_nat i :: u32) < bit_cnt (block_bitmap (cur_part s))" using i by (simp add: u block_cap_def)
  from bitmap_set_used [OF bo this, of 0] obtain b where b: "bitmap_set (block_bitmap (cur_part s)) (of_nat i) 0 = Inr b"
    "bitmap_ok b" "bit_cnt b = bit_cnt (block_bitmap (cur_part s))" "length (bits b) = length (bits (block_bitmap (cur_part s)))"
    "used_bits b = used_bits (block_bitmap (cur_part s)) - {i}" using u by auto
  have "set_block s i = Inr (set_map b s)"
    by (simp add: set_block_def set_block_bit_def b(1) modPart_def set_map_def)
  moreover have "map_ok (set_map b s)" using ok b by (simp add: map_ok_def)
  ultimately show ?thesis using b by (auto simp: used_blocks_def block_cap_def)
qed

interpretation blocks: slot_pool map_ok block_cap used_blocks take_block_no set_block
proof unfold_locales
  fix s :: "'k fs"
  show "used_blocks s \<subseteq> {..<block_cap s}"
    unfolding used_blocks_def block_cap_def by (rule used_bits_bound)
  assume ok: "map_ok s"
  show "\<exists>i s'. take_block_no s = Inr (i, s') \<and> i \<notin> used_blocks s \<and> i < block_cap s
    \<and> used_blocks s' = insert i (used_blocks s) \<and> map_ok s' \<and> block_cap s' = block_cap s"
    if free: "used_blocks s \<noteq> {..<block_cap s}"
    by (rule block_alloc_ok [OF ok free]) (auto simp: take_block_no_def used_blocks_def block_cap_def)
  show "\<exists>e. take_block_no s = Inl e" if "used_blocks s = {..<block_cap s}"
    using block_alloc_full [OF ok that] by (auto simp: take_block_no_def)
  show "\<exists>s'. set_block s i = Inr s' \<and> used_blocks s' = used_blocks s - {i} \<and> map_ok s' \<and> block_cap s' = block_cap s"
    if "i < block_cap s" for i
    by (rule set_block_ok [OF ok that])
qed

subsection \<open>The open inodes\<close>

text \<open>The open inodes in order: their structures are live and different, each is open at least once, no two have the
  same number, and nothing else is an inode.\<close>

definition opens_ok :: "u32 set \<Rightarrow> 'k fs \<Rightarrow> bool" where
  "opens_ok L s \<longleftrightarrow> distinct (open_inodes (cur_part s)) \<and> set (open_inodes (cur_part s)) \<subseteq> L
     \<and> (\<forall>p. p \<notin> L \<longrightarrow> inodes s p = None)
     \<and> (\<forall>p\<in>set (open_inodes (cur_part s)). \<exists>i. inodes s p = Some i \<and> i_open_cnts i \<noteq> 0)
     \<and> (\<forall>p\<in>set (open_inodes (cur_part s)). \<forall>q\<in>set (open_inodes (cur_part s)).
          map_option i_no (inodes s p) = map_option i_no (inodes s q) \<longrightarrow> p = q)"

lemma find_open_spec:
  assumes "\<forall>p\<in>set ps. inodes s p \<noteq> None"
  shows "find_open (inodes s) no ps = Inr (find (\<lambda>p. map_option i_no (inodes s p) = Some no) ps)"
  using assms by (induction ps) (auto split: option.splits)

lemma open_found:
  assumes "opens_ok L s" and "p \<in> set (open_inodes (cur_part s))" and "inodes s p = Some i"
  shows "inode_open h (i_no i) s = Inr (p, s\<lparr>inodes := (inodes s)(p \<mapsto> i\<lparr>i_open_cnts := i_open_cnts i + 1\<rparr>)\<rparr>)"
proof -
  let ?l = "open_inodes (cur_part s)"
  have "find (\<lambda>q. map_option i_no (inodes s q) = Some (i_no i)) ?l = Some p"
  proof -
    obtain q where q: "find (\<lambda>q. map_option i_no (inodes s q) = Some (i_no i)) ?l = Some q"
      using assms(2,3) by (cases "find (\<lambda>q. map_option i_no (inodes s q) = Some (i_no i)) ?l") (auto simp: find_None_iff)
    then have "q \<in> set ?l" "map_option i_no (inodes s q) = Some (i_no i)" by (auto simp: find_Some_iff)
    then have "q = p" using assms by (auto simp: opens_ok_def)
    then show ?thesis using q by simp
  qed
  moreover have "\<forall>p\<in>set ?l. inodes s p \<noteq> None" using assms(1) by (force simp: opens_ok_def)
  ultimately have "find_open (inodes s) (i_no i) ?l = Inr (Some p)" using find_open_spec [of ?l s "i_no i"] by simp
  then show ?thesis using assms(3) by (simp add: inode_open_def upd_inode_def)
qed

lemma open_not_found:
  assumes "opens_ok L s" and "\<forall>p\<in>set (open_inodes (cur_part s)). \<forall>i. inodes s p = Some i \<longrightarrow> i_no i \<noteq> no"
  shows "inode_open h no s = inode_load h no s"
proof -
  let ?l = "open_inodes (cur_part s)"
  have "find (\<lambda>q. map_option i_no (inodes s q) = Some no) ?l = None"
    using assms(2) by (auto simp: find_None_iff)
  moreover have "\<forall>p\<in>set ?l. inodes s p \<noteq> None" using assms(1) by (force simp: opens_ok_def)
  ultimately have "find_open (inodes s) no ?l = Inr None" using find_open_spec [of ?l s no] by simp
  then show ?thesis by (simp add: inode_open_def)
qed
lemma open_fresh_ok:
  assumes o: "opens_ok L s" and t: "table_ok s" and no: "unat no < 4096"
    and new: "\<forall>p\<in>set (open_inodes (cur_part s)). \<forall>i. inodes s p = Some i \<longrightarrow> i_no i \<noteq> no"
    and h: "served h (inode_open_calls no @ cs) L ps (heap s)"
  obtains p k where "inode_open h no s = Inr (p, s\<lparr>heap := k,
      cur_part := (cur_part s)\<lparr>open_inodes := p # open_inodes (cur_part s)\<rparr>,
      inodes := (inodes s)(p \<mapsto> (disk_inode s (unat no))\<lparr>i_open_cnts := 1\<rparr>)\<rparr>)"
    and "p \<noteq> 0" "p \<notin> L" "served h cs L (p # ps) k"
proof -
  have l: "set (open_inodes (cur_part s)) \<subseteq> L" using o by (simp add: opens_ok_def)
  show thesis
    by (rule inode_load_ok [OF t no h l], rule that) (simp_all add: open_not_found [OF o new])
qed

lemma close_last:
  assumes "inodes s p = Some i" and "i_open_cnts i = 1" and "p \<in> set (open_inodes (cur_part s))"
    and h: "served h (Put True 0 # cs) L (p # ps) (heap s)"
  obtains k where "inode_close h p s = Inr ((), s\<lparr>heap := k,
      cur_part := (cur_part s)\<lparr>open_inodes := remove1 p (open_inodes (cur_part s))\<rparr>,
      inodes := (inodes s)(p := None)\<rparr>)" and "served h cs L ps k"
proof -
  let ?s = "s\<lparr>cur_part := (cur_part s)\<lparr>open_inodes := remove1 p (open_inodes (cur_part s))\<rparr>, inodes := (inodes s)(p := None)\<rparr>"
  have hh: "served h (Put True 0 # cs) L (p # ps) (heap ?s)" using h by simp
  obtain k where k: "freeM h True p ?s = Inr ((), ?s\<lparr>heap := k\<rparr>)" "served h cs L ps k"
    using freeM_served [OF hh] by auto
  have "inode_close h p s = Inr ((), s\<lparr>heap := k,
      cur_part := (cur_part s)\<lparr>open_inodes := remove1 p (open_inodes (cur_part s))\<rparr>, inodes := (inodes s)(p := None)\<rparr>)"
    using assms(1,2,3) k(1) by (simp add: inode_close_def get_inode_def kl_remove_def modPart_def)
  then show thesis using k(2) by (rule that)
qed

lemma close_shared:
  assumes "inodes s p = Some i" and "i_open_cnts i \<noteq> 1"
  shows "inode_close h p s = Inr ((), s\<lparr>inodes := (inodes s)(p \<mapsto> i\<lparr>i_open_cnts := i_open_cnts i - 1\<rparr>)\<rparr>)"
  using assms by (simp add: inode_close_def get_inode_def upd_inode_def)

lemma disk_inode_put:
  assumes t: "table_ok s" and no: "no < 4096" and i: "length (i_sectors i) = 13"
    and d: "read_secs d (table_lba s) 608 = put (76 * no) (inode_bytes i) (table_bytes s)"
  shows "disk_inode (s\<lparr>hd_disk := d\<rparr>) no = i"
    and "m < 4096 \<Longrightarrow> m \<noteq> no \<Longrightarrow> disk_inode (s\<lparr>hd_disk := d\<rparr>) m = disk_inode s m"
proof -
  have tb: "table_bytes (s\<lparr>hd_disk := d\<rparr>) = put (76 * no) (inode_bytes i) (table_bytes s)"
    using d by (simp add: table_bytes_def table_lba_def)
  have l: "length (table_bytes s) = 311296" using t by simp
  show "disk_inode (s\<lparr>hd_disk := d\<rparr>) no = i"
    unfolding disk_inode_def tb by (rule inode_get_put [OF i]) (use l no in simp)
  show "disk_inode (s\<lparr>hd_disk := d\<rparr>) m = disk_inode s m" if "m < 4096" "m \<noteq> no"
    unfolding disk_inode_def tb by (rule inode_get_put_other) (use l no that inode_bytes_length [OF i] in auto)
qed

subsection \<open>The properties\<close>

text \<open>A file system on 20000 sectors whose inode table is all zeros, for concrete cases.\<close>

definition small_sb :: super_block where
  "small_sb = \<lparr>magic = 0x19590318, sb_sec_cnt = 18000, inode_cnt = 4096, part_lba_base = 100, block_bitmap_lba = 102,
     block_bitmap_sects = 1, inode_bitmap_lba = 103, inode_bitmap_sects = 1, inode_table_lba = 104,
     inode_table_sects = 608, data_start_lba = 800, root_inode_no = 0, dir_entry_size = 24\<rparr>"

definition small_map :: bitmap where
  "small_map = \<lparr>btmp_bytes_len = 512, bits = 1 # replicate 511 0\<rparr>"

definition small_fs :: "kmem fs" where
  "small_fs = \<lparr>heap = file_heap, hd_disk = (\<lambda>l. if l = 102 \<or> l = 103 then 1 # replicate 511 0 else replicate 512 0),
     cur_part = \<lparr>start_lba = 100, part_sec_cnt = 18000, sb = small_sb, block_bitmap = small_map, inode_bitmap = small_map,
       open_inodes = []\<rparr>,
     inodes = (\<lambda>_. None), dirs = (\<lambda>_. None), root_dir = \<lparr>dir_inode = 0, dir_pos = 0, dir_buf = replicate 512 0\<rparr>,
     file_table = replicate 32 \<lparr>fd_pos = 0, fd_flag = 0, fd_inode = 0\<rparr>, cur_task = blank_task, kbd_queue = [], console = []\<rparr>"

lemma small_fs_ok: "table_ok small_fs" "opens_ok {} small_fs"
  by (simp_all add: table_ok_def opens_ok_def small_fs_def small_sb_def table_lba_def disk_ok_def)

text \<open>
  C31. An inode whose number fits in a byte, written by \<^verbatim>\<open>inode_sync\<close> and then opened, comes back with
  its size and its sectors, opened once and without a writer; every other inode of the table is as it was, even where two
  inodes share a sector or one lies across two. Nothing outside the inode table changes on the disk. The heap serves the three
  calls of \<^verbatim>\<open>inode_open\<close>, as \<open>sys_heap\<close> does when it is stocked (theory Stock).
\<close>

theorem inode_sync_then_open:
  assumes t: "table_ok s" and o: "opens_ok L s" and i: "length (i_sectors i) = 13" "unat (i_no i) < 256"
    and new: "\<forall>p\<in>set (open_inodes (cur_part s)). \<forall>j. inodes s p = Some j \<longrightarrow> i_no j \<noteq> i_no i"
    and h: "served h (inode_open_calls (i_no i)) L [] (heap s)"
  shows "\<exists>d p s'. inode_sync i 1024 s = Inr ((), s\<lparr>hd_disk := d\<rparr>)
    \<and> inode_open h (i_no i) (s\<lparr>hd_disk := d\<rparr>) = Inr (p, s')
    \<and> inodes s' p = Some (i\<lparr>i_open_cnts := 1, write_deny := False\<rparr>)
    \<and> (\<forall>m<4096. m \<noteq> unat (i_no i) \<longrightarrow> disk_inode s' m = disk_inode s m)
    \<and> (\<forall>x. unat x < unat (table_lba s) \<or> unat (table_lba s) + 608 \<le> unat x \<longrightarrow> d x = hd_disk s x)"
proof -
  obtain k m where sec: "inode_secs (unat (i_no i) mod 256) = (k, m)" by fastforce
  have m: "512 * m \<le> 1024" "k + m \<le> 608" using inode_secs_bounds [OF _ sec] i(2) by auto
  obtain d where d: "inode_sync i 1024 s = Inr ((), s\<lparr>hd_disk := d\<rparr>)"
    "read_secs d (table_lba s) 608 = put (76 * (unat (i_no i) mod 256)) (inode_bytes (pure_inode i)) (table_bytes s)" "disk_ok d"
    "\<forall>x. unat x < unat (table_lba s) + k \<or> unat (table_lba s) + k + m \<le> unat x \<longrightarrow> d x = hd_disk s x"
    by (rule inode_sync_ok [OF t i(1) sec m(1)])
  let ?s = "s\<lparr>hd_disk := d\<rparr>"
  have n: "unat (i_no i) mod 256 = unat (i_no i)" "unat (i_no i) < 4096" using i(2) by simp_all
  note di = disk_inode_put [OF t n(2), of "pure_inode i" d, unfolded pure_inode_sectors, OF i(1) d(2) [unfolded n(1)]]
  have ts: "opens_ok L ?s" "table_ok ?s" using t o d(3) by (simp_all add: table_ok_def opens_ok_def table_lba_def)
  have nw: "\<forall>p\<in>set (open_inodes (cur_part ?s)). \<forall>j. inodes ?s p = Some j \<longrightarrow> i_no j \<noteq> i_no i" using new by simp
  have hh: "served h (inode_open_calls (i_no i) @ []) L [] (heap ?s)" using h by simp
  obtain p kk where p: "inode_open h (i_no i) ?s = Inr (p, ?s\<lparr>heap := kk,
      cur_part := (cur_part ?s)\<lparr>open_inodes := p # open_inodes (cur_part ?s)\<rparr>,
      inodes := (inodes ?s)(p \<mapsto> (disk_inode ?s (unat (i_no i)))\<lparr>i_open_cnts := 1\<rparr>)\<rparr>)"
    by (rule open_fresh_ok [OF ts n(2) nw hh])
  have "disk_inode (?s\<lparr>heap := kk, cur_part := (cur_part s)\<lparr>open_inodes := p # open_inodes (cur_part s)\<rparr>,
      inodes := f\<rparr>) j = disk_inode ?s j" for f j
    by (simp add: disk_inode_def table_bytes_def table_lba_def)
  then show ?thesis
    using d(1,4) p di m(2) by (intro exI [of _ d] exI [of _ p]) (auto simp: pure_inode_def)
qed

theorem inode_sync_then_open_witness:
  "\<exists>d p s'. inode_sync \<lparr>i_no = 6, i_size = 700, i_open_cnts = 2, write_deny = True, i_sectors = 900 # 901 # replicate 11 0\<rparr> 1024 small_fs
      = Inr ((), small_fs\<lparr>hd_disk := d\<rparr>)
    \<and> inode_open sys_heap 6 (small_fs\<lparr>hd_disk := d\<rparr>) = Inr (p, s')
    \<and> inodes s' p = Some \<lparr>i_no = 6, i_size = 700, i_open_cnts = 1, write_deny = False, i_sectors = 900 # 901 # replicate 11 0\<rparr>"
proof -
  have "served sys_heap (inode_open_calls 6) {} [] file_heap"
    by (rule file_heap_serves; code_simp)
  then show ?thesis
    using inode_sync_then_open [OF small_fs_ok, where h = sys_heap,
      of "\<lparr>i_no = 6, i_size = 700, i_open_cnts = 2, write_deny = True, i_sectors = 900 # 901 # replicate 11 0\<rparr>"]
    by (auto simp: small_fs_def)
qed

text \<open>
  \<^verbatim>\<open>inode_sync\<close> of an inode with a number from 256 on writes the slot of that number modulo 256: another
  inode of the disk is overwritten and its own slot keeps the old contents.
\<close>

theorem inode_sync_wrong_slot:
  assumes t: "table_ok s" and i: "length (i_sectors i) = 13" "256 \<le> unat (i_no i)" "unat (i_no i) < 4096"
  shows "\<exists>s'. inode_sync i 1024 s = Inr ((), s')
    \<and> disk_inode s' (unat (i_no i) mod 256) = i\<lparr>i_open_cnts := 0, write_deny := False\<rparr>
    \<and> disk_inode s' (unat (i_no i)) = disk_inode s (unat (i_no i))"
proof -
  obtain k m where sec: "inode_secs (unat (i_no i) mod 256) = (k, m)" by fastforce
  have lt: "unat (i_no i) mod 256 < 256" by simp
  have m: "512 * m \<le> 1024" using inode_secs_bounds(5) [OF _ sec] lt by simp
  obtain d where d: "inode_sync i 1024 s = Inr ((), s\<lparr>hd_disk := d\<rparr>)"
    "read_secs d (table_lba s) 608 = put (76 * (unat (i_no i) mod 256)) (inode_bytes (pure_inode i)) (table_bytes s)"
    by (rule inode_sync_ok [OF t i(1) sec m])
  have n: "unat (i_no i) mod 256 < 4096" "unat (i_no i) \<noteq> unat (i_no i) mod 256" using lt i(2) by linarith+
  note di = disk_inode_put [OF t n(1), of "pure_inode i" d, unfolded pure_inode_sectors, OF i(1) d(2)]
  show ?thesis using d(1) di(1) di(2) [OF i(3) n(2)] by (intro exI [of _ "s\<lparr>hd_disk := d\<rparr>"]) (simp add: pure_inode_def)
qed

theorem inode_sync_wrong_slot_witness:
  "\<exists>s'. inode_sync (inode_init 300) 1024 small_fs = Inr ((), s') \<and> disk_inode s' 44 = inode_init 300"
  using inode_sync_wrong_slot [OF small_fs_ok(1), of "inode_init 300"] by (auto simp: inode_init_def)

text \<open>
  Closing undoes opening. Whether the inode was open before or not, \<^verbatim>\<open>inode_open\<close> gives a structure with its
  number that has one more open than before, the other open inodes unchanged, and the
  \<^verbatim>\<open>inode_close\<close> that follows leaves exactly the open inodes there were, in the same order and with the same counts.
\<close>

theorem inode_open_close:
  assumes t: "table_ok s" and o: "opens_ok L s" and no: "unat no < 4096" and n: "i_no (disk_inode s (unat no)) = no"
    and h: "served h (inode_open_calls no @ [Put True 0]) L [] (heap s)"
  shows "\<exists>p s1 s2 i. inode_open h no s = Inr (p, s1) \<and> inodes s1 p = Some i \<and> i_no i = no
    \<and> i_open_cnts i = (case inodes s p of None \<Rightarrow> 1 | Some j \<Rightarrow> i_open_cnts j + 1)
    \<and> (\<forall>q. q \<noteq> p \<longrightarrow> inodes s1 q = inodes s q)
    \<and> inode_close h p s1 = Inr ((), s2) \<and> inodes s2 = inodes s
    \<and> open_inodes (cur_part s2) = open_inodes (cur_part s)"
proof (cases "\<exists>p\<in>set (open_inodes (cur_part s)). \<exists>i. inodes s p = Some i \<and> i_no i = no")
  case True
  then obtain p i where p: "p \<in> set (open_inodes (cur_part s))" "inodes s p = Some i" "i_no i = no" by blast
  let ?s1 = "s\<lparr>inodes := (inodes s)(p \<mapsto> i\<lparr>i_open_cnts := i_open_cnts i + 1\<rparr>)\<rparr>"
  have c: "i_open_cnts i \<noteq> 0" using o p by (auto simp: opens_ok_def)
  have "(inodes s)(p \<mapsto> i) = inodes s" using p(2) by auto
  then have "inode_close h p ?s1 = Inr ((), s)"
    using close_shared [of ?s1 p "i\<lparr>i_open_cnts := i_open_cnts i + 1\<rparr>" h] c by simp
  then show ?thesis
    using open_found [OF o p(1,2), of h] p by (intro exI [of _ p] exI [of _ ?s1] exI [of _ s]) auto
next
  case False
  then have new: "\<forall>p\<in>set (open_inodes (cur_part s)). \<forall>i. inodes s p = Some i \<longrightarrow> i_no i \<noteq> no" by blast
  obtain p k where p: "inode_open h no s = Inr (p, s\<lparr>heap := k,
      cur_part := (cur_part s)\<lparr>open_inodes := p # open_inodes (cur_part s)\<rparr>,
      inodes := (inodes s)(p \<mapsto> (disk_inode s (unat no))\<lparr>i_open_cnts := 1\<rparr>)\<rparr>)" (is "_ = Inr (p, ?s1)")
    "p \<notin> L" "served h [Put True 0] L [p] k"
    by (rule open_fresh_ok [OF o t no new h])
  have f: "inodes s p = None" using o p(2) by (auto simp: opens_ok_def)
  have r: "served h [Put True 0] L [p] (heap ?s1)" using p(3) by simp
  obtain k2 where c: "inode_close h p ?s1 = Inr ((), ?s1\<lparr>heap := k2,
      cur_part := (cur_part ?s1)\<lparr>open_inodes := remove1 p (open_inodes (cur_part ?s1))\<rparr>, inodes := (inodes ?s1)(p := None)\<rparr>)"
    by (rule close_last [OF _ _ _ r, of "(disk_inode s (unat no))\<lparr>i_open_cnts := 1\<rparr>"]) auto
  have i: "(inodes s)(p := None) = inodes s" using f by auto
  show ?thesis
    using p(1) c f n i by (intro exI [of _ p] exI [of _ ?s1] exI [of _ "s\<lparr>heap := k2\<rparr>"]) (auto simp: i)
qed

theorem inode_open_close_witness:
  "\<exists>p s1 s2. inode_open sys_heap 0 small_fs = Inr (p, s1) \<and> inode_close sys_heap p s1 = Inr ((), s2)
    \<and> inodes s2 = inodes small_fs"
proof -
  have l: "length (table_bytes small_fs) = 311296" using small_fs_ok(1) by simp
  have ne: "104 + of_nat i \<noteq> (102 :: u32) \<and> 104 + of_nat i \<noteq> (103 :: u32)" if "i < 608" for i
  proof -
    have ne: "unat a \<noteq> unat b \<Longrightarrow> a \<noteq> b" for a b :: u32 by auto
    have u: "unat (104 + of_nat i :: u32) = 104 + i" using that unat_add_nat [of 104 i] by simp
    show ?thesis by (intro conjI; rule ne; subst u; simp)
  qed
  have z: "table_bytes small_fs = concat (map (\<lambda>i. replicate 512 0) [0..<608])"
    unfolding table_bytes_def read_secs_def by (intro arg_cong [of _ _ concat] map_cong) (use ne in \<open>auto simp: small_fs_def small_sb_def table_lba_def\<close>)
  then have "\<forall>x\<in>set (table_bytes small_fs). x = 0" by auto
  then have "table_bytes small_fs ! j = 0" if "j < 4" for j using that l nth_mem [of j "table_bytes small_fs"] by auto
  then have "i_no (disk_inode small_fs (unat (0 :: u32))) = 0" by (simp add: disk_inode_def inode_get_def get32_def)
  moreover have "served sys_heap (inode_open_calls 0 @ [Put True 0]) {} [] (heap small_fs)"
  proof -
    have "heap small_fs = file_heap" by (simp add: small_fs_def)
    moreover have "served sys_heap (inode_open_calls 0 @ [Put True 0]) {} [] file_heap"
      by (rule file_heap_serves; code_simp)
    ultimately show ?thesis by simp
  qed
  ultimately show ?thesis using inode_open_close [OF small_fs_ok, of 0 sys_heap] by auto
qed

end
