(* ===== verification/Direct.thy ===== *)
theory Direct
  imports Fs_State Inode
begin

section \<open>Directories (\<^verbatim>\<open>fileSystem/direct.c\<close>)\<close>

text \<open>
  A directory is a file of entries of 24 bytes, 21 to a block: 16 bytes of name, the inode number, the type.
  An entry is handled as its 24 bytes.
\<close>

subsection \<open>Opening and closing\<close>

definition open_root_dir :: "'k heap_ops \<Rightarrow> (unit, 'k) fsm" where
  "open_root_dir h =
     bindM (getSb root_inode_no) (\<lambda>n. bindM (inode_open h n) (\<lambda>p.
     modM (\<lambda>s. s\<lparr>root_dir := (root_dir s)\<lparr>dir_inode := p, dir_pos := 0\<rparr>\<rparr>)))"

definition dir_open :: "'k heap_ops \<Rightarrow> u32 \<Rightarrow> (dirp, 'k) fsm" where
  "dir_open h inode_no =
     bindM (mallocM h False dir_bytes_cnt) (\<lambda>pdir.
     bindM (inode_open h inode_no) (\<lambda>p.
     ptrM pdir (bindM (modM (\<lambda>s. s\<lparr>dirs := (dirs s)(pdir \<mapsto>
       \<lparr>dir_inode = p, dir_pos = 0, dir_buf = replicate 512 0\<rparr>)\<rparr>)) (\<lambda>_. retM (Dir pdir)))))"

definition dir_close :: "'k heap_ops \<Rightarrow> dirp \<Rightarrow> (unit, 'k) fsm" where
  "dir_close h d = (case d of
     Root_Dir \<Rightarrow> retM ()
   | Dir p \<Rightarrow> bindM (the_inode_of d) (\<lambda>ip. bindM (inode_close h ip) (\<lambda>_.
       bindM (modM (\<lambda>s. s\<lparr>dirs := (dirs s)(p := None)\<rparr>)) (\<lambda>_. freeM h False p))))"

subsection \<open>Finding an entry\<close>

text \<open>The loop over the entries of one block, from the \<open>k\<close>-th on, \<open>cnt\<close> of them: the bytes of the first one
  with the name.\<close>

primrec search_entries :: "buf \<Rightarrow> buf \<Rightarrow> nat \<Rightarrow> u32 \<Rightarrow> nat \<Rightarrow> buf option res" where
  "search_entries b nm n sz 0 = Inr None"
| "search_entries b nm n sz (Suc m) =
     (let k = n - Suc m in
      bindR (strcmp b (24 * k) nm 0) (\<lambda>c.
      if c = 0 then bindR (memcpy (replicate 24 0) 0 b (24 * k) (unat sz)) (\<lambda>e. Inr (Some e))
      else search_entries b nm n sz m))"

fun search_blocks :: "u32 list \<Rightarrow> buf \<Rightarrow> u32 \<Rightarrow> (buf option, 'k) fsm" where
  "search_blocks [] nm sz = retM None"
| "search_blocks (lba # bs) nm sz =
     (if lba = 0 then search_blocks bs nm sz
      else bindM (readM lba 1) (\<lambda>b.
        bindM (liftM (search_entries b nm (unat (SECTOR_SIZE div sz)) sz (unat (SECTOR_SIZE div sz)))) (\<lambda>r.
        case r of Some e \<Rightarrow> retM (Some e) | None \<Rightarrow> search_blocks bs nm sz)))"

text \<open>The result is the entry, if there is one with the name.\<close>

definition search_dir_entry :: "'k heap_ops \<Rightarrow> dirp \<Rightarrow> buf \<Rightarrow> (buf option, 'k) fsm" where
  "search_dir_entry h pdir nm =
     bindM (mallocM h False (48 + 512)) (\<lambda>q.
     if q = 0 then retM None
     else
       bindM (the_inode_of pdir) (\<lambda>ip.
       bindM (get_inode ip) (\<lambda>i.
       bindM (all_blocks_of i) (\<lambda>all_blocks.
       bindM (mallocM h False SECTOR_SIZE) (\<lambda>b.
       bindM (getSb dir_entry_size) (\<lambda>sz.
       bindM (divM SECTOR_SIZE sz) (\<lambda>_.
       if b = 0 \<and> list_ex (\<lambda>x. x \<noteq> 0) all_blocks then failM Bad_Access
       else bindM (search_blocks all_blocks nm sz) (\<lambda>r.
         bindM (freeM h False b) (\<lambda>_. bindM (freeM h False q) (\<lambda>_. retM r))))))))))"

subsection \<open>Adding an entry\<close>

text \<open>\<^verbatim>\<open>create_dir_entry\<close> fills in a structure of zeros: the file type comes as a byte.\<close>

definition create_dir_entry :: "buf \<Rightarrow> nat \<Rightarrow> u32 \<Rightarrow> u8 \<Rightarrow> buf res" where
  "create_dir_entry nm p inode_no file_type =
     bindR (strlen nm p) (\<lambda>n. ASSERT (n \<le> MAX_FILE_NAME_LEN)
       (bindR (memcpy (replicate 16 0) 0 nm p n) (\<lambda>b. Inr (b @ u32_bytes inode_no @ u32_bytes (ucast file_type)))))"

text \<open>The first free entry of a block.\<close>

primrec free_entry :: "buf \<Rightarrow> nat \<Rightarrow> nat \<Rightarrow> nat option res" where
  "free_entry b n 0 = Inr None"
| "free_entry b n (Suc m) =
     bindR (de_type b (n - Suc m)) (\<lambda>t.
     if t = FT_UNKNOWN then Inr (Some (n - Suc m)) else free_entry b n m)"

definition grow_dir :: "u32 \<Rightarrow> (unit, 'k) fsm" where
  "grow_dir ip = bindM (getSb dir_entry_size) (\<lambda>sz. upd_inode ip (\<lambda>i. i\<lparr>i_size := i_size i + sz\<rparr>))"

text \<open>A block allocated and its bitmap written: \<^verbatim>\<open>None\<close> is a failure.\<close>

definition new_block :: "(u32 option, 'k) fsm" where
  "new_block = bindM block_bitmap_alloc (\<lambda>block_lba.
     if block_lba = M1 then retM None
     else bindM (getSb data_start_lba) (\<lambda>d.
       assertM (block_lba - d \<noteq> M1)
         (bindM (bitmap_sync (block_lba - d) BLOCK_BITMAP) (\<lambda>_. retM (Some block_lba)))))"

text \<open>Where the entry goes to a block the directory does not have yet: the block becomes a direct one,
  the first of a new indirect block, or the next of the indirect block.\<close>

definition add_block :: "u32 \<Rightarrow> nat \<Rightarrow> u32 list \<Rightarrow> (u32 list option, 'k) fsm" where
  "add_block ip k all_blocks =
     bindM new_block (\<lambda>r. case r of
       None \<Rightarrow> retM None
     | Some block_lba \<Rightarrow>
         if k < 12 then
           bindM (upd_inode ip (set_sector k block_lba)) (\<lambda>_. retM (Some (all_blocks[k := block_lba])))
         else if k = 12 then
           bindM (upd_inode ip (set_sector 12 block_lba)) (\<lambda>_.
           bindM new_block (\<lambda>r2. case r2 of
             None \<Rightarrow>
               bindM (getSb data_start_lba) (\<lambda>d.
               bindM (set_block_bit (block_lba - d) 0) (\<lambda>_.
               bindM (upd_inode ip (set_sector 12 0)) (\<lambda>_. retM None)))
           | Some b2 \<Rightarrow>
               bindM (writeM block_lba (bytes_of (drop 12 (all_blocks[12 := b2]))) 1) (\<lambda>_.
               retM (Some (all_blocks[12 := b2])))))
         else
           bindM (get_inode ip) (\<lambda>i.
           bindM (writeM (i_sectors i ! 12) (bytes_of (drop 12 (all_blocks[k := block_lba]))) 1) (\<lambda>_.
           retM (Some (all_blocks[k := block_lba])))))"

text \<open>The loop over the blocks from the \<open>(140 - m)\<close>-th on. \<open>len\<close> is the size of the caller's buffer, a block
  at least.\<close>

primrec sync_blocks :: "u32 \<Rightarrow> buf \<Rightarrow> u32 \<Rightarrow> u32 list \<Rightarrow> nat \<Rightarrow> (bool, 'k) fsm" where
  "sync_blocks ip p_de sz all_blocks 0 = retM False"
| "sync_blocks ip p_de sz all_blocks (Suc m) =
     (let k = 140 - Suc m in
      if all_blocks ! k = 0 then
        bindM (add_block ip k all_blocks) (\<lambda>r. case r of
          None \<Rightarrow> retM False
        | Some all1 \<Rightarrow>
            bindM (liftM (memcpy (replicate 512 0) 0 p_de 0 (unat sz))) (\<lambda>b.
            bindM (writeM (all1 ! k) b 1) (\<lambda>_.
            bindM (grow_dir ip) (\<lambda>_. retM True))))
      else
        bindM (readM (all_blocks ! k) 1) (\<lambda>b.
        bindM (liftM (free_entry b (unat (512 div sz)) (unat (512 div sz)))) (\<lambda>r. case r of
          Some e \<Rightarrow>
            bindM (liftM (memcpy b (24 * e) p_de 0 (unat sz))) (\<lambda>b1.
            bindM (writeM (all_blocks ! k) b1 1) (\<lambda>_.
            bindM (grow_dir ip) (\<lambda>_. retM True)))
        | None \<Rightarrow> sync_blocks ip p_de sz all_blocks m)))"

text \<open>\<^verbatim>\<open>sync_dir_entry\<close> takes the direct blocks only: what an indirect block holds it does not look at.\<close>

definition sync_dir_entry :: "dirp \<Rightarrow> buf \<Rightarrow> (bool, 'k) fsm" where
  "sync_dir_entry parent_dir p_de =
     bindM (the_inode_of parent_dir) (\<lambda>ip.
     bindM (get_inode ip) (\<lambda>i.
     bindM (getSb dir_entry_size) (\<lambda>sz.
     bindM (divM (i_size i) sz) (\<lambda>_.
     assertM (i_size i mod sz = 0)
       (sync_blocks ip p_de sz (take 12 (i_sectors i) @ replicate 128 0) 140)))))"

subsection \<open>Deleting an entry\<close>

text \<open>The loop over the entries of one block: whether it is the first block (it has \<^verbatim>\<open>.\<close>), how many entries it has
  besides the two special ones, and which one has the inode number.\<close>

primrec scan_entries :: "buf \<Rightarrow> u32 \<Rightarrow> nat \<Rightarrow> nat \<Rightarrow> bool \<times> nat \<times> nat option \<Rightarrow> (bool \<times> nat \<times> nat option) res" where
  "scan_entries b inode_no n 0 r = Inr r"
| "scan_entries b inode_no n (Suc m) r =
     (let k = n - Suc m in
      case r of (first, cnt, found) \<Rightarrow>
      bindR (de_type b k) (\<lambda>t.
      bindR (if t \<noteq> FT_UNKNOWN then
               bindR (strcmp b (24 * k) [46, 0] 0) (\<lambda>c1.
               if c1 = 0 then Inr (True, cnt, found)
               else bindR (strcmp b (24 * k) [46, 46, 0] 0) (\<lambda>c2.
                 if c2 \<noteq> 0 then
                   bindR (de_no b k) (\<lambda>no.
                   if no = inode_no then ASSERT (found = None) (Inr (first, cnt + 1, Some k))
                   else Inr (first, cnt + 1, found))
                 else Inr r))
             else Inr r) (\<lambda>r1.
      scan_entries b inode_no n m r1)))"

text \<open>The loop that counts the indirect blocks never moves its index on.\<close>

definition count_indirect :: "nat \<Rightarrow> nat \<Rightarrow> (nat, 'k) fsm" where
  "count_indirect indirect_block_idx indirect_blocks =
     (if indirect_block_idx < 140 then failM Diverge else retM indirect_blocks)"

text \<open>What happens to the last entry of a block other than the first: the block is given back.\<close>

definition drop_block :: "u32 \<Rightarrow> nat \<Rightarrow> u32 list \<Rightarrow> (unit, 'k) fsm" where
  "drop_block ip k all_blocks =
     bindM (getSb data_start_lba) (\<lambda>d.
     bindM (set_block_bit (all_blocks ! k - d) 0) (\<lambda>_.
     bindM (bitmap_sync (all_blocks ! k - d) BLOCK_BITMAP) (\<lambda>_.
     if k < 12 then upd_inode ip (set_sector k 0)
     else
       bindM (count_indirect 12 0) (\<lambda>indirect_blocks.
       assertM (indirect_blocks \<ge> 1)
         (bindM (get_inode ip) (\<lambda>i.
          if indirect_blocks > 1 then
            writeM (i_sectors i ! 12) (bytes_of (drop 12 (all_blocks[k := 0]))) 1
          else
            bindM (set_block_bit (i_sectors i ! 12 - d) 0) (\<lambda>_.
            bindM (bitmap_sync (i_sectors i ! 12 - d) BLOCK_BITMAP) (\<lambda>_.
            upd_inode ip (set_sector 12 0)))))))))"

definition delete_at :: "u32 \<Rightarrow> u32 list \<Rightarrow> nat \<Rightarrow> buf \<Rightarrow> u32 \<Rightarrow> bool \<times> nat \<Rightarrow> nat \<Rightarrow> (unit, 'k) fsm" where
  "delete_at ip all_blocks k b sz fc e =
     (case fc of (first, cnt) \<Rightarrow>
      assertM (cnt \<ge> 1)
        (bindM (if cnt = 1 \<and> \<not> first then drop_block ip k all_blocks
                else bindM (liftM (memset b (24 * e) 0 (unat sz))) (\<lambda>b1. writeM (all_blocks ! k) b1 1)) (\<lambda>_.
         bindM (get_inode ip) (\<lambda>i.
         assertM (i_size i \<ge> sz)
           (bindM (upd_inode ip (\<lambda>i. i\<lparr>i_size := i_size i - sz\<rparr>)) (\<lambda>_.
            bindM (get_inode ip) (\<lambda>i1. inode_sync i1 1024)))))))"

primrec delete_blocks :: "u32 \<Rightarrow> u32 list \<Rightarrow> u32 \<Rightarrow> u32 \<Rightarrow> nat \<Rightarrow> (bool, 'k) fsm" where
  "delete_blocks ip all_blocks inode_no sz 0 = retM False"
| "delete_blocks ip all_blocks inode_no sz (Suc m) =
     (let k = 140 - Suc m in
      if all_blocks ! k = 0 then delete_blocks ip all_blocks inode_no sz m
      else
        bindM (readM (all_blocks ! k) 1) (\<lambda>b.
        bindM (liftM (scan_entries b inode_no (unat (SECTOR_SIZE div sz)) (unat (SECTOR_SIZE div sz)) (False, 0, None))) (\<lambda>(first, cnt, found).
        case found of
          None \<Rightarrow> delete_blocks ip all_blocks inode_no sz m
        | Some e \<Rightarrow> bindM (delete_at ip all_blocks k b sz (first, cnt) e) (\<lambda>_. retM True))))"

definition delete_dir_entry :: "dirp \<Rightarrow> u32 \<Rightarrow> (bool, 'k) fsm" where
  "delete_dir_entry pdir inode_no =
     bindM (the_inode_of pdir) (\<lambda>ip.
     bindM (get_inode ip) (\<lambda>i.
     bindM (all_blocks_of i) (\<lambda>all_blocks.
     bindM (getSb dir_entry_size) (\<lambda>sz.
     bindM (divM SECTOR_SIZE sz) (\<lambda>_.
     delete_blocks ip all_blocks inode_no sz 140)))))"

subsection \<open>Reading and removing\<close>

text \<open>The loop over the entries of the block in \<^verbatim>\<open>dir_buf\<close>: it counts those in use up to the position; the
  result is the count and the entry there, if it is in this block.\<close>

primrec read_entries :: "buf \<Rightarrow> u32 \<Rightarrow> u32 \<Rightarrow> nat \<Rightarrow> nat \<Rightarrow> u32 \<Rightarrow> (u32 \<times> nat option) res" where
  "read_entries b pos sz n 0 cur_pos = Inr (cur_pos, None)"
| "read_entries b pos sz n (Suc m) cur_pos =
     bindR (de_type b (n - Suc m)) (\<lambda>t.
     if t \<noteq> 0 then
       (if cur_pos < pos then read_entries b pos sz n m (cur_pos + sz)
        else ASSERT (cur_pos = pos) (Inr (cur_pos, Some (n - Suc m))))
     else read_entries b pos sz n m cur_pos)"

text \<open>The outer loop, as long as the position is inside the directory. Nothing in it stops at the last of the 140
  blocks.\<close>

fun read_blocks :: "dirp \<Rightarrow> u32 list \<Rightarrow> u32 \<Rightarrow> u32 \<Rightarrow> u32 \<Rightarrow> (nat option, 'k) fsm" where
  "read_blocks d [] pos sz cur_pos = failM Bad_Access"
| "read_blocks d (lba # bs) pos sz cur_pos =
     (if lba = 0 then read_blocks d bs pos sz cur_pos
      else
        bindM (readM lba 1) (\<lambda>b.
        bindM (upd_dir d (\<lambda>x. x\<lparr>dir_buf := b\<rparr>)) (\<lambda>_.
        bindM (liftM (read_entries b pos sz (unat (SECTOR_SIZE div sz)) (unat (SECTOR_SIZE div sz)) cur_pos)) (\<lambda>(cur1, found).
        case found of
          Some k \<Rightarrow> bindM (upd_dir d (\<lambda>x. x\<lparr>dir_pos := pos + sz\<rparr>)) (\<lambda>_. retM (Some k))
        | None \<Rightarrow> read_blocks d bs pos sz cur1))))"

text \<open>The result is the place of the entry in \<^verbatim>\<open>dir_buf\<close>.\<close>

definition dir_read :: "dirp \<Rightarrow> (nat option, 'k) fsm" where
  "dir_read d =
     bindM (get_dir d) (\<lambda>x.
     bindM (get_inode (dir_inode x)) (\<lambda>i.
     bindM (all_blocks_of i) (\<lambda>all_blocks.
     bindM (getSb dir_entry_size) (\<lambda>sz.
     bindM (divM SECTOR_SIZE sz) (\<lambda>_.
     if dir_pos x < i_size i then read_blocks d all_blocks (dir_pos x) sz 0 else retM None)))))"

definition dir_is_empty :: "dirp \<Rightarrow> (bool, 'k) fsm" where
  "dir_is_empty d =
     bindM (the_inode_of d) (\<lambda>ip. bindM (get_inode ip) (\<lambda>i.
     bindM (getSb dir_entry_size) (\<lambda>sz. retM (i_size i = sz * 2))))"

definition dir_remove :: "'k heap_ops \<Rightarrow> dirp \<Rightarrow> dirp \<Rightarrow> (u32, 'k) fsm" where
  "dir_remove h parent_dir child_dir =
     bindM (the_inode_of child_dir) (\<lambda>ip. bindM (get_inode ip) (\<lambda>i.
     assertM (list_all (\<lambda>k. i_sectors i ! k = 0) [1..<13])
       (bindM (mallocM h False (SECTOR_SIZE * 2)) (\<lambda>io_buf.
        if io_buf = 0 then retM M1
        else
          bindM (delete_dir_entry parent_dir (i_no i)) (\<lambda>_.
          bindM (inode_release h (i_no i)) (\<lambda>_.
          bindM (freeM h False io_buf) (\<lambda>_. retM 0)))))))"

subsection \<open>A directory as a list of entries\<close>

definition slot :: "buf \<Rightarrow> nat \<Rightarrow> buf" where
  "slot b k = take 24 (drop (24 * k) b)"

definition entry_name :: "buf \<Rightarrow> u8 list" where
  "entry_name e = takeWhile (\<lambda>x. x \<noteq> 0) (take 16 e)"

definition entry_no :: "buf \<Rightarrow> u32" where
  "entry_no e = get32 e 16"

definition entry_type :: "buf \<Rightarrow> u32" where
  "entry_type e = get32 e 20"

definition block_entries :: "buf \<Rightarrow> buf list" where
  "block_entries b = map (slot b) [0..<21]"

definition dir_entries :: "disk \<Rightarrow> u32 list \<Rightarrow> buf list" where
  "dir_entries d lbas = concat (map (\<lambda>l. block_entries (d l)) (filter (\<lambda>l. l \<noteq> 0) lbas))"

text \<open>What a lookup of a name means: the first entry with it.\<close>

definition dir_lookup :: "disk \<Rightarrow> u32 list \<Rightarrow> u8 list \<Rightarrow> buf option" where
  "dir_lookup d lbas nm = find (\<lambda>e. entry_name e = nm) (dir_entries d lbas)"

text \<open>An entry in order: its name ends within its 16 bytes, and a free one has no name.\<close>

definition entry_ok :: "buf \<Rightarrow> bool" where
  "entry_ok e \<longleftrightarrow> length e = 24 \<and> 0 \<in> set (take 16 e) \<and> (entry_type e = 0 \<longrightarrow> entry_name e = [])"

definition block_ok :: "buf \<Rightarrow> bool" where
  "block_ok b \<longleftrightarrow> length b = 512 \<and> (\<forall>k<21. entry_ok (slot b k))"

lemma slot_nth: "k < 21 \<Longrightarrow> length b = 512 \<Longrightarrow> j < 24 \<Longrightarrow> slot b k ! j = b ! (24 * k + j)"
  by (simp add: slot_def)

lemma de_no_slot: "k < 21 \<Longrightarrow> length b = 512 \<Longrightarrow> de_no b k = Inr (entry_no (slot b k))"
  using get32_take_drop [of 16 24 "24 * k" b] by (simp add: de_no_def le32_get entry_no_def slot_def)

lemma de_type_slot: "k < 21 \<Longrightarrow> length b = 512 \<Longrightarrow> de_type b k = Inr (entry_type (slot b k))"
  using get32_take_drop [of 20 24 "24 * k" b] by (simp add: de_type_def le32_get entry_type_def slot_def)

lemma slot_cstr:
  assumes "k < 21" and "block_ok b"
  shows "cstr b (24 * k) (entry_name (slot b k))"
proof -
  let ?e = "take 16 (slot b k)"
  have z: "0 \<in> set ?e" and l: "length b = 512" using assms by (auto simp: block_ok_def entry_ok_def)
  define n where "n = length (takeWhile (\<lambda>x. x \<noteq> 0) ?e)"
  have t: "takeWhile (\<lambda>x. x \<noteq> 0) ?e = take n ?e" unfolding n_def by (rule takeWhile_eq_take)
  have "takeWhile (\<lambda>x. x \<noteq> 0) ?e \<noteq> ?e" 
  proof
    assume "takeWhile (\<lambda>x. x \<noteq> 0) ?e = ?e"
    then show False using z by auto
  qed
  then have n: "n < length ?e" unfolding t by (metis leI take_all)
  then have "?e ! n = 0" using nth_length_takeWhile [of "\<lambda>x. x \<noteq> 0" ?e] unfolding n_def by simp
  note n = n this
  have n16: "n < 16" using n(1) by simp
  have e: "?e = take 16 (drop (24 * k) b)" by (simp add: slot_def)
  have "take (Suc n) (drop (24 * k) b) = take (Suc n) ?e" using n16 by (simp add: e)
  also have "\<dots> = take n ?e @ [0]" using n by (metis take_Suc_conv_app_nth)
  finally have "take (Suc n) (drop (24 * k) b) = take n ?e @ [0]" .
  moreover have "0 \<notin> set (takeWhile (\<lambda>x. x \<noteq> 0) ?e)" by (auto dest: set_takeWhileD)
  moreover have "length (take n ?e) = n" using n(1) by simp
  ultimately show ?thesis by (simp add: cstr_def entry_name_def t)
qed

text \<open>The loops of \<^verbatim>\<open>search_dir_entry\<close> find the first entry with the name.\<close>

lemma search_entries_spec:
  assumes b: "block_ok b" and nm: "cstr p 0 nm" and m: "m \<le> 21"
  shows "search_entries b p 21 24 m = Inr (find (\<lambda>e. entry_name e = nm) (map (slot b) [21 - m..<21]))"
  using m
proof (induction m)
  case (Suc m)
  let ?k = "20 - m"
  have k: "?k < 21" "21 - Suc m = ?k" "Suc ?k = 21 - m" using Suc.prems by simp_all
  obtain r where r: "strcmp b (24 * ?k) p 0 = Inr r" "(r = 0) = (entry_name (slot b ?k) = nm)"
    using strcmp_cstr [OF slot_cstr [OF k(1) b] nm] by blast
  have l: "length b = 512" using b by (simp add: block_ok_def)
  have c: "memcpy (replicate 24 0) 0 b (24 * ?k) 24 = Inr (slot b ?k)"
    using memcpy_eq [of 0 24 "replicate 24 0" "24 * ?k" b] k(1) l by (simp add: slot_def put_def)
  have u: "[?k..<21] = ?k # [21 - m..<21]" using k by (simp add: upt_conv_Cons)
  show ?case using Suc r c by (simp add: Let_def u)
qed simp

lemma find_append: "find P (xs @ ys) = (case find P xs of None \<Rightarrow> find P ys | Some x \<Rightarrow> Some x)"
  by (induction xs) auto

lemma search_blocks_spec:
  assumes nm: "cstr p 0 nm" and b: "\<forall>l\<in>set lbas. l \<noteq> 0 \<longrightarrow> l \<le> max_lba \<and> block_ok (hd_disk s l)"
  shows "search_blocks lbas p 24 s = Inr (dir_lookup (hd_disk s) lbas nm, s)"
  using b
proof (induction lbas)
  case (Cons l lbas)
  show ?case
  proof (cases "l = 0")
    case True
    then show ?thesis using Cons by (simp add: dir_lookup_def dir_entries_def)
  next
    case False
    then have l: "l \<le> max_lba" "block_ok (hd_disk s l)" using Cons.prems by auto
    have n: "unat (SECTOR_SIZE div 24) = 21" by (simp add: fs_consts unat_div)
    have "search_entries (hd_disk s l) p 21 24 21 = Inr (find (\<lambda>e. entry_name e = nm) (block_entries (hd_disk s l)))"
      using search_entries_spec [OF l(2) nm, of 21] by (simp add: block_entries_def)
    then show ?thesis
      using Cons False l n by (auto simp: readM_def dir_lookup_def dir_entries_def find_append split: option.splits)
  qed
qed (simp add: dir_lookup_def dir_entries_def)

text \<open>A directory without an indirect block, in order: its size counts the entries in use.\<close>

definition dir_blocks :: "inode \<Rightarrow> u32 list" where
  "dir_blocks i = take 12 (i_sectors i)"

definition dir_used :: "disk \<Rightarrow> u32 list \<Rightarrow> nat" where
  "dir_used d lbas = length (filter (\<lambda>e. entry_type e \<noteq> 0) (dir_entries d lbas))"

definition dir_ok :: "'k fs \<Rightarrow> inode \<Rightarrow> bool" where
  "dir_ok s i \<longleftrightarrow> length (i_sectors i) = 13 \<and> i_sectors i ! 12 = 0
     \<and> dir_entry_size (sb (cur_part s)) = 24
     \<and> i_size i = of_nat (24 * dir_used (hd_disk s) (dir_blocks i)) \<and> disk_ok (hd_disk s)
     \<and> distinct (filter (\<lambda>l. l \<noteq> 0) (dir_blocks i))
     \<and> (\<forall>l\<in>set (dir_blocks i). l \<noteq> 0 \<longrightarrow> l \<le> max_lba \<and> block_ok (hd_disk s l)
          \<and> unat (l - data_lba s) \<in> used_blocks s
          \<and> (unat l < unat (map_lba s) \<or> unat (map_lba s) + map_sects s \<le> unat l))"

lemma all_blocks_dir: "dir_ok s i \<Longrightarrow> all_blocks_of i s = Inr (dir_blocks i @ replicate 128 0, s)"
  by (simp add: all_blocks_of_def dir_ok_def dir_blocks_def)

lemma lookup_zeros: "dir_lookup d (lbas @ replicate n 0) nm = dir_lookup d lbas nm"
  by (simp add: dir_lookup_def dir_entries_def)
definition dir_ptr :: "'k fs \<Rightarrow> dirp \<Rightarrow> dir option" where
  "dir_ptr s d = (case d of Root_Dir \<Rightarrow> Some (root_dir s) | Dir p \<Rightarrow> dirs s p)"

lemma the_inode_of_ptr: "dir_ptr s d = Some x \<Longrightarrow> the_inode_of d s = Inr (dir_inode x, s)"
  by (cases d) (auto simp: dir_ptr_def the_inode_of_def get_dir_def)

lemma dir_ptr_heap [simp]: "dir_ptr (s\<lparr>heap := k\<rparr>) d = dir_ptr s d"
  by (cases d) (simp_all add: dir_ptr_def)

lemma dir_ok_heap [simp]: "dir_ok (s\<lparr>heap := k\<rparr>) i = dir_ok s i"
  by (simp add: dir_ok_def data_lba_def map_lba_def map_sects_def used_blocks_def)

text \<open>What \<^verbatim>\<open>search_dir_entry\<close> asks of the heap: the numbers of the blocks and a buffer for one of them.\<close>

definition search_calls :: "heap_call list" where
  "search_calls = [Get False 560, Get False 512, Put False 0, Put False 0]"

lemma search_dir_entry_ok:
  assumes d: "dir_ptr s d = Some x" "inodes s (dir_inode x) = Some i" "dir_ok s i"
    and nm: "cstr p 0 nm" and h: "served h (search_calls @ cs) L ps (heap s)"
  obtains k where "search_dir_entry h d p s = Inr (dir_lookup (hd_disk s) (dir_blocks i) nm, s\<lparr>heap := k\<rparr>)"
    and "served h cs L ps k"
proof -
  have h0: "served h (Get False (48 + 512) # Get False SECTOR_SIZE # Put False 0 # Put False 0 # cs) L ps (heap s)"
    using h by (simp add: search_calls_def SECTOR_SIZE_def)
  obtain q k1 where q: "mallocM h False (48 + 512) s = Inr (q, s\<lparr>heap := k1\<rparr>)" "q \<noteq> 0"
    "served h (Get False SECTOR_SIZE # Put False 0 # Put False 0 # cs) L (q # ps) k1" by (rule mallocM_served [OF h0])
  let ?s1 = "s\<lparr>heap := k1\<rparr>"
  have h1: "served h (Get False SECTOR_SIZE # Put False 0 # Put False 0 # cs) L (q # ps) (heap ?s1)" using q(3) by simp
  obtain b k2 where b: "mallocM h False SECTOR_SIZE ?s1 = Inr (b, ?s1\<lparr>heap := k2\<rparr>)" "b \<noteq> 0"
    "served h (Put False 0 # Put False 0 # cs) L (b # q # ps) k2" by (rule mallocM_served [OF h1])
  let ?s2 = "s\<lparr>heap := k2\<rparr>"
  have h2: "served h (Put False 0 # Put False 0 # cs) L (b # q # ps) (heap ?s2)" using b(3) by simp
  obtain k3 where k3: "freeM h False b ?s2 = Inr ((), ?s2\<lparr>heap := k3\<rparr>)" "served h (Put False 0 # cs) L (q # ps) k3"
    by (rule freeM_served [OF h2], rule that) auto
  have h3: "served h (Put False 0 # cs) L (q # ps) (heap (s\<lparr>heap := k3\<rparr>))" using k3(2) by simp
  obtain k4 where k4: "freeM h False q (s\<lparr>heap := k3\<rparr>) = Inr ((), (s\<lparr>heap := k3\<rparr>)\<lparr>heap := k4\<rparr>)" "served h cs L ps k4"
    by (rule freeM_served [OF h3], rule that) auto
  have sb: "dir_entry_size (sb (cur_part s)) = 24" using d(3) by (simp add: dir_ok_def)
  have "\<forall>l\<in>set (dir_blocks i @ replicate 128 0). l \<noteq> 0 \<longrightarrow> l \<le> max_lba \<and> block_ok (hd_disk ?s2 l)"
    using d(3) by (auto simp: dir_ok_def)
  then have sr: "search_blocks (dir_blocks i @ replicate 128 0) p 24 ?s2 = Inr (dir_lookup (hd_disk s) (dir_blocks i) nm, ?s2)"
    using search_blocks_spec [OF nm, of "dir_blocks i @ replicate 128 0" ?s2] by (simp add: lookup_zeros)
  have ab: "all_blocks_of i ?s1 = Inr (dir_blocks i @ replicate 128 0, ?s1)"
    by (rule all_blocks_dir) (use d(3) in simp)
  have "search_dir_entry h d p s = Inr (dir_lookup (hd_disk s) (dir_blocks i) nm, s\<lparr>heap := k4\<rparr>)"
    using d b(1,2) k3(1) k4(1) q(2)
    by (simp add: search_dir_entry_def q(1) [simplified] the_inode_of_ptr [of ?s1 d x] get_inode_def ab getSb_def sb divM_def sr)
  then show thesis using k4(2) by (rule that)
qed

subsection \<open>What an added entry changes\<close>

lemma find_none_names: "nm \<noteq> [] \<Longrightarrow> \<forall>e\<in>set zs. entry_name e = [] \<Longrightarrow> find (\<lambda>e. entry_name e = nm) zs = None"
  by (auto simp: find_None_iff)

lemma lookup_insert:
  assumes z: "\<forall>y\<in>set (Z @ Z1 @ Z2). entry_name y = []" and n: "nm \<noteq> []"
    and a: "find (\<lambda>y. entry_name y = entry_name e) A = None"
  shows "find (\<lambda>y. entry_name y = nm) (A @ (Z1 @ e # Z2) @ B)
    = (if nm = entry_name e then Some e else find (\<lambda>y. entry_name y = nm) (A @ Z @ B))"
proof -
  have "find (\<lambda>y. entry_name y = nm) Z = None" "find (\<lambda>y. entry_name y = nm) Z1 = None" "find (\<lambda>y. entry_name y = nm) Z2 = None"
    using z n by (auto intro: find_none_names)
  then show ?thesis using a by (auto simp: find_append split: option.splits)
qed

lemma slot_put_same: "k < 21 \<Longrightarrow> length b = 512 \<Longrightarrow> length e = 24 \<Longrightarrow> slot (put (24 * k) e b) k = e"
  using take_drop_put [of "24 * k" e b] by (simp add: slot_def)

lemma slot_put_other:
  assumes "k < 21" "j < 21" "j \<noteq> k" "length b = 512" "length e = 24"
  shows "slot (put (24 * k) e b) j = slot b j"
proof -
  have "24 * j + 24 \<le> 24 * k \<or> 24 * k + 24 \<le> 24 * j" using assms(3) by arith
  then show ?thesis using take_drop_put_other [of "24 * k" e b "24 * j" 24] assms by (simp add: slot_def)
qed

lemma block_entries_split:
  assumes "k < 21"
  shows "block_entries b = map (slot b) [0..<k] @ slot b k # map (slot b) [Suc k..<21]"
proof -
  have "[0..<21] = [0..<k] @ k # [Suc k..<21]" using assms by (metis less_imp_add_positive upt_add_eq_append upt_conv_Cons zero_le add_0 less_imp_le_nat le_add_diff_inverse)
  then show ?thesis by (simp add: block_entries_def)
qed

lemma block_entries_put:
  assumes "k < 21" "length b = 512" "length e = 24"
  shows "block_entries (put (24 * k) e b) = map (slot b) [0..<k] @ e # map (slot b) [Suc k..<21]"
  unfolding block_entries_split [OF assms(1)] slot_put_same [OF assms]
  using assms by (auto intro!: map_cong slot_put_other)

lemma block_ok_put:
  "block_ok b \<Longrightarrow> k < 21 \<Longrightarrow> entry_ok e \<Longrightarrow> block_ok (put (24 * k) e b)"
proof -
  assume b: "block_ok b" and k: "k < 21" and e: "entry_ok e"
  have l: "length b = 512" "length e = 24" using b e by (simp_all add: block_ok_def entry_ok_def)
  have "entry_ok (slot (put (24 * k) e b) j)" if "j < 21" for j
    using slot_put_same [OF k l] slot_put_other [OF k that _ l] b e that by (cases "j = k") (auto simp: block_ok_def)
  then show ?thesis using l k by (simp add: block_ok_def)
qed

lemma dir_entries_append: "dir_entries d (xs @ ys) = dir_entries d xs @ dir_entries d ys"
  by (simp add: dir_entries_def)

lemma dir_entries_cong: "(\<And>l. l \<in> set lbas \<Longrightarrow> l \<noteq> 0 \<Longrightarrow> d l = d' l) \<Longrightarrow> dir_entries d lbas = dir_entries d' lbas"
  unfolding dir_entries_def by (intro arg_cong [of _ _ concat] map_cong) auto

text \<open>The first free entry of a block.\<close>

lemma free_entry_spec:
  assumes "length b = 512" and "m \<le> 21"
  shows "free_entry b 21 m = Inr (find (\<lambda>k. entry_type (slot b k) = 0) [21 - m..<21])"
  using assms(2)
proof (induction m)
  case (Suc m)
  have k: "20 - m < 21" "Suc (20 - m) = 21 - m" using Suc.prems by simp_all
  then have u: "[20 - m..<21] = (20 - m) # [21 - m..<21]" by (simp add: upt_conv_Cons)
  show ?case using Suc u de_type_slot [OF k(1) assms(1)] by (simp add: FT_UNKNOWN_def)
qed simp

text \<open>Blocks without a free entry are passed over.\<close>

definition full_block :: "buf \<Rightarrow> bool" where
  "full_block b \<longleftrightarrow> (\<forall>k<21. entry_type (slot b k) \<noteq> 0)"

lemma sync_blocks_skip:
  assumes "\<forall>j<K. bs ! j \<noteq> 0 \<and> bs ! j \<le> max_lba \<and> length (hd_disk s (bs ! j)) = 512 \<and> full_block (hd_disk s (bs ! j))"
    and "K \<le> 140"
  shows "sync_blocks ip e 24 bs 140 s = sync_blocks ip e 24 bs (140 - K) s"
  using assms
proof (induction K)
  case (Suc K)
  then have IH: "sync_blocks ip e 24 bs 140 s = sync_blocks ip e 24 bs (140 - K) s" by simp
  have f: "bs ! K \<noteq> 0" "bs ! K \<le> max_lba" "length (hd_disk s (bs ! K)) = 512" "full_block (hd_disk s (bs ! K))"
    using Suc.prems by auto
  have "free_entry (hd_disk s (bs ! K)) 21 21 = Inr None"
    using free_entry_spec [OF f(3), of 21] f(4) by (auto simp: full_block_def find_None_iff)
  moreover have "140 - K = Suc (140 - Suc K)" "140 - Suc (140 - Suc K) = K" using Suc.prems by simp_all
  ultimately show ?case
    unfolding IH using f by (simp add: Let_def readM_def unat_div)
qed simp

lemma length_dir_entries: "length (dir_entries d lbas) \<le> 21 * length lbas"
  by (induction lbas) (auto simp: dir_entries_def block_entries_def)

lemma dir_size:
  assumes "dir_ok s i"
  shows "unat (i_size i) = 24 * dir_used (hd_disk s) (dir_blocks i)" and "unat (i_size i) \<le> 6048" and "i_size i mod 24 = 0"
proof -
  have "dir_used (hd_disk s) (dir_blocks i) \<le> 21 * length (dir_blocks i)"
    unfolding dir_used_def using length_filter_le length_dir_entries le_trans by blast
  also have "\<dots> \<le> 252" by (simp add: dir_blocks_def)
  finally have u: "dir_used (hd_disk s) (dir_blocks i) \<le> 252" .
  have s: "i_size i = of_nat (24 * dir_used (hd_disk s) (dir_blocks i))" using assms unfolding dir_ok_def by blast
  show n: "unat (i_size i) = 24 * dir_used (hd_disk s) (dir_blocks i)"
    unfolding s unat_of_nat by (rule mod_less) (use u in simp)
  show "unat (i_size i) \<le> 6048" using n u by simp
  have "unat (i_size i mod 24) = unat (i_size i) mod 24" by (simp add: unat_mod)
  then show "i_size i mod 24 = 0" using n by (simp add: unat_eq_0)
qed

text \<open>What adding an entry promises.\<close>

definition entry_added :: "'k fs \<Rightarrow> u32 \<Rightarrow> inode \<Rightarrow> buf \<Rightarrow> 'k fs \<Rightarrow> bool" where
  "entry_added s ip i e s' \<longleftrightarrow> (\<exists>i'. inodes s' = (inodes s)(ip \<mapsto> i') \<and> i_size i' = i_size i + 24
     \<and> dir_ok s' i' \<and> map_ok s' \<and> map_synced s'
     \<and> heap s' = heap s \<and> dirs s' = dirs s \<and> root_dir s' = root_dir s
     \<and> (\<forall>nm. nm \<noteq> [] \<longrightarrow> dir_lookup (hd_disk s') (dir_blocks i') nm
          = (if nm = entry_name e then Some e else dir_lookup (hd_disk s) (dir_blocks i) nm)))"

definition unused :: "buf \<Rightarrow> bool" where
  "unused e \<longleftrightarrow> entry_type e = 0 \<and> entry_name e = []"

lemma entry_addedI:
  assumes d: "dir_ok s i" and m: "map_ok s'" "map_synced s'" and e: "entry_name e \<noteq> []" "entry_type e \<noteq> 0"
    and none: "dir_lookup (hd_disk s) (dir_blocks i) (entry_name e) = None"
    and old: "dir_entries (hd_disk s) (dir_blocks i) = A @ Z @ B"
    and new: "dir_entries (hd_disk s') (dir_blocks i') = A @ ([] @ e # Z2) @ B"
    and z: "\<forall>z\<in>set (Z @ [] @ Z2). unused z"
    and i: "i_size i' = i_size i + 24" "length (i_sectors i') = 13" "i_sectors i' ! 12 = 0"
    and sb: "sb (cur_part s') = sb (cur_part s)" and f: "inodes s' = (inodes s)(ip \<mapsto> i')"
    and o: "heap s' = heap s" "dirs s' = dirs s" "root_dir s' = root_dir s"
    and di: "distinct (filter (\<lambda>l. l \<noteq> 0) (dir_blocks i'))"
    and bl: "\<forall>l\<in>set (dir_blocks i'). l \<noteq> 0 \<longrightarrow> l \<le> max_lba \<and> block_ok (hd_disk s' l)
          \<and> unat (l - data_lba s') \<in> used_blocks s'
          \<and> (unat l < unat (map_lba s') \<or> unat (map_lba s') + map_sects s' \<le> unat l)"
  shows "entry_added s ip i e s'"
proof -
  have u0: "filter (\<lambda>e. entry_type e \<noteq> 0) Z = []" "filter (\<lambda>e. entry_type e \<noteq> 0) Z2 = []"
    using z by (auto simp: filter_empty_conv unused_def)
  have u: "dir_used (hd_disk s') (dir_blocks i') = Suc (dir_used (hd_disk s) (dir_blocks i))"
    using u0 e(2) by (simp add: dir_used_def new old)
  have s: "i_size i = of_nat (24 * dir_used (hd_disk s) (dir_blocks i))" using d unfolding dir_ok_def by blast
  have "dir_ok s' i'"
    unfolding dir_ok_def using d m(1) sb i di bl by (simp add: u s dir_ok_def map_ok_def)
  moreover have "dir_lookup (hd_disk s') (dir_blocks i') nm
      = (if nm = entry_name e then Some e else dir_lookup (hd_disk s) (dir_blocks i) nm)" if n: "nm \<noteq> []" for nm
  proof -
    have "find (\<lambda>y. entry_name y = entry_name e) A = None"
      using none by (simp add: dir_lookup_def old find_append split: option.splits)
    then show ?thesis unfolding dir_lookup_def old new
      using z n by (intro lookup_insert) (simp_all add: unused_def)
  qed
  ultimately show ?thesis using m i(1) f o unfolding entry_added_def by blast
qed

lemma dir_entries_at:
  assumes "K < length lbas"
  shows "dir_entries d lbas = dir_entries d (take K lbas) @ dir_entries d [lbas ! K] @ dir_entries d (drop (Suc K) lbas)"
  by (subst id_take_nth_drop [OF assms]) (simp add: dir_entries_append [symmetric] del: append_take_drop_id)

lemma filter_take_drop: "filter P (take K xs) @ filter P (drop K xs) = filter P xs"
  by (metis append_take_drop_id filter_append)

lemma other_blocks:
  assumes "distinct (filter (\<lambda>l. l \<noteq> 0) xs)" and "K < length xs" and "l \<in> set (take K xs) \<union> set (drop (Suc K) xs)"
    and "l \<noteq> 0"
  shows "l \<noteq> xs ! K"
proof -
  have "distinct (filter (\<lambda>l. l \<noteq> 0) (take K xs @ xs ! K # drop (Suc K) xs))"
    using assms(1) by (subst (asm) id_take_nth_drop [OF assms(2)])
  then show ?thesis using assms(3,4) by auto
qed

lemma read_map_cong:
  assumes m: "map_ok s" and d: "\<forall>y. unat (map_lba s) \<le> unat y \<and> unat y < unat (map_lba s) + map_sects s \<longrightarrow> d y = hd_disk s y"
  shows "read_secs d (map_lba s) (map_sects s) = read_secs (hd_disk s) (map_lba s) (map_sects s)"
proof (rule read_secs_cong)
  fix j assume j: "j < map_sects s"
  have "unat (map_lba s) + map_sects s \<le> 163840" using m by (simp add: map_ok_def)
  then have "unat (map_lba s + of_nat j) = unat (map_lba s) + j" using j by (intro unat_add_nat) simp
  then show "d (map_lba s + of_nat j) = hd_disk s (map_lba s + of_nat j)" using d j by simp
qed

text \<open>A free slot of a block that is there.\<close>

lemma add_in_place:
  assumes d: "dir_ok s i" and m: "map_ok s" "map_synced s" and e: "entry_ok e" "entry_name e \<noteq> []" "entry_type e \<noteq> 0"
    and none: "dir_lookup (hd_disk s) (dir_blocks i) (entry_name e) = None"
    and K: "K < 12" "dir_blocks i ! K = l" "l \<noteq> 0" and k: "k < 21" "entry_type (slot (hd_disk s l) k) = 0"
  shows "entry_added s ip i e (s\<lparr>hd_disk := (hd_disk s)(l := put (24 * k) e (hd_disk s l)),
    inodes := (inodes s)(ip \<mapsto> i\<lparr>i_size := i_size i + 24\<rparr>)\<rparr>)"
proof -
  let ?b = "hd_disk s l" and ?B = "dir_blocks i"
  let ?d = "(hd_disk s)(l := put (24 * k) e ?b)" and ?i = "i\<lparr>i_size := i_size i + 24\<rparr>"
  have len: "length ?B = 12" using d by (simp add: dir_ok_def dir_blocks_def)
  have lB: "l \<in> set ?B" using K len by auto
  have bl: "\<forall>l\<in>set ?B. l \<noteq> 0 \<longrightarrow> l \<le> max_lba \<and> block_ok (hd_disk s l) \<and> unat (l - data_lba s) \<in> used_blocks s
      \<and> (unat l < unat (map_lba s) \<or> unat (map_lba s) + map_sects s \<le> unat l)" using d by (simp add: dir_ok_def)
  have b: "block_ok ?b" "length ?b = 512" using bl lB K(3) by (auto simp: block_ok_def)
  have le: "length e = 24" using e(1) by (simp add: entry_ok_def)
  have lp: "length (put (24 * k) e ?b) = 512" using b(2) le k(1) by simp
  have dis: "distinct (filter (\<lambda>l. l \<noteq> 0) ?B)" using d by (simp add: dir_ok_def)
  have oth: "\<forall>y\<in>set (take K ?B) \<union> set (drop (Suc K) ?B). y \<noteq> 0 \<longrightarrow> ?d y = hd_disk s y"
    using other_blocks [OF dis, of K] K len by auto
  let ?s = "s\<lparr>hd_disk := ?d, inodes := (inodes s)(ip \<mapsto> ?i)\<rparr>"
  have eq: "map_lba ?s = map_lba s" "map_sects ?s = map_sects s" "data_lba ?s = data_lba s" "used_blocks ?s = used_blocks s"
    by (simp_all add: map_lba_def map_sects_def data_lba_def used_blocks_def)
  have iB: "dir_blocks ?i = ?B" by (simp add: dir_blocks_def)
  have o: "dir_entries ?d (take K ?B) = dir_entries (hd_disk s) (take K ?B)"
    "dir_entries ?d (drop (Suc K) ?B) = dir_entries (hd_disk s) (drop (Suc K) ?B)"
    using oth by (auto intro!: dir_entries_cong simp del: fun_upd_apply)
  have at: "dir_entries f [l] = block_entries (f l)" for f using K(3) by (simp add: dir_entries_def)
  have lo: "unat l < unat (map_lba s) \<or> unat (map_lba s) + map_sects s \<le> unat l" using bl lB K(3) by blast
  have ms: "map_synced ?s"
    using m(2) read_map_cong [OF m(1), of ?d] lo unfolding map_synced_def eq by auto
  show ?thesis
  proof (rule entry_addedI [OF d _ ms e(2,3) none])
    show "dir_entries (hd_disk s) ?B = (dir_entries (hd_disk s) (take K ?B) @ map (slot ?b) [0..<k]) @ [slot ?b k]
        @ (map (slot ?b) [Suc k..<21] @ dir_entries (hd_disk s) (drop (Suc K) ?B))"
      using dir_entries_at [of K ?B "hd_disk s"] K len block_entries_split [OF k(1), of ?b] by (simp add: at)
    show "dir_entries (hd_disk ?s) (dir_blocks ?i) = (dir_entries (hd_disk s) (take K ?B) @ map (slot ?b) [0..<k]) @ ([] @ e # [])
        @ (map (slot ?b) [Suc k..<21] @ dir_entries (hd_disk s) (drop (Suc K) ?B))"
      using dir_entries_at [of K ?B ?d] K len block_entries_put [OF k(1) b(2) le] by (simp add: at o iB)
    show "map_ok ?s" using m(1) lp by (simp add: map_ok_def map_lba_def map_sects_def data_lba_def disk_ok_def)
    show "\<forall>z\<in>set ([slot ?b k] @ [] @ []). unused z"
      using b(1) k by (auto simp: unused_def block_ok_def entry_ok_def)
    show "\<forall>y\<in>set (dir_blocks ?i). y \<noteq> 0 \<longrightarrow> y \<le> max_lba \<and> block_ok (hd_disk ?s y) \<and> unat (y - data_lba ?s) \<in> used_blocks ?s
      \<and> (unat y < unat (map_lba ?s) \<or> unat (map_lba ?s) + map_sects ?s \<le> unat y)"
      unfolding eq iB using bl block_ok_put [OF b(1) k(1) e(1)] by simp
  qed (use d dis iB in \<open>simp_all add: dir_ok_def\<close>)
qed

text \<open>A block the directory did not have: zeros, with the entry first.\<close>

definition first_entry :: "buf \<Rightarrow> buf" where
  "first_entry e = put 0 e (replicate 512 0)"

lemma slot_zeros: "k < 21 \<Longrightarrow> slot (replicate 512 0) k = replicate 24 0"
  by (simp add: slot_def)

lemma zeros_entry: "entry_type (replicate 24 0) = 0" "entry_name (replicate 24 0) = []" "entry_ok (replicate 24 0)"
  by (auto simp: entry_ok_def entry_type_def entry_name_def get32_def)

lemma block_ok_zeros: "block_ok (replicate 512 0)"
  by (simp add: block_ok_def slot_zeros zeros_entry)

lemma block_entries_first:
  "length e = 24 \<Longrightarrow> block_entries (first_entry e) = [] @ e # replicate 20 (replicate 24 0)"
proof -
  assume e: "length e = 24"
  have "map (slot (replicate 512 0)) [Suc 0..<21] = map (\<lambda>_. replicate 24 0) [Suc 0..<21]"
    by (intro map_cong) (simp_all add: slot_zeros)
  then show ?thesis
    using block_entries_put [of 0 "replicate 512 0" e] e map_replicate_const [of "replicate 24 0 :: buf" "[Suc 0..<21]"]
    by (simp add: first_entry_def)
qed

lemma dir_entries_list_update_other:
  "dir_entries d (take K (xs[K := y])) = dir_entries d (take K xs)"
  "dir_entries d (drop (Suc K) (xs[K := y])) = dir_entries d (drop (Suc K) xs)"
  by simp_all

lemma distinct_update:
  assumes "distinct (filter (\<lambda>l. l \<noteq> 0) xs)" and "K < length xs" and "xs ! K = 0" and "y \<notin> set xs"
  shows "distinct (filter (\<lambda>l. l \<noteq> 0) (xs[K := y]))"
proof -
  have s: "xs = take K xs @ 0 # drop (Suc K) xs" using id_take_nth_drop [OF assms(2)] assms(3) by simp
  have u: "xs[K := y] = take K xs @ y # drop (Suc K) xs" using assms(2) by (rule upd_conv_take_nth_drop)
  have "distinct (filter (\<lambda>l. l \<noteq> 0) (take K xs @ 0 # drop (Suc K) xs))" using assms(1) s by simp
  moreover have "y \<notin> set (take K xs)" "y \<notin> set (drop (Suc K) xs)"
    using assms(4) by (auto dest: in_set_takeD in_set_dropD)
  ultimately show ?thesis unfolding u by auto
qed

lemma add_fresh_block:
  assumes d: "dir_ok s i" and e: "entry_ok e" "entry_name e \<noteq> []" "entry_type e \<noteq> 0"
    and none: "dir_lookup (hd_disk s) (dir_blocks i) (entry_name e) = None"
    and K: "K < 12" "dir_blocks i ! K = 0" and a: "alloc_step s lba (inodes s) s2"
    and lba: "lba \<noteq> 0" "lba \<le> max_lba" "unat (map_lba s) + map_sects s \<le> unat lba"
  shows "entry_added s ip i e (s2\<lparr>hd_disk := (hd_disk s2)(lba := first_entry e),
    inodes := (inodes s)(ip \<mapsto> (set_sector K lba i)\<lparr>i_size := i_size i + 24\<rparr>)\<rparr>)"
proof -
  let ?B = "dir_blocks i" and ?i = "(set_sector K lba i)\<lparr>i_size := i_size i + 24\<rparr>"
  obtain b d2 where s2: "s2 = (set_map b s)\<lparr>inodes := inodes s, hd_disk := d2\<rparr>"
    "\<forall>y. unat y < unat (map_lba s) \<or> unat (map_lba s) + map_sects s \<le> unat y \<longrightarrow> d2 y = hd_disk s y"
    and m: "map_ok s2" "map_synced s2" and nu: "unat (lba - data_lba s) \<notin> used_blocks s"
    and us: "used_blocks s2 = insert (unat (lba - data_lba s)) (used_blocks s)"
    using a by (auto simp: alloc_step_def)
  let ?d = "d2(lba := first_entry e)"
  let ?s = "s2\<lparr>hd_disk := ?d, inodes := (inodes s)(ip \<mapsto> ?i)\<rparr>"
  have hd2: "hd_disk s2 = d2" by (simp add: s2(1))
  have eq: "map_lba ?s = map_lba s" "map_sects ?s = map_sects s" "data_lba ?s = data_lba s" "used_blocks ?s = used_blocks s2"
    "map_lba s2 = map_lba s" "map_sects s2 = map_sects s" "sb (cur_part ?s) = sb (cur_part s)"
    by (simp_all add: map_lba_def map_sects_def data_lba_def used_blocks_def s2(1) set_map_def)
  have len: "length ?B = 12" "length (i_sectors i) = 13" using d by (simp_all add: dir_ok_def dir_blocks_def)
  have bl: "\<forall>l\<in>set ?B. l \<noteq> 0 \<longrightarrow> l \<le> max_lba \<and> block_ok (hd_disk s l) \<and> unat (l - data_lba s) \<in> used_blocks s
      \<and> (unat l < unat (map_lba s) \<or> unat (map_lba s) + map_sects s \<le> unat l)" using d by (simp add: dir_ok_def)
  have nB: "lba \<notin> set ?B" using bl nu lba(1) by auto
  have iB: "dir_blocks ?i = ?B[K := lba]" using K(1) by (simp add: dir_blocks_def set_sector_def take_update_swap)
  have le: "length e = 24" using e(1) by (simp add: entry_ok_def)
  have bf: "block_ok (first_entry e)" unfolding first_entry_def using block_ok_put [OF block_ok_zeros, of 0 e] e(1) by simp
  have old: "?d y = hd_disk s y" if "y \<in> set ?B" "y \<noteq> 0" for y using that bl nB s2(2) by auto
  have o: "dir_entries ?d (take K ?B) = dir_entries (hd_disk s) (take K ?B)"
    "dir_entries ?d (drop (Suc K) ?B) = dir_entries (hd_disk s) (drop (Suc K) ?B)"
    using old by (auto intro!: dir_entries_cong dest: in_set_takeD in_set_dropD simp del: fun_upd_apply)
  have dis: "distinct (filter (\<lambda>l. l \<noteq> 0) ?B)" using d by (simp add: dir_ok_def)
  have ms: "map_synced ?s"
    using m(2) read_map_cong [OF m(1), of ?d] lba(3) unfolding map_synced_def eq hd2 by (auto simp: eq)
  show ?thesis unfolding hd2
  proof (rule entry_addedI [OF d _ ms e(2,3) none])
    show "dir_entries (hd_disk s) ?B = dir_entries (hd_disk s) (take K ?B) @ [] @ dir_entries (hd_disk s) (drop (Suc K) ?B)"
      using dir_entries_at [of K ?B "hd_disk s"] K len by (simp add: dir_entries_def)
    show "dir_entries (hd_disk ?s) (dir_blocks ?i) = dir_entries (hd_disk s) (take K ?B)
        @ ([] @ e # replicate 20 (replicate 24 0)) @ dir_entries (hd_disk s) (drop (Suc K) ?B)"
    proof -
      have one: "dir_entries ?d [lba] = [] @ e # replicate 20 (replicate 24 0)"
        using lba(1) block_entries_first [OF le] by (simp add: dir_entries_def)
      show ?thesis
        using dir_entries_at [of K "?B[K := lba]" ?d] K(1) len(1) by (simp add: iB o one del: fun_upd_apply)
    qed
    show "map_ok ?s" using m(1) bf by (simp add: map_ok_def map_lba_def map_sects_def data_lba_def disk_ok_def block_ok_def hd2)
    show "\<forall>z\<in>set ([] @ [] @ replicate 20 (replicate 24 0)). unused z" by (simp add: unused_def zeros_entry)
    show "distinct (filter (\<lambda>l. l \<noteq> 0) (dir_blocks ?i))" unfolding iB using distinct_update [OF dis _ K(2) nB] K(1) len(1) by simp
    show "\<forall>y\<in>set (dir_blocks ?i). y \<noteq> 0 \<longrightarrow> y \<le> max_lba \<and> block_ok (hd_disk ?s y) \<and> unat (y - data_lba ?s) \<in> used_blocks ?s
      \<and> (unat y < unat (map_lba ?s) \<or> unat (map_lba ?s) + map_sects ?s \<le> unat y)"
    proof (intro ballI impI)
      fix y assume y: "y \<in> set (dir_blocks ?i)" "y \<noteq> 0"
      have "y = lba \<or> y \<in> set ?B" using y(1) set_update_subset_insert [of ?B K lba] unfolding iB by blast
      then show "y \<le> max_lba \<and> block_ok (hd_disk ?s y) \<and> unat (y - data_lba ?s) \<in> used_blocks ?s
          \<and> (unat y < unat (map_lba ?s) \<or> unat (map_lba ?s) + map_sects ?s \<le> unat y)"
        unfolding eq us using bl lba(2,3) bf old [of y] y(2) by (cases "y = lba") auto
    qed
    show "sb (cur_part ?s) = sb (cur_part s)" by (rule eq)
    show "heap ?s = heap s" "dirs ?s = dirs s" "root_dir ?s = root_dir s" by (simp_all add: s2(1) set_map_def)
  qed (use d K(1) len(2) in \<open>simp_all add: dir_ok_def set_sector_def\<close>)
qed

text \<open>\<^verbatim>\<open>sync_dir_entry\<close> adds the entry in the first place there is.\<close>

definition block_room :: "'k fs \<Rightarrow> bool" where
  "block_room s \<longleftrightarrow> used_blocks s \<noteq> {..<block_cap s} \<and> unat (map_lba s) + map_sects s \<le> unat (data_lba s)
     \<and> unat (data_lba s) + block_cap s \<le> 163840"

lemma new_block_ok:
  assumes m: "map_ok s" "map_synced s" and r: "block_room s"
  obtains lba s2 where "new_block s = Inr (Some lba, s2)" and "alloc_step s lba (inodes s) s2"
    and "lba \<noteq> 0" and "lba \<le> max_lba" and "unat (map_lba s) + map_sects s \<le> unat lba"
proof -
  obtain lba s1 where a: "block_bitmap_alloc s = Inr (lba, s1)" "lba \<noteq> M1" "data_lba s1 = data_lba s" "inodes s1 = inodes s"
    "\<forall>f. \<exists>s'. bitmap_sync (lba - data_lba s) BLOCK_BITMAP (s1\<lparr>inodes := f\<rparr>) = Inr ((), s') \<and> alloc_step s lba f s'"
    by (rule alloc_then_sync [OF m]) (use r in \<open>simp_all add: block_room_def\<close>)
  obtain s2 where s2: "bitmap_sync (lba - data_lba s) BLOCK_BITMAP (s1\<lparr>inodes := inodes s\<rparr>) = Inr ((), s2)"
    "alloc_step s lba (inodes s) s2" using a(5) by blast
  have s1: "s1\<lparr>inodes := inodes s\<rparr> = s1" using a(4) by (metis fs.surjective fs.update_convs(4))
  let ?n = "unat (lba - data_lba s)"
  have n: "?n < block_cap s" "block_cap s = 4096 * map_sects s" using s2(2) m(1) by (auto simp: alloc_step_def map_ok_def block_cap_def)
  have "unat (data_lba s + of_nat ?n) = unat (data_lba s) + ?n" using n r by (intro unat_add_nat) (simp add: block_room_def)
  then have u: "unat lba = unat (data_lba s) + ?n" by simp
  have "?n < 163840" using n(1) r by (simp add: block_room_def)
  then have "lba - data_lba s \<noteq> M1" by (auto simp: M1_def unat_m1)
  then have "new_block s = Inr (Some lba, s2)"
    using a(1-3) s2(1) s1 by (simp add: new_block_def getSb_def data_lba_def)
  moreover have "lba \<noteq> 0" "lba \<le> max_lba" "unat (map_lba s) + map_sects s \<le> unat lba"
    using u n r by (auto simp: block_room_def max_lba_def word_le_nat_alt unat_eq_0)
  ultimately show thesis using that s2(2) by blast
qed

lemma sync_at_free_slot:
  assumes K: "K < 12" "bs ! K = l" "l \<noteq> 0" "l \<le> max_lba" and b: "length (hd_disk s l) = 512" "\<not> full_block (hd_disk s l)"
    and e: "length e = 24" and p: "inodes s ip = Some i" and sz: "dir_entry_size (sb (cur_part s)) = 24"
  obtains k where "k < 21" and "entry_type (slot (hd_disk s l) k) = 0"
    and "sync_blocks ip e 24 bs (140 - K) s = Inr (True, s\<lparr>hd_disk := (hd_disk s)(l := put (24 * k) e (hd_disk s l)),
      inodes := (inodes s)(ip \<mapsto> i\<lparr>i_size := i_size i + 24\<rparr>)\<rparr>)"
proof -
  obtain k where k: "find (\<lambda>k. entry_type (slot (hd_disk s l) k) = 0) [0..<21] = Some k"
    using b(2) by (cases "find (\<lambda>k. entry_type (slot (hd_disk s l) k) = 0) [0..<21]") (auto simp: full_block_def find_None_iff)
  then have k21: "k < 21" "entry_type (slot (hd_disk s l) k) = 0" by (auto simp: find_Some_iff)
  have f: "free_entry (hd_disk s l) 21 21 = Inr (Some k)" using free_entry_spec [OF b(1), of 21] k by simp
  have m: "140 - K = Suc (139 - K)" "140 - Suc (139 - K) = K" using K(1) by simp_all
  have c: "memcpy (hd_disk s l) (24 * k) e 0 24 = Inr (put (24 * k) e (hd_disk s l))"
    using memcpy_eq [of "24 * k" 24 "hd_disk s l" 0 e] b(1) e k21(1) by simp
  have lp: "length (put (24 * k) e (hd_disk s l)) = 512" using b(1) e k21(1) by simp
  have "sync_blocks ip e 24 bs (140 - K) s = Inr (True, s\<lparr>hd_disk := (hd_disk s)(l := put (24 * k) e (hd_disk s l)),
      inodes := (inodes s)(ip \<mapsto> i\<lparr>i_size := i_size i + 24\<rparr>)\<rparr>)"
    unfolding m(1) using K m(2) b(1) f c lp p sz
    by (simp add: Let_def readM_def writeM_def unat_div grow_dir_def getSb_def upd_inode_def get_inode_def)
  with k21 show thesis by (rule that)
qed

lemma sync_at_hole:
  assumes K: "K < 12" "bs ! K = 0" "K < length bs" and e: "length e = 24" and p: "inodes s ip = Some i"
    and sz: "dir_entry_size (sb (cur_part s)) = 24"
    and nb: "new_block s = Inr (Some lba, s2)" "alloc_step s lba (inodes s) s2" "lba \<le> max_lba"
  shows "sync_blocks ip e 24 bs (140 - K) s = Inr (True, s2\<lparr>hd_disk := (hd_disk s2)(lba := first_entry e),
    inodes := (inodes s)(ip \<mapsto> (set_sector K lba i)\<lparr>i_size := i_size i + 24\<rparr>)\<rparr>)"
proof -
  have s2: "inodes s2 = inodes s" "sb (cur_part s2) = sb (cur_part s)" using nb(2) by (auto simp: alloc_step_def)
  have c: "memcpy (replicate 512 0) 0 e 0 24 = Inr (first_entry e)"
    using memcpy_eq [of 0 24 "replicate 512 0" 0 e] e by (simp add: first_entry_def)
  have lf: "length (first_entry e) = 512" using e by (simp add: first_entry_def)
  have m: "140 - K = Suc (139 - K)" "140 - Suc (139 - K) = K" using K(1) by simp_all
  show ?thesis
    unfolding m(1) using K m(2) c lf p sz nb(1,3) s2
    by (simp add: Let_def add_block_def writeM_def grow_dir_def getSb_def upd_inode_def get_inode_def set_sector_def)
qed

lemma sync_dir_entry_ok:
  assumes p: "dir_ptr s d = Some x" "inodes s (dir_inode x) = Some i" and d: "dir_ok s i"
    and m: "map_ok s" "map_synced s" "block_room s"
    and e: "entry_ok e" "entry_name e \<noteq> []" "entry_type e \<noteq> 0"
    and none: "dir_lookup (hd_disk s) (dir_blocks i) (entry_name e) = None"
    and place: "\<exists>l\<in>set (dir_blocks i). l = 0 \<or> \<not> full_block (hd_disk s l)"
  obtains s' where "sync_dir_entry d e s = Inr (True, s')" and "entry_added s (dir_inode x) i e s'"
proof -
  let ?B = "dir_blocks i" and ?bs = "dir_blocks i @ replicate 128 0"
  let ?P = "\<lambda>K. K < 12 \<and> (?B ! K = 0 \<or> \<not> full_block (hd_disk s (?B ! K)))"
  have len: "length ?B = 12" and sz: "dir_entry_size (sb (cur_part s)) = 24" and le: "length e = 24"
    using d e(1) by (simp_all add: dir_ok_def dir_blocks_def entry_ok_def)
  have bl: "\<forall>l\<in>set ?B. l \<noteq> 0 \<longrightarrow> l \<le> max_lba \<and> length (hd_disk s l) = 512" using d by (simp add: dir_ok_def block_ok_def)
  have ex: "\<exists>K. ?P K" using place len by (auto simp: in_set_conv_nth)
  define K where "K = (LEAST K. ?P K)"
  have K: "?P K" unfolding K_def using ex by (rule LeastI_ex)
  have at: "?bs ! j = ?B ! j" if "j < 12" for j using that len by (simp add: nth_append)
  have before: "\<forall>j<K. ?bs ! j \<noteq> 0 \<and> ?bs ! j \<le> max_lba \<and> length (hd_disk s (?bs ! j)) = 512 \<and> full_block (hd_disk s (?bs ! j))"
  proof (intro allI impI)
    fix j assume j: "j < K"
    then have "\<not> ?P j" "j < 12" unfolding K_def using not_less_Least K by (fastforce simp: K_def)+
    moreover from this have "?B ! j \<in> set ?B" using len by simp
    ultimately show "?bs ! j \<noteq> 0 \<and> ?bs ! j \<le> max_lba \<and> length (hd_disk s (?bs ! j)) = 512 \<and> full_block (hd_disk s (?bs ! j))"
      using bl by (auto simp: at)
  qed
  have skip: "sync_dir_entry d e s = sync_blocks (dir_inode x) e 24 ?bs (140 - K) s"
    using p d sz dir_size(3) [OF d] sync_blocks_skip [OF before, of "dir_inode x" e] K
    by (simp add: sync_dir_entry_def the_inode_of_ptr get_inode_def getSb_def divM_def dir_blocks_def)
  show thesis
  proof (cases "?B ! K = 0")
    case True
    obtain lba s2 where n: "new_block s = Inr (Some lba, s2)" "alloc_step s lba (inodes s) s2" "lba \<noteq> 0" "lba \<le> max_lba"
      "unat (map_lba s) + map_sects s \<le> unat lba" by (rule new_block_ok [OF m])
    show thesis
      by (rule that [OF _ add_fresh_block [OF d e none _ True n(2-5)]], unfold skip, rule sync_at_hole)
        (use K True at n le p sz len in auto)
  next
    case False
    then have f: "?B ! K \<le> max_lba" "length (hd_disk s (?B ! K)) = 512" using bl K len by (metis nth_mem)+
    obtain k where k: "k < 21" "entry_type (slot (hd_disk s (?B ! K)) k) = 0"
      "sync_blocks (dir_inode x) e 24 ?bs (140 - K) s = Inr (True, s\<lparr>hd_disk := (hd_disk s)(?B ! K := put (24 * k) e (hd_disk s (?B ! K))),
        inodes := (inodes s)(dir_inode x \<mapsto> i\<lparr>i_size := i_size i + 24\<rparr>)\<rparr>)"
      by (rule sync_at_free_slot [of K ?bs "?B ! K" s e "dir_inode x" i]) (use K False f at le p sz in auto)
    show thesis
      using K by (intro that [OF _ add_in_place [OF d m(1,2) e none _ refl False k(1,2)]]) (simp_all add: skip k(3))
  qed
qed

lemma create_dir_entry_ok:
  assumes nm: "cstr b p nm" "length nm < 16" and ft: "nm \<noteq> []" "ft \<noteq> 0"
  obtains e where "create_dir_entry b p no ft = Inr e" and "entry_ok e" and "entry_name e = nm" and "entry_no e = no"
    and "entry_type e = ucast ft" and "entry_type e \<noteq> 0"
proof -
  let ?n = "nm @ replicate (16 - length nm) 0" and ?t = "ucast ft :: u32"
  let ?e = "?n @ u32_bytes no @ u32_bytes ?t"
  have z: "0 \<notin> set nm" using nm(1) by (rule cstr_no_zero)
  have tk: "take (length nm) (drop p b) = nm"
    using cstr_length [OF nm(1)] cstr_nth [OF nm(1)] by (intro nth_equalityI) auto
  have "memcpy (replicate 16 0) 0 b p (length nm) = Inr ?n"
    using memcpy_eq [of 0 "length nm" "replicate 16 0" p b] nm(2) cstr_length [OF nm(1)] by (simp add: tk put_def)
  then have c: "create_dir_entry b p no ft = Inr ?e"
    using nm by (simp add: create_dir_entry_def strlen_cstr MAX_FILE_NAME_LEN_def)
  have n16: "length ?n = 16" using nm(2) by simp
  have tw: "takeWhile (\<lambda>x. x \<noteq> 0) ?n = nm"
  proof -
    have "takeWhile (\<lambda>x. x \<noteq> 0) ?n = nm @ takeWhile (\<lambda>x. x \<noteq> 0) (replicate (16 - length nm) 0)"
      using z by (intro takeWhile_append2) auto
    then show ?thesis by (cases "16 - length nm") simp_all
  qed
  have t16: "take 16 ?e = ?n" using n16 by (metis append_eq_conv_conj)
  have name: "entry_name ?e = nm" unfolding entry_name_def t16 by (rule tw)
  have no: "entry_no ?e = no"
    using get32_append [of ?n "u32_bytes no @ u32_bytes ?t" 0] n16 by (simp add: entry_no_def)
  have ty: "entry_type ?e = ?t"
    using get32_append [of "?n @ u32_bytes no" "u32_bytes ?t @ []" 0] n16 by (simp add: entry_type_def del: append_Nil2) simp
  have nz: "?t \<noteq> 0" using ft(2) unat_ucast_u8 [of ft] by (metis unat_0 unat_eq_zero)
  have "entry_ok ?e" unfolding entry_ok_def t16 using n16 ty nz nm(2) by auto
  then show thesis using that c name no ty nz by metis
qed

subsection \<open>The properties\<close>

text \<open>
  C32. \<^verbatim>\<open>search_dir_entry\<close> computes the lookup: on a directory in order it gives the first entry with the name
  among its blocks, or nothing when there is none, and it changes only the heap, which serves its four calls.
\<close>

theorem search_dir_entry_is_lookup:
  assumes "dir_ptr s d = Some x" "inodes s (dir_inode x) = Some i" "dir_ok s i" and "cstr p 0 nm"
    and h: "served h search_calls L [] (heap s)"
  shows "\<exists>k. search_dir_entry h d p s = Inr (find (\<lambda>e. entry_name e = nm) (dir_entries (hd_disk s) (dir_blocks i)), s\<lparr>heap := k\<rparr>)"
proof -
  have h': "served h (search_calls @ []) L [] (heap s)" using h by simp
  obtain k where "search_dir_entry h d p s = Inr (dir_lookup (hd_disk s) (dir_blocks i) nm, s\<lparr>heap := k\<rparr>)"
    by (rule search_dir_entry_ok [OF assms(1-4) h'])
  then show ?thesis by (auto simp: dir_lookup_def)
qed


text \<open>An empty directory on the small file system.\<close>

definition dir_fs :: "kmem fs" where
  "dir_fs = small_fs\<lparr>inodes := [50 \<mapsto> inode_init 0], root_dir := \<lparr>dir_inode = 50, dir_pos = 0, dir_buf = replicate 512 0\<rparr>\<rparr>"

lemma dir_fs_ok: "dir_ptr dir_fs Root_Dir = Some \<lparr>dir_inode = 50, dir_pos = 0, dir_buf = replicate 512 0\<rparr>"
  "inodes dir_fs 50 = Some (inode_init 0)" "dir_ok dir_fs (inode_init 0)" "map_ok dir_fs" "map_synced dir_fs" "block_room dir_fs"
  "served sys_heap search_calls {} [] (heap dir_fs)"
proof -
  show "dir_ptr dir_fs Root_Dir = Some \<lparr>dir_inode = 50, dir_pos = 0, dir_buf = replicate 512 0\<rparr>"
    by (simp add: dir_ptr_def dir_fs_def)
  show "inodes dir_fs 50 = Some (inode_init 0)" by (simp add: dir_fs_def)
  show "dir_ok dir_fs (inode_init 0)"
    by (simp add: dir_ok_def dir_fs_def inode_init_def small_fs_def small_sb_def dir_blocks_def dir_used_def dir_entries_def disk_ok_def)
  show "map_ok dir_fs"
    by (simp add: map_ok_def dir_fs_def small_fs_def small_sb_def small_map_def bitmap_ok_def bit_cnt_def map_sects_def map_lba_def
        data_lba_def disk_ok_def)
  show "map_synced dir_fs"
    by (simp add: map_synced_def dir_fs_def small_fs_def small_sb_def small_map_def map_sects_def map_lba_def read_secs_def)
  have "5 \<in> {..<block_cap dir_fs}" "5 \<notin> used_blocks dir_fs"
    by (simp_all add: block_cap_def used_blocks_def used_bits_def bit_at_def bit_cnt_def dir_fs_def small_fs_def small_map_def)
  then have "used_blocks dir_fs \<noteq> {..<block_cap dir_fs}" by blast
  then show "block_room dir_fs"
    by (simp add: block_room_def dir_fs_def small_fs_def small_sb_def small_map_def block_cap_def bit_cnt_def map_sects_def map_lba_def data_lba_def)
  have "served sys_heap search_calls {} [] file_heap" by (rule file_heap_serves; code_simp)
  then show "served sys_heap search_calls {} [] (heap dir_fs)" by (simp add: dir_fs_def small_fs_def)
qed

theorem search_dir_entry_is_lookup_witness:
  "\<exists>k. search_dir_entry sys_heap Root_Dir [97, 0] dir_fs = Inr (None, dir_fs\<lparr>heap := k\<rparr>)"
  using search_dir_entry_is_lookup [OF dir_fs_ok(1) _ dir_fs_ok(3) _ dir_fs_ok(7), of "[97, 0]" "[97]"] dir_fs_ok(2)
  by (simp add: dir_entries_def dir_blocks_def inode_init_def)


end
