(* ===== verification/File.thy ===== *)
theory File
  imports Fs_State Inode Direct
begin

section \<open>Files (\<^verbatim>\<open>fileSystem/file.c\<close>)\<close>

text \<open>
  The table of open files, and creating, opening, closing, reading and writing a file. A function that
  gives \<^verbatim>\<open>-1\<close> gives \<open>M1\<close>. The array \<^verbatim>\<open>all_blocks\<close> starts with zeros, as \<^verbatim>\<open>sys_malloc\<close> clears what it gives.
\<close>

subsection \<open>The tables\<close>

fun first_free :: "open_file list \<Rightarrow> nat \<Rightarrow> nat option" where
  "first_free [] k = None"
| "first_free (f # fs) k = (if fd_inode f = 0 then Some k else first_free fs (Suc k))"

definition get_free_slot_in_global :: "(u32, 'k) fsm" where
  "get_free_slot_in_global =
     bindM (getM file_table) (\<lambda>t.
     case first_free (drop 3 t) 3 of None \<Rightarrow> retM M1 | Some k \<Rightarrow> retM (of_nat k))"

fun first_unused :: "u32 list \<Rightarrow> nat \<Rightarrow> nat option" where
  "first_unused [] k = None"
| "first_unused (f # fs) k = (if f = M1 then Some k else first_unused fs (Suc k))"

definition pcb_fd_install :: "u32 \<Rightarrow> (u32, 'k) fsm" where
  "pcb_fd_install global_fd_idx =
     bindM (getM (fd_table \<circ> cur_task)) (\<lambda>t.
     case first_unused (drop 3 t) 3 of
       None \<Rightarrow> retM M1
     | Some k \<Rightarrow>
         bindM (modM (\<lambda>s. s\<lparr>cur_task := (cur_task s)\<lparr>fd_table := t[k := global_fd_idx]\<rparr>\<rparr>)) (\<lambda>_. retM (of_nat k)))"

definition set_file :: "nat \<Rightarrow> open_file \<Rightarrow> (unit, 'k) fsm" where
  "set_file k f = bindM (getM file_table) (\<lambda>t. bindM (liftM (wr t k f)) (\<lambda>t'. modM (\<lambda>s. s\<lparr>file_table := t'\<rparr>)))"

definition get_file :: "nat \<Rightarrow> (open_file, 'k) fsm" where
  "get_file k = bindM (getM file_table) (\<lambda>t. liftM (rd t k))"

definition no_file :: open_file where
  "no_file = \<lparr>fd_pos = 0, fd_flag = 0, fd_inode = 0\<rparr>"

subsection \<open>Creating, opening, closing\<close>

text \<open>The undoing of \<^verbatim>\<open>file_create\<close> from a given step on.\<close>

definition create_rollback :: "'k heap_ops \<Rightarrow> nat \<Rightarrow> nat \<Rightarrow> u32 \<Rightarrow> u32 \<Rightarrow> u32 \<Rightarrow> (u32, 'k) fsm" where
  "create_rollback h step fd_idx p inode_no io_buf =
     bindM (if step = 3 then set_file fd_idx no_file else retM ()) (\<lambda>_.
     bindM (if step \<ge> 2 then bindM (modM (\<lambda>s. s\<lparr>inodes := (inodes s)(p := None)\<rparr>)) (\<lambda>_. freeM h False p) else retM ()) (\<lambda>_.
     bindM (set_inode_bit inode_no 0) (\<lambda>_.
     bindM (freeM h False io_buf) (\<lambda>_. retM M1))))"

text \<open>What follows once the new entry is in the directory.\<close>

definition create_finish :: "'k heap_ops \<Rightarrow> dirp \<Rightarrow> u32 \<Rightarrow> u32 \<Rightarrow> u32 \<Rightarrow> u32 \<Rightarrow> (u32, 'k) fsm" where
  "create_finish h parent_dir fd_idx p inode_no io_buf =
     bindM (the_inode_of parent_dir) (\<lambda>ip. bindM (get_inode ip) (\<lambda>pi.
     bindM (inode_sync pi 1024) (\<lambda>_.
     bindM (get_inode p) (\<lambda>i. bindM (inode_sync i 1024) (\<lambda>_.
     bindM (bitmap_sync inode_no INODE_BITMAP) (\<lambda>_.
     bindM (push_open p) (\<lambda>_.
     bindM (upd_inode p (\<lambda>i. i\<lparr>i_open_cnts := 1\<rparr>)) (\<lambda>_.
     bindM (freeM h False io_buf) (\<lambda>_. pcb_fd_install fd_idx)))))))))"

text \<open>The name is given by a buffer and the place in it.\<close>

definition file_create :: "'k heap_ops \<Rightarrow> dirp \<Rightarrow> buf \<Rightarrow> nat \<Rightarrow> u8 \<Rightarrow> (u32, 'k) fsm" where
  "file_create h parent_dir filename fp flag =
     bindM (mallocM h False 1024) (\<lambda>io_buf.
     if io_buf = 0 then retM M1
     else bindM inode_bitmap_alloc (\<lambda>inode_no.
     if inode_no = M1 then retM M1
     else bindM (mallocM h False 76) (\<lambda>p.
     if p = 0 then create_rollback h 1 0 p inode_no io_buf
     else bindM (modM (\<lambda>s. s\<lparr>inodes := (inodes s)(p \<mapsto> inode_init inode_no)\<rparr>)) (\<lambda>_.
     bindM get_free_slot_in_global (\<lambda>fd_idx.
     if fd_idx = M1 then create_rollback h 2 0 p inode_no io_buf
     else bindM (set_file (unat fd_idx) \<lparr>fd_pos = 0, fd_flag = ucast flag, fd_inode = p\<rparr>) (\<lambda>_.
     bindM (liftM (create_dir_entry filename fp inode_no 1)) (\<lambda>new_dir_entry.
     bindM (sync_dir_entry parent_dir new_dir_entry) (\<lambda>synced.
     if \<not> synced then create_rollback h 3 (unat fd_idx) p inode_no io_buf
     else create_finish h parent_dir fd_idx p inode_no io_buf))))))))"

definition file_open :: "'k heap_ops \<Rightarrow> u32 \<Rightarrow> u8 \<Rightarrow> (u32, 'k) fsm" where
  "file_open h inode_no flag =
     bindM get_free_slot_in_global (\<lambda>fd_idx.
     if fd_idx = M1 then retM M1
     else bindM (inode_open h inode_no) (\<lambda>p.
     bindM (set_file (unat fd_idx) \<lparr>fd_pos = 0, fd_flag = ucast flag, fd_inode = p\<rparr>) (\<lambda>_.
     if flag AND O_WRONLY \<noteq> 0 \<or> flag AND O_RDWR \<noteq> 0 then
       bindM (get_inode p) (\<lambda>i.
       if \<not> write_deny i then
         bindM (upd_inode p (\<lambda>i. i\<lparr>write_deny := True\<rparr>)) (\<lambda>_. pcb_fd_install fd_idx)
       else retM M1)
     else pcb_fd_install fd_idx)))"

text \<open>The callers pass a place in the table, which is never the null pointer.\<close>

definition file_close :: "'k heap_ops \<Rightarrow> nat \<Rightarrow> (u32, 'k) fsm" where
  "file_close h k =
     bindM (get_file k) (\<lambda>f.
     bindM (upd_inode (fd_inode f) (\<lambda>i. i\<lparr>write_deny := False\<rparr>)) (\<lambda>_.
     bindM (inode_close h (fd_inode f)) (\<lambda>_.
     bindM (set_file k (f\<lparr>fd_inode := 0\<rparr>)) (\<lambda>_. retM 0))))"

subsection \<open>Writing\<close>

text \<open>A block allocated, recorded on the disk.\<close>

definition file_block :: "(u32 option, 'k) fsm" where
  "file_block = bindM block_bitmap_alloc (\<lambda>block_lba.
     if block_lba = M1 then retM None
     else bindM (getSb data_start_lba) (\<lambda>d.
       bindM (bitmap_sync (block_lba - d) BLOCK_BITMAP) (\<lambda>_. retM (Some block_lba))))"

text \<open>The first block of an empty file.\<close>

definition first_block :: "u32 \<Rightarrow> (bool, 'k) fsm" where
  "first_block ip =
     bindM (get_inode ip) (\<lambda>i.
     if i_sectors i ! 0 \<noteq> 0 then retM True
     else bindM block_bitmap_alloc (\<lambda>block_lba.
       if block_lba = M1 then retM False
       else bindM (upd_inode ip (set_sector 0 block_lba)) (\<lambda>_.
         bindM (getSb data_start_lba) (\<lambda>d.
         assertM (block_lba - d \<noteq> 0) (bindM (bitmap_sync (block_lba - d) BLOCK_BITMAP) (\<lambda>_. retM True))))))"

text \<open>The loop for direct blocks: the blocks from \<open>k\<close> on, \<open>m\<close> of them.\<close>

primrec add_direct :: "u32 \<Rightarrow> nat \<Rightarrow> nat \<Rightarrow> u32 list \<Rightarrow> (u32 list option, 'k) fsm" where
  "add_direct ip k 0 all_blocks = retM (Some all_blocks)"
| "add_direct ip k (Suc m) all_blocks =
     bindM block_bitmap_alloc (\<lambda>block_lba.
     if block_lba = M1 then retM None
     else bindM (get_inode ip) (\<lambda>i.
       assertM (i_sectors i ! k = 0)
         (bindM (upd_inode ip (set_sector k block_lba)) (\<lambda>_.
          bindM (getSb data_start_lba) (\<lambda>d.
          bindM (bitmap_sync (block_lba - d) BLOCK_BITMAP) (\<lambda>_.
          add_direct ip (Suc k) m (all_blocks[k := block_lba])))))))"

text \<open>The loop across the border between direct and indirect blocks.\<close>

primrec add_across :: "u32 \<Rightarrow> nat \<Rightarrow> nat \<Rightarrow> u32 list \<Rightarrow> (u32 list option, 'k) fsm" where
  "add_across ip k 0 all_blocks = retM (Some all_blocks)"
| "add_across ip k (Suc m) all_blocks =
     bindM block_bitmap_alloc (\<lambda>block_lba.
     if block_lba = M1 then retM None
     else
       bindM (if k < 12 then
                bindM (get_inode ip) (\<lambda>i. assertM (i_sectors i ! k = 0) (upd_inode ip (set_sector k block_lba)))
              else retM ()) (\<lambda>_.
       bindM (getSb data_start_lba) (\<lambda>d.
       bindM (bitmap_sync (block_lba - d) BLOCK_BITMAP) (\<lambda>_.
       add_across ip (Suc k) m (all_blocks[k := block_lba])))))"

text \<open>The loop for a file that already has an indirect block does not move its index: it takes blocks until there is none
  left. \<open>n\<close> bounds the number of rounds by the number of blocks there are; a round more than that is never
  finished.\<close>

primrec add_indirect :: "nat \<Rightarrow> nat \<Rightarrow> nat \<Rightarrow> u32 list \<Rightarrow> (u32 list option, 'k) fsm" where
  "add_indirect 0 k will_use all_blocks = (if k < will_use then failM Diverge else retM (Some all_blocks))"
| "add_indirect (Suc n) k will_use all_blocks =
     (if k < will_use then
        bindM file_block (\<lambda>r. case r of
          None \<Rightarrow> retM None
        | Some block_lba \<Rightarrow> add_indirect n k will_use (all_blocks[k := block_lba]))
      else retM (Some all_blocks))"

text \<open>The array of blocks that the write will use, with those it has to add, in the four cases: nothing to add; direct
  blocks only; across the border, where the array of the direct blocks is read at the index of the last
  block; indirect blocks only.\<close>

definition blocks_same :: "inode \<Rightarrow> nat \<Rightarrow> nat \<Rightarrow> (u32 list option, 'k) fsm" where
  "blocks_same i has_used will_use =
     (if will_use \<le> 12 then
        bindM (liftM (rd (i_sectors i) (has_used - 1))) (\<lambda>b. retM (Some ((replicate 140 0)[has_used - 1 := b])))
      else assertM (i_sectors i ! 12 \<noteq> 0)
        (bindM (readM (i_sectors i ! 12) 1) (\<lambda>b. retM (Some (replicate 12 0 @ words_at b 0 128)))))"

definition blocks_direct :: "u32 \<Rightarrow> inode \<Rightarrow> nat \<Rightarrow> nat \<Rightarrow> (u32 list option, 'k) fsm" where
  "blocks_direct ip i has_used will_use =
     bindM (liftM (rd (i_sectors i) (has_used - 1))) (\<lambda>b. assertM (b \<noteq> 0)
       (add_direct ip has_used (will_use - has_used) ((replicate 140 0)[has_used - 1 := b])))"

definition blocks_across :: "u32 \<Rightarrow> inode \<Rightarrow> nat \<Rightarrow> nat \<Rightarrow> (u32 list option, 'k) fsm" where
  "blocks_across ip i has_used will_use =
     bindM (liftM (rd (i_sectors i) (will_use - 1))) (\<lambda>b.
     bindM block_bitmap_alloc (\<lambda>block_lba.
     if block_lba = M1 then retM None
     else assertM (i_sectors i ! 12 = 0)
       (bindM (upd_inode ip (set_sector 12 block_lba)) (\<lambda>_.
        bindM (add_across ip has_used (will_use - has_used) ((replicate 140 0)[will_use - 1 := b])) (\<lambda>r. case r of
          None \<Rightarrow> retM None
        | Some all_blocks \<Rightarrow>
            bindM (writeM block_lba (bytes_of (drop 12 all_blocks)) 1) (\<lambda>_. retM (Some all_blocks)))))))"

definition blocks_indirect :: "inode \<Rightarrow> nat \<Rightarrow> nat \<Rightarrow> (u32 list option, 'k) fsm" where
  "blocks_indirect i has_used will_use =
     assertM (i_sectors i ! 12 \<noteq> 0)
       (bindM (readM (i_sectors i ! 12) 1) (\<lambda>b.
        bindM (getM (\<lambda>s. 8 * length (bits (block_bitmap (cur_part s))))) (\<lambda>n.
        bindM (add_indirect (Suc n) has_used will_use (replicate 12 0 @ words_at b 0 128)) (\<lambda>r. case r of
          None \<Rightarrow> retM None
        | Some all_blocks \<Rightarrow>
            bindM (writeM (i_sectors i ! 12) (bytes_of (drop 12 all_blocks)) 1) (\<lambda>_. retM (Some all_blocks))))))"

definition write_blocks :: "u32 \<Rightarrow> nat \<Rightarrow> nat \<Rightarrow> (u32 list option, 'k) fsm" where
  "write_blocks ip has_used will_use =
     bindM (get_inode ip) (\<lambda>i.
     if will_use = has_used then blocks_same i has_used will_use
     else if will_use \<le> 12 then blocks_direct ip i has_used will_use
     else if has_used \<le> 12 then blocks_across ip i has_used will_use
     else blocks_indirect i has_used will_use)"

text \<open>The loop that moves the bytes, block by block at the end of the file. Only the first block is read before it is
  written.\<close>

function write_chunks :: "u32 \<Rightarrow> nat \<Rightarrow> u32 list \<Rightarrow> buf \<Rightarrow> nat \<Rightarrow> nat \<Rightarrow> bool \<Rightarrow> (nat, 'k) fsm" where
  "write_chunks ip k all_blocks src count bytes_written first =
     (if bytes_written < count then
        bindM (get_inode ip) (\<lambda>i.
        let sec_idx = unat (i_size i) div 512; sec_off_bytes = unat (i_size i) mod 512;
            sec_left_bytes = 512 - sec_off_bytes;
            chunk_size = (if count - bytes_written < sec_left_bytes then count - bytes_written else sec_left_bytes) in
        bindM (liftM (rd all_blocks sec_idx)) (\<lambda>sec_lba.
        bindM (if first then readM sec_lba 1 else retM (replicate 512 0)) (\<lambda>b.
        bindM (liftM (memcpy b sec_off_bytes src bytes_written chunk_size)) (\<lambda>b1.
        bindM (writeM sec_lba b1 1) (\<lambda>_.
        bindM (upd_inode ip (\<lambda>i. i\<lparr>i_size := i_size i + of_nat chunk_size\<rparr>)) (\<lambda>_.
        bindM (get_file k) (\<lambda>f.
        bindM (set_file k (f\<lparr>fd_pos := fd_pos f + of_nat chunk_size\<rparr>)) (\<lambda>_.
        write_chunks ip k all_blocks src count (bytes_written + chunk_size) False))))))))
      else retM bytes_written)"
  by pat_completeness auto
termination
  by (relation "measure (\<lambda>(ip, k, bs, src, count, n, first). count - n)") auto

declare write_chunks.simps [simp del]

text \<open>\<open>k\<close> is the place of the file in the table. The buffer for blocks has 512 bytes.\<close>

definition file_write :: "'k heap_ops \<Rightarrow> nat \<Rightarrow> buf \<Rightarrow> u32 \<Rightarrow> (u32, 'k) fsm" where
  "file_write h k src count =
     bindM (get_file k) (\<lambda>f. bindM (get_inode (fd_inode f)) (\<lambda>i.
     if i_size i + count > BLOCK_SIZE * 140 then retM M1
     else bindM (mallocM h False 512) (\<lambda>io_buf.
     if io_buf = 0 then retM M1
     else bindM (mallocM h False (BLOCK_SIZE + 48)) (\<lambda>q.
     if q = 0 then retM M1
     else bindM (first_block (fd_inode f)) (\<lambda>ok.
     if \<not> ok then retM M1
     else
       let has_used = unat (i_size i) div 512 + 1; will_use = unat (i_size i + count) div 512 + 1 in
       assertM (will_use \<le> 140)
         (bindM (write_blocks (fd_inode f) has_used will_use) (\<lambda>r. case r of
            None \<Rightarrow> retM M1
          | Some all_blocks \<Rightarrow>
              bindM (set_file k (f\<lparr>fd_pos := i_size i - 1\<rparr>)) (\<lambda>_.
              bindM (write_chunks (fd_inode f) k all_blocks src (unat count) 0 True) (\<lambda>n.
              bindM (get_inode (fd_inode f)) (\<lambda>i1. bindM (inode_sync i1 512) (\<lambda>_.
              bindM (freeM h False io_buf) (\<lambda>_. bindM (freeM h False q) (\<lambda>_. retM (of_nat n))))))))))))))"

subsection \<open>Reading\<close>

text \<open>The array of blocks that the read uses, from block \<open>a\<close> to block \<open>z\<close>.\<close>

definition read_blocks_of :: "inode \<Rightarrow> nat \<Rightarrow> nat \<Rightarrow> (u32 list, 'k) fsm" where
  "read_blocks_of i a z =
     (let zeros = replicate 140 0; sect = (\<lambda>k. i_sectors i ! k) in
      if z = a then
        (if z < 12 then retM (zeros[z := sect z])
         else bindM (readM (sect 12) 1) (\<lambda>b. retM (replicate 12 0 @ words_at b 0 128)))
      else if z < 12 then retM (fold (\<lambda>k bs. bs[k := sect k]) [a..<Suc z] zeros)
      else if a < 12 then
        assertM (sect 12 \<noteq> 0) (bindM (readM (sect 12) 1) (\<lambda>b.
          retM (take 12 (fold (\<lambda>k bs. bs[k := sect k]) [a..<12] zeros) @ words_at b 0 128)))
      else
        assertM (sect 12 \<noteq> 0) (bindM (readM (sect 12) 1) (\<lambda>b. retM (replicate 12 0 @ words_at b 0 128))))"

function read_chunks :: "nat \<Rightarrow> u32 list \<Rightarrow> nat \<Rightarrow> nat \<Rightarrow> (buf, 'k) fsm" where
  "read_chunks k all_blocks sz bytes_read =
     (if bytes_read < sz then
        bindM (get_file k) (\<lambda>f.
        let sec_idx = unat (fd_pos f) div 512; sec_off_bytes = unat (fd_pos f) mod 512;
            sec_left_bytes = 512 - sec_off_bytes;
            chunk_size = (if sz - bytes_read < sec_left_bytes then sz - bytes_read else sec_left_bytes) in
        bindM (liftM (rd all_blocks sec_idx)) (\<lambda>sec_lba.
        bindM (readM sec_lba 1) (\<lambda>b.
        bindM (set_file k (f\<lparr>fd_pos := fd_pos f + of_nat chunk_size\<rparr>)) (\<lambda>_.
        bindM (read_chunks k all_blocks sz (bytes_read + chunk_size)) (\<lambda>rest.
        retM (take chunk_size (drop sec_off_bytes b) @ rest))))))
      else retM [])"
  by pat_completeness auto
termination
  by (relation "measure (\<lambda>(k, bs, sz, n). sz - n)") auto

declare read_chunks.simps [simp del]

text \<open>The result is the number and the bytes read; \<open>buf_len\<close> is the size of the caller's buffer.\<close>

definition file_read :: "'k heap_ops \<Rightarrow> nat \<Rightarrow> nat \<Rightarrow> u32 \<Rightarrow> (u32 \<times> buf, 'k) fsm" where
  "file_read h k buf_len count =
     bindM (get_file k) (\<lambda>f. bindM (get_inode (fd_inode f)) (\<lambda>i.
     let sz = (if fd_pos f + count > i_size i then i_size i - fd_pos f else count) in
     if fd_pos f + count > i_size i \<and> sz = 0 then retM (M1, [])
     else bindM (mallocM h False BLOCK_SIZE) (\<lambda>io_buf.
     if io_buf = 0 then retM (M1, [])
     else bindM (mallocM h False (BLOCK_SIZE + 48)) (\<lambda>q.
     if q = 0 then retM (M1, [])
     else
       let a = unat (fd_pos f) div 512; z = unat (fd_pos f + sz) div 512 in
       assertM (a < 139 \<and> z < 139)
         (bindM (read_blocks_of i a z) (\<lambda>all_blocks.
          if buf_len < unat sz then failM Bad_Access
          else bindM (read_chunks k all_blocks (unat sz) 0) (\<lambda>b.
            bindM (freeM h False io_buf) (\<lambda>_. bindM (freeM h False q) (\<lambda>_. retM (sz, b))))))))))"

subsection \<open>A file as a list of bytes\<close>

definition file_blocks :: "inode \<Rightarrow> u32 list" where
  "file_blocks i = takeWhile (\<lambda>l. l \<noteq> 0) (take 12 (i_sectors i))"

definition file_bytes :: "disk \<Rightarrow> inode \<Rightarrow> buf" where
  "file_bytes d i = take (unat (i_size i)) (concat (map d (file_blocks i)))"

definition block_in :: "'k fs \<Rightarrow> u32 \<Rightarrow> bool" where
  "block_in s l \<longleftrightarrow> unat (data_lba s) \<le> unat l \<and> unat l - unat (data_lba s) \<in> used_blocks s"

text \<open>The block bitmap in order and before the data, and the data on the disk.\<close>

definition layout_ok :: "'k fs \<Rightarrow> bool" where
  "layout_ok s \<longleftrightarrow> map_ok s \<and> map_synced s \<and> unat (map_lba s) + map_sects s \<le> unat (data_lba s) \<and> 0 < unat (data_lba s)
     \<and> unat (data_lba s) + block_cap s \<le> 163840"

text \<open>A file without an indirect block, in order: its sectors are those for its size and one byte more, taken from
  the bitmap, all different; an empty file may have none.\<close>

definition file_ok :: "'k fs \<Rightarrow> inode \<Rightarrow> bool" where
  "file_ok s i \<longleftrightarrow> i_sectors i = file_blocks i @ replicate (13 - length (file_blocks i)) 0 \<and> length (file_blocks i) \<le> 12
     \<and> (length (file_blocks i) = unat (i_size i) div 512 + 1 \<or> file_blocks i = [] \<and> i_size i = 0)
     \<and> distinct (file_blocks i) \<and> (\<forall>l\<in>set (file_blocks i). block_in s l)"

subsection \<open>Taking blocks\<close>

definition blocks_taken :: "'k fs \<Rightarrow> u32 list \<Rightarrow> (u32 \<Rightarrow> inode option) \<Rightarrow> 'k fs \<Rightarrow> bool" where
  "blocks_taken s L f s' \<longleftrightarrow> (\<exists>b d. s' = s\<lparr>cur_part := (cur_part s)\<lparr>block_bitmap := b\<rparr>, inodes := f, hd_disk := d\<rparr>
       \<and> (\<forall>y. unat (data_lba s) \<le> unat y \<longrightarrow> d y = hd_disk s y))
     \<and> layout_ok s' \<and> distinct L \<and> (\<forall>l\<in>set L. l \<noteq> 0 \<and> \<not> block_in s l)
     \<and> (\<forall>l. block_in s' l \<longleftrightarrow> block_in s l \<or> l \<in> set L)
     \<and> block_cap s' = block_cap s \<and> card (used_blocks s') = card (used_blocks s) + length L"

lemma blocks_taken_0: "layout_ok s \<Longrightarrow> blocks_taken s [] (inodes s) s"
  unfolding blocks_taken_def by (intro conjI exI [of _ "block_bitmap (cur_part s)"] exI [of _ "hd_disk s"]) auto

lemma blocks_taken_data:
  assumes "blocks_taken s L f s'"
  shows "data_lba s' = data_lba s" "table_lba s' = table_lba s" "inodes s' = f" "heap s' = heap s" "file_table s' = file_table s"
    "layout_ok s'" "sb (cur_part s') = sb (cur_part s)" "start_lba (cur_part s') = start_lba (cur_part s)"
    "part_sec_cnt (cur_part s') = part_sec_cnt (cur_part s)"
  using assms unfolding blocks_taken_def by (auto simp: data_lba_def table_lba_def)

lemma blocks_taken_disk: "blocks_taken s L f s' \<Longrightarrow> unat (data_lba s) \<le> unat y \<Longrightarrow> hd_disk s' y = hd_disk s y"
  unfolding blocks_taken_def by auto

lemma blocks_taken_trans:
  assumes a: "blocks_taken s L f s1" and b: "blocks_taken s1 L' f' s'"
  shows "blocks_taken s (L @ L') f' s'"
proof -
  obtain b1 d1 where s1: "s1 = s\<lparr>cur_part := (cur_part s)\<lparr>block_bitmap := b1\<rparr>, inodes := f, hd_disk := d1\<rparr>"
    "\<forall>y. unat (data_lba s) \<le> unat y \<longrightarrow> d1 y = hd_disk s y" using a unfolding blocks_taken_def by blast
  obtain b2 d2 where s2: "s' = s1\<lparr>cur_part := (cur_part s1)\<lparr>block_bitmap := b2\<rparr>, inodes := f', hd_disk := d2\<rparr>"
    "\<forall>y. unat (data_lba s1) \<le> unat y \<longrightarrow> d2 y = hd_disk s1 y" using b unfolding blocks_taken_def by blast
  have "data_lba s1 = data_lba s" using a by (rule blocks_taken_data)
  then have d: "\<exists>b d. s' = s\<lparr>cur_part := (cur_part s)\<lparr>block_bitmap := b\<rparr>, inodes := f', hd_disk := d\<rparr>
       \<and> (\<forall>y. unat (data_lba s) \<le> unat y \<longrightarrow> d y = hd_disk s y)"
    using s1 s2 by (intro exI [of _ b2] exI [of _ d2]) simp
  show ?thesis unfolding blocks_taken_def
  proof (intro conjI d)
    show "distinct (L @ L')" "\<forall>l\<in>set (L @ L'). l \<noteq> 0 \<and> \<not> block_in s l"
      using a b unfolding blocks_taken_def by auto
    show "\<forall>l. block_in s' l \<longleftrightarrow> block_in s l \<or> l \<in> set (L @ L')"
      using a b unfolding blocks_taken_def by auto
  qed (use a b in \<open>auto simp: blocks_taken_def\<close>)
qed

text \<open>One block, allocated and recorded, with a change of the open inodes between.\<close>

lemma take_one_block:
  assumes l: "layout_ok s" and free: "card (used_blocks s) < block_cap s"
  obtains lba s1 where "block_bitmap_alloc s = Inr (lba, s1)" and "lba \<noteq> M1" and "inodes s1 = inodes s"
    and "data_lba s1 = data_lba s"
    and "\<forall>f. \<exists>s'. bitmap_sync (lba - data_lba s) BLOCK_BITMAP (s1\<lparr>inodes := f\<rparr>) = Inr ((), s') \<and> blocks_taken s [lba] f s'"
proof -
  have m: "map_ok s" "map_synced s" using l by (simp_all add: layout_ok_def)
  have "used_blocks s \<noteq> {..<block_cap s}" using free by (metis card_lessThan less_irrefl)
  then obtain lba s1 where a: "block_bitmap_alloc s = Inr (lba, s1)" "lba \<noteq> M1" "data_lba s1 = data_lba s" "inodes s1 = inodes s"
    "\<forall>f. \<exists>s'. bitmap_sync (lba - data_lba s) BLOCK_BITMAP (s1\<lparr>inodes := f\<rparr>) = Inr ((), s') \<and> alloc_step s lba f s'"
    using alloc_then_sync [OF m] by metis
  have "blocks_taken s [lba] f s'" if st: "alloc_step s lba f s'" for f s'
  proof -
    let ?n = "unat (lba - data_lba s)"
    obtain b d where s': "s' = (set_map b s)\<lparr>inodes := f, hd_disk := d\<rparr>"
      "\<forall>y. unat y < unat (map_lba s) \<or> unat (map_lba s) + map_sects s \<le> unat y \<longrightarrow> d y = hd_disk s y"
      using st unfolding alloc_step_def by blast
    have n: "?n < block_cap s" "?n \<notin> used_blocks s" "used_blocks s' = insert ?n (used_blocks s)" "block_cap s' = block_cap s"
      "map_ok s'" "map_synced s'" using st unfolding alloc_step_def by auto
    have dl: "data_lba s' = data_lba s" "map_lba s' = map_lba s" "map_sects s' = map_sects s"
      by (simp_all add: s'(1) data_lba_def map_lba_def map_sects_def set_map_def)
    have "unat (data_lba s + of_nat ?n) = unat (data_lba s) + ?n"
      using n(1) l by (intro unat_add_nat) (simp add: layout_ok_def)
    then have u: "unat lba = unat (data_lba s) + ?n" by simp
    have fin: "finite (used_blocks s)" by (simp add: used_blocks_def used_bits_def)
    have eq: "y = lba \<longleftrightarrow> unat (data_lba s) \<le> unat y \<and> unat y - unat (data_lba s) = ?n" for y
      using u by (auto simp: word_unat_eq_iff)
    show ?thesis unfolding blocks_taken_def
    proof (intro conjI exI [of _ b] exI [of _ d])
      show "s' = s\<lparr>cur_part := (cur_part s)\<lparr>block_bitmap := b\<rparr>, inodes := f, hd_disk := d\<rparr>" by (simp add: s'(1) set_map_def)
      show "\<forall>y. unat (data_lba s) \<le> unat y \<longrightarrow> d y = hd_disk s y" using s'(2) l by (auto simp: layout_ok_def)
      show "layout_ok s'" using l n dl by (simp add: layout_ok_def)
      show "\<forall>y\<in>set [lba]. y \<noteq> 0 \<and> \<not> block_in s y" using u n(2) l by (auto simp: block_in_def layout_ok_def)
      show "\<forall>y. block_in s' y \<longleftrightarrow> block_in s y \<or> y \<in> set [lba]" using eq by (auto simp: block_in_def dl n(3))
      show "card (used_blocks s') = card (used_blocks s) + length [lba]" using n(2,3) fin by simp
    qed (use n in simp_all)
  qed
  then have "\<forall>f. \<exists>s'. bitmap_sync (lba - data_lba s) BLOCK_BITMAP (s1\<lparr>inodes := f\<rparr>) = Inr ((), s') \<and> blocks_taken s [lba] f s'"
    using a(5) by blast
  then show thesis by (rule that [OF a(1,2,4,3)])
qed

lemma take_and_record:
  assumes l: "layout_ok s" and free: "card (used_blocks s) < block_cap s" and i: "inodes s ip = Some i"
  obtains lba s1 s' where "block_bitmap_alloc s = Inr (lba, s1)" and "lba \<noteq> M1"
    and "upd_inode ip (set_sector k lba) s1 = Inr ((), s1\<lparr>inodes := (inodes s)(ip \<mapsto> set_sector k lba i)\<rparr>)"
    and "inodes s1 = inodes s" and "data_lba s1 = data_lba s"
    and "bitmap_sync (lba - data_lba s) BLOCK_BITMAP (s1\<lparr>inodes := (inodes s)(ip \<mapsto> set_sector k lba i)\<rparr>) = Inr ((), s')"
    and "blocks_taken s [lba] ((inodes s)(ip \<mapsto> set_sector k lba i)) s'"
proof -
  obtain lba s1 where a: "block_bitmap_alloc s = Inr (lba, s1)" "lba \<noteq> M1" "inodes s1 = inodes s" "data_lba s1 = data_lba s"
    "\<forall>f. \<exists>s'. bitmap_sync (lba - data_lba s) BLOCK_BITMAP (s1\<lparr>inodes := f\<rparr>) = Inr ((), s') \<and> blocks_taken s [lba] f s'"
    by (rule take_one_block [OF l free])
  have u: "upd_inode ip (set_sector k lba) s1 = Inr ((), s1\<lparr>inodes := (inodes s)(ip \<mapsto> set_sector k lba i)\<rparr>)"
    using i a(3) by (simp add: upd_inode_def)
  show thesis using a(5) that [OF a(1,2) u a(3,4)] by blast
qed

definition put_sectors :: "nat \<Rightarrow> u32 list \<Rightarrow> inode \<Rightarrow> inode" where
  "put_sectors k L i = i\<lparr>i_sectors := put k L (i_sectors i)\<rparr>"

lemma put_sectors_Cons: "k < length (i_sectors i) \<Longrightarrow> put_sectors k (x # L) i = put_sectors (Suc k) L (set_sector k x i)"
  by (simp add: put_sectors_def set_sector_def put_Cons)

lemma add_direct_ok:
  assumes "layout_ok s" and "card (used_blocks s) + m \<le> block_cap s" and "inodes s ip = Some i"
    and "\<forall>j<m. i_sectors i ! (k + j) = 0" and "k + m \<le> 12" and "length (i_sectors i) = 13" and "length bs = 140"
  shows "\<exists>L s'. length L = m \<and> add_direct ip k m bs s = Inr (Some (put k L bs), s')
    \<and> blocks_taken s L ((inodes s)(ip \<mapsto> put_sectors k L i)) s'"
  using assms
proof (induction m arbitrary: s i k bs)
  case 0
  then have "(inodes s)(ip \<mapsto> put_sectors k [] i) = inodes s" by (auto simp: put_sectors_def)
  then show ?case using blocks_taken_0 [OF 0(1)] by (intro exI [of _ "[]"] exI [of _ s]) (simp del: fun_upd_apply)
next
  case (Suc m)
  have c: "card (used_blocks s) < block_cap s" using Suc.prems(2) by simp
  obtain lba s1 s2 where a: "block_bitmap_alloc s = Inr (lba, s1)" "lba \<noteq> M1"
    "upd_inode ip (set_sector k lba) s1 = Inr ((), s1\<lparr>inodes := (inodes s)(ip \<mapsto> set_sector k lba i)\<rparr>)"
    "inodes s1 = inodes s" "data_lba s1 = data_lba s"
    "bitmap_sync (lba - data_lba s) BLOCK_BITMAP (s1\<lparr>inodes := (inodes s)(ip \<mapsto> set_sector k lba i)\<rparr>) = Inr ((), s2)"
    "blocks_taken s [lba] ((inodes s)(ip \<mapsto> set_sector k lba i)) s2"
    by (rule take_and_record [OF Suc.prems(1) c Suc.prems(3)])
  have z: "i_sectors i ! k = 0" using Suc.prems(4) by (metis add_0_right zero_less_Suc)
  have s2: "layout_ok s2" "inodes s2 = (inodes s)(ip \<mapsto> set_sector k lba i)" using blocks_taken_data [OF a(7)] by simp_all
  have c2: "card (used_blocks s2) + m \<le> block_cap s2" using a(7) Suc.prems(2) by (simp add: blocks_taken_def)
  have z2: "\<forall>j<m. i_sectors (set_sector k lba i) ! (Suc k + j) = 0"
    using Suc.prems(4) by (auto simp: set_sector_def)
  have p: "inodes s2 ip = Some (set_sector k lba i)" "Suc k + m \<le> 12" "length (i_sectors (set_sector k lba i)) = 13"
    "length (bs[k := lba]) = 140" using s2(2) Suc.prems by (simp_all add: set_sector_def)
  obtain L s' where L: "length L = m" "add_direct ip (Suc k) m (bs[k := lba]) s2 = Inr (Some (put (Suc k) L (bs[k := lba])), s')"
    "blocks_taken s2 L ((inodes s2)(ip \<mapsto> put_sectors (Suc k) L (set_sector k lba i))) s'"
    using Suc.IH [OF s2(1) c2 p(1) z2 p(2-4)] by blast
  have "blocks_taken s (lba # L) ((inodes s)(ip \<mapsto> put_sectors k (lba # L) i)) s'"
    using blocks_taken_trans [OF a(7) L(3)] Suc.prems(5,6) by (simp add: s2(2) put_sectors_Cons)
  moreover have "add_direct ip k (Suc m) bs s = Inr (Some (put k (lba # L) bs), s')"
    using Suc.prems(3,5,7) a z L(2) by (simp add: get_inode_def getSb_def data_lba_def put_Cons)
  ultimately show ?case using L(1) by (intro exI [of _ "lba # L"] exI [of _ s']) (simp del: fun_upd_apply add_direct.simps)
qed

lemma first_block_ok:
  assumes l: "layout_ok s" and c: "card (used_blocks s) < block_cap s" and i: "inodes s ip = Some i" and z: "i_sectors i ! 0 = 0"
    and len: "length (i_sectors i) = 13" and r: "0 \<in> used_blocks s"
  obtains lba s' where "first_block ip s = Inr (True, s')" and "blocks_taken s [lba] ((inodes s)(ip \<mapsto> put_sectors 0 [lba] i)) s'"
proof -
  obtain lba s1 s2 where a: "block_bitmap_alloc s = Inr (lba, s1)" "lba \<noteq> M1"
    "upd_inode ip (set_sector 0 lba) s1 = Inr ((), s1\<lparr>inodes := (inodes s)(ip \<mapsto> set_sector 0 lba i)\<rparr>)"
    "inodes s1 = inodes s" "data_lba s1 = data_lba s"
    "bitmap_sync (lba - data_lba s) BLOCK_BITMAP (s1\<lparr>inodes := (inodes s)(ip \<mapsto> set_sector 0 lba i)\<rparr>) = Inr ((), s2)"
    "blocks_taken s [lba] ((inodes s)(ip \<mapsto> set_sector 0 lba i)) s2"
    by (rule take_and_record [OF l c i])
  have "\<not> block_in s lba" using a(7) by (simp add: blocks_taken_def)
  then have "lba - data_lba s \<noteq> 0" using r by (auto simp: block_in_def)
  then have "first_block ip s = Inr (True, s2)" using a i z by (simp add: first_block_def get_inode_def getSb_def data_lba_def)
  then show thesis using that [of s2 lba] a(7) len by (simp add: put_sectors_Cons) (simp add: put_sectors_def)
qed

text \<open>Both together: the blocks that a write of a file of at most 12 blocks uses.\<close>

lemma file_blocks_nz: "\<forall>l\<in>set (file_blocks i). l \<noteq> 0"
  by (auto simp: file_blocks_def dest: set_takeWhileD)

lemma file_blocks_put:
  assumes i: "i_sectors i = file_blocks i @ replicate (13 - length (file_blocks i)) 0" and n: "length (file_blocks i) + length L \<le> 12"
    and z: "0 \<notin> set L"
  defines "j \<equiv> put_sectors (length (file_blocks i)) L i"
  shows "file_blocks j = file_blocks i @ L" and "i_sectors j = file_blocks j @ replicate (13 - length (file_blocks j)) 0"
    and "i_size j = i_size i" and "i_no j = i_no i"
proof -
  let ?B = "file_blocks i"
  have nz: "\<forall>l\<in>set ?B. l \<noteq> 0" by (rule file_blocks_nz)
  have s: "i_sectors j = (?B @ L) @ replicate (13 - length (?B @ L)) 0"
    using n by (simp add: j_def put_sectors_def put_def i)
  have "take 12 (i_sectors j) = (?B @ L) @ replicate (12 - length (?B @ L)) 0" using n by (simp add: s)
  moreover have "takeWhile (\<lambda>l. l \<noteq> 0) ((?B @ L) @ replicate (12 - length (?B @ L)) 0) = ?B @ L"
  proof -
    have "takeWhile (\<lambda>l. l \<noteq> 0) ((?B @ L) @ replicate (12 - length (?B @ L)) 0)
        = (?B @ L) @ takeWhile (\<lambda>l. l \<noteq> 0) (replicate (12 - length (?B @ L)) 0)"
      using nz z by (intro takeWhile_append2) auto
    then show ?thesis by (cases "12 - length (?B @ L)") simp_all
  qed
  ultimately show f: "file_blocks j = ?B @ L" by (simp add: file_blocks_def [of j])
  show "i_sectors j = file_blocks j @ replicate (13 - length (file_blocks j)) 0" using s unfolding f .
qed (simp_all add: j_def put_sectors_def)

lemma file_length: "file_ok s i \<Longrightarrow> length (i_sectors i) = 13"
proof -
  assume "file_ok s i"
  then have l: "length (file_blocks i) \<le> 12" and s: "i_sectors i = file_blocks i @ replicate (13 - length (file_blocks i)) 0"
    unfolding file_ok_def by blast+
  show ?thesis by (subst s) (use l in simp)
qed

lemma file_sector:
  assumes "file_ok s i" and "k < 13"
  shows "i_sectors i ! k = (if k < length (file_blocks i) then file_blocks i ! k else 0)"
proof -
  have l: "length (file_blocks i) \<le> 12" and s: "i_sectors i = file_blocks i @ replicate (13 - length (file_blocks i)) 0"
    using assms(1) unfolding file_ok_def by blast+
  show ?thesis by (subst s) (use assms(2) l in \<open>simp add: nth_append\<close>)
qed

lemma write_blocks_ok:
  assumes l: "layout_ok s" and i: "file_ok s i" "inodes s ip = Some i" and u: "length (file_blocks i) = n" "0 < n" "n \<le> w" "w \<le> 12"
    and c: "card (used_blocks s) + (w - n) \<le> block_cap s"
  obtains L s' bs where "write_blocks ip n w s = Inr (Some bs, s')" and "length L = w - n" and "length bs = 140"
    and "\<forall>k. n - 1 \<le> k \<and> k < w \<longrightarrow> bs ! k = (file_blocks i @ L) ! k"
    and "blocks_taken s L ((inodes s)(ip \<mapsto> put_sectors n L i)) s'"
proof -
  let ?B = "file_blocks i" and ?bs = "(replicate 140 0 :: u32 list)[n - 1 := file_blocks i ! (n - 1)]"
  have len: "length (i_sectors i) = 13" using file_length [OF i(1)] .
  have rd: "rd (i_sectors i) (n - 1) = Inr (?B ! (n - 1))" using file_sector [OF i(1), of "n - 1"] u len by (simp add: rd_def)
  show thesis
  proof (cases "w = n")
    case True
    have "(inodes s)(ip \<mapsto> put_sectors n [] i) = inodes s" using i(2) by (auto simp: put_sectors_def)
    then have t: "blocks_taken s [] ((inodes s)(ip \<mapsto> put_sectors n [] i)) s" using blocks_taken_0 [OF l] by simp
    show thesis
      by (rule that [of ?bs s "[]", OF _ _ _ _ t]) (use True u rd i(2) in \<open>auto simp: write_blocks_def blocks_same_def get_inode_def nth_list_update\<close>)
  next
    case False
    have nz: "?B ! (n - 1) \<noteq> 0" using u file_blocks_nz [of i] nth_mem [of "n - 1" ?B] by auto
    have z: "\<forall>j<w - n. i_sectors i ! (n + j) = 0" using file_sector [OF i(1)] u by auto
    have kw: "n + (w - n) \<le> 12" "length ?bs = 140" using u by simp_all
    obtain L s' where L: "length L = w - n" "add_direct ip n (w - n) ?bs s = Inr (Some (put n L ?bs), s')"
      "blocks_taken s L ((inodes s)(ip \<mapsto> put_sectors n L i)) s'"
      using add_direct_ok [OF l c i(2) z kw(1) len kw(2)] by blast
    have "write_blocks ip n w s = Inr (Some (put n L ?bs), s')"
      using False u rd nz L(2) i(2) by (simp add: write_blocks_def blocks_direct_def get_inode_def)
    moreover have "length (put n L ?bs) = 140" using L(1) u by simp
    moreover have "\<forall>k. n - 1 \<le> k \<and> k < w \<longrightarrow> put n L ?bs ! k = (?B @ L) ! k"
      using L(1) u by (auto simp: nth_put nth_append nth_list_update)
    ultimately show thesis using that L(1,3) by blast
  qed
qed

subsection \<open>Bytes and blocks\<close>

lemma concat_blocks_take:
  assumes "\<forall>l\<in>set B. length (d l) = 512" and "q < length B" and "m \<le> 512"
  shows "take (512 * q + m) (concat (map d B)) = concat (map d (take q B)) @ take m (d (B ! q))"
  using assms(1,2)
proof (induction B arbitrary: q)
  case (Cons l B)
  then show ?case using assms(3) by (cases q) (simp_all add: take_append)
qed simp

text \<open>A chunk written behind the end of the file.\<close>

lemma file_bytes_chunk:
  assumes d: "\<forall>l. length (d l) = 512" and B: "distinct B" "q < length B" and r: "r + length ch \<le> 512"
    and b: "length b = 512" "take r b = take r (d (B ! q))"
  shows "take (512 * q + r + length ch) (concat (map (d(B ! q := put r ch b)) B)) = take (512 * q + r) (concat (map d B)) @ ch"
proof -
  let ?d = "d(B ! q := put r ch b)"
  have lp: "length (put r ch b) = 512" using r b(1) by simp
  have "\<forall>l\<in>set B. length (?d l) = 512" using d lp by simp
  then have "take (512 * q + (r + length ch)) (concat (map ?d B)) = concat (map ?d (take q B)) @ take (r + length ch) (put r ch b)"
    using concat_blocks_take [of B ?d q "r + length ch"] B(2) r by simp
  moreover have "take (r + length ch) (put r ch b) = take r (d (B ! q)) @ ch" using r b d by (simp add: put_def)
  moreover have "map ?d (take q B) = map d (take q B)"
    using B by (auto simp: in_set_conv_nth nth_eq_iff_index_eq)
  moreover have "take (512 * q + r) (concat (map d B)) = concat (map d (take q B)) @ take r (d (B ! q))"
    using concat_blocks_take [of B d q r] d B(2) r by simp
  ultimately show ?thesis by (simp add: add.assoc)
qed

text \<open>One round of the loop.\<close>

lemma write_chunk_step:
  assumes n: "n < count" and i: "inodes s ip = Some i"
    and c: "(if count - n < 512 - unat (i_size i) mod 512 then count - n else 512 - unat (i_size i) mod 512) = c"
    and l: "rd bs (unat (i_size i) div 512) = Inr lba" "lba \<le> max_lba"
    and b: "(if fw then readM lba 1 else retM (replicate 512 0)) s = Inr (b, s)"
    and m: "memcpy b (unat (i_size i) mod 512) src n c = Inr b1" "length b1 = 512"
    and f: "file_table s ! k = f" "k < length (file_table s)"
  shows "write_chunks ip k bs src count n fw s = write_chunks ip k bs src count (n + c) False
    (s\<lparr>hd_disk := (hd_disk s)(lba := b1), inodes := (inodes s)(ip \<mapsto> i\<lparr>i_size := i_size i + of_nat c\<rparr>),
       file_table := (file_table s)[k := f\<lparr>fd_pos := fd_pos f + of_nat c\<rparr>]\<rparr>)"
proof -
  have w: "writeM lba b1 1 s = Inr ((), s\<lparr>hd_disk := (hd_disk s)(lba := b1)\<rparr>)" using l(2) m(2) by (simp add: writeM_def)
  have g: "get_inode ip s = Inr (i, s)" using i by (simp add: get_inode_def)
  have u: "upd_inode ip g s' = Inr ((), s'\<lparr>inodes := (inodes s)(ip \<mapsto> g i)\<rparr>)" if "inodes s' = inodes s" for g s'
    using that i by (simp add: upd_inode_def)
  have gf: "get_file k s' = Inr (f, s')" "set_file k g s' = Inr ((), s'\<lparr>file_table := (file_table s)[k := g]\<rparr>)"
    if "file_table s' = file_table s" for g s' using that f by (simp_all add: get_file_def set_file_def rd_def wr_def)
  show ?thesis
    by (simp only: write_chunks.simps [of ip k bs src count n] n if_True bindM_run g bindR_Inr prod.case Let_def c liftM_run l(1) b m(1) w)
      (simp add: u gf)
qed

text \<open>The loop appends the rest of the buffer.\<close>

lemma write_chunks_ok:
  assumes "inodes s ip = Some i" and "file_blocks i = B" and "unat (i_size i) + (count - n) < 6144"
    and "(unat (i_size i) + (count - n)) div 512 < length B" and "n \<le> count" "count \<le> length src"
    and "\<forall>k. unat (i_size i) div 512 \<le> k \<and> k < length B \<longrightarrow> bs ! k = B ! k" "length bs = 140" "length B \<le> 12"
    and "distinct B" "\<forall>l\<in>set B. l \<le> max_lba" and "disk_ok (hd_disk s)" and "file_table s ! k = f" "k < length (file_table s)"
    and "fw \<or> unat (i_size i) mod 512 = 0 \<or> n = count"
  shows "\<exists>d. write_chunks ip k bs src count n fw s = Inr (count, s\<lparr>hd_disk := d,
      inodes := (inodes s)(ip \<mapsto> i\<lparr>i_size := i_size i + of_nat (count - n)\<rparr>),
      file_table := (file_table s)[k := f\<lparr>fd_pos := fd_pos f + of_nat (count - n)\<rparr>]\<rparr>)
    \<and> file_bytes d (i\<lparr>i_size := i_size i + of_nat (count - n)\<rparr>) = file_bytes (hd_disk s) i @ take (count - n) (drop n src)
    \<and> disk_ok d \<and> (\<forall>l. l \<notin> set B \<longrightarrow> d l = hd_disk s l)"
  using assms
proof (induction "count - n" arbitrary: s i f n fw rule: less_induct)
  case less
  note P = less.prems
  show ?case
  proof (cases "n < count")
    case False
    then have n: "n = count" using P(5) by simp
    have "(inodes s)(ip \<mapsto> i) = inodes s" "(file_table s)[k := f] = file_table s" using P(1,13,14) by auto
    then show ?thesis using P(12) by (intro exI [of _ "hd_disk s"]) (simp add: write_chunks.simps [of ip k] n)
  next
    case True
    let ?z = "unat (i_size i)"
    let ?q = "?z div 512" and ?r = "?z mod 512"
    define c where "c = (if count - n < 512 - ?r then count - n else 512 - ?r)"
    have zq: "?z = 512 * ?q + ?r" by simp
    have r: "?r < 512" by simp
    have c: "c \<le> count - n" "?r + c \<le> 512" "0 < c" "c = count - n \<or> ?r + c = 512" using True r by (auto simp: c_def)
    have q: "?q < length B" using P(4) div_le_mono [of ?z "?z + (count - n)" 512] by linarith
    have lB: "B ! ?q \<le> max_lba" using P(11) q by simp
    have dok: "\<forall>l. length (hd_disk s l) = 512" using P(12) by (simp add: disk_ok_def)
    define b where "b = (if fw then hd_disk s (B ! ?q) else replicate 512 0)"
    have b: "length b = 512" "take ?r b = take ?r (hd_disk s (B ! ?q))" using P(15) True dok by (auto simp: b_def)
    let ?ch = "take c (drop n src)"
    have lc: "length ?ch = c" using P(6) c(1) by simp
    let ?d = "(hd_disk s)(B ! ?q := put ?r ?ch b)" and ?i = "i\<lparr>i_size := i_size i + of_nat c\<rparr>"
    let ?f = "f\<lparr>fd_pos := fd_pos f + of_nat c\<rparr>"
    let ?s = "s\<lparr>hd_disk := ?d, inodes := (inodes s)(ip \<mapsto> ?i), file_table := (file_table s)[k := ?f]\<rparr>"
    have rdb: "rd bs ?q = Inr (B ! ?q)" using P(7,8,9) q by (simp add: rd_def)
    have mc: "memcpy b ?r src n c = Inr (put ?r ?ch b)" using memcpy_eq [of ?r c b n src] c b(1) P(6) True by simp
    have lp: "length (put ?r ?ch b) = 512" using lc c(2) b(1) by simp
    have sz: "unat (i_size ?i) = ?z + c" using P(3) c(1) by (simp add: unat_add_nat)
    have step: "write_chunks ip k bs src count n fw s = write_chunks ip k bs src count (n + c) False ?s"
      by (rule write_chunk_step [OF True P(1) c_def [symmetric] rdb lB _ mc lp P(13,14)]) (use lB in \<open>simp add: b_def readM_def\<close>)
    have fb: "file_blocks ?i = B" using P(2) by (simp add: file_blocks_def)
    have bytes: "file_bytes ?d ?i = file_bytes (hd_disk s) i @ ?ch"
      using file_bytes_chunk [OF dok P(10) q, of ?r ?ch b] c(2) lc b
      unfolding file_bytes_def sz fb P(2) by (simp flip: zq)
    have m: "count - (n + c) < count - n" using c True by simp
    have sum: "of_nat c + of_nat (count - (n + c)) = (of_nat (count - n) :: u32)"
    proof -
      have "c + (count - (n + c)) = count - n" using c(1) by simp
      then show ?thesis by (metis of_nat_add)
    qed
    have tk: "?ch @ take (count - (n + c)) (drop (n + c) src) = take (count - n) (drop n src)"
    proof -
      have "c + (count - (n + c)) = count - n" using c(1) by simp
      then show ?thesis using take_add [of c "count - (n + c)" "drop n src"] by (simp add: add.commute)
    qed
    have p15: "False \<or> unat (i_size ?i) mod 512 = 0 \<or> n + c = count"
    proof (cases "c = count - n")
      case False
      have ar: "z = 512 * q + r \<Longrightarrow> r + c = 512 \<Longrightarrow> z + c = 512 * Suc q" for z q r :: nat by simp
      have "?z + c = 512 * Suc ?q" using c(4) False by (intro ar [OF zq]) simp
      then show ?thesis unfolding sz by (metis mod_mult_self1_is_0)
    qed (use True in simp)
    have IH: "\<exists>d. write_chunks ip k bs src count (n + c) False ?s = Inr (count, ?s\<lparr>hd_disk := d,
        inodes := (inodes ?s)(ip \<mapsto> ?i\<lparr>i_size := i_size ?i + of_nat (count - (n + c))\<rparr>),
        file_table := (file_table ?s)[k := ?f\<lparr>fd_pos := fd_pos ?f + of_nat (count - (n + c))\<rparr>]\<rparr>)
      \<and> file_bytes d (?i\<lparr>i_size := i_size ?i + of_nat (count - (n + c))\<rparr>)
          = file_bytes (hd_disk ?s) ?i @ take (count - (n + c)) (drop (n + c) src)
      \<and> disk_ok d \<and> (\<forall>l. l \<notin> set B \<longrightarrow> d l = hd_disk ?s l)"
    proof (rule less.hyps [OF m])
      have q': "?q \<le> unat (i_size ?i) div 512" unfolding sz by (rule div_le_mono) simp
      show "\<forall>k. unat (i_size ?i) div 512 \<le> k \<and> k < length B \<longrightarrow> bs ! k = B ! k" using P(7) q' by auto
      have e: "unat (i_size ?i) + (count - (n + c)) = ?z + (count - n)" using sz c(1) by simp
      show "unat (i_size ?i) + (count - (n + c)) < 6144" "(unat (i_size ?i) + (count - (n + c))) div 512 < length B"
        unfolding e using P(3,4) .
      show "disk_ok (hd_disk ?s)" using P(12) lp by (simp add: disk_ok_def)
    qed (use P fb c(1) True p15 in simp_all)
    then obtain d where d: "write_chunks ip k bs src count (n + c) False ?s = Inr (count, ?s\<lparr>hd_disk := d,
        inodes := (inodes ?s)(ip \<mapsto> ?i\<lparr>i_size := i_size ?i + of_nat (count - (n + c))\<rparr>),
        file_table := (file_table ?s)[k := ?f\<lparr>fd_pos := fd_pos ?f + of_nat (count - (n + c))\<rparr>]\<rparr>)"
      "file_bytes d (?i\<lparr>i_size := i_size ?i + of_nat (count - (n + c))\<rparr>)
          = file_bytes (hd_disk ?s) ?i @ take (count - (n + c)) (drop (n + c) src)"
      "disk_ok d" "\<forall>l. l \<notin> set B \<longrightarrow> d l = hd_disk ?s l" by blast
    have same: "?i\<lparr>i_size := i_size ?i + of_nat (count - (n + c))\<rparr> = i\<lparr>i_size := i_size i + of_nat (count - n)\<rparr>"
      "?f\<lparr>fd_pos := fd_pos ?f + of_nat (count - (n + c))\<rparr> = f\<lparr>fd_pos := fd_pos f + of_nat (count - n)\<rparr>"
      using sum by (simp_all add: add.assoc)
    have "B ! ?q \<in> set B" using q by simp
    then have fr: "\<forall>l. l \<notin> set B \<longrightarrow> d l = hd_disk s l" using d(4) by auto
    show ?thesis
      using d(1-3) fr bytes tk unfolding same step by (intro exI [of _ d]) simp
  qed
qed

subsection \<open>A write as a whole\<close>

lemma layout_ok_other [simp]: "layout_ok (s\<lparr>heap := x\<rparr>) = layout_ok s" "layout_ok (s\<lparr>inodes := f\<rparr>) = layout_ok s"
  "layout_ok (s\<lparr>file_table := t\<rparr>) = layout_ok s"
  by (simp_all add: layout_ok_def map_ok_def map_synced_def map_lba_def map_sects_def data_lba_def block_cap_def)

lemma block_in_other [simp]: "block_in (s\<lparr>heap := x\<rparr>) l = block_in s l" "block_in (s\<lparr>inodes := f\<rparr>) l = block_in s l"
  "block_in (s\<lparr>file_table := t\<rparr>) l = block_in s l" "block_in (s\<lparr>hd_disk := d\<rparr>) l = block_in s l"
  by (simp_all add: block_in_def data_lba_def used_blocks_def)

lemma used_other [simp]: "used_blocks (s\<lparr>heap := x\<rparr>) = used_blocks s" "block_cap (s\<lparr>heap := x\<rparr>) = block_cap s"
  by (simp_all add: used_blocks_def block_cap_def)

lemma file_ok_cong: "(\<And>l. block_in s l = block_in s' l) \<Longrightarrow> file_ok s i = file_ok s' i"
  by (simp add: file_ok_def)

lemma layout_ok_disk:
  assumes l: "layout_ok s" and d: "disk_ok d"
    and e: "\<forall>y. unat (map_lba s) \<le> unat y \<and> unat y < unat (map_lba s) + map_sects s \<longrightarrow> d y = hd_disk s y"
  shows "layout_ok (s\<lparr>hd_disk := d\<rparr>)"
proof -
  have m: "map_ok s" using l by (simp add: layout_ok_def)
  show ?thesis using l d read_map_cong [OF m e]
    by (simp add: layout_ok_def map_ok_def map_synced_def map_lba_def map_sects_def data_lba_def block_cap_def)
qed

lemma length_concat_blocks: "\<forall>l\<in>set B. length (d l) = 512 \<Longrightarrow> length (concat (map d B)) = 512 * length B"
  by (induction B) auto

lemma file_size: "file_ok s i \<Longrightarrow> unat (i_size i) \<le> 512 * length (file_blocks i)"
  by (auto simp: file_ok_def intro: less_imp_le)

lemma file_ok_blocks: "file_ok s i \<Longrightarrow> l \<in> set (file_blocks i) \<Longrightarrow> block_in s l"
  by (simp add: file_ok_def)

lemma block_in_range:
  assumes "layout_ok s" and "block_in s l"
  shows "l \<le> max_lba" and "unat (data_lba s) \<le> unat l" and "unat (map_lba s) + map_sects s \<le> unat l"
proof -
  have "unat l - unat (data_lba s) < block_cap s" "unat (data_lba s) \<le> unat l"
    using assms(2) by (auto simp: block_in_def used_blocks_def used_bits_def block_cap_def)
  then show "l \<le> max_lba" "unat (data_lba s) \<le> unat l" "unat (map_lba s) + map_sects s \<le> unat l"
    using assms(1) by (auto simp: layout_ok_def max_lba_def word_le_nat_alt)
qed

text \<open>The blocks at hand before the bytes are moved.\<close>

lemma prepare_blocks:
  assumes l: "layout_ok s" and i: "file_ok s i" "inodes s ip = Some i" and r: "0 \<in> used_blocks s"
    and w: "unat (i_size i) + count < 6144" and W: "W = (unat (i_size i) + count) div 512 + 1"
    and c: "card (used_blocks s) + (W - length (file_blocks i)) \<le> block_cap s"
  obtains L s1 s2 bs where "first_block ip s = Inr (True, s1)"
    and "write_blocks ip (unat (i_size i) div 512 + 1) W s1 = Inr (Some bs, s2)"
    and "blocks_taken s L ((inodes s)(ip \<mapsto> put_sectors (length (file_blocks i)) L i)) s2"
    and "length (file_blocks i) + length L = W" and "length bs = 140"
    and "\<forall>k. unat (i_size i) div 512 \<le> k \<and> k < W \<longrightarrow> bs ! k = (file_blocks i @ L) ! k"
proof -
  let ?B = "file_blocks i" and ?n = "unat (i_size i) div 512 + 1"
  have W12: "W \<le> 12" "?n \<le> W" using w by (auto simp: W intro: div_le_mono)
  have len: "length (i_sectors i) = 13" using i(1) by (rule file_length)
  show thesis
  proof (cases "?B = []")
    case False
    then have n: "length ?B = ?n" using i(1) by (auto simp: file_ok_def)
    have "i_sectors i ! 0 \<noteq> 0" using file_sector [OF i(1), of 0] False file_blocks_nz [of i] by simp
    then have f: "first_block ip s = Inr (True, s)" using i(2) by (simp add: first_block_def get_inode_def)
    have c2: "card (used_blocks s) + (W - ?n) \<le> block_cap s" using c n by simp
    show thesis
      by (rule write_blocks_ok [OF l i n _ W12(2,1) c2]) (use that [OF f] n W12 in auto)
  next
    case True
    then have z: "i_size i = 0" using i(1) by (auto simp: file_ok_def)
    have c1: "card (used_blocks s) < block_cap s" using c True W by simp
    have z0: "i_sectors i ! 0 = 0" using file_sector [OF i(1), of 0] True by simp
    obtain lba s1 where f: "first_block ip s = Inr (True, s1)" "blocks_taken s [lba] ((inodes s)(ip \<mapsto> put_sectors 0 [lba] i)) s1"
      by (rule first_block_ok [OF l c1 i(2) z0 len r])
    let ?j = "put_sectors 0 [lba] i"
    have lz: "lba \<noteq> 0" using f(2) by (simp add: blocks_taken_def)
    have sec: "i_sectors i = ?B @ replicate (13 - length ?B) 0" using i(1) by (simp add: file_ok_def)
    note j = file_blocks_put [OF sec, of "[lba]", unfolded True, simplified, OF lz]
    have bi: "block_in s1 lba" using f(2) by (simp add: blocks_taken_def)
    have fj: "file_ok s1 ?j" using j z bi by (simp add: file_ok_def)
    have sj: "layout_ok s1" "inodes s1 ip = Some ?j" using blocks_taken_data [OF f(2)] by simp_all
    have c2: "card (used_blocks s1) + (W - 1) \<le> block_cap s1" using f(2) c W True by (simp add: blocks_taken_def)
    have n1: "length (file_blocks ?j) = 1" "0 < (1::nat)" "1 \<le> W" using j(1) W12 by simp_all
    obtain L s2 bs where L: "write_blocks ip 1 W s1 = Inr (Some bs, s2)" "length L = W - 1" "length bs = 140"
      "\<forall>k. 1 - 1 \<le> k \<and> k < W \<longrightarrow> bs ! k = (file_blocks ?j @ L) ! k" "blocks_taken s1 L ((inodes s1)(ip \<mapsto> put_sectors 1 L ?j)) s2"
      by (rule write_blocks_ok [OF sj(1) fj sj(2) n1 W12(1) c2])
    have p: "put_sectors 1 L ?j = put_sectors 0 (lba # L) i" using len by (simp add: put_sectors_Cons) (simp add: put_sectors_def)
    have t: "blocks_taken s (lba # L) ((inodes s)(ip \<mapsto> put_sectors 0 (lba # L) i)) s2"
      using blocks_taken_trans [OF f(2) L(5)] p by (simp add: blocks_taken_data(3) [OF f(2)])
    show thesis by (rule that [of s1 bs s2 "lba # L"]) (use f(1) L(1-4) t z True W12 n1(3) j(1) in simp_all)
  qed
qed

lemma file_bytes_cong: "\<forall>l\<in>set (file_blocks i). d l = d' l \<Longrightarrow> file_bytes d i = file_bytes d' i"
  unfolding file_bytes_def by (metis (mono_tags, lifting) map_eq_conv)

text \<open>More blocks do not change the bytes.\<close>

lemma file_bytes_more:
  assumes i: "file_ok s i" and d: "disk_ok d" and b: "file_blocks j = file_blocks i @ L" "i_size j = i_size i"
  shows "file_bytes d j = file_bytes d i"
proof -
  have "length (concat (map d (file_blocks i))) = 512 * length (file_blocks i)"
    using d by (intro length_concat_blocks) (simp add: disk_ok_def)
  then show ?thesis using file_size [OF i] by (simp add: file_bytes_def b)
qed

text \<open>The blocks of a file that has taken more.\<close>

lemma file_ok_taken:
  assumes i: "file_ok s i" and t: "blocks_taken s L f s'" and n: "length (file_blocks i) + length L \<le> 12"
    and z: "length (file_blocks i) + length L = z div 512 + 1" "unat sz = z"
  shows "file_ok s' ((put_sectors (length (file_blocks i)) L i)\<lparr>i_size := sz\<rparr>)"
    and "distinct (file_blocks i @ L)" and "\<forall>l\<in>set (file_blocks i @ L). block_in s' l"
proof -
  have sec: "i_sectors i = file_blocks i @ replicate (13 - length (file_blocks i)) 0" using i by (simp add: file_ok_def)
  have L: "0 \<notin> set L" "distinct L" "\<forall>l\<in>set L. \<not> block_in s l" "\<forall>l. block_in s' l \<longleftrightarrow> block_in s l \<or> l \<in> set L"
    using t by (auto simp: blocks_taken_def)
  let ?j = "put_sectors (length (file_blocks i)) L i"
  note j = file_blocks_put [OF sec n L(1)]
  have B: "file_blocks (?j\<lparr>i_size := sz\<rparr>) = file_blocks i @ L" using j(1) by (simp add: file_blocks_def)
  show di: "distinct (file_blocks i @ L)" using L(2,3) i by (auto simp: file_ok_def)
  show bi: "\<forall>l\<in>set (file_blocks i @ L). block_in s' l" using L(4) i by (auto simp: file_ok_def)
  have "i_sectors (?j\<lparr>i_size := sz\<rparr>) = (file_blocks i @ L) @ replicate (13 - length (file_blocks i @ L)) 0"
    using j(2) unfolding j(1) by simp
  then show "file_ok s' (?j\<lparr>i_size := sz\<rparr>)" unfolding file_ok_def B using di bi n z by simp
qed

text \<open>The sector with the inode: one of its own, behind the block bitmap and before the data.\<close>

definition inode_home :: "'k fs \<Rightarrow> u32 \<Rightarrow> bool" where
  "inode_home s no \<longleftrightarrow> table_ok s \<and> unat no < 256 \<and> snd (inode_secs (unat no)) = 1
     \<and> unat (map_lba s) + map_sects s \<le> unat (table_lba s) + fst (inode_secs (unat no))
     \<and> unat (table_lba s) + fst (inode_secs (unat no)) < unat (data_lba s)"

lemma sync_at_home:
  assumes h: "inode_home s (i_no i)" and l: "layout_ok s" and i: "length (i_sectors i) = 13"
  obtains d where "inode_sync i 512 s = Inr ((), s\<lparr>hd_disk := d\<rparr>)" and "layout_ok (s\<lparr>hd_disk := d\<rparr>)"
    and "\<forall>y. unat (data_lba s) \<le> unat y \<longrightarrow> d y = hd_disk s y" and "disk_inode (s\<lparr>hd_disk := d\<rparr>) (unat (i_no i)) = pure_inode i"
proof -
  let ?no = "unat (i_no i)"
  have t: "table_ok s" and n: "?no < 256" "?no mod 256 = ?no" using h by (simp_all add: inode_home_def)
  obtain k where sec: "inode_secs (?no mod 256) = (k, 1)" and k: "fst (inode_secs ?no) = k"
    using h n(2) by (cases "inode_secs ?no") (simp add: inode_home_def)
  obtain d where d: "inode_sync i 512 s = Inr ((), s\<lparr>hd_disk := d\<rparr>)"
    "read_secs d (table_lba s) 608 = put (76 * (?no mod 256)) (inode_bytes (pure_inode i)) (table_bytes s)" "disk_ok d"
    "\<forall>x. unat x < unat (table_lba s) + k \<or> unat (table_lba s) + k + 1 \<le> unat x \<longrightarrow> d x = hd_disk s x"
    by (rule inode_sync_ok [OF t i sec]) auto
  have fr: "\<forall>y. unat (data_lba s) \<le> unat y \<longrightarrow> d y = hd_disk s y"
    "\<forall>y. unat (map_lba s) \<le> unat y \<and> unat y < unat (map_lba s) + map_sects s \<longrightarrow> d y = hd_disk s y"
    using d(4) h unfolding inode_home_def k by auto
  have no: "?no < 4096" using n by simp
  have ip: "length (i_sectors (pure_inode i)) = 13" using i by simp
  have "disk_inode (s\<lparr>hd_disk := d\<rparr>) ?no = pure_inode i"
    using disk_inode_put(1) [OF t no ip] d(2) unfolding n(2) by simp
  then show thesis by (rule that [OF d(1) layout_ok_disk [OF l d(3) fr(2)] fr(1)])
qed

text \<open>The loop on a file in order.\<close>

lemma write_loop:
  assumes i: "inodes s ip = Some i" "file_blocks i = B" and w: "unat (i_size i) + unat count < 6144" "unat count \<le> length src"
    and B: "length B = (unat (i_size i) + unat count) div 512 + 1" "distinct B" "\<forall>l\<in>set B. block_in s l"
    and bs: "length bs = 140" "\<forall>k. unat (i_size i) div 512 \<le> k \<and> k < length B \<longrightarrow> bs ! k = B ! k"
    and l: "layout_ok s" and f: "file_table s ! k = f" "k < length (file_table s)"
  obtains d where "write_chunks ip k bs src (unat count) 0 True s = Inr (unat count, s\<lparr>hd_disk := d,
      inodes := (inodes s)(ip \<mapsto> i\<lparr>i_size := i_size i + count\<rparr>), file_table := (file_table s)[k := f\<lparr>fd_pos := fd_pos f + count\<rparr>]\<rparr>)"
    and "file_bytes d (i\<lparr>i_size := i_size i + count\<rparr>) = file_bytes (hd_disk s) i @ take (unat count) src"
    and "disk_ok d" and "\<forall>l. l \<notin> set B \<longrightarrow> d l = hd_disk s l" and "layout_ok (s\<lparr>hd_disk := d\<rparr>)"
proof -
  have b1: "unat (i_size i) + (unat count - 0) < 6144" "(unat (i_size i) + (unat count - 0)) div 512 < length B" "length B \<le> 12"
    "0 \<le> unat count" using w(1) B(1) by simp_all
  have b2: "\<forall>l\<in>set B. l \<le> max_lba" using B(3) block_in_range(1) [OF l] by blast
  have b3: "disk_ok (hd_disk s)" using l by (simp add: layout_ok_def map_ok_def)
  obtain d where d: "write_chunks ip k bs src (unat count) 0 True s = Inr (unat count, s\<lparr>hd_disk := d,
      inodes := (inodes s)(ip \<mapsto> i\<lparr>i_size := i_size i + of_nat (unat count - 0)\<rparr>),
      file_table := (file_table s)[k := f\<lparr>fd_pos := fd_pos f + of_nat (unat count - 0)\<rparr>]\<rparr>)"
    "file_bytes d (i\<lparr>i_size := i_size i + of_nat (unat count - 0)\<rparr>)
       = file_bytes (hd_disk s) i @ take (unat count - 0) (drop 0 src)"
    "disk_ok d" "\<forall>l. l \<notin> set B \<longrightarrow> d l = hd_disk s l"
    using write_chunks_ok [OF i b1(1,2,4) w(2) bs(2,1) b1(3) B(2) b2 b3 f, of True] by blast
  have "layout_ok (s\<lparr>hd_disk := d\<rparr>)"
    by (rule layout_ok_disk [OF l d(3)]) (use d(4) B(3) block_in_range(3) [OF l] in \<open>fastforce\<close>)
  then show thesis using d by (intro that [of d]) simp_all
qed

text \<open>What \<^verbatim>\<open>file_write\<close> asks of the heap: a buffer of a sector and the numbers of the blocks, put back in that order;
  \<^verbatim>\<open>file_read\<close> does the same.\<close>

definition file_calls :: "heap_call list" where
  "file_calls = [Get False 512, Get False 560, Put False 1, Put False 0]"

lemma file_write_ok:
  assumes f: "k < length (file_table s)" "file_table s ! k = f" "fd_inode f = ip" and i: "file_ok s i" "inodes s ip = Some i"
    and l: "layout_ok s" and r: "0 \<in> used_blocks s" and home: "inode_home s (i_no i)"
    and w: "unat (i_size i) + unat count < 6144" "unat count \<le> length src"
    and c: "card (used_blocks s) + ((unat (i_size i) + unat count) div 512 + 1 - length (file_blocks i)) \<le> block_cap s"
    and h: "served h file_calls L0 [] (heap s)"
  obtains s' i' where "file_write h k src count s = Inr (count, s')" and "inodes s' = (inodes s)(ip \<mapsto> i')"
    and "i_size i' = i_size i + count" "i_no i' = i_no i" and "file_ok s' i'" and "layout_ok s'"
    and "file_bytes (hd_disk s') i' = file_bytes (hd_disk s) i @ take (unat count) src"
    and "file_table s' = (file_table s)[k := f\<lparr>fd_pos := i_size i - 1 + count\<rparr>]"
    and "\<forall>y. block_in s y \<and> y \<notin> set (file_blocks i) \<longrightarrow> hd_disk s' y = hd_disk s y"
    and "disk_inode s' (unat (i_no i)) = pure_inode i'"
proof -
  have h4: "served h [Get False 512, Get False (BLOCK_SIZE + 48), Put False 1, Put False 0] L0 [] (heap s)"
    using h by (simp add: file_calls_def BLOCK_SIZE_def SECTOR_SIZE_def)
  obtain p k1 where p: "mallocM h False 512 s = Inr (p, s\<lparr>heap := k1\<rparr>)" "p \<noteq> 0"
    "served h [Get False (BLOCK_SIZE + 48), Put False 1, Put False 0] L0 [p] k1" by (rule mallocM_served [OF h4])
  let ?s1 = "s\<lparr>heap := k1\<rparr>"
  have h3: "served h [Get False (BLOCK_SIZE + 48), Put False 1, Put False 0] L0 [p] (heap ?s1)" using p(3) by simp
  obtain q k2 where q: "mallocM h False (BLOCK_SIZE + 48) ?s1 = Inr (q, ?s1\<lparr>heap := k2\<rparr>)" "q \<noteq> 0"
    "served h [Put False 1, Put False 0] L0 [q, p] k2" by (rule mallocM_served [OF h3])
  let ?s2 = "s\<lparr>heap := k2\<rparr>"
  let ?W = "(unat (i_size i) + unat count) div 512 + 1"
  have s2: "layout_ok ?s2" "file_ok ?s2 i" "inodes ?s2 ip = Some i" "0 \<in> used_blocks ?s2"
    "card (used_blocks ?s2) + (?W - length (file_blocks i)) \<le> block_cap ?s2"
    using l i r c file_ok_cong [of ?s2 s i] by simp_all
  obtain L s3 s4 bs where fb: "first_block ip ?s2 = Inr (True, s3)" "write_blocks ip (unat (i_size i) div 512 + 1) ?W s3 = Inr (Some bs, s4)"
    "blocks_taken ?s2 L ((inodes ?s2)(ip \<mapsto> put_sectors (length (file_blocks i)) L i)) s4"
    "length (file_blocks i) + length L = ?W" "length bs = 140"
    "\<forall>k. unat (i_size i) div 512 \<le> k \<and> k < ?W \<longrightarrow> bs ! k = (file_blocks i @ L) ! k"
    by (rule prepare_blocks [OF s2(1-4) w(1) refl s2(5)])
  let ?j = "put_sectors (length (file_blocks i)) L i" and ?B = "file_blocks i @ L"
  let ?g = "f\<lparr>fd_pos := i_size i - 1\<rparr>"
  let ?j' = "?j\<lparr>i_size := i_size i + count\<rparr>" and ?g' = "?g\<lparr>fd_pos := i_size i - 1 + count\<rparr>"
  have sec: "i_sectors i = file_blocks i @ replicate (13 - length (file_blocks i)) 0" using i(1) by (simp add: file_ok_def)
  have W: "?W \<le> 12" using w(1) by simp
  have Lz: "0 \<notin> set L" using fb(3) by (auto simp: blocks_taken_def)
  note j = file_blocks_put [OF sec _ Lz, unfolded fb(4), OF W]
  note s4 = blocks_taken_data [OF fb(3)]
  have sz: "unat (i_size i + count) = unat (i_size i) + unat count" using w(1) by (simp add: unat_add_small)
  note ft = file_ok_taken [OF s2(2) fb(3) _ fb(4) sz, unfolded fb(4), OF W]
  let ?s5 = "s4\<lparr>file_table := (file_table s)[k := ?g]\<rparr>"
  have s5: "inodes ?s5 ip = Some ?j" "file_table ?s5 ! k = ?g" "k < length (file_table ?s5)" "layout_ok ?s5"
    "\<forall>l\<in>set ?B. block_in ?s5 l" using s4 f(1) ft(3) by simp_all
  have bs: "\<forall>k. unat (i_size ?j) div 512 \<le> k \<and> k < length ?B \<longrightarrow> bs ! k = ?B ! k" "unat (i_size ?j) + unat count < 6144"
    "length ?B = (unat (i_size ?j) + unat count) div 512 + 1"
    using fb(4,6) w(1) j(3) by simp_all
  obtain d where d: "write_chunks ip k bs src (unat count) 0 True ?s5 = Inr (unat count, ?s5\<lparr>hd_disk := d,
      inodes := (inodes ?s5)(ip \<mapsto> ?j\<lparr>i_size := i_size ?j + count\<rparr>), file_table := (file_table ?s5)[k := ?g\<lparr>fd_pos := fd_pos ?g + count\<rparr>]\<rparr>)"
    "file_bytes d (?j\<lparr>i_size := i_size ?j + count\<rparr>) = file_bytes (hd_disk ?s5) ?j @ take (unat count) src"
    "disk_ok d" "\<forall>l. l \<notin> set ?B \<longrightarrow> d l = hd_disk ?s5 l" "layout_ok (?s5\<lparr>hd_disk := d\<rparr>)"
    by (rule write_loop [OF s5(1) j(1) bs(2) w(2) bs(3) ft(2) s5(5) fb(5) bs(1) s5(4) s5(2,3)])
  let ?s6 = "s4\<lparr>hd_disk := d, inodes := (inodes s)(ip \<mapsto> ?j'), file_table := (file_table s)[k := ?g']\<rparr>"
  have s6: "write_chunks ip k bs src (unat count) 0 True ?s5 = Inr (unat count, ?s6)" using d(1) s4 j(3) by simp
  have sb6: "sb (cur_part ?s6) = sb (cur_part s)" using s4 by simp
  have hm: "inode_home ?s6 (i_no ?j')" using home d(3) s4 j(4)
    by (simp add: inode_home_def table_ok_def map_lba_def map_sects_def data_lba_def table_lba_def)
  have l6: "layout_ok ?s6" using d(5) s4 by (simp add: layout_ok_def map_ok_def map_synced_def map_lba_def map_sects_def data_lba_def block_cap_def)
  have len: "length (i_sectors ?j') = 13" using file_length [OF ft(1)] .
  obtain d7 where d7: "inode_sync ?j' 512 ?s6 = Inr ((), ?s6\<lparr>hd_disk := d7\<rparr>)" "layout_ok (?s6\<lparr>hd_disk := d7\<rparr>)"
    "\<forall>y. unat (data_lba ?s6) \<le> unat y \<longrightarrow> d7 y = hd_disk ?s6 y"
    "disk_inode (?s6\<lparr>hd_disk := d7\<rparr>) (unat (i_no ?j')) = pure_inode ?j'"
    by (rule sync_at_home [OF hm l6 len])
  let ?s7 = "?s6\<lparr>hd_disk := d7\<rparr>"
  have h2: "served h [Put False 1, Put False 0] L0 [q, p] (heap ?s7)" using q(3) s4(4) by simp
  obtain k3 where k3: "freeM h False p ?s7 = Inr ((), ?s7\<lparr>heap := k3\<rparr>)" "served h [Put False 0] L0 [q] k3"
    by (rule freeM_served [OF h2], rule that) auto
  let ?s8 = "?s7\<lparr>heap := k3\<rparr>"
  have h1: "served h [Put False 0] L0 [q] (heap ?s8)" using k3(2) by simp
  obtain k4 where k4: "freeM h False q ?s8 = Inr ((), ?s8\<lparr>heap := k4\<rparr>)"
    by (rule freeM_served [OF h1], rule that) auto
  let ?s9 = "?s8\<lparr>heap := k4\<rparr>"
  have big: "\<not> i_size i + count > BLOCK_SIZE * 140" using w(1) sz by (simp add: fs_consts word_less_nat_alt)
  have run: "file_write h k src count s = Inr (count, ?s9)"
  proof -
    have "get_file k s = Inr (f, s)" "get_inode ip s = Inr (i, s)" "set_file k ?g s4 = Inr ((), ?s5)" "get_inode ip ?s6 = Inr (?j', ?s6)"
      using f(1,2) i(2) s4 by (simp_all add: get_file_def get_inode_def set_file_def rd_def wr_def)
    moreover have "unat (i_size i + count) div 512 + 1 \<le> 140" unfolding sz using W by simp
    moreover have "mallocM h False (BLOCK_SIZE + 48) ?s1 = Inr (q, ?s2)" using q(1) by simp
    ultimately show ?thesis
      by (simp only: file_write_def bindM_run bindR_Inr prod.case f(3) if_False big p(1,2) q(2) fb(1) simp_thms Let_def assertM_run ASSERT_True
          sz fb(2) s6 d7(1) k3(1) k4 option.case) simp
  qed
  have un: "block_in ?s9 y = block_in s4 y" for y using s4 by (simp add: block_in_def data_lba_def used_blocks_def)
  have dl: "unat (data_lba s) \<le> unat y" if "y \<in> set ?B" for y
    using that ft(3) block_in_range(2) [OF s4(6)] s4(1) by (auto simp: data_lba_def)
  have same: "d7 y = d y" if "unat (data_lba s) \<le> unat y" for y using d7(3) that s4(7) by (simp add: data_lba_def)
  have same4: "hd_disk s4 y = hd_disk s y" if "unat (data_lba s) \<le> unat y" for y
    using blocks_taken_disk [OF fb(3), of y] that by (simp add: data_lba_def)
  have Bj: "file_blocks ?j' = ?B" using j(1) by (simp add: file_blocks_def)
  show thesis
  proof (rule that [OF run])
    show "inodes ?s9 = (inodes s)(ip \<mapsto> ?j')" "i_size ?j' = i_size i + count" "i_no ?j' = i_no i" using j(4) by simp_all
    show "file_ok ?s9 ?j'" using ft(1) file_ok_cong [of ?s9 s4, OF un] by simp
    show "layout_ok ?s9" using d7(2) by simp
    have "file_bytes d7 ?j' = file_bytes d ?j'" by (rule file_bytes_cong) (use Bj same dl in auto)
    also have "\<dots> = file_bytes (hd_disk s4) ?j @ take (unat count) src" using d(2) j(3) by simp
    also have "file_bytes (hd_disk s4) ?j = file_bytes (hd_disk s) ?j" by (rule file_bytes_cong) (use j(1) same4 dl in auto)
    also have "\<dots> = file_bytes (hd_disk s) i"
      by (rule file_bytes_more [OF i(1) _ j(1,3)]) (use l in \<open>simp add: layout_ok_def map_ok_def\<close>)
    finally show "file_bytes (hd_disk ?s9) ?j' = file_bytes (hd_disk s) i @ take (unat count) src" by simp
    show "file_table ?s9 = (file_table s)[k := f\<lparr>fd_pos := i_size i - 1 + count\<rparr>]" by simp
    show "\<forall>y. block_in s y \<and> y \<notin> set (file_blocks i) \<longrightarrow> hd_disk ?s9 y = hd_disk s y"
    proof (intro allI impI)
      fix y assume y: "block_in s y \<and> y \<notin> set (file_blocks i)"
      have nL: "\<forall>l\<in>set L. \<not> block_in s l" using fb(3) by (simp add: blocks_taken_def)
      have r: "unat (data_lba s) \<le> unat y" "y \<notin> set ?B" using y nL by (auto simp: block_in_def)
      show "hd_disk ?s9 y = hd_disk s y" using same [OF r(1)] same4 [OF r(1)] d(4) r(2) by simp
    qed
    show "disk_inode ?s9 (unat (i_no i)) = pure_inode ?j'" using d7(4) j(4) by (simp add: disk_inode_def table_bytes_def table_lba_def)
  qed
qed

subsection \<open>A read as a whole\<close>

lemma concat_blocks_part:
  assumes "\<forall>l\<in>set B. length (d l) = 512" and "q < length B" and "r + c \<le> 512"
  shows "take c (drop (512 * q + r) (concat (map d B))) = take c (drop r (d (B ! q)))"
proof -
  have l: "length (concat (map d (take q B))) = 512 * q"
    using assms(1,2) length_concat_blocks [of "take q B" d] by (auto dest: in_set_takeD)
  have "take c (drop (512 * q + r) (concat (map d B))) = drop (512 * q + r) (take (512 * q + (r + c)) (concat (map d B)))"
  proof -
    have "c + (512 * q + r) = 512 * q + (r + c)" by simp
    then show ?thesis by (simp only: take_drop)
  qed
  also have "\<dots> = drop r (take (r + c) (d (B ! q)))"
    unfolding concat_blocks_take [OF assms(1,2,3)] using l by simp
  finally show ?thesis by (simp add: take_drop add.commute)
qed

lemma read_chunk_step:
  assumes n: "n < sz" and f: "file_table s ! k = f" "k < length (file_table s)"
    and c: "(if sz - n < 512 - unat (fd_pos f) mod 512 then sz - n else 512 - unat (fd_pos f) mod 512) = c"
    and l: "rd bs (unat (fd_pos f) div 512) = Inr lba" "readM lba 1 s = Inr (b, s)"
    and rest: "read_chunks k bs sz (n + c) (s\<lparr>file_table := (file_table s)[k := f\<lparr>fd_pos := fd_pos f + of_nat c\<rparr>]\<rparr>) = Inr (x, s')"
  shows "read_chunks k bs sz n s = Inr (take c (drop (unat (fd_pos f) mod 512) b) @ x, s')"
proof -
  have g: "get_file k s = Inr (f, s)" and w: "set_file k g s = Inr ((), s\<lparr>file_table := (file_table s)[k := g]\<rparr>)" for g
    using f by (simp_all add: get_file_def set_file_def rd_def wr_def)
  show ?thesis
    by (simp only: read_chunks.simps [of k bs sz n] n if_True bindM_run g bindR_Inr prod.case Let_def c liftM_run l w rest) simp
qed

lemma read_chunks_ok:
  assumes "file_table s ! k = f" "k < length (file_table s)" and "n \<le> sz"
    and "unat (fd_pos f) + (sz - n) \<le> 512 * length B" "length B \<le> 12"
    and "\<forall>q. unat (fd_pos f) div 512 \<le> q \<and> 512 * q < unat (fd_pos f) + (sz - n) \<longrightarrow> bs ! q = B ! q" "length bs = 140"
    and "disk_ok (hd_disk s)" "\<forall>l\<in>set B. l \<le> max_lba"
  shows "read_chunks k bs sz n s = Inr (take (sz - n) (drop (unat (fd_pos f)) (concat (map (hd_disk s) B))),
    s\<lparr>file_table := (file_table s)[k := f\<lparr>fd_pos := fd_pos f + of_nat (sz - n)\<rparr>]\<rparr>)"
  using assms
proof (induction "sz - n" arbitrary: s f n rule: less_induct)
  case less
  note P = less.prems
  show ?case
  proof (cases "n < sz")
    case False
    have "(file_table s)[k := f] = file_table s" using P(1,2) by auto
    then show ?thesis using False P(3) by (simp add: read_chunks.simps [of k])
  next
    case True
    let ?p = "unat (fd_pos f)" and ?X = "concat (map (hd_disk s) B)"
    let ?q = "?p div 512" and ?r = "?p mod 512"
    define c where "c = (if sz - n < 512 - ?r then sz - n else 512 - ?r)"
    have r: "?r < 512" and pq: "512 * ?q + ?r = ?p" by simp_all
    have c: "c \<le> sz - n" "?r + c \<le> 512" "0 < c" using True r by (auto simp: c_def)
    have lt: "512 * ?q < ?p + (sz - n)" using pq True by linarith
    have ar: "512 * q + r = p \<Longrightarrow> p + m \<le> 512 * n \<Longrightarrow> 0 < m \<Longrightarrow> q < n" for q r p m n :: nat by linarith
    have q: "?q < length B" using ar [OF pq P(4)] True by simp
    have bq: "bs ! ?q = B ! ?q" using P(6) lt by simp
    have rdb: "rd bs ?q = Inr (B ! ?q)" using P(5,7) q bq by (simp add: rd_def)
    have rm: "readM (B ! ?q) 1 s = Inr (hd_disk s (B ! ?q), s)" using P(9) q by (simp add: readM_def)
    let ?f = "f\<lparr>fd_pos := fd_pos f + of_nat c\<rparr>" and ?s = "s\<lparr>file_table := (file_table s)[k := f\<lparr>fd_pos := fd_pos f + of_nat c\<rparr>]\<rparr>"
    have up: "unat (fd_pos ?f) = ?p + c" using P(4,5) c(1) by (simp add: unat_add_nat)
    have e: "unat (fd_pos ?f) + (sz - (n + c)) = ?p + (sz - n)" unfolding up using c(1) by simp
    have m: "sz - (n + c) < sz - n" using c True by simp
    have q': "?q \<le> unat (fd_pos ?f) div 512" unfolding up by (rule div_le_mono) simp
    have IH: "read_chunks k bs sz (n + c) ?s = Inr (take (sz - (n + c)) (drop (unat (fd_pos ?f)) (concat (map (hd_disk ?s) B))),
        ?s\<lparr>file_table := (file_table ?s)[k := ?f\<lparr>fd_pos := fd_pos ?f + of_nat (sz - (n + c))\<rparr>]\<rparr>)"
    proof (rule less.hyps [OF m])
      show "unat (fd_pos ?f) + (sz - (n + c)) \<le> 512 * length B" unfolding e by (rule P(4))
      show "\<forall>q. unat (fd_pos ?f) div 512 \<le> q \<and> 512 * q < unat (fd_pos ?f) + (sz - (n + c)) \<longrightarrow> bs ! q = B ! q"
        unfolding e using P(6) q' by auto
    qed (use P c(1) True in simp_all)
    have sum: "c + (sz - (n + c)) = sz - n" using c(1) by simp
    then have sw: "of_nat c + of_nat (sz - (n + c)) = (of_nat (sz - n) :: u32)" by (metis of_nat_add)
    have dl: "\<forall>l\<in>set B. length (hd_disk s l) = 512" using P(8) by (simp add: disk_ok_def)
    have ch: "take c (drop ?p ?X) = take c (drop ?r (hd_disk s (B ! ?q)))"
      using concat_blocks_part [OF dl q c(2)] unfolding pq .
    have tk: "take (sz - n) (drop ?p ?X) = take c (drop ?r (hd_disk s (B ! ?q))) @ take (sz - (n + c)) (drop (?p + c) ?X)"
      unfolding ch [symmetric] sum [symmetric] take_add by (simp add: add.commute)
    show ?thesis
      using read_chunk_step [OF True P(1,2) c_def [symmetric] rdb rm IH] sw unfolding up tk by (simp add: add.assoc)
  qed
qed

lemma fold_updates:
  "length (fold (\<lambda>k bs. bs[k := g k]) [a..<n] xs) = length xs"
  "q < length xs \<Longrightarrow> fold (\<lambda>k bs. bs[k := g k]) [a..<n] xs ! q = (if a \<le> q \<and> q < n then g q else xs ! q)"
proof -
  show l: "length (fold (\<lambda>k bs. bs[k := g k]) [a..<n] xs) = length xs" for n by (induction n) auto
  show "q < length xs \<Longrightarrow> fold (\<lambda>k bs. bs[k := g k]) [a..<n] xs ! q = (if a \<le> q \<and> q < n then g q else xs ! q)"
  proof (induction n)
    case (Suc n)
    then show ?case by (cases "q = n") (auto simp: l)
  qed simp
qed

lemma read_blocks_of_ok:
  assumes "a \<le> z" and "z < 12"
  obtains bs where "read_blocks_of i a z s = Inr (bs, s)" and "length bs = 140" and "\<forall>q. a \<le> q \<and> q \<le> z \<longrightarrow> bs ! q = i_sectors i ! q"
proof (cases "z = a")
  case True
  then show thesis using assms by (intro that [of "(replicate 140 0)[z := i_sectors i ! z]"]) (auto simp: read_blocks_of_def Let_def)
next
  case False
  then show thesis using assms
    by (intro that [of "fold (\<lambda>k bs. bs[k := i_sectors i ! k]) [a..<Suc z] (replicate 140 0)"])
      (auto simp: read_blocks_of_def Let_def fold_updates simp del: upt_Suc)
qed

lemma file_read_ok:
  assumes f: "k < length (file_table s)" "file_table s ! k = f" "fd_inode f = ip" and i: "file_ok s i" "inodes s ip = Some i"
    and l: "layout_ok s" and p: "unat (fd_pos f) \<le> unat (i_size i)" "unat (fd_pos f) + unat count < 2 ^ 32"
    and m: "m = min (unat count) (unat (i_size i) - unat (fd_pos f))" "m = 0 \<longrightarrow> count = 0" "m \<le> buf_len"
    and h: "served h file_calls L [] (heap s)"
  obtains hp where "file_read h k buf_len count s = Inr ((of_nat m, take m (drop (unat (fd_pos f)) (file_bytes (hd_disk s) i))),
    s\<lparr>heap := hp, file_table := (file_table s)[k := f\<lparr>fd_pos := fd_pos f + of_nat m\<rparr>]\<rparr>)"
proof -
  let ?p = "unat (fd_pos f)" and ?B = "file_blocks i"
  let ?sz = "if fd_pos f + count > i_size i then i_size i - fd_pos f else count"
  have up: "unat (fd_pos f + count) = ?p + unat count" using p(2) by (simp add: unat_add_small)
  have ud: "unat (i_size i - fd_pos f) = unat (i_size i) - ?p" using p(1) by (simp add: unat_sub word_le_nat_alt)
  have sz: "unat ?sz = m" using up ud m(1) p(1) by (simp add: word_less_nat_alt)
  have szw: "?sz = of_nat m" unfolding sz [symmetric] by (simp only: of_nat_unat ucast_id)
  have nz: "\<not> (fd_pos f + count > i_size i \<and> ?sz = 0)"
    using m(2) sz up p(1) by (auto simp: word_less_nat_alt unat_eq_0)
  have le: "?p + m \<le> unat (i_size i)" using m(1) p(1) by simp
  have s12: "unat (i_size i) < 6144" and sB: "length ?B \<le> 12" "unat (i_size i) \<le> 512 * length ?B"
    using i(1) file_size [OF i(1)] by (auto simp: file_ok_def)
  let ?a = "?p div 512" and ?z = "(?p + m) div 512"
  have az: "?a \<le> ?z" "?z < 12" using le s12 by (auto intro: div_le_mono)
  have upm: "unat (fd_pos f + of_nat m) = ?p + m" using le s12 by (intro unat_add_nat) simp
  have h4: "served h [Get False BLOCK_SIZE, Get False (BLOCK_SIZE + 48), Put False 1, Put False 0] L [] (heap s)"
    using h by (simp add: file_calls_def BLOCK_SIZE_def SECTOR_SIZE_def)
  obtain b k1 where b: "mallocM h False BLOCK_SIZE s = Inr (b, s\<lparr>heap := k1\<rparr>)" "b \<noteq> 0"
    "served h [Get False (BLOCK_SIZE + 48), Put False 1, Put False 0] L [b] k1" by (rule mallocM_served [OF h4])
  have h3: "served h [Get False (BLOCK_SIZE + 48), Put False 1, Put False 0] L [b] (heap (s\<lparr>heap := k1\<rparr>))" using b(3) by simp
  obtain q k2 where q: "mallocM h False (BLOCK_SIZE + 48) (s\<lparr>heap := k1\<rparr>) = Inr (q, s\<lparr>heap := k1\<rparr>\<lparr>heap := k2\<rparr>)" "q \<noteq> 0"
    "served h [Put False 1, Put False 0] L [q, b] k2" by (rule mallocM_served [OF h3])
  let ?s2 = "s\<lparr>heap := k2\<rparr>"
  obtain bs where bs: "read_blocks_of i ?a ?z ?s2 = Inr (bs, ?s2)" "length bs = 140" "\<forall>q. ?a \<le> q \<and> q \<le> ?z \<longrightarrow> bs ! q = i_sectors i ! q"
    by (rule read_blocks_of_ok [OF az])
  have bq: "bs ! j = ?B ! j" if j: "?a \<le> j" "512 * j < ?p + m" for j
  proof -
    have "j \<le> ?z" using j(2) by (simp add: less_eq_div_iff_mult_less_eq)
    moreover have "j < length ?B" using j(2) le sB(2) by simp
    ultimately show ?thesis using bs(3) j(1) file_sector [OF i(1), of j] sB(1) by simp
  qed
  have B: "\<forall>l\<in>set ?B. l \<le> max_lba" using i(1) block_in_range(1) [OF l] by (auto simp: file_ok_def)
  let ?s3 = "?s2\<lparr>file_table := (file_table s)[k := f\<lparr>fd_pos := fd_pos f + of_nat m\<rparr>]\<rparr>"
  have rc: "read_chunks k bs m 0 ?s2 = Inr (take m (drop ?p (concat (map (hd_disk s) ?B))), ?s3)"
    using read_chunks_ok [of ?s2 k f 0 m ?B bs] f bs(2) sB le bq B l by (simp add: layout_ok_def map_ok_def)
  have tk: "take m (drop ?p (concat (map (hd_disk s) ?B))) = take m (drop ?p (file_bytes (hd_disk s) i))"
    using le by (simp add: file_bytes_def drop_take)
  have h2: "served h [Put False 1, Put False 0] L [q, b] (heap ?s3)" using q(3) by simp
  obtain k3 where k3: "freeM h False b ?s3 = Inr ((), ?s3\<lparr>heap := k3\<rparr>)" "served h [Put False 0] L [q] k3"
    by (rule freeM_served [OF h2], rule that) auto
  have h1: "served h [Put False 0] L [q] (heap (?s3\<lparr>heap := k3\<rparr>))" using k3(2) by simp
  obtain k4 where k4: "freeM h False q (?s3\<lparr>heap := k3\<rparr>) = Inr ((), ?s3\<lparr>heap := k3\<rparr>\<lparr>heap := k4\<rparr>)"
    by (rule freeM_served [OF h1], rule that) auto
  have g: "get_file k s = Inr (f, s)" "get_inode ip s = Inr (i, s)" using f i(2) by (simp_all add: get_file_def get_inode_def rd_def)
  have q1: "mallocM h False (BLOCK_SIZE + 48) (s\<lparr>heap := k1\<rparr>) = Inr (q, ?s2)" using q(1) by simp
  have nz': "(fd_pos f + count > i_size i \<and> (of_nat m :: u32) = 0) = False" using nz unfolding szw by simp
  have um: "unat (of_nat m :: u32) = m" using sz unfolding szw .
  have as: "(?a < 139 \<and> ?z < 139) = True" "(buf_len < m) = False" using az m(3) by simp_all
  have "file_read h k buf_len count s = Inr ((of_nat m, take m (drop ?p (file_bytes (hd_disk s) i))), ?s3\<lparr>heap := k3\<rparr>\<lparr>heap := k4\<rparr>)"
    by (simp only: file_read_def bindM_run g bindR_Inr prod.case f(3) Let_def szw nz' um if_False b(1,2) q1 q(2) upm assertM_run as ASSERT_True
        bs(1) rc tk k3(1) k4 retM_run)
  then show thesis by (intro that [of k4]) simp
qed

subsection \<open>The properties\<close>

text \<open>
  C34. \<^verbatim>\<open>file_write\<close> appends. On a file in order that stays within its 12 direct blocks, whose inode has a number below 256 and
  lies in one sector, with enough free blocks and a heap that serves the four calls of the function, it returns the number of bytes asked for; the bytes of the file are the old ones followed by those of the buffer, and
  its size has grown by them. The file is in order again, its inode on the disk is the new one, the bitmap on the disk agrees
  with the one in memory, and no block in use by anything else has changed.
\<close>

theorem file_write_appends:
  assumes f: "k < length (file_table s)" "file_table s ! k = f" "fd_inode f = ip" and i: "file_ok s i" "inodes s ip = Some i"
    and l: "layout_ok s" and r: "0 \<in> used_blocks s" and home: "inode_home s (i_no i)"
    and w: "unat (i_size i) + unat count < 12 * 512" "unat count \<le> length src"
    and c: "card (used_blocks s) + 12 \<le> block_cap s" and h: "served h file_calls L [] (heap s)"
  shows "\<exists>s' i'. file_write h k src count s = Inr (count, s') \<and> inodes s' = (inodes s)(ip \<mapsto> i')
    \<and> i_size i' = i_size i + count \<and> file_bytes (hd_disk s') i' = file_bytes (hd_disk s) i @ take (unat count) src
    \<and> file_ok s' i' \<and> layout_ok s' \<and> disk_inode s' (unat (i_no i)) = i'\<lparr>i_open_cnts := 0, write_deny := False\<rparr>
    \<and> (\<forall>y. block_in s y \<and> y \<notin> set (file_blocks i) \<longrightarrow> hd_disk s' y = hd_disk s y)"
proof -
  have w': "unat (i_size i) + unat count < 6144" using w(1) by simp
  then have "(unat (i_size i) + unat count) div 512 + 1 - length (file_blocks i) \<le> 12" by (simp add: le_diff_conv less_mult_imp_div_less)
  then have c': "card (used_blocks s) + ((unat (i_size i) + unat count) div 512 + 1 - length (file_blocks i)) \<le> block_cap s"
    using c by linarith
  obtain s' i' where s: "file_write h k src count s = Inr (count, s')" "inodes s' = (inodes s)(ip \<mapsto> i')"
    "i_size i' = i_size i + count" "i_no i' = i_no i" "file_ok s' i'" "layout_ok s'"
    "file_bytes (hd_disk s') i' = file_bytes (hd_disk s) i @ take (unat count) src"
    "file_table s' = (file_table s)[k := f\<lparr>fd_pos := i_size i - 1 + count\<rparr>]"
    "\<forall>y. block_in s y \<and> y \<notin> set (file_blocks i) \<longrightarrow> hd_disk s' y = hd_disk s y"
    "disk_inode s' (unat (i_no i)) = pure_inode i'"
    by (rule file_write_ok [OF f i l r home w' w(2) c' h])
  then show ?thesis by (intro exI [of _ s'] exI [of _ i']) (simp add: pure_inode_def)
qed


text \<open>The small file system with an empty file open, and the same file with three bytes in it.\<close>

definition file_fs :: "kmem fs" where
  "file_fs = small_fs\<lparr>inodes := [50 \<mapsto> inode_init 2], file_table := (file_table small_fs)[3 := \<lparr>fd_pos = 0, fd_flag = 2, fd_inode = 50\<rparr>]\<rparr>"

definition full_map :: bitmap where
  "full_map = \<lparr>btmp_bytes_len = 512, bits = 3 # replicate 511 0\<rparr>"

definition read_fs :: "kmem fs" where
  "read_fs = file_fs\<lparr>inodes := [50 \<mapsto> (inode_init 2)\<lparr>i_size := 3, i_sectors := 801 # replicate 12 0\<rparr>],
     cur_part := (cur_part small_fs)\<lparr>block_bitmap := full_map\<rparr>,
     hd_disk := (hd_disk small_fs)(102 := 3 # replicate 511 0, 801 := [7, 8, 9] @ replicate 509 0)\<rparr>"

lemma small_map_used: "used_bits small_map = {0}"
proof -
  have "bit_at small_map j \<longleftrightarrow> j = 0" if "j < 4096" for j
    using that by (cases "j div 8") (auto simp: bit_at_def small_map_def nth_Cons bit_1_iff)
  then show ?thesis by (auto simp: used_bits_def bit_cnt_def small_map_def)
qed

lemma full_map_used: "used_bits full_map = {0, 1}"
proof -
  have b3: "bit (3 :: u8) n \<longleftrightarrow> n = 0 \<or> n = 1" for n
    by (cases n; cases "n - 1") (auto simp: bit_numeral_rec)
  have "bit_at full_map j \<longleftrightarrow> j = 0 \<or> j = 1" if "j < 4096" for j
  proof (cases "j < 8")
    case True
    then show ?thesis using b3 [of j] by (simp add: bit_at_def full_map_def)
  next
    case False
    then have "j div 8 = Suc (j div 8 - 1)" "j div 8 - 1 < 511" using that by (simp_all add: less_mult_imp_div_less)
    then have "bits full_map ! (j div 8) = 0" by (metis full_map_def bitmap.select_convs(2) nth_Cons_Suc nth_replicate)
    then show ?thesis using False by (simp add: bit_at_def)
  qed
  then show ?thesis by (auto simp: used_bits_def bit_cnt_def full_map_def)
qed

lemma file_fs_ok: "file_ok file_fs (inode_init 2)" "layout_ok file_fs" "inode_home file_fs 2" "used_blocks file_fs = {0}"
  "block_cap file_fs = 4096" "served sys_heap file_calls {} [] (heap file_fs)"
proof -
  show u: "used_blocks file_fs = {0}" by (simp add: used_blocks_def file_fs_def small_fs_def small_map_used)
  show "file_ok file_fs (inode_init 2)" by (simp add: file_ok_def file_blocks_def inode_init_def)
  show "block_cap file_fs = 4096" by (simp add: block_cap_def bit_cnt_def file_fs_def small_fs_def small_map_def)
  show "layout_ok file_fs"
    by (simp add: layout_ok_def map_ok_def map_synced_def file_fs_def small_fs_def small_sb_def small_map_def bitmap_ok_def bit_cnt_def
        map_sects_def map_lba_def data_lba_def disk_ok_def read_secs_def block_cap_def)
  show "inode_home file_fs 2"
    using small_fs_ok(1)
    by (simp add: inode_home_def inode_secs_def table_ok_def table_lba_def map_lba_def map_sects_def data_lba_def file_fs_def small_fs_def small_sb_def)
  have "served sys_heap file_calls {} [] file_heap" by (rule file_heap_serves; code_simp)
  then show "served sys_heap file_calls {} [] (heap file_fs)" by (simp add: file_fs_def small_fs_def)
qed

theorem file_write_appends_witness:
  "\<exists>s' i'. file_write sys_heap 3 [7, 8, 9] 3 file_fs = Inr (3, s') \<and> inodes s' 50 = Some i' \<and> file_bytes (hd_disk s') i' = [7, 8, 9]"
proof -
  have f: "3 < length (file_table file_fs)" "file_table file_fs ! 3 = \<lparr>fd_pos = 0, fd_flag = 2, fd_inode = 50\<rparr>"
    "fd_inode \<lparr>fd_pos = 0, fd_flag = 2, fd_inode = 50\<rparr> = 50" "inodes file_fs 50 = Some (inode_init 2)"
    by (simp_all add: file_fs_def small_fs_def)
  have i: "file_bytes d (inode_init 2) = []" "i_size (inode_init 2) = 0" "i_no (inode_init 2) = 2" for d
    by (simp_all add: file_bytes_def inode_init_def)
  obtain s' i' where "file_write sys_heap 3 [7, 8, 9] 3 file_fs = Inr (3, s')" "inodes s' = (inodes file_fs)(50 \<mapsto> i')"
    "file_bytes (hd_disk s') i' = file_bytes (hd_disk file_fs) (inode_init 2) @ take (unat (3 :: u32)) [7, 8, 9]"
    using file_write_appends [OF f(1-3) file_fs_ok(1) f(4) file_fs_ok(2), of "3 :: u32" "[7, 8, 9]" sys_heap "{}"] file_fs_ok(3-6) i(2,3)
    by auto
  then show ?thesis using i(1) by auto
qed


end
