(* ===== verification/Path.thy ===== *)
theory Path
  imports Fs_State Inode Direct
begin

section \<open>Paths (\<^verbatim>\<open>fileSystem/fs.c\<close>)\<close>

text \<open>
  The parser of path names and the walk along a path through the directories.
\<close>

subsection \<open>Parsing\<close>

function skip_slashes :: "buf \<Rightarrow> nat \<Rightarrow> nat res" where
  "skip_slashes pathname p =
     (if p < length pathname then
        if pathname ! p = 47 then skip_slashes pathname (Suc p) else Inr p
      else Inl Bad_Access)"
  by pat_completeness auto
termination
  by (relation "measure (\<lambda>(b, p). length b - p)") auto

function copy_name :: "buf \<Rightarrow> nat \<Rightarrow> buf \<Rightarrow> nat \<Rightarrow> (nat \<times> buf) res" where
  "copy_name pathname p name_host q =
     (if p < length pathname then
        if pathname ! p \<noteq> 47 \<and> pathname ! p \<noteq> 0 then
          bindR (wr name_host q (pathname ! p)) (\<lambda>nm. copy_name pathname (Suc p) nm (Suc q))
        else Inr (p, name_host)
      else Inl Bad_Access)"
  by pat_completeness auto
termination
  by (relation "measure (\<lambda>(b, p, nm, q). length b - p)") auto

declare skip_slashes.simps [simp del] copy_name.simps [simp del]

text \<open>Where the rest of the path is, or no rest, and the name; the code does not end the name.\<close>

definition path_parse :: "buf \<Rightarrow> nat \<Rightarrow> buf \<Rightarrow> (nat option \<times> buf) res" where
  "path_parse pathname p name_host =
     bindR (rd pathname p) (\<lambda>c.
     if c = 0 then Inr (None, name_host)
     else
       bindR (if c = 47 then skip_slashes pathname (Suc p) else Inr p) (\<lambda>p1.
       bindR (copy_name pathname p1 name_host 0) (\<lambda>(p2, nm). Inr (Some p2, nm))))"

lemma skip_slashes_le: "skip_slashes b p = Inr q \<Longrightarrow> p \<le> q"
proof (induction b p rule: skip_slashes.induct)
  case (1 b p)
  from "1.prems" have "(if p < length b then if b ! p = 47 then skip_slashes b (Suc p) else Inr p else Inl Bad_Access) = Inr q"
    by (subst (asm) skip_slashes.simps)
  then show ?case using "1.IH" by (auto split: if_splits)
qed

lemma copy_name_fwd:
  "copy_name b p nm k = Inr (q, nm') \<Longrightarrow> p \<le> q \<and> length nm' = length nm
   \<and> (q = p \<longrightarrow> nm' = nm) \<and> q < length b"
proof (induction b p nm k rule: copy_name.induct)
  case (1 b p nm k)
  show ?case
  proof (cases "p < length b \<and> b ! p \<noteq> 47 \<and> b ! p \<noteq> 0")
    case True
    then have "\<exists>nm1. wr nm k (b ! p) = Inr nm1 \<and> copy_name b (Suc p) nm1 (Suc k) = Inr (q, nm')"
      using "1.prems" by (subst (asm) copy_name.simps) (auto simp: bindR_eq_Inr)
    then obtain nm1 where w: "wr nm k (b ! p) = Inr nm1" "copy_name b (Suc p) nm1 (Suc k) = Inr (q, nm')" by blast
    from "1.IH" [of nm1] True w show ?thesis by (auto simp: wr_eq_Inr)
  next
    case False
    then show ?thesis using "1.prems" by (subst (asm) copy_name.simps) (auto split: if_splits)
  qed
qed

text \<open>A call that gives a name has moved on.\<close>

lemma path_parse_moves:
  assumes "path_parse b p (replicate 16 0) = Inr (Some q, nm)" and "nm ! 0 \<noteq> 0"
  shows "p < q \<and> q < length b"
proof -
  obtain p1 where p1: "p \<le> p1" "copy_name b p1 (replicate 16 0) 0 = Inr (q, nm)"
    using assms(1) skip_slashes_le [of b "Suc p"] unfolding path_parse_def bindR_eq_Inr
    by (auto split: if_splits simp: bindR_eq_Inr) (meson Suc_leD)
  from copy_name_fwd [OF p1(2)] assms(2) p1(1) show ?thesis by (cases "q = p1") auto
qed

function depth_loop :: "buf \<Rightarrow> nat option \<Rightarrow> buf \<Rightarrow> u32 \<Rightarrow> u32 res" where
  "depth_loop pathname r nm depth =
     (if nm ! 0 \<noteq> 0 then
        (case r of
           None \<Rightarrow> Inr (depth + 1)
         | Some p \<Rightarrow>
             bindR (path_parse pathname p (replicate 16 0)) (\<lambda>(r1, nm1).
             depth_loop pathname r1 nm1 (depth + 1)))
      else Inr depth)"
  by pat_completeness auto
termination
proof (relation "measures [\<lambda>(b, r, nm, d). (if nm ! 0 \<noteq> 0 then case r of None \<Rightarrow> 1 | Some p \<Rightarrow> 2 + (length b - p) else 0)]", goal_cases)
  case 1
  show ?case by simp
next
  case (2 b r nm d p x r1 nm1)
  then show ?case
    using path_parse_moves [of b p _ nm1] by (cases r1) (auto split: prod.splits)
qed

text \<open>The array \<^verbatim>\<open>name\<close> is not initialised: a path without a first name makes the loop read what is not there.\<close>

definition path_depth_cnt :: "buf \<Rightarrow> u32 res" where
  "path_depth_cnt pathname =
     bindR (path_parse pathname 0 (replicate 16 0)) (\<lambda>(r, nm).
     if nm ! 0 = 0 then Inl Bad_Access else depth_loop pathname r nm 0)"

subsection \<open>Walking\<close>

record path_search_record =
  searched_path :: buf
  parent_dir :: dirp
  file_type :: u32

definition no_record :: path_search_record where
  "no_record = \<lparr>searched_path = replicate 512 0, parent_dir = Root_Dir, file_type = FT_UNKNOWN\<rparr>"

definition is_str :: "buf \<Rightarrow> buf \<Rightarrow> bool res" where
  "is_str a b = bindR (strcmp a 0 b 0) (\<lambda>c. Inr (c = 0))"

definition is_root_path :: "buf \<Rightarrow> bool res" where
  "is_root_path pathname =
     bindR (is_str pathname [47, 0]) (\<lambda>a. if a then Inr True
     else bindR (is_str pathname [47, 46, 0]) (\<lambda>b. if b then Inr True
     else is_str pathname [47, 46, 46, 0]))"

definition add_name :: "buf \<Rightarrow> buf \<Rightarrow> buf res" where
  "add_name path nm =
     bindR (strlen path 0) (\<lambda>n. ASSERT (n < 512)
       (bindR (strcat path 0 [47, 0] 0) (\<lambda>p1. strcat p1 0 nm 0)))"

text \<open>The loop. \<open>n\<close> bounds the rounds; each takes a name off the path, so the length of the path is enough. The
  arguments: the rest of the path, the name, the record, the last directory left, the entry found last.\<close>

fun search_loop :: "nat \<Rightarrow> 'k heap_ops \<Rightarrow> buf \<Rightarrow> nat option \<Rightarrow> buf \<Rightarrow> path_search_record \<Rightarrow> u32 \<Rightarrow> buf option \<Rightarrow> (u32 \<times> path_search_record, 'k) fsm" where
  "search_loop n h pathname sub_path nm r parent_inode_no dir_e =
     (if nm ! 0 = 0 then
        bindM (dir_close h (parent_dir r)) (\<lambda>_.
        bindM (dir_open h parent_inode_no) (\<lambda>d.
        case dir_e of
          None \<Rightarrow> failM Bad_Access
        | Some e \<Rightarrow> bindM (liftM (de_no e 0)) (\<lambda>no. retM (no, r\<lparr>parent_dir := d, file_type := FT_DIRECTORY\<rparr>))))
      else case n of 0 \<Rightarrow> failM Diverge | Suc n1 \<Rightarrow>
        bindM (liftM (add_name (searched_path r) nm)) (\<lambda>sp.
        bindM (search_dir_entry h (parent_dir r) nm) (\<lambda>found.
        case found of
          None \<Rightarrow> retM (M1, r\<lparr>searched_path := sp\<rparr>)
        | Some e \<Rightarrow>
            bindM (liftM (case sub_path of None \<Rightarrow> Inr (None, replicate 16 0)
              | Some p \<Rightarrow> path_parse pathname p (replicate 16 0))) (\<lambda>(sub1, nm1).
            bindM (liftM (de_type e 0)) (\<lambda>t.
            bindM (liftM (de_no e 0)) (\<lambda>no.
            if t = FT_DIRECTORY then
              bindM (the_inode_of (parent_dir r)) (\<lambda>ip. bindM (get_inode ip) (\<lambda>pi.
              bindM (dir_close h (parent_dir r)) (\<lambda>_.
              bindM (dir_open h no) (\<lambda>d.
              search_loop n1 h pathname sub1 nm1 (r\<lparr>searched_path := sp, parent_dir := d\<rparr>) (i_no pi) (Some e)))))
            else if t = FT_REGULAR then
              retM (no, r\<lparr>searched_path := sp, file_type := FT_REGULAR\<rparr>)
            else search_loop n1 h pathname sub1 nm1 (r\<lparr>searched_path := sp\<rparr>) parent_inode_no (Some e)))))))"

declare search_loop.simps [simp del]

text \<open>The inode number, or \<^verbatim>\<open>-1\<close>, with the record filled in.\<close>

definition search_file :: "'k heap_ops \<Rightarrow> buf \<Rightarrow> (u32 \<times> path_search_record, 'k) fsm" where
  "search_file h pathname =
     bindM (liftM (is_root_path pathname)) (\<lambda>root.
     if root then retM (0, no_record\<lparr>file_type := FT_DIRECTORY\<rparr>)
     else
       bindM (liftM (strlen pathname 0)) (\<lambda>path_len.
       assertM (pathname ! 0 = 47 \<and> path_len > 1 \<and> path_len < MAX_PATH_LEN)
         (bindM (liftM (path_parse pathname 0 (replicate 16 0))) (\<lambda>(sub_path, nm).
          search_loop (length pathname) h pathname sub_path nm no_record 0 None))))"

subsection \<open>The names of a path\<close>

function path_names :: "u8 list \<Rightarrow> u8 list list" where
  "path_names s =
     (let t = dropWhile (\<lambda>c. c = 47) s; w = takeWhile (\<lambda>c. c \<noteq> 47) t in
      if w = [] then [] else w # path_names (dropWhile (\<lambda>c. c \<noteq> 47) t))"
  by pat_completeness auto
termination
proof (relation "measure length", goal_cases)
  case (2 s t w)
  have "length t = length w + length (dropWhile (\<lambda>c. c \<noteq> 47) t)"
    unfolding 2(2) by (metis length_append takeWhile_dropWhile_id)
  moreover have "length t \<le> length s" unfolding 2(1) by (rule length_dropWhile_le)
  ultimately show ?case using 2(3) by (cases w) auto
qed simp

declare path_names.simps [simp del]

text \<open>The first name and the rest, as \<^verbatim>\<open>path_parse\<close> takes them.\<close>

definition first_name :: "u8 list \<Rightarrow> u8 list" where
  "first_name s = takeWhile (\<lambda>c. c \<noteq> 47) (dropWhile (\<lambda>c. c = 47) s)"

definition rest_path :: "u8 list \<Rightarrow> u8 list" where
  "rest_path s = dropWhile (\<lambda>c. c \<noteq> 47) (dropWhile (\<lambda>c. c = 47) s)"

lemma path_names_unfold: "path_names s = (if first_name s = [] then [] else first_name s # path_names (rest_path s))"
  by (subst path_names.simps) (simp add: first_name_def rest_path_def Let_def)

lemma path_split: "s = takeWhile (\<lambda>c. c = 47) s @ first_name s @ rest_path s"
  by (simp only: first_name_def rest_path_def takeWhile_dropWhile_id)

lemma skip_slashes_cstr:
  "cstr b p s \<Longrightarrow> skip_slashes b p = Inr (p + length (takeWhile (\<lambda>c. c = 47) s))"
proof (induction s arbitrary: p)
  case Nil
  then show ?case by (subst skip_slashes.simps) simp
next
  case (Cons c s)
  then show ?case by (subst skip_slashes.simps) auto
qed

lemma copy_name_cstr:
  "cstr b p s \<Longrightarrow> q + length (takeWhile (\<lambda>c. c \<noteq> 47) s) \<le> length nm \<Longrightarrow>
   copy_name b p nm q = Inr (p + length (takeWhile (\<lambda>c. c \<noteq> 47) s), put q (takeWhile (\<lambda>c. c \<noteq> 47) s) nm)"
proof (induction s arbitrary: p q nm)
  case Nil
  then show ?case by (subst copy_name.simps) simp
next
  case (Cons c s)
  then show ?case by (subst copy_name.simps) (auto simp: wr_def put_Cons split: if_splits)
qed

lemma path_parse_cstr:
  assumes s: "cstr b p s" "s \<noteq> []" and l: "length (first_name s) \<le> length nm"
  shows "path_parse b p nm = Inr (Some (p + length s - length (rest_path s)), put 0 (first_name s) nm)"
    and "cstr b (p + length s - length (rest_path s)) (rest_path s)"
proof -
  let ?k = "length (takeWhile (\<lambda>c. c = 47) s)"
  have sp: "s = takeWhile (\<lambda>c. c = 47) s @ first_name s @ rest_path s" by (rule path_split)
  have len: "length s = ?k + length (first_name s) + length (rest_path s)"
    using arg_cong [OF sp, of length] by (simp only: length_append add.assoc)
  have c1: "cstr b (p + ?k) (dropWhile (\<lambda>c. c = 47) s)"
    using cstr_append [of b p "takeWhile (\<lambda>c. c = 47) s" "dropWhile (\<lambda>c. c = 47) s"] s(1) by simp
  have c2: "cstr b (p + ?k + length (first_name s)) (rest_path s)"
    using cstr_append [of b "p + ?k" "first_name s" "rest_path s"] c1 by (simp add: first_name_def rest_path_def)
  show "cstr b (p + length s - length (rest_path s)) (rest_path s)" using c2 len by (simp add: add.assoc)
  obtain c t where ct: "s = c # t" "c \<noteq> 0" "rd b p = Inr c" using s by (cases s) (auto simp: rd_def)
  have sk: "(if c = 47 then skip_slashes b (Suc p) else Inr p) = Inr (p + ?k)"
    using s(1) ct(1) skip_slashes_cstr [of b "Suc p" t] by simp
  show "path_parse b p nm = Inr (Some (p + length s - length (rest_path s)), put 0 (first_name s) nm)"
    using copy_name_cstr [OF c1, of 0 nm] l len ct sk by (simp add: path_parse_def first_name_def)
qed

lemma path_parse_end: "cstr b p [] \<Longrightarrow> path_parse b p nm = Inr (None, nm)"
  by (simp add: path_parse_def rd_def)

text \<open>A name in its 16 bytes.\<close>

definition name_buf :: "u8 list \<Rightarrow> buf" where
  "name_buf w = put 0 w (replicate 16 0)"

lemma name_buf_Nil: "name_buf [] ! 0 = 0" "name_buf [] = replicate 16 0" by (simp_all add: name_buf_def)

lemma name_buf_first: "w \<noteq> [] \<Longrightarrow> length w \<le> 16 \<Longrightarrow> 0 \<notin> set w \<Longrightarrow> name_buf w ! 0 \<noteq> 0"
  by (cases w) (auto simp: name_buf_def nth_put)

lemma name_buf_cstr: "length w < 16 \<Longrightarrow> 0 \<notin> set w \<Longrightarrow> cstr (name_buf w) 0 w"
  unfolding name_buf_def by (intro cstrI) (auto simp: nth_put)

lemma first_name_set: "set (first_name s) \<subseteq> set s"
  by (auto simp: first_name_def dest: set_takeWhileD set_dropWhileD)

lemma rest_path_set: "set (rest_path s) \<subseteq> set s"
  by (auto simp: rest_path_def dest: set_dropWhileD)

lemma first_name_Nil_iff: "first_name s = [] \<longleftrightarrow> path_names s = []"
  by (simp add: path_names_unfold [of s])

text \<open>One call of the parser, at a place that has the string \<open>s\<close>: the next name, and a place or none.\<close>

lemma path_parse_next:
  assumes s: "cstr b p s" and l: "\<forall>w\<in>set (path_names s). length w < 16"
  obtains r where "path_parse b p (replicate 16 0) = Inr (r, name_buf (first_name s))"
    and "case r of None \<Rightarrow> s = [] | Some q \<Rightarrow> cstr b q (rest_path s)"
proof (cases "s = []")
  case True
  then show thesis using path_parse_end [of b p "replicate 16 0"] s
    by (intro that [of None]) (simp_all add: first_name_def name_buf_Nil)
next
  case False
  have "length (first_name s) < 16" using l by (auto simp: path_names_unfold [of s] split: if_splits)
  then show thesis
    using path_parse_cstr [OF s False, of "replicate 16 0"] by (intro that [of "Some (p + length s - length (rest_path s))"]) (simp_all add: name_buf_def)
qed

lemma depth_loop_names:
  assumes "0 \<notin> set w" "length w < 16" and "w = [] \<longrightarrow> t = []"
    and "case r of None \<Rightarrow> t = [] | Some p \<Rightarrow> cstr b p t" and "\<forall>x\<in>set (path_names t). length x < 16"
  shows "depth_loop b r (name_buf w) d = Inr (d + of_nat (if w = [] then 0 else Suc (length (path_names t))))"
  using assms
proof (induction "length t" arbitrary: t w r d rule: less_induct)
  case less
  show ?case
  proof (cases "w = []")
    case True
    then show ?thesis by (subst depth_loop.simps) (simp add: name_buf_Nil)
  next
    case False
    have nz: "name_buf w ! 0 \<noteq> 0" using name_buf_first [of w] False less.prems(1,2) by simp
    show ?thesis
    proof (cases r)
      case None
      then have "path_names t = []" using less.prems(4) by (subst path_names.simps) simp
      then show ?thesis using False nz None by (subst depth_loop.simps) simp
    next
      case (Some p)
      then have c: "cstr b p t" using less.prems(4) by simp
      obtain r1 where r1: "path_parse b p (replicate 16 0) = Inr (r1, name_buf (first_name t))"
        "case r1 of None \<Rightarrow> t = [] | Some q \<Rightarrow> cstr b q (rest_path t)" by (rule path_parse_next [OF c less.prems(5)])
      have un: "path_names t = (if first_name t = [] then [] else first_name t # path_names (rest_path t))" by (rule path_names_unfold)
      have step: "depth_loop b r (name_buf w) d = depth_loop b r1 (name_buf (first_name t)) (d + 1)"
        using nz Some r1(1) by (subst depth_loop.simps) simp
      show ?thesis
      proof (cases "first_name t = []")
        case True
        then show ?thesis using step False un by (simp add: depth_loop.simps [of b r1] name_buf_Nil)
      next
        case F: False
        have "length t = length (takeWhile (\<lambda>c. c = 47) t) + length (first_name t) + length (rest_path t)"
          using arg_cong [OF path_split [of t], of length] by (simp only: length_append add.assoc)
        then have lt: "length (rest_path t) < length t" using F by (cases "first_name t") auto
        have z: "0 \<notin> set (first_name t)" using cstr_no_zero [OF c] first_name_set [of t] by auto
        have l16: "length (first_name t) < 16" "\<forall>x\<in>set (path_names (rest_path t)). length x < 16"
          using less.prems(5) un F by auto
        have cc: "case r1 of None \<Rightarrow> rest_path t = [] | Some q \<Rightarrow> cstr b q (rest_path t)"
          using r1(2) by (auto simp: rest_path_def split: option.splits)
        have "depth_loop b r1 (name_buf (first_name t)) (d + 1) = Inr (d + 1 + of_nat (Suc (length (path_names (rest_path t)))))"
          using less.hyps [OF lt z l16(1) _ cc l16(2), of "d + 1"] F by simp
        then show ?thesis using step False un F by (simp add: algebra_simps)
      qed
    qed
  qed
qed

subsection \<open>The depth of a path\<close>

text \<open>
  \<^verbatim>\<open>path_depth_cnt\<close> counts the names of a path that has one: repeated slashes, and slashes at the end,
  count for nothing. It holds for names of up to 15 characters.
\<close>

theorem path_depth_counts:
  assumes s: "cstr b 0 s" and n: "path_names s \<noteq> []" and l: "\<forall>w\<in>set (path_names s). length w < 16"
  shows "path_depth_cnt b = Inr (of_nat (length (path_names s)))"
proof -
  have un: "path_names s = first_name s # path_names (rest_path s)" "first_name s \<noteq> []"
    using n path_names_unfold [of s] by (auto split: if_splits)
  have ne: "s \<noteq> []" using un(2) by (auto simp: first_name_def)
  obtain r where r: "path_parse b 0 (replicate 16 0) = Inr (r, name_buf (first_name s))"
    "case r of None \<Rightarrow> s = [] | Some q \<Rightarrow> cstr b q (rest_path s)" by (rule path_parse_next [OF s l])
  have z: "0 \<notin> set (first_name s)" using cstr_no_zero [OF s] first_name_set [of s] by auto
  have l16: "length (first_name s) < 16" "\<forall>w\<in>set (path_names (rest_path s)). length w < 16" using l un(1) by simp_all
  have c: "case r of None \<Rightarrow> rest_path s = [] | Some q \<Rightarrow> cstr b q (rest_path s)" using r(2) ne by (auto split: option.splits)
  have nz: "name_buf (first_name s) ! 0 \<noteq> 0" using name_buf_first [OF un(2)] l16(1) z by simp
  have "depth_loop b r (name_buf (first_name s)) 0 = Inr (0 + of_nat (Suc (length (path_names (rest_path s)))))"
    using depth_loop_names [OF z l16(1) _ c l16(2), of 0] un(2) by simp
  then show ?thesis using r(1) nz un(1) by (simp add: path_depth_cnt_def)
qed

theorem path_depth_counts_witness: "path_depth_cnt [47, 97, 47, 47, 98, 47, 0] = Inr 2"
proof -
  have "path_names [47, 97, 47, 47, 98, 47] = [[97], [98]]" by (simp add: path_names.simps Let_def)
  then show ?thesis using path_depth_counts [of "[47, 97, 47, 47, 98, 47, 0]" "[47, 97, 47, 47, 98, 47]"] by simp
qed

end
