(* ===== verification/Fs.thy ===== *)
theory Fs
  imports Fs_State Inode Direct File Path
begin

section \<open>The system calls of the file system (\<^verbatim>\<open>fileSystem/fs.c\<close>)\<close>

text \<open>
  A path name is a buffer that starts with the string. A result of \<^verbatim>\<open>-1\<close> is \<open>M1\<close>.
\<close>

subsection \<open>Opening and closing\<close>

text \<open>A file name behind the last slash.\<close>

definition last_name :: "buf \<Rightarrow> nat res" where
  "last_name path = bindR (strrchr path 0 47) (\<lambda>r. case r of None \<Rightarrow> Inl Bad_Access | Some p \<Rightarrow> Inr (p + 1))"

definition sys_open :: "'k heap_ops \<Rightarrow> buf \<Rightarrow> u8 \<Rightarrow> (u32, 'k) fsm" where
  "sys_open h pathname flags =
     bindM (liftM (strlen pathname 0)) (\<lambda>n.
     bindM (liftM (if n = 0 then Inl Bad_Access else rd pathname (n - 1))) (\<lambda>c.
     if c = 47 then retM M1
     else assertM (flags \<le> 7)
       (bindM (liftM (path_depth_cnt pathname)) (\<lambda>pathname_depth.
        bindM (search_file h pathname) (\<lambda>(inode_no, r).
        let found = (inode_no \<noteq> M1) in
        if file_type r = FT_DIRECTORY then bindM (dir_close h (parent_dir r)) (\<lambda>_. retM M1)
        else
          bindM (liftM (path_depth_cnt (searched_path r))) (\<lambda>path_search_depth.
          if pathname_depth \<noteq> path_search_depth then bindM (dir_close h (parent_dir r)) (\<lambda>_. retM M1)
          else if \<not> found \<and> flags AND O_CREAT = 0 then bindM (dir_close h (parent_dir r)) (\<lambda>_. retM M1)
          else if found \<and> flags AND O_CREAT \<noteq> 0 then bindM (dir_close h (parent_dir r)) (\<lambda>_. retM M1)
          else if flags AND O_CREAT = O_CREAT then
            bindM (liftM (last_name pathname)) (\<lambda>p.
            bindM (file_create h (parent_dir r) pathname p flags) (\<lambda>fd.
            bindM (dir_close h (parent_dir r)) (\<lambda>_. retM fd)))
          else file_open h inode_no flags))))))"

definition fd_local2global :: "u32 \<Rightarrow> (nat, 'k) fsm" where
  "fd_local2global local_fd =
     bindM (getM (fd_table \<circ> cur_task)) (\<lambda>t.
     bindM (liftM (rd t (unat local_fd))) (\<lambda>global_fd.
     assertM (0 \<le> sint global_fd \<and> sint global_fd < int MAX_FILE_OPEN) (retM (unat global_fd))))"

definition sys_close :: "'k heap_ops \<Rightarrow> u32 \<Rightarrow> (u32, 'k) fsm" where
  "sys_close h fd =
     (if sint fd > 2 then
        bindM (fd_local2global fd) (\<lambda>k.
        bindM (file_close h k) (\<lambda>ret.
        bindM (modM (\<lambda>s. s\<lparr>cur_task := (cur_task s)\<lparr>fd_table := (fd_table (cur_task s))[unat fd := M1]\<rparr>\<rparr>)) (\<lambda>_.
        retM ret)))
      else retM M1)"

subsection \<open>Reading and writing\<close>

text \<open>Standard output is copied to a buffer of 1024 zeros and printed as a string.\<close>

definition sys_write :: "'k heap_ops \<Rightarrow> u32 \<Rightarrow> buf \<Rightarrow> u32 \<Rightarrow> (u32, 'k) fsm" where
  "sys_write h fd src count =
     (if sint fd < 0 then retM M1
      else if fd = 1 then
        bindM (liftM (memcpy (replicate 1024 0) 0 src 0 (unat count))) (\<lambda>tmp_buf.
        bindM (liftM (strlen tmp_buf 0)) (\<lambda>n.
        bindM (modM (\<lambda>s. s\<lparr>console := console s @ [take n tmp_buf]\<rparr>)) (\<lambda>_. retM count)))
      else
        bindM (fd_local2global fd) (\<lambda>k.
        bindM (get_file k) (\<lambda>f.
        if fd_flag f AND ucast O_WRONLY \<noteq> 0 \<or> fd_flag f AND ucast O_RDWR \<noteq> 0 then file_write h k src count
        else retM M1)))"

text \<open>A read from the keyboard takes the bytes one by one. The keyboard's ring is the list of its bytes here; theory Ioqueue
  has \<^verbatim>\<open>ioq_getchar\<close> itself, with its assertion on the interrupt flag and the sleep of the reader. When there is no
  byte the call does not go on: it is \<open>Would_Block\<close>, and what becomes of it when a key comes is not part of this model.\<close>

definition kbd_getchar :: "(u8, 'k) fsm" where
  "kbd_getchar = bindM (getM kbd_queue) (\<lambda>q. case q of
       [] \<Rightarrow> failM Would_Block
     | c # cs \<Rightarrow> bindM (modM (\<lambda>s. s\<lparr>kbd_queue := cs\<rparr>)) (\<lambda>_. retM c))"

text \<open>The loop: \<open>n\<close> bytes to go into a buffer that has room for \<open>room\<close> more.\<close>

primrec read_stdin :: "nat \<Rightarrow> nat \<Rightarrow> (buf, 'k) fsm" where
  "read_stdin 0 room = retM []"
| "read_stdin (Suc n) room =
     bindM kbd_getchar (\<lambda>c.
     if room = 0 then failM Bad_Access
     else bindM (read_stdin n (room - 1)) (\<lambda>cs. retM (c # cs)))"

definition sys_read :: "'k heap_ops \<Rightarrow> u32 \<Rightarrow> nat \<Rightarrow> u32 \<Rightarrow> (u32 \<times> buf, 'k) fsm" where
  "sys_read h fd buf_len count =
     (if sint fd < 0 \<or> fd = 1 \<or> fd = 2 then retM (M1, [])
      else if fd = 0 then
        bindM (read_stdin (unat count) buf_len) (\<lambda>cs.
        retM (if count = 0 then M1 else count, cs))
      else bindM (fd_local2global fd) (\<lambda>k. file_read h k buf_len count))"

definition sys_lseek :: "u32 \<Rightarrow> u32 \<Rightarrow> u8 \<Rightarrow> (u32, 'k) fsm" where
  "sys_lseek fd offset whence =
     (if sint fd < 0 then retM M1
      else assertM (whence > 0 \<and> whence < 4)
        (bindM (fd_local2global fd) (\<lambda>k. bindM (get_file k) (\<lambda>pf. bindM (get_inode (fd_inode pf)) (\<lambda>i.
         let file_size = i_size i;
             new_pos = (if whence = 1 then offset else if whence = 2 then fd_pos pf + offset else file_size + offset) in
         if sint new_pos < 0 \<or> sint new_pos > sint (file_size - 1) then retM M1
         else bindM (set_file k (pf\<lparr>fd_pos := new_pos\<rparr>)) (\<lambda>_. retM new_pos))))))"

subsection \<open>Removing a file\<close>

fun file_in_use :: "(u32 \<Rightarrow> inode option) \<Rightarrow> u32 \<Rightarrow> open_file list \<Rightarrow> bool res" where
  "file_in_use ins inode_no [] = Inr False"
| "file_in_use ins inode_no (f # fs) =
     (if fd_inode f = 0 then file_in_use ins inode_no fs
      else case ins (fd_inode f) of
        None \<Rightarrow> Inl Bad_Access
      | Some i \<Rightarrow> if i_no i = inode_no then Inr True else file_in_use ins inode_no fs)"

definition sys_unlink :: "'k heap_ops \<Rightarrow> buf \<Rightarrow> (u32, 'k) fsm" where
  "sys_unlink h pathname =
     bindM (liftM (strlen pathname 0)) (\<lambda>n. assertM (n < MAX_PATH_LEN)
       (bindM (search_file h pathname) (\<lambda>(inode_no, r).
        assertM (inode_no \<noteq> 0)
          (if inode_no = M1 \<or> file_type r = FT_DIRECTORY then
             bindM (dir_close h (parent_dir r)) (\<lambda>_. retM M1)
           else
             bindM (getM (\<lambda>s. file_in_use (inodes s) inode_no (file_table s))) (\<lambda>u.
             bindM (liftM u) (\<lambda>used.
             if used then bindM (dir_close h (parent_dir r)) (\<lambda>_. retM M1)
             else bindM (mallocM h False (SECTOR_SIZE * 2)) (\<lambda>io_buf.
               if io_buf = 0 then bindM (dir_close h (parent_dir r)) (\<lambda>_. retM M1)
               else
                 bindM (delete_dir_entry (parent_dir r) inode_no) (\<lambda>_.
                 bindM (inode_release h inode_no) (\<lambda>_.
                 bindM (freeM h False io_buf) (\<lambda>_.
                 bindM (dir_close h (parent_dir r)) (\<lambda>_. retM 0)))))))))))"

subsection \<open>Directories\<close>

definition mkdir_rollback :: "'k heap_ops \<Rightarrow> nat \<Rightarrow> u32 \<Rightarrow> dirp \<Rightarrow> u32 \<Rightarrow> (u32, 'k) fsm" where
  "mkdir_rollback h step inode_no d io_buf =
     bindM (if step = 2 then set_inode_bit inode_no 0 else retM ()) (\<lambda>_.
     bindM (dir_close h d) (\<lambda>_. bindM (freeM h False io_buf) (\<lambda>_. retM M1)))"

text \<open>The first block of a directory: its own entry and its parent's.\<close>

definition dot_block :: "u32 \<Rightarrow> u32 \<Rightarrow> buf" where
  "dot_block inode_no parent_no =
     [46] @ replicate 15 0 @ u32_bytes inode_no @ u32_bytes FT_DIRECTORY
     @ [46, 46] @ replicate 14 0 @ u32_bytes parent_no @ u32_bytes FT_DIRECTORY @ replicate 464 0"

definition mkdir_finish :: "'k heap_ops \<Rightarrow> dirp \<Rightarrow> inode \<Rightarrow> u32 \<Rightarrow> (u32, 'k) fsm" where
  "mkdir_finish h d i io_buf =
     bindM (the_inode_of d) (\<lambda>ip. bindM (get_inode ip) (\<lambda>pi.
     bindM (inode_sync pi 1024) (\<lambda>_. bindM (inode_sync i 1024) (\<lambda>_.
     bindM (bitmap_sync (i_no i) INODE_BITMAP) (\<lambda>_. bindM (freeM h False io_buf) (\<lambda>_.
     bindM (dir_close h d) (\<lambda>_. retM 0)))))))"

definition mkdir_in :: "'k heap_ops \<Rightarrow> dirp \<Rightarrow> buf \<Rightarrow> nat \<Rightarrow> u32 \<Rightarrow> (u32, 'k) fsm" where
  "mkdir_in h d dirname dp io_buf =
     bindM inode_bitmap_alloc (\<lambda>inode_no.
     if inode_no = M1 then mkdir_rollback h 1 inode_no d io_buf
     else bindM block_bitmap_alloc (\<lambda>block_lba.
     if block_lba = M1 then mkdir_rollback h 2 inode_no d io_buf
     else
       bindM (getSb data_start_lba) (\<lambda>st. assertM (block_lba - st \<noteq> 0)
         (bindM (bitmap_sync (block_lba - st) BLOCK_BITMAP) (\<lambda>_.
          bindM (the_inode_of d) (\<lambda>ip. bindM (get_inode ip) (\<lambda>pi.
          bindM (writeM block_lba (dot_block inode_no (i_no pi)) 1) (\<lambda>_.
          bindM (getSb dir_entry_size) (\<lambda>sz.
          let new_dir_inode = set_sector 0 block_lba (inode_init inode_no)\<lparr>i_size := 2 * sz\<rparr> in
          bindM (liftM (create_dir_entry dirname dp inode_no 2)) (\<lambda>e.
          bindM (sync_dir_entry d e) (\<lambda>synced.
          if \<not> synced then mkdir_rollback h 2 inode_no d io_buf
          else mkdir_finish h d new_dir_inode io_buf)))))))))))"

definition sys_mkdir :: "'k heap_ops \<Rightarrow> buf \<Rightarrow> (u32, 'k) fsm" where
  "sys_mkdir h pathname =
     bindM (mallocM h False (SECTOR_SIZE * 2)) (\<lambda>io_buf.
     if io_buf = 0 then retM M1
     else bindM (search_file h pathname) (\<lambda>(inode_no, r).
     if inode_no \<noteq> M1 then mkdir_rollback h 1 inode_no (parent_dir r) io_buf
     else
       bindM (liftM (path_depth_cnt pathname)) (\<lambda>pathname_depth.
       bindM (liftM (path_depth_cnt (searched_path r))) (\<lambda>path_search_depth.
       if pathname_depth \<noteq> path_search_depth then mkdir_rollback h 1 inode_no (parent_dir r) io_buf
       else bindM (liftM (last_name (searched_path r))) (\<lambda>dp.
         mkdir_in h (parent_dir r) (searched_path r) dp io_buf)))))"

text \<open>The second test looks at the first character again, which is a slash: only \<^verbatim>\<open>/\<close> itself is caught.\<close>

definition sys_opendir :: "'k heap_ops \<Rightarrow> buf \<Rightarrow> (dirp option, 'k) fsm" where
  "sys_opendir h nm =
     bindM (liftM (strlen nm 0)) (\<lambda>n. assertM (n < MAX_PATH_LEN)
       (if nm ! 0 = 47 \<and> (nm ! 1 = 0 \<or> nm ! 0 = 46) then retM (Some Root_Dir)
        else bindM (search_file h nm) (\<lambda>(inode_no, r).
          bindM (if inode_no \<noteq> M1 \<and> file_type r = FT_DIRECTORY
                 then bindM (dir_open h inode_no) (\<lambda>d. retM (Some d)) else retM None) (\<lambda>ret.
          bindM (dir_close h (parent_dir r)) (\<lambda>_. retM ret)))))"

definition sys_closedir :: "'k heap_ops \<Rightarrow> dirp option \<Rightarrow> (u32, 'k) fsm" where
  "sys_closedir h d = (case d of None \<Rightarrow> retM M1 | Some x \<Rightarrow> bindM (dir_close h x) (\<lambda>_. retM 0))"

definition sys_readdir :: "dirp option \<Rightarrow> (nat option, 'k) fsm" where
  "sys_readdir d = (case d of None \<Rightarrow> failM Assert_Fail | Some x \<Rightarrow> dir_read x)"

definition sys_rewinddir :: "dirp \<Rightarrow> (unit, 'k) fsm" where
  "sys_rewinddir d = upd_dir d (\<lambda>x. x\<lparr>dir_pos := 0\<rparr>)"

definition sys_rmdir :: "'k heap_ops \<Rightarrow> buf \<Rightarrow> (u32, 'k) fsm" where
  "sys_rmdir h nm =
     bindM (search_file h nm) (\<lambda>(inode_no, r).
     assertM (inode_no \<noteq> 0)
       (bindM (if inode_no = M1 \<or> file_type r = FT_REGULAR then retM M1
               else bindM (dir_open h inode_no) (\<lambda>d.
                 bindM (dir_is_empty d) (\<lambda>empty.
                 bindM (if \<not> empty then retM M1
                        else bindM (dir_remove h (parent_dir r) d) (\<lambda>x. retM (if x = 0 then 0 else M1))) (\<lambda>retval.
                 bindM (dir_close h d) (\<lambda>_. retM retval))))) (\<lambda>retval.
        bindM (dir_close h (parent_dir r)) (\<lambda>_. retM retval))))"

subsection \<open>The working directory\<close>

definition get_parent_dir_inode_nr :: "'k heap_ops \<Rightarrow> u32 \<Rightarrow> (u32, 'k) fsm" where
  "get_parent_dir_inode_nr h child_inode_nr =
     bindM (inode_open h child_inode_nr) (\<lambda>ip. bindM (get_inode ip) (\<lambda>i.
     let block_lba = i_sectors i ! 0 in
     bindM (getSb data_start_lba) (\<lambda>st. assertM (block_lba \<ge> st)
       (bindM (inode_close h ip) (\<lambda>_.
        bindM (readM block_lba 1) (\<lambda>b.
        bindM (liftM (de_no b 1)) (\<lambda>no. bindM (liftM (de_type b 1)) (\<lambda>t.
        assertM (no < 4096 \<and> t = FT_DIRECTORY) (retM no)))))))))"

text \<open>The entry of the block whose inode number is the child's.\<close>

primrec child_entry :: "buf \<Rightarrow> u32 \<Rightarrow> nat \<Rightarrow> nat \<Rightarrow> nat option res" where
  "child_entry b c_inode_nr n 0 = Inr None"
| "child_entry b c_inode_nr n (Suc m) =
     bindR (de_no b (n - Suc m)) (\<lambda>no.
     if no = c_inode_nr then Inr (Some (n - Suc m)) else child_entry b c_inode_nr n m)"

fun child_name :: "u32 list \<Rightarrow> u32 \<Rightarrow> u32 \<Rightarrow> buf \<Rightarrow> (buf option, 'k) fsm" where
  "child_name [] c_inode_nr sz path = retM None"
| "child_name (lba # bs) c_inode_nr sz path =
     (if lba = 0 then child_name bs c_inode_nr sz path
      else bindM (readM lba 1) (\<lambda>b.
        bindM (liftM (child_entry b c_inode_nr (unat (SECTOR_SIZE div sz)) (unat (SECTOR_SIZE div sz)))) (\<lambda>r. case r of
          None \<Rightarrow> child_name bs c_inode_nr sz path
        | Some k \<Rightarrow>
            bindM (liftM (strcat path 0 [47, 0] 0)) (\<lambda>p1.
            bindM (liftM (strcat p1 0 b (24 * k))) (\<lambda>p2. retM (Some p2))))))"

definition get_child_dir_name :: "'k heap_ops \<Rightarrow> u32 \<Rightarrow> u32 \<Rightarrow> buf \<Rightarrow> (buf option, 'k) fsm" where
  "get_child_dir_name h p_inode_nr c_inode_nr path =
     bindM (inode_open h p_inode_nr) (\<lambda>ip. bindM (get_inode ip) (\<lambda>i.
     bindM (all_blocks_of i) (\<lambda>all_sectors.
     bindM (inode_close h ip) (\<lambda>_.
     bindM (getSb dir_entry_size) (\<lambda>sz.
     bindM (divM SECTOR_SIZE sz) (\<lambda>_.
     child_name all_sectors c_inode_nr sz path))))))"

text \<open>From the directory up to the root; every round adds a slash to a path of 512 bytes, so 512 rounds are enough.\<close>

fun cwd_up :: "nat \<Rightarrow> 'k heap_ops \<Rightarrow> u32 \<Rightarrow> buf \<Rightarrow> (buf option, 'k) fsm" where
  "cwd_up n h child_inode_nr path =
     (if child_inode_nr = 0 then retM (Some path)
      else case n of 0 \<Rightarrow> failM Diverge | Suc n1 \<Rightarrow>
        bindM (get_parent_dir_inode_nr h child_inode_nr) (\<lambda>parent_inode_nr.
        bindM (get_child_dir_name h parent_inode_nr child_inode_nr path) (\<lambda>r. case r of
          None \<Rightarrow> retM None
        | Some p1 \<Rightarrow> cwd_up n1 h parent_inode_nr p1)))"

declare cwd_up.simps [simp del]

text \<open>The names are taken off the end of the one string and put at the end of the other; each round takes at
  least a slash off.\<close>

fun cwd_turn :: "nat \<Rightarrow> buf \<Rightarrow> buf \<Rightarrow> buf res" where
  "cwd_turn n full b =
     bindR (strrchr full 0 47) (\<lambda>r. case r of
       None \<Rightarrow> Inr b
     | Some p \<Rightarrow> (case n of 0 \<Rightarrow> Inl Diverge | Suc n1 \<Rightarrow>
         bindR (strlen b 0) (\<lambda>len.
         bindR (strcpy b (len mod 65536) full p) (\<lambda>b1. cwd_turn n1 (full[p := 0]) b1))))"

declare cwd_turn.simps [simp del]

text \<open>\<open>dst\<close> is the caller's buffer, of which 512 bytes are cleared; the result is its new contents.\<close>

definition sys_getcwd :: "'k heap_ops \<Rightarrow> buf \<Rightarrow> u32 \<Rightarrow> (buf option, 'k) fsm" where
  "sys_getcwd h dst n =
     bindM (mallocM h False SECTOR_SIZE) (\<lambda>io_buf.
     if io_buf = 0 then retM None
     else bindM (getM (cwd_inode_nr \<circ> cur_task)) (\<lambda>cwd.
       let child_inode_nr = ucast cwd :: u32 in
       assertM (child_inode_nr < 4096)
         (if child_inode_nr = 0 then
            bindM (liftM (wr dst 0 47)) (\<lambda>b. bindM (liftM (wr b 1 0)) (\<lambda>b1. retM (Some b1)))
          else
            bindM (liftM (memset dst 0 0 512)) (\<lambda>b.
            bindM (cwd_up 512 h child_inode_nr (replicate 512 0)) (\<lambda>r. case r of
              None \<Rightarrow> bindM (freeM h False io_buf) (\<lambda>_. retM None)
            | Some full \<Rightarrow>
                bindM (liftM (strlen full 0)) (\<lambda>len. assertM (of_nat len \<le> n)
                  (bindM (liftM (cwd_turn 512 full b)) (\<lambda>b1.
                   bindM (freeM h False io_buf) (\<lambda>_. retM (Some b1))))))))))"

definition sys_chdir :: "'k heap_ops \<Rightarrow> buf \<Rightarrow> (u32, 'k) fsm" where
  "sys_chdir h path =
     bindM (search_file h path) (\<lambda>(inode_no, r).
     bindM (if inode_no \<noteq> M1 \<and> file_type r = FT_DIRECTORY then
              bindM (modM (\<lambda>s. s\<lparr>cur_task := (cur_task s)\<lparr>cwd_inode_nr := ucast inode_no\<rparr>\<rparr>)) (\<lambda>_. retM 0)
            else retM M1) (\<lambda>ret.
     bindM (dir_close h (parent_dir r)) (\<lambda>_. retM ret)))"

record stat =
  st_ino :: u32
  st_size :: u32
  st_fileType :: u32

definition sys_stat :: "'k heap_ops \<Rightarrow> buf \<Rightarrow> (stat option, 'k) fsm" where
  "sys_stat h path =
     bindM (liftM (is_root_path path)) (\<lambda>root.
     if root then
       bindM (the_inode_of Root_Dir) (\<lambda>ip. bindM (get_inode ip) (\<lambda>i.
       retM (Some \<lparr>st_ino = 0, st_size = i_size i, st_fileType = FT_DIRECTORY\<rparr>)))
     else
       bindM (search_file h path) (\<lambda>(inode_no, r).
       bindM (if inode_no \<noteq> M1 then
                bindM (inode_open h inode_no) (\<lambda>ip. bindM (get_inode ip) (\<lambda>i.
                bindM (inode_close h ip) (\<lambda>_.
                retM (Some \<lparr>st_ino = inode_no, st_size = i_size i, st_fileType = file_type r\<rparr>))))
              else retM None) (\<lambda>ret.
       bindM (dir_close h (parent_dir r)) (\<lambda>_. retM ret))))"

end
