(* ===== verification/Mkfs.thy ===== *)
theory Mkfs
  imports Fs_State Inode Direct Fs
begin

section \<open>Formatting and mounting (\<^verbatim>\<open>fileSystem/fs.c\<close>)\<close>

text \<open>
  \<^verbatim>\<open>partition_format\<close> lays a file system out on a partition, \<^verbatim>\<open>mount_partition\<close> reads it in, \<^verbatim>\<open>filesys_init\<close> does
  both at the start of the kernel. The padding of the super block, which the code leaves uninitialised, is
  taken as zeros.
\<close>

subsection \<open>Formatting\<close>

definition SB_MAGIC :: u32 where "SB_MAGIC = 0x19590318"

text \<open>The number of blocks the bitmap has bits for, and the sectors of that bitmap.\<close>

definition format_blocks :: "u32 \<Rightarrow> u32 \<times> u32" where
  "format_blocks sec_cnt =
     (let inode_bitmap_sects = DIV_ROUND_UP MAX_FILES_PER_PART BITS_PER_SECTOR;
          inode_table_sects = DIV_ROUND_UP (76 * MAX_FILES_PER_PART) SECTOR_SIZE;
          used_sects = 1 + 1 + inode_table_sects + inode_bitmap_sects;
          free_sects = sec_cnt - used_sects;
          bit_len = free_sects - DIV_ROUND_UP free_sects BITS_PER_SECTOR in
      (bit_len, DIV_ROUND_UP bit_len BITS_PER_SECTOR))"

definition format_sb :: "u32 \<Rightarrow> u32 \<Rightarrow> super_block" where
  "format_sb start sec_cnt =
     (let bbs = snd (format_blocks sec_cnt);
          ibs = DIV_ROUND_UP MAX_FILES_PER_PART BITS_PER_SECTOR;
          bb_lba = start + 2; ib_lba = bb_lba + bbs; it_lba = ib_lba + ibs in
      \<lparr>magic = SB_MAGIC, sb_sec_cnt = sec_cnt, inode_cnt = MAX_FILES_PER_PART, part_lba_base = start,
       block_bitmap_lba = bb_lba, block_bitmap_sects = bbs, inode_bitmap_lba = ib_lba, inode_bitmap_sects = ibs,
       inode_table_lba = it_lba, inode_table_sects = ibs, data_start_lba = it_lba + ibs, root_inode_no = 0,
       dir_entry_size = 24\<rparr>)"

definition format_buf_size :: "super_block \<Rightarrow> u32" where
  "format_buf_size x =
     (let n = (if block_bitmap_sects x \<ge> inode_bitmap_sects x then block_bitmap_sects x else inode_bitmap_sects x) in
      (if n \<ge> inode_table_sects x then n else inode_table_sects x) * SECTOR_SIZE)"

text \<open>The bits from \<open>k\<close> to the last one cleared in a byte.\<close>

primrec clear_bits :: "nat \<Rightarrow> u8 \<Rightarrow> u8" where
  "clear_bits 0 b = b"
| "clear_bits (Suc n) b = clear_bits n b AND NOT (push_bit n 1)"

text \<open>The block bitmap: the first block is taken, the bits behind the last block are set up to the end of its
  sector, and those of the last byte up to \<^verbatim>\<open>last_bit\<close> cleared, which is one too many.\<close>

definition format_bitmap :: "u32 \<Rightarrow> u32 \<Rightarrow> buf res" where
  "format_bitmap bit_len buf_size =
     (let last_byte = unat (bit_len div 8); last_bit = unat (bit_len mod 8);
          last_size = 512 - last_byte mod 512 in
      bindR (wr (replicate (unat buf_size) 0) 0 1) (\<lambda>b.
      bindR (memset b last_byte 0xff last_size) (\<lambda>b1.
      bindR (rd b1 last_byte) (\<lambda>x. wr b1 last_byte (clear_bits (Suc last_bit) x)))))"

text \<open>The first sectors of the inode table, with the inode of the root directory.\<close>

definition format_table :: "super_block \<Rightarrow> u32 \<Rightarrow> buf res" where
  "format_table x buf_size =
     bindR (memcpy (replicate (unat buf_size) 0) 0 (bytes_of [0, dir_entry_size x * 2]) 0 8) (\<lambda>b.
     memcpy b 16 (bytes_of [data_start_lba x]) 0 4)"

definition partition_format :: "'k heap_ops \<Rightarrow> u32 \<Rightarrow> u32 \<Rightarrow> (unit, 'k) fsm" where
  "partition_format h start sec_cnt =
     (let x = format_sb start sec_cnt; buf_size = format_buf_size x in
      bindM (writeM (start + 1) (sb_bytes x @ replicate 460 0) 1) (\<lambda>_.
      bindM (mallocM h False buf_size) (\<lambda>p. ptrM p
        (bindM (liftM (format_bitmap (fst (format_blocks sec_cnt)) buf_size)) (\<lambda>bb.
         bindM (writeM (block_bitmap_lba x) bb (block_bitmap_sects x)) (\<lambda>_.
         bindM (writeM (inode_bitmap_lba x) (1 # replicate (unat buf_size - 1) 0) (inode_bitmap_sects x)) (\<lambda>_.
         bindM (liftM (format_table x buf_size)) (\<lambda>it.
         bindM (writeM (inode_table_lba x) it (inode_table_sects x)) (\<lambda>_.
         bindM (writeM (data_start_lba x) (dot_block 0 0) 1) (\<lambda>_.
         freeM h False p))))))))))"

subsection \<open>Mounting\<close>

definition mount_partition :: "'k heap_ops \<Rightarrow> partition_ent \<Rightarrow> (bool, 'k) fsm" where
  "mount_partition h part =
     bindM (liftM (is_str (pe_name part) [115, 100, 98, 49, 0])) (\<lambda>same.
     if \<not> same then retM False
     else
       bindM (mallocM h False SECTOR_SIZE) (\<lambda>sb_buf. assertM (sb_buf \<noteq> 0)
       (bindM (mallocM h False 512) (\<lambda>q. assertM (q \<noteq> 0)
       (bindM (readM (pe_start_lba part + 1) 1) (\<lambda>b.
        let x = sb_at b in
        bindM (mallocM h False (block_bitmap_sects x * SECTOR_SIZE)) (\<lambda>p1. assertM (p1 \<noteq> 0)
        (bindM (readM (block_bitmap_lba x) (block_bitmap_sects x)) (\<lambda>bb.
         bindM (mallocM h False (inode_bitmap_sects x * SECTOR_SIZE)) (\<lambda>p2. assertM (p2 \<noteq> 0)
         (bindM (readM (inode_bitmap_lba x) (inode_bitmap_sects x)) (\<lambda>ib.
          bindM (modM (\<lambda>s. s\<lparr>cur_part := \<lparr>start_lba = pe_start_lba part, part_sec_cnt = pe_sec_cnt part, sb = x,
            block_bitmap = \<lparr>btmp_bytes_len = block_bitmap_sects x * SECTOR_SIZE, bits = bb\<rparr>,
            inode_bitmap = \<lparr>btmp_bytes_len = inode_bitmap_sects x * SECTOR_SIZE, bits = ib\<rparr>,
            open_inodes = []\<rparr>\<rparr>)) (\<lambda>_. retM True)))))))))))))"

text \<open>The walk over \<^verbatim>\<open>partition_list\<close>, which stops at the partition that is mounted.\<close>

fun mount_first :: "'k heap_ops \<Rightarrow> partition_ent list \<Rightarrow> (bool, 'k) fsm" where
  "mount_first h [] = retM False"
| "mount_first h (p # ps) = bindM (mount_partition h p) (\<lambda>done. if done then retM True else mount_first h ps)"

subsection \<open>The start\<close>

text \<open>The twelve partitions of a drive, primary and logical: those that exist and have no file system get one.\<close>

fun format_new :: "'k heap_ops \<Rightarrow> partition_ent list \<Rightarrow> (unit, 'k) fsm" where
  "format_new h [] = retM ()"
| "format_new h (p # ps) =
     bindM (if pe_sec_cnt p \<noteq> 0 then
              bindM (readM (pe_start_lba p + 1) 1) (\<lambda>b.
              if get32 b 0 = SB_MAGIC then retM () else partition_format h (pe_start_lba p) (pe_sec_cnt p))
            else retM ()) (\<lambda>_. format_new h ps)"

text \<open>One drive besides the one the kernel was started from; \<open>listed\<close> is \<^verbatim>\<open>partition_list\<close>. The index of the
  partition does not start again at 0 for a further drive, so such a drive is not looked at.\<close>

definition filesys_init :: "'k heap_ops \<Rightarrow> partition_ent list \<Rightarrow> partition_ent list \<Rightarrow> (unit, 'k) fsm" where
  "filesys_init h parts listed =
     bindM (mallocM h False SECTOR_SIZE) (\<lambda>sb_buf. assertM (sb_buf \<noteq> 0)
       (bindM (format_new h parts) (\<lambda>_.
        bindM (mount_first h listed) (\<lambda>mounted.
        bindM (freeM h False sb_buf) (\<lambda>_.
        if \<not> mounted then failM Bad_Access
        else bindM (open_root_dir h) (\<lambda>_.
          modM (\<lambda>s. s\<lparr>file_table := map (\<lambda>f. f\<lparr>fd_inode := 0\<rparr>) (file_table s)\<rparr>)))))))"

end
