(* ===== verification/Shell.thy ===== *)
theory Shell
  imports Fs_State Inode Direct File Path Fs Stdio
begin

section \<open>The shell (\<^verbatim>\<open>shell/shell.c\<close>, \<^verbatim>\<open>shell/buildin_cmd.c\<close>)\<close>

text \<open>
  The line editor, the splitting of a line into arguments, the path names made absolute, and the
  built-in commands on top of the system calls. A pointer to an argument is a place in \<^verbatim>\<open>cmd_line\<close>; the global
  \<^verbatim>\<open>final_path\<close> is a buffer that the commands take and give. The screen is what has been printed since it was
  cleared last.
\<close>

definition MAX_ARG_NR :: nat where "MAX_ARG_NR = 16"

text \<open>A string literal with its terminating zero.\<close>

definition c_str :: "string \<Rightarrow> buf" where
  "c_str s = map of_char s @ [0]"

subsection \<open>Output\<close>

definition printM :: "'k heap_ops \<Rightarrow> string \<Rightarrow> arg list \<Rightarrow> (unit, 'k) fsm" where
  "printM h fmt args =
     bindM (liftM (printf_text (c_str fmt) 0 args)) (\<lambda>t.
     bindM (sys_write h 1 t (of_nat (length t))) (\<lambda>_. retM ()))"

definition putcharM :: "u8 \<Rightarrow> (unit, 'k) fsm" where
  "putcharM c = modM (\<lambda>s. s\<lparr>console := console s @ [[c]]\<rparr>)"

definition clearM :: "(unit, 'k) fsm" where
  "clearM = modM (\<lambda>s. s\<lparr>console := []\<rparr>)"

definition print_prompt :: "'k heap_ops \<Rightarrow> buf \<Rightarrow> (unit, 'k) fsm" where
  "print_prompt h cwd_cache = printM h ''[rabbit@localhost %s]$ '' [AStr cwd_cache 0]"

subsection \<open>Reading a line\<close>

text \<open>The loop of control and \<^verbatim>\<open>u\<close>: one backspace for each character, and zeros where they were.\<close>

primrec rub_out :: "buf \<Rightarrow> nat \<Rightarrow> (buf, 'k) fsm" where
  "rub_out b 0 = retM b"
| "rub_out b (Suc p) = bindM (putcharM 8) (\<lambda>_. bindM (liftM (wr b (Suc p) 0)) (\<lambda>b1. rub_out b1 p))"

text \<open>\<open>n\<close> is the number of bytes that the keyboard has: each round reads one, and when there are none left the
  shell waits. The byte is stored before its place is compared with \<open>count\<close>.\<close>

primrec readline_loop :: "'k heap_ops \<Rightarrow> buf \<Rightarrow> nat \<Rightarrow> buf \<Rightarrow> nat \<Rightarrow> nat \<Rightarrow> (buf, 'k) fsm" where
  "readline_loop h cwd count b pos 0 = failM Would_Block"
| "readline_loop h cwd count b pos (Suc n) =
     bindM (sys_read h 0 1 1) (\<lambda>(r, x).
     bindM (liftM (wr b pos (x ! 0))) (\<lambda>b1.
     let c = x ! 0 in
     if \<not> pos < count then
       bindM (printM h (''readline: can'' @ [CHR 0x27] @ ''t find entry_key in the cmd_line, max num of char is 128'' @ [CHR 0x0A]) [])
         (\<lambda>_. retM b1)
     else if c = 10 \<or> c = 13 then bindM (putcharM 10) (\<lambda>_. retM (b1[pos := 0]))
     else if c = 8 then
       (if b1 ! 0 \<noteq> 8 then bindM (putcharM 8) (\<lambda>_. readline_loop h cwd count b1 (pos - 1) n)
        else readline_loop h cwd count b1 pos n)
     else if c = 11 then
       (let b2 = b1[pos := 0] in
        bindM clearM (\<lambda>_. bindM (print_prompt h cwd) (\<lambda>_. bindM (printM h ''%s'' [AStr b2 0]) (\<lambda>_.
        readline_loop h cwd count b2 pos n))))
     else if c = 20 then bindM (rub_out b1 pos) (\<lambda>b2. readline_loop h cwd count b2 0 n)
     else bindM (putcharM c) (\<lambda>_. readline_loop h cwd count b1 (Suc pos) n)))"

definition readline :: "'k heap_ops \<Rightarrow> buf \<Rightarrow> buf \<Rightarrow> nat \<Rightarrow> (buf, 'k) fsm" where
  "readline h cwd b count = assertM (count > 0)
     (bindM (getM (\<lambda>s. length (kbd_queue s))) (\<lambda>n. readline_loop h cwd count b 0 n))"

subsection \<open>Arguments\<close>

function skip_token :: "buf \<Rightarrow> nat \<Rightarrow> u8 \<Rightarrow> nat res" where
  "skip_token b p token =
     (if p < length b then if b ! p = token then skip_token b (Suc p) token else Inr p else Inl Bad_Access)"
  by pat_completeness auto
termination
  by (relation "measure (\<lambda>(b, p, t). length b - p)") auto

function word_end :: "buf \<Rightarrow> nat \<Rightarrow> u8 \<Rightarrow> nat res" where
  "word_end b p token =
     (if p < length b then if b ! p \<noteq> 0 \<and> b ! p \<noteq> token then word_end b (Suc p) token else Inr p
      else Inl Bad_Access)"
  by pat_completeness auto
termination
  by (relation "measure (\<lambda>(b, p, t). length b - p)") auto

declare skip_token.simps [simp del] word_end.simps [simp del]

lemma skip_token_le: "skip_token b p t = Inr q \<Longrightarrow> p \<le> q \<and> q < length b \<and> b ! q \<noteq> t"
proof (induction b p t rule: skip_token.induct)
  case (1 b p t)
  from "1.prems" have "(if p < length b then if b ! p = t then skip_token b (Suc p) t else Inr p else Inl Bad_Access) = Inr q"
    by (subst (asm) skip_token.simps)
  then show ?case using "1.IH" by (auto split: if_splits)
qed

lemma word_end_le: "word_end b p t = Inr q \<Longrightarrow> p \<le> q \<and> q < length b"
proof (induction b p t rule: word_end.induct)
  case (1 b p t)
  from "1.prems" have "(if p < length b then if b ! p \<noteq> 0 \<and> b ! p \<noteq> t then word_end b (Suc p) t else Inr p else Inl Bad_Access) = Inr q"
    by (subst (asm) word_end.simps)
  then show ?case using "1.IH" by (auto split: if_splits)
qed

lemma word_end_lt: "word_end b p t = Inr q \<Longrightarrow> b ! p \<noteq> 0 \<Longrightarrow> b ! p \<noteq> t \<Longrightarrow> p < q \<and> q < length b"
  by (subst (asm) word_end.simps) (auto split: if_splits dest!: word_end_le)

text \<open>The place in the array is written before it is compared with the size of the array. The result \<open>None\<close>
  stands for -1.\<close>

function parse_loop :: "buf \<Rightarrow> nat \<Rightarrow> u8 \<Rightarrow> nat \<Rightarrow> nat option list \<Rightarrow> (nat option \<times> buf \<times> nat option list) res" where
  "parse_loop b p token n av =
     bindR (rd b p) (\<lambda>c.
     if c = 0 then Inr (Some n, b, av)
     else case skip_token b p token of
       Inl e \<Rightarrow> Inl e
     | Inr q \<Rightarrow>
         if b ! q = 0 then Inr (Some n, b, av)
         else bindR (wr av n (Some q)) (\<lambda>av1.
           case word_end b q token of
             Inl e \<Rightarrow> Inl e
           | Inr w \<Rightarrow>
               if n > MAX_ARG_NR then Inr (None, if b ! w \<noteq> 0 then b[w := 0] else b, av1)
               else if b ! w \<noteq> 0 then parse_loop (b[w := 0]) (Suc w) token (Suc n) av1
               else parse_loop b w token (Suc n) av1))"
  by pat_completeness auto
termination
  by (relation "measure (\<lambda>(b, p, t, n, av). length b - p)") (auto dest!: skip_token_le word_end_lt)

declare parse_loop.simps [simp del]

definition cmd_parse :: "buf \<Rightarrow> u8 \<Rightarrow> (nat option \<times> buf \<times> nat option list) res" where
  "cmd_parse cmd_str token = parse_loop cmd_str 0 token 0 (replicate MAX_ARG_NR None)"

subsection \<open>Path names\<close>

definition wash_step :: "buf \<Rightarrow> buf \<Rightarrow> buf res" where
  "wash_step new_path nm =
     bindR (strcmp [46, 46, 0] 0 nm 0) (\<lambda>dd.
     if dd = 0 then
       bindR (strrchr new_path 0 47) (\<lambda>r. case r of
         None \<Rightarrow> Inl Bad_Access
       | Some p \<Rightarrow> if p \<noteq> 0 then wr new_path p 0 else wr new_path 1 0)
     else
       bindR (strcmp [46, 0] 0 nm 0) (\<lambda>d.
       if d \<noteq> 0 then
         bindR (strcmp new_path 0 [47, 0] 0) (\<lambda>root.
         bindR (if root \<noteq> 0 then strcat new_path 0 [47, 0] 0 else Inr new_path) (\<lambda>p1.
         strcat p1 0 nm 0))
       else Inr new_path))"

function wash_loop :: "buf \<Rightarrow> nat option \<Rightarrow> buf \<Rightarrow> buf \<Rightarrow> buf res" where
  "wash_loop old sub_path nm new_path =
     (if nm ! 0 \<noteq> 0 then
        bindR (wash_step new_path nm) (\<lambda>new1.
        case sub_path of
          None \<Rightarrow> Inr new1
        | Some p \<Rightarrow> bindR (path_parse old p (replicate 16 0)) (\<lambda>(sub1, nm1). wash_loop old sub1 nm1 new1))
      else Inr new_path)"
  by pat_completeness auto
termination
proof (relation "measure (\<lambda>(b, r, nm, q). if nm ! 0 \<noteq> 0 then case r of None \<Rightarrow> 1 | Some p \<Rightarrow> 2 + (length b - p) else 0)", goal_cases)
  case 1
  show ?case by simp
next
  case (2 b r nm new_path new1 p y sub1 nm1)
  then show ?case
    using path_parse_moves [of b p _ nm1] by (cases sub1) (auto split: prod.splits)
qed

declare wash_loop.simps [simp del]

definition wash_path :: "buf \<Rightarrow> buf \<Rightarrow> buf res" where
  "wash_path old_abs_path new_abs_path =
     ASSERT (old_abs_path ! 0 = 47)
       (bindR (path_parse old_abs_path 0 (replicate 16 0)) (\<lambda>(sub_path, nm).
        if nm ! 0 = 0 then bindR (wr new_abs_path 0 47) (\<lambda>b. wr b 1 0)
        else
          bindR (wr new_abs_path 0 0) (\<lambda>b.
          bindR (strcat b 0 [47, 0] 0) (\<lambda>b1. wash_loop old_abs_path sub_path nm b1))))"

text \<open>The path is a buffer and a place in it.\<close>

definition make_clear_abs_path :: "'k heap_ops \<Rightarrow> buf \<Rightarrow> nat \<Rightarrow> buf \<Rightarrow> (buf, 'k) fsm" where
  "make_clear_abs_path h path p final_path =
     bindM (liftM (rd path p)) (\<lambda>c.
     bindM (if c \<noteq> 47 then
              bindM (sys_getcwd h (replicate 512 0) 512) (\<lambda>r. case r of
                None \<Rightarrow> retM (replicate 512 0)
              | Some a \<Rightarrow> if \<not> (a ! 0 = 47 \<and> a ! 1 = 0) then liftM (strcat a 0 [47, 0] 0) else retM a)
            else retM (replicate 512 0)) (\<lambda>abs_path.
     bindM (liftM (strcat abs_path 0 path p)) (\<lambda>abs1.
     liftM (wash_path abs1 final_path))))"

subsection \<open>The built-in commands\<close>

text \<open>The argument number \<open>k\<close> of a command; a missing one is the null pointer.\<close>

definition argM :: "nat option list \<Rightarrow> nat \<Rightarrow> (nat, 'k) fsm" where
  "argM av k = bindM (liftM (rd av k)) (\<lambda>a. case a of None \<Rightarrow> failM Bad_Access | Some p \<Rightarrow> retM p)"

definition buildin_pwd :: "'k heap_ops \<Rightarrow> nat \<Rightarrow> buf \<Rightarrow> (buf, 'k) fsm" where
  "buildin_pwd h argc final_path =
     (if argc \<noteq> 1 then bindM (printM h (''pwd: no argument support!'' @ [CHR 0x0A]) []) (\<lambda>_. retM final_path)
      else bindM (sys_getcwd h final_path 512) (\<lambda>r. case r of
        Some f \<Rightarrow> bindM (printM h (''%s'' @ [CHR 0x0A]) [AStr f 0]) (\<lambda>_. retM f)
      | None \<Rightarrow> bindM (printM h (''pwd: get current work directory failed.'' @ [CHR 0x0A]) []) (\<lambda>_. retM (replicate 512 0))))"

text \<open>Whether the directory was changed, and the new contents of \<^verbatim>\<open>final_path\<close>.\<close>

definition buildin_cd :: "'k heap_ops \<Rightarrow> nat \<Rightarrow> buf \<Rightarrow> nat option list \<Rightarrow> buf \<Rightarrow> (bool \<times> buf, 'k) fsm" where
  "buildin_cd h argc cmd av final_path =
     (if argc > 2 then bindM (printM h (''cd: only support one argument!'' @ [CHR 0x0A]) []) (\<lambda>_. retM (False, final_path))
      else
        bindM (if argc = 1 then liftM (bindR (wr final_path 0 47) (\<lambda>b. wr b 1 0))
               else bindM (argM av 1) (\<lambda>p. make_clear_abs_path h cmd p final_path)) (\<lambda>f.
        bindM (sys_chdir h f) (\<lambda>r.
        if r = M1 then bindM (printM h (''cd: no such directory %s'' @ [CHR 0x0A]) [AStr f 0]) (\<lambda>_. retM (False, f))
        else retM (True, f))))"

text \<open>The options and the path of \<^verbatim>\<open>ls\<close>, from argument \<open>k\<close> on, \<open>m\<close> of them; \<open>None\<close> is a wrong use.\<close>

primrec ls_args :: "'k heap_ops \<Rightarrow> buf \<Rightarrow> nat option list \<Rightarrow> nat \<Rightarrow> nat option \<Rightarrow> bool \<Rightarrow> nat \<Rightarrow> ((nat option \<times> bool) option, 'k) fsm" where
  "ls_args h cmd av k path long_info 0 = retM (Some (path, long_info))"
| "ls_args h cmd av k path long_info (Suc m) =
     bindM (argM av k) (\<lambda>p.
     bindM (liftM (rd cmd p)) (\<lambda>c.
     if c = 45 then
       bindM (liftM (strcmp (c_str ''-l'') 0 cmd p)) (\<lambda>l.
       if l = 0 then ls_args h cmd av (Suc k) path True m
       else bindM (liftM (strcmp (c_str ''-h'') 0 cmd p)) (\<lambda>hh.
         if hh = 0 then
           bindM (printM h (''usage: -l list all information about file.'' @ [CHR 0x0A] @ ''-h for help.'' @ [CHR 0x0A]
             @ ''list all files in the current directory if no option.'' @ [CHR 0x0A]) [])
             (\<lambda>_. ls_args h cmd av (Suc k) path long_info m)
         else bindM (printM h (''ls: invalid option %s'' @ [CHR 0x0A] @ ''Try '' @ [CHR 0x27] @ ''ls -h'' @ [CHR 0x27]
             @ '' for help'' @ [CHR 0x0A]) [AStr cmd p]) (\<lambda>_. retM None)))
     else case path of
       None \<Rightarrow> ls_args h cmd av (Suc k) (Some p) long_info m
     | Some q \<Rightarrow> bindM (printM h (''ls: only support one path'' @ [CHR 0x0A]) []) (\<lambda>_. retM None)))"

text \<open>The loops over the directory: each entry moves its position by an entry, so its size bounds the rounds. The
  result says whether the loop came to its end.\<close>

primrec ls_short :: "'k heap_ops \<Rightarrow> dirp option \<Rightarrow> nat \<Rightarrow> (unit, 'k) fsm" where
  "ls_short h d 0 = failM Diverge"
| "ls_short h d (Suc n) =
     bindM (sys_readdir d) (\<lambda>r. case (r, d) of
       (Some k, Some x) \<Rightarrow>
         bindM (get_dir x) (\<lambda>dd. bindM (printM h ''%s '' [AStr (dir_buf dd) (24 * k)]) (\<lambda>_. ls_short h d n))
     | _ \<Rightarrow> retM ())"

primrec ls_long :: "'k heap_ops \<Rightarrow> dirp option \<Rightarrow> buf \<Rightarrow> nat \<Rightarrow> nat \<Rightarrow> (bool, 'k) fsm" where
  "ls_long h d sub_pathname pathname_len 0 = failM Diverge"
| "ls_long h d sub_pathname pathname_len (Suc n) =
     bindM (sys_readdir d) (\<lambda>r. case (r, d) of
       (Some k, Some x) \<Rightarrow>
         bindM (get_dir x) (\<lambda>dd.
         let b = dir_buf dd in
         bindM (liftM (de_type b k)) (\<lambda>t. bindM (liftM (de_no b k)) (\<lambda>no.
         bindM (liftM (wr sub_pathname pathname_len 0)) (\<lambda>sp.
         bindM (liftM (strcat sp 0 b (24 * k))) (\<lambda>sp1.
         bindM (sys_stat h sp1) (\<lambda>st. case st of
           None \<Rightarrow> bindM (printM h (''ls: cannot access %s: No such file or directory.'' @ [CHR 0x0A]) [AStr b (24 * k)])
             (\<lambda>_. retM False)
         | Some f \<Rightarrow>
             bindM (printM h (''%c  %d  %d  %s'' @ [CHR 0x0A])
               [AChar (if t = FT_REGULAR then 45 else 100), AInt no, AInt (st_size f), AStr b (24 * k)]) (\<lambda>_.
             ls_long h d sp1 pathname_len n)))))))
     | _ \<Rightarrow> retM True)"

text \<open>How many rounds: the size of the directory, and one more.\<close>

definition dir_rounds :: "dirp option \<Rightarrow> (nat, 'k) fsm" where
  "dir_rounds d = (case d of None \<Rightarrow> retM 1
     | Some x \<Rightarrow> bindM (the_inode_of x) (\<lambda>ip. bindM (get_inode ip) (\<lambda>i. retM (Suc (unat (i_size i))))))"

definition ls_dir :: "'k heap_ops \<Rightarrow> buf \<Rightarrow> stat \<Rightarrow> bool \<Rightarrow> (unit, 'k) fsm" where
  "ls_dir h pathname file_stat long_info =
     bindM (sys_opendir h pathname) (\<lambda>d.
     bindM (liftM (strlen pathname 0)) (\<lambda>len.
     bindM (liftM (memcpy (replicate 512 0) 0 pathname 0 len)) (\<lambda>sub.
     bindM (liftM (if len = 0 then Inl Bad_Access else rd sub (len - 1))) (\<lambda>last_char.
     bindM (liftM (if last_char \<noteq> 47 then bindR (wr sub len 47) (\<lambda>b. Inr (b, Suc len)) else Inr (sub, len)))
       (\<lambda>(sub1, len1).
     bindM (case d of None \<Rightarrow> failM Bad_Access | Some x \<Rightarrow> sys_rewinddir x) (\<lambda>_.
     bindM (dir_rounds d) (\<lambda>n.
     bindM (if long_info then
              bindM (printM h (''total: %d'' @ [CHR 0x0A]) [AInt (st_size file_stat)]) (\<lambda>_. ls_long h d sub1 len1 n)
            else bindM (ls_short h d n) (\<lambda>_. bindM (printM h [CHR 0x0A] []) (\<lambda>_. retM True))) (\<lambda>ok.
     if ok then bindM (sys_closedir h d) (\<lambda>_. retM ()) else retM ()))))))))"

definition buildin_ls :: "'k heap_ops \<Rightarrow> nat \<Rightarrow> buf \<Rightarrow> nat option list \<Rightarrow> buf \<Rightarrow> (buf, 'k) fsm" where
  "buildin_ls h argc cmd av final_path =
     bindM (ls_args h cmd av 1 None False (argc - 1)) (\<lambda>r. case r of
       None \<Rightarrow> retM final_path
     | Some (path, long_info) \<Rightarrow>
         bindM (case path of
           None \<Rightarrow> sys_getcwd h final_path 512
         | Some p \<Rightarrow> bindM (make_clear_abs_path h cmd p final_path) (\<lambda>f. retM (Some f))) (\<lambda>fo. case fo of
           None \<Rightarrow> bindM (printM h (''ls: getcwd for default path failed.'' @ [CHR 0x0A]) []) (\<lambda>_. retM (replicate 512 0))
         | Some f \<Rightarrow>
             bindM (sys_stat h f) (\<lambda>st.
             bindM (case st of
               None \<Rightarrow> printM h (''ls: cannot access %s: No such file or directory.'' @ [CHR 0x0A]) [AStr f 0]
             | Some x \<Rightarrow>
                 if st_fileType x = FT_DIRECTORY then ls_dir h f x long_info
                 else if long_info then
                   printM h (''-  %d  %d  %s'' @ [CHR 0x0A]) [AInt (st_ino x), AInt (st_size x), AStr f 0]
                 else printM h (''%s'' @ [CHR 0x0A]) [AStr f 0]) (\<lambda>_. retM f))))"

definition buildin_clear :: "'k heap_ops \<Rightarrow> nat \<Rightarrow> (unit, 'k) fsm" where
  "buildin_clear h argc =
     (if argc \<noteq> 1 then printM h (''clear: no argument support!'' @ [CHR 0x0A]) [] else clearM)"

text \<open>Whether the list of the threads is to be printed.\<close>

definition buildin_ps :: "'k heap_ops \<Rightarrow> nat \<Rightarrow> (bool, 'k) fsm" where
  "buildin_ps h argc =
     (if argc \<noteq> 1 then bindM (printM h (''ps: no argument support!'' @ [CHR 0x0A]) []) (\<lambda>_. retM False) else retM True)"

text \<open>The three commands that change a directory: the root is left alone.\<close>

definition on_path :: "'k heap_ops \<Rightarrow> (buf \<Rightarrow> (u32, 'k) fsm) \<Rightarrow> string \<Rightarrow> buf \<Rightarrow> nat option list \<Rightarrow> buf \<Rightarrow> (u32 \<times> buf, 'k) fsm" where
  "on_path h call msg cmd av final_path =
     bindM (argM av 1) (\<lambda>p.
     bindM (make_clear_abs_path h cmd p final_path) (\<lambda>f.
     bindM (liftM (strcmp [47, 0] 0 f 0)) (\<lambda>c.
     if c \<noteq> 0 then
       bindM (call f) (\<lambda>r.
       if r = 0 then retM (0, f) else bindM (printM h msg [AStr cmd p]) (\<lambda>_. retM (M1, f)))
     else retM (M1, f))))"

definition buildin_mkdir :: "'k heap_ops \<Rightarrow> nat \<Rightarrow> buf \<Rightarrow> nat option list \<Rightarrow> buf \<Rightarrow> (u32 \<times> buf, 'k) fsm" where
  "buildin_mkdir h argc cmd av final_path =
     (if argc \<noteq> 2 then bindM (printM h (''mkdir: no argument support!'' @ [CHR 0x0A]) []) (\<lambda>_. retM (M1, final_path))
      else on_path h (sys_mkdir h) (''mkdir: create directory %s failed.'' @ [CHR 0x0A]) cmd av final_path)"

definition buildin_rmdir :: "'k heap_ops \<Rightarrow> nat \<Rightarrow> buf \<Rightarrow> nat option list \<Rightarrow> buf \<Rightarrow> (u32 \<times> buf, 'k) fsm" where
  "buildin_rmdir h argc cmd av final_path =
     (if argc \<noteq> 2 then bindM (printM h (''rmdir: only support 1 argument!'' @ [CHR 0x0A]) []) (\<lambda>_. retM (M1, final_path))
      else on_path h (sys_rmdir h) (''rmdir: remove %s failed.'' @ [CHR 0x0A]) cmd av final_path)"

definition buildin_rm :: "'k heap_ops \<Rightarrow> nat \<Rightarrow> buf \<Rightarrow> nat option list \<Rightarrow> buf \<Rightarrow> (u32 \<times> buf, 'k) fsm" where
  "buildin_rm h argc cmd av final_path =
     (if argc \<noteq> 2 then bindM (printM h (''rm: only support one argument!'' @ [CHR 0x0A]) []) (\<lambda>_. retM (M1, final_path))
      else on_path h (sys_unlink h) (''rm: delete %s failed.'' @ [CHR 0x0A]) cmd av final_path)"

subsection \<open>The shell\<close>

text \<open>One round of the loop of \<^verbatim>\<open>my_shell\<close>: what is left to do is nothing, \<^verbatim>\<open>ps\<close>, or a program to run, with the
  arguments. \<open>cwd\<close> is \<^verbatim>\<open>cwd_cache\<close>.\<close>

datatype shell_next = Next | Ps | Run buf "nat option list" buf

definition is_cmd :: "string \<Rightarrow> buf \<Rightarrow> nat \<Rightarrow> bool res" where
  "is_cmd c cmd p = bindR (strcmp (c_str c) 0 cmd p) (\<lambda>r. Inr (r = 0))"

definition shell_cmd :: "'k heap_ops \<Rightarrow> buf \<Rightarrow> nat \<Rightarrow> buf \<Rightarrow> nat option list \<Rightarrow> (shell_next \<times> buf, 'k) fsm" where
  "shell_cmd h cwd argc cmd av =
     (let final_path = replicate 512 0 in
      bindM (argM av 0) (\<lambda>p.
      bindM (liftM (is_cmd ''ls'' cmd p)) (\<lambda>c.
      if c then bindM (buildin_ls h argc cmd av final_path) (\<lambda>_. retM (Next, cwd)) else
      bindM (liftM (is_cmd ''cd'' cmd p)) (\<lambda>c.
      if c then bindM (buildin_cd h argc cmd av final_path) (\<lambda>(ok, f).
        if ok then bindM (liftM (strcpy (replicate 512 0) 0 f 0)) (\<lambda>cwd1. retM (Next, cwd1)) else retM (Next, cwd)) else
      bindM (liftM (is_cmd ''pwd'' cmd p)) (\<lambda>c.
      if c then bindM (buildin_pwd h argc final_path) (\<lambda>_. retM (Next, cwd)) else
      bindM (liftM (is_cmd ''ps'' cmd p)) (\<lambda>c.
      if c then bindM (buildin_ps h argc) (\<lambda>ok. retM (if ok then Ps else Next, cwd)) else
      bindM (liftM (is_cmd ''clear'' cmd p)) (\<lambda>c.
      if c then bindM (buildin_clear h argc) (\<lambda>_. retM (Next, cwd)) else
      bindM (liftM (is_cmd ''mkdir'' cmd p)) (\<lambda>c.
      if c then bindM (buildin_mkdir h argc cmd av final_path) (\<lambda>_. retM (Next, cwd)) else
      bindM (liftM (is_cmd ''rmdir'' cmd p)) (\<lambda>c.
      if c then bindM (buildin_rmdir h argc cmd av final_path) (\<lambda>_. retM (Next, cwd)) else
      bindM (liftM (is_cmd ''rm'' cmd p)) (\<lambda>c.
      if c then bindM (buildin_rm h argc cmd av final_path) (\<lambda>_. retM (Next, cwd)) else
      retM (Run cmd av final_path, cwd)))))))))))"

definition shell_round :: "'k heap_ops \<Rightarrow> buf \<Rightarrow> (shell_next \<times> buf, 'k) fsm" where
  "shell_round h cwd =
     bindM (print_prompt h cwd) (\<lambda>_.
     bindM (readline h cwd (replicate 512 0) 512) (\<lambda>cmd_line.
     if cmd_line ! 0 = 0 then retM (Next, cwd)
     else
       bindM (liftM (cmd_parse cmd_line 32)) (\<lambda>(argc, cmd, av). case argc of
         None \<Rightarrow> bindM (printM h (''num of arguments exceed %d'' @ [CHR 0x0A]) [AInt 16]) (\<lambda>_. retM (Next, cwd))
       | Some n \<Rightarrow> shell_cmd h cwd n cmd av)))"

text \<open>What the child does with a command that is not built in: the path of the program to run, or \<open>None\<close>; then
  it goes on with the loop, as its parent does.\<close>

definition shell_child :: "'k heap_ops \<Rightarrow> buf \<Rightarrow> nat option list \<Rightarrow> buf \<Rightarrow> (buf option, 'k) fsm" where
  "shell_child h cmd av final_path =
     bindM (argM av 0) (\<lambda>p.
     bindM (make_clear_abs_path h cmd p final_path) (\<lambda>f.
     bindM (sys_stat h f) (\<lambda>st. case st of
       None \<Rightarrow> bindM (printM h (''my_shell: cannot open %s, cause it'' @ [CHR 0x27] @ ''s not exist'' @ [CHR 0x0A]) [AStr f 0])
         (\<lambda>_. retM None)
     | Some x \<Rightarrow> retM (Some f))))"

definition shell_start :: buf where
  "shell_start = [47] @ replicate 511 0"

subsection \<open>Path names made absolute\<close>

text \<open>The text of a list of names.\<close>

definition path_text :: "u8 list list \<Rightarrow> u8 list" where
  "path_text ws = (if ws = [] then [47] else concat (map (\<lambda>w. 47 # w) ws))"

definition dot :: "u8 list" where "dot = [46]"
definition dotdot :: "u8 list" where "dotdot = [46, 46]"

text \<open>What a name does to the names before it.\<close>

definition walk :: "u8 list list \<Rightarrow> u8 list \<Rightarrow> u8 list list" where
  "walk ws w = (if w = dotdot then butlast ws else if w = dot then ws else ws @ [w])"

lemma path_text_slash: "path_text ws = 47 # (if ws = [] then [] else tl (path_text ws))"
  by (cases ws) (simp_all add: path_text_def)

lemma path_text_snoc: "path_text (ws @ [w]) = (if ws = [] then [47] else path_text ws @ [47]) @ w"
  by (simp add: path_text_def)

lemma path_text_root: "0 < length w \<Longrightarrow> path_text [w] \<noteq> [47]"
  by (simp add: path_text_def)

lemma path_text_is_root: "\<forall>w\<in>set ws. w \<noteq> [] \<Longrightarrow> path_text ws = [47] \<longleftrightarrow> ws = []"
  by (cases ws) (auto simp: path_text_def)

definition clean_buf :: "u8 list \<Rightarrow> buf" where
  "clean_buf s = put 0 s (replicate 512 0)"

lemma clean_cstr: "length s < 512 \<Longrightarrow> 0 \<notin> set s \<Longrightarrow> cstr (clean_buf s) 0 s"
  unfolding clean_buf_def by (intro cstrI) (auto simp: nth_put)

lemma strcat_clean:
  assumes "length s + length t < 512" and "0 \<notin> set s" and "cstr src q t"
  shows "strcat (clean_buf s) 0 src q = Inr (clean_buf (s @ t))"
proof -
  have c: "cstr (clean_buf s) 0 s" using assms by (intro clean_cstr) simp_all
  have l: "length (clean_buf s) = 512" using assms(1) by (simp add: clean_buf_def)
  have "strcat (clean_buf s) 0 src q = Inr (put (length s) t (clean_buf s))"
    using assms(1) l by (simp add: strcat_def strlen_cstr [OF c] strcat_copy_cstr [OF assms(3)])
  moreover have "put (length s) t (clean_buf s) = clean_buf (s @ t)"
    using assms(1) by (intro nth_equalityI) (auto simp: clean_buf_def nth_put nth_append)
  ultimately show ?thesis by simp
qed

lemma strcmp_is: "cstr a p s \<Longrightarrow> cstr b q t \<Longrightarrow> \<exists>r. strcmp a p b q = Inr r \<and> (r = 0) = (s = t)"
  using strcmp_cstr [of a p s b q t] by auto

text \<open>A step with a name other than \<^verbatim>\<open>..\<close> in a buffer with zeros behind the text.\<close>

lemma wash_step_name:
  assumes w: "cstr nm 0 w" "w \<noteq> []" "w \<noteq> dotdot" and ws: "\<forall>x\<in>set ws. x \<noteq> []" "0 \<notin> set (path_text ws)"
    and len: "length (path_text ws) + length w + 1 < 512"
  shows "wash_step (clean_buf (path_text ws)) nm = Inr (clean_buf (path_text (walk ws w)))"
proof -
  have dd: "cstr [46, 46, 0] 0 dotdot" "cstr [46, 0] 0 dot" "cstr [47, 0] 0 [47]" by (simp_all add: dotdot_def dot_def)
  have c: "cstr (clean_buf (path_text ws)) 0 (path_text ws)" using len ws(2) by (intro clean_cstr) simp_all
  obtain r1 where r1: "strcmp [46, 46, 0] 0 nm 0 = Inr r1" "(r1 = 0) = (dotdot = w)" using strcmp_is [OF dd(1) w(1)] by blast
  obtain r2 where r2: "strcmp [46, 0] 0 nm 0 = Inr r2" "(r2 = 0) = (dot = w)" using strcmp_is [OF dd(2) w(1)] by blast
  obtain r3 where r3: "strcmp (clean_buf (path_text ws)) 0 [47, 0] 0 = Inr r3" "(r3 = 0) = (path_text ws = [47])"
    using strcmp_is [OF c dd(3)] by blast
  have root: "(r3 = 0) = (ws = [])" using r3(2) path_text_is_root [OF ws(1)] by simp
  have z: "0 \<notin> set w" using w(1) by (rule cstr_no_zero)
  have p1: "(if r3 \<noteq> 0 then strcat (clean_buf (path_text ws)) 0 [47, 0] 0 else Inr (clean_buf (path_text ws)))
      = Inr (clean_buf (if ws = [] then [47] else path_text ws @ [47]))"
    using strcat_clean [OF _ ws(2) dd(3)] len root by (cases "ws = []") (simp add: path_text_def, simp)
  have p2: "strcat (clean_buf (if ws = [] then [47] else path_text ws @ [47])) 0 nm 0 = Inr (clean_buf (path_text (ws @ [w])))"
    unfolding path_text_snoc using len ws(2) by (intro strcat_clean [OF _ _ w(1)]) (auto simp: path_text_def split: if_splits)
  show ?thesis
    using w(3) r1 r2 r3(1) p1 p2 by (auto simp: wash_step_def walk_def simp del: strcmp.simps)
qed

text \<open>A step with \<^verbatim>\<open>..\<close>, whatever is behind the text.\<close>

lemma path_text_no_zero: "\<forall>w\<in>set ws. 0 \<notin> set w \<Longrightarrow> 0 \<notin> set (path_text ws)"
  by (auto simp: path_text_def)

lemma cstr_cut: "cstr b p (s @ t) \<Longrightarrow> cstr (b[p + length s := 0]) p s"
  using cstr_length [of b p "s @ t"] cstr_nth [of b p "s @ t"] cstr_no_zero [of b p "s @ t"]
  by (intro cstrI) (auto simp: nth_append)

lemma wash_step_up:
  assumes b: "cstr b 0 (path_text ws)" "length b = 512" and ws: "\<forall>w\<in>set ws. 47 \<notin> set w" and nm: "cstr nm 0 dotdot"
  obtains b' where "wash_step b nm = Inr b'" and "cstr b' 0 (path_text (butlast ws))" and "length b' = 512"
proof -
  obtain r1 where r1: "strcmp [46, 46, 0] 0 nm 0 = Inr r1" "(r1 = 0) = (dotdot = dotdot)"
    using strcmp_is [OF _ nm, of "[46, 46, 0]" 0 dotdot] by (auto simp: dotdot_def)
  then have step: "wash_step b nm = bindR (strrchr b 0 47) (\<lambda>r. case r of
       None \<Rightarrow> Inl Bad_Access | Some p \<Rightarrow> if p \<noteq> 0 then wr b p 0 else wr b 1 0)" by (simp add: wash_step_def del: neq0_conv)
  show thesis
  proof (cases ws rule: rev_cases)
    case Nil
    then have c: "cstr b 0 [47]" using b(1) by (simp add: path_text_def)
    have "strrchr b 0 47 = Inr (Some 0)" using strrchr_last [of b 0 "[]" 47 "[]"] c by simp
    then show thesis using step c b(2) Nil cstr_cut [of b 0 "[47]" "[]"]
      by (intro that [of "b[1 := 0]"]) (simp_all add: wr_def path_text_def)
  next
    case (snoc us w)
    let ?pre = "if us = [] then [] else path_text us"
    have t: "path_text ws = ?pre @ 47 # w" by (simp add: snoc path_text_snoc)
    have sr: "strrchr b 0 47 = Inr (Some (length ?pre))"
      using strrchr_last [of b 0 ?pre 47 w] b(1) ws unfolding t by (simp add: snoc)
    have pl: "us \<noteq> [] \<Longrightarrow> 0 < length (path_text us)" by (cases us) (simp_all add: path_text_def)
    have lt: "length ?pre + length w + 1 < 512" using cstr_length [OF b(1)] b(2) unfolding t by simp
    show thesis
    proof (cases "us = []")
      case True
      then have "cstr (b[1 := 0]) 0 [47]" using cstr_cut [of b 0 "[47]" w] b(1) unfolding t by simp
      then show thesis using step sr b(2) snoc True by (intro that [of "b[1 := 0]"]) (simp_all add: wr_def path_text_def)
    next
      case False
      then have "cstr (b[length (path_text us) := 0]) 0 (path_text us)"
        using cstr_cut [of b 0 "path_text us" "47 # w"] b(1) unfolding t by simp
      then show thesis using step sr b(2) snoc False pl lt
        by (intro that [of "b[length (path_text us) := 0]"]) (simp_all add: wr_def)
    qed
  qed
qed

text \<open>The loop takes the names one after the other.\<close>

primrec wash_names :: "buf \<Rightarrow> u8 list list \<Rightarrow> buf res" where
  "wash_names b [] = Inr b"
| "wash_names b (w # ws) = bindR (wash_step b (name_buf w)) (\<lambda>b1. wash_names b1 ws)"

lemma wash_loop_names:
  assumes "0 \<notin> set w" "length w < 16" and "w = [] \<longrightarrow> t = []"
    and "case r of None \<Rightarrow> t = [] | Some p \<Rightarrow> cstr old p t" and "\<forall>x\<in>set (path_names t). length x < 16"
  shows "wash_loop old r (name_buf w) b = wash_names b (if w = [] then [] else w # path_names t)"
  using assms
proof (induction "length t" arbitrary: t w r b rule: less_induct)
  case less
  show ?case
  proof (cases "w = []")
    case True
    then show ?thesis by (subst wash_loop.simps) (simp add: name_buf_Nil)
  next
    case False
    have nz: "name_buf w ! 0 \<noteq> 0" using name_buf_first [of w] False less.prems(1,2) by simp
    show ?thesis
    proof (cases r)
      case None
      then have "path_names t = []" using less.prems(4) by (subst path_names.simps) simp
      then show ?thesis using False nz None by (subst wash_loop.simps) simp
    next
      case (Some p)
      then have c: "cstr old p t" using less.prems(4) by simp
      obtain r1 where r1: "path_parse old p (replicate 16 0) = Inr (r1, name_buf (first_name t))"
        "case r1 of None \<Rightarrow> t = [] | Some q \<Rightarrow> cstr old q (rest_path t)" by (rule path_parse_next [OF c less.prems(5)])
      have step: "wash_loop old r (name_buf w) b = bindR (wash_step b (name_buf w)) (wash_loop old r1 (name_buf (first_name t)))"
        using nz Some r1(1) by (subst wash_loop.simps) simp
      have "wash_loop old r1 (name_buf (first_name t)) b1 = wash_names b1 (path_names t)" for b1
      proof (cases "first_name t = []")
        case True
        then show ?thesis by (simp add: wash_loop.simps [of old r1] name_buf_Nil path_names_unfold [of t])
      next
        case F: False
        have lt: "length (rest_path t) < length t"
          using arg_cong [OF path_split [of t], of length] F by (cases "first_name t") auto
        have z: "0 \<notin> set (first_name t)" using cstr_no_zero [OF c] first_name_set [of t] by auto
        have l16: "length (first_name t) < 16" "\<forall>x\<in>set (path_names (rest_path t)). length x < 16"
          using less.prems(5) path_names_unfold [of t] F by auto
        have cc: "case r1 of None \<Rightarrow> rest_path t = [] | Some q \<Rightarrow> cstr old q (rest_path t)"
          using r1(2) by (auto simp: rest_path_def split: option.splits)
        show ?thesis
          using less.hyps [OF lt z l16(1) _ cc l16(2), of b1] F path_names_unfold [of t] by simp
      qed
      then have "wash_loop old r1 (name_buf (first_name t)) = (\<lambda>b1. wash_names b1 (path_names t))" by (rule ext)
      then show ?thesis using step False by simp
    qed
  qed
qed

definition names_len :: "u8 list list \<Rightarrow> nat" where
  "names_len ws = sum_list (map (\<lambda>w. Suc (length w)) ws)"

lemma names_len_simps [simp]: "names_len [] = 0" "names_len (w # ws) = Suc (length w) + names_len ws"
  "names_len (us @ ws) = names_len us + names_len ws"
  by (simp_all add: names_len_def)

lemma length_path_text: "length (path_text ws) = (if ws = [] then 1 else names_len ws)"
  by (simp add: path_text_def names_len_def length_concat comp_def)

lemma path_names_len: "hd s = 47 \<Longrightarrow> s \<noteq> [] \<Longrightarrow> names_len (path_names s) \<le> length s"
proof (induction s rule: path_names.induct)
  case (1 s)
  show ?case
  proof (cases "first_name s = []")
    case True
    then show ?thesis by (simp add: path_names_unfold [of s])
  next
    case False
    have k: "0 < length (takeWhile (\<lambda>c. c = 47) s)" using "1.prems" by (cases s) auto
    have len: "length s = length (takeWhile (\<lambda>c. c = 47) s) + length (first_name s) + length (rest_path s)"
      using arg_cong [OF path_split [of s], of length] by (simp only: length_append add.assoc)
    have "names_len (path_names (rest_path s)) \<le> length (rest_path s)"
    proof (cases "rest_path s = []")
      case True
      then show ?thesis by (simp add: path_names.simps)
    next
      case R: False
      then have "hd (rest_path s) = 47" unfolding rest_path_def using hd_dropWhile [of "\<lambda>c. c \<noteq> 47"] by blast
      then show ?thesis using "1.IH" [OF refl refl] R False by (simp add: first_name_def rest_path_def)
    qed
    moreover have "names_len (path_names s) = Suc (length (first_name s)) + names_len (path_names (rest_path s))"
      using False by (simp add: path_names_unfold [of s])
    ultimately show ?thesis using k len by linarith
  qed
qed

lemma path_names_word: "w \<in> set (path_names s) \<Longrightarrow> w \<noteq> [] \<and> 47 \<notin> set w \<and> set w \<subseteq> set s"
proof (induction s rule: path_names.induct)
  case (1 s)
  show ?case
  proof (cases "first_name s = []")
    case True
    then show ?thesis using "1.prems" by (simp add: path_names_unfold [of s])
  next
    case False
    have f: "47 \<notin> set (first_name s)" "set (first_name s) \<subseteq> set s"
      using first_name_set [of s] by (auto simp: first_name_def dest: set_takeWhileD)
    have "w = first_name s \<or> w \<in> set (path_names (rest_path s))" using "1.prems" False by (simp add: path_names_unfold [of s])
    then show ?thesis
    proof
      assume "w \<in> set (path_names (rest_path s))"
      then have "w \<noteq> [] \<and> 47 \<notin> set w \<and> set w \<subseteq> set (rest_path s)"
        using "1.IH" [OF refl refl] False by (simp add: first_name_def rest_path_def)
      then show ?thesis using rest_path_set [of s] by blast
    qed (use f False in simp)
  qed
qed

definition good_name :: "u8 list \<Rightarrow> bool" where
  "good_name w \<longleftrightarrow> w \<noteq> [] \<and> length w < 16 \<and> 0 \<notin> set w \<and> 47 \<notin> set w"

lemma walk_good: "\<forall>x\<in>set ws. good_name x \<Longrightarrow> good_name w \<Longrightarrow> \<forall>x\<in>set (walk ws w). good_name x"
  by (auto simp: walk_def dest: in_set_butlastD)

lemma wash_names_plain:
  assumes "\<forall>w\<in>set N. good_name w \<and> w \<noteq> dotdot" and "\<forall>x\<in>set ws. good_name x" and "names_len ws + names_len N < 510"
  shows "wash_names (clean_buf (path_text ws)) N = Inr (clean_buf (path_text (foldl walk ws N)))
    \<and> (\<forall>x\<in>set (foldl walk ws N). good_name x) \<and> names_len (foldl walk ws N) \<le> names_len ws + names_len N"
  using assms
proof (induction N arbitrary: ws)
  case (Cons w N)
  have g: "good_name w" "w \<noteq> dotdot" using Cons.prems(1) by simp_all
  have c: "cstr (name_buf w) 0 w" "w \<noteq> []" using g by (auto simp: good_name_def intro: name_buf_cstr)
  have "\<forall>x\<in>set ws. 0 \<notin> set x" and z2: "\<forall>x\<in>set ws. x \<noteq> []" using Cons.prems(2) by (auto simp: good_name_def)
  then have z: "0 \<notin> set (path_text ws)" by (intro path_text_no_zero)
  have len: "length (path_text ws) + length w + 1 < 512"
    using Cons.prems(3) g(1) by (auto simp: length_path_text good_name_def)
  have st: "wash_step (clean_buf (path_text ws)) (name_buf w) = Inr (clean_buf (path_text (walk ws w)))"
    by (rule wash_step_name [OF c g(2) z2 z len])
  have nl: "names_len (walk ws w) \<le> names_len ws + Suc (length w)" using g(2) by (simp add: walk_def)
  have "wash_names (clean_buf (path_text (walk ws w))) N = Inr (clean_buf (path_text (foldl walk (walk ws w) N)))
    \<and> (\<forall>x\<in>set (foldl walk (walk ws w) N). good_name x) \<and> names_len (foldl walk (walk ws w) N) \<le> names_len (walk ws w) + names_len N"
    by (rule Cons.IH) (use Cons.prems walk_good [OF Cons.prems(2) g(1)] nl in auto)
  then show ?case using st nl by simp
qed simp

lemma wash_names_up:
  assumes "cstr b 0 (path_text ws)" "length b = 512" and "\<forall>x\<in>set ws. good_name x"
  shows "\<exists>b'. wash_names b (replicate k dotdot) = Inr b' \<and> cstr b' 0 (path_text (foldl walk ws (replicate k dotdot)))"
  using assms
proof (induction k arbitrary: b ws)
  case (Suc k)
  have nm: "cstr (name_buf dotdot) 0 dotdot" by (rule name_buf_cstr) (simp_all add: dotdot_def)
  have ns: "\<forall>w\<in>set ws. 47 \<notin> set w" using Suc.prems(3) by (auto simp: good_name_def)
  obtain b1 where b1: "wash_step b (name_buf dotdot) = Inr b1" "cstr b1 0 (path_text (butlast ws))" "length b1 = 512"
    by (rule wash_step_up [OF Suc.prems(1,2) ns nm])
  have g: "\<forall>x\<in>set (butlast ws). good_name x" using Suc.prems(3) by (auto dest: in_set_butlastD)
  obtain b' where "wash_names b1 (replicate k dotdot) = Inr b'"
    "cstr b' 0 (path_text (foldl walk (butlast ws) (replicate k dotdot)))" using Suc.IH [OF b1(2,3) g] by blast
  moreover have "walk ws dotdot = butlast ws" by (simp add: walk_def)
  ultimately show ?case using b1(1) by simp
qed simp

text \<open>Past the first name, \<^verbatim>\<open>wash_path\<close> is the steps of all names.\<close>

lemma wash_path_names:
  assumes s: "cstr old 0 s" "s \<noteq> []" "hd s = 47" and l: "\<forall>w\<in>set (path_names s). length w < 16" and n: "path_names s \<noteq> []"
  shows "wash_path old (replicate 512 0) = wash_names (clean_buf (path_text [])) (path_names s)"
proof -
  have z: "0 \<notin> set s" using s(1) by (rule cstr_no_zero)
  have o: "old ! 0 = 47" using cstr_nth [OF s(1), of 0] s(2,3) by (cases s) auto
  obtain r where r: "path_parse old 0 (replicate 16 0) = Inr (r, name_buf (first_name s))"
    "case r of None \<Rightarrow> s = [] | Some q \<Rightarrow> cstr old q (rest_path s)" by (rule path_parse_next [OF s(1) l])
  have F: "first_name s \<noteq> []" using n by (simp add: first_name_Nil_iff)
  then have un: "path_names s = first_name s # path_names (rest_path s)" by (simp add: path_names_unfold [of s])
  have g1: "0 \<notin> set (first_name s)" "length (first_name s) < 16" "\<forall>x\<in>set (path_names (rest_path s)). length x < 16"
    using l z first_name_set [of s] unfolding un by auto
  have c: "case r of None \<Rightarrow> rest_path s = [] | Some q \<Rightarrow> cstr old q (rest_path s)" using r(2) s(2) by (auto split: option.splits)
  have loop: "wash_loop old r (name_buf (first_name s)) b = wash_names b (path_names s)" for b
    using wash_loop_names [OF g1(1,2) _ c g1(3), of b] F un by simp
  have st: "strcat (replicate 512 0) 0 [47, 0] 0 = Inr (clean_buf (path_text []))"
    using strcat_clean [of "[]" "[47]" "[47, 0]" 0] by (simp add: clean_buf_def path_text_def)
  have nz: "name_buf (first_name s) ! 0 \<noteq> 0" using name_buf_first [OF F] g1 by simp
  have w0: "(replicate 512 0)[0 := 0] = (replicate 512 0 :: buf)" by (metis list_update_id nth_replicate zero_less_numeral)
  show ?thesis using o r(1) nz st w0 loop by (simp add: wash_path_def wr_def)
qed

text \<open>
  C39. \<^verbatim>\<open>wash_path\<close> normalises a path: an absolute path of names and dots, with any number of
  \<^verbatim>\<open>..\<close> at its end (what \<^verbatim>\<open>cd ..\<close> makes of the working directory), comes out as the text of the list of
  names that walking along it gives, without dots and repeated slashes.
\<close>

theorem wash_path_normal:
  assumes s: "cstr old 0 s" "s \<noteq> []" "hd s = 47" and n: "path_names s = xs @ replicate k dotdot" "dotdot \<notin> set xs"
    and l: "\<forall>w\<in>set (path_names s). length w < 16" "length s < 510"
  shows "\<exists>b. wash_path old (replicate 512 0) = Inr b \<and> cstr b 0 (path_text (foldl walk [] (path_names s)))"
proof -
  have z: "0 \<notin> set s" using s(1) by (rule cstr_no_zero)
  have g: "\<forall>w\<in>set (path_names s). good_name w" using path_names_word z l(1) unfolding good_name_def by blast
  have nl: "names_len (path_names s) < 510" using path_names_len [OF s(3,2)] l(2) by simp
  have o: "old ! 0 = 47" using cstr_nth [OF s(1), of 0] s(2,3) by (cases s) auto
  obtain r where r: "path_parse old 0 (replicate 16 0) = Inr (r, name_buf (first_name s))"
    "case r of None \<Rightarrow> s = [] | Some q \<Rightarrow> cstr old q (rest_path s)" by (rule path_parse_next [OF s(1) l(1)])
  show ?thesis
  proof (cases "first_name s = []")
    case True
    then have "wash_path old (replicate 512 0) = Inr ((replicate 512 0)[0 := 47, 1 := 0])"
      using o r(1) by (simp add: wash_path_def name_buf_Nil wr_def)
    moreover have "path_names s = []" using True by (simp add: path_names_unfold [of s])
    ultimately show ?thesis by (simp add: path_text_def nth_list_update)
  next
    case False
    then have start: "wash_path old (replicate 512 0) = wash_names (clean_buf (path_text [])) (path_names s)"
      using wash_path_names [OF s l(1)] by (simp add: first_name_Nil_iff)
    let ?ys = "foldl walk [] xs"
    have pl: "wash_names (clean_buf (path_text [])) xs = Inr (clean_buf (path_text ?ys))" "\<forall>x\<in>set ?ys. good_name x"
      "names_len ?ys \<le> names_len xs"
      using wash_names_plain [of xs "[]"] g n nl by auto
    have app: "wash_names b (us @ vs) = bindR (wash_names b us) (\<lambda>b1. wash_names b1 vs)" for b us vs
      by (induction us arbitrary: b) (simp_all add: bindR_assoc)
    have "\<forall>x\<in>set ?ys. 0 \<notin> set x" using pl(2) by (simp add: good_name_def)
    then have zt: "0 \<notin> set (path_text ?ys)" by (rule path_text_no_zero)
    have lt: "length (path_text ?ys) < 512" using pl(3) nl n(1) by (simp add: length_path_text)
    then have "cstr (clean_buf (path_text ?ys)) 0 (path_text ?ys)" "length (clean_buf (path_text ?ys)) = 512"
      using clean_cstr [OF lt zt] by (simp_all add: clean_buf_def)
    then obtain b' where "wash_names (clean_buf (path_text ?ys)) (replicate k dotdot) = Inr b'"
      "cstr b' 0 (path_text (foldl walk ?ys (replicate k dotdot)))" using wash_names_up [OF _ _ pl(2)] by blast
    then show ?thesis unfolding start n(1) app pl(1) by simp
  qed
qed

theorem wash_path_normal_witness:
  "\<exists>b. wash_path [47, 97, 47, 47, 98, 47, 46, 46, 0] (replicate 512 0) = Inr b \<and> cstr b 0 [47, 97]"
proof -
  let ?s = "[47, 97, 47, 47, 98, 47, 46, 46] :: u8 list"
  have n: "path_names ?s = [[97], [98]] @ replicate 1 dotdot" by (simp add: path_names.simps Let_def dotdot_def)
  have "foldl walk [] (path_names ?s) = [[97]]" unfolding n by (simp add: walk_def dotdot_def dot_def)
  then show ?thesis
    using wash_path_normal [of "?s @ [0]" ?s, OF _ _ _ n] n by (auto simp: dotdot_def path_text_def)
qed

lemma wash_step_past_root:
  assumes b: "cstr b 0 [47]" "length b = 512" and w: "cstr nm 0 w" "w \<noteq> dot" "w \<noteq> dotdot" "length w < 500"
  shows "wash_step b nm = Inr (put 1 w b)"
proof -
  have dd: "cstr [46, 46, 0] 0 dotdot" "cstr [46, 0] 0 dot" "cstr [47, 0] 0 [47]" by (simp_all add: dotdot_def dot_def)
  obtain r1 where r1: "strcmp [46, 46, 0] 0 nm 0 = Inr r1" "(r1 = 0) = (dotdot = w)" using strcmp_is [OF dd(1) w(1)] by blast
  obtain r2 where r2: "strcmp [46, 0] 0 nm 0 = Inr r2" "(r2 = 0) = (dot = w)" using strcmp_is [OF dd(2) w(1)] by blast
  obtain r3 where r3: "strcmp b 0 [47, 0] 0 = Inr r3" "(r3 = 0) = ([47 :: u8] = [47])" using strcmp_is [OF b(1) dd(3)] by blast
  have "strcat b 0 nm 0 = Inr (put 1 w b)"
    using w(4) b(2) by (simp add: strcat_def strlen_cstr [OF b(1)] strcat_copy_cstr [OF w(1)])
  then show ?thesis using w(2,3) r1 r2 r3 by (auto simp: wash_step_def)
qed

lemma good_name_scan:
  assumes "good_name w"
  shows "takeWhile (\<lambda>c. c \<noteq> 47) (w @ 47 # r) = w \<and> dropWhile (\<lambda>c. c \<noteq> 47) (w @ 47 # r) = 47 # r
    \<and> takeWhile (\<lambda>c. c \<noteq> 47) w = w \<and> dropWhile (\<lambda>c. c \<noteq> 47) w = [] \<and> dropWhile (\<lambda>c. c = 47) (w @ r) = w @ r"
proof -
  have s: "\<And>c. c \<in> set w \<Longrightarrow> c \<noteq> 47" and n: "w \<noteq> []" using assms by (auto simp: good_name_def)
  have "takeWhile (\<lambda>c. c \<noteq> 47) (w @ 47 # r) = w" using s by (subst takeWhile_append2) auto
  moreover have "dropWhile (\<lambda>c. c \<noteq> 47) (w @ 47 # r) = 47 # r" using s by (subst dropWhile_append2) auto
  moreover have "takeWhile (\<lambda>c. c \<noteq> 47) w = w" using s by (simp add: takeWhile_eq_all_conv)
  moreover have "dropWhile (\<lambda>c. c \<noteq> 47) w = []" using s by (simp add: dropWhile_eq_Nil_conv)
  moreover have "dropWhile (\<lambda>c. c = 47) (w @ r) = w @ r" using s n by (cases w) auto
  ultimately show ?thesis by blast
qed

text \<open>
  A name that follows \<^verbatim>\<open>..\<close> and is shorter than the one removed keeps the end of that one, as
  \<^verbatim>\<open>strcat\<close> writes no terminator: \<^verbatim>\<open>/a/../b\<close> becomes \<open>/b\<close> with the last characters
  of \<open>a\<close> behind it, so that \<^verbatim>\<open>cd\<close> and the other commands act on another file.
\<close>

theorem wash_path_stale:
  assumes a: "good_name a" "a \<noteq> dot" "a \<noteq> dotdot" and b: "good_name b" "b \<noteq> dot" "b \<noteq> dotdot" and l: "length b < length a"
    and o: "cstr old 0 (47 # a @ [47, 46, 46, 47] @ b)"
  shows "\<exists>buf. wash_path old (replicate 512 0) = Inr buf \<and> cstr buf 0 (47 # b @ drop (length b) a)"
proof -
  let ?s = "47 # a @ [47, 46, 46, 47] @ b"
  have tk: "takeWhile (\<lambda>c. c \<noteq> 47) (w @ 47 # r) = w" "dropWhile (\<lambda>c. c \<noteq> 47) (w @ 47 # r) = 47 # r"
    "takeWhile (\<lambda>c. c \<noteq> 47) w = w" "dropWhile (\<lambda>c. c \<noteq> 47) w = []" "dropWhile (\<lambda>c. c = 47) (w @ r) = w @ r"
    if "good_name w" for w r :: "u8 list"
    using good_name_scan [OF that, of r] by blast+
  have nb: "path_names (47 # b) = [b]"
    using tk [OF b(1)] tk(3,4) [OF b(1)] tk(5) [OF b(1), of "[]"] b(1) by (simp add: path_names.simps [of "47 # b"] path_names.simps [of "[]"] Let_def good_name_def del: takeWhile_eq_all_conv dropWhile_eq_Nil_conv)
  have nd: "path_names (47 # 46 # 46 # 47 # b) = [dotdot, b]"
    using nb by (simp add: path_names.simps [of "47 # 46 # 46 # 47 # b"] Let_def dotdot_def)
  have n: "path_names ?s = [a, dotdot, b]"
    using nd tk(1,2,5) [OF a(1)] a(1) by (simp add: path_names.simps [of "47 # a @ 47 # 46 # 46 # 47 # b"] Let_def good_name_def del: takeWhile_eq_all_conv dropWhile_eq_Nil_conv)
  have start: "wash_path old (replicate 512 0) = wash_names (clean_buf (path_text [])) [a, dotdot, b]"
    using wash_path_names [OF o] n a(1) b(1) by (simp add: good_name_def dotdot_def)
  have ca: "cstr (name_buf a) 0 a" "cstr (name_buf b) 0 b" "cstr (name_buf dotdot) 0 dotdot"
    using a(1) b(1) name_buf_cstr [of a] name_buf_cstr [of b] name_buf_cstr [of dotdot] by (simp_all add: good_name_def dotdot_def)
  have s1: "wash_step (clean_buf (path_text [])) (name_buf a) = Inr (clean_buf (47 # a))"
    using wash_step_name [OF ca(1) _ a(3), of "[]"] a by (simp add: good_name_def path_text_def walk_def)
  let ?b = "(clean_buf (47 # a))[1 := 0]"
  have cc: "cstr (clean_buf (47 # a)) 0 (47 # a)" using a(1) by (intro clean_cstr) (auto simp: good_name_def)
  have sr: "strrchr (clean_buf (47 # a)) 0 47 = Inr (Some 0)"
    using strrchr_last [of _ 0 "[]" 47 a] cc a(1) by (simp add: good_name_def)
  obtain r1 where r1: "strcmp [46, 46, 0] 0 (name_buf dotdot) 0 = Inr r1" "(r1 = 0) = (dotdot = dotdot)"
    using strcmp_is [OF _ ca(3), of "[46, 46, 0]" 0 dotdot] by (auto simp: dotdot_def)
  have l512: "length (clean_buf (47 # a)) = 512" using a(1) by (simp add: clean_buf_def good_name_def)
  have s2: "wash_step (clean_buf (47 # a)) (name_buf dotdot) = Inr ?b" using sr r1 l512 by (simp add: wash_step_def wr_def)
  have cb: "cstr ?b 0 [47]" using cstr_cut [of _ 0 "[47]" a] cc by simp
  have s3: "wash_step ?b (name_buf b) = Inr (put 1 b ?b)"
    using wash_step_past_root [OF cb _ ca(2) b(2,3)] l512 b(1) by (simp add: good_name_def)
  have "cstr (put 1 b ?b) 0 (47 # b @ drop (length b) a)"
  proof (rule cstrI)
    show "0 \<notin> set (47 # b @ drop (length b) a)" using a(1) b(1) by (auto simp: good_name_def dest: in_set_dropD)
  qed (use l512 l a(1) b(1) in \<open>auto simp: nth_put clean_buf_def good_name_def nth_append nth_Cons' nth_list_update\<close>)
  then show ?thesis using start s1 s2 s3 by simp
qed

theorem wash_path_stale_witness:
  "\<exists>buf. wash_path ([47, 97, 98, 99, 47, 46, 46, 47, 120] @ [0]) (replicate 512 0) = Inr buf \<and> cstr buf 0 [47, 120, 98, 99]"
  using wash_path_stale [of "[97, 98, 99]" "[120]" "[47, 97, 98, 99, 47, 46, 46, 47, 120] @ [0]"]
  by (simp add: good_name_def dot_def dotdot_def)

subsection \<open>A line split into words\<close>

text \<open>The words of a line: what lies between the separators.\<close>

function words_of :: "u8 \<Rightarrow> u8 list \<Rightarrow> u8 list list" where
  "words_of t s = (case dropWhile (\<lambda>c. c = t) s of
     [] \<Rightarrow> []
   | c # r \<Rightarrow> takeWhile (\<lambda>c. c \<noteq> t) (c # r) # words_of t (dropWhile (\<lambda>c. c \<noteq> t) (c # r)))"
  by pat_completeness auto
termination
proof (relation "measure (length \<circ> snd)", goal_cases)
  case (2 t s c r)
  then have "c \<noteq> t" by (simp add: dropWhile_eq_Cons_conv)
  moreover have "Suc (length r) \<le> length s" using 2 length_dropWhile_le [of "\<lambda>c. c = t" s] by simp
  ultimately show ?case using length_dropWhile_le [of "\<lambda>c. c \<noteq> t" r] by simp
qed simp

declare words_of.simps [simp del]

lemma skip_token_cstr:
  assumes "cstr b p s" and "t \<noteq> 0"
  shows "skip_token b p t = Inr (p + length (takeWhile (\<lambda>c. c = t) s))
    \<and> cstr b (p + length (takeWhile (\<lambda>c. c = t) s)) (dropWhile (\<lambda>c. c = t) s)"
  using assms
proof (induction s arbitrary: p)
  case Nil
  then show ?case by (subst skip_token.simps) auto
next
  case (Cons c s)
  then show ?case using Cons.IH [of "Suc p"] by (subst skip_token.simps) auto
qed

lemma word_end_cstr:
  assumes "cstr b p s" and "t \<noteq> 0"
  shows "word_end b p t = Inr (p + length (takeWhile (\<lambda>c. c \<noteq> t) s))
    \<and> cstr b (p + length (takeWhile (\<lambda>c. c \<noteq> t) s)) (dropWhile (\<lambda>c. c \<noteq> t) s)"
  using assms
proof (induction s arbitrary: p)
  case Nil
  then show ?case by (subst word_end.simps) auto
next
  case (Cons c s)
  then show ?case using Cons.IH [of "Suc p"] by (subst word_end.simps) auto
qed

lemma cstr_same: "cstr b p s \<Longrightarrow> length b' = length b \<Longrightarrow> \<forall>i. p \<le> i \<and> i \<le> p + length s \<longrightarrow> b' ! i = b ! i \<Longrightarrow> cstr b' p s"
  by (induction s arbitrary: p) auto

text \<open>One round of the loop: the next word, and where the loop goes on.\<close>

lemma parse_loop_word:
  assumes c: "cstr b p s" and t: "t \<noteq> 0" and w: "words_of t s = w # ws" and n: "n < length av" "n \<le> 16"
  obtains q b1 p1 s1 where "parse_loop b p t n av = parse_loop b1 p1 t (Suc n) (av[n := Some q])"
    and "p \<le> q" "q + length w \<le> p1" "cstr b q (w @ drop (length w) (dropWhile (\<lambda>c. c = t) s))"
    and "cstr b1 p1 s1" "words_of t s1 = ws" "length s1 < length s"
    and "length b1 = length b" "\<forall>i. i \<noteq> q + length w \<longrightarrow> b1 ! i = b ! i" "b1 ! (q + length w) = 0"
proof -
  let ?s = "dropWhile (\<lambda>c. c = t) s" and ?q = "p + length (takeWhile (\<lambda>c. c = t) s)"
  let ?r = "dropWhile (\<lambda>c. c \<noteq> t) ?s"
  have sk: "skip_token b p t = Inr ?q" "cstr b ?q ?s" using skip_token_cstr [OF c t] by auto
  have sn: "?s \<noteq> []" using w by (subst (asm) words_of.simps) (auto simp del: dropWhile_eq_Nil_conv)
  then have hd: "hd ?s \<noteq> t" using hd_dropWhile by (metis (mono_tags))
  have w': "takeWhile (\<lambda>c. c \<noteq> t) ?s = w" "words_of t ?r = ws"
    using w sn by (subst (asm) words_of.simps; simp split: list.splits)+
  have we: "word_end b ?q t = Inr (?q + length w)" "cstr b (?q + length w) ?r"
    using word_end_cstr [OF sk(2) t] w'(1) by auto
  have wn: "w \<noteq> []" using w'(1) sn hd by (cases ?s) auto
  have ss: "w @ ?r = ?s" using takeWhile_dropWhile_id [of "\<lambda>c. c \<noteq> t" ?s] unfolding w'(1) .
  have dr: "drop (length w) ?s = ?r" by (rule append_eq_conv_conj [THEN iffD1, THEN conjunct2, symmetric, OF ss])
  have "length w + length ?r = length ?s" using arg_cong [OF ss, of length] by (simp only: length_append)
  moreover have "0 < length w" using wn by simp
  ultimately have len: "length ?r < length s" using length_dropWhile_le [of "\<lambda>c. c = t" s] by linarith
  have bp: "b ! p \<noteq> 0" "p < length b" using c sn by (cases s; auto)+
  have bq: "b ! ?q \<noteq> 0" using sk(2) sn by (cases ?s) auto
  have run: "parse_loop b p t n av = (if b ! (?q + length w) \<noteq> 0
      then parse_loop (b[?q + length w := 0]) (Suc (?q + length w)) t (Suc n) (av[n := Some ?q])
      else parse_loop b (?q + length w) t (Suc n) (av[n := Some ?q]))"
    using n bp bq sk(1) we(1) by (subst parse_loop.simps) (simp add: MAX_ARG_NR_def)
  have l: "?q + length w < length b" using cstr_length [OF we(2)] by simp
  have cw: "cstr b ?q (w @ ?r)" unfolding ss by (rule sk(2))
  show ?thesis
  proof (cases ?r)
    case Nil
    then have z: "b ! (?q + length w) = 0" using we(2) by (simp del: dropWhile_eq_Nil_conv)
    show ?thesis
    proof (rule that)
      show "parse_loop b p t n av = parse_loop b (?q + length w) t (Suc n) (av[n := Some ?q])" using run z by simp
      show "cstr b (?q + length w) []" using z l by simp
      show "words_of t [] = ws" using w'(2) unfolding Nil .
      show "length ([] :: u8 list) < length s" using len unfolding Nil .
    qed (simp_all only: z dr cw simp_thms order_refl le_add1)
  next
    case (Cons x r)
    have x: "x = t" using Cons by (simp add: dropWhile_eq_Cons_conv)
    have nz: "b ! (?q + length w) \<noteq> 0" and cr: "cstr b (Suc (?q + length w)) r" using we(2) unfolding Cons by auto
    show ?thesis
    proof (rule that)
      show "parse_loop b p t n av = parse_loop (b[?q + length w := 0]) (Suc (?q + length w)) t (Suc n) (av[n := Some ?q])"
        using run nz by simp
      show "cstr (b[?q + length w := 0]) (Suc (?q + length w)) r" by (rule cstr_same [OF cr]) auto
      show "words_of t r = ws" using w'(2) unfolding Cons x by (subst (asm) words_of.simps) (subst words_of.simps, simp)
      show "length r < length s" using len unfolding Cons by simp
    qed (simp_all add: dr cw l)
  qed
qed

lemma parse_loop_end:
  assumes "cstr b p s" and "t \<noteq> 0" and "words_of t s = []"
  shows "parse_loop b p t n av = Inr (Some n, b, av)"
proof -
  have d: "dropWhile (\<lambda>c. c = t) s = []" using assms(3) by (subst (asm) words_of.simps) (auto split: list.splits)
  have sk: "skip_token b p t = Inr (p + length (takeWhile (\<lambda>c. c = t) s))" "b ! (p + length (takeWhile (\<lambda>c. c = t) s)) = 0"
    using skip_token_cstr [OF assms(1,2)] d by auto
  have "p < length b" using cstr_length [OF assms(1)] by simp
  then show ?thesis using sk by (subst parse_loop.simps) simp
qed

lemma parse_loop_words:
  assumes "cstr b p s" and "t \<noteq> 0" and "n + length (words_of t s) \<le> 16" and "length av = 16"
  shows "\<exists>b' av'. parse_loop b p t n av = Inr (Some (n + length (words_of t s)), b', av') \<and> length av' = 16
    \<and> length b' = length b \<and> (\<forall>i. i < p \<or> b ! i = 0 \<longrightarrow> b' ! i = b ! i)
    \<and> (\<forall>k<16. k < n \<or> n + length (words_of t s) \<le> k \<longrightarrow> av' ! k = av ! k)
    \<and> (\<forall>k<length (words_of t s). \<exists>q. av' ! (n + k) = Some q \<and> cstr b' q (words_of t s ! k))"
  using assms
proof (induction "length s" arbitrary: b p s n av rule: less_induct)
  case less
  show ?case
  proof (cases "words_of t s")
    case Nil
    then show ?thesis using parse_loop_end [OF less.prems(1,2) Nil] less.prems(4) by simp
  next
    case (Cons w ws)
    have nn: "n < length av" "n \<le> 16" using less.prems(3,4) Cons by simp_all
    obtain q b1 p1 s1 where r: "parse_loop b p t n av = parse_loop b1 p1 t (Suc n) (av[n := Some q])"
      and q: "p \<le> q" "q + length w \<le> p1" and cw: "cstr b q (w @ drop (length w) (dropWhile (\<lambda>c. c = t) s))"
      and c1: "cstr b1 p1 s1" "words_of t s1 = ws" "length s1 < length s"
      and b1: "length b1 = length b" "\<forall>i. i \<noteq> q + length w \<longrightarrow> b1 ! i = b ! i" "b1 ! (q + length w) = 0"
      by (rule parse_loop_word [OF less.prems(1,2) Cons nn])
    obtain b' av' where i: "parse_loop b1 p1 t (Suc n) (av[n := Some q]) = Inr (Some (Suc n + length ws), b', av')"
        "length av' = 16" "length b' = length b1" "\<forall>i. i < p1 \<or> b1 ! i = 0 \<longrightarrow> b' ! i = b1 ! i"
        "\<forall>k<16. k < Suc n \<or> Suc n + length ws \<le> k \<longrightarrow> av' ! k = av[n := Some q] ! k"
        "\<forall>k<length ws. \<exists>q. av' ! (Suc n + k) = Some q \<and> cstr b' q (ws ! k)"
      using less.hyps [OF c1(3,1) less.prems(2), of "Suc n" "av[n := Some q]"] less.prems(3,4) Cons c1(2) by auto
    have ends: "q + length w < length b" using cstr_length [OF cw] by simp
    have "cstr b' q w"
    proof (rule cstrI)
      show "0 \<notin> set w" using cstr_no_zero [OF cw] by simp
    next
      fix k assume "k < length w"
      then show "b' ! (q + k) = w ! k" using i(4) b1(2) q cstr_nth [OF cw, of k] by (simp add: nth_append)
    qed (use i(3,4) b1 ends in auto)
    moreover have avn: "av' ! n = Some q" using i(5) nn less.prems(3,4) Cons by simp
    ultimately have "\<forall>k<Suc (length ws). \<exists>q. av' ! (n + k) = Some q \<and> cstr b' q ((w # ws) ! k)"
      using i(6) avn by (auto simp: less_Suc_eq_0_disj)
    moreover have "b' ! j = b ! j" if "j < p \<or> b ! j = 0" for j
    proof (cases "j = q + length w")
      case True
      then show ?thesis using that i(4) b1(3) q by simp
    next
      case False
      then have "b1 ! j = b ! j" using b1(2) by blast
      then show ?thesis using that i(4) q by auto
    qed
    moreover have "\<forall>k<16. k < n \<or> n + length (w # ws) \<le> k \<longrightarrow> av' ! k = av ! k" using i(5) by auto
    ultimately show ?thesis unfolding r i(1) Cons using i(2,3) b1(1) by (intro exI [of _ b'] exI [of _ av']) simp
  qed
qed

lemma parse_loop_too_many:
  assumes "cstr b p s" and "t \<noteq> 0" and "16 < n + length (words_of t s)" and "length av = 16" and "n \<le> 16"
  shows "parse_loop b p t n av = Inl Bad_Access"
  using assms
proof (induction "length s" arbitrary: b p s n av rule: less_induct)
  case less
  then obtain w ws where w: "words_of t s = w # ws" by (cases "words_of t s") auto
  show ?case
  proof (cases "n < 16")
    case True
    then have nn: "n < length av" "n \<le> 16" using less.prems(4) by simp_all
    obtain q b1 p1 s1 where r: "parse_loop b p t n av = parse_loop b1 p1 t (Suc n) (av[n := Some q])"
      and c1: "cstr b1 p1 s1" "words_of t s1 = ws" "length s1 < length s"
      by (rule parse_loop_word [OF less.prems(1,2) w nn])
    show ?thesis
      unfolding r using less.hyps [OF c1(3,1) less.prems(2), of "Suc n" "av[n := Some q]"] less.prems(3,4) w c1(2) True by simp
  next
    case False
    then have n: "\<not> n < length av" using less.prems(4) by simp
    have sk: "skip_token b p t = Inr (p + length (takeWhile (\<lambda>c. c = t) s))"
        "cstr b (p + length (takeWhile (\<lambda>c. c = t) s)) (dropWhile (\<lambda>c. c = t) s)"
      using skip_token_cstr [OF less.prems(1,2)] by auto
    have sn: "dropWhile (\<lambda>c. c = t) s \<noteq> []" using w by (subst (asm) words_of.simps) (auto simp del: dropWhile_eq_Nil_conv)
    have "b ! p \<noteq> 0" "p < length b" using less.prems(1) sn by (cases s; auto)+
    moreover have "b ! (p + length (takeWhile (\<lambda>c. c = t) s)) \<noteq> 0" using sk(2) sn by (cases "dropWhile (\<lambda>c. c = t) s") auto
    ultimately show ?thesis using n sk(1) by (subst parse_loop.simps) simp
  qed
qed

text \<open>
  C40. \<^verbatim>\<open>cmd_parse\<close> is the splitting of a line into words: it returns how many there are, \<^verbatim>\<open>argv[k]\<close> points to the
  k-th of them, terminated by a zero in place of the separator behind it, and the rest of \<^verbatim>\<open>argv\<close> is null.
\<close>

theorem cmd_parse_words:
  assumes "cstr line 0 s" and "t \<noteq> 0" and "length (words_of t s) \<le> 16"
  shows "\<exists>line' argv. cmd_parse line t = Inr (Some (length (words_of t s)), line', argv) \<and> length argv = 16
    \<and> (\<forall>k<length (words_of t s). \<exists>p. argv ! k = Some p \<and> cstr line' p (words_of t s ! k))
    \<and> (\<forall>k<16. length (words_of t s) \<le> k \<longrightarrow> argv ! k = None)"
  using parse_loop_words [OF assms(1,2), of 0 "replicate 16 None"] assms(3)
  by (auto simp: cmd_parse_def MAX_ARG_NR_def)

lemma words_example: "words_of 32 [32, 108, 115, 32, 32, 45, 108] = [[108, 115], [45, 108]]"
  by (simp add: words_of.simps)

theorem cmd_parse_words_witness:
  "\<exists>line' argv. cmd_parse [32, 108, 115, 32, 32, 45, 108, 0] 32 = Inr (Some 2, line', argv) \<and> length argv = 16
    \<and> (\<forall>k<2. \<exists>p. argv ! k = Some p \<and> cstr line' p ([[108, 115], [45, 108]] ! k))
    \<and> (\<forall>k<16. 2 \<le> k \<longrightarrow> argv ! k = None)"
  using cmd_parse_words [of "[32, 108, 115, 32, 32, 45, 108, 0]" "[32, 108, 115, 32, 32, 45, 108]" 32]
  by (simp add: words_example flip: numeral_2_eq_2)

text \<open>
  A line of more than sixteen words is not refused: the seventeenth argument is written to \<^verbatim>\<open>argv[16]\<close>, behind the
  end of the array, before the count is compared with its size, and the comparison that should refuse it (\<^verbatim>\<open>>\<close> where
  \<^verbatim>\<open>>=\<close> is meant) is never reached with a count that it refuses.
\<close>

theorem cmd_parse_overrun:
  assumes "cstr line 0 s" and "t \<noteq> 0" and "16 < length (words_of t s)"
  shows "cmd_parse line t = Inl Bad_Access"
  using parse_loop_too_many [OF assms(1,2), of 0 "replicate 16 None"] assms(3)
  by (simp add: cmd_parse_def MAX_ARG_NR_def)

definition many_words :: buf where
  "many_words = concat (replicate 17 [97, 32])"

lemma words_of_step: "words_of 32 (97 # 32 # s) = [97] # words_of 32 s"
proof -
  have "words_of 32 (97 # 32 # s) = [97] # words_of 32 (32 # s)" by (subst words_of.simps) simp
  also have "words_of 32 (32 # s) = words_of 32 s" by (subst (1 2) words_of.simps) simp
  finally show ?thesis .
qed

theorem cmd_parse_overrun_witness: "cmd_parse (many_words @ [0]) 32 = Inl Bad_Access"
proof (rule cmd_parse_overrun)
  show "cstr (many_words @ [0]) 0 many_words"
    by (rule cstrI) (auto simp: nth_append many_words_def set_replicate_conv_if)
  have "length (words_of 32 (concat (replicate k [97, 32]))) = k" for k
    by (induction k) (simp_all add: words_of.simps [of _ "[]"] words_of_step)
  then show "16 < length (words_of 32 many_words)" by (simp add: many_words_def)
qed simp

end
