(* ===== verification/Task.thy ===== *)
theory Task
  imports Prelude Cstring Bitmap Interrupt Klist Paging Thread Sync Memory Stdio Fs_State Fs
begin

section \<open>The life of a thread (\<^verbatim>\<open>thread/thread.c\<close>, \<^verbatim>\<open>userprog/tss.c\<close>, \<^verbatim>\<open>device/timer.c\<close>)\<close>

text \<open>
  Process identifiers, the making of a thread and of its first kernel stack, its end, and the list of
  threads that \<^verbatim>\<open>ps\<close> prints. The state extends the one of the pages by the pool of identifiers and by the
  address of the pages that hold the virtual address bitmap of a process (in the PCB the bitmap itself is kept).
  The addresses of the routines that a new stack refers to are chosen by the linker: they are a parameter.
\<close>

subsection \<open>State\<close>

text \<open>Added to the memory: the pool of identifiers, the pages that hold the map of virtual pages of a process, and the part of
  the processor that \<^verbatim>\<open>thread_exit\<close> relies on (below).\<close>

record tasks = kmem +
  pid_bitmap :: bitmap
  pid_lock :: lock
  vaddr_bits_at :: "u32 \<Rightarrow> u32"
  tlb_keeps :: "u32 \<Rightarrow> bool"

definition pid_start :: u32 where "pid_start = 1"

record code_labels =
  at_kernel_thread :: u32
  at_start_process :: u32
  at_idle :: u32
  at_intr_exit :: u32

text \<open>A loop over a list.\<close>

primrec eachR :: "('x \<Rightarrow> 's \<Rightarrow> 's res) \<Rightarrow> 'x list \<Rightarrow> 's \<Rightarrow> 's res" where
  "eachR f [] s = Inr s"
| "eachR f (x # xs) s = bindR (f x s) (eachR f xs)"

subsection \<open>Identifiers\<close>

definition pid_pool_init :: "'a tasks_scheme \<Rightarrow> 'a tasks_scheme res" where
  "pid_pool_init s =
     bindR (bitmap_init \<lparr>btmp_bytes_len = 128, bits = replicate 128 0\<rparr>) (\<lambda>b.
     Inr (s\<lparr>pid_bitmap := b, pid_lock := lock_init\<rparr>))"

text \<open>The result of the scan is not compared with -1.\<close>

definition allocate_pid :: "'a tasks_scheme \<Rightarrow> (pid_t \<times> 'a tasks_scheme) res" where
  "allocate_pid s =
     bindR (lock_acquire (pid_lock s) s) (\<lambda>(l, s1).
     bindR (bitmap_scan (pid_bitmap s1) 1) (\<lambda>bit_idx.
     bindR (bitmap_set (pid_bitmap s1) bit_idx 1) (\<lambda>b.
     bindR (lock_release l (s1\<lparr>pid_bitmap := b\<rparr>)) (\<lambda>(l2, s2).
     Inr (ucast (bit_idx + pid_start), s2\<lparr>pid_lock := l2\<rparr>)))))"

definition release_pid :: "pid_t \<Rightarrow> 'a tasks_scheme \<Rightarrow> 'a tasks_scheme res" where
  "release_pid p s =
     bindR (lock_acquire (pid_lock s) s) (\<lambda>(l, s1).
     bindR (bitmap_set (pid_bitmap s1) (scast p - pid_start) 0) (\<lambda>b.
     bindR (lock_release l (s1\<lparr>pid_bitmap := b\<rparr>)) (\<lambda>(l2, s2).
     Inr (s2\<lparr>pid_lock := l2\<rparr>))))"

definition fork_pid :: "'a tasks_scheme \<Rightarrow> (pid_t \<times> 'a tasks_scheme) res" where
  "fork_pid = allocate_pid"

subsection \<open>A new thread\<close>

definition zero_pcb :: task_struct where
  "zero_pcb = \<lparr>self_kstack = 0, pid = 0, status = TASK_RUNNING, name = replicate 16 0, priority = 0, ticks = 0,
     elapsed_ticks = 0, fd_table = replicate MAX_FILES_OPEN_PER_PROC 0, pgdir = 0,
     userprog_vaddr = \<lparr>vaddr_bitmap = \<lparr>btmp_bytes_len = 0, bits = []\<rparr>, vaddr_start = 0\<rparr>,
     u_block_desc = replicate DESC_CNT \<lparr>block_size = 0, blocks_pre_arena = 0, free_list = []\<rparr>,
     cwd_inode_nr = 0, parent_pid = 0, exit_status = 0, stack_magic = 0\<rparr>"

text \<open>\<^verbatim>\<open>prio\<close> goes to a \<^verbatim>\<open>uint8_t\<close> and an \<^verbatim>\<open>int8_t\<close>.\<close>

definition init_thread :: "u32 \<Rightarrow> buf \<Rightarrow> u32 \<Rightarrow> 'a tasks_scheme \<Rightarrow> 'a tasks_scheme res" where
  "init_thread pthread nm prio s0 =
     (if pthread = 0 then Inl Bad_Access
      else let s = s0\<lparr>pcbs := (pcbs s0)(pthread \<mapsto> zero_pcb), vaddr_bits_at := (vaddr_bits_at s0)(pthread := 0)\<rparr> in
        bindR (allocate_pid s) (\<lambda>(p, s1).
        bindR (upd_pcb pthread (\<lambda>t. t\<lparr>pid := p\<rparr>) s1) (\<lambda>s2.
        bindR (pcb pthread s2) (\<lambda>t.
        bindR (strcpy (name t) 0 nm 0) (\<lambda>nm1.
        upd_pcb pthread (\<lambda>t. t\<lparr>name := nm1,
          status := (if pthread = main_thread s2 then TASK_RUNNING else TASK_READY),
          ticks := ucast prio, elapsed_ticks := 0, pgdir := 0, priority := ucast prio,
          self_kstack := pthread + PAGE_SIZE,
          fd_table := [0, 1, 2] @ replicate (MAX_FILES_OPEN_PER_PROC - 3) (-1),
          cwd_inode_nr := 0, parent_pid := -1, stack_magic := STACK_MAGIC\<rparr>) s2)))))"

text \<open>The fields of a structure in memory, by their offsets.\<close>

definition store_words :: "u32 \<Rightarrow> (u32 \<times> u32) list \<Rightarrow> 'a cpu_scheme \<Rightarrow> 'a cpu_scheme res" where
  "store_words a fs = eachR (\<lambda>(off, x). vwrite (a + off) x) fs"

text \<open>\<^verbatim>\<open>self_kstack\<close> points to words, so subtracting a size moves it by four times as many bytes. The sizes are 76
  for \<^verbatim>\<open>struct intr_stack\<close> and 32 for \<^verbatim>\<open>struct thread_stack\<close>.\<close>

definition INTR_STACK_SIZE :: u32 where "INTR_STACK_SIZE = 76"
definition THREAD_STACK_SIZE :: u32 where "THREAD_STACK_SIZE = 32"

definition thread_create :: "code_labels \<Rightarrow> u32 \<Rightarrow> u32 \<Rightarrow> u32 \<Rightarrow> 'a tasks_scheme \<Rightarrow> 'a tasks_scheme res" where
  "thread_create c pthread function_at func_arg s =
     bindR (upd_pcb pthread (\<lambda>t. t\<lparr>self_kstack := self_kstack t - 4 * INTR_STACK_SIZE\<rparr>) s) (\<lambda>s1.
     bindR (upd_pcb pthread (\<lambda>t. t\<lparr>self_kstack := self_kstack t - 4 * THREAD_STACK_SIZE\<rparr>) s1) (\<lambda>s2.
     bindR (pcb pthread s2) (\<lambda>t.
     store_words (self_kstack t)
       [(16, at_kernel_thread c), (24, function_at), (28, func_arg), (12, 0), (8, 0), (4, 0), (0, 0)] s2)))"

definition enlist :: "u32 \<Rightarrow> 'a tasks_scheme \<Rightarrow> 'a tasks_scheme res" where
  "enlist thread s =
     ASSERT (thread \<notin> set (thread_ready_list s))
       (bindR (kl_append thread (thread_ready_list s)) (\<lambda>r.
        ASSERT (thread \<notin> set (thread_all_list s))
          (bindR (kl_append thread (thread_all_list s)) (\<lambda>a.
           Inr (s\<lparr>thread_ready_list := r, thread_all_list := a\<rparr>)))))"

definition thread_start :: "code_labels \<Rightarrow> buf \<Rightarrow> u32 \<Rightarrow> u32 \<Rightarrow> u32 \<Rightarrow> 'a tasks_scheme \<Rightarrow> (u32 \<times> 'a tasks_scheme) res" where
  "thread_start c nm prio function_at func_arg s =
     bindR (get_kernel_pages 1 s) (\<lambda>(thread, s1).
     bindR (init_thread thread nm prio s1) (\<lambda>s2.
     bindR (thread_create c thread function_at func_arg s2) (\<lambda>s3.
     bindR (enlist thread s3) (\<lambda>s4. Inr (thread, s4)))))"

definition make_main_thread :: "'a tasks_scheme \<Rightarrow> 'a tasks_scheme res" where
  "make_main_thread s0 =
     (let s = s0\<lparr>main_thread := running_thread s0\<rparr> in
      bindR (init_thread (main_thread s) [109, 97, 105, 110, 0] 31 s) (\<lambda>s1.
      ASSERT (main_thread s1 \<notin> set (thread_all_list s1))
        (bindR (kl_append (main_thread s1) (thread_all_list s1)) (\<lambda>a. Inr (s1\<lparr>thread_all_list := a\<rparr>)))))"

text \<open>Where a new thread begins, and one round of the idle thread: up to the switch, and from there to \<^verbatim>\<open>hlt\<close>.\<close>

definition kernel_thread_entry :: "'a cpu_scheme \<Rightarrow> 'a cpu_scheme" where
  "kernel_thread_entry s = s\<lparr>eflags := snd (intr_enable (eflags s))\<rparr>"

definition idle_pass :: "'a kernel_scheme \<Rightarrow> (intr_status \<times> 'a kernel_scheme) res" where
  "idle_pass = thread_block TASK_BLOCKED"

definition idle_halts :: "intr_status \<Rightarrow> 'a kernel_scheme \<Rightarrow> 'a kernel_scheme" where
  "idle_halts old_status s = (let s1 = block_return old_status s in s1\<lparr>eflags := snd (intr_enable (eflags s1))\<rparr>)"

subsection \<open>The end of a thread\<close>

text \<open>
  The page of the PCB is given back before its identifier is read, and \<^verbatim>\<open>schedule\<close> still uses it. That
  goes well only as long as the processor has the translation of the page in its TLB: the \<^verbatim>\<open>invlpg\<close> of
  \<^verbatim>\<open>page_table_pte_remove\<close> is for the page of its own argument on the stack, so nothing removes the translation, but
  nothing holds it there either. \<open>tlb_keeps\<close> says for which pages the processor still has it; without it the read is a
  page fault.
\<close>

definition thread_exit :: "u32 \<Rightarrow> bool \<Rightarrow> 'a tasks_scheme \<Rightarrow> 'a tasks_scheme res" where
  "thread_exit thread_over need_schedule s0 =
     (let s = s0\<lparr>eflags := snd (intr_disable (eflags s0))\<rparr> in
      bindR (upd_pcb thread_over (\<lambda>t. t\<lparr>status := TASK_DIED\<rparr>) s) (\<lambda>s1.
      bindR (if thread_over \<in> set (thread_ready_list s1)
             then bindR (kl_remove thread_over (thread_ready_list s1)) (\<lambda>r. Inr (s1\<lparr>thread_ready_list := r\<rparr>))
             else Inr s1) (\<lambda>s2.
      bindR (pcb thread_over s2) (\<lambda>t.
      bindR (if pgdir t \<noteq> 0 then mfree_page PF_KERNEL (pgdir t) 1 s2 else Inr s2) (\<lambda>s3.
      bindR (kl_remove thread_over (thread_all_list s3)) (\<lambda>a.
      let s4 = s3\<lparr>thread_all_list := a\<rparr> in
      bindR (if thread_over \<noteq> main_thread s4 then mfree_page PF_KERNEL thread_over 1 s4 else Inr s4) (\<lambda>s5.
      bindR (if thread_over = main_thread s5 \<or> tlb_keeps s5 thread_over then Inr (pid t) else Inl Bad_Access) (\<lambda>n.
      bindR (release_pid n s5) (\<lambda>s6.
      bindR (if need_schedule then schedule s6 else Inr s6) (\<lambda>s7.
      Inr (if thread_over \<noteq> main_thread s7 then s7\<lparr>pcbs := (pcbs s7)(thread_over := None)\<rparr> else s7)))))))))))"

subsection \<open>Looking for a thread\<close>

text \<open>\<^verbatim>\<open>list_traversal\<close> over the list of all threads: the first one with the property.\<close>

primrec find_task :: "(task_struct \<Rightarrow> bool) \<Rightarrow> u32 list \<Rightarrow> 'a kernel_scheme \<Rightarrow> u32 option res" where
  "find_task P [] s = Inr None"
| "find_task P (p # ps) s = bindR (pcb p s) (\<lambda>t. if P t then Inr (Some p) else find_task P ps s)"

definition pid_check :: "u32 \<Rightarrow> task_struct \<Rightarrow> bool" where
  "pid_check n t \<longleftrightarrow> scast (pid t) = n"

definition pid2thread :: "u32 \<Rightarrow> 'a kernel_scheme \<Rightarrow> u32 option res" where
  "pid2thread n s = find_task (pid_check n) (thread_all_list s) s"

definition sys_getpid :: "'a kernel_scheme \<Rightarrow> u32 res" where
  "sys_getpid s = bindR (pcb (running_thread s) s) (\<lambda>t. Inr (scast (pid t)))"

subsection \<open>The list of the threads\<close>

text \<open>A step of the state inside the heap of the file system's state.\<close>

definition heapM :: "('k \<Rightarrow> ('a \<times> 'k) res) \<Rightarrow> ('a, 'k) fsm" where
  "heapM m = (\<lambda>s. bindR (m (heap s)) (\<lambda>(x, k). Inr (x, s\<lparr>heap := k\<rparr>)))"

primrec eachM :: "('x \<Rightarrow> (unit, 'k) fsm) \<Rightarrow> 'x list \<Rightarrow> (unit, 'k) fsm" where
  "eachM f [] = retM ()"
| "eachM f (x # xs) = bindM (f x) (\<lambda>_. eachM f xs)"

text \<open>The padding is written from the end of the text on, over its terminating zero.\<close>

definition pad_print :: "'k heap_ops \<Rightarrow> nat \<Rightarrow> string \<Rightarrow> arg \<Rightarrow> (unit, 'k) fsm" where
  "pad_print h buf_len fmt a =
     bindM (liftM (sprintf (replicate buf_len 0) 0 (map of_char fmt @ [0]) 0 [a])) (\<lambda>(n, b).
     let i = unat (of_nat n :: u8) in
     bindM (sys_write h 1 (if i < buf_len then take i b @ replicate (buf_len - i) 32 else b) (of_nat (buf_len - 1)))
       (\<lambda>_. retM ()))"

definition status_text :: "task_status \<Rightarrow> string" where
  "status_text st = (case st of TASK_RUNNING \<Rightarrow> ''RUNNING'' | TASK_READY \<Rightarrow> ''REDY'' | TASK_BLOCKED \<Rightarrow> ''BLOCKED''
     | TASK_WAITING \<Rightarrow> ''WAITTING'' | TASK_HANGING \<Rightarrow> ''HANGING'' | TASK_DIED \<Rightarrow> ''DIED'')"

definition lit :: "string \<Rightarrow> arg" where
  "lit s = AStr (map of_char s @ [0]) 0"

definition elem2entry_info :: "'a kernel_scheme heap_ops \<Rightarrow> u32 \<Rightarrow> (unit, 'a kernel_scheme) fsm" where
  "elem2entry_info h p =
     bindM (heapM (\<lambda>s. bindR (pcb p s) (\<lambda>t. Inr (t, s)))) (\<lambda>t.
     bindM (pad_print h 16 ''%d'' (AInt (scast (pid t)))) (\<lambda>_.
     bindM (if parent_pid t = -1 then pad_print h 16 ''%s'' (lit ''NULL'')
            else pad_print h 16 ''%d'' (AInt (scast (parent_pid t)))) (\<lambda>_.
     bindM (pad_print h 16 ''%s'' (lit (status_text (status t)))) (\<lambda>_.
     bindM (pad_print h 16 ''%x'' (AInt (elapsed_ticks t))) (\<lambda>_.
     bindM (liftM (strlen (name t) 0)) (\<lambda>n.
     assertM (n < 17)
       (bindM (liftM (memcpy (replicate 16 0) 0 (name t) 0 n)) (\<lambda>b.
        bindM (liftM (strcat b 0 [10, 0] 0)) (\<lambda>b1.
        bindM (liftM (strlen b1 0)) (\<lambda>m.
        bindM (sys_write h 1 b1 (of_nat m)) (\<lambda>_. retM ())))))))))))"

definition sys_ps :: "'a kernel_scheme heap_ops \<Rightarrow> (unit, 'a kernel_scheme) fsm" where
  "sys_ps h =
     bindM (sys_write h 1 (map of_char (''PID      PPID      STAT      TICKS      COMMAND'' @ [CHR 0x0A])) 48) (\<lambda>_.
     bindM (getM (thread_all_list \<circ> heap)) (eachM (elem2entry_info h)))"

subsection \<open>The task state segment\<close>

record gdt_desc =
  limit_low_word :: u16
  base_low_word :: u16
  base_mid_byte :: u8
  attr_low_byte :: u8
  limit_high_attr_high :: u8
  base_high_byte :: u8

definition make_gdt_desc :: "u32 \<Rightarrow> u32 \<Rightarrow> u8 \<Rightarrow> u8 \<Rightarrow> gdt_desc" where
  "make_gdt_desc desc_base limit attr_low attr_high =
     \<lparr>limit_low_word = ucast (limit AND 0x0000ffff),
      base_low_word = ucast (desc_base AND 0x0000ffff),
      base_mid_byte = ucast (drop_bit 16 (desc_base AND 0x00ff0000)),
      attr_low_byte = attr_low,
      limit_high_attr_high = ucast (drop_bit 16 (limit AND 0x000f0000) + ucast attr_high),
      base_high_byte = ucast (drop_bit 24 desc_base)\<rparr>"

definition TSS_ATTR_LOW :: u8 where "TSS_ATTR_LOW = push_bit 7 1 + push_bit 5 0 + push_bit 4 0 + 9"
definition TSS_ATTR_HIGH :: u8 where "TSS_ATTR_HIGH = push_bit 7 1 + push_bit 6 0 + push_bit 5 0 + push_bit 4 0 + 0"
definition GDT_ATTR_HIGH :: u8 where "GDT_ATTR_HIGH = push_bit 7 1 + push_bit 6 1 + push_bit 5 0 + push_bit 4 0"
definition GDT_CODE_ATTR_LOW_DPL3 :: u8 where "GDT_CODE_ATTR_LOW_DPL3 = push_bit 7 1 + push_bit 5 3 + push_bit 4 1 + 8"
definition GDT_DATA_ATTR_LOW_DPL3 :: u8 where "GDT_DATA_ATTR_LOW_DPL3 = push_bit 7 1 + push_bit 5 3 + push_bit 4 1 + 2"

record tss_regs =
  ss0 :: u32
  io_base :: u32

text \<open>The segment of 108 bytes, the three descriptors with their addresses, and the operand of \<^verbatim>\<open>lgdt\<close>.\<close>

definition tss_init :: "u32 \<Rightarrow> tss_regs \<times> (u32 \<times> gdt_desc) list \<times> 64 word" where
  "tss_init tss_at =
     (let tss_size = 108 :: u32 in
      (\<lparr>ss0 = push_bit 3 2 + push_bit 2 0 + 0, io_base = tss_size\<rparr>,
       [(0xc0000920, make_gdt_desc tss_at (tss_size - 1) TSS_ATTR_LOW TSS_ATTR_HIGH),
        (0xc0000928, make_gdt_desc 0 0xfffff GDT_CODE_ATTR_LOW_DPL3 GDT_ATTR_HIGH),
        (0xc0000930, make_gdt_desc 0 0xfffff GDT_DATA_ATTR_LOW_DPL3 GDT_ATTR_HIGH)],
       (8 * 7 - 1) OR push_bit 16 0xc0000900))"

subsection \<open>The timer chip\<close>

text \<open>The writes to its ports. The cast to a byte binds stronger than the shift.\<close>

definition frequency_set :: "u16 \<Rightarrow> u8 \<Rightarrow> u8 \<Rightarrow> u8 \<Rightarrow> u16 \<Rightarrow> (u16 \<times> u8) list" where
  "frequency_set counter_port counter_no rwl counter_mode counter_value =
     [(0x43, push_bit 6 counter_no OR push_bit 4 rwl OR push_bit 1 counter_mode),
      (counter_port, ucast counter_value),
      (counter_port, drop_bit 8 (ucast counter_value))]"

definition timer_init :: "(u16 \<times> u8) list" where
  "timer_init = frequency_set 0x40 0 3 2 (1193180 div 100)"

subsection \<open>Identifiers in use\<close>

definition pid_of_bit :: "nat \<Rightarrow> pid_t" where
  "pid_of_bit i = of_nat (Suc i)"

definition live_pids :: "'a tasks_scheme \<Rightarrow> pid_t set" where
  "live_pids s = pid_of_bit ` used_bits (pid_bitmap s)"

definition pids_ok :: "'a tasks_scheme \<Rightarrow> bool" where
  "pids_ok s \<longleftrightarrow> bitmap_ok (pid_bitmap s) \<and> bit_cnt (pid_bitmap s) = 1024 \<and> pid_lock s = lock_init \<and> running_thread s \<noteq> 0"

lemma unat_pid_of_bit: "i < 1024 \<Longrightarrow> unat (pid_of_bit i) = Suc i"
  by (simp add: pid_of_bit_def unat_of_nat take_bit_nat_eq_self del: of_nat_Suc)

lemma pid_of_bit_inj: "inj_on pid_of_bit {..<1024}"
  by (rule inj_on_inverseI [of _ "\<lambda>p. unat p - 1"]) (simp add: unat_pid_of_bit)

lemma pid_of_bit_sint: "i < 1024 \<Longrightarrow> sint (pid_of_bit i) = int (Suc i)"
  unfolding pid_of_bit_def by (simp add: signed_of_nat signed_take_bit_eq_if_positive bit_iff_odd take_bit_int_eq_self del: of_nat_Suc)

lemma pid_bit_word: "i < 1024 \<Longrightarrow> scast (pid_of_bit i) - pid_start = (of_nat i :: u32)"
  using pid_of_bit_sint [of i] by (simp add: scast_eq pid_start_def)

lemma running_tasks [simp]:
  fixes s :: "'a tasks_scheme"
  shows "running_thread (s\<lparr>pid_bitmap := b\<rparr>) = running_thread s" "running_thread (s\<lparr>pid_lock := l\<rparr>) = running_thread s"
    "running_thread (s\<lparr>vaddr_bits_at := v\<rparr>) = running_thread s"
  by (simp_all add: running_thread_def)

lemma used_pids_bound: "pids_ok s \<Longrightarrow> used_bits (pid_bitmap s) \<subseteq> {..<1024}"
  using used_bits_bound [of "pid_bitmap s"] by (simp add: pids_ok_def)

lemma allocate_pid_free:
  assumes "pids_ok s" and "used_bits (pid_bitmap s) \<noteq> {..<1024}"
  obtains i b where "allocate_pid s = Inr (pid_of_bit i, s\<lparr>pid_bitmap := b\<rparr>)" and "i < 1024"
    and "i \<notin> used_bits (pid_bitmap s)" and "pids_ok (s\<lparr>pid_bitmap := b\<rparr>)"
    and "used_bits b = insert i (used_bits (pid_bitmap s))"
proof -
  have ok: "bitmap_ok (pid_bitmap s)" "bit_cnt (pid_bitmap s) = 1024" "pid_lock s = lock_init" "running_thread s \<noteq> 0"
    using assms(1) by (simp_all add: pids_ok_def)
  have free: "used_bits (pid_bitmap s) \<noteq> {..<bit_cnt (pid_bitmap s)}" using assms(2) ok(2) by simp
  obtain i b where b: "bitmap_scan (pid_bitmap s) 1 = Inr i" "unat i < bit_cnt (pid_bitmap s)" "unat i \<notin> used_bits (pid_bitmap s)"
      "bitmap_set (pid_bitmap s) i 1 = Inr b" "bitmap_ok b" "bit_cnt b = bit_cnt (pid_bitmap s)"
      "used_bits b = insert (unat i) (used_bits (pid_bitmap s))"
    by (rule bitmap_take [OF ok(1) free]) blast
  have p: "ucast (i + pid_start) = pid_of_bit (unat i)"
  proof (rule word_unat_eq_iff [THEN iffD2])
    have "unat (i + pid_start) = Suc (unat i)" using b(2) ok(2) by (subst unat_add_small) (simp_all add: pid_start_def)
    then show "unat (ucast (i + pid_start) :: pid_t) = unat (pid_of_bit (unat i))"
      using b(2) ok(2) by (simp add: unsigned_ucast_eq take_bit_nat_eq_self unat_pid_of_bit)
  qed
  have "allocate_pid s = Inr (pid_of_bit (unat i), s\<lparr>pid_bitmap := b\<rparr>)"
    using b(1,4) ok(3,4) p by (simp add: allocate_pid_def)
  then show ?thesis using that [of "unat i" b] b ok by (simp add: pids_ok_def)
qed

lemma release_pid_bit:
  assumes "pids_ok s" and "i < 1024"
  obtains b where "release_pid (pid_of_bit i) s = Inr (s\<lparr>pid_bitmap := b\<rparr>)" and "pids_ok (s\<lparr>pid_bitmap := b\<rparr>)"
    and "used_bits b = used_bits (pid_bitmap s) - {i}"
proof -
  have ok: "bitmap_ok (pid_bitmap s)" "bit_cnt (pid_bitmap s) = 1024" "pid_lock s = lock_init" "running_thread s \<noteq> 0"
    using assms(1) by (simp_all add: pids_ok_def)
  have u: "unat (of_nat i :: u32) = i" using assms(2) by (simp add: unat_of_nat take_bit_nat_eq_self)
  obtain b where b: "bitmap_set (pid_bitmap s) (of_nat i) 0 = Inr b" "bitmap_ok b" "bit_cnt b = bit_cnt (pid_bitmap s)"
      "used_bits b = used_bits (pid_bitmap s) - {i}"
    using bitmap_set_used [OF ok(1), of "of_nat i" 0] u assms(2) ok(2) by auto
  have "release_pid (pid_of_bit i) s = Inr (s\<lparr>pid_bitmap := b\<rparr>)"
    using b(1) ok(3,4) pid_bit_word [OF assms(2)] by (simp add: release_pid_def)
  then show ?thesis using that [of b] b ok by (simp add: pids_ok_def)
qed

interpretation pids: slot_pool pids_ok "\<lambda>s. 1024" "\<lambda>s. used_bits (pid_bitmap s)"
  "\<lambda>s. bindR (allocate_pid s) (\<lambda>(p, s'). Inr (unat p - 1, s'))" "\<lambda>s i. release_pid (pid_of_bit i) s"
proof unfold_locales
  fix s :: "'a tasks_scheme"
  assume ok: "pids_ok s"
  show "used_bits (pid_bitmap s) \<subseteq> {..<1024}" by (rule used_pids_bound [OF ok])
  show "\<exists>i s'. bindR (allocate_pid s) (\<lambda>(p, s'). Inr (unat p - 1, s')) = Inr (i, s') \<and> i \<notin> used_bits (pid_bitmap s) \<and> i < 1024
      \<and> used_bits (pid_bitmap s') = insert i (used_bits (pid_bitmap s)) \<and> pids_ok s' \<and> 1024 = 1024"
    if free: "used_bits (pid_bitmap s) \<noteq> {..<1024}"
    by (rule allocate_pid_free [OF ok free]) (auto simp: unat_pid_of_bit)
  show "\<exists>e. bindR (allocate_pid s) (\<lambda>(p, s'). Inr (unat p - 1, s')) = Inl e" if full: "used_bits (pid_bitmap s) = {..<1024}"
  proof -
    have "bitmap_ok (pid_bitmap s)" "used_bits (pid_bitmap s) = {..<bit_cnt (pid_bitmap s)}" using ok full by (simp_all add: pids_ok_def)
    from bitmap_scan_full [OF this, of 1] show ?thesis using ok by (auto simp: allocate_pid_def pids_ok_def)
  qed
  show "\<exists>s'. release_pid (pid_of_bit i) s = Inr s' \<and> used_bits (pid_bitmap s') = used_bits (pid_bitmap s) - {i} \<and> pids_ok s' \<and> 1024 = 1024"
    if i: "i < 1024" for i
    by (rule release_pid_bit [OF ok i]) auto
qed

text \<open>
  C15. Process identifiers: as long as one of the 1024 is free, \<^verbatim>\<open>allocate_pid\<close> gives a positive one that no thread
  has, and marks just that one; and \<^verbatim>\<open>release_pid\<close> of any identifier in use makes it, and no other, free again.
\<close>

theorem pids_are_fresh:
  assumes "pids_ok s" and "card (live_pids s) < 1024"
  shows "\<exists>p s'. allocate_pid s = Inr (p, s') \<and> 0 < sint p \<and> p \<notin> live_pids s \<and> live_pids s' = insert p (live_pids s) \<and> pids_ok s'
    \<and> (\<forall>q\<in>live_pids s'. \<exists>s''. release_pid q s' = Inr s'' \<and> live_pids s'' = live_pids s' - {q} \<and> pids_ok s'')"
proof -
  have free: "used_bits (pid_bitmap s) \<noteq> {..<1024}"
  proof
    assume "used_bits (pid_bitmap s) = {..<1024}"
    then have "card (live_pids s) = 1024" using card_image [OF pid_of_bit_inj] by (simp only: live_pids_def card_lessThan)
    then show False using assms(2) by simp
  qed
  have live: "pid_of_bit i \<in> live_pids x \<longleftrightarrow> i \<in> used_bits (pid_bitmap x)" if "pids_ok x" "i < 1024" for i and x :: "'a tasks_scheme"
    unfolding live_pids_def using that(2) by (intro inj_on_image_mem_iff [OF pid_of_bit_inj _ used_pids_bound [OF that(1)]]) simp
  obtain i b where a: "allocate_pid s = Inr (pid_of_bit i, s\<lparr>pid_bitmap := b\<rparr>)" "i < 1024" "i \<notin> used_bits (pid_bitmap s)"
      "pids_ok (s\<lparr>pid_bitmap := b\<rparr>)" "used_bits b = insert i (used_bits (pid_bitmap s))"
    by (rule allocate_pid_free [OF assms(1) free])
  let ?s = "s\<lparr>pid_bitmap := b\<rparr>"
  have "\<exists>s''. release_pid q ?s = Inr s'' \<and> live_pids s'' = live_pids ?s - {q} \<and> pids_ok s''" if q: "q \<in> live_pids ?s" for q
  proof -
    obtain j where j: "q = pid_of_bit j" "j \<in> used_bits b" using q by (auto simp: live_pids_def)
    then have jb: "j < 1024" using used_pids_bound [OF a(4)] by auto
    obtain b' where r: "release_pid q ?s = Inr (?s\<lparr>pid_bitmap := b'\<rparr>)" "pids_ok (?s\<lparr>pid_bitmap := b'\<rparr>)" "used_bits b' = used_bits b - {j}"
      using release_pid_bit [OF a(4) jb] j(1) by auto
    have "live_pids (?s\<lparr>pid_bitmap := b'\<rparr>) = live_pids ?s - {q}"
      using inj_on_image_set_diff [OF pid_of_bit_inj, of "used_bits b" "{j}"] r(3) j used_pids_bound [OF a(4)] jb
      by (auto simp: live_pids_def)
    then show ?thesis using r by blast
  qed
  then show ?thesis
    using a live [OF assms(1) a(2)] pid_of_bit_sint [OF a(2)]
    by (intro exI [of _ "pid_of_bit i"] exI [of _ ?s]) (auto simp: live_pids_def)
qed

text \<open>
  A small machine: the thread 0xc0100000 (process 1) runs, its child 0xc0101000 (process 2) has exited and hangs; the
  page directory of the child is at 0xc0102000. The three pages are the first three frames of the kernel pool.
\<close>

definition small_tasks :: tasks where
  "small_tasks = \<lparr>pmem = (\<lambda>_. 0)(0x100ffc := 0x100007, 0x100c00 := 0x101007,
       0x101400 := 0x200007, 0x101404 := 0x201007, 0x101408 := 0x202007),
     cr3 = 0x100000, eflags = 2, esp = 0xc0100f00, tss_esp0 = 0,
     pcbs = [0xc0100000 \<mapsto> blank_task\<lparr>status := TASK_RUNNING\<rparr>,
             0xc0101000 \<mapsto> blank_task\<lparr>status := TASK_HANGING, pid := 2, parent_pid := 1, exit_status := 7,
               pgdir := 0xc0102000\<rparr>],
     thread_ready_list = [], thread_all_list = [0xc0100000, 0xc0101000], idle_thread = 0, main_thread = 0, sys_ticks = 0,
     kernel_pool = \<lparr>pool_lock = lock_init, pool_bitmap = \<lparr>btmp_bytes_len = 1, bits = [7]\<rparr>,
        phy_addr_start = 0x200000, pool_size = 0x8000\<rparr>,
     user_pool = \<lparr>pool_lock = lock_init, pool_bitmap = \<lparr>btmp_bytes_len = 1, bits = [0]\<rparr>,
        phy_addr_start = 0x208000, pool_size = 0x8000\<rparr>,
     kernel_vaddr = \<lparr>vaddr_bitmap = \<lparr>btmp_bytes_len = 1, bits = [7]\<rparr>, vaddr_start = K_HEAP_START\<rparr>,
     k_block_descs = block_desc_init, arenas = (\<lambda>_ _. None),
     pid_bitmap = \<lparr>btmp_bytes_len = 128, bits = 3 # replicate 127 0\<rparr>, pid_lock = lock_init,
     vaddr_bits_at = (\<lambda>_. 0), tlb_keeps = (\<lambda>_. True)\<rparr>"

lemma small_tasks_running: "running_thread small_tasks = 0xc0100000"
  by (simp add: running_thread_def small_tasks_def)

lemma small_tasks_pids: "pids_ok small_tasks" "used_bits (pid_bitmap small_tasks) = {0, 1}" "live_pids small_tasks = {1, 2}"
proof -
  show "pids_ok small_tasks"
    using small_tasks_running by (simp add: pids_ok_def small_tasks_def bitmap_ok_def bit_cnt_def)
  have m: "(3 :: u8) = mask 2" by (simp add: mask_eq_exp_minus_1)
  have "bit (3 :: u8) k \<longleftrightarrow> k = 0 \<or> k = 1" for k unfolding m by (auto simp: bit_simps)
  then have "bit_at (pid_bitmap small_tasks) i \<longleftrightarrow> i = 0 \<or> i = 1" if "i < 1024" for i
  proof -
    have "(3 # replicate 127 0) ! k = (if k = 0 then 3 else 0 :: u8)" if "k < 128" for k using that by (simp add: nth_Cons')
    moreover have "i div 8 < 128" using that by simp
    ultimately have "bit_at (pid_bitmap small_tasks) i \<longleftrightarrow> i div 8 = 0 \<and> (i mod 8 = 0 \<or> i mod 8 = 1)"
      using \<open>\<And>k. bit (3 :: u8) k \<longleftrightarrow> k = 0 \<or> k = 1\<close> by (simp add: bit_at_def small_tasks_def)
    then show ?thesis by (cases "i < 8") auto
  qed
  then show u: "used_bits (pid_bitmap small_tasks) = {0, 1}"
    by (auto simp: used_bits_def) (simp_all add: bit_cnt_def small_tasks_def)
  then show "live_pids small_tasks = {1, 2}" by (simp add: live_pids_def pid_of_bit_def)
qed

theorem pids_are_fresh_witness:
  "\<exists>p s'. allocate_pid small_tasks = Inr (p, s') \<and> p \<notin> {1, 2} \<and> live_pids s' = {p, 1, 2}
    \<and> (\<exists>s''. release_pid 2 s' = Inr s'' \<and> live_pids s'' = {p, 1, 2} - {2})"
proof -
  have "card (live_pids small_tasks) < 1024" by (simp add: small_tasks_pids card_insert_if)
  from pids_are_fresh [OF small_tasks_pids(1) this] show ?thesis by (auto simp: small_tasks_pids(3))
qed

subsection \<open>Descriptors\<close>

text \<open>What the processor reads from a descriptor.\<close>

definition gdt_base :: "gdt_desc \<Rightarrow> u32" where
  "gdt_base d = ucast (base_low_word d) OR push_bit 16 (ucast (base_mid_byte d)) OR push_bit 24 (ucast (base_high_byte d))"

definition gdt_limit :: "gdt_desc \<Rightarrow> u32" where
  "gdt_limit d = ucast (limit_low_word d) OR push_bit 16 (ucast (limit_high_attr_high d AND 0x0f))"

lemma mask_consts: "(0x0000ffff :: u32) = mask 16" "(0x00ff0000 :: u32) = push_bit 16 (mask 8)"
  "(0x000f0000 :: u32) = push_bit 16 (mask 4)" "(0x0f :: u8) = mask 4" "(0xf0 :: u8) = push_bit 4 (mask 4)"
  by (simp_all add: mask_eq_exp_minus_1)

lemma gdt_roundtrip:
  assumes "limit < 0x100000" and "attr_high AND 0x0f = 0"
  shows "gdt_base (make_gdt_desc base limit al attr_high) = base
    \<and> gdt_limit (make_gdt_desc base limit al attr_high) = limit
    \<and> limit_high_attr_high (make_gdt_desc base limit al attr_high) AND 0xf0 = attr_high"
proof -
  have l: "\<not> bit limit n" if "20 \<le> n" for n
  proof -
    have "take_bit 20 limit = limit" using assms(1) by (simp add: take_bit_word_eq_self word_less_nat_alt word_unat_eq_iff unsigned_take_bit_eq take_bit_nat_eq_self)
    then show ?thesis using that by (metis bit_take_bit_iff linorder_not_le)
  qed
  have a: "\<not> bit attr_high n" if "n < 4" for n
    using arg_cong [OF assms(2), of "\<lambda>x. bit x n"] that unfolding mask_consts by (simp add: bit_simps)
  have a2: "4 \<le> n" if "bit attr_high n" for n using a [of n] that by (metis leI)
  define nib where "nib = drop_bit 16 (limit AND 0x000f0000)"
  have "nib + ucast attr_high = nib OR ucast attr_high"
    by (rule disjunctive_add) (auto simp: nib_def mask_consts bit_simps dest: a)
  then have hi: "ucast (nib + ucast attr_high) = (ucast nib OR attr_high :: u8)"
    by (simp only:) (rule bit_eqI, auto simp: bit_simps)
  have "gdt_base (make_gdt_desc base limit al attr_high) = base"
    unfolding gdt_base_def make_gdt_desc_def mask_consts
    by (rule bit_eqI, rename_tac n, case_tac "24 \<le> n") (auto simp: bit_simps)
  moreover have "gdt_limit (make_gdt_desc base limit al attr_high) = limit"
    unfolding gdt_limit_def make_gdt_desc_def nib_def [symmetric] gdt_desc.simps hi
    by (rule bit_eqI, rename_tac n, case_tac "20 \<le> n") (auto simp: bit_simps nib_def mask_consts dest: a l)
  moreover have "limit_high_attr_high (make_gdt_desc base limit al attr_high) AND 0xf0 = attr_high"
    unfolding make_gdt_desc_def nib_def [symmetric] gdt_desc.simps hi
    by (rule bit_eqI) (auto simp: bit_simps nib_def mask_consts dest: l a2)
  ultimately show ?thesis by blast
qed

text \<open>The high byte of the counter is shifted after the cast, so the chip always gets 0 for it.\<close>

lemma timer_high_byte_lost:
  "frequency_set port no rwl mode v = [(0x43, push_bit 6 no OR push_bit 4 rwl OR push_bit 1 mode), (port, ucast v), (port, 0)]"
proof -
  have "drop_bit 8 (x :: u8) = 0" for x by (rule bit_eqI) (auto simp: bit_simps dest: bit_imp_le_length)
  then show ?thesis by (simp add: frequency_set_def)
qed

end
