(* ===== verification/Process.thy ===== *)
theory Process
  imports Task Heap File Path Fs
begin

section \<open>Processes (\<^verbatim>\<open>userprog/process.c\<close>, \<^verbatim>\<open>fork.c\<close>, \<^verbatim>\<open>wait_exit.c\<close>, \<^verbatim>\<open>exec.c\<close>)\<close>

text \<open>
  Starting a process, \<^verbatim>\<open>fork\<close>, \<^verbatim>\<open>wait\<close>, \<^verbatim>\<open>exit\<close> and \<^verbatim>\<open>execv\<close>. What also works on files runs on the state of the
  file system, whose heap is the state of the tasks; there the PCB of the running thread is a copy that is loaded
  before and stored back after. A call that does not come back to its caller (it jumps to \<^verbatim>\<open>intr_exit\<close>, or another
  thread runs) ends in the state at that point.
\<close>

subsection \<open>Starting a process\<close>

definition USER_VADDR_START :: u32 where "USER_VADDR_START = 0x8048000"
definition USER_STACK3_VADDR :: u32 where "USER_STACK3_VADDR = 0xc0000000 - 0x1000"

definition SELECTOR_U_CODE :: u32 where "SELECTOR_U_CODE = push_bit 3 5 + push_bit 2 0 + 3"
definition SELECTOR_U_DATA :: u32 where "SELECTOR_U_DATA = push_bit 3 6 + push_bit 2 0 + 3"
definition USER_EFLAGS :: u32 where "USER_EFLAGS = push_bit 12 0 OR push_bit 1 1 OR push_bit 9 1"

text \<open>The bytes and the pages of the bitmap of a process.\<close>

definition user_map_len :: u32 where
  "user_map_len = (0xc0000000 - USER_VADDR_START) div PAGE_SIZE div 8"

definition user_map_pages :: u32 where
  "user_map_pages = DIV_ROUND_UP user_map_len PAGE_SIZE"

text \<open>\<^verbatim>\<open>memcpy\<close> of words.\<close>

primrec vcopy :: "nat \<Rightarrow> u32 \<Rightarrow> u32 \<Rightarrow> 'a cpu_scheme \<Rightarrow> 'a cpu_scheme res" where
  "vcopy 0 dst src s = Inr s"
| "vcopy (Suc n) dst src s = bindR (vread src s) (\<lambda>x. bindR (vwrite dst x s) (vcopy n (dst + 4) (src + 4)))"

definition start_process :: "u32 \<Rightarrow> 'a tasks_scheme \<Rightarrow> 'a tasks_scheme res" where
  "start_process filename s =
     (let cur = running_thread s in
      bindR (upd_pcb cur (\<lambda>t. t\<lparr>self_kstack := self_kstack t + 4 * THREAD_STACK_SIZE\<rparr>) s) (\<lambda>s1.
      bindR (pcb cur s1) (\<lambda>t.
      let proc_stack = self_kstack t in
      bindR (store_words proc_stack
        [(16, 0), (12, 0), (8, 0), (4, 0), (32, 0), (28, 0), (24, 0), (20, 0), (36, 0),
         (40, SELECTOR_U_DATA), (44, SELECTOR_U_DATA), (48, SELECTOR_U_DATA),
         (56, filename), (60, SELECTOR_U_CODE), (64, USER_EFLAGS)] s1) (\<lambda>s2.
      bindR (get_a_page PF_USER USER_STACK3_VADDR s2) (\<lambda>(v, s3).
      bindR (store_words proc_stack [(68, v + PAGE_SIZE), (72, SELECTOR_U_DATA)] s3) (\<lambda>s4.
      Inr (s4\<lparr>esp := proc_stack\<rparr>)))))))"

text \<open>The entries of the kernel's quarter of the address space are shared; the last one is the directory itself.\<close>

definition create_page_dir :: "'a tasks_scheme \<Rightarrow> (u32 \<times> 'a tasks_scheme) res" where
  "create_page_dir s =
     bindR (get_kernel_pages 1 s) (\<lambda>(page_dir_vaddr, s1).
     if page_dir_vaddr = 0 then Inr (0, s1)
     else
       bindR (vcopy 256 (page_dir_vaddr + 0x300 * 4) (0xfffff000 + 0x300 * 4) s1) (\<lambda>s2.
       bindR (addr_v2p page_dir_vaddr s2) (\<lambda>phy_addr.
       bindR (vwrite (page_dir_vaddr + 4 * 1023) (phy_addr OR PG_US_U OR PG_RW_W OR PG_P_1) s2) (\<lambda>s3.
       Inr (page_dir_vaddr, s3)))))"

definition create_user_vaddr_bitmap :: "u32 \<Rightarrow> 'a tasks_scheme \<Rightarrow> 'a tasks_scheme res" where
  "create_user_vaddr_bitmap user_prog s =
     bindR (get_kernel_pages user_map_pages s) (\<lambda>(v, s1).
     if v = 0 then Inl Bad_Access
     else
       bindR (bitmap_init \<lparr>btmp_bytes_len = user_map_len, bits = replicate (unat (user_map_pages * PAGE_SIZE)) 0\<rparr>) (\<lambda>b.
       upd_pcb user_prog (\<lambda>t. t\<lparr>userprog_vaddr := \<lparr>vaddr_bitmap = b, vaddr_start = USER_VADDR_START\<rparr>\<rparr>)
         (s1\<lparr>vaddr_bits_at := (vaddr_bits_at s1)(user_prog := v)\<rparr>)))"

definition process_execute :: "code_labels \<Rightarrow> u32 \<Rightarrow> buf \<Rightarrow> 'a tasks_scheme \<Rightarrow> 'a tasks_scheme res" where
  "process_execute c filename nm s =
     bindR (get_kernel_pages 1 s) (\<lambda>(thread, s1).
     bindR (init_thread thread nm 31 s1) (\<lambda>s2.
     bindR (create_user_vaddr_bitmap thread s2) (\<lambda>s3.
     bindR (thread_create c thread (at_start_process c) filename s3) (\<lambda>s4.
     bindR (create_page_dir s4) (\<lambda>(d, s5).
     bindR (upd_pcb thread (\<lambda>t. t\<lparr>pgdir := d, u_block_desc := block_desc_init\<rparr>) s5) (\<lambda>s6.
     let (old_status, fl) = intr_disable (eflags s6) in
     bindR (enlist thread (s6\<lparr>eflags := fl\<rparr>)) (\<lambda>s7.
     Inr (s7\<lparr>eflags := snd (intr_set_status old_status (eflags s7))\<rparr>))))))))"

definition thread_init :: "code_labels \<Rightarrow> u32 \<Rightarrow> 'a tasks_scheme \<Rightarrow> 'a tasks_scheme res" where
  "thread_init c at_init s0 =
     bindR (pid_pool_init (s0\<lparr>thread_ready_list := [], thread_all_list := []\<rparr>)) (\<lambda>s.
     bindR (process_execute c at_init [105, 110, 105, 116, 0] s) (\<lambda>s1.
     bindR (make_main_thread s1) (\<lambda>s2.
     bindR (thread_start c [105, 100, 108, 101, 0] 10 (at_idle c) 0 s2) (\<lambda>(p, s3).
     Inr (s3\<lparr>idle_thread := p\<rparr>)))))"

subsection \<open>\<^verbatim>\<open>fork\<close>\<close>

definition copy_pcb_vaddrbitmap_stack0 :: "u32 \<Rightarrow> u32 \<Rightarrow> 'a tasks_scheme \<Rightarrow> 'a tasks_scheme res" where
  "copy_pcb_vaddrbitmap_stack0 child_thread parent_thread s =
     bindR (vcopy 1024 child_thread parent_thread s) (\<lambda>s0.
     bindR (pcb parent_thread s0) (\<lambda>parent.
     let s1 = s0\<lparr>pcbs := (pcbs s0)(child_thread \<mapsto> parent),
                 vaddr_bits_at := (vaddr_bits_at s0)(child_thread := vaddr_bits_at s0 parent_thread)\<rparr> in
     bindR (fork_pid s1) (\<lambda>(p, s2).
     bindR (upd_pcb child_thread (\<lambda>t. t\<lparr>pid := p, elapsed_ticks := 0, status := TASK_READY, ticks := priority t,
       parent_pid := pid parent, u_block_desc := block_desc_init\<rparr>) s2) (\<lambda>s3.
     bindR (get_kernel_pages user_map_pages s3) (\<lambda>(vaddr_btmp, s4).
     if vaddr_btmp = 0 then Inl Bad_Access
     else let s5 = s4\<lparr>vaddr_bits_at := (vaddr_bits_at s4)(child_thread := vaddr_btmp)\<rparr> in
       bindR (pcb child_thread s5) (\<lambda>t.
       bindR (strlen (name t) 0) (\<lambda>n.
       ASSERT (n < 11)
         (bindR (strcat (name t) 0 [95, 102, 111, 114, 107, 0] 0) (\<lambda>nm.
          upd_pcb child_thread (\<lambda>t. t\<lparr>name := nm\<rparr>) s5)))))))))"

text \<open>A page of the parent goes through a buffer, with the header of an arena if it begins with one.\<close>

definition copy_user_page :: "u32 \<Rightarrow> u32 \<Rightarrow> u32 \<Rightarrow> u32 \<Rightarrow> 'a tasks_scheme \<Rightarrow> 'a tasks_scheme res" where
  "copy_user_page child_thread parent_thread buf_page prog_vaddr s =
     (let header = arenas s (space_of prog_vaddr s) prog_vaddr in
      bindR (vcopy 1024 buf_page prog_vaddr s) (\<lambda>s1.
      bindR (page_dir_activate child_thread s1) (\<lambda>s2.
      bindR (get_a_page_without_opvaddrbitmap PF_USER prog_vaddr s2) (\<lambda>(_, s3).
      bindR (vcopy 1024 prog_vaddr buf_page s3) (\<lambda>s4.
      page_dir_activate parent_thread (set_arena prog_vaddr header s4))))))"

definition copy_byte_pages :: "u32 \<Rightarrow> u32 \<Rightarrow> u32 \<Rightarrow> u32 \<Rightarrow> u8 \<Rightarrow> u32 \<Rightarrow> 'a tasks_scheme \<Rightarrow> 'a tasks_scheme res" where
  "copy_byte_pages child_thread parent_thread buf_page start byte idx_byte =
     (if byte \<noteq> 0 then
        eachR (\<lambda>idx_bit. if byte_and_mask byte idx_bit \<noteq> 0
          then copy_user_page child_thread parent_thread buf_page ((idx_byte * 8 + idx_bit) * PAGE_SIZE + start)
          else Inr) [0, 1, 2, 3, 4, 5, 6, 7]
      else Inr)"

definition copy_body_stack3 :: "u32 \<Rightarrow> u32 \<Rightarrow> u32 \<Rightarrow> 'a tasks_scheme \<Rightarrow> 'a tasks_scheme res" where
  "copy_body_stack3 child_thread parent_thread buf_page s =
     bindR (pcb parent_thread s) (\<lambda>t.
     let map_bits = vaddr_bitmap (userprog_vaddr t); start = vaddr_start (userprog_vaddr t) in
     eachR (\<lambda>k s. bindR (rd (bits map_bits) k) (\<lambda>byte.
         copy_byte_pages child_thread parent_thread buf_page start byte (of_nat k) s))
       [0..<unat (btmp_bytes_len map_bits)] s)"

text \<open>The stack of the child: \<^verbatim>\<open>switch_to\<close> pops the four registers and returns to \<^verbatim>\<open>intr_exit\<close>.\<close>

definition build_child_stack :: "code_labels \<Rightarrow> u32 \<Rightarrow> 'a tasks_scheme \<Rightarrow> 'a tasks_scheme res" where
  "build_child_stack c child_thread s =
     (let intr_0_stack = child_thread + PAGE_SIZE - INTR_STACK_SIZE in
      bindR (store_words intr_0_stack
        [(32, 0), (-4, at_intr_exit c), (-8, 0), (-12, 0), (-16, 0), (-20, 0)] s) (\<lambda>s1.
      upd_pcb child_thread (\<lambda>t. t\<lparr>self_kstack := intr_0_stack - 20\<rparr>) s1))"

definition updata_inode_open :: "u32 list \<Rightarrow> (unit, 'k) fsm" where
  "updata_inode_open t =
     eachM (\<lambda>local_fd.
       bindM (liftM (rd t local_fd)) (\<lambda>global_fd.
       assertM (sint global_fd < int MAX_FILE_OPEN)
         (if global_fd \<noteq> -1 then
            bindM (get_file (unat global_fd)) (\<lambda>f. upd_inode (fd_inode f) (\<lambda>i. i\<lparr>i_open_cnts := i_open_cnts i + 1\<rparr>))
          else retM ()))) [3..<MAX_FILES_OPEN_PER_PROC]"

text \<open>A step of the tasks that has no result.\<close>

definition stepM :: "('k \<Rightarrow> 'k res) \<Rightarrow> (unit, 'k) fsm" where
  "stepM m = heapM (\<lambda>s. bindR (m s) (\<lambda>s1. Inr ((), s1)))"

definition pcbM :: "u32 \<Rightarrow> (task_struct, 'a kernel_scheme) fsm" where
  "pcbM p = heapM (\<lambda>s. bindR (pcb p s) (\<lambda>t. Inr (t, s)))"

definition copy_process :: "code_labels \<Rightarrow> u32 \<Rightarrow> u32 \<Rightarrow> (u32, 'a tasks_scheme) fsm" where
  "copy_process c child_thread parent_thread =
     bindM (heapM (get_kernel_pages 1)) (\<lambda>buf_page.
     if buf_page = 0 then retM M1
     else
       bindM (stepM (copy_pcb_vaddrbitmap_stack0 child_thread parent_thread)) (\<lambda>_.
       bindM (heapM create_page_dir) (\<lambda>d.
       bindM (stepM (upd_pcb child_thread (\<lambda>t. t\<lparr>pgdir := d\<rparr>))) (\<lambda>_.
       if d = 0 then retM M1
       else
         bindM (stepM (copy_body_stack3 child_thread parent_thread buf_page)) (\<lambda>_.
         bindM (stepM (build_child_stack c child_thread)) (\<lambda>_.
         bindM (pcbM child_thread) (\<lambda>t.
         bindM (updata_inode_open (fd_table t)) (\<lambda>_.
         bindM (stepM (mfree_page PF_KERNEL buf_page 1)) (\<lambda>_. retM 0)))))))))"

definition sys_fork :: "code_labels \<Rightarrow> (u32, 'a tasks_scheme) fsm" where
  "sys_fork c =
     bindM (getM (running_thread \<circ> heap)) (\<lambda>parent_thread.
     bindM (heapM (get_kernel_pages 1)) (\<lambda>child_thread.
     if child_thread = 0 then retM M1
     else
       bindM (pcbM parent_thread) (\<lambda>parent.
       bindM (getM (\<lambda>s. intr_get_status (eflags (heap s)) = INTR_OFF)) (\<lambda>off.
       assertM (off \<and> pgdir parent \<noteq> 0)
         (bindM (copy_process c child_thread parent_thread) (\<lambda>r.
          if r = M1 then retM M1
          else
            bindM (stepM (enlist child_thread)) (\<lambda>_.
            bindM (pcbM child_thread) (\<lambda>t. retM (scast (pid t))))))))))"

subsection \<open>\<^verbatim>\<open>wait\<close>\<close>

definition find_child :: "pid_t \<Rightarrow> task_struct \<Rightarrow> bool" where
  "find_child ppid t \<longleftrightarrow> parent_pid t = ppid"

definition find_hanging_child :: "pid_t \<Rightarrow> task_struct \<Rightarrow> bool" where
  "find_hanging_child ppid t \<longleftrightarrow> parent_pid t = ppid \<and> status t = TASK_HANGING"

definition init_adopt_a_child :: "pid_t \<Rightarrow> u32 \<Rightarrow> 'a kernel_scheme \<Rightarrow> 'a kernel_scheme res" where
  "init_adopt_a_child p c s =
     bindR (pcb c s) (\<lambda>t. if parent_pid t = p then upd_pcb c (\<lambda>t. t\<lparr>parent_pid := 1\<rparr>) s else Inr s)"

text \<open>One round of the loop: a child and its status, no child, or the thread sleeps.\<close>

datatype wait_result = Waited pid_t u32 | No_Child | Wait_Blocked intr_status

definition sys_wait :: "'a tasks_scheme \<Rightarrow> (wait_result \<times> 'a tasks_scheme) res" where
  "sys_wait s =
     bindR (pcb (running_thread s) s) (\<lambda>parent.
     bindR (find_task (find_hanging_child (pid parent)) (thread_all_list s) s) (\<lambda>h. case h of
       Some child_thread \<Rightarrow>
         bindR (pcb child_thread s) (\<lambda>child.
         bindR (thread_exit child_thread False s) (\<lambda>s1.
         Inr (Waited (pid child) (scast (exit_status child)), s1)))
     | None \<Rightarrow>
         bindR (find_task (find_child (pid parent)) (thread_all_list s) s) (\<lambda>h2. case h2 of
           None \<Rightarrow> Inr (No_Child, s)
         | Some child_elem \<Rightarrow>
             bindR (thread_block TASK_HANGING s) (\<lambda>(old_status, s1). Inr (Wait_Blocked old_status, s1)))))"

subsection \<open>\<^verbatim>\<open>exit\<close>\<close>

text \<open>The test of a page table entry is for any bit, not for the present bit.\<close>

definition release_pte :: "u32 \<Rightarrow> nat \<Rightarrow> 'a kmem_scheme \<Rightarrow> 'a kmem_scheme res" where
  "release_pte first_pte_vaddr_in_pde pte_idx s =
     bindR (vread (first_pte_vaddr_in_pde + 4 * of_nat pte_idx) s) (\<lambda>pte.
     if pte * 0x00000001 \<noteq> 0 then free_a_phy_page (pte AND 0xfffff000) s else Inr s)"

definition release_pde :: "u32 \<Rightarrow> nat \<Rightarrow> 'a kmem_scheme \<Rightarrow> 'a kmem_scheme res" where
  "release_pde pgdir_vaddr pde_idx s =
     bindR (vread (pgdir_vaddr + 4 * of_nat pde_idx) s) (\<lambda>pde.
     if pde AND 0x00000001 \<noteq> 0 then
       bindR (eachR (release_pte (pte_ptr (of_nat pde_idx * 0x400000))) [0..<1024] s)
         (free_a_phy_page (pde AND 0xfffff000))
     else Inr s)"

definition release_prog_resource :: "'a tasks_scheme heap_ops \<Rightarrow> u32 \<Rightarrow> (unit, 'a tasks_scheme) fsm" where
  "release_prog_resource h release_thread =
     bindM (pcbM release_thread) (\<lambda>t.
     bindM (stepM (eachR (release_pde (pgdir t)) [0..<768])) (\<lambda>_.
     let bitmap_pg_cnt = btmp_bytes_len (vaddr_bitmap (userprog_vaddr t)) div PAGE_SIZE in
     bindM (stepM (\<lambda>s. mfree_page PF_KERNEL (vaddr_bits_at s release_thread) bitmap_pg_cnt s)) (\<lambda>_.
     eachM (\<lambda>fd_idx.
       bindM (getM (fd_table \<circ> cur_task)) (\<lambda>tab.
       bindM (liftM (rd tab fd_idx)) (\<lambda>g.
       if g \<noteq> -1 then bindM (sys_close h (of_nat fd_idx)) (\<lambda>_. retM ()) else retM ()))) [3..<MAX_FILES_OPEN_PER_PROC])))"

text \<open>The copy of the PCB of the running thread that the file system works on.\<close>

definition taskM :: "('b, 'a kernel_scheme) fsm \<Rightarrow> ('b, 'a kernel_scheme) fsm" where
  "taskM m =
     bindM (getM (running_thread \<circ> heap)) (\<lambda>cur.
     bindM (pcbM cur) (\<lambda>t.
     bindM (modM (\<lambda>s. s\<lparr>cur_task := t\<rparr>)) (\<lambda>_.
     bindM m (\<lambda>x.
     bindM (getM cur_task) (\<lambda>t1.
     bindM (stepM (upd_pcb cur (\<lambda>t. t\<lparr>fd_table := fd_table t1, cwd_inode_nr := cwd_inode_nr t1\<rparr>))) (\<lambda>_.
     retM x))))))"

text \<open>The end of \<^verbatim>\<open>sys_exit\<close>: the parent is woken if it waits, and the thread sleeps for good.\<close>

definition exit_end :: "u32 \<Rightarrow> 'a kernel_scheme \<Rightarrow> (intr_status \<times> 'a kernel_scheme) res" where
  "exit_end child_thread s =
     bindR (pcb child_thread s) (\<lambda>t.
     bindR (pid2thread (scast (parent_pid t)) s) (\<lambda>po. case po of
       None \<Rightarrow> Inl Bad_Access
     | Some parent_thread \<Rightarrow>
         bindR (pcb parent_thread s) (\<lambda>pt.
         bindR (if status pt = TASK_HANGING then thread_unblock parent_thread s else Inr s)
           (thread_block TASK_HANGING))))"

definition sys_exit :: "'a tasks_scheme heap_ops \<Rightarrow> u32 \<Rightarrow> (intr_status, 'a tasks_scheme) fsm" where
  "sys_exit h st =
     bindM (getM (running_thread \<circ> heap)) (\<lambda>child_thread.
     bindM (stepM (upd_pcb child_thread (\<lambda>t. t\<lparr>exit_status := ucast st\<rparr>))) (\<lambda>_.
     bindM (pcbM child_thread) (\<lambda>t.
     if parent_pid t = -1 then failM Diverge
     else
       bindM (stepM (\<lambda>s. eachR (init_adopt_a_child (pid t)) (thread_all_list s) s)) (\<lambda>_.
       bindM (taskM (release_prog_resource h child_thread)) (\<lambda>_.
       heapM (exit_end child_thread))))))"

end
