(* ===== verification/Exec.thy ===== *)
theory Exec
  imports Process
begin

section \<open>Running a program (\<^verbatim>\<open>userprog/exec.c\<close>)\<close>

text \<open>
  The loading of an ELF file into the address space of the running process, on the state of the file system. The
  memory is one of words; a file is read into it byte by byte.
\<close>

subsection \<open>The headers of an ELF file\<close>

record Elf32_Ehdr =
  e_ident :: buf
  e_type :: u16
  e_machine :: u16
  e_version :: u32
  e_entry :: u32
  e_phoff :: u32
  e_shoff :: u32
  e_flags :: u32
  e_ehsize :: u16
  e_phentsize :: u16
  e_phnum :: u16
  e_shentsize :: u16
  e_shnum :: u16
  e_shstrndx :: u16

record Elf32_Phdr =
  p_type :: u32
  p_offset :: u32
  p_vaddr :: u32
  p_paddr :: u32
  p_filesz :: u32
  p_memsz :: u32
  p_flags :: u32
  p_align :: u32

definition get16 :: "buf \<Rightarrow> nat \<Rightarrow> u16" where
  "get16 b i = ucast (b ! i) + ucast (b ! (i + 1)) * 0x100"

definition ehdr_at :: "buf \<Rightarrow> Elf32_Ehdr" where
  "ehdr_at b = \<lparr>e_ident = take 16 b, e_type = get16 b 16, e_machine = get16 b 18, e_version = get32 b 20,
     e_entry = get32 b 24, e_phoff = get32 b 28, e_shoff = get32 b 32, e_flags = get32 b 36, e_ehsize = get16 b 40,
     e_phentsize = get16 b 42, e_phnum = get16 b 44, e_shentsize = get16 b 46, e_shnum = get16 b 48, e_shstrndx = get16 b 50\<rparr>"

definition phdr_at :: "buf \<Rightarrow> Elf32_Phdr" where
  "phdr_at b = \<lparr>p_type = get32 b 0, p_offset = get32 b 4, p_vaddr = get32 b 8, p_paddr = get32 b 12,
     p_filesz = get32 b 16, p_memsz = get32 b 20, p_flags = get32 b 24, p_align = get32 b 28\<rparr>"

definition PT_LOAD :: u32 where "PT_LOAD = 1"

text \<open>\<^verbatim>\<open>"\\177ELF\\1\\1\\1"\<close>\<close>

definition elf_magic :: buf where
  "elf_magic = [127, 69, 76, 70, 1, 1, 1]"

subsection \<open>Bytes of the memory\<close>

definition vwrite8 :: "u32 \<Rightarrow> u8 \<Rightarrow> 'a cpu_scheme \<Rightarrow> 'a cpu_scheme res" where
  "vwrite8 a x s =
     (let w = a AND NOT 3; k = 8 * unat (a AND 3) in
      bindR (vread w s) (\<lambda>old. vwrite w ((old AND NOT (push_bit k 0xff)) OR push_bit k (ucast x)) s))"

primrec vwrite_bytes :: "u8 list \<Rightarrow> u32 \<Rightarrow> 'a cpu_scheme \<Rightarrow> 'a cpu_scheme res" where
  "vwrite_bytes [] a s = Inr s"
| "vwrite_bytes (x # xs) a s = bindR (vwrite8 a x s) (vwrite_bytes xs (a + 1))"

subsection \<open>Loading\<close>

text \<open>The pages of a segment.\<close>

definition occupy_pages :: "u32 \<Rightarrow> u32 \<Rightarrow> u32" where
  "occupy_pages filesz vaddr =
     (let size_in_first_page = PAGE_SIZE - (vaddr AND 0x00000fff) in
      if filesz > size_in_first_page then DIV_ROUND_UP (filesz - size_in_first_page) PAGE_SIZE + 1 else 1)"

definition page_missing :: "u32 \<Rightarrow> 'a cpu_scheme \<Rightarrow> bool res" where
  "page_missing vaddr_page s =
     bindR (vread (pde_ptr vaddr_page) s) (\<lambda>pde.
     if pde AND 0x00000001 = 0 then Inr True
     else bindR (vread (pte_ptr vaddr_page) s) (\<lambda>pte. Inr (pte AND 0x00000001 = 0)))"

text \<open>False when \<^verbatim>\<open>get_a_page\<close> has given a page.\<close>

primrec need_pages :: "nat \<Rightarrow> u32 \<Rightarrow> 'a kmem_scheme \<Rightarrow> (bool \<times> 'a kmem_scheme) res" where
  "need_pages 0 vaddr_page s = Inr (True, s)"
| "need_pages (Suc n) vaddr_page s =
     bindR (page_missing vaddr_page s) (\<lambda>m.
     if m then
       bindR (get_a_page PF_USER vaddr_page s) (\<lambda>(v, s1).
       if v \<noteq> 0 then Inr (False, s1) else need_pages n (vaddr_page + PAGE_SIZE) s1)
     else need_pages n (vaddr_page + PAGE_SIZE) s)"

text \<open>The results of \<^verbatim>\<open>sys_lseek\<close> and \<^verbatim>\<open>sys_read\<close> are not looked at.\<close>

definition segment_load :: "'a tasks_scheme heap_ops \<Rightarrow> u32 \<Rightarrow> u32 \<Rightarrow> u32 \<Rightarrow> u32 \<Rightarrow> (bool, 'a tasks_scheme) fsm" where
  "segment_load h fd offset filesz vaddr =
     bindM (heapM (need_pages (unat (occupy_pages filesz vaddr)) (vaddr AND 0xfffff000))) (\<lambda>ok.
     if \<not> ok then retM False
     else
       bindM (sys_lseek fd offset 1) (\<lambda>_.
       bindM (sys_read h fd (unat filesz) filesz) (\<lambda>(r, b).
       bindM (stepM (vwrite_bytes b vaddr)) (\<lambda>_. retM True))))"

text \<open>The loop over the program headers: whether it came to its end.\<close>

primrec load_segments :: "'a tasks_scheme heap_ops \<Rightarrow> u32 \<Rightarrow> u32 \<Rightarrow> u16 \<Rightarrow> nat \<Rightarrow> (bool, 'a tasks_scheme) fsm" where
  "load_segments h fd prog_header_offset prog_header_size 0 = retM True"
| "load_segments h fd prog_header_offset prog_header_size (Suc n) =
     bindM (sys_lseek fd prog_header_offset 1) (\<lambda>_.
     bindM (sys_read h fd 32 (ucast prog_header_size)) (\<lambda>(r, b).
     if r \<noteq> ucast prog_header_size then retM False
     else
       bindM (if p_type (phdr_at b) = PT_LOAD
              then segment_load h fd (p_offset (phdr_at b)) (p_filesz (phdr_at b)) (p_vaddr (phdr_at b))
              else retM True) (\<lambda>ok.
       if \<not> ok then retM False
       else load_segments h fd (prog_header_offset + ucast prog_header_size) prog_header_size n)))"

definition good_header :: "Elf32_Ehdr \<Rightarrow> bool res" where
  "good_header e =
     bindR (memcmp (e_ident e) 0 elf_magic 0 7) (\<lambda>c.
     Inr (c = 0 \<and> e_type e = 2 \<and> e_machine e = 3 \<and> e_version e = 1 \<and> e_phnum e \<le> 1024 \<and> e_phentsize e = 32))"

definition load :: "'a tasks_scheme heap_ops \<Rightarrow> buf \<Rightarrow> (u32, 'a tasks_scheme) fsm" where
  "load h pathname =
     bindM (sys_open h pathname O_RDONLY) (\<lambda>fd.
     if fd = M1 then retM M1
     else
       bindM (sys_read h fd 52 52) (\<lambda>(r, b).
       bindM (if r \<noteq> 52 then retM M1
              else
                let e = ehdr_at b in
                bindM (liftM (good_header e)) (\<lambda>good.
                if \<not> good then retM M1
                else bindM (load_segments h fd (e_phoff e) (e_phentsize e) (unat (e_phnum e))) (\<lambda>ok.
                  retM (if ok then e_entry e else M1)))) (\<lambda>ret.
       bindM (sys_close h fd) (\<lambda>_. retM ret))))"

text \<open>\<open>argv_at\<close> is the address of the arguments and \<open>args\<close> what is stored there. The result is \<open>None\<close> for -1, and the
  place of the stack from which the new program starts.\<close>

definition sys_execv :: "'a tasks_scheme heap_ops \<Rightarrow> buf \<Rightarrow> u32 \<Rightarrow> u32 list \<Rightarrow> (u32 option, 'a tasks_scheme) fsm" where
  "sys_execv h path argv_at args =
     (if 0 \<notin> set args then failM Bad_Access
      else
        let argc = length (takeWhile (\<lambda>a. a \<noteq> 0) args) in
        bindM (taskM (load h path)) (\<lambda>entry_point.
        if entry_point = M1 then retM None
        else
          bindM (getM (running_thread \<circ> heap)) (\<lambda>cur.
          bindM (pcbM cur) (\<lambda>t.
          bindM (liftM (bindR (memcpy (name t) 0 path 0 16) (\<lambda>nm. wr nm 15 0))) (\<lambda>nm.
          bindM (stepM (upd_pcb cur (\<lambda>t. t\<lparr>name := nm\<rparr>))) (\<lambda>_.
          let intr_0_stack = cur + PAGE_SIZE - INTR_STACK_SIZE in
          bindM (stepM (store_words intr_0_stack [(20, argv_at), (28, of_nat argc), (56, entry_point), (68, 0xc0000000)])) (\<lambda>_.
          bindM (stepM (\<lambda>s. Inr (s\<lparr>esp := intr_0_stack\<rparr>))) (\<lambda>_. retM (Some intr_0_stack)))))))))"

end
