(* ===== verification/Syscall.thy ===== *)
theory Syscall
  imports Prelude
begin

section \<open>The system call interface (\<^verbatim>\<open>lib/syscall.c\<close>, \<^verbatim>\<open>userprog/syscall-init.c\<close>)\<close>

text \<open>
  A call of the library loads the number and the arguments into registers and traps; the handler (in
  \<^verbatim>\<open>kernel/kernel.s\<close>) saves the registers in a frame, pushes the three argument registers, calls the entry of the table
  at the number, puts the result into the frame and leaves through \<^verbatim>\<open>intr_exit\<close>, which loads the registers
  from the frame. The functions of the kernel are the constructors of a datatype; what they do is in the other
  theories, here they are a parameter: from three arguments and a state of the kernel to the result in \<^verbatim>\<open>eax\<close> and the
  next state. They return to the handler and leave its frame as it is (\<^verbatim>\<open>fork\<close> and \<^verbatim>\<open>execv\<close> make frames of
  their own, in Process and Exec).
\<close>

subsection \<open>The numbers\<close>

text \<open>\<^verbatim>\<open>enum SYSCALL_NR\<close>, in its order.\<close>

datatype SYSCALL_NR =
  SYS_GETPID | SYS_WRITE | SYS_MALLOC | SYS_FREE | SYS_FORK | SYS_READ | SYS_CLEAR | SYS_PUTCHAR | SYS_GETCWD | SYS_OPEN | SYS_CLOSE | SYS_LSEEK | SYS_UNLINK | SYS_MKDIR | SYS_RMDIR | SYS_OPENDIR | SYS_CHDIR | SYS_CLOSEDIR | SYS_READDIR | SYS_REWINDDIR | SYS_STAT | SYS_PS | SYS_EXECV | SYS_WAIT | SYS_EXIT

fun nr :: "SYSCALL_NR \<Rightarrow> u32" where
  "nr SYS_GETPID = 0"
| "nr SYS_WRITE = 1"
| "nr SYS_MALLOC = 2"
| "nr SYS_FREE = 3"
| "nr SYS_FORK = 4"
| "nr SYS_READ = 5"
| "nr SYS_CLEAR = 6"
| "nr SYS_PUTCHAR = 7"
| "nr SYS_GETCWD = 8"
| "nr SYS_OPEN = 9"
| "nr SYS_CLOSE = 10"
| "nr SYS_LSEEK = 11"
| "nr SYS_UNLINK = 12"
| "nr SYS_MKDIR = 13"
| "nr SYS_RMDIR = 14"
| "nr SYS_OPENDIR = 15"
| "nr SYS_CHDIR = 16"
| "nr SYS_CLOSEDIR = 17"
| "nr SYS_READDIR = 18"
| "nr SYS_REWINDDIR = 19"
| "nr SYS_STAT = 20"
| "nr SYS_PS = 21"
| "nr SYS_EXECV = 22"
| "nr SYS_WAIT = 23"
| "nr SYS_EXIT = 24"

text \<open>The functions of the kernel.\<close>

datatype kernel_fn =
  Sys_getpid | Sys_write | Sys_malloc | Sys_free | Sys_fork | Sys_read | Sys_putchar | Cls_screen | Sys_getcwd | Sys_open | Sys_close | Sys_lseek | Sys_unlink | Sys_mkdir | Sys_opendir | Sys_closedir | Sys_rmdir | Sys_readdir | Sys_rewinddir | Sys_stat | Sys_chdir | Sys_ps | Sys_execv | Sys_wait | Sys_exit

subsection \<open>The library\<close>

text \<open>The registers at the trap. An argument register that the stub does not load has what it had before.\<close>

record regs =
  eax :: u32
  ebx :: u32
  ecx :: u32
  edx :: u32
  esi :: u32
  edi :: u32
  ebp :: u32
  gs_reg :: u32
  fs_reg :: u32
  es_reg :: u32
  ds_reg :: u32

definition syscall0 :: "SYSCALL_NR \<Rightarrow> regs \<Rightarrow> regs" where
  "syscall0 n r = r\<lparr>eax := nr n\<rparr>"

definition syscall1 :: "SYSCALL_NR \<Rightarrow> u32 \<Rightarrow> regs \<Rightarrow> regs" where
  "syscall1 n arg1 r = r\<lparr>eax := nr n, ebx := arg1\<rparr>"

definition syscall2 :: "SYSCALL_NR \<Rightarrow> u32 \<Rightarrow> u32 \<Rightarrow> regs \<Rightarrow> regs" where
  "syscall2 n arg1 arg2 r = r\<lparr>eax := nr n, ebx := arg1, ecx := arg2\<rparr>"

definition syscall3 :: "SYSCALL_NR \<Rightarrow> u32 \<Rightarrow> u32 \<Rightarrow> u32 \<Rightarrow> regs \<Rightarrow> regs" where
  "syscall3 n arg1 arg2 arg3 r = r\<lparr>eax := nr n, ebx := arg1, ecx := arg2, edx := arg3\<rparr>"

definition u_getpid :: "regs \<Rightarrow> regs" where
  "u_getpid = syscall0 SYS_GETPID"

definition u_write :: "u32 \<Rightarrow> u32 \<Rightarrow> u32 \<Rightarrow> regs \<Rightarrow> regs" where
  "u_write fd buf count = syscall3 SYS_WRITE fd buf count"

definition u_malloc :: "u32 \<Rightarrow> regs \<Rightarrow> regs" where
  "u_malloc sz = syscall1 SYS_MALLOC sz"

definition u_free :: "u32 \<Rightarrow> regs \<Rightarrow> regs" where
  "u_free ptr = syscall1 SYS_FREE ptr"

definition u_fork :: "regs \<Rightarrow> regs" where
  "u_fork = syscall0 SYS_FORK"

definition u_read :: "u32 \<Rightarrow> u32 \<Rightarrow> u32 \<Rightarrow> regs \<Rightarrow> regs" where
  "u_read fd buf count = syscall3 SYS_READ fd buf count"

definition u_putchar :: "u8 \<Rightarrow> regs \<Rightarrow> regs" where
  "u_putchar char_asci = syscall1 SYS_PUTCHAR (scast char_asci)"

definition u_clear :: "regs \<Rightarrow> regs" where
  "u_clear = syscall0 SYS_CLEAR"

definition u_getcwd :: "u32 \<Rightarrow> u32 \<Rightarrow> regs \<Rightarrow> regs" where
  "u_getcwd buf sz = syscall2 SYS_GETCWD buf sz"

definition u_open :: "u32 \<Rightarrow> u8 \<Rightarrow> regs \<Rightarrow> regs" where
  "u_open pathname flag = syscall2 SYS_OPEN pathname (ucast flag)"

definition u_close :: "u32 \<Rightarrow> regs \<Rightarrow> regs" where
  "u_close fd = syscall1 SYS_CLOSE fd"

definition u_lseek :: "u32 \<Rightarrow> u32 \<Rightarrow> u8 \<Rightarrow> regs \<Rightarrow> regs" where
  "u_lseek fd offset whence = syscall3 SYS_LSEEK fd offset (ucast whence)"

definition u_unlink :: "u32 \<Rightarrow> regs \<Rightarrow> regs" where
  "u_unlink pathname = syscall1 SYS_UNLINK pathname"

definition u_mkdir :: "u32 \<Rightarrow> regs \<Rightarrow> regs" where
  "u_mkdir pathname = syscall1 SYS_MKDIR pathname"

definition u_opendir :: "u32 \<Rightarrow> regs \<Rightarrow> regs" where
  "u_opendir name = syscall1 SYS_OPENDIR name"

definition u_closedir :: "u32 \<Rightarrow> regs \<Rightarrow> regs" where
  "u_closedir dir = syscall1 SYS_CLOSEDIR dir"

definition u_rmdir :: "u32 \<Rightarrow> regs \<Rightarrow> regs" where
  "u_rmdir pathname = syscall1 SYS_RMDIR pathname"

definition u_readdir :: "u32 \<Rightarrow> regs \<Rightarrow> regs" where
  "u_readdir dir = syscall1 SYS_READDIR dir"

definition u_rewinddir :: "u32 \<Rightarrow> regs \<Rightarrow> regs" where
  "u_rewinddir dir = syscall1 SYS_REWINDDIR dir"

definition u_stat :: "u32 \<Rightarrow> u32 \<Rightarrow> regs \<Rightarrow> regs" where
  "u_stat path buf = syscall2 SYS_STAT path buf"

definition u_chdir :: "u32 \<Rightarrow> regs \<Rightarrow> regs" where
  "u_chdir path = syscall1 SYS_CHDIR path"

definition u_ps :: "regs \<Rightarrow> regs" where
  "u_ps = syscall0 SYS_PS"

definition u_execv :: "u32 \<Rightarrow> u32 \<Rightarrow> regs \<Rightarrow> regs" where
  "u_execv path argv = syscall2 SYS_EXECV path argv"

definition u_wait :: "u32 \<Rightarrow> regs \<Rightarrow> regs" where
  "u_wait status = syscall1 SYS_WAIT status"

definition u_exit :: "u32 \<Rightarrow> regs \<Rightarrow> regs" where
  "u_exit status = syscall1 SYS_EXIT status"

lemmas syscall_stubs = syscall0_def syscall1_def syscall2_def syscall3_def
  u_getpid_def u_write_def u_malloc_def u_free_def u_fork_def u_read_def u_putchar_def u_clear_def u_getcwd_def u_open_def u_close_def u_lseek_def u_unlink_def u_mkdir_def u_opendir_def u_closedir_def u_rmdir_def u_readdir_def u_rewinddir_def u_stat_def u_chdir_def u_ps_def u_execv_def u_wait_def u_exit_def

subsection \<open>The kernel\<close>

text \<open>The table after the assignments of \<^verbatim>\<open>syscall_init\<close>, in their order; the rest of its 32 entries is null.\<close>

definition syscall_nr :: nat where "syscall_nr = 32"

definition syscall_init :: "kernel_fn option list" where
  "syscall_init =
     foldl (\<lambda>tab (n, f). tab[unat (nr n) := Some f]) (replicate syscall_nr None)
       [(SYS_GETPID, Sys_getpid),
        (SYS_WRITE, Sys_write),
        (SYS_MALLOC, Sys_malloc),
        (SYS_FREE, Sys_free),
        (SYS_FORK, Sys_fork),
        (SYS_READ, Sys_read),
        (SYS_CLEAR, Cls_screen),
        (SYS_PUTCHAR, Sys_putchar),
        (SYS_GETCWD, Sys_getcwd),
        (SYS_OPEN, Sys_open),
        (SYS_CLOSE, Sys_close),
        (SYS_CHDIR, Sys_chdir),
        (SYS_OPENDIR, Sys_opendir),
        (SYS_CLOSEDIR, Sys_closedir),
        (SYS_RMDIR, Sys_rmdir),
        (SYS_MKDIR, Sys_mkdir),
        (SYS_LSEEK, Sys_lseek),
        (SYS_UNLINK, Sys_unlink),
        (SYS_READDIR, Sys_readdir),
        (SYS_REWINDDIR, Sys_rewinddir),
        (SYS_STAT, Sys_stat),
        (SYS_PS, Sys_ps),
        (SYS_EXECV, Sys_execv),
        (SYS_WAIT, Sys_wait),
        (SYS_EXIT, Sys_exit)]"

text \<open>The stack is the list of its words, the top first. At the trap it holds what the processor has pushed (\<open>trap\<close>:
  \<^verbatim>\<open>eip\<close>, \<^verbatim>\<open>cs\<close>, \<^verbatim>\<open>eflags\<close>, and \<^verbatim>\<open>esp\<close> and \<^verbatim>\<open>ss\<close> of a user); \<open>sp\<close> is the stack pointer that
  \<^verbatim>\<open>pushad\<close> stores among the registers.\<close>

primrec pushes :: "u32 list \<Rightarrow> u32 list \<Rightarrow> u32 list" where
  "pushes [] st = st"
| "pushes (x # xs) st = pushes xs (x # st)"

definition pushad :: "u32 \<Rightarrow> regs \<Rightarrow> u32 list \<Rightarrow> u32 list" where
  "pushad sp r st = pushes [eax r, ecx r, edx r, ebx r, sp, ebp r, esi r, edi r] st"

text \<open>The way out: over the number of the vector, the registers (without the stack pointer), the segments, over the
  error code, and back by \<^verbatim>\<open>iretd\<close> to what the processor had pushed.\<close>

fun intr_exit :: "u32 list \<Rightarrow> (regs \<times> u32 list) res" where
  "intr_exit (vec # di # si # bp # sp # b # d # c # a # gs' # fs' # es' # ds' # err # trap) =
     Inr (\<lparr>eax = a, ebx = b, ecx = c, edx = d, esi = si, edi = di, ebp = bp, gs_reg = gs', fs_reg = fs', es_reg = es', ds_reg = ds'\<rparr>, trap)"
| "intr_exit _ = Inl Bad_Access"

text \<open>The handler. The number is not compared with the size of the table; a call of a null entry is a call of address
  0. The words of the three arguments are dropped after the call and the result goes into the saved
  \<^verbatim>\<open>eax\<close>.\<close>

definition syscall_handler :: "(kernel_fn \<Rightarrow> u32 \<Rightarrow> u32 \<Rightarrow> u32 \<Rightarrow> 'k \<Rightarrow> (u32 \<times> 'k) res) \<Rightarrow> kernel_fn option list \<Rightarrow> u32 \<Rightarrow>
    regs \<Rightarrow> u32 list \<Rightarrow> 'k \<Rightarrow> ((regs \<times> u32 list) \<times> 'k) res" where
  "syscall_handler fn tab sp r trap k =
     (let st1 = pushes [0, ds_reg r, es_reg r, fs_reg r, gs_reg r] trap;
          st2 = pushes [0x80] (pushad sp r st1);
          st3 = pushes [edx r, ecx r, ebx r] st2 in
      bindR (rd tab (unat (eax r))) (\<lambda>e. case e of
        None \<Rightarrow> Inl Bad_Access
      | Some f \<Rightarrow>
          bindR (fn f (st3 ! 0) (st3 ! 1) (st3 ! 2) k) (\<lambda>(result, k').
          let st4 = (drop 3 st3)[8 := result] in
          bindR (intr_exit st4) (\<lambda>u. Inr (u, k')))))"

subsection \<open>Every call reaches its function\<close>

lemma syscall_table: "syscall_init = [Some Sys_getpid, Some Sys_write, Some Sys_malloc, Some Sys_free, Some Sys_fork, Some Sys_read, Some Cls_screen, Some Sys_putchar, Some Sys_getcwd, Some Sys_open, Some Sys_close, Some Sys_lseek, Some Sys_unlink, Some Sys_mkdir, Some Sys_rmdir, Some Sys_opendir, Some Sys_chdir, Some Sys_closedir, Some Sys_readdir, Some Sys_rewinddir, Some Sys_stat, Some Sys_ps, Some Sys_execv, Some Sys_wait, Some Sys_exit]
    @ replicate 7 None"
  by code_simp

lemma nr_inj: "nr a = nr b \<Longrightarrow> a = b"
  by (cases a; cases b) simp_all

text \<open>The calls of the library, with their arguments.\<close>

datatype lib_call =
  Lib_getpid
| Lib_write u32 u32 u32
| Lib_malloc u32
| Lib_free u32
| Lib_fork
| Lib_read u32 u32 u32
| Lib_putchar u8
| Lib_clear
| Lib_getcwd u32 u32
| Lib_open u32 u8
| Lib_close u32
| Lib_lseek u32 u32 u8
| Lib_unlink u32
| Lib_mkdir u32
| Lib_opendir u32
| Lib_closedir u32
| Lib_rmdir u32
| Lib_readdir u32
| Lib_rewinddir u32
| Lib_stat u32 u32
| Lib_chdir u32
| Lib_ps
| Lib_execv u32 u32
| Lib_wait u32
| Lib_exit u32

fun stub :: "lib_call \<Rightarrow> regs \<Rightarrow> regs" where
  "stub (Lib_getpid) = u_getpid"
| "stub (Lib_write fd buf count) = u_write fd buf count"
| "stub (Lib_malloc sz) = u_malloc sz"
| "stub (Lib_free ptr) = u_free ptr"
| "stub (Lib_fork) = u_fork"
| "stub (Lib_read fd buf count) = u_read fd buf count"
| "stub (Lib_putchar char_asci) = u_putchar char_asci"
| "stub (Lib_clear) = u_clear"
| "stub (Lib_getcwd buf sz) = u_getcwd buf sz"
| "stub (Lib_open pathname flag) = u_open pathname flag"
| "stub (Lib_close fd) = u_close fd"
| "stub (Lib_lseek fd offset whence) = u_lseek fd offset whence"
| "stub (Lib_unlink pathname) = u_unlink pathname"
| "stub (Lib_mkdir pathname) = u_mkdir pathname"
| "stub (Lib_opendir name) = u_opendir name"
| "stub (Lib_closedir dir) = u_closedir dir"
| "stub (Lib_rmdir pathname) = u_rmdir pathname"
| "stub (Lib_readdir dir) = u_readdir dir"
| "stub (Lib_rewinddir dir) = u_rewinddir dir"
| "stub (Lib_stat path buf) = u_stat path buf"
| "stub (Lib_chdir path) = u_chdir path"
| "stub (Lib_ps) = u_ps"
| "stub (Lib_execv path argv) = u_execv path argv"
| "stub (Lib_wait status) = u_wait status"
| "stub (Lib_exit status) = u_exit status"

text \<open>What the call is for: the function of the kernel and its arguments.\<close>

fun meant :: "lib_call \<Rightarrow> kernel_fn \<times> u32 list" where
  "meant (Lib_getpid) = (Sys_getpid, [])"
| "meant (Lib_write fd buf count) = (Sys_write, [fd, buf, count])"
| "meant (Lib_malloc sz) = (Sys_malloc, [sz])"
| "meant (Lib_free ptr) = (Sys_free, [ptr])"
| "meant (Lib_fork) = (Sys_fork, [])"
| "meant (Lib_read fd buf count) = (Sys_read, [fd, buf, count])"
| "meant (Lib_putchar char_asci) = (Sys_putchar, [scast char_asci])"
| "meant (Lib_clear) = (Cls_screen, [])"
| "meant (Lib_getcwd buf sz) = (Sys_getcwd, [buf, sz])"
| "meant (Lib_open pathname flag) = (Sys_open, [pathname, ucast flag])"
| "meant (Lib_close fd) = (Sys_close, [fd])"
| "meant (Lib_lseek fd offset whence) = (Sys_lseek, [fd, offset, ucast whence])"
| "meant (Lib_unlink pathname) = (Sys_unlink, [pathname])"
| "meant (Lib_mkdir pathname) = (Sys_mkdir, [pathname])"
| "meant (Lib_opendir name) = (Sys_opendir, [name])"
| "meant (Lib_closedir dir) = (Sys_closedir, [dir])"
| "meant (Lib_rmdir pathname) = (Sys_rmdir, [pathname])"
| "meant (Lib_readdir dir) = (Sys_readdir, [dir])"
| "meant (Lib_rewinddir dir) = (Sys_rewinddir, [dir])"
| "meant (Lib_stat path buf) = (Sys_stat, [path, buf])"
| "meant (Lib_chdir path) = (Sys_chdir, [path])"
| "meant (Lib_ps) = (Sys_ps, [])"
| "meant (Lib_execv path argv) = (Sys_execv, [path, argv])"
| "meant (Lib_wait status) = (Sys_wait, [status])"
| "meant (Lib_exit status) = (Sys_exit, [status])"

text \<open>What the stub returns: \<^verbatim>\<open>retval\<close> is the register \<^verbatim>\<open>eax\<close> after the trap.\<close>

definition retval :: "regs \<Rightarrow> u32" where
  "retval r = eax r"

text \<open>
  C10. Every call of the library reaches the function of the kernel that it is for, with the arguments it was called
  with: the numbers of the stubs, the enumeration and the assignments of \<^verbatim>\<open>syscall_init\<close> (which come in another order)
  fit together, and the arguments are in the registers from which the handler passes them on. If that function faults,
  so does the call; if it returns a result, the stub returns this result, with every other register and the place to go
  back to as they were at the trap, and the kernel is in the state the function left.
\<close>

theorem syscalls_reach_their_functions:
  "\<exists>a b d. take (length (snd (meant c))) [a, b, d] = snd (meant c)
    \<and> syscall_handler fn syscall_init sp (stub c r) trap k = bindR (fn (fst (meant c)) a b d k) (\<lambda>(result, k').
        Inr (((stub c r)\<lparr>eax := result\<rparr>, trap), k'))
    \<and> (\<forall>result. retval ((stub c r)\<lparr>eax := result\<rparr>) = result)"
proof -
  have h: "syscall_handler fn syscall_init sp r' trap k = bindR (fn f (ebx r') (ecx r') (edx r') k) (\<lambda>(result, k').
      Inr ((r'\<lparr>eax := result\<rparr>, trap), k'))" if "rd syscall_init (unat (eax r')) = Inr (Some f)" for r' f
    using that by (cases r') (simp add: syscall_handler_def pushad_def Let_def)
  have "rd syscall_init (unat (eax (stub c r))) = Inr (Some (fst (meant c)))"
    "take (length (snd (meant c))) [ebx (stub c r), ecx (stub c r), edx (stub c r)] = snd (meant c)"
    by (cases c; simp add: syscall_table syscall_stubs nth_append)+
  then show ?thesis using h by (intro exI conjI) (auto simp: retval_def)
qed

theorem syscalls_reach_their_functions_witness:
  "\<exists>r'. syscall_handler (\<lambda>f a b d k. if f = Sys_write then Inr (d, k + 1) else Inl Bad_Access) syscall_init 500
      (stub (Lib_write 1 0x8048000 77) \<lparr>eax = 3, ebx = 4, ecx = 5, edx = 6, esi = 7, edi = 8, ebp = 9, gs_reg = 0, fs_reg = 0, es_reg = 0x33, ds_reg = 0x33\<rparr>)
      [0x8049000, 0x2b, 0x202, 0xbffffe00, 0x33] (0 :: nat) = Inr ((r', [0x8049000, 0x2b, 0x202, 0xbffffe00, 0x33]), 1)
    \<and> retval r' = 77 \<and> esi r' = 7"
  using syscalls_reach_their_functions [of "Lib_write 1 0x8048000 77" "\<lambda>f a b d k. if f = Sys_write then Inr (d, k + 1) else Inl Bad_Access"
      500 "\<lparr>eax = 3, ebx = 4, ecx = 5, edx = 6, esi = 7, edi = 8, ebp = 9, gs_reg = 0, fs_reg = 0, es_reg = 0x33, ds_reg = 0x33\<rparr>"
      "[0x8049000, 0x2b, 0x202, 0xbffffe00, 0x33]" "0 :: nat"]
  by (auto simp: syscall_stubs)

text \<open>
  The handler does not look whether there is such a call: a number behind the end of the table calls whatever word
  lies there, and one of the seven without a function calls address 0.
\<close>

theorem syscall_unknown_number:
  assumes "25 \<le> unat (eax r)"
  shows "syscall_handler fn syscall_init sp r trap k = Inl Bad_Access"
proof (cases "unat (eax r) < 32")
  case True
  then have "syscall_init ! unat (eax r) = None" using assms by (simp add: syscall_table nth_append)
  then show ?thesis using True by (simp add: syscall_handler_def syscall_table Let_def)
qed (simp add: syscall_handler_def syscall_table Let_def)

theorem syscall_unknown_number_witness:
  "syscall_handler (\<lambda>f a b d k. Inr (0, k)) syscall_init 500
     \<lparr>eax = 40, ebx = 0, ecx = 0, edx = 0, esi = 0, edi = 0, ebp = 0, gs_reg = 0, fs_reg = 0, es_reg = 0, ds_reg = 0\<rparr> [] () = Inl Bad_Access"
  by (rule syscall_unknown_number) simp

end
