(* ===== verification/Stacks.thy ===== *)
theory Stacks
  imports Process
begin

section \<open>The first switch to a thread\<close>

text \<open>
  What a thread finds on its stack when it runs for the first time: the stack that \<^verbatim>\<open>thread_create\<close> writes, and the
  one that \<^verbatim>\<open>fork\<close> copies from the parent and changes. Both are pages of the memory whose frames hold no page table, so
  that writing to them does not change the translation.
\<close>

subsection \<open>Words in pages of data\<close>

text \<open>A structure in a page.\<close>

lemma store_words_page:
  assumes "data_pages M (pmem s) (cr3 s)" and "(v, f) \<in> M" and "\<forall>(o', x)\<in>set ws. unat (b + o') < 4096"
  shows "store_words (v + b) ws s = Inr (s\<lparr>pmem := foldl (\<lambda>pm (o', x). pm(f + (b + o') := x)) (pmem s) ws\<rparr>)
    \<and> data_pages M (foldl (\<lambda>pm (o', x). pm(f + (b + o') := x)) (pmem s) ws) (cr3 s)"
  using assms
proof (induction ws arbitrary: s)
  case (Cons w ws)
  obtain o' x where w: "w = (o', x)" by fastforce
  then have o: "unat (b + o') < 4096" using Cons.prems(3) by simp
  note a = data_page_access(2,3) [OF Cons.prems(1,2) o, of x]
  let ?s = "s\<lparr>pmem := (pmem s)(f + (b + o') := x)\<rparr>"
  have ac: "v + b + o' = v + (b + o')" by simp
  have "data_pages M (pmem ?s) (cr3 ?s)" using a(2) by simp
  from Cons.IH [OF this Cons.prems(2)] Cons.prems(3) show ?case
    using a(1) by (simp add: store_words_def w ac)
qed (simp add: store_words_def)

text \<open>Copying words from one page to another.\<close>

lemma vcopy_page:
  assumes "data_pages M (pmem s) (cr3 s)" and "(d, fd) \<in> M" "(a, fa) \<in> M" and "fd \<noteq> fa" and "k + n \<le> 1024"
  shows "\<exists>pm. vcopy n (d + 4 * of_nat k) (a + 4 * of_nat k) s = Inr (s\<lparr>pmem := pm\<rparr>) \<and> data_pages M pm (cr3 s)
    \<and> (\<forall>i. k \<le> i \<and> i < k + n \<longrightarrow> pm (fd + 4 * of_nat i) = pmem s (fa + 4 * of_nat i))
    \<and> (\<forall>i<k. pm (fd + 4 * of_nat i) = pmem s (fd + 4 * of_nat i))
    \<and> (\<forall>x. frame_of x \<noteq> fd \<longrightarrow> pm x = pmem s x)"
  using assms
proof (induction n arbitrary: k s)
  case (Suc n)
  have w: "unat (4 * of_nat i :: u32) = 4 * i" if "i < 1024" for i
    using that by (subst unat_mult_small) (simp_all add: unat_of_nat take_bit_nat_eq_self)
  have k: "unat (4 * of_nat k :: u32) < 4096" using Suc.prems(5) w [of k] by simp
  note r = data_page_access(1) [OF Suc.prems(1,3) k]
  let ?x = "pmem s (fa + 4 * of_nat k)"
  note wr = data_page_access(2,3) [OF Suc.prems(1,2) k, of ?x]
  let ?s = "s\<lparr>pmem := (pmem s)(fd + 4 * of_nat k := ?x)\<rparr>"
  have nx: "x + 4 * of_nat k + 4 = x + 4 * of_nat (Suc k)" for x :: u32 by simp
  have dp: "data_pages M (pmem ?s) (cr3 ?s)" using wr(2) by simp
  have fr: "frame_of fd = fd" "frame_of fa = fa" using Suc.prems(1-3) by (auto simp: data_pages_def)
  have inj: "fd + 4 * of_nat i = fd + 4 * of_nat j \<longleftrightarrow> i = j" if "i < 1024" "j < 1024" for i j
    using w [OF that(1)] w [OF that(2)] by (metis add_left_cancel mult_cancel1 zero_neq_numeral)
  have apart: "fa + 4 * of_nat i \<noteq> fd + 4 * of_nat k" if "i < 1024" for i
  proof
    have "unat (4 * of_nat i :: u32) < 4096" using w [OF that] that by simp
    from page_plus(1) [OF fr(2) this] page_plus(1) [OF fr(1) k]
    show "fa + 4 * of_nat i = fd + 4 * of_nat k \<Longrightarrow> False" using Suc.prems(4) by simp
  qed
  obtain pm where i: "vcopy n (d + 4 * of_nat (Suc k)) (a + 4 * of_nat (Suc k)) ?s = Inr (?s\<lparr>pmem := pm\<rparr>)" "data_pages M pm (cr3 s)"
      "\<forall>i. Suc k \<le> i \<and> i < Suc k + n \<longrightarrow> pm (fd + 4 * of_nat i) = pmem ?s (fa + 4 * of_nat i)"
      "\<forall>i<Suc k. pm (fd + 4 * of_nat i) = pmem ?s (fd + 4 * of_nat i)" "\<forall>x. frame_of x \<noteq> fd \<longrightarrow> pm x = pmem ?s x"
    using Suc.IH [OF dp Suc.prems(2,3,4), of "Suc k"] Suc.prems(5) by auto
  have fk: "frame_of (fd + 4 * of_nat k) = fd" using page_plus(1) [OF fr(1) k] .
  have "vcopy (Suc n) (d + 4 * of_nat k) (a + 4 * of_nat k) s = Inr (s\<lparr>pmem := pm\<rparr>)"
    using r wr(1) i(1) unfolding vcopy.simps nx by simp
  moreover have "pm (fd + 4 * of_nat i) = pmem s (fa + 4 * of_nat i)" if "k \<le> i" "i < k + Suc n" for i
    using that i(3,4) apart [of i] Suc.prems(5) by (cases "i = k") auto
  moreover have "pm (fd + 4 * of_nat i) = pmem s (fd + 4 * of_nat i)" if "i < k" for i
    using that i(4) inj [of i k] Suc.prems(5) by auto
  moreover have "pm x = pmem s x" if "frame_of x \<noteq> fd" for x
    using that i(5) fk by auto
  ultimately show ?case using i(2) by blast
next
  case 0
  then show ?case by (intro exI [of _ "pmem s"]) auto
qed

subsection \<open>A new thread\<close>

text \<open>The words that \<^verbatim>\<open>switch_to\<close> finds from the stack pointer on, in the order of \<^verbatim>\<open>struct thread_stack\<close>.\<close>

definition popped :: "nat \<Rightarrow> 'a cpu_scheme \<Rightarrow> u32 res list" where
  "popped n s = map (\<lambda>k. vread (esp s + 4 * of_nat k) s) [0..<n]"

lemma vread_cong: "pmem s = pmem s' \<Longrightarrow> cr3 s = cr3 s' \<Longrightarrow> vread v s = vread v s'"
  by (simp add: vread_def cong: option.case_cong)

lemma popped_page:
  assumes "esp s = v + b" and "\<forall>y. unat y < 4096 \<longrightarrow> vread (v + y) s = Inr (pm (f + y))" and "unat b + 4 * n \<le> 4096"
  shows "popped n s = map (\<lambda>k. Inr (pm (f + (b + 4 * of_nat k)))) [0..<n]"
proof -
  have "unat (b + 4 * of_nat k) < 4096" if "k < n" for k
  proof -
    have "unat (4 * of_nat k :: u32) = 4 * k" using that assms(3) by (subst unat_mult_small) (simp_all add: unat_of_nat take_bit_nat_eq_self)
    then show ?thesis using that assms(3) by (subst unat_add_small) simp_all
  qed
  then show ?thesis using assms(2) by (simp add: popped_def assms(1) add.assoc)
qed

text \<open>
  C12. The first switch to a new thread: after \<^verbatim>\<open>thread_create\<close>, \<^verbatim>\<open>switch_to\<close> makes it the running thread, pops
  zeros into the four registers and returns to \<^verbatim>\<open>kernel_thread\<close>, which finds the function and its argument on
  the stack, behind the place of a return address.
\<close>

theorem new_thread_first_switch:
  assumes "pcbs s p = Some t" and "self_kstack t = p + PAGE_SIZE" and "pcbs s cur = Some c" and "cur \<noteq> p"
    and "data_pages {(p, f)} (pmem s) (cr3 s)"
  shows "\<exists>s1 s2 x. thread_create l p function_at func_arg s = Inr s1 \<and> switch_to cur p s1 = Inr s2 \<and> running_thread s2 = p
    \<and> popped 8 s2 = map Inr [0, 0, 0, 0, at_kernel_thread l, x, function_at, func_arg]"
proof -
  let ?t = "t\<lparr>self_kstack := p + 0xe50\<rparr>"
  let ?s = "s\<lparr>pcbs := (pcbs s)(p \<mapsto> ?t)\<rparr>"
  let ?ws = "[(16, at_kernel_thread l), (24, function_at), (28, func_arg), (12, 0), (8, 0), (4, 0), (0, 0)]"
  have dp: "data_pages {(p, f)} (pmem ?s) (cr3 ?s)" using assms(5) by simp
  have "\<forall>(o', x)\<in>set ?ws. unat (0xe50 + o' :: u32) < 4096" by simp
  note st = store_words_page [OF dp insertI1 this]
  obtain pm where pm: "store_words (p + 0xe50) ?ws ?s = Inr (?s\<lparr>pmem := pm\<rparr>)" "data_pages {(p, f)} pm (cr3 s)"
      "pm = (pmem s)(f + 0xe60 := at_kernel_thread l, f + 0xe68 := function_at, f + 0xe6c := func_arg,
        f + 0xe5c := 0, f + 0xe58 := 0, f + 0xe54 := 0, f + 0xe50 := 0)"
    using st by simp
  let ?s1 = "?s\<lparr>pmem := pm\<rparr>"
  have tc: "thread_create l p function_at func_arg s = Inr ?s1"
    using assms(1,2) pm(1) by (simp add: thread_create_def INTR_STACK_SIZE_def THREAD_STACK_SIZE_def PAGE_SIZE_def add.commute [of "0xe50" p])
  let ?s2 = "?s1\<lparr>pcbs := (pcbs ?s1)(cur \<mapsto> c\<lparr>self_kstack := esp s\<rparr>), esp := p + 0xe50\<rparr>"
  have sw: "switch_to cur p ?s1 = Inr ?s2" using assms(3,4) by (simp add: switch_to_def)
  have fp: "frame_of p = p" using assms(5) by (simp add: data_pages_def)
  have "running_thread ?s2 = p" using page_plus(1) [OF fp, of "0xe50"] by (simp add: running_thread_def frame_of_def)
  moreover have "vread (p + y) ?s2 = Inr (pm (f + y))" if "unat y < 4096" for y
  proof -
    have "vread (p + y) ?s2 = vread (p + y) ?s1" by (rule vread_cong) simp_all
    then show ?thesis using data_page_access(1) [of "{(p, f)}" ?s1 p f y] pm(2) that by simp
  qed
  then have "popped 8 ?s2 = map Inr [0, 0, 0, 0, at_kernel_thread l, pm (f + 0xe64), function_at, func_arg]"
    by (simp add: popped_def upt_rec add.assoc) (simp add: pm(3))
  ultimately show ?thesis using tc sw by blast
qed


lemma small_tasks_page: "data_pages {(0xc0101000, 0x201000)} (pmem small_tasks) (cr3 small_tasks)"
proof -
  have "vtrans (pmem small_tasks) (cr3 small_tasks) 0xc0101000 = Some 0x201000" "frame_of 0xc0101000 = 0xc0101000"
    "frame_of 0x201000 = 0x201000" "frame_of (cr3 small_tasks) = 0x100000"
    "frame_of (dir_entry_at (pmem small_tasks) (cr3 small_tasks) 0xc0101000) = 0x101000"
    by code_simp+
  then show ?thesis by (simp add: data_pages_def tables_def)
qed

theorem new_thread_first_switch_witness:
  "\<exists>s1 s2 x. thread_create \<lparr>at_kernel_thread = 100, at_start_process = 0, at_idle = 0, at_intr_exit = 0\<rparr> 0xc0101000 200 300
      (small_tasks\<lparr>pcbs := (pcbs small_tasks)(0xc0101000 \<mapsto> blank_task\<lparr>self_kstack := 0xc0102000\<rparr>)\<rparr>) = Inr s1
    \<and> switch_to 0xc0100000 0xc0101000 s1 = Inr s2 \<and> running_thread s2 = 0xc0101000
    \<and> popped 8 s2 = map Inr [0, 0, 0, 0, 100, x, 200, 300]"
proof -
  let ?s = "small_tasks\<lparr>pcbs := (pcbs small_tasks)(0xc0101000 \<mapsto> blank_task\<lparr>self_kstack := 0xc0102000\<rparr>)\<rparr>"
  have a: "pcbs ?s 0xc0101000 = Some (blank_task\<lparr>self_kstack := 0xc0102000\<rparr>)" by simp
  have b: "self_kstack (blank_task\<lparr>self_kstack := 0xc0102000\<rparr>) = 0xc0101000 + PAGE_SIZE" by (simp add: PAGE_SIZE_def)
  have c: "pcbs ?s 0xc0100000 = Some (blank_task\<lparr>status := TASK_RUNNING\<rparr>)" by (simp add: small_tasks_def)
  have d: "data_pages {(0xc0101000, 0x201000)} (pmem ?s) (cr3 ?s)" using small_tasks_page by simp
  show ?thesis using new_thread_first_switch [OF a b c _ d, of "\<lparr>at_kernel_thread = 100, at_start_process = 0, at_idle = 0, at_intr_exit = 0\<rparr>" 200 300]
    by simp
qed

subsection \<open>The child of a fork\<close>

text \<open>The nineteen words of a \<^verbatim>\<open>struct intr_stack\<close> at the end of the page of a PCB.\<close>

definition intr_frame :: "u32 \<Rightarrow> (u32 \<Rightarrow> u32) \<Rightarrow> u32 list" where
  "intr_frame f pm = map (\<lambda>k. pm (f + (0xfb4 + 4 * of_nat k))) [0..<19]"

text \<open>
  C9. The child of a fork: after the page of the parent's PCB has been copied and \<^verbatim>\<open>build_child_stack\<close> has run, the
  first switch to the child pops zeros and returns to \<^verbatim>\<open>intr_exit\<close>, which finds the interrupt frame of the parent
  with 0 in \<^verbatim>\<open>eax\<close>: the child comes back from \<^verbatim>\<open>fork\<close> where its parent does, with the same registers and the result 0.
\<close>

theorem fork_child_first_switch:
  assumes "data_pages {(child, fc), (parent, fp)} (pmem s) (cr3 s)" and "fc \<noteq> fp"
    and "pcbs s child = Some t" and "pcbs s cur = Some c" and "cur \<noteq> child"
  shows "\<exists>s0 s1 s2. vcopy 1024 child parent s = Inr s0 \<and> build_child_stack l child s0 = Inr s1 \<and> switch_to cur child s1 = Inr s2
    \<and> running_thread s2 = child
    \<and> popped 24 s2 = map Inr ([0, 0, 0, 0, at_intr_exit l] @ (intr_frame fp (pmem s))[8 := 0])"
proof -
  let ?M = "{(child, fc), (parent, fp)}"
  obtain pm where pm: "vcopy 1024 child parent s = Inr (s\<lparr>pmem := pm\<rparr>)" "data_pages ?M pm (cr3 s)"
      "\<forall>i<1024. pm (fc + 4 * of_nat i) = pmem s (fp + 4 * of_nat i)"
    using vcopy_page [OF assms(1) _ _ assms(2), of child parent 0 1024] by auto
  let ?s0 = "s\<lparr>pmem := pm\<rparr>"
  let ?ws = "[(32, 0), (-4, at_intr_exit l), (-8, 0), (-12, 0), (-16, 0), (-20, 0)]"
  have dp: "data_pages ?M (pmem ?s0) (cr3 ?s0)" using pm(2) by simp
  have off: "\<forall>(o', x)\<in>set ?ws. unat (0xfb4 + o' :: u32) < 4096" by simp
  obtain pm1 where pm1: "store_words (child + 0xfb4) ?ws ?s0 = Inr (?s0\<lparr>pmem := pm1\<rparr>)" "data_pages ?M pm1 (cr3 s)"
      "pm1 = pm(fc + 0xfd4 := 0, fc + 0xfb0 := at_intr_exit l, fc + 0xfac := 0, fc + 0xfa8 := 0, fc + 0xfa4 := 0, fc + 0xfa0 := 0)"
    using store_words_page [OF dp insertI1 off] by simp
  let ?s1 = "?s0\<lparr>pmem := pm1, pcbs := (pcbs s)(child \<mapsto> t\<lparr>self_kstack := child + 0xfa0\<rparr>)\<rparr>"
  have bc: "build_child_stack l child ?s0 = Inr ?s1"
    using assms(3) pm1(1)
    by (simp add: build_child_stack_def INTR_STACK_SIZE_def PAGE_SIZE_def Let_def add.commute [of "0xfb4" child] add.commute [of "0xfa0" child])
  let ?s2 = "?s1\<lparr>pcbs := (pcbs ?s1)(cur \<mapsto> c\<lparr>self_kstack := esp s\<rparr>), esp := child + 0xfa0\<rparr>"
  have sw: "switch_to cur child ?s1 = Inr ?s2" using assms(4,5) by (simp add: switch_to_def)
  have fr: "frame_of child = child" using assms(1) by (simp add: data_pages_def)
  have run: "running_thread ?s2 = child" using page_plus(1) [OF fr, of "0xfa0"] by (simp add: running_thread_def frame_of_def)
  have esp2: "esp ?s2 = child + 0xfa0" by simp
  have rd: "\<forall>y. unat y < 4096 \<longrightarrow> vread (child + y) ?s2 = Inr (pm1 (fc + y))"
  proof (intro allI impI)
    fix y :: u32 assume that: "unat y < 4096"
    have "vread (child + y) ?s2 = vread (child + y) ?s1" by (rule vread_cong) simp_all
    then show "vread (child + y) ?s2 = Inr (pm1 (fc + y))" using data_page_access(1) [of ?M ?s1 child fc y] pm1(2) that by simp
  qed
  have "list_all (\<lambda>i. pm (fc + 4 * of_nat i) = pmem s (fp + 4 * of_nat i)) [1005..<1024]"
    using pm(3) unfolding list_all_iff set_upt by (meson atLeastLessThan_iff)
  note w = this [simplified]
  have pop: "popped 24 ?s2 = map (\<lambda>k. Inr (pm1 (fc + (0xfa0 + 4 * of_nat k)))) [0..<24]"
    by (rule popped_page [OF esp2 rd]) simp
  have "popped 24 ?s2 = map Inr ([0, 0, 0, 0, at_intr_exit l] @ (intr_frame fp (pmem s))[8 := 0])"
    unfolding pop using w by (simp add: intr_frame_def upt_rec pm1(3))
  then show ?thesis using pm(1) bc sw run by blast
qed

lemma small_tasks_pages: "data_pages {(0xc0101000, 0x201000), (0xc0100000, 0x200000)} (pmem small_tasks) (cr3 small_tasks)"
proof -
  have "vtrans (pmem small_tasks) (cr3 small_tasks) 0xc0101000 = Some 0x201000" "frame_of 0xc0101000 = 0xc0101000"
    "vtrans (pmem small_tasks) (cr3 small_tasks) 0xc0100000 = Some 0x200000" "frame_of 0xc0100000 = 0xc0100000"
    "frame_of 0x201000 = 0x201000" "frame_of 0x200000 = 0x200000" "frame_of (cr3 small_tasks) = 0x100000"
    "frame_of (dir_entry_at (pmem small_tasks) (cr3 small_tasks) 0xc0101000) = 0x101000"
    "frame_of (dir_entry_at (pmem small_tasks) (cr3 small_tasks) 0xc0100000) = 0x101000"
    by code_simp+
  then show ?thesis by (simp add: data_pages_def tables_def)
qed

theorem fork_child_first_switch_witness:
  "\<exists>s0 s1 s2. vcopy 1024 0xc0101000 0xc0100000 small_tasks = Inr s0
    \<and> build_child_stack \<lparr>at_kernel_thread = 0, at_start_process = 0, at_idle = 0, at_intr_exit = 500\<rparr> 0xc0101000 s0 = Inr s1
    \<and> switch_to 0xc0100000 0xc0101000 s1 = Inr s2 \<and> running_thread s2 = 0xc0101000
    \<and> popped 24 s2 = map Inr ([0, 0, 0, 0, 500] @ (intr_frame 0x200000 (pmem small_tasks))[8 := 0])"
proof -
  obtain t where "pcbs small_tasks 0xc0101000 = Some t" by (simp add: small_tasks_def)
  moreover obtain c where "pcbs small_tasks 0xc0100000 = Some c" by (simp add: small_tasks_def)
  ultimately show ?thesis
    using fork_child_first_switch [OF small_tasks_pages, of t "0xc0100000" c "\<lparr>at_kernel_thread = 0, at_start_process = 0, at_idle = 0, at_intr_exit = 500\<rparr>"]
    by simp
qed

end
