(* ===== verification/Wait.thy ===== *)
theory Wait
  imports Process
begin

section \<open>Parents and children\<close>

text \<open>What \<^verbatim>\<open>wait\<close> and \<^verbatim>\<open>exit\<close> (\<^verbatim>\<open>userprog/wait_exit.c\<close>) do to the tree of the processes and to the resources of a child.\<close>

subsection \<open>Giving back a page of the kernel\<close>

text \<open>A page of the kernel: mapped to the frame \<open>i\<close> of its pool, and numbered by the bitmap of its addresses.\<close>

definition kernel_page :: "'a kmem_scheme \<Rightarrow> u32 \<Rightarrow> nat \<Rightarrow> bool" where
  "kernel_page s v i \<longleftrightarrow> own_table (pmem s) (cr3 s) v \<and> frame_of v = v
     \<and> i < pool_frames PF_KERNEL s \<and> vtrans (pmem s) (cr3 s) v = Some (frame_addr PF_KERNEL s i)
     \<and> 0x102000 \<le> frame_addr PF_KERNEL s i
     \<and> unat ((v - vaddr_start (kernel_vaddr s)) div PAGE_SIZE) < bit_cnt (vaddr_bitmap (kernel_vaddr s))"

definition pages_inv :: "'a kmem_scheme \<Rightarrow> bool" where
  "pages_inv s \<longleftrightarrow> pools_ok s \<and> bitmap_ok (vaddr_bitmap (kernel_vaddr s))"

lemma frame_mod: "frame_of v = v \<Longrightarrow> v mod PAGE_SIZE = 0"
proof -
  assume "frame_of v = v"
  then have "unat v = unat v div 4096 * 4096" using unat_parts(4) [of v] by simp
  then have "unat v mod 4096 = 0" by (metis mod_mult_self2_is_0)
  then have "unat (v mod PAGE_SIZE) = 0" by (simp add: unat_mod PAGE_SIZE_def)
  then show ?thesis by (simp add: unat_eq_0)
qed

lemma set_bits_one: "set_bits (Suc 0) i v b = bitmap_set b i v"
  by (cases "bitmap_set b i v") simp_all

lemma kernel_page_free:
  assumes inv: "pages_inv s" and pg: "kernel_page s v i"
  obtains s' where "mfree_page PF_KERNEL v 1 s = Inr s'"
    and "s' = s\<lparr>pmem := pmem s', kernel_pool := kernel_pool s', kernel_vaddr := kernel_vaddr s'\<rparr>"
    and "pages_inv s'" and "used_frames PF_KERNEL s' = used_frames PF_KERNEL s - {i}"
    and "used_frames PF_USER s' = used_frames PF_USER s"
    and "\<forall>w j. kernel_page s w j \<longrightarrow> w \<noteq> v \<longrightarrow> kernel_page s' w j"
proof -
  have p: "own_table (pmem s) (cr3 s) v" "frame_of v = v" "i < pool_frames PF_KERNEL s"
      "vtrans (pmem s) (cr3 s) v = Some (frame_addr PF_KERNEL s i)" "0x102000 \<le> frame_addr PF_KERNEL s i"
      "unat ((v - vaddr_start (kernel_vaddr s)) div PAGE_SIZE) < bit_cnt (vaddr_bitmap (kernel_vaddr s))"
    using pg by (auto simp: kernel_page_def)
  have ok: "pools_ok s" "bitmap_ok (vaddr_bitmap (kernel_vaddr s))" using inv by (auto simp: pages_inv_def)
  have sm: "self_map (pmem s) (cr3 s)" using p(1) by (simp add: own_table_def)
  let ?f = "frame_addr PF_KERNEL s i" and ?a = "pte_addr (pmem s) (cr3 s) v"
  have v2p: "addr_v2p v s = Inr ?f" by (rule addr_v2p_vtrans [OF sm p(4)])
  have fm: "?f mod PAGE_SIZE = 0" by (rule frame_mod [OF frame_addr_pos(2) [OF ok(1) p(3)]])
  have k: "phy_addr_start (kernel_pool s) \<le> ?f" "?f < phy_addr_start (user_pool s)"
    using frame_addr_unat [OF ok(1) p(3)] p(3) ok(1) by (auto simp: word_le_nat_alt word_less_nat_alt pools_ok_def)
  obtain b where b: "pfree ?f s = Inr (set_pool PF_KERNEL ((the_pool PF_KERNEL s)\<lparr>pool_bitmap := b\<rparr>) s)"
      "bitmap_ok b" "bit_cnt b = pool_frames PF_KERNEL s" "used_bits b = used_frames PF_KERNEL s - {i}"
    by (rule pfree_frame [OF ok(1) p(3)])
  note sw = pool_swap_ok [OF ok(1) b(2,3)]
  let ?s1 = "set_pool PF_KERNEL ((the_pool PF_KERNEL s)\<lparr>pool_bitmap := b\<rparr>) s"
  have pr: "present (dir_entry_at (pmem s) (cr3 s) v)" using p(1) by (simp add: own_table_def)
  let ?x = "pmem s ?a AND NOT PG_P_1"
  have rm: "page_table_pte_remove v ?s1 = Inr (?s1\<lparr>pmem := (pmem s)(?a := ?x)\<rparr>)"
    using sm pr by (simp add: page_table_pte_remove_def vread_def vwrite_def vtrans_pte_ptr set_pool_def)
  obtain vb where vb: "bitmap_set (vaddr_bitmap (kernel_vaddr s)) ((v - vaddr_start (kernel_vaddr s)) div PAGE_SIZE) 0 = Inr vb"
      "bitmap_ok vb" "bit_cnt vb = bit_cnt (vaddr_bitmap (kernel_vaddr s))"
    using bitmap_set_used [OF ok(2) p(6), of 0] by auto
  let ?s2 = "s\<lparr>pmem := (pmem s)(?a := ?x), kernel_pool := (kernel_pool s)\<lparr>pool_bitmap := b\<rparr>,
    kernel_vaddr := (kernel_vaddr s)\<lparr>vaddr_bitmap := vb\<rparr>\<rparr>"
  have nk: "\<not> phy_addr_start (user_pool s) \<le> ?f" using k(2) by simp
  have run: "mfree_page PF_KERNEL v 1 s = Inr ?s2"
    using v2p fm frame_mod [OF p(2)] p(5) k nk b(1) rm vb(1)
    by (simp add: mfree_page_def vaddr_remove_def the_vaddr_def set_vaddr_def set_pool_def set_bits_one)
  show thesis
  proof (rule that [OF run])
    show "pages_inv ?s2" using sw(1) vb(2) by (simp add: pages_inv_def pools_ok_def pool_frames_def set_pool_def)
    show "used_frames PF_KERNEL ?s2 = used_frames PF_KERNEL s - {i}" "used_frames PF_USER ?s2 = used_frames PF_USER s"
      using b(4) by (simp_all add: used_frames_def)
    show "\<forall>w j. kernel_page s w j \<longrightarrow> w \<noteq> v \<longrightarrow> kernel_page ?s2 w j"
    proof (intro allI impI)
      fix w j assume w: "kernel_page s w j" "w \<noteq> v"
      then have "frame_of w \<noteq> frame_of v" using p(2) by (simp add: kernel_page_def)
      moreover have "own_table ((pmem s)(?a := ?x)) (cr3 s) w"
        using w(1) vtrans_upd_pte(2,3) [OF p(1), of ?x] by (simp add: kernel_page_def own_table_def)
      ultimately show "kernel_page ?s2 w j"
        using w(1) vtrans_upd_pte(1) [OF p(1), of ?x w] b(3) vb(3)
        by (simp add: kernel_page_def pool_frames_def frame_addr_def)
    qed
  qed simp
qed


subsection \<open>The end of a child\<close>

text \<open>Whatever leaves the pool of identifiers and the running thread alone.\<close>

lemma pids_ok_cong:
  "pids_ok s \<Longrightarrow> pid_bitmap s' = pid_bitmap s \<Longrightarrow> pid_lock s' = pid_lock s \<Longrightarrow> running_thread s' = running_thread s \<Longrightarrow> pids_ok s'"
  by (simp add: pids_ok_def)

lemma live_pid_release:
  assumes "pids_ok s" and "p \<in> live_pids s"
  obtains b where "release_pid p s = Inr (s\<lparr>pid_bitmap := b\<rparr>)" and "pid_of_bit ` used_bits b = live_pids s - {p}"
proof -
  obtain i where i: "p = pid_of_bit i" "i \<in> used_bits (pid_bitmap s)" using assms(2) by (auto simp: live_pids_def)
  then have ib: "i < 1024" using used_pids_bound [OF assms(1)] by auto
  obtain b where b: "release_pid p s = Inr (s\<lparr>pid_bitmap := b\<rparr>)" "used_bits b = used_bits (pid_bitmap s) - {i}"
    using release_pid_bit [OF assms(1) ib] i(1) by metis
  have "pid_of_bit ` used_bits b = live_pids s - {p}"
    using inj_on_image_set_diff [OF pid_of_bit_inj, of "used_bits (pid_bitmap s)" "{i}"] b(2) i(1) used_pids_bound [OF assms(1)] ib
    by (auto simp: live_pids_def)
  with b(1) show ?thesis by (rule that)
qed

text \<open>A process that has exited: not ready, not the main thread, with the pages of its PCB and of its directory; the processor keeps
  the translation of the former (see \<^verbatim>\<open>thread_exit\<close>).\<close>

definition dead_child :: "'a tasks_scheme \<Rightarrow> u32 \<Rightarrow> task_struct \<Rightarrow> nat \<Rightarrow> nat \<Rightarrow> bool" where
  "dead_child s c t i j \<longleftrightarrow> pcbs s c = Some t \<and> c \<notin> set (thread_ready_list s) \<and> c \<noteq> main_thread s
     \<and> c \<in> set (thread_all_list s) \<and> pgdir t \<noteq> 0 \<and> pgdir t \<noteq> c \<and> pid t \<in> live_pids s
     \<and> kernel_page s (pgdir t) i \<and> kernel_page s c j \<and> tlb_keeps s c"

lemma kernel_page_cong:
  fixes s s' :: "'a kmem_scheme"
  assumes "pmem s' = pmem s" "cr3 s' = cr3 s" "kernel_pool s' = kernel_pool s" "kernel_vaddr s' = kernel_vaddr s"
  shows "kernel_page s' v i = kernel_page s v i"
  using assms by (simp add: kernel_page_def pool_frames_def frame_addr_def)

lemma thread_exit_child:
  assumes inv: "pids_ok s" "pages_inv s" and d: "dead_child s c t i j"
  obtains s' where "thread_exit c False s = Inr s'" and "thread_all_list s' = remove1 c (thread_all_list s)"
    and "pcbs s' = (pcbs s)(c := None)" and "thread_ready_list s' = thread_ready_list s"
    and "live_pids s' = live_pids s - {pid t}" and "used_frames PF_KERNEL s' = used_frames PF_KERNEL s - {i, j}"
    and "used_frames PF_USER s' = used_frames PF_USER s" and "running_thread s' = running_thread s"
proof -
  have dc: "pcbs s c = Some t" "c \<notin> set (thread_ready_list s)" "c \<noteq> main_thread s" "c \<in> set (thread_all_list s)"
      "pgdir t \<noteq> 0" "pgdir t \<noteq> c" "pid t \<in> live_pids s" "kernel_page s (pgdir t) i" "kernel_page s c j" "tlb_keeps s c"
    using d by (auto simp: dead_child_def)
  let ?t = "t\<lparr>status := TASK_DIED\<rparr>"
  let ?s2 = "s\<lparr>eflags := snd (intr_disable (eflags s)), pcbs := (pcbs s)(c \<mapsto> ?t)\<rparr>"
  have inv2: "pages_inv ?s2" using inv(2) by (simp add: pages_inv_def pools_ok_def pool_frames_def)
  have pg2: "kernel_page ?s2 (pgdir t) i" "kernel_page ?s2 c j"
    using dc(8,9) by (simp_all add: kernel_page_cong [of ?s2 s])
  obtain s3 where s3: "mfree_page PF_KERNEL (pgdir t) 1 ?s2 = Inr s3"
      "s3 = ?s2\<lparr>pmem := pmem s3, kernel_pool := kernel_pool s3, kernel_vaddr := kernel_vaddr s3\<rparr>"
      "pages_inv s3" "used_frames PF_KERNEL s3 = used_frames PF_KERNEL ?s2 - {i}" "used_frames PF_USER s3 = used_frames PF_USER ?s2"
      "\<forall>w j. kernel_page ?s2 w j \<longrightarrow> w \<noteq> pgdir t \<longrightarrow> kernel_page s3 w j"
    by (rule kernel_page_free [OF inv2 pg2(1)])
  let ?s4 = "s3\<lparr>thread_all_list := remove1 c (thread_all_list s)\<rparr>"
  have inv4: "pages_inv ?s4" using s3(3) by (simp add: pages_inv_def pools_ok_def pool_frames_def)
  have "kernel_page s3 c j" using s3(6) pg2(2) dc(6) by blast
  then have pg4: "kernel_page ?s4 c j" by (simp add: kernel_page_cong [of ?s4 s3])
  obtain s5 where s5: "mfree_page PF_KERNEL c 1 ?s4 = Inr s5"
      "s5 = ?s4\<lparr>pmem := pmem s5, kernel_pool := kernel_pool s5, kernel_vaddr := kernel_vaddr s5\<rparr>"
      "used_frames PF_KERNEL s5 = used_frames PF_KERNEL ?s4 - {j}" "used_frames PF_USER s5 = used_frames PF_USER ?s4"
    by (rule kernel_page_free [OF inv4 pg4])
  have f3: "thread_all_list s3 = thread_all_list s" "main_thread s3 = main_thread s" "pcbs s3 = (pcbs s)(c \<mapsto> ?t)"
      "pid_bitmap s3 = pid_bitmap s" "pid_lock s3 = pid_lock s" "esp s3 = esp s" "tlb_keeps s3 = tlb_keeps s" "thread_ready_list s3 = thread_ready_list s"
    by (subst s3(2), simp)+
  have f5: "main_thread s5 = main_thread s" "pcbs s5 = (pcbs s)(c \<mapsto> ?t)" "thread_all_list s5 = remove1 c (thread_all_list s)"
      "pid_bitmap s5 = pid_bitmap s" "pid_lock s5 = pid_lock s" "esp s5 = esp s" "tlb_keeps s5 = tlb_keeps s" "thread_ready_list s5 = thread_ready_list s"
    by (subst s5(2), simp add: f3)+
  have run5: "running_thread s5 = running_thread s" using f5(6) by (simp add: running_thread_def)
  have ok5: "pids_ok s5" by (rule pids_ok_cong [OF inv(1) f5(4,5) run5])
  have live5: "live_pids s5 = live_pids s" using f5(4) by (simp add: live_pids_def)
  obtain b where b: "release_pid (pid t) s5 = Inr (s5\<lparr>pid_bitmap := b\<rparr>)" "pid_of_bit ` used_bits b = live_pids s - {pid t}"
    using live_pid_release [OF ok5, of "pid t"] dc(7) live5 by auto
  let ?s7 = "s5\<lparr>pid_bitmap := b, pcbs := (pcbs s5)(c := None)\<rparr>"
  have "thread_exit c False s = Inr ?s7"
    using dc s3(1) s5(1) f3 f5 b(1) by (simp add: thread_exit_def Let_def)
  moreover have "pcbs ?s7 = (pcbs s)(c := None)" using f5(2) by simp
  moreover have "live_pids ?s7 = live_pids s - {pid t}" using b(2) by (simp add: live_pids_def)
  moreover have "used_frames PF_KERNEL ?s7 = used_frames PF_KERNEL s - {i, j}" "used_frames PF_USER ?s7 = used_frames PF_USER s"
    using s3(4,5) s5(3,4) by (auto simp: used_frames_def)
  moreover have "running_thread ?s7 = running_thread s" using f5(6) by (simp add: running_thread_def)
  ultimately show thesis using that [of ?s7] f5 by simp
qed

subsection \<open>Waiting\<close>

lemma find_task_first:
  assumes "\<forall>x\<in>set xs. \<exists>t. pcbs s x = Some t \<and> \<not> P t" and "pcbs s c = Some t" and "P t"
  shows "find_task P (xs @ c # ys) s = Inr (Some c)"
  using assms by (induction xs) auto

lemma find_task_none:
  assumes "\<forall>x\<in>set xs. \<exists>t. pcbs s x = Some t \<and> \<not> P t"
  shows "find_task P xs s = Inr None"
  using assms by (induction xs) auto

lemma wait_reaps:
  assumes "pids_ok s" and "pages_inv s" and "pcbs s (running_thread s) = Some parent"
    and "thread_all_list s = xs @ c # ys" and "distinct (thread_all_list s)"
    and "\<forall>x\<in>set xs. \<exists>t. pcbs s x = Some t \<and> \<not> find_hanging_child (pid parent) t"
    and "dead_child s c t i j" and "find_hanging_child (pid parent) t"
  shows "\<exists>s'. sys_wait s = Inr (Waited (pid t) (scast (exit_status t)), s')
    \<and> thread_all_list s' = xs @ ys \<and> thread_ready_list s' = thread_ready_list s \<and> pcbs s' = (pcbs s)(c := None)
    \<and> live_pids s' = live_pids s - {pid t} \<and> used_frames PF_KERNEL s' = used_frames PF_KERNEL s - {i, j}
    \<and> used_frames PF_USER s' = used_frames PF_USER s"
proof -
  have c: "pcbs s c = Some t" using assms(7) by (simp add: dead_child_def)
  have f: "find_task (find_hanging_child (pid parent)) (thread_all_list s) s = Inr (Some c)"
    unfolding assms(4) by (rule find_task_first [OF assms(6) c assms(8)])
  obtain s' where s': "thread_exit c False s = Inr s'" "thread_all_list s' = remove1 c (thread_all_list s)"
      "pcbs s' = (pcbs s)(c := None)" "thread_ready_list s' = thread_ready_list s"
      "live_pids s' = live_pids s - {pid t}" "used_frames PF_KERNEL s' = used_frames PF_KERNEL s - {i, j}"
      "used_frames PF_USER s' = used_frames PF_USER s"
    by (rule thread_exit_child [OF assms(1,2,7)])
  have "remove1 c (thread_all_list s) = xs @ ys" using assms(4,5) by (simp add: remove1_append)
  then show ?thesis using s' f c assms(3) by (simp add: sys_wait_def)
qed

text \<open>
  \<^verbatim>\<open>wait\<close> with a child that has exited: of the children that hang it takes the first in the list of all threads,
  returns its identifier and its exit status (with its sign), and takes it out of the system: its PCB is gone, it is
  in neither list, its identifier is free, and of the frames of the kernel's pool exactly those of its PCB and of its
  page directory are given back.
\<close>

theorem wait_reaps_the_child:
  assumes "pids_ok s" and "pages_inv s" and "pcbs s (running_thread s) = Some parent"
    and "thread_all_list s = xs @ c # ys" and "distinct (thread_all_list s)"
    and "\<forall>x\<in>set xs. \<exists>t. pcbs s x = Some t \<and> \<not> find_hanging_child (pid parent) t"
    and "dead_child s c t i j" and "find_hanging_child (pid parent) t"
  shows "\<exists>s'. sys_wait s = Inr (Waited (pid t) (scast (exit_status t)), s')
    \<and> thread_all_list s' = xs @ ys \<and> thread_ready_list s' = thread_ready_list s \<and> pcbs s' = (pcbs s)(c := None)
    \<and> live_pids s' = live_pids s - {pid t} \<and> used_frames PF_KERNEL s' = used_frames PF_KERNEL s - {i, j}
    \<and> used_frames PF_USER s' = used_frames PF_USER s"
  by (rule wait_reaps [OF assms])

lemma small_tasks_dir:
  "dir_entry_at (pmem small_tasks) 0x100000 w = (if PDE_IDX w = 1023 then 0x100007 else if PDE_IDX w = 768 then 0x101007 else 0)"
proof -
  have f: "frame_of 0x100000 = 0x100000" by (simp add: frame_of_def)
  have u: "unat (0x100000 + PDE_IDX w * 4) = 0x100000 + unat (PDE_IDX w) * 4"
    using unat_frame_plus [OF entry_off(1), of "0x100000" w] f by simp
  have eq: "0x100000 + PDE_IDX w * 4 = x \<longleftrightarrow> 0x100000 + unat (PDE_IDX w) * 4 = unat x" for x
    by (simp only: word_unat_eq_iff [of "0x100000 + PDE_IDX w * 4" x] u)
  have idx: "PDE_IDX w = x \<longleftrightarrow> unat (PDE_IDX w) = unat x" for x by (rule word_unat_eq_iff)
  show ?thesis using idx_less(1) [of w] by (simp add: dir_entry_at_def small_tasks_def f eq idx)
qed

lemma small_tasks_kernel_pages:
  "kernel_page small_tasks 0xc0102000 2" "kernel_page small_tasks 0xc0101000 1" "pages_inv small_tasks"
proof -
  have c: "cr3 small_tasks = 0x100000" by (simp add: small_tasks_def)
  have i: "PDE_IDX 0xc0102000 = 768" "PDE_IDX 0xc0101000 = 768" "frame_of 0x101007 = 0x101000" "frame_of 0x100007 = 0x100000"
      "present 0x101007" "\<not> present 0" "frame_of 0x100000 = 0x100000" "frame_of 0xc0102000 = 0xc0102000"
      "frame_of 0xc0101000 = 0xc0101000"
    by code_simp+
  have sm: "self_map (pmem small_tasks) 0x100000"
    by (simp add: self_map_def small_tasks_def frame_of_def present_def)
  have own: "own_table (pmem small_tasks) 0x100000 v" if "PDE_IDX v = 768" for v
    unfolding own_table_def small_tasks_dir that using sm i by simp
  have tr: "vtrans (pmem small_tasks) (cr3 small_tasks) 0xc0102000 = Some 0x202000"
      "vtrans (pmem small_tasks) (cr3 small_tasks) 0xc0101000 = Some 0x201000"
    by code_simp+
  have fa: "frame_addr PF_KERNEL small_tasks 2 = 0x202000" "frame_addr PF_KERNEL small_tasks 1 = 0x201000"
      "pool_frames PF_KERNEL small_tasks = 8" "bit_cnt (vaddr_bitmap (kernel_vaddr small_tasks)) = 8"
      "vaddr_start (kernel_vaddr small_tasks) = 0xc0100000"
    by (simp_all add: frame_addr_def pool_frames_def bit_cnt_def small_tasks_def PAGE_SIZE_def K_HEAP_START_def)
  show "kernel_page small_tasks 0xc0102000 2" "kernel_page small_tasks 0xc0101000 1"
    unfolding kernel_page_def fa using own i tr c by (simp_all add: PAGE_SIZE_def)
  show "pages_inv small_tasks"
    by (simp add: pages_inv_def pools_ok_def pool_frames_def bit_cnt_def bitmap_ok_def small_tasks_def frame_of_def)
qed

theorem wait_reaps_the_child_witness:
  "\<exists>s'. sys_wait small_tasks = Inr (Waited 2 7, s') \<and> thread_all_list s' = [0xc0100000] \<and> live_pids s' = {1}
    \<and> pcbs s' 0xc0101000 = None"
proof -
  let ?t = "blank_task\<lparr>status := TASK_HANGING, pid := 2, parent_pid := 1, exit_status := 7, pgdir := 0xc0102000\<rparr>"
  have p: "pcbs small_tasks (running_thread small_tasks) = Some (blank_task\<lparr>status := TASK_RUNNING\<rparr>)"
    by (simp add: small_tasks_running) (simp add: small_tasks_def)
  have l: "thread_all_list small_tasks = [0xc0100000] @ 0xc0101000 # []" by (simp add: small_tasks_def)
  have d: "distinct (thread_all_list small_tasks)" by (simp add: small_tasks_def)
  have n: "\<forall>x\<in>set [0xc0100000]. \<exists>t. pcbs small_tasks x = Some t
      \<and> \<not> find_hanging_child (pid (blank_task\<lparr>status := TASK_RUNNING\<rparr>)) t"
    by (simp add: small_tasks_def find_hanging_child_def)
  have dc: "dead_child small_tasks 0xc0101000 ?t 2 1"
    unfolding dead_child_def using small_tasks_kernel_pages small_tasks_pids(3) by (simp add: small_tasks_def)
  have h: "find_hanging_child (pid (blank_task\<lparr>status := TASK_RUNNING\<rparr>)) ?t" by (simp add: find_hanging_child_def blank_task_def)
  show ?thesis
    using wait_reaps_the_child [OF small_tasks_pids(1) small_tasks_kernel_pages(3) p l d n dc h] small_tasks_pids(3) by auto
qed

subsection \<open>Orphans\<close>

definition children :: "pid_t \<Rightarrow> 'a kernel_scheme \<Rightarrow> u32 set" where
  "children p s = {c \<in> set (thread_all_list s). \<exists>t. pcbs s c = Some t \<and> parent_pid t = p}"

lemma adopt_all:
  assumes "set xs \<subseteq> dom (pcbs s)"
  shows "eachR (init_adopt_a_child p) xs s = Inr (s\<lparr>pcbs := (\<lambda>c. if c \<in> set xs
    then map_option (\<lambda>t. if parent_pid t = p then t\<lparr>parent_pid := 1\<rparr> else t) (pcbs s c) else pcbs s c)\<rparr>)"
  using assms
proof (induction xs arbitrary: s)
  case (Cons x xs)
  then obtain t where t: "pcbs s x = Some t" by auto
  let ?t = "if parent_pid t = p then t\<lparr>parent_pid := 1\<rparr> else t"
  let ?s = "s\<lparr>pcbs := (pcbs s)(x \<mapsto> ?t)\<rparr>"
  have "init_adopt_a_child p x s = Inr ?s" using t by (auto simp: init_adopt_a_child_def fun_upd_idem)
  moreover have "set xs \<subseteq> dom (pcbs ?s)" using Cons.prems by auto
  note Cons.IH [OF this]
  moreover have "(\<lambda>c. if c \<in> set xs then map_option (\<lambda>t. if parent_pid t = p then t\<lparr>parent_pid := 1\<rparr> else t) (pcbs ?s c) else pcbs ?s c)
      = (\<lambda>c. if c \<in> set (x # xs) then map_option (\<lambda>t. if parent_pid t = p then t\<lparr>parent_pid := 1\<rparr> else t) (pcbs s c) else pcbs s c)"
    using t by (auto simp: fun_eq_iff)
  ultimately show ?case by simp
qed simp

text \<open>
  The orphans of a process that exits: the walk over the list of all threads makes every child of it a child of
  process 1, leaves the children of all others where they are, and changes nothing else in any PCB.
\<close>

theorem orphans_go_to_init:
  assumes "set (thread_all_list s) \<subseteq> dom (pcbs s)"
  shows "\<exists>s'. eachR (init_adopt_a_child p) (thread_all_list s) s = Inr s'
    \<and> children 1 s' = children 1 s \<union> children p s
    \<and> (\<forall>q. q \<noteq> 1 \<longrightarrow> children q s' = (if q = p then {} else children q s))
    \<and> (\<forall>c. map_option (parent_pid_update (\<lambda>_. 0)) (pcbs s' c) = map_option (parent_pid_update (\<lambda>_. 0)) (pcbs s c))
    \<and> s' = s\<lparr>pcbs := pcbs s'\<rparr>"
proof -
  let ?g = "\<lambda>t. if parent_pid t = p then t\<lparr>parent_pid := 1\<rparr> else t"
  let ?m = "\<lambda>c. if c \<in> set (thread_all_list s) then map_option ?g (pcbs s c) else pcbs s c"
  let ?s = "s\<lparr>pcbs := ?m\<rparr>"
  have c: "x \<in> children q ?s \<longleftrightarrow> x \<in> set (thread_all_list s)
      \<and> (\<exists>t. pcbs s x = Some t \<and> (if parent_pid t = p then 1 else parent_pid t) = q)" for q x
  proof (cases "pcbs s x")
    case (Some t)
    then show ?thesis by (cases "parent_pid t = p") (simp_all add: children_def)
  qed (simp add: children_def)
  have "x \<in> children 1 ?s \<longleftrightarrow> x \<in> children 1 s \<or> x \<in> children p s" for x
    unfolding c unfolding children_def by (cases "pcbs s x") auto
  then have "children 1 ?s = children 1 s \<union> children p s" by blast
  moreover have "children q ?s = (if q = p then {} else children q s)" if "q \<noteq> 1" for q
  proof -
    have "x \<in> children q ?s \<longleftrightarrow> (q \<noteq> p \<and> x \<in> children q s)" for x
      unfolding c unfolding children_def using that by (cases "pcbs s x") auto
    then show ?thesis by auto
  qed
  moreover have "map_option (parent_pid_update (\<lambda>_. 0)) (?m x) = map_option (parent_pid_update (\<lambda>_. 0)) (pcbs s x)" for x
    by (cases "pcbs s x") auto
  ultimately show ?thesis using adopt_all [OF assms, of p] by (intro exI [of _ ?s]) simp
qed

theorem orphans_go_to_init_witness:
  "\<exists>s'. eachR (init_adopt_a_child 1) (thread_all_list small_tasks) small_tasks = Inr s' \<and> children 1 s' = {0xc0101000}"
proof -
  have "set (thread_all_list small_tasks) \<subseteq> dom (pcbs small_tasks)" by (simp add: small_tasks_def)
  moreover have "children 1 small_tasks = {0xc0101000}" by (auto simp: children_def small_tasks_def blank_task_def split: if_splits)
  ultimately show ?thesis using orphans_go_to_init [of small_tasks 1] by auto
qed

subsection \<open>A parent that waits\<close>

text \<open>Blocking changes the status of threads and their time slices, but not who they are and whose children.\<close>

definition kin :: "task_struct \<Rightarrow> pid_t \<times> pid_t" where
  "kin t = (pid t, parent_pid t)"

definition same_kin :: "'a kernel_scheme \<Rightarrow> 'a kernel_scheme \<Rightarrow> bool" where
  "same_kin s s' \<longleftrightarrow> (\<forall>q. map_option kin (pcbs s' q) = map_option kin (pcbs s q)) \<and> thread_all_list s' = thread_all_list s"

lemma same_kin_trans: "same_kin s s' \<Longrightarrow> same_kin s' s'' \<Longrightarrow> same_kin s s''"
  by (simp add: same_kin_def)

lemma same_kin_simps [simp]:
  "same_kin s s" "same_kin s (s\<lparr>thread_ready_list := r\<rparr>)" "same_kin (s\<lparr>thread_ready_list := r\<rparr>) s' = same_kin s s'"
  "same_kin (s\<lparr>eflags := e\<rparr>) s' = same_kin s s'" "same_kin s (s'\<lparr>eflags := e\<rparr>) = same_kin s s'"
  "same_kin s (s'\<lparr>esp := e\<rparr>) = same_kin s s'" "same_kin s (s'\<lparr>cr3 := e\<rparr>) = same_kin s s'"
  "same_kin s (s'\<lparr>tss_esp0 := e\<rparr>) = same_kin s s'"
  by (simp_all add: same_kin_def)

lemma upd_pcb_kin: "upd_pcb p f s = Inr s' \<Longrightarrow> (\<And>t. kin (f t) = kin t) \<Longrightarrow> same_kin s s'"
  by (auto simp: upd_pcb_def pcb_def same_kin_def split: option.splits)

lemma unblock_kin: "thread_unblock p s = Inr s' \<Longrightarrow> same_kin s s'"
  by (auto simp: thread_unblock_def Let_def split_beta bindR_eq_Inr ASSERT_eq_Inr kin_def split: if_splits dest!: upd_pcb_kin)

lemma dispatch_kin: "dispatch cur s = Inr s' \<Longrightarrow> same_kin s s'"
proof -
  assume "dispatch cur s = Inr s'"
  then obtain nxt r s1 s2 where s1: "upd_pcb nxt (\<lambda>t. t\<lparr>status := TASK_RUNNING\<rparr>) (s\<lparr>thread_ready_list := r\<rparr>) = Inr s1"
      and s2: "process_activate nxt s1 = Inr s2" and s': "switch_to cur nxt s2 = Inr s'"
    by (auto simp: dispatch_def bindR_eq_Inr)
  have "same_kin s s1" using upd_pcb_kin [OF s1] by (simp add: kin_def)
  moreover have "same_kin s1 s2"
    using s2 by (auto simp: process_activate_def page_dir_activate_def update_tss_esp_def bindR_eq_Inr ASSERT_eq_Inr split: if_splits)
  moreover have "same_kin s2 s'"
    using s' by (auto simp: switch_to_def bindR_eq_Inr kin_def dest!: upd_pcb_kin)
  ultimately show ?thesis by (blast intro: same_kin_trans)
qed

lemma schedule_kin: "schedule s = Inr s' \<Longrightarrow> same_kin s s'"
proof -
  assume "schedule s = Inr s'"
  then obtain c :: task_struct and s1 s2 where s1: "(if status c = TASK_RUNNING then
         ASSERT (running_thread s \<notin> set (thread_ready_list s))
           (bindR (kl_append (running_thread s) (thread_ready_list s)) (\<lambda>r.
            upd_pcb (running_thread s) (\<lambda>t. t\<lparr>ticks := priority t, status := TASK_READY\<rparr>) (s\<lparr>thread_ready_list := r\<rparr>)))
       else Inr s) = Inr s1"
      and s2: "(if thread_ready_list s1 = [] then thread_unblock (idle_thread s1) s1 else Inr s1) = Inr s2"
      and s': "dispatch (running_thread s) s2 = Inr s'"
    by (auto simp: schedule_def Let_def bindR_eq_Inr ASSERT_eq_Inr)
  have "same_kin s s1" using s1 by (auto simp: bindR_eq_Inr ASSERT_eq_Inr kin_def split: if_splits dest!: upd_pcb_kin)
  moreover have "same_kin s1 s2" using s2 by (auto split: if_splits dest: unblock_kin)
  ultimately show ?thesis using dispatch_kin [OF s'] by (blast intro: same_kin_trans)
qed

lemma block_kin: "thread_block stat s = Inr (st, s') \<Longrightarrow> same_kin s s'"
  by (auto simp: thread_block_def Let_def split_beta bindR_eq_Inr ASSERT_eq_Inr kin_def
      intro: same_kin_trans dest!: schedule_kin upd_pcb_kin)

text \<open>
  C17. A process that waits looks as if it had exited: \<^verbatim>\<open>wait\<close> puts a parent with a living child to sleep with the status
  that \<^verbatim>\<open>exit\<close> gives. If its own parent now calls \<^verbatim>\<open>wait\<close>, the search for a child that has exited finds it, and
  the grandparent takes a process that is still waiting for its child out of the system.
\<close>

theorem waiting_parent_looks_dead:
  assumes "sched_ok s" and "running_thread s \<noteq> idle_thread s" and "pcbs s (running_thread s) = Some me"
    and "thread_all_list s = xs @ running_thread s # ys" and "set (thread_all_list s) \<subseteq> dom (pcbs s)"
    and "children (pid me) s \<noteq> {}"
    and "\<forall>c\<in>children (pid me) s. map_option status (pcbs s c) \<noteq> Some TASK_HANGING"
    and "\<forall>c\<in>set xs. c \<notin> children (parent_pid me) s"
  shows "\<exists>s'. sys_wait s = Inr (Wait_Blocked (fst (intr_disable (eflags s))), s')
    \<and> find_task (find_hanging_child (parent_pid me)) (thread_all_list s') s' = Inr (Some (running_thread s))"
proof -
  let ?p = "running_thread s"
  have "wait_status TASK_HANGING" by (simp add: wait_status_def)
  from thread_block_sched [OF assms(1) this] obtain s' where b: "thread_block TASK_HANGING s = Inr (fst (intr_disable (eflags s)), s')"
      "run_order s' = (if thread_ready_list s = [] then [idle_thread s] else thread_ready_list s)"
      "running_thread s' \<noteq> ?p \<longrightarrow> map_option status (pcbs s' ?p) = Some TASK_HANGING" by metis
  note k = block_kin [OF b(1)]
  have np: "running_thread s' \<noteq> ?p"
  proof (cases "thread_ready_list s")
    case Nil
    then show ?thesis using b(2) assms(2) by (simp add: run_order_def)
  next
    case (Cons q qs)
    then have "running_thread s' = q" using b(2) by (simp add: run_order_def)
    moreover have "?p \<notin> set (thread_ready_list s)" using assms(1) by (simp add: sched_ok_def sched_inv_def)
    ultimately show ?thesis using Cons by auto
  qed
  have h: "find_task (find_hanging_child (pid me)) (thread_all_list s) s = Inr None"
    by (rule find_task_none) (use assms(5,7) in \<open>fastforce simp: children_def find_hanging_child_def\<close>)
  have "\<exists>c\<in>set (thread_all_list s). c \<in> children (pid me) s" using assms(6) by (auto simp: children_def)
  from split_list_first_prop [OF this] obtain as c bs where c: "thread_all_list s = as @ c # bs" "c \<in> children (pid me) s" "\<forall>a\<in>set as. a \<notin> children (pid me) s"
    by blast
  have f: "find_task (find_child (pid me)) (thread_all_list s) s = Inr (Some c)"
  proof -
    have "\<forall>a\<in>set as. \<exists>t. pcbs s a = Some t \<and> \<not> find_child (pid me) t"
      using c(1,3) assms(5) by (fastforce simp: children_def find_child_def)
    moreover obtain t where "pcbs s c = Some t" "find_child (pid me) t" using c(2) by (auto simp: children_def find_child_def)
    ultimately show ?thesis unfolding c(1) by (rule find_task_first)
  qed
  have w: "sys_wait s = Inr (Wait_Blocked (fst (intr_disable (eflags s))), s')"
    using assms(3) h f b(1) by (simp add: sys_wait_def)
  obtain me' where me: "pcbs s' ?p = Some me'" "status me' = TASK_HANGING" "parent_pid me' = parent_pid me"
    using b(3) np k assms(3) by (auto simp: same_kin_def kin_def dest!: spec [of _ ?p])
  have "find_task (find_hanging_child (parent_pid me)) (thread_all_list s') s' = Inr (Some ?p)"
  proof -
    have "\<exists>t. pcbs s' x = Some t \<and> \<not> find_hanging_child (parent_pid me) t" if x: "x \<in> set xs" for x
    proof -
      obtain t where t: "pcbs s x = Some t" using x assms(4,5) by auto
      then have "parent_pid t \<noteq> parent_pid me" using x assms(4,8) by (auto simp: children_def)
      then show ?thesis using k t by (auto simp: same_kin_def kin_def find_hanging_child_def dest!: spec [of _ x])
    qed
    moreover have "thread_all_list s' = xs @ ?p # ys" using k assms(4) by (simp add: same_kin_def)
    moreover have "find_hanging_child (parent_pid me) me'" using me by (simp add: find_hanging_child_def)
    ultimately show ?thesis using find_task_first [of xs s' _ ?p me' ys] me(1) by simp
  qed
  then show ?thesis using w by blast
qed

text \<open>Process 1 runs, a child of process 3; its own child, process 2, is ready.\<close>

definition small_family :: tasks where
  "small_family = small_tasks\<lparr>esp := 0x9ff00,
     pcbs := [0x9f000 \<mapsto> blank_task\<lparr>status := TASK_RUNNING, parent_pid := 3\<rparr>,
              0x8000 \<mapsto> blank_task\<lparr>self_kstack := 0x8e50, status := TASK_READY, pid := 2, parent_pid := 1\<rparr>,
              0x7000 \<mapsto> blank_task\<lparr>self_kstack := 0x7e50, pid := 4\<rparr>],
     thread_ready_list := [0x8000], thread_all_list := [0x9f000, 0x8000, 0x7000], idle_thread := 0x7000\<rparr>"

lemma small_family_ok: "running_thread small_family = 0x9f000" "sched_ok small_family"
proof -
  show r: "running_thread small_family = 0x9f000" by (simp add: running_thread_def small_family_def)
  have "proc_dirs (pcbs small_family) = {}"
    by (auto simp: proc_dirs_def small_family_def blank_task_def split: if_splits)
  then have "spaces_ok small_family"
    by (auto simp: spaces_ok_def small_family_def small_tasks_def intro: exI [of _ "{0x100000}"])
  moreover have "thread_ok small_family p t" if "pcbs small_family p = Some t" for p t
    using that r by (auto simp: thread_ok_def small_family_def blank_task_def frame_of_def split: if_splits)
  ultimately show "sched_ok small_family"
    using r by (auto simp: sched_ok_def sched_inv_def cur_status_def) (simp_all add: small_family_def blank_task_def)
qed

lemma small_family_tree: "children 1 small_family = {0x8000}" "map_option status (pcbs small_family 0x8000) = Some TASK_READY"
  by (auto simp: children_def small_family_def blank_task_def split: if_splits)

theorem waiting_parent_looks_dead_witness:
  "\<exists>s'. sys_wait small_family = Inr (Wait_Blocked INTR_OFF, s')
    \<and> find_task (find_hanging_child 3) (thread_all_list s') s' = Inr (Some 0x9f000)"
proof -
  let ?me = "blank_task\<lparr>status := TASK_RUNNING, parent_pid := 3\<rparr>"
  have i: "running_thread small_family \<noteq> idle_thread small_family" by (simp add: small_family_ok(1)) (simp add: small_family_def)
  have p: "pcbs small_family (running_thread small_family) = Some ?me" by (simp add: small_family_ok(1)) (simp add: small_family_def)
  have l: "thread_all_list small_family = [] @ running_thread small_family # [0x8000, 0x7000]"
    by (simp add: small_family_ok(1)) (simp add: small_family_def)
  have d: "set (thread_all_list small_family) \<subseteq> dom (pcbs small_family)" by (simp add: small_family_def)
  have m: "pid ?me = 1" "parent_pid ?me = 3" by (simp_all add: blank_task_def)
  have e: "fst (intr_disable (eflags small_family)) = INTR_OFF"
    by (simp add: small_family_def small_tasks_def intr_disable_def intr_get_status_def EFLAGS_IF_def)
  show ?thesis
    using waiting_parent_looks_dead [OF small_family_ok(2) i p l d] small_family_tree small_family_ok(1) m e by simp
qed

subsection \<open>Frames that are given back twice\<close>

lemma pte_slot: "pte_ptr (of_nat (unat (PDE_IDX v)) * 0x400000) + 4 * of_nat (unat (PTE_IDX v)) = pte_ptr v"
proof (rule unsigned_word_eqI)
  define u :: u32 where "u = of_nat (unat (PDE_IDX v)) * 0x400000"
  have d: "unat (PDE_IDX v) < 1024" "unat (PTE_IDX v) < 1024" by (rule idx_less)+
  have u: "unat u = unat (PDE_IDX v) * 4194304" using d(1) by (simp add: u_def unat_word_ariths)
  have i: "unat (PDE_IDX u) = unat (PDE_IDX v)" "unat (PTE_IDX u) = 0"
    unfolding unat_parts(1,2) [of u] u by simp_all
  have t: "4 * of_nat (unat (PTE_IDX v)) = PTE_IDX v * 4" by simp
  show "unat (pte_ptr (of_nat (unat (PDE_IDX v)) * 0x400000) + 4 * of_nat (unat (PTE_IDX v))) = unat (pte_ptr v)"
    unfolding u_def [symmetric] t using d by (subst unat_add_small) (simp_all add: unat_pte_ptr i)
qed

text \<open>
  C18. A page that a process has given back is given back again when it exits: \<^verbatim>\<open>page_table_pte_remove\<close> only clears the
  present bit, and \<^verbatim>\<open>exit\<close> tests the entry for any bit. So the frame is freed although the page is not mapped any
  more, whoever has it now.
\<close>

theorem exit_frees_again:
  assumes "own_table (pmem s) (cr3 s) v" and "frame_of v = v" and "vtrans (pmem s) (cr3 s) v = Some (frame_addr PF_USER s i)"
    and "pools_ok s" and "i < pool_frames PF_USER s"
  shows "\<exists>s1 s2. page_table_pte_remove v s = Inr s1 \<and> vtrans (pmem s1) (cr3 s1) v = None
    \<and> used_frames PF_USER s1 = used_frames PF_USER s
    \<and> release_pte (pte_ptr (of_nat (unat (PDE_IDX v)) * 0x400000)) (unat (PTE_IDX v)) s1 = Inr s2
    \<and> used_frames PF_USER s2 = used_frames PF_USER s1 - {i}"
proof -
  let ?a = "pte_addr (pmem s) (cr3 s) v"
  let ?e = "pmem s ?a AND NOT PG_P_1"
  let ?s1 = "s\<lparr>pmem := (pmem s)(?a := ?e)\<rparr>"
  have sm: "self_map (pmem s) (cr3 s)" and pr: "present (dir_entry_at (pmem s) (cr3 s) v)"
    using assms(1) by (auto simp: own_table_def)
  have rm: "page_table_pte_remove v s = Inr ?s1"
    using pr by (simp add: page_table_pte_remove_def vread_pte [OF sm] vwrite_def vtrans_pte_ptr [OF sm])
  then have un: "vtrans (pmem ?s1) (cr3 ?s1) v = None" using page_table_pte_remove_unmaps [OF assms(1)] by auto
  have "off_of v = 0" using frame_off [of v] assms(2) by simp
  then have fr: "frame_of (pmem s ?a) = frame_addr PF_USER s i" using assms(3) by (simp add: vtrans_eq split: if_splits)
  have fe: "?e AND 0xfffff000 = frame_addr PF_USER s i"
    unfolding fr [symmetric] frame_of_def by (rule bit_eqI) (auto simp: and_mask_div(4) PG_P_1_def bit_simps)
  have nz: "?e \<noteq> 0" using fe frame_addr_pos(1) [OF assms(4,5)] by auto
  have rd: "vread (pte_ptr v) ?s1 = Inr ?e"
    using vread_pte [of ?s1 v] vtrans_upd_pte(2,3) [OF assms(1), of ?e] pr by (simp add: pte_addr_def)
  have ok1: "pools_ok ?s1" "i < pool_frames PF_USER ?s1" "frame_addr PF_USER ?s1 i = frame_addr PF_USER s i"
    using assms(4,5) by (simp_all add: pools_ok_def pool_frames_def frame_addr_def)
  obtain b where b: "pfree (frame_addr PF_USER s i) ?s1 = Inr (set_pool PF_USER ((the_pool PF_USER ?s1)\<lparr>pool_bitmap := b\<rparr>) ?s1)"
      "bitmap_ok b" "bit_cnt b = pool_frames PF_USER ?s1" "used_bits b = used_frames PF_USER ?s1 - {i}"
    using pfree_frame [OF ok1(1,2)] unfolding ok1(3) by blast
  let ?s2 = "set_pool PF_USER ((the_pool PF_USER ?s1)\<lparr>pool_bitmap := b\<rparr>) ?s1"
  have "release_pte (pte_ptr (of_nat (unat (PDE_IDX v)) * 0x400000)) (unat (PTE_IDX v)) ?s1 = Inr ?s2"
    unfolding release_pte_def pte_slot using rd nz fe b(1) by (simp add: free_a_phy_page_def)
  moreover have "used_frames PF_USER ?s2 = used_frames PF_USER ?s1 - {i}"
    using pool_swap_ok(3) [OF ok1(1) b(2,3), of PF_USER] b(4) by simp
  ultimately show ?thesis using rm un by (intro exI [of _ ?s1] exI [of _ ?s2]) (simp add: used_frames_def)
qed

text \<open>The page 0xc0103000 holds the first frame of the user pool.\<close>

definition small_user_page :: tasks where
  "small_user_page = small_tasks\<lparr>pmem := (pmem small_tasks)(0x10140c := 0x208007),
     user_pool := (user_pool small_tasks)\<lparr>pool_bitmap := \<lparr>btmp_bytes_len = 1, bits = [1]\<rparr>\<rparr>\<rparr>"

lemma small_user_dir: "dir_entry_at (pmem small_user_page) 0x100000 w = dir_entry_at (pmem small_tasks) 0x100000 w"
proof -
  have f: "frame_of 0x100000 = 0x100000" by (simp add: frame_of_def)
  have "unat (0x100000 + PDE_IDX w * 4) = 0x100000 + unat (PDE_IDX w) * 4"
    using unat_frame_plus [OF entry_off(1), of "0x100000" w] f by simp
  then have "0x100000 + PDE_IDX w * 4 \<noteq> 0x10140c" using idx_less(1) [of w] by (auto simp: word_unat_eq_iff)
  then show ?thesis by (simp add: dir_entry_at_def small_user_page_def f)
qed

theorem exit_frees_again_witness:
  "\<exists>s1 s2. page_table_pte_remove 0xc0103000 small_user_page = Inr s1
    \<and> vtrans (pmem s1) (cr3 s1) 0xc0103000 = None \<and> used_frames PF_USER s1 = {0}
    \<and> release_pte (pte_ptr 0xc0000000) 259 s1 = Inr s2 \<and> used_frames PF_USER s2 = {}"
proof -
  let ?s = small_user_page
  have c: "cr3 ?s = 0x100000" by (simp add: small_user_page_def small_tasks_def)
  have i: "PDE_IDX 0xc0103000 = 768" "PTE_IDX 0xc0103000 = 259" by (simp_all add: PDE_IDX_def PTE_IDX_def drop_bit_eq_div)
  have "self_map (pmem ?s) 0x100000"
    by (simp add: self_map_def small_user_page_def small_tasks_def frame_of_def present_def)
  then have own: "own_table (pmem ?s) (cr3 ?s) 0xc0103000"
    unfolding own_table_def c small_user_dir small_tasks_dir i(1) by (simp add: frame_of_def present_def)
  have f: "frame_of 0xc0103000 = 0xc0103000" by (simp add: frame_of_def)
  have "vtrans (pmem ?s) (cr3 ?s) 0xc0103000 = Some 0x208000" by code_simp
  moreover have fa: "frame_addr PF_USER ?s 0 = 0x208000" "0 < pool_frames PF_USER ?s"
    by (simp_all add: frame_addr_def pool_frames_def bit_cnt_def small_user_page_def small_tasks_def)
  ultimately have v: "vtrans (pmem ?s) (cr3 ?s) 0xc0103000 = Some (frame_addr PF_USER ?s 0)" by simp
  have ok: "pools_ok ?s"
    by (simp add: pools_ok_def pool_frames_def bit_cnt_def bitmap_ok_def small_user_page_def small_tasks_def frame_of_def)
  have "used_bits (pool_bitmap (user_pool ?s)) = {0}"
    by (auto simp: used_bits_def bit_at_def bit_cnt_def small_user_page_def bit_1_iff)
  then have u: "used_frames PF_USER ?s = {0}" by (simp add: used_frames_def)
  show ?thesis using exit_frees_again [OF own f v ok fa(2)] by (auto simp: i u)
qed

end
