(* ===== verification/Reap.thy ===== *)
theory Reap
  imports Wait
begin

section \<open>The exit of a child and the wait of its parent\<close>

text \<open>How \<^verbatim>\<open>exit\<close>, the scheduler and \<^verbatim>\<open>wait\<close> work together when the parent waits already.\<close>

text \<open>The parent \<open>p\<close> sleeps in \<^verbatim>\<open>wait\<close>, and its child \<open>c\<close> runs, at the end of \<^verbatim>\<open>exit\<close>. No other thread has the identifier of the
  parent, and no other child of it has exited.\<close>

definition waiting_family :: "'a kernel_scheme \<Rightarrow> u32 \<Rightarrow> task_struct \<Rightarrow> u32 \<Rightarrow> task_struct \<Rightarrow> bool" where
  "waiting_family s c t p pt \<longleftrightarrow> running_thread s = c \<and> pcbs s c = Some t \<and> pcbs s p = Some pt \<and> c \<noteq> p \<and> p \<noteq> 0
     \<and> status pt = TASK_HANGING \<and> parent_pid t = pid pt \<and> frame_of (self_kstack pt) = p
     \<and> c \<notin> set (thread_ready_list s) \<and> p \<notin> set (thread_ready_list s) \<and> c \<noteq> main_thread s
     \<and> c \<in> set (thread_all_list s) \<and> p \<in> set (thread_all_list s) \<and> distinct (thread_all_list s)
     \<and> set (thread_all_list s) \<subseteq> dom (pcbs s)
     \<and> (\<forall>x\<in>set (thread_all_list s). \<forall>u. pcbs s x = Some u \<longrightarrow> x \<noteq> p \<longrightarrow> pid u \<noteq> pid pt)
     \<and> (\<forall>x\<in>set (thread_all_list s). \<forall>u. pcbs s x = Some u \<longrightarrow> x \<noteq> c \<longrightarrow> \<not> find_hanging_child (pid pt) u)"

text \<open>The page directory of the parent, as \<^verbatim>\<open>page_dir_activate\<close> loads it.\<close>

definition dir_of :: "task_struct \<Rightarrow> 'a kernel_scheme \<Rightarrow> u32 res" where
  "dir_of t s = (if pgdir t \<noteq> 0 then addr_v2p (pgdir t) s else Inr 0x100000)"

lemma scast_pid_inj: "scast (x :: pid_t) = (scast y :: u32) \<longleftrightarrow> x = y"
proof
  assume "scast x = (scast y :: u32)"
  then have "sint (scast x :: u32) = sint (scast y :: u32)" by simp
  then have "sint x = sint y" by (simp add: sint_up_scast is_up)
  then show "x = y" by (rule signed_word_eqI)
qed simp

lemma find_task_split:
  assumes "c \<in> set l" and "pcbs s c = Some t" and "P t" and "set l \<subseteq> dom (pcbs s)"
    and "\<forall>x\<in>set l. \<forall>u. pcbs s x = Some u \<longrightarrow> x \<noteq> c \<longrightarrow> \<not> P u"
  obtains xs ys where "l = xs @ c # ys" and "\<forall>x\<in>set xs. \<exists>u. pcbs s x = Some u \<and> \<not> P u"
    and "find_task P l s = Inr (Some c)"
proof -
  obtain xs ys where l: "l = xs @ c # ys" "c \<notin> set xs" using split_list_first [OF assms(1)] by blast
  have n: "\<forall>x\<in>set xs. \<exists>u. pcbs s x = Some u \<and> \<not> P u"
  proof
    fix x assume x: "x \<in> set xs"
    then obtain u where u: "pcbs s x = Some u" using assms(4) l(1) by auto
    moreover have "x \<noteq> c" using x l(2) by auto
    ultimately show "\<exists>u. pcbs s x = Some u \<and> \<not> P u" using assms(5) x l(1) by auto
  qed
  show thesis by (rule that [OF l(1) n]) (simp add: l(1) find_task_first [OF n assms(2,3)])
qed

lemma exit_end_run:
  assumes f: "waiting_family s c t p pt" and d: "dir_of pt s = Inr d"
  obtains e where "exit_end c s = Inr (fst (intr_disable (eflags s)), s\<lparr>eflags := snd (intr_disable (eflags s)),
      pcbs := (pcbs s)(p \<mapsto> pt\<lparr>status := TASK_RUNNING\<rparr>, c \<mapsto> t\<lparr>status := TASK_HANGING, self_kstack := esp s\<rparr>),
      cr3 := d, tss_esp0 := e, esp := self_kstack pt\<rparr>)"
proof -
  have w: "running_thread s = c" "pcbs s c = Some t" "pcbs s p = Some pt" "c \<noteq> p" "p \<noteq> 0" "status pt = TASK_HANGING"
      "parent_pid t = pid pt" "c \<notin> set (thread_ready_list s)" "p \<notin> set (thread_ready_list s)" "p \<in> set (thread_all_list s)"
      "set (thread_all_list s) \<subseteq> dom (pcbs s)"
      "\<forall>x\<in>set (thread_all_list s). \<forall>u. pcbs s x = Some u \<longrightarrow> x \<noteq> p \<longrightarrow> pid u \<noteq> pid pt"
    using f by (auto simp: waiting_family_def)
  have "pid2thread (scast (parent_pid t)) s = Inr (Some p)"
    unfolding pid2thread_def
    by (rule find_task_split [OF w(10,3) _ w(11), of "pid_check (scast (parent_pid t))"]) (use w(7,12) in \<open>auto simp: pid_check_def scast_pid_inj\<close>)
  note par = this
  let ?s1 = "s\<lparr>thread_ready_list := p # thread_ready_list s, pcbs := (pcbs s)(p \<mapsto> pt\<lparr>status := TASK_READY\<rparr>)\<rparr>"
  let ?off = "snd (intr_disable (eflags s))"
  have u: "thread_unblock p s = Inr ?s1"
    using w(3,6,9) by (intro thread_unblock_ok) (simp_all add: wait_status_def)
  let ?t = "t\<lparr>status := TASK_HANGING\<rparr>"
  let ?s2 = "s\<lparr>thread_ready_list := p # thread_ready_list s, eflags := ?off, pcbs := (pcbs s)(p \<mapsto> pt\<lparr>status := TASK_READY\<rparr>, c \<mapsto> ?t)\<rparr>"
  let ?s3 = "s\<lparr>eflags := ?off, pcbs := (pcbs s)(p \<mapsto> pt\<lparr>status := TASK_RUNNING\<rparr>, c \<mapsto> ?t)\<rparr>"
  define e where "e = (if pgdir pt \<noteq> 0 then p + PAGE_SIZE else tss_esp0 s)"
  let ?s4 = "?s3\<lparr>cr3 := d, tss_esp0 := e\<rparr>"
  let ?s5 = "?s4\<lparr>pcbs := (pcbs ?s3)(c \<mapsto> ?t\<lparr>self_kstack := esp s\<rparr>), esp := self_kstack pt\<rparr>"
  have "addr_v2p (pgdir pt) ?s3 = addr_v2p (pgdir pt) s" by (rule addr_v2p_cong) simp_all
  then have act: "process_activate p ?s3 = Inr ?s4"
    using d w(4,5) by (cases "pgdir pt = 0") (simp_all add: process_activate_def page_dir_activate_def dir_of_def update_tss_esp_def e_def)
  have off: "intr_get_status ?off = INTR_OFF" by simp
  have "dispatch c ?s2 = Inr ?s5"
    using act w(4) by (simp add: dispatch_def switch_to_def fun_upd_twist)
  then have "schedule ?s2 = Inr ?s5"
    using w(1) off by (simp add: schedule_def Let_def)
  then have "thread_block TASK_HANGING ?s1 = Inr (fst (intr_disable (eflags s)), ?s5)"
    using w(1,2,4) by (simp add: thread_block_def wait_status_def split_beta Let_def)
  then have "exit_end c s = Inr (fst (intr_disable (eflags s)), ?s5)"
    using par u w(2,3,6) by (simp add: exit_end_def)
  then show thesis using that [of e] w(4) by (simp add: fun_upd_twist)
qed

text \<open>
  C6. A child comes to the end of \<^verbatim>\<open>exit\<close> while its parent sleeps in \<^verbatim>\<open>wait\<close>: \<^verbatim>\<open>exit\<close> wakes the parent and switches to it at
  once, ahead of all ready threads. The parent goes on with its loop, and its \<^verbatim>\<open>wait\<close> returns the identifier
  and the exit status of this child. The PCB of the child is gone from memory and from the lists and its identifier is free; the
  frames of the kernel's pool that come back are those of its PCB and of its page directory and no others, and no frame of
  the users' pool comes back (its program's pages are the matter of \<^verbatim>\<open>release_prog_resource\<close>, earlier in \<^verbatim>\<open>exit\<close>).
  It is assumed that the processor keeps the translation of the PCB's page in its TLB, because \<^verbatim>\<open>thread_exit\<close> reads the
  identifier from that page after giving it back.
\<close>

theorem exit_is_reaped:
  assumes f: "waiting_family s c t p pt" and d: "dir_of pt s = Inr d" and inv: "pids_ok s" "pages_inv s"
    and pg: "kernel_page (s\<lparr>cr3 := d\<rparr>) (pgdir t) i" "kernel_page (s\<lparr>cr3 := d\<rparr>) c j"
    and t: "pgdir t \<noteq> 0" "pgdir t \<noteq> c" "pid t \<in> live_pids s" and tlb: "tlb_keeps s c"
  shows "\<exists>st s1 s2. exit_end c s = Inr (st, s1) \<and> running_thread s1 = p \<and> thread_ready_list s1 = thread_ready_list s
    \<and> sys_wait (block_return st' s1) = Inr (Waited (pid t) (scast (exit_status t)), s2)
    \<and> pcbs s2 c = None \<and> c \<notin> set (thread_all_list s2) \<and> live_pids s2 = live_pids s - {pid t}
    \<and> used_frames PF_KERNEL s2 = used_frames PF_KERNEL s - {i, j} \<and> used_frames PF_USER s2 = used_frames PF_USER s"
proof -
  have w: "pcbs s c = Some t" "pcbs s p = Some pt" "c \<noteq> p" "p \<noteq> 0" "parent_pid t = pid pt" "frame_of (self_kstack pt) = p"
      "c \<notin> set (thread_ready_list s)" "c \<noteq> main_thread s" "c \<in> set (thread_all_list s)" "distinct (thread_all_list s)"
      "set (thread_all_list s) \<subseteq> dom (pcbs s)"
      "\<forall>x\<in>set (thread_all_list s). \<forall>u. pcbs s x = Some u \<longrightarrow> x \<noteq> c \<longrightarrow> \<not> find_hanging_child (pid pt) u"
    using f by (auto simp: waiting_family_def)
  let ?t = "t\<lparr>status := TASK_HANGING, self_kstack := esp s\<rparr>" and ?pt = "pt\<lparr>status := TASK_RUNNING\<rparr>"
  obtain e where x: "exit_end c s = Inr (fst (intr_disable (eflags s)), s\<lparr>eflags := snd (intr_disable (eflags s)),
      pcbs := (pcbs s)(p \<mapsto> ?pt, c \<mapsto> ?t), cr3 := d, tss_esp0 := e, esp := self_kstack pt\<rparr>)"
    by (rule exit_end_run [OF f d])
  let ?s1 = "s\<lparr>eflags := snd (intr_disable (eflags s)), pcbs := (pcbs s)(p \<mapsto> ?pt, c \<mapsto> ?t), cr3 := d, tss_esp0 := e,
    esp := self_kstack pt\<rparr>"
  let ?s = "block_return st' ?s1"
  have r: "running_thread ?s1 = p" "running_thread ?s = p"
    using w(6) by (simp_all add: running_thread_def frame_of_def block_return_def)
  have g: "pcbs ?s = (pcbs s)(p \<mapsto> ?pt, c \<mapsto> ?t)" "thread_all_list ?s = thread_all_list s" "thread_ready_list ?s = thread_ready_list s"
      "main_thread ?s = main_thread s" "pid_bitmap ?s = pid_bitmap s" "pid_lock ?s = pid_lock s"
      "kernel_pool ?s = kernel_pool s" "user_pool ?s = user_pool s" "kernel_vaddr ?s = kernel_vaddr s" "pmem ?s = pmem s" "cr3 ?s = d" "tlb_keeps ?s = tlb_keeps s"
    by (simp_all add: block_return_def)
  have ok: "pids_ok ?s" "pages_inv ?s" using inv w(4) r g by (simp_all add: pids_ok_def pages_inv_def pools_ok_def pool_frames_def)
  have k: "kernel_page ?s v n = kernel_page (s\<lparr>cr3 := d\<rparr>) v n" for v n by (rule kernel_page_cong) (simp_all add: g)
  have live: "live_pids ?s = live_pids s" using g(5) by (simp add: live_pids_def)
  have dead: "dead_child ?s c ?t i j" unfolding dead_child_def k live g using w pg t tlb by simp
  have h: "find_hanging_child (pid ?pt) ?t" using w(5) by (simp add: find_hanging_child_def)
  have "\<forall>x\<in>set (thread_all_list ?s). \<forall>u. pcbs ?s x = Some u \<longrightarrow> x \<noteq> c \<longrightarrow> \<not> find_hanging_child (pid ?pt) u"
    using w(12) unfolding g by (auto simp: find_hanging_child_def)
  moreover have "c \<in> set (thread_all_list ?s)" "set (thread_all_list ?s) \<subseteq> dom (pcbs ?s)" "pcbs ?s c = Some ?t"
    using w(9,11) unfolding g by auto
  ultimately obtain xs ys where l: "thread_all_list ?s = xs @ c # ys"
      "\<forall>x\<in>set xs. \<exists>u. pcbs ?s x = Some u \<and> \<not> find_hanging_child (pid ?pt) u"
    using find_task_split [of c "thread_all_list ?s" ?s ?t "find_hanging_child (pid ?pt)"] h by metis
  have me: "pcbs ?s (running_thread ?s) = Some ?pt" unfolding r(2) g using w(3) by simp
  have "distinct (thread_all_list ?s)" unfolding g by (rule w(10))
  from wait_reaps [OF ok me l(1) this l(2) dead h] obtain s2 where s2:
      "sys_wait ?s = Inr (Waited (pid ?t) (scast (exit_status ?t)), s2)" "thread_all_list s2 = xs @ ys"
      "pcbs s2 = (pcbs ?s)(c := None)" "live_pids s2 = live_pids ?s - {pid ?t}"
      "used_frames PF_KERNEL s2 = used_frames PF_KERNEL ?s - {i, j}" "used_frames PF_USER s2 = used_frames PF_USER ?s" by blast
  have "c \<notin> set xs \<union> set ys" using l(1) w(10) g(2) by auto
  then show ?thesis
    using x r(1) s2 live g by (intro exI [of _ "fst (intr_disable (eflags s))"] exI [of _ ?s1] exI [of _ s2])
      (simp add: used_frames_def)
qed

definition small_family :: tasks where
  "small_family = small_tasks\<lparr>esp := 0xc0101f00, pcbs := [
     0xc0100000 \<mapsto> blank_task\<lparr>status := TASK_HANGING, pid := 1, self_kstack := 0xc0100f00\<rparr>,
     0xc0101000 \<mapsto> blank_task\<lparr>status := TASK_RUNNING, pid := 2, parent_pid := 1, exit_status := 7, pgdir := 0xc0102000\<rparr>]\<rparr>"

theorem exit_is_reaped_witness:
  "\<exists>st s1 s2. exit_end 0xc0101000 small_family = Inr (st, s1) \<and> running_thread s1 = 0xc0100000
    \<and> sys_wait (block_return INTR_ON s1) = Inr (Waited 2 7, s2) \<and> pcbs s2 0xc0101000 = None \<and> live_pids s2 = {1}"
proof -
  let ?s = small_family
  let ?t = "blank_task\<lparr>status := TASK_RUNNING, pid := 2, parent_pid := 1, exit_status := 7, pgdir := 0xc0102000\<rparr>"
  let ?pt = "blank_task\<lparr>status := TASK_HANGING, pid := 1, self_kstack := 0xc0100f00\<rparr>"
  have r: "running_thread ?s = 0xc0101000" by (simp add: running_thread_def small_family_def)
  have f: "waiting_family ?s 0xc0101000 ?t 0xc0100000 ?pt"
    unfolding waiting_family_def r by (simp add: small_family_def small_tasks_def frame_of_def find_hanging_child_def blank_task_def)
  have d: "dir_of ?pt ?s = Inr 0x100000" by (simp add: dir_of_def blank_task_def)
  have ok: "pids_ok ?s" using small_tasks_pids(1) r by (simp add: pids_ok_def small_family_def)
  have inv: "pages_inv ?s"
    using small_tasks_kernel_pages(3) by (simp add: pages_inv_def pools_ok_def pool_frames_def small_family_def)
  have k: "kernel_page (?s\<lparr>cr3 := 0x100000\<rparr>) v n = kernel_page small_tasks v n" for v n
    by (rule kernel_page_cong) (simp_all add: small_family_def small_tasks_def)
  have pg: "kernel_page (?s\<lparr>cr3 := 0x100000\<rparr>) (pgdir ?t) 2" "kernel_page (?s\<lparr>cr3 := 0x100000\<rparr>) 0xc0101000 1"
    unfolding k using small_tasks_kernel_pages(1,2) by simp_all
  have live: "live_pids ?s = {1, 2}" using small_tasks_pids(3) by (simp add: live_pids_def small_family_def)
  have t: "pgdir ?t \<noteq> 0" "pgdir ?t \<noteq> 0xc0101000" "pid ?t \<in> live_pids ?s" by (simp_all add: live)
  have tlb: "tlb_keeps ?s 0xc0101000" by (simp add: small_family_def small_tasks_def)
  show ?thesis
    using exit_is_reaped [OF f d ok inv pg t tlb, of INTR_ON] by (auto simp: live)
qed

end
