(* ===== verification/Birth.thy ===== *)
theory Birth
  imports Stacks Wait Heap_Safe
begin

section \<open>The birth of a thread\<close>

text \<open>
  \<^verbatim>\<open>get_kernel_pages\<close> and \<^verbatim>\<open>thread_start\<close> (\<^verbatim>\<open>thread/thread.c\<close>) succeed when there is room: a free frame in the
  pool of the kernel, a free page in its addresses and a free identifier.
\<close>

subsection \<open>A page of the kernel\<close>

text \<open>The virtual address with the number \<open>i\<close> in the map of the kernel's pages.\<close>

definition kaddr :: "'a kmem_scheme \<Rightarrow> nat \<Rightarrow> u32" where
  "kaddr s i = vaddr_start (kernel_vaddr s) + of_nat i * PAGE_SIZE"

definition free_kaddrs :: "'a kmem_scheme \<Rightarrow> u32 set" where
  "free_kaddrs s = kaddr s ` ({..<bit_cnt (vaddr_bitmap (kernel_vaddr s))} - used_bits (vaddr_bitmap (kernel_vaddr s)))"

text \<open>The pages that are free have their tables and are not mapped, and a free frame is no table of any address.\<close>

definition kernel_room :: "'a kmem_scheme \<Rightarrow> bool" where
  "kernel_room s \<longleftrightarrow> pages_inv s \<and> va_ok (kernel_vaddr s) \<and> pool_lock (kernel_pool s) = lock_init \<and> running_thread s \<noteq> 0
     \<and> used_frames PF_KERNEL s \<noteq> {..<pool_frames PF_KERNEL s} \<and> free_kaddrs s \<noteq> {}
     \<and> (\<forall>v\<in>free_kaddrs s. own_table (pmem s) (cr3 s) v \<and> vtrans (pmem s) (cr3 s) v = None)
     \<and> (\<forall>j<pool_frames PF_KERNEL s. j \<notin> used_frames PF_KERNEL s \<longrightarrow> (\<forall>w. frame_addr PF_KERNEL s j \<notin> tables (pmem s) (cr3 s) w))"

lemma vtrans_other_frame:
  assumes "\<forall>x. frame_of x \<noteq> f \<longrightarrow> pm' x = pm x" and "f \<notin> tables pm pd w"
  shows "vtrans pm' pd w = vtrans pm pd w" "dir_entry_at pm' pd w = dir_entry_at pm pd w"
proof -
  have "frame_of (frame_of pd + PDE_IDX w * 4) \<noteq> f" using assms(2) frame_plus_entry(1) [of pd w] by (auto simp: tables_def)
  then show d: "dir_entry_at pm' pd w = dir_entry_at pm pd w" using assms(1) by (simp add: dir_entry_at_def)
  have "frame_of (pte_addr pm pd w) \<noteq> f" using assms(2) frame_plus_entry(3) [of "dir_entry_at pm pd w" w] by (auto simp: tables_def pte_addr_def)
  moreover have "pte_addr pm' pd w = pte_addr pm pd w" by (simp add: pte_addr_def d)
  ultimately show "vtrans pm' pd w = vtrans pm pd w" using assms(1) d by (simp add: vtrans_eq)
qed

lemma vaddr_get_free:
  assumes "va_ok (kernel_vaddr s)" and "bitmap_ok (vaddr_bitmap (kernel_vaddr s))" and "free_kaddrs s \<noteq> {}"
  obtains v b where "vaddr_get PF_KERNEL 1 s = Inr (v, s\<lparr>kernel_vaddr := (kernel_vaddr s)\<lparr>vaddr_bitmap := b\<rparr>\<rparr>)"
    and "v \<in> free_kaddrs s" and "v \<noteq> 0" and "frame_of v = v" and "bitmap_ok b"
    and "bit_cnt b = bit_cnt (vaddr_bitmap (kernel_vaddr s))"
    and "free_kaddrs (s\<lparr>kernel_vaddr := (kernel_vaddr s)\<lparr>vaddr_bitmap := b\<rparr>\<rparr>) = free_kaddrs s - {v}"
proof -
  let ?va = "kernel_vaddr s" and ?B = "vaddr_bitmap (kernel_vaddr s)"
  have "used_bits ?B \<noteq> {..<bit_cnt ?B}" using assms(3) by (auto simp: free_kaddrs_def)
  from bitmap_take [OF assms(2) this] obtain i b where i: "bitmap_scan ?B 1 = Inr i" "unat i < bit_cnt ?B" "unat i < 2 ^ 31"
      "unat i \<notin> used_bits ?B" "bitmap_set ?B i 1 = Inr b" "bitmap_ok b" "bit_cnt b = bit_cnt ?B"
      "used_bits b = insert (unat i) (used_bits ?B)" by metis
  have m1: "i \<noteq> -1" using i(3) by (auto simp: unat_m1)
  let ?v = "vaddr_start ?va + i * PAGE_SIZE"
  note pg = va_page [OF assms(1) i(2)]
  have k: "kaddr s (unat i) = ?v" by (simp add: kaddr_def)
  have inj: "kaddr s j = ?v \<longleftrightarrow> j = unat i" if "j < bit_cnt ?B" for j
  proof -
    have "bit_cnt ?B < 2 ^ 32" using assms(2) by (simp add: bitmap_ok_def)
    then have u: "unat (of_nat j :: u32) = j" using that by (simp add: unat_of_nat take_bit_nat_eq_self)
    then have "unat (kaddr s j) = unat (vaddr_start ?va) + 4096 * j"
      using va_page(1) [OF assms(1), of "of_nat j"] that by (simp add: kaddr_def)
    then show ?thesis using pg(1) k by auto
  qed
  have "vaddr_get PF_KERNEL 1 s = Inr (?v, s\<lparr>kernel_vaddr := ?va\<lparr>vaddr_bitmap := b\<rparr>\<rparr>)"
    using i(1,5) m1 by (simp add: vaddr_get_def the_vaddr_def set_vaddr_def)
  moreover have "?v \<in> free_kaddrs s" using i(2,4) k by (auto simp: free_kaddrs_def image_iff intro!: bexI [of _ "unat i"])
  moreover have "free_kaddrs (s\<lparr>kernel_vaddr := ?va\<lparr>vaddr_bitmap := b\<rparr>\<rparr>) = free_kaddrs s - {?v}"
  proof -
    have "kaddr (s\<lparr>kernel_vaddr := ?va\<lparr>vaddr_bitmap := b\<rparr>\<rparr>) j = kaddr s j" for j by (simp add: kaddr_def)
    then show ?thesis using i(7,8) inj by (auto simp: free_kaddrs_def)
  qed
  ultimately show thesis using that pg(3,4) i(6,7) by blast
qed

text \<open>One page: from the first free address, backed by a free frame, filled with zeros, the lock free again.\<close>

lemma get_kernel_page:
  assumes room: "kernel_room s"
  obtains v j pm kp kv where "get_kernel_pages 1 s = Inr (v, s\<lparr>pmem := pm, kernel_pool := kp, kernel_vaddr := kv\<rparr>)"
    and "v \<in> free_kaddrs s" and "v \<noteq> 0" and "j \<notin> used_frames PF_KERNEL s" and "j < pool_frames PF_KERNEL s"
    and "data_pages {(v, frame_addr PF_KERNEL s j)} pm (cr3 s)"
    and "\<forall>w. frame_of w \<noteq> v \<longrightarrow> vtrans pm (cr3 s) w = vtrans (pmem s) (cr3 s) w"
    and "used_frames PF_KERNEL (s\<lparr>pmem := pm, kernel_pool := kp, kernel_vaddr := kv\<rparr>) = insert j (used_frames PF_KERNEL s)"
    and "free_kaddrs (s\<lparr>pmem := pm, kernel_pool := kp, kernel_vaddr := kv\<rparr>) = free_kaddrs s - {v}"
    and "\<forall>w. dir_entry_at pm (cr3 s) w = dir_entry_at (pmem s) (cr3 s) w"
proof -
  have r: "pools_ok s" "bitmap_ok (vaddr_bitmap (kernel_vaddr s))" "va_ok (kernel_vaddr s)" "pool_lock (kernel_pool s) = lock_init"
      "running_thread s \<noteq> 0" "used_frames PF_KERNEL s \<noteq> {..<pool_frames PF_KERNEL s}" "free_kaddrs s \<noteq> {}"
      "\<forall>v\<in>free_kaddrs s. own_table (pmem s) (cr3 s) v \<and> vtrans (pmem s) (cr3 s) v = None"
      "\<forall>j<pool_frames PF_KERNEL s. j \<notin> used_frames PF_KERNEL s \<longrightarrow> (\<forall>w. frame_addr PF_KERNEL s j \<notin> tables (pmem s) (cr3 s) w)"
    using room by (auto simp: kernel_room_def pages_inv_def)
  let ?me = "running_thread s"
  let ?s1 = "s\<lparr>kernel_pool := (kernel_pool s)\<lparr>pool_lock := lock_taken ?me\<rparr>\<rparr>"
  have r1: "va_ok (kernel_vaddr ?s1)" "bitmap_ok (vaddr_bitmap (kernel_vaddr ?s1))" "free_kaddrs ?s1 = free_kaddrs s"
    using r(2,3) by (simp_all add: free_kaddrs_def kaddr_def)
  have ne: "free_kaddrs ?s1 \<noteq> {}" using r(7) r1(3) by simp
  obtain v b where v: "vaddr_get PF_KERNEL 1 ?s1 = Inr (v, ?s1\<lparr>kernel_vaddr := (kernel_vaddr ?s1)\<lparr>vaddr_bitmap := b\<rparr>\<rparr>)"
      "v \<in> free_kaddrs ?s1" "v \<noteq> 0" "frame_of v = v" "bitmap_ok b"
      "free_kaddrs (?s1\<lparr>kernel_vaddr := (kernel_vaddr ?s1)\<lparr>vaddr_bitmap := b\<rparr>\<rparr>) = free_kaddrs ?s1 - {v}"
    by (rule vaddr_get_free [OF r1(1,2) ne])
  let ?s2 = "?s1\<lparr>kernel_vaddr := (kernel_vaddr s)\<lparr>vaddr_bitmap := b\<rparr>\<rparr>"
  have ok2: "pools_ok ?s2" "used_frames PF_KERNEL ?s2 \<noteq> {..<pool_frames PF_KERNEL ?s2}"
    using r(1,6) by (simp_all add: pools_ok_def pool_frames_def used_frames_def)
  obtain j pb where a: "palloc PF_KERNEL ?s2 = Inr (frame_addr PF_KERNEL ?s2 j, set_pool PF_KERNEL ((the_pool PF_KERNEL ?s2)\<lparr>pool_bitmap := pb\<rparr>) ?s2)"
      "j \<notin> used_frames PF_KERNEL ?s2" "j < pool_frames PF_KERNEL ?s2" "used_bits pb = insert j (used_frames PF_KERNEL ?s2)"
    by (rule palloc_free [OF ok2])
  let ?s3 = "?s2\<lparr>kernel_pool := (kernel_pool ?s2)\<lparr>pool_bitmap := pb\<rparr>\<rparr>" and ?f = "frame_addr PF_KERNEL s j"
  have j: "j \<notin> used_frames PF_KERNEL s" "j < pool_frames PF_KERNEL s" "frame_addr PF_KERNEL ?s2 j = ?f"
    using a(2,3) by (simp_all add: used_frames_def pool_frames_def frame_addr_def)
  note fp = frame_addr_pos [OF r(1) j(2)]
  have o: "own_table (pmem ?s3) (cr3 ?s3) v" "vtrans (pmem ?s3) (cr3 ?s3) v = None" using r(8) v(2) r1(3) by simp_all
  obtain s4 where m: "page_table_add (palloc PF_KERNEL) v ?f ?s3 = Inr s4" "s4 = ?s3\<lparr>pmem := pmem s4\<rparr>"
      "\<forall>w. dir_entry_at (pmem s4) (cr3 s) w = dir_entry_at (pmem s) (cr3 s) w"
      "\<forall>w. vtrans (pmem s4) (cr3 s) w = (if frame_of w = v then Some (?f + off_of w) else vtrans (pmem s) (cr3 s) w)"
    using page_table_add_maps_lemma [OF o fp(2), of "palloc PF_KERNEL"] v(4) by auto
  have c4: "cr3 s4 = cr3 s" by (subst m(2)) simp
  have t: "?f \<notin> tables (pmem s4) (cr3 s) w" for w using r(9) j(1,2) m(3) by (simp add: tables_def)
  have "off_of v = 0" using frame_off [of v] v(4) by simp
  then have dp: "data_pages {(v, ?f)} (pmem s4) (cr3 s4)" using m(4) v(4) fp(2) t c4 by (simp add: data_pages_def)
  obtain pm where pm: "vzero 1024 v s4 = Inr (s4\<lparr>pmem := pm\<rparr>)" "data_pages {(v, ?f)} pm (cr3 s)"
      "\<forall>x. frame_of x \<noteq> ?f \<longrightarrow> pm x = pmem s4 x"
    using vzero_page [OF dp insertI1, of 0 1024] c4 by auto
  let ?s5 = "s4\<lparr>pmem := pm\<rparr>"
  have k4: "kernel_pool s4 = (kernel_pool s)\<lparr>pool_lock := lock_taken ?me, pool_bitmap := pb\<rparr>" "running_thread ?s5 = ?me"
    by (subst m(2), simp add: running_thread_def)+
  let ?s6 = "s\<lparr>pmem := pm, kernel_pool := (kernel_pool s)\<lparr>pool_lock := lock_init, pool_bitmap := pb\<rparr>,
      kernel_vaddr := (kernel_vaddr s)\<lparr>vaddr_bitmap := b\<rparr>\<rparr>"
  have q1: "acquire_pool PF_KERNEL s = Inr ?s1" using r(4,5) by (simp add: acquire_pool_def set_pool_def)
  have q2: "malloc_page PF_KERNEL 1 ?s1 = Inr (v, s4)"
    using v(1,3) a(1) j(3) fp(1) m(1) by (simp add: malloc_page_def set_pool_def ASSERT_def)
  have q3: "vmemset0 v (1 * PAGE_SIZE) s4 = Inr ?s5" using pm(1) by (simp add: vmemset0_def PAGE_SIZE_def)
  have "release_pool PF_KERNEL ?s5 = Inr (?s5\<lparr>kernel_pool := (kernel_pool s4)\<lparr>pool_lock := lock_init\<rparr>\<rparr>)"
    using k4 by (simp add: release_pool_def set_pool_def)
  moreover have "?s5\<lparr>kernel_pool := (kernel_pool s4)\<lparr>pool_lock := lock_init\<rparr>\<rparr> = ?s6" unfolding k4(1) by (subst m(2)) simp
  ultimately have q: "get_kernel_pages 1 s = Inr (v, ?s6)"
    using q1 q2 q3 v(3) by (simp add: get_kernel_pages_def get_pages_def)
  show thesis
  proof (rule that [OF q _ v(3) j(1,2) pm(2)])
    show "v \<in> free_kaddrs s" using v(2) r1(3) by simp
    show "\<forall>w. frame_of w \<noteq> v \<longrightarrow> vtrans pm (cr3 s) w = vtrans (pmem s) (cr3 s) w"
      using vtrans_other_frame(1) [OF pm(3) t] m(4) by simp
    show "\<forall>w. dir_entry_at pm (cr3 s) w = dir_entry_at (pmem s) (cr3 s) w"
      using vtrans_other_frame(2) [OF pm(3) t] m(3) by simp
    show "used_frames PF_KERNEL ?s6 = insert j (used_frames PF_KERNEL s)" using a(4) by (simp add: used_frames_def)
    show "free_kaddrs ?s6 = free_kaddrs s - {v}" using v(6) by (simp add: free_kaddrs_def kaddr_def)
  qed
qed

subsection \<open>A new thread\<close>

lemma free_pid:
  assumes "card (live_pids s) < 1024"
  shows "used_bits (pid_bitmap s) \<noteq> {..<1024}"
proof
  assume "used_bits (pid_bitmap s) = {..<1024}"
  then have "card (live_pids s) = 1024" using card_image [OF pid_of_bit_inj] by (simp only: live_pids_def card_lessThan)
  then show False using assms by simp
qed

lemma thread_create_run:
  assumes "pcbs s p = Some t" and "self_kstack t = p + PAGE_SIZE" and "data_pages {(p, f)} (pmem s) (cr3 s)"
  obtains pm where "thread_create l p function_at func_arg s =
      Inr (s\<lparr>pcbs := (pcbs s)(p \<mapsto> t\<lparr>self_kstack := p + 0xe50\<rparr>), pmem := pm\<rparr>)"
    and "\<forall>x. frame_of x \<noteq> f \<longrightarrow> pm x = pmem s x" and "data_pages {(p, f)} pm (cr3 s)"
proof -
  let ?ws = "[(16, at_kernel_thread l), (24, function_at), (28, func_arg), (12, 0), (8, 0), (4, 0), (0, 0)]"
  let ?s = "s\<lparr>pcbs := (pcbs s)(p \<mapsto> t\<lparr>self_kstack := p + 0xe50\<rparr>)\<rparr>"
  have dp: "data_pages {(p, f)} (pmem ?s) (cr3 ?s)" using assms(3) by simp
  have "\<forall>(o', x)\<in>set ?ws. unat (0xe50 + o' :: u32) < 4096" by simp
  note st = store_words_page [OF dp insertI1 this]
  obtain pm where pm: "store_words (p + 0xe50) ?ws ?s = Inr (?s\<lparr>pmem := pm\<rparr>)" "data_pages {(p, f)} pm (cr3 s)"
      "pm = (pmem s)(f + 0xe60 := at_kernel_thread l, f + 0xe68 := function_at, f + 0xe6c := func_arg,
        f + 0xe5c := 0, f + 0xe58 := 0, f + 0xe54 := 0, f + 0xe50 := 0)"
    using st by simp
  have f: "frame_of f = f" using assms(3) by (simp add: data_pages_def)
  have "frame_of (f + 0xe60) = f" "frame_of (f + 0xe68) = f" "frame_of (f + 0xe6c) = f" "frame_of (f + 0xe5c) = f"
      "frame_of (f + 0xe58) = f" "frame_of (f + 0xe54) = f" "frame_of (f + 0xe50) = f"
    by (rule page_plus(1) [OF f], simp)+
  then have "\<forall>x. frame_of x \<noteq> f \<longrightarrow> pm x = pmem s x" unfolding pm(3) by auto
  moreover have "thread_create l p function_at func_arg s = Inr (?s\<lparr>pmem := pm\<rparr>)"
    using assms(1,2) pm(1) by (simp add: thread_create_def INTR_STACK_SIZE_def THREAD_STACK_SIZE_def PAGE_SIZE_def add.commute [of "0xe50" p])
  moreover have "?s\<lparr>pmem := pm\<rparr> = s\<lparr>pcbs := (pcbs s)(p \<mapsto> t\<lparr>self_kstack := p + 0xe50\<rparr>), pmem := pm\<rparr>" by simp
  ultimately show thesis using that pm(2) by blast
qed

text \<open>The PCB that \<^verbatim>\<open>init_thread\<close> fills.\<close>

definition born_task :: "u32 \<Rightarrow> pid_t \<Rightarrow> u8 list \<Rightarrow> u32 \<Rightarrow> task_struct" where
  "born_task p n nm prio = zero_pcb\<lparr>pid := n, name := put 0 (nm @ [0]) (replicate 16 0), status := TASK_READY,
     ticks := ucast prio, priority := ucast prio, self_kstack := p + PAGE_SIZE,
     fd_table := [0, 1, 2] @ replicate (MAX_FILES_OPEN_PER_PROC - 3) (-1), parent_pid := -1, stack_magic := STACK_MAGIC\<rparr>"

lemma init_thread_run:
  assumes "pids_ok s" and "card (live_pids s) < 1024" and "p \<noteq> 0" and "p \<noteq> main_thread s"
    and "cstr nm 0 n" and "length n < 16"
  obtains q b where "init_thread p nm prio s = Inr (s\<lparr>pcbs := (pcbs s)(p \<mapsto> born_task p q n prio),
      vaddr_bits_at := (vaddr_bits_at s)(p := 0), pid_bitmap := b\<rparr>)"
    and "q \<notin> live_pids s" and "pid_of_bit ` used_bits b = insert q (live_pids s)"
proof -
  let ?s = "s\<lparr>pcbs := (pcbs s)(p \<mapsto> zero_pcb), vaddr_bits_at := (vaddr_bits_at s)(p := 0)\<rparr>"
  have ok: "pids_ok ?s" using assms(1) by (simp add: pids_ok_def)
  have fr: "used_bits (pid_bitmap ?s) \<noteq> {..<1024}" using free_pid [OF assms(2)] by simp
  obtain i b where i: "allocate_pid ?s = Inr (pid_of_bit i, ?s\<lparr>pid_bitmap := b\<rparr>)" "i < 1024" "i \<notin> used_bits (pid_bitmap s)"
      "used_bits b = insert i (used_bits (pid_bitmap s))"
    by (rule allocate_pid_free [OF ok fr]) auto
  have "name zero_pcb = replicate 16 0" by (simp add: zero_pcb_def)
  then have "strcpy (name zero_pcb) 0 nm 0 = Inr (put 0 (n @ [0]) (replicate 16 0))"
    using strcpy_cstr [OF assms(5), of 0 "replicate 16 0"] assms(6) by simp
  then have "init_thread p nm prio s = Inr (?s\<lparr>pid_bitmap := b, pcbs := (pcbs s)(p \<mapsto> born_task p (pid_of_bit i) n prio)\<rparr>)"
    using assms(3,4) i(1) by (simp add: init_thread_def Let_def upd_pcb_def pcb_def born_task_def zero_pcb_def)
  moreover have "?s\<lparr>pid_bitmap := b, pcbs := (pcbs s)(p \<mapsto> born_task p (pid_of_bit i) n prio)\<rparr>
      = s\<lparr>pcbs := (pcbs s)(p \<mapsto> born_task p (pid_of_bit i) n prio), vaddr_bits_at := (vaddr_bits_at s)(p := 0), pid_bitmap := b\<rparr>"
    by simp
  moreover have "pid_of_bit i \<notin> live_pids s"
    unfolding live_pids_def using i(2,3) used_pids_bound [OF assms(1)]
    by (subst inj_on_image_mem_iff [OF pid_of_bit_inj]) auto
  ultimately show thesis using that [of b "pid_of_bit i"] i(4) by (simp add: live_pids_def)
qed

text \<open>
  C7. A thread is born: when the kernel has room, \<^verbatim>\<open>thread_start\<close> gives a new thread. Its PCB is a page that was free and
  belonged to no thread; the thread is ready, has its name, the magic number and an identifier of its own; it stands at the end
  of both lists. Every other thread, and the translation of every other address, is as before, and all threads are in order.
\<close>

theorem thread_start_adds:
  fixes s :: "'a tasks_scheme"
  assumes room: "kernel_room s" and pids: "pids_ok s" "card (live_pids s) < 1024" and nm: "cstr nm 0 n" "length n < 16"
    and nobody: "\<forall>v\<in>free_kaddrs s. v \<notin> dom (pcbs s) \<union> set (thread_ready_list s) \<union> set (thread_all_list s) \<union> {main_thread s}"
    and ok: "\<forall>q u. pcbs s q = Some u \<longrightarrow> thread_ok s q u"
  shows "\<exists>p t s'. thread_start l nm prio function_at func_arg s = Inr (p, s')
    \<and> p \<in> free_kaddrs s \<and> free_kaddrs s' = free_kaddrs s - {p} \<and> pcbs s' = (pcbs s)(p \<mapsto> t)
    \<and> status t = TASK_READY \<and> cstr (name t) 0 n \<and> stack_magic t = STACK_MAGIC
    \<and> pid t \<notin> live_pids s \<and> live_pids s' = insert (pid t) (live_pids s)
    \<and> thread_ready_list s' = thread_ready_list s @ [p] \<and> thread_all_list s' = thread_all_list s @ [p]
    \<and> (\<forall>w. frame_of w \<noteq> p \<longrightarrow> vtrans (pmem s') (cr3 s') w = vtrans (pmem s) (cr3 s) w)
    \<and> (\<forall>q u. pcbs s' q = Some u \<longrightarrow> thread_ok s' q u)"
proof -
  obtain p j pm kp kv where g: "get_kernel_pages 1 s = Inr (p, s\<lparr>pmem := pm, kernel_pool := kp, kernel_vaddr := kv\<rparr>)"
      "p \<in> free_kaddrs s" "p \<noteq> 0" "j \<notin> used_frames PF_KERNEL s" "j < pool_frames PF_KERNEL s"
      "data_pages {(p, frame_addr PF_KERNEL s j)} pm (cr3 s)"
      "\<forall>w. frame_of w \<noteq> p \<longrightarrow> vtrans pm (cr3 s) w = vtrans (pmem s) (cr3 s) w"
      "free_kaddrs (s\<lparr>pmem := pm, kernel_pool := kp, kernel_vaddr := kv\<rparr>) = free_kaddrs s - {p}"
      "\<forall>w. dir_entry_at pm (cr3 s) w = dir_entry_at (pmem s) (cr3 s) w"
    by (rule get_kernel_page [OF room])
  let ?f = "frame_addr PF_KERNEL s j" and ?s1 = "s\<lparr>pmem := pm, kernel_pool := kp, kernel_vaddr := kv\<rparr>"
  have new: "p \<notin> dom (pcbs s)" "p \<notin> set (thread_ready_list s)" "p \<notin> set (thread_all_list s)" "p \<noteq> main_thread ?s1"
    using nobody g(2) by auto
  have live1: "live_pids ?s1 = live_pids s" by (simp add: live_pids_def)
  have p1: "pids_ok ?s1" "card (live_pids ?s1) < 1024" using pids live1 by (simp_all add: pids_ok_def running_thread_def)
  obtain q b where i: "init_thread p nm prio ?s1 = Inr (?s1\<lparr>pcbs := (pcbs ?s1)(p \<mapsto> born_task p q n prio),
      vaddr_bits_at := (vaddr_bits_at ?s1)(p := 0), pid_bitmap := b\<rparr>)"
      "q \<notin> live_pids ?s1" "pid_of_bit ` used_bits b = insert q (live_pids ?s1)"
    by (rule init_thread_run [OF p1 g(3) new(4) nm])
  let ?t = "born_task p q n prio" and ?t' = "(born_task p q n prio)\<lparr>self_kstack := p + 0xe50\<rparr>"
  let ?s2 = "?s1\<lparr>pcbs := (pcbs ?s1)(p \<mapsto> ?t), vaddr_bits_at := (vaddr_bits_at ?s1)(p := 0), pid_bitmap := b\<rparr>"
  have t2: "pcbs ?s2 p = Some ?t" "self_kstack ?t = p + PAGE_SIZE" "data_pages {(p, ?f)} (pmem ?s2) (cr3 ?s2)"
    using g(6) by (simp_all add: born_task_def)
  obtain pm' where c: "thread_create l p function_at func_arg ?s2 = Inr (?s2\<lparr>pcbs := (pcbs ?s2)(p \<mapsto> ?t'), pmem := pm'\<rparr>)"
      "\<forall>x. frame_of x \<noteq> ?f \<longrightarrow> pm' x = pmem ?s2 x"
    by (rule thread_create_run [OF t2])
  let ?s3 = "?s2\<lparr>pcbs := (pcbs ?s2)(p \<mapsto> ?t'), pmem := pm'\<rparr>"
  let ?s4 = "?s3\<lparr>thread_ready_list := thread_ready_list s @ [p], thread_all_list := thread_all_list s @ [p]\<rparr>"
  have e: "enlist p ?s3 = Inr ?s4" using new by (simp add: enlist_def)
  have run: "thread_start l nm prio function_at func_arg s = Inr (p, ?s4)"
    by (simp only: thread_start_def g(1) i(1) c(1) e bindR_Inr prod.case)
  have "?f \<notin> tables pm (cr3 s) w" for w
    using room g(4,5,9) by (auto simp: kernel_room_def tables_def)
  then have tr: "vtrans pm' (cr3 s) w = vtrans pm (cr3 s) w" for w using vtrans_other_frame(1) [OF c(2)] by simp
  have fr: "frame_of p = p" using g(6) by (simp add: data_pages_def)
  have nz: "0 \<notin> set n" using nm(1) by (simp add: cstr_def)
  have st: "status ?t' = TASK_READY" "cstr (name ?t') 0 n" "stack_magic ?t' = STACK_MAGIC" "pid ?t' = q"
    using nz nm(2) cstr_put_string [of n 0 "replicate 16 0"] by (simp_all add: born_task_def)
  have r4: "running_thread ?s4 = running_thread s" by (simp add: running_thread_def)
  have "thread_ok ?s4 x u" if u: "pcbs ?s4 x = Some u" for x u
  proof (cases "x = p")
    case True
    then show ?thesis using u st(1) g(3) fr page_plus(1) [OF fr, of "0xe50"] by (auto simp: thread_ok_def)
  next
    case False
    then show ?thesis using ok u r4 by (simp add: thread_ok_def)
  qed
  moreover have "free_kaddrs ?s4 = free_kaddrs s - {p}" unfolding g(8) [symmetric] by (simp add: free_kaddrs_def kaddr_def)
  moreover have "live_pids ?s4 = insert q (live_pids s)" using i(3) live1 by (simp add: live_pids_def)
  ultimately show ?thesis
    using run g(2,7) tr st i(2) live1 by (intro exI [of _ p] exI [of _ ?t'] exI [of _ ?s4]) simp
qed

text \<open>The small machine of theory Task with one thread only: five of its eight kernel pages are free.\<close>

definition lone_task :: tasks where
  "lone_task = small_tasks\<lparr>pcbs := [0xc0100000 \<mapsto> blank_task\<lparr>status := TASK_RUNNING\<rparr>], thread_all_list := [0xc0100000]\<rparr>"

definition five_pages :: "u32 list" where
  "five_pages = [0xc0103000, 0xc0104000, 0xc0105000, 0xc0106000, 0xc0107000]"

lemma lone_task_free: "free_kaddrs lone_task = set five_pages" "used_frames PF_KERNEL lone_task = {0, 1, 2}"
  "pool_frames PF_KERNEL lone_task = 8"
proof -
  let ?b = "\<lparr>btmp_bytes_len = 1, bits = [7]\<rparr>"
  have "list_all (\<lambda>i. bit_at ?b i = (i < 3)) [0..<8]" by code_simp
  then have "bit_at ?b i \<longleftrightarrow> i < 3" if "i < 8" for i
    using that by (simp only: list_all_iff atLeastLessThan_upt [symmetric]) simp
  moreover have c: "bit_cnt ?b = 8" by (simp add: bit_cnt_def)
  ultimately have u: "used_bits ?b = {..<3}" by (auto simp: used_bits_def)
  have three: "{..<3 :: nat} = {0, 1, 2}" by auto
  have m: "vaddr_bitmap (kernel_vaddr lone_task) = ?b" "pool_bitmap (kernel_pool lone_task) = ?b" "vaddr_start (kernel_vaddr lone_task) = 0xc0100000"
    by (simp_all add: lone_task_def small_tasks_def K_HEAP_START_def)
  show "used_frames PF_KERNEL lone_task = {0, 1, 2}" "pool_frames PF_KERNEL lone_task = 8"
    using m(2) u c three by (simp_all add: used_frames_def pool_frames_def)
  have e: "{..<8 :: nat} - {..<3} = {3, 4, 5, 6, 7}" by auto
  have "(\<lambda>i. 0xc0100000 + of_nat i * PAGE_SIZE) ` {3, 4, 5, 6, 7 :: nat} = set five_pages"
    by (simp add: five_pages_def PAGE_SIZE_def)
  then show "free_kaddrs lone_task = set five_pages" unfolding free_kaddrs_def kaddr_def m u c e .
qed

lemma lone_task_room: "kernel_room lone_task"
proof -
  have m: "pmem lone_task = pmem small_tasks" "cr3 lone_task = 0x100000" "running_thread lone_task \<noteq> 0"
    by (simp_all add: lone_task_def small_tasks_def running_thread_def)
  have inv: "pages_inv lone_task" "va_ok (kernel_vaddr lone_task)" "pool_lock (kernel_pool lone_task) = lock_init"
    by (simp_all add: pages_inv_def pools_ok_def pool_frames_def bit_cnt_def bitmap_ok_def va_ok_def lone_task_def small_tasks_def
        frame_of_def K_HEAP_START_def)
  have i: "list_all (\<lambda>v. PDE_IDX v = 768 \<and> vtrans (pmem small_tasks) 0x100000 v = None) five_pages" by code_simp
  have fr: "frame_of 0x101007 = 0x101000" "frame_of 0x100007 = 0x100000" "present 0x101007" "\<not> present 0" "frame_of 0x100000 = 0x100000" "frame_of 0 = 0"
    by code_simp+
  have sm: "self_map (pmem small_tasks) 0x100000" by (simp add: self_map_def small_tasks_def frame_of_def present_def)
  have own: "own_table (pmem small_tasks) 0x100000 v" if "PDE_IDX v = 768" for v
    unfolding own_table_def small_tasks_dir that using sm fr by simp
  have tab: "tables (pmem small_tasks) 0x100000 w \<subseteq> {0x100000, 0x101000, 0}" for w
    unfolding tables_def small_tasks_dir by (simp add: fr)
  have seven: "7 \<in> {..<8 :: nat}" "7 \<notin> {0, 1, 2 :: nat}" by simp_all
  have "phy_addr_start (kernel_pool lone_task) = 0x200000" by (simp add: lone_task_def small_tasks_def)
  moreover have "list_all (\<lambda>j. (0x200000 :: u32) + of_nat j * PAGE_SIZE \<notin> {0x100000, 0x101000, 0}) [0..<8]" by code_simp
  ultimately have "frame_addr PF_KERNEL lone_task j \<notin> {0x100000, 0x101000, 0}" if "j < 8" for j
    using that by (simp only: list_all_iff atLeastLessThan_upt [symmetric] frame_addr_def the_pool_simps) simp
  then have "frame_addr PF_KERNEL lone_task j \<notin> tables (pmem small_tasks) 0x100000 w" if "j < 8" for j w
    using that tab [of w] by blast
  moreover have "{0, 1, 2} \<noteq> {..<8 :: nat}" using seven by blast
  moreover have "\<forall>v\<in>set five_pages. own_table (pmem small_tasks) 0x100000 v \<and> vtrans (pmem small_tasks) 0x100000 v = None"
    using i own by (simp add: list_all_iff)
  moreover have "set five_pages \<noteq> {}" by (simp add: five_pages_def)
  ultimately show ?thesis unfolding kernel_room_def m(1,2) lone_task_free using m(3) inv by simp
qed

theorem thread_start_adds_witness:
  "\<exists>p t s'. thread_start \<lparr>at_kernel_thread = 400, at_start_process = 0, at_idle = 0, at_intr_exit = 0\<rparr> [105, 100, 108, 101, 0] 10 500 0 lone_task
      = Inr (p, s') \<and> p \<in> set five_pages \<and> thread_ready_list s' = [p] \<and> thread_all_list s' = [0xc0100000, p]
    \<and> pcbs s' p = Some t \<and> pid t \<notin> {1, 2} \<and> thread_ok s' p t"
proof -
  have live: "live_pids lone_task = {1, 2}" using small_tasks_pids(3) by (simp add: live_pids_def lone_task_def)
  have "running_thread lone_task = 0xc0100000" by (simp add: lone_task_def small_tasks_def running_thread_def)
  then have p: "pids_ok lone_task" "card (live_pids lone_task) < 1024"
    using small_tasks_pids(1) live by (simp_all add: pids_ok_def lone_task_def card_insert_if)
  have n: "cstr [105, 100, 108, 101, 0] 0 [105, 100, 108, 101]" "length [105, 100, 108, 101 :: u8] < 16" by simp_all
  have l: "pcbs lone_task = [0xc0100000 \<mapsto> blank_task\<lparr>status := TASK_RUNNING\<rparr>]" "thread_ready_list lone_task = []"
      "thread_all_list lone_task = [0xc0100000]" "main_thread lone_task = 0"
    by (simp_all add: lone_task_def small_tasks_def)
  have nobody: "\<forall>v\<in>free_kaddrs lone_task. v \<notin> dom (pcbs lone_task) \<union> set (thread_ready_list lone_task)
      \<union> set (thread_all_list lone_task) \<union> {main_thread lone_task}"
    unfolding lone_task_free l by (simp add: five_pages_def)
  have ok: "\<forall>q u. pcbs lone_task q = Some u \<longrightarrow> thread_ok lone_task q u"
    using \<open>running_thread lone_task = 0xc0100000\<close> by (simp add: l thread_ok_def frame_of_def)
  obtain p t s' where "thread_start \<lparr>at_kernel_thread = 400, at_start_process = 0, at_idle = 0, at_intr_exit = 0\<rparr>
        [105, 100, 108, 101, 0] 10 500 0 lone_task = Inr (p, s')" "p \<in> free_kaddrs lone_task" "pcbs s' = (pcbs lone_task)(p \<mapsto> t)"
      "pid t \<notin> live_pids lone_task" "thread_ready_list s' = thread_ready_list lone_task @ [p]"
      "thread_all_list s' = thread_all_list lone_task @ [p]" "\<forall>q u. pcbs s' q = Some u \<longrightarrow> thread_ok s' q u"
    using thread_start_adds [OF lone_task_room p n nobody ok] by blast
  then show ?thesis unfolding lone_task_free live l by (intro exI [of _ p] exI [of _ t] exI [of _ s']) simp
qed

end
