(* ===== verification/Load.thy ===== *)
theory Load
  imports Exec Wait
begin

section \<open>Pages for a program\<close>

text \<open>
  What \<^verbatim>\<open>get_a_page\<close> gives to a process, and what \<^verbatim>\<open>userprog/exec.c\<close> makes of it.
\<close>

text \<open>A process that runs, the pool of the users free to be locked and with a frame left.\<close>

definition user_process :: "'a kmem_scheme \<Rightarrow> task_struct \<Rightarrow> bool" where
  "user_process s t \<longleftrightarrow> running_thread s \<noteq> 0 \<and> pcbs s (running_thread s) = Some t \<and> pgdir t \<noteq> 0
     \<and> pools_ok s \<and> pool_lock (user_pool s) = lock_init \<and> used_frames PF_USER s \<noteq> {..<pool_frames PF_USER s}"

text \<open>A page of the user's part whose page table is there, which is not mapped, and which the map of the process covers (the
  first page of the map is not given out).\<close>

definition free_user_page :: "'a kmem_scheme \<Rightarrow> task_struct \<Rightarrow> u32 \<Rightarrow> bool" where
  "free_user_page s t v \<longleftrightarrow> v \<noteq> 0 \<and> frame_of v = v \<and> own_table (pmem s) (cr3 s) v \<and> vtrans (pmem s) (cr3 s) v = None
     \<and> bitmap_ok (vaddr_bitmap (userprog_vaddr t))
     \<and> 0 < sint ((v - vaddr_start (userprog_vaddr t)) div PAGE_SIZE)
     \<and> unat ((v - vaddr_start (userprog_vaddr t)) div PAGE_SIZE) < bit_cnt (vaddr_bitmap (userprog_vaddr t))"

lemma get_a_page_ok:
  assumes p: "user_process s t" and v: "free_user_page s t v"
  shows "\<exists>s' i t'. get_a_page PF_USER v s = Inr (v, s') \<and> i \<notin> used_frames PF_USER s
    \<and> used_frames PF_USER s' = insert i (used_frames PF_USER s) \<and> used_frames PF_KERNEL s' = used_frames PF_KERNEL s
    \<and> (\<forall>w. vtrans (pmem s') (cr3 s') w =
          (if frame_of w = v then Some (frame_addr PF_USER s i + off_of w) else vtrans (pmem s) (cr3 s) w))
    \<and> pcbs s' = (pcbs s)(running_thread s \<mapsto> t')
    \<and> used_bits (vaddr_bitmap (userprog_vaddr t'))
        = insert (unat ((v - vaddr_start (userprog_vaddr t)) div PAGE_SIZE)) (used_bits (vaddr_bitmap (userprog_vaddr t)))
    \<and> pool_lock (user_pool s') = lock_init"
proof -
  let ?r = "running_thread s" and ?va = "userprog_vaddr t"
  let ?b = "(v - vaddr_start ?va) div PAGE_SIZE"
  have p': "?r \<noteq> 0" "pcbs s ?r = Some t" "pgdir t \<noteq> 0" "pools_ok s" "pool_lock (user_pool s) = lock_init"
      "used_frames PF_USER s \<noteq> {..<pool_frames PF_USER s}" using p by (auto simp: user_process_def)
  have v': "v \<noteq> 0" "frame_of v = v" "own_table (pmem s) (cr3 s) v" "vtrans (pmem s) (cr3 s) v = None" "bitmap_ok (vaddr_bitmap ?va)"
      "0 < sint ?b" "unat ?b < bit_cnt (vaddr_bitmap ?va)" using v by (auto simp: free_user_page_def)
  obtain b where b: "bitmap_set (vaddr_bitmap ?va) ?b 1 = Inr b" "used_bits b = insert (unat ?b) (used_bits (vaddr_bitmap ?va))"
    using bitmap_set_used [OF v'(5,7), of 1] by auto
  let ?s1 = "s\<lparr>user_pool := (user_pool s)\<lparr>pool_lock := lock_taken ?r\<rparr>\<rparr>"
  let ?t' = "t\<lparr>userprog_vaddr := ?va\<lparr>vaddr_bitmap := b\<rparr>\<rparr>"
  let ?s2 = "?s1\<lparr>pcbs := (pcbs s)(?r \<mapsto> ?t')\<rparr>"
  have ok2: "pools_ok ?s2" "used_frames PF_USER ?s2 \<noteq> {..<pool_frames PF_USER ?s2}"
    using p'(4,6) by (simp_all add: pools_ok_def pool_frames_def used_frames_def)
  obtain i pb where a: "palloc PF_USER ?s2 = Inr (frame_addr PF_USER ?s2 i, set_pool PF_USER ((the_pool PF_USER ?s2)\<lparr>pool_bitmap := pb\<rparr>) ?s2)"
      "i \<notin> used_frames PF_USER ?s2" "i < pool_frames PF_USER ?s2" "used_bits pb = insert i (used_frames PF_USER ?s2)"
    by (rule palloc_free [OF ok2])
  let ?s3 = "?s2\<lparr>user_pool := (user_pool ?s2)\<lparr>pool_bitmap := pb\<rparr>\<rparr>" and ?f = "frame_addr PF_USER s i"
  have f: "frame_addr PF_USER ?s2 i = ?f" by (simp add: frame_addr_def)
  have i: "i < pool_frames PF_USER s" using a(3) by (simp add: pool_frames_def)
  note fp = frame_addr_pos [OF p'(4) i]
  have s3: "own_table (pmem ?s3) (cr3 ?s3) v" "vtrans (pmem ?s3) (cr3 ?s3) v = None" using v'(3,4) by simp_all
  obtain s4 where m: "page_table_add (palloc PF_KERNEL) v ?f ?s3 = Inr s4" "s4 = ?s3\<lparr>pmem := pmem s4\<rparr>"
      "\<forall>w. vtrans (pmem s4) (cr3 ?s3) w = (if frame_of w = frame_of v then Some (?f + off_of w) else vtrans (pmem ?s3) (cr3 ?s3) w)"
    using page_table_add_maps_lemma [OF s3 fp(2), of "palloc PF_KERNEL"] by blast
  let ?s5 = "s4\<lparr>user_pool := (user_pool s4)\<lparr>pool_lock := lock_init\<rparr>\<rparr>"
  have g: "running_thread s4 = ?r" "user_pool s4 = user_pool ?s3" by (subst m(2), simp add: running_thread_def)+
  have r1: "running_thread ?s1 = ?r" "pcb ?r ?s1 = Inr t" "the_vaddr PF_USER ?s1 = Inr ?va"
    using p'(2) by (simp_all add: running_thread_def pcb_def the_vaddr_def)
  have r2: "acquire_pool PF_USER s = Inr ?s1" "set_vaddr PF_USER (?va\<lparr>vaddr_bitmap := b\<rparr>) ?s1 = Inr ?s2"
      "palloc PF_USER ?s2 = Inr (?f, ?s3)" "release_pool PF_USER s4 = Inr ?s5"
    using p'(1,2,5) a(1) f g by (simp_all add: acquire_pool_def release_pool_def set_vaddr_def r1 set_pool_def upd_pcb_def pcb_def)
  have run: "get_a_page PF_USER v s = Inr (v, ?s5)"
    using p'(3) v'(6) b(1) fp(1) m(1) by (simp add: get_a_page_def r1 r2 Let_def del: the_vaddr_def)
  have k: "cr3 s4 = cr3 s" "kernel_pool s4 = kernel_pool s" "pcbs s4 = (pcbs s)(?r \<mapsto> ?t')" by (subst m(2), simp)+
  have "used_frames PF_USER ?s5 = insert i (used_frames PF_USER s)" "used_frames PF_KERNEL ?s5 = used_frames PF_KERNEL s"
    using a(4) g(2) k(2) by (simp_all add: used_frames_def)
  then show ?thesis
    using run a(2) m(3) k v'(2) b(2) by (intro exI [of _ ?s5] exI [of _ i] exI [of _ ?t']) (simp add: used_frames_def)
qed

text \<open>
  C16. A process asks for a page at an address that is not mapped: \<^verbatim>\<open>get_a_page\<close> gives it, backed by a frame of the user's
  pool that was free. The addresses of the page translate to that frame, all others translate as before, the map of the
  process has the page, and the lock is free again.
\<close>

theorem get_a_page_maps:
  assumes p: "user_process s t" and v: "free_user_page s t v"
  shows "\<exists>s' i t'. get_a_page PF_USER v s = Inr (v, s') \<and> i \<notin> used_frames PF_USER s
    \<and> used_frames PF_USER s' = insert i (used_frames PF_USER s) \<and> used_frames PF_KERNEL s' = used_frames PF_KERNEL s
    \<and> (\<forall>w. vtrans (pmem s') (cr3 s') w =
          (if frame_of w = v then Some (frame_addr PF_USER s i + off_of w) else vtrans (pmem s) (cr3 s) w))
    \<and> pcbs s' = (pcbs s)(running_thread s \<mapsto> t')
    \<and> used_bits (vaddr_bitmap (userprog_vaddr t'))
        = insert (unat ((v - vaddr_start (userprog_vaddr t)) div PAGE_SIZE)) (used_bits (vaddr_bitmap (userprog_vaddr t)))
    \<and> pool_lock (user_pool s') = lock_init"
  by (rule get_a_page_ok [OF assms])

text \<open>The page 0xc0103000 of a process whose map starts at 0xc0100000 (in the small machine of theory Task, where the
  page table of the kernel's heap is the only one).\<close>

definition small_user :: task_struct where
  "small_user = blank_task\<lparr>status := TASK_RUNNING, pgdir := 0xc0102000,
     userprog_vaddr := \<lparr>vaddr_bitmap = \<lparr>btmp_bytes_len = 1, bits = [0]\<rparr>, vaddr_start = 0xc0100000\<rparr>\<rparr>"

definition small_program :: tasks where
  "small_program = small_tasks\<lparr>pcbs := (pcbs small_tasks)(0xc0100000 \<mapsto> small_user)\<rparr>"

lemma small_program_ok: "user_process small_program small_user" "free_user_page small_program small_user 0xc0103000"
proof -
  have r: "running_thread small_program = 0xc0100000" by (simp add: running_thread_def small_program_def small_tasks_def)
  have ok: "pools_ok small_program"
    by (simp add: pools_ok_def pool_frames_def bit_cnt_def bitmap_ok_def small_program_def small_tasks_def frame_of_def)
  have f: "pool_frames PF_USER small_program = 8" "used_frames PF_USER small_program = {}"
    by (auto simp: pool_frames_def used_frames_def used_bits_def bit_at_def bit_cnt_def small_program_def small_tasks_def)
  have "(0 :: nat) \<in> {..<8}" by simp
  then have "{} \<noteq> {..<8 :: nat}" by blast
  then show "user_process small_program small_user"
    unfolding user_process_def r f using ok by (simp add: small_program_def small_tasks_def small_user_def)
  have m: "pmem small_program = pmem small_tasks" "cr3 small_program = 0x100000" by (simp_all add: small_program_def small_tasks_def)
  have i: "PDE_IDX 0xc0103000 = 768" by (simp add: PDE_IDX_def drop_bit_eq_div)
  have "self_map (pmem small_tasks) 0x100000" by (simp add: self_map_def small_tasks_def frame_of_def present_def)
  then have "own_table (pmem small_tasks) 0x100000 0xc0103000"
    unfolding own_table_def small_tasks_dir i by (simp add: frame_of_def present_def)
  moreover have "vtrans (pmem small_tasks) 0x100000 0xc0103000 = None" by code_simp
  ultimately show "free_user_page small_program small_user 0xc0103000"
    by (simp add: free_user_page_def m frame_of_def small_user_def bitmap_ok_def bit_cnt_def PAGE_SIZE_def)
qed

theorem get_a_page_maps_witness:
  "\<exists>s' i. get_a_page PF_USER 0xc0103000 small_program = Inr (0xc0103000, s')
    \<and> vtrans (pmem s') (cr3 s') 0xc0103abc = Some (frame_addr PF_USER small_program i + 0xabc)"
proof -
  have "frame_of 0xc0103abc = 0xc0103000" "off_of 0xc0103abc = 0xabc" by (simp_all add: frame_of_def off_of_def)
  then show ?thesis using get_a_page_maps [OF small_program_ok] by metis
qed

subsection \<open>Loading a segment\<close>

lemma page_missing_free:
  assumes "free_user_page s t v"
  shows "page_missing v s = Inr True"
proof -
  have o: "self_map (pmem s) (cr3 s)" "present (dir_entry_at (pmem s) (cr3 s) v)" "vtrans (pmem s) (cr3 s) v = None"
    using assms by (auto simp: free_user_page_def own_table_def)
  then have "\<not> present (pmem s (pte_addr (pmem s) (cr3 s) v))" by (simp add: vtrans_eq split: if_splits)
  then show ?thesis using o by (simp add: page_missing_def vread_pde vread_pte present_def)
qed

lemma occupy_pos: "occupy_pages filesz vaddr \<noteq> 0"
proof -
  have "x div 4096 + 1 \<noteq> 0" for x :: u32
  proof -
    have "unat (x div 4096 + 1) = unat x div 4096 + 1"
      using unat_u32_lt [of x] by (subst unat_add_small) (auto simp: unat_div)
    then show ?thesis by (metis Suc_eq_plus1 nat.distinct(1) unat_0)
  qed
  then show ?thesis by (simp add: occupy_pages_def Let_def DIV_ROUND_UP_def PAGE_SIZE_def)
qed

text \<open>
  C19. A program whose first page is not mapped is not loaded: the page is asked for and given (the process has one page and
  the pool one frame less), and just because it was given \<^verbatim>\<open>segment_load\<close> gives up, whatever the file holds. Only a segment whose
  pages are all mapped before can be loaded.
\<close>

theorem segment_load_refuses:
  assumes "user_process (heap s) t" and "free_user_page (heap s) t (frame_of vaddr)"
  shows "\<exists>k. segment_load h fd offset filesz vaddr s = Inr (False, s\<lparr>heap := k\<rparr>) \<and> vtrans (pmem k) (cr3 k) vaddr \<noteq> None
    \<and> card (used_frames PF_USER k) = Suc (card (used_frames PF_USER (heap s)))"
proof -
  let ?v = "frame_of vaddr"
  obtain k i where k: "get_a_page PF_USER ?v (heap s) = Inr (?v, k)" "i \<notin> used_frames PF_USER (heap s)"
      "used_frames PF_USER k = insert i (used_frames PF_USER (heap s))"
      "\<forall>w. vtrans (pmem k) (cr3 k) w = (if frame_of w = ?v then Some (frame_addr PF_USER (heap s) i + off_of w)
         else vtrans (pmem (heap s)) (cr3 (heap s)) w)"
    using get_a_page_ok [OF assms] by blast
  obtain n where n: "unat (occupy_pages filesz vaddr) = Suc n"
    using occupy_pos [of filesz vaddr] by (metis not0_implies_Suc unat_eq_zero)
  have "?v \<noteq> 0" using assms(2) by (simp add: free_user_page_def)
  then have "need_pages (unat (occupy_pages filesz vaddr)) ?v (heap s) = Inr (False, k)"
    using k(1) page_missing_free [OF assms(2)] by (simp add: n)
  then have "segment_load h fd offset filesz vaddr s = Inr (False, s\<lparr>heap := k\<rparr>)"
    by (simp add: segment_load_def heapM_def frame_of_def)
  moreover have "finite (used_frames PF_USER (heap s))" by (simp add: used_frames_def)
  ultimately show ?thesis using k(2-4) by auto
qed

definition small_machine :: "tasks fs" where
  "small_machine = \<lparr>heap = small_program, hd_disk = hd_disk small_fs, cur_part = cur_part small_fs, inodes = inodes small_fs,
     dirs = dirs small_fs, root_dir = root_dir small_fs, file_table = file_table small_fs, cur_task = small_user,
     kbd_queue = [], console = []\<rparr>"

theorem segment_load_refuses_witness:
  "\<exists>k. segment_load sys_heap 3 0 100 0xc0103010 small_machine = Inr (False, small_machine\<lparr>heap := k\<rparr>)
    \<and> vtrans (pmem k) (cr3 k) 0xc0103010 \<noteq> None"
proof -
  have f: "frame_of 0xc0103010 = 0xc0103000" by (simp add: frame_of_def)
  have "heap small_machine = small_program" by (simp add: small_machine_def)
  then have "user_process (heap small_machine) small_user" "free_user_page (heap small_machine) small_user (frame_of 0xc0103010)"
    using small_program_ok f by simp_all
  from segment_load_refuses [OF this, of sys_heap 3 0 100] show ?thesis by blast
qed

end
