(* ===== verification/Ends.thy ===== *)
theory Ends
  imports Heap Fs_State
begin

section \<open>Calls that come to an end\<close>

text \<open>
  A call ends if it does not loop for ever: it returns, or stops at an assertion, at a bad access, or where it
  has to wait. The rules of this theory follow the structure of a definition; with them every routine of the strings, the
  bitmaps, the scheduler, the pages and the heap is shown to end, in every state and for all arguments.
\<close>

definition ends :: "'a res \<Rightarrow> bool" where
  "ends r \<longleftrightarrow> r \<noteq> Inl Diverge"

named_theorems ends_intro \<open>rules for the constructs of a definition, and what is known to end\<close>

lemma ends_Inr [ends_intro]: "ends (Inr x)" by (simp add: ends_def)

lemma ends_faults [ends_intro]: "ends (Inl Bad_Access)" "ends (Inl Assert_Fail)" "ends (Inl Would_Block)"
  by (simp_all add: ends_def)

lemma ends_bind [ends_intro]: "ends m \<Longrightarrow> (\<And>x. m = Inr x \<Longrightarrow> ends (f x)) \<Longrightarrow> ends (bindR m f)"
  by (cases m) (auto simp: ends_def)

lemma ends_ASSERT [ends_intro]: "(c \<Longrightarrow> ends k) \<Longrightarrow> ends (ASSERT c k)"
  by (simp add: ASSERT_def ends_def)

lemma ends_if [ends_intro]: "(c \<Longrightarrow> ends a) \<Longrightarrow> (\<not> c \<Longrightarrow> ends b) \<Longrightarrow> ends (if c then a else b)"
  by simp

lemma ends_let [ends_intro]: "ends (f x) \<Longrightarrow> ends (Let x f)"
  by simp

lemma ends_prod [ends_intro]: "(\<And>a b. p = (a, b) \<Longrightarrow> ends (f a b)) \<Longrightarrow> ends (case p of (a, b) \<Rightarrow> f a b)"
  by (cases p) simp

lemma ends_option [ends_intro]: "ends a \<Longrightarrow> (\<And>x. p = Some x \<Longrightarrow> ends (f x)) \<Longrightarrow> ends (case p of None \<Rightarrow> a | Some x \<Rightarrow> f x)"
  by (cases p) simp_all

lemma ends_list [ends_intro]: "ends a \<Longrightarrow> (\<And>x xs. ends (f x xs)) \<Longrightarrow> ends (case p of [] \<Rightarrow> a | x # xs \<Rightarrow> f x xs)"
  by (cases p) simp_all

lemma ends_desc [ends_intro]: "(\<And>i. ends (f i)) \<Longrightarrow> (\<And>p i. ends (g p i)) \<Longrightarrow> ends (case r of KDesc i \<Rightarrow> f i | UDesc p i \<Rightarrow> g p i)"
  by (cases r) simp_all

lemma rd_ends [ends_intro]: "ends (rd xs i)" by (simp add: rd_def ends_def)

lemma wr_ends [ends_intro]: "ends (wr xs i v)" by (simp add: wr_def ends_def)

subsection \<open>Strings and bitmaps\<close>

lemma memset_ends [ends_intro]: "ends (memset b p v n)"
  by (induction b p v n rule: memset.induct) (simp_all add: ends_Inr ends_bind wr_ends)

lemma memcpy_ends [ends_intro]: "ends (memcpy b p c q n)"
  by (induction b p c q n rule: memcpy.induct) (simp_all add: ends_Inr ends_bind wr_ends rd_ends)

lemma memcmp_ends [ends_intro]: "ends (memcmp a p b q n)"
proof (induction a p b q n rule: memcmp.induct)
  case (2 a p b q n)
  then show ?case unfolding memcmp.simps by (intro ends_intro)
qed (simp add: ends_Inr)

lemma strlen_ends [ends_intro]: "ends (strlen b p)"
proof (induction b p rule: strlen.induct)
  case (1 b p)
  then show ?case by (subst strlen.simps) (intro ends_intro)
qed

lemma strcpy_ends [ends_intro]: "ends (strcpy b p c q)"
proof (induction b p c q rule: strcpy.induct)
  case (1 b p c q)
  then show ?case by (subst strcpy.simps) (intro ends_intro)
qed

lemma strcmp_ends [ends_intro]: "ends (strcmp a p b q)"
proof (induction a p b q rule: strcmp.induct)
  case (1 a p b q)
  then show ?case by (subst strcmp.simps) (intro ends_intro)
qed

lemma strrchr_ends [ends_intro]: "ends (strrchr b p c)"
proof -
  have "ends (strrchr_loop b p c l)" for l
  proof (induction b p c l rule: strrchr_loop.induct)
    case (1 b p c l)
    then show ?case by (subst strrchr_loop.simps) (intro ends_intro)
  qed
  then show ?thesis by (simp add: strrchr_def)
qed

lemma strcat_ends [ends_intro]: "ends (strcat b p c q)"
proof -
  have "ends (strcat_copy b p c q)" for b p
  proof (induction b p c q rule: strcat_copy.induct)
    case (1 b p c q)
    then show ?case by (subst strcat_copy.simps) (intro ends_intro)
  qed
  then show ?thesis unfolding strcat_def by (intro ends_intro)
qed

lemma bitmap_scan_ends [ends_intro]: "ends (bitmap_scan b n)"
proof -
  have "ends (skip_full b i)" for i
  proof (induction b i rule: skip_full.induct)
    case (1 b i)
    then show ?case by (subst skip_full.simps) (intro ends_intro)
  qed
  moreover have "ends (scan_run b n l i k)" for l i k
  proof (induction b n l i k rule: scan_run.induct)
    case (1 b n l i k)
    have "ends (bitmap_scan_test b j)" for j unfolding bitmap_scan_test_def by (intro ends_intro)
    then show ?case using 1 by (subst scan_run.simps) (intro ends_intro; simp)
  qed
  ultimately show ?thesis unfolding bitmap_scan_def by (intro ends_intro)
qed

lemma bitmap_set_ends [ends_intro]: "ends (bitmap_set b i v)"
  unfolding bitmap_set_def by (intro ends_intro)

subsection \<open>Threads and locks\<close>

lemma kl_ends [ends_intro]: "ends (kl_push e xs)" "ends (kl_append e xs)" "ends (kl_remove e xs)" "ends (kl_pop xs)"
  unfolding kl_push_def kl_append_def kl_remove_def kl_pop_def by (intro ends_intro)+

lemma vread_ends [ends_intro]: "ends (vread v s)" unfolding vread_def by (intro ends_intro)

lemma vwrite_ends [ends_intro]: "ends (vwrite v x s)" unfolding vwrite_def by (intro ends_intro)

lemma addr_v2p_ends [ends_intro]: "ends (addr_v2p v s)" unfolding addr_v2p_def by (intro ends_intro)

lemma pcb_ends [ends_intro]: "ends (pcb p s)" unfolding pcb_def by (intro ends_intro)

lemma upd_pcb_ends [ends_intro]: "ends (upd_pcb p f s)" unfolding upd_pcb_def by (intro ends_intro)

lemma thread_unblock_ends [ends_intro]: "ends (thread_unblock p s)"
  unfolding thread_unblock_def by (intro ends_intro)

lemma schedule_ends [ends_intro]: "ends (schedule s)"
  unfolding schedule_def dispatch_def process_activate_def page_dir_activate_def switch_to_def by (intro ends_intro)

lemma thread_block_ends [ends_intro]: "ends (thread_block st s)"
  unfolding thread_block_def by (intro ends_intro)

lemma lock_ends [ends_intro]: "ends (lock_acquire l s)" "ends (lock_release l s)"
  unfolding lock_acquire_def lock_release_def sema_down_def sema_down_pass_def sema_up_def by (intro ends_intro)+

subsection \<open>Pages and the heap\<close>

lemma vzero_ends [ends_intro]: "ends (vzero n v s)"
  by (induction n arbitrary: v s) (simp_all add: ends_Inr ends_bind vwrite_ends)

lemma pool_ends [ends_intro]: "ends (acquire_pool pf s)" "ends (release_pool pf s)" "ends (palloc pf s)" "ends (pfree a s)"
  unfolding acquire_pool_def release_pool_def palloc_def pfree_def by (intro ends_intro)+

lemma page_table_ends [ends_intro]: "ends (page_table_add (palloc pf) v p s)" "ends (page_table_pte_remove v s)"
  unfolding page_table_add_def page_table_pte_remove_def by (intro ends_intro)+

lemma set_bits_ends [ends_intro]: "ends (set_bits n i v b)"
  by (induction n arbitrary: i b) (simp_all add: ends_Inr ends_bind bitmap_set_ends)

lemma vaddr_ends [ends_intro]: "ends (vaddr_get pf n s)" "ends (vaddr_remove pf v n s)"
  unfolding vaddr_get_def vaddr_remove_def the_vaddr_def set_vaddr_def by (intro ends_intro)+

lemma malloc_page_ends [ends_intro]: "ends (malloc_page pf n s)"
proof -
  have "ends (map_pages pf k v s)" for k v s
  proof (induction k arbitrary: v s)
    case (Suc k)
    then show ?case unfolding map_pages.simps by (intro ends_intro)
  qed (simp add: ends_Inr)
  then show ?thesis unfolding malloc_page_def by (intro ends_intro)
qed

lemma mfree_page_ends [ends_intro]: "ends (mfree_page pf v n s)"
proof -
  have "ends (free_pages_loop ok k v s)" for ok k v s
  proof (induction k arbitrary: v s)
    case (Suc k)
    then show ?case unfolding free_pages_loop.simps by (intro ends_intro)
  qed (simp add: ends_Inr)
  then show ?thesis unfolding mfree_page_def by (intro ends_intro)
qed

lemma desc_ends [ends_intro]: "ends (get_desc r s)" "ends (set_desc r d s)"
  unfolding get_desc_def set_desc_def by (intro ends_intro)+

lemma find_desc_ends [ends_intro]: "ends (find_desc n i f sz s)"
proof (induction n arbitrary: i)
  case (Suc n)
  then show ?case unfolding find_desc.simps by (intro ends_intro)
qed (simp add: ends_Inr)

lemma arena_loops_end [ends_intro]: "ends (fill_arena n i a d)" "ends (unlink_blocks n i a d)"
proof -
  show "ends (fill_arena n i a d)"
  proof (induction n arbitrary: i d)
    case (Suc n)
    then show ?case unfolding fill_arena.simps by (intro ends_intro)
  qed (simp add: ends_Inr)
  show "ends (unlink_blocks n i a d)"
  proof (induction n arbitrary: i d)
    case (Suc n)
    then show ?case unfolding unlink_blocks.simps by (intro ends_intro)
  qed (simp add: ends_Inr)
qed

lemma arena_at_ends [ends_intro]: "ends (arena_at a s)" unfolding arena_at_def by (intro ends_intro)

lemma sys_malloc_ends [ends_intro]: "ends (sys_malloc n s)"
  unfolding sys_malloc_def malloc_large_def malloc_small_def new_arena_def take_block_def vmemset0_def by (intro ends_intro)

lemma sys_free_ends [ends_intro]: "ends (sys_free p s)"
  unfolding sys_free_def free_block_def by (intro ends_intro)

end
