(* ===== verification/Fs_Calls.thy ===== *)
theory Fs_Calls
  imports Ends Fs
begin

section \<open>The calls of the file system as a whole\<close>

text \<open>
  Which of the calls of \<^verbatim>\<open>fileSystem/\<close> come to an end, whatever their arguments and whatever the disk holds. For the loops
  over paths this needs what every call keeps: the arrays of the state have the lengths they are declared with. The calls use the heap through the interface
  \<open>ending_heap\<close>, which the kernel's heap provides.
\<close>

subsection \<open>The shape of the state\<close>

text \<open>A sector has 512 bytes, the table of open files 32 entries, that of a process 8, an inode 13 sectors, the
  buffer of a directory 512 bytes, and a bitmap the bytes it says it has.\<close>

definition fs_shape :: "'k fs \<Rightarrow> bool" where
  "fs_shape s \<longleftrightarrow> disk_ok (hd_disk s) \<and> length (file_table s) = MAX_FILE_OPEN
     \<and> length (fd_table (cur_task s)) = MAX_FILES_OPEN_PER_PROC
     \<and> (\<forall>p i. inodes s p = Some i \<longrightarrow> length (i_sectors i) = 13)
     \<and> (\<forall>p x. dirs s p = Some x \<longrightarrow> length (dir_buf x) = 512) \<and> length (dir_buf (root_dir s)) = 512
     \<and> bitmap_ok (block_bitmap (cur_part s)) \<and> bitmap_ok (inode_bitmap (cur_part s))"

text \<open>\<open>good d m\<close>: \<open>m\<close> keeps the shape and, unless \<open>d\<close> holds, ends.\<close>

definition good :: "bool \<Rightarrow> ('a, 'k) fsm \<Rightarrow> bool" where
  "good d m \<longleftrightarrow> (\<forall>s. fs_shape s \<longrightarrow> (case m s of Inl e \<Rightarrow> d \<or> e \<noteq> Diverge | Inr (x, s') \<Rightarrow> fs_shape s'))"

named_theorems good_intro \<open>rules for the constructs of a definition, and what is known to be good\<close>

lemma goodI:
  assumes "\<And>s x s'. fs_shape s \<Longrightarrow> m s = Inr (x, s') \<Longrightarrow> fs_shape s'" and "\<And>s. d \<or> ends (m s)"
  shows "good d m"
proof -
  have "case m s of Inl e \<Rightarrow> d \<or> e \<noteq> Diverge | Inr (x, s') \<Rightarrow> fs_shape s'" if "fs_shape s" for s
    using assms(1) [OF that] assms(2) [of s] by (cases "m s") (auto simp: ends_def)
  then show ?thesis by (simp add: good_def)
qed

lemma goodD: "good d m \<Longrightarrow> fs_shape s \<Longrightarrow> m s = Inr (x, s') \<Longrightarrow> fs_shape s'"
  by (auto simp: good_def dest!: spec [of _ s])

lemma good_ends: "good False m \<Longrightarrow> fs_shape s \<Longrightarrow> m s \<noteq> Inl Diverge"
  by (auto simp: good_def dest!: spec [of _ s])

lemma good_retM [good_intro]: "good d (retM x)" by (simp add: good_def)

lemma good_failM [good_intro]: "good d (failM Bad_Access)" "good d (failM Assert_Fail)" "good d (failM Would_Block)"
  by (simp_all add: good_def)

lemma good_bindM [good_intro]:
  assumes "good d m" and "\<And>x. good d (f x)"
  shows "good d (bindM m f)"
proof -
  have "case bindM m f s of Inl e \<Rightarrow> d \<or> e \<noteq> Diverge | Inr (x, s') \<Rightarrow> fs_shape s'" if "fs_shape s" for s
  proof (cases "m s")
    case (Inl e)
    then show ?thesis using assms(1) that by (auto simp: good_def dest!: spec [of _ s])
  next
    case (Inr y)
    then show ?thesis using goodD [OF assms(1) that] assms(2) [of "fst y"] by (cases y) (auto simp: good_def)
  qed
  then show ?thesis by (simp add: good_def)
qed

lemma good_liftM [good_intro]: "ends r \<Longrightarrow> good d (liftM r)"
  by (cases r) (auto simp: good_def ends_def)

text \<open>With what is known of the result.\<close>

lemma good_bind_liftM: "ends r \<Longrightarrow> (\<And>x. r = Inr x \<Longrightarrow> good d (f x)) \<Longrightarrow> good d (bindM (liftM r) f)"
  by (cases r) (auto simp: good_def ends_def)

lemma good_assertM [good_intro]: "(c \<Longrightarrow> good d m) \<Longrightarrow> good d (assertM c m)"
  by (auto simp: good_def ASSERT_def)

lemma good_getM [good_intro]: "good d (getM f)" by (simp add: good_def)

lemma good_modM [good_intro]: "(\<And>s. fs_shape s \<Longrightarrow> fs_shape (f s)) \<Longrightarrow> good d (modM f)" by (simp add: good_def)

lemma good_ptrM [good_intro]: "good d m \<Longrightarrow> good d (ptrM p m)" by (simp add: ptrM_def good_failM)

lemma good_if [good_intro]: "(c \<Longrightarrow> good d a) \<Longrightarrow> (\<not> c \<Longrightarrow> good d b) \<Longrightarrow> good d (if c then a else b)" by simp

lemma good_let [good_intro]: "good d (f x) \<Longrightarrow> good d (Let x f)" by simp

lemma good_prod [good_intro]: "(\<And>a b. p = (a, b) \<Longrightarrow> good d (f a b)) \<Longrightarrow> good d (case p of (a, b) \<Rightarrow> f a b)" by (cases p) simp

lemma good_option [good_intro]:
  "good d a \<Longrightarrow> (\<And>x. p = Some x \<Longrightarrow> good d (f x)) \<Longrightarrow> good d (case p of None \<Rightarrow> a | Some x \<Rightarrow> f x)"
  by (cases p) simp_all

lemma good_dirp [good_intro]: "good d a \<Longrightarrow> (\<And>x. good d (f x)) \<Longrightarrow> good d (case p of Root_Dir \<Rightarrow> a | Dir x \<Rightarrow> f x)"
  by (cases p) simp_all

lemma good_map_type [good_intro]: "good d a \<Longrightarrow> good d b \<Longrightarrow> good d (case t of INODE_BITMAP \<Rightarrow> a | BLOCK_BITMAP \<Rightarrow> b)"
  by (cases t) simp_all

subsection \<open>The disk and the structures\<close>

lemma readM_good [good_intro]: "good d (readM l n)"
  by (rule goodI) (auto simp: readM_def ASSERT_def ends_def split: if_splits)

lemma good_bind_readM:
  assumes "\<And>b. length b = 512 * unat n \<Longrightarrow> good d (f b)"
  shows "good d (bindM (readM l n) f)"
proof -
  have "case bindM (readM l n) f s of Inl e \<Rightarrow> d \<or> e \<noteq> Diverge | Inr (x, s') \<Rightarrow> fs_shape s'" if "fs_shape s" for s
  proof -
    have "length (read_secs (hd_disk s) l (unat n)) = 512 * unat n" using that by (intro length_read_secs) (simp add: fs_shape_def)
    from assms [OF this] that show ?thesis by (auto simp: good_def readM_def ASSERT_def)
  qed
  then show ?thesis by (simp add: good_def)
qed

lemma writeM_good [good_intro]: "good d (writeM l b n)"
  by (rule goodI) (auto simp: writeM_def ASSERT_def ends_def fs_shape_def write_secs_ok split: if_splits)

lemma getSb_good [good_intro]: "good d (getSb f)" unfolding getSb_def by (rule good_getM)

lemma get_inode_good [good_intro]: "good d (get_inode p)"
  by (rule goodI) (auto simp: get_inode_def ends_def split: option.splits)

lemma upd_inode_good [good_intro]:
  "(\<And>i. length (i_sectors i) = 13 \<Longrightarrow> length (i_sectors (f i)) = 13) \<Longrightarrow> good d (upd_inode p f)"
  by (rule goodI) (auto simp: upd_inode_def ends_def fs_shape_def split: option.splits if_splits)

lemma set_sector_length [simp]: "length (i_sectors (set_sector k b i)) = length (i_sectors i)"
  by (simp add: set_sector_def)

lemma get_dir_good [good_intro]: "good d (get_dir x)"
  by (rule goodI) (auto simp: get_dir_def ends_def split: option.splits dirp.splits)

lemma upd_dir_good [good_intro]:
  "(\<And>x. length (dir_buf x) = 512 \<Longrightarrow> length (dir_buf (f x)) = 512) \<Longrightarrow> good d (upd_dir p f)"
  by (rule goodI) (auto simp: upd_dir_def ends_def fs_shape_def split: option.splits dirp.splits if_splits)

lemma the_inode_of_good [good_intro]: "good d (the_inode_of x)"
  unfolding the_inode_of_def by (intro good_intro)

lemma divM_good [good_intro]: "good d (divM a b)" unfolding divM_def by (intro good_intro)

lemma bitmap_set_shape: "bitmap_set b i v = Inr b' \<Longrightarrow> bitmap_ok b \<Longrightarrow> bitmap_ok b'"
  by (auto simp: bitmap_set_def bitmap_ok_def bit_cnt_def ASSERT_def bindR_eq_Inr wr_eq_Inr split: if_splits)

lemma good_bind_getM:
  fixes g :: "'k fs \<Rightarrow> 'a"
  assumes "\<And>s. fs_shape s \<Longrightarrow> good d (f (g s))"
  shows "good d (bindM (getM g) f)"
  unfolding good_def
proof (intro allI impI)
  fix s :: "'k fs"
  assume "fs_shape s"
  with assms [OF this] show "case bindM (getM g) f s of Inl e \<Rightarrow> d \<or> e \<noteq> Diverge | Inr (x, s') \<Rightarrow> fs_shape s'"
    by (simp add: good_def)
qed

lemma good_bind_map:
  assumes "\<And>b. bitmap_ok b \<Longrightarrow> good d (f b)"
  shows "good d (bindM (getM (inode_bitmap \<circ> cur_part)) f)" "good d (bindM (getM (block_bitmap \<circ> cur_part)) f)"
  by (rule good_bind_getM, rule assms, simp add: fs_shape_def)+

lemma modPart_good [good_intro]:
  "bitmap_ok b \<Longrightarrow> good d (modPart (\<lambda>p. p\<lparr>inode_bitmap := b\<rparr>))" "bitmap_ok b \<Longrightarrow> good d (modPart (\<lambda>p. p\<lparr>block_bitmap := b\<rparr>))"
  "good d (modPart (\<lambda>p. p\<lparr>open_inodes := l\<rparr>))"
  unfolding modPart_def by (intro good_modM; simp add: fs_shape_def)+

text \<open>A bit set in a bitmap that is then stored.\<close>

lemma good_bind_set:
  assumes "bitmap_ok btmp" and "\<And>b. bitmap_ok b \<Longrightarrow> good d (f b)"
  shows "good d (bindM (liftM (bitmap_set btmp i v)) f)"
  by (rule good_bind_liftM [OF bitmap_set_ends]) (rule assms(2) [OF bitmap_set_shape [OF _ assms(1)]])

lemma map_ops_good [good_intro]:
  "good d inode_bitmap_alloc" "good d block_bitmap_alloc" "good d (set_inode_bit i v)" "good d (set_block_bit i v)"
  unfolding inode_bitmap_alloc_def block_bitmap_alloc_def set_inode_bit_def set_block_bit_def
  by (rule good_bind_map good_bind_set good_intro ends_intro | assumption)+

lemma bitmap_sync_good [good_intro]: "good d (bitmap_sync i t)"
  unfolding bitmap_sync_def by (intro good_intro)

subsection \<open>Inodes, directories and files\<close>

lemma inode_locate_good [good_intro]: "good d (inode_locate no)" unfolding inode_locate_def by (intro good_intro)

lemma inode_store_good [good_intro]: "good d (inode_store len pos new)"
  unfolding inode_store_def by (intro good_intro ends_intro)

lemma inode_sync_good [good_intro]: "good d (inode_sync i len)" unfolding inode_sync_def by (intro good_intro)

lemma push_open_good [good_intro]: "good d (push_open p)" unfolding push_open_def by (intro good_intro ends_intro)

lemma inode_delete_good [good_intro]: "good d (inode_delete no len)" unfolding inode_delete_def by (intro good_intro)

lemma all_blocks_of_good [good_intro]: "good d (all_blocks_of i)" unfolding all_blocks_of_def by (intro good_intro)

lemma release_blocks_good [good_intro]: "good d (release_block b)" "good d (release_blocks bs)"
proof -
  show r: "good d (release_block b)" for b unfolding release_block_def by (intro good_intro)
  show "good d (release_blocks bs)" by (induction bs) (simp_all only: release_blocks.simps good_if r good_retM good_bindM)
qed

lemma find_open_ends [ends_intro]: "ends (find_open ins no ps)"
  by (induction ins no ps rule: find_open.induct) (simp_all add: ends_Inr ends_faults split: option.split)

lemma de_ends [ends_intro]: "ends (de_no b k)" "ends (de_type b k)"
  by (simp_all add: de_no_def de_type_def le32_def ends_def)

lemma search_entries_ends [ends_intro]: "ends (search_entries b nm n sz m)"
proof (induction m)
  case (Suc m)
  then show ?case unfolding search_entries.simps by (intro ends_intro)
qed (simp add: ends_Inr)

lemma search_blocks_good [good_intro]: "good d (search_blocks bs nm sz)"
proof (induction bs nm sz rule: search_blocks.induct)
  case (2 lba bs nm sz)
  then show ?case unfolding search_blocks.simps by (intro good_intro ends_intro; simp)
qed (simp only: search_blocks.simps good_retM)

lemma free_entry_ends [ends_intro]: "ends (free_entry b n m)"
proof (induction m)
  case (Suc m)
  then show ?case unfolding free_entry.simps by (intro ends_intro)
qed (simp add: ends_Inr)

lemma create_dir_entry_ends [ends_intro]: "ends (create_dir_entry nm p no t)"
  unfolding create_dir_entry_def by (intro ends_intro)

lemma grow_dir_good [good_intro]: "good d (grow_dir ip)" unfolding grow_dir_def by (intro good_intro) simp

lemma new_block_good [good_intro]: "good d new_block" unfolding new_block_def by (intro good_intro)

lemma add_block_good [good_intro]: "good d (add_block ip k bs)" unfolding add_block_def by (intro good_intro; simp)

lemma sync_blocks_good [good_intro]: "good d (sync_blocks ip e sz bs m)"
proof (induction m)
  case (Suc m)
  then show ?case unfolding sync_blocks.simps by (intro good_intro ends_intro)
qed (simp only: sync_blocks.simps good_retM)

lemma sync_dir_entry_good [good_intro]: "good d (sync_dir_entry x e)" unfolding sync_dir_entry_def by (intro good_intro)

lemma scan_entries_ends [ends_intro]: "ends (scan_entries b no n m r)"
proof (induction m arbitrary: r)
  case (Suc m)
  then show ?case unfolding scan_entries.simps by (intro ends_intro)
qed (simp add: ends_Inr)

text \<open>Deleting an entry may loop: \<open>count_indirect\<close>.\<close>

lemma drop_block_good [good_intro]: "good True (drop_block ip k bs)"
proof -
  have "good True (count_indirect a b)" for a b by (simp add: good_def count_indirect_def)
  then show ?thesis unfolding drop_block_def by (intro good_intro; simp)
qed

lemma delete_at_good [good_intro]: "good True (delete_at ip bs k b sz fc e)"
  unfolding delete_at_def by (intro good_intro ends_intro; simp)

lemma delete_blocks_good [good_intro]: "good True (delete_blocks ip bs no sz m)"
proof (induction m)
  case (Suc m)
  then show ?case unfolding delete_blocks.simps by (intro good_intro ends_intro)
qed (simp only: delete_blocks.simps good_retM)

lemma delete_dir_entry_good [good_intro]: "good True (delete_dir_entry x no)"
  unfolding delete_dir_entry_def by (intro good_intro)

lemma read_entries_ends [ends_intro]: "ends (read_entries b pos sz n m c)"
proof (induction m arbitrary: c)
  case (Suc m)
  then show ?case unfolding read_entries.simps by (intro ends_intro)
qed (simp add: ends_Inr)

lemma read_blocks_good [good_intro]: "good d (read_blocks x bs pos sz c)"
proof (induction x bs pos sz c rule: read_blocks.induct)
  case (2 x lba bs pos sz c)
  then show ?case unfolding read_blocks.simps by (intro good_if good_bind_readM good_intro ends_intro; simp)
qed (simp only: read_blocks.simps good_failM)

lemma dir_read_good [good_intro]: "good d (dir_read x)" "good d (dir_is_empty x)"
  unfolding dir_read_def dir_is_empty_def by (intro good_intro)+

lemma slots_good [good_intro]: "good d get_free_slot_in_global" "good d (pcb_fd_install g)" "good d (set_file k f)" "good d (get_file k)"
proof -
  show "good d get_free_slot_in_global" "good d (get_file k)"
    unfolding get_free_slot_in_global_def get_file_def by (intro good_intro ends_intro)+
  show "good d (pcb_fd_install g)"
    unfolding pcb_fd_install_def by (rule good_bind_getM, intro good_intro) (simp add: fs_shape_def)
  show "good d (set_file k f)"
    unfolding set_file_def by (rule good_bind_getM, rule good_bind_liftM, intro ends_intro, intro good_intro)
      (simp add: fs_shape_def wr_eq_Inr)
qed

lemma file_block_good [good_intro]: "good d file_block" unfolding file_block_def by (intro good_intro)

lemma first_block_good [good_intro]: "good d (first_block ip)" unfolding first_block_def by (intro good_intro) simp

lemma add_direct_good [good_intro]: "good d (add_direct ip k m bs)"
proof (induction m arbitrary: k bs)
  case (Suc m)
  then show ?case unfolding add_direct.simps by (intro good_intro; simp)
qed (simp only: add_direct.simps good_retM)

lemma add_across_good [good_intro]: "good d (add_across ip k m bs)"
proof (induction m arbitrary: k bs)
  case (Suc m)
  then show ?case unfolding add_across.simps by (intro good_intro; simp)
qed (simp only: add_across.simps good_retM)

text \<open>Adding indirect blocks may loop.\<close>

lemma add_indirect_good [good_intro]: "good True (add_indirect n k m bs)"
proof (induction n arbitrary: bs)
  case (Suc n)
  then show ?case unfolding add_indirect.simps by (intro good_intro)
qed (simp add: good_def)

lemma write_blocks_good [good_intro]: "good True (write_blocks ip a z)"
  unfolding write_blocks_def blocks_same_def blocks_direct_def blocks_across_def blocks_indirect_def
  by (intro good_intro ends_intro; simp)

lemma write_chunks_good [good_intro]: "good d (write_chunks ip k bs src cnt n first)"
proof (induction ip k bs src cnt n first rule: write_chunks.induct)
  case (1 ip k bs src cnt n first)
  then show ?case by (subst write_chunks.simps) (intro good_intro ends_intro; simp)
qed

lemma read_blocks_of_good [good_intro]: "good d (read_blocks_of i a z)" unfolding read_blocks_of_def by (intro good_intro)

lemma read_chunks_good [good_intro]: "good d (read_chunks k bs sz n)"
proof (induction k bs sz n rule: read_chunks.induct)
  case (1 k bs sz n)
  then show ?case by (subst read_chunks.simps) (intro good_intro ends_intro; simp)
qed

subsection \<open>Paths\<close>

lemma skip_slashes_ends [ends_intro]: "ends (skip_slashes b p)"
proof (induction b p rule: skip_slashes.induct)
  case (1 b p)
  then show ?case by (subst skip_slashes.simps) (intro ends_intro)
qed

lemma copy_name_ends [ends_intro]: "ends (copy_name b p nm q)"
proof (induction b p nm q rule: copy_name.induct)
  case (1 b p nm q)
  then show ?case by (subst copy_name.simps) (intro ends_intro; simp)
qed

lemma path_parse_ends [ends_intro]: "ends (path_parse b p nm)" unfolding path_parse_def by (intro ends_intro)

lemma path_depth_ends [ends_intro]: "ends (path_depth_cnt b)"
proof -
  have "ends (depth_loop b r nm k)" for r nm k
  proof (induction b r nm k rule: depth_loop.induct)
    case (1 b r nm k)
    then show ?case by (subst depth_loop.simps) (intro ends_intro; simp)
  qed
  then show ?thesis unfolding path_depth_cnt_def by (intro ends_intro)
qed

lemma path_tests_end [ends_intro]: "ends (is_root_path b)" "ends (add_name b nm)" "ends (last_name b)"
  unfolding is_root_path_def is_str_def add_name_def last_name_def by (intro ends_intro)+

text \<open>How many rounds the walk can still take.\<close>

definition rounds :: "buf \<Rightarrow> nat option \<Rightarrow> buf \<Rightarrow> nat" where
  "rounds b r nm = (if nm ! 0 = 0 then 0 else case r of None \<Rightarrow> 1 | Some p \<Rightarrow> 1 + (length b - p))"

lemma rounds_less:
  assumes "path_parse b p (replicate 16 0) = Inr (r, nm)" and "p < length b"
  shows "rounds b r nm \<le> length b - p"
proof (cases "nm ! 0 = 0")
  case False
  then obtain q where q: "r = Some q" using assms by (auto simp: path_parse_def bindR_eq_Inr split: if_splits)
  from path_parse_moves [of b p q nm] assms(1) False q have "p < q" "q < length b" by auto
  then show ?thesis using False q by (simp add: rounds_def)
qed (simp add: rounds_def)

lemma path_parse_in: "path_parse b p nm = Inr x \<Longrightarrow> p < length b"
  by (auto simp: path_parse_def bindR_eq_Inr rd_eq_Inr)

lemma rounds_next:
  assumes "(case r of None \<Rightarrow> Inr (None, replicate 16 0) | Some p \<Rightarrow> path_parse b p (replicate 16 0)) = Inr (r1, nm1)"
    and "nm ! 0 \<noteq> 0" and "rounds b r nm \<le> Suc n"
  shows "rounds b r1 nm1 \<le> n"
proof (cases r)
  case (Some p)
  then have "path_parse b p (replicate 16 0) = Inr (r1, nm1)" using assms(1) by simp
  from rounds_less [OF this path_parse_in [OF this]] show ?thesis using assms(2,3) Some by (simp add: rounds_def)
qed (use assms(1) in \<open>auto simp: rounds_def\<close>)

lemma inode_at_ends: "ends (inode_at b i)" by (simp add: inode_at_def ends_def)

lemma inode_at_length: "inode_at b i = Inr x \<Longrightarrow> length (i_sectors x) = 13"
  by (auto simp: inode_at_def inode_get_def split: if_splits)

subsection \<open>The working directory\<close>

text \<open>The first \<open>k\<close> bytes are no terminator.\<close>

definition filled :: "nat \<Rightarrow> buf \<Rightarrow> bool" where
  "filled k b \<longleftrightarrow> k \<le> length b \<and> (\<forall>i<k. b ! i \<noteq> 0)"

lemma strlen_at: "strlen b p = Inr n \<Longrightarrow> p + n < length b \<and> b ! (p + n) = 0 \<and> (\<forall>i<n. b ! (p + i) \<noteq> 0)"
proof (induction b p arbitrary: n rule: strlen.induct)
  case (1 b p)
  from "1.prems" have *: "(if p < length b then if b ! p = 0 then Inr 0 else bindR (strlen b (Suc p)) (\<lambda>n. Inr (Suc n))
      else Inl Bad_Access) = Inr n" by (subst (asm) strlen.simps)
  show ?case
  proof (cases "b ! p = 0")
    case False
    with * obtain m where m: "strlen b (Suc p) = Inr m" "n = Suc m" "p < length b" by (auto simp: bindR_eq_Inr split: if_splits)
    have "b ! (p + i) \<noteq> 0" if "i < n" for i
      using "1.IH" [OF m(3) False m(1)] False m(2) that by (cases i) auto
    then show ?thesis using "1.IH" [OF m(3) False m(1)] m(2) by simp
  qed (use * in \<open>auto split: if_splits\<close>)
qed

lemma strlen_filled: "strlen b 0 = Inr n \<Longrightarrow> filled n b \<and> n < length b \<and> b ! n = 0"
  using strlen_at [of b 0 n] by (simp add: filled_def)

lemma filled_le: "filled k b \<Longrightarrow> n < length b \<Longrightarrow> b ! n = 0 \<Longrightarrow> k \<le> n"
  by (auto simp: filled_def not_le [symmetric])

lemma strcat_copy_prefix: "strcat_copy b p c q = Inr b' \<Longrightarrow> length b' = length b \<and> (\<forall>i<p. b' ! i = b ! i)"
proof (induction b p c q arbitrary: b' rule: strcat_copy.induct)
  case (1 b p c q)
  from "1.prems" have *: "(if q < length c then if c ! q = 0 then Inr b
      else bindR (wr b p (c ! q)) (\<lambda>b. strcat_copy b (Suc p) c (Suc q)) else Inl Bad_Access) = Inr b'"
    by (subst (asm) strcat_copy.simps)
  show ?case
  proof (cases "c ! q = 0")
    case False
    with * have c: "q < length c" "wr b p (c ! q) = Inr (b[p := c ! q])" "strcat_copy (b[p := c ! q]) (Suc p) c (Suc q) = Inr b'"
      by (auto simp: bindR_eq_Inr wr_eq_Inr split: if_splits)
    from "1.IH" [OF c(1) False c(2,3)] show ?thesis by (simp add: nth_list_update)
  qed (use * in \<open>auto split: if_splits\<close>)
qed

text \<open>A slash and a name are put behind a path.\<close>

lemma add_entry_fills:
  assumes "strcat b 0 [47, 0] 0 = Inr b1" and "strcat b1 0 c q = Inr b2" and "filled k b"
  shows "length b2 = length b \<and> filled (Suc k) b2 \<and> k + 2 \<le> length b"
proof -
  obtain n where n: "strlen b 0 = Inr n" "strcat_copy b n [47, 0] 0 = Inr b1" using assms(1) by (auto simp: strcat_def bindR_eq_Inr)
  note s = strlen_filled [OF n(1)]
  have b1: "b1 = b[n := 47]" using n(2) s by (simp add: strcat_copy.simps)
  obtain m where m: "strlen b1 0 = Inr m" "strcat_copy b1 m c q = Inr b2" using assms(2) by (auto simp: strcat_def bindR_eq_Inr)
  note s1 = strlen_filled [OF m(1)] and c = strcat_copy_prefix [OF m(2)]
  have "filled (Suc n) b1" using s by (auto simp: b1 filled_def nth_list_update less_Suc_eq)
  then have "Suc n \<le> m" using s1 filled_le by blast
  moreover have "k \<le> n" using filled_le [OF assms(3)] s by blast
  ultimately show ?thesis using s1 c by (auto simp: filled_def b1)
qed

lemma strrchr_before:
  assumes "strrchr b 0 c = Inr (Some k)" and "n < length b" and "b ! n = 0"
  shows "k < n"
proof -
  have "k < n" if "strrchr_loop b p c l = Inr (Some k)" "p \<le> n" "\<forall>j. l = Some j \<longrightarrow> j < p" "b ! n = 0" for b p l
    using that
  proof (induction b p c l rule: strrchr_loop.induct)
    case (1 b p c l)
    from "1.prems"(1) have *: "(if p < length b then if b ! p = 0 then Inr l
        else strrchr_loop b (Suc p) c (if sint (b ! p) = uint c then Some p else l) else Inl Bad_Access) = Inr (Some k)"
      by (subst (asm) strrchr_loop.simps)
    show ?case
    proof (cases "b ! p = 0")
      case True
      then show ?thesis using * "1.prems"(2,3) by (auto split: if_splits)
    next
      case False
      then have "p < length b" "strrchr_loop b (Suc p) c (if sint (b ! p) = uint c then Some p else l) = Inr (Some k)"
        using * by (auto split: if_splits)
      moreover have "Suc p \<le> n" using False "1.prems"(2,4) by (cases "p = n") auto
      ultimately show ?thesis using "1.IH" [OF _ False] "1.prems"(3,4) by (auto split: if_splits simp: less_Suc_eq)
    qed
  qed
  from this [of b 0 None] show ?thesis using assms by (simp add: strrchr_def)
qed

lemma child_entry_ends [ends_intro]: "ends (child_entry b c n m)"
proof (induction m)
  case (Suc m)
  then show ?case unfolding child_entry.simps by (intro ends_intro)
qed (simp add: ends_Inr)

lemma child_name_good [good_intro]: "good d (child_name bs c sz path)"
proof (induction bs c sz path rule: child_name.induct)
  case (2 lba bs c sz path)
  then show ?case unfolding child_name.simps by (intro good_intro ends_intro; simp)
qed (simp only: child_name.simps good_retM)

lemma child_name_fills:
  "child_name bs c sz path s = Inr (Some p2, s') \<Longrightarrow> filled k path \<Longrightarrow>
   length p2 = length path \<and> filled (Suc k) p2 \<and> k + 2 \<le> length path"
proof (induction bs c sz path arbitrary: s rule: child_name.induct)
  case (2 lba bs c sz path)
  show ?case
  proof (cases "lba = 0")
    case True
    then show ?thesis using 2 by simp
  next
    case False
    with "2.prems"(1) obtain b s1 r where b: "readM lba 1 s = Inr (b, s1)"
        "child_entry b c (unat (SECTOR_SIZE div sz)) (unat (SECTOR_SIZE div sz)) = Inr r"
        "(case r of None \<Rightarrow> child_name bs c sz path | Some j \<Rightarrow> bindM (liftM (strcat path 0 [47, 0] 0)) (\<lambda>p1.
           bindM (liftM (strcat p1 0 b (24 * j))) (\<lambda>p2. retM (Some p2)))) s1 = Inr (Some p2, s')"
      by (auto simp: bindR_eq_Inr)
    show ?thesis
    proof (cases r)
      case None
      then show ?thesis using "2.IH"(2) [OF False None] b(3) "2.prems"(2) by simp
    next
      case (Some j)
      with b(3) obtain p1 where "strcat path 0 [47, 0] 0 = Inr p1" "strcat p1 0 b (24 * j) = Inr p2" by (auto simp: bindR_eq_Inr)
      then show ?thesis using "2.prems"(2) by (rule add_entry_fills)
    qed
  qed
qed simp

lemma get_child_dir_name_fills:
  assumes "get_child_dir_name h a c path s = Inr (Some p2, s')" and "filled k path"
  shows "length p2 = length path \<and> filled (Suc k) p2 \<and> k + 2 \<le> length path"
  using assms(1) child_name_fills [OF _ assms(2)] by (fastforce simp: get_child_dir_name_def bindR_eq_Inr)

lemma cwd_up_length: "cwd_up n h c path s = Inr (Some p, s') \<Longrightarrow> length p = length path"
proof (induction n h c path arbitrary: s rule: cwd_up.induct)
  case (1 n h c path)
  show ?case
  proof (cases "c = 0")
    case True
    then show ?thesis using "1.prems" by (subst (asm) cwd_up.simps) simp
  next
    case False
    then obtain m where m: "n = Suc m" using "1.prems" by (subst (asm) cwd_up.simps) (cases n; simp)
    from "1.prems" False obtain a s1 r s2 where r: "get_child_dir_name h a c path s1 = Inr (r, s2)"
        "(case r of None \<Rightarrow> retM None | Some p1 \<Rightarrow> cwd_up m h a p1) s2 = Inr (Some p, s')"
      by (subst (asm) cwd_up.simps) (auto simp: m bindR_eq_Inr)
    then obtain p1 where p1: "r = Some p1" by (cases r) auto
    have "filled 0 path" by (simp add: filled_def)
    then show ?thesis using "1.IH" [OF False m p1] get_child_dir_name_fills [of h a c path s1 p1 s2 0] r p1 by simp
  qed
qed

lemma cwd_turn_ends:
  "k \<le> n \<Longrightarrow> k < length full \<Longrightarrow> full ! k = 0 \<Longrightarrow> ends (cwd_turn n full b)"
proof (induction n arbitrary: k full b)
  case 0
  then have "strrchr full 0 47 \<noteq> Inr (Some p)" for p using strrchr_before [of full 47 p k] by auto
  then show ?case by (subst cwd_turn.simps) (intro ends_intro; auto)
next
  case (Suc n)
  have next_ends: "ends (cwd_turn n (full[p := 0]) b)" if "strrchr full 0 47 = Inr (Some p)" for p b
    using strrchr_before [OF that Suc.prems(2,3)] Suc.prems by (intro Suc.IH [of p]) auto
  show ?case by (subst cwd_turn.simps, simp only: nat.case) (intro ends_intro next_ends; simp)
qed

lemma file_in_use_ends [ends_intro]: "ends (file_in_use ins no fs)"
  by (induction ins no fs rule: file_in_use.induct) (simp_all add: ends_Inr ends_faults split: option.split)

lemma descriptors_good [good_intro]: "good d (fd_local2global fd)" "good d (sys_lseek fd off w)" "good d (sys_readdir x)" "good d (sys_rewinddir y)"
proof -
  show f: "good d (fd_local2global fd)" unfolding fd_local2global_def by (intro good_intro ends_intro)
  show "good d (sys_lseek fd off w)" unfolding sys_lseek_def by (intro good_intro f)
  show "good d (sys_readdir x)" "good d (sys_rewinddir y)"
    unfolding sys_readdir_def sys_rewinddir_def by (intro good_intro; simp)+
qed

lemma good_bind_result:
  assumes "good d m" and "\<And>x s s'. m s = Inr (x, s') \<Longrightarrow> good d (f x)"
  shows "good d (bindM m f)"
proof -
  have "case bindM m f s of Inl e \<Rightarrow> d \<or> e \<noteq> Diverge | Inr (x, s') \<Rightarrow> fs_shape s'" if "fs_shape s" for s
  proof (cases "m s")
    case (Inl e)
    then show ?thesis using assms(1) that by (auto simp: good_def dest!: spec [of _ s])
  next
    case (Inr y)
    then show ?thesis using goodD [OF assms(1) that] assms(2) [of s "fst y" "snd y"] by (cases y) (auto simp: good_def)
  qed
  then show ?thesis by (simp add: good_def)
qed

subsection \<open>With a heap\<close>

locale ending_heap =
  fixes h :: "'k heap_ops"
  assumes malloc_ends: "ends (hmalloc h kern n k)" and free_ends: "ends (hfree h kern p k)"
begin

lemma mallocM_good [good_intro]: "good d (mallocM h kern n)"
proof (rule goodI)
  have "ends (mallocM h kern n s)" for s unfolding mallocM_def by (intro ends_intro malloc_ends)
  then show "d \<or> ends (mallocM h kern n s)" for s by simp
qed (auto simp: mallocM_def bindR_eq_Inr fs_shape_def)

lemma freeM_good [good_intro]: "good d (freeM h kern p)"
proof (rule goodI)
  have "ends (freeM h kern p s)" for s unfolding freeM_def by (intro ends_intro free_ends)
  then show "d \<or> ends (freeM h kern p s)" for s by simp
qed (auto simp: freeM_def bindR_eq_Inr fs_shape_def)

lemma inode_load_good [good_intro]: "good d (inode_load h no)"
  unfolding inode_load_def
  by (rule good_bind_liftM good_intro inode_at_ends | simp add: fs_shape_def inode_at_length)+

lemma inode_open_good [good_intro]: "good d (inode_open h no)"
  unfolding inode_open_def by (rule good_bind_getM) (intro good_intro ends_intro; simp)

lemma inode_close_good [good_intro]: "good d (inode_close h p)"
  unfolding inode_close_def by (intro good_intro ends_intro; simp add: fs_shape_def)

lemma inode_release_good [good_intro]: "good d (inode_release h no)"
  unfolding inode_release_def by (intro good_intro)

lemma dirs_good [good_intro]: "good d (open_root_dir h)" "good d (dir_open h no)" "good d (dir_close h x)"
  unfolding open_root_dir_def dir_open_def dir_close_def by (intro good_intro; simp add: fs_shape_def)+

lemma search_dir_entry_good [good_intro]: "good d (search_dir_entry h x nm)"
  unfolding search_dir_entry_def by (intro good_intro)

lemma dir_remove_good [good_intro]: "good True (dir_remove h x y)"
  unfolding dir_remove_def by (intro good_intro)

lemma file_create_good [good_intro]: "good d (file_create h x b p flag)"
  unfolding file_create_def create_rollback_def create_finish_def
  by (intro good_intro ends_intro; simp add: fs_shape_def inode_init_def)

lemma file_open_good [good_intro]: "good d (file_open h no flag)"
  unfolding file_open_def by (intro good_intro; simp)

lemma file_close_good [good_intro]: "good d (file_close h k)"
  unfolding file_close_def by (intro good_intro; simp)

lemma file_write_good [good_intro]: "good True (file_write h k src n)"
  unfolding file_write_def by (intro good_intro)

lemma file_read_good [good_intro]: "good d (file_read h k len n)"
  unfolding file_read_def by (intro good_intro)

lemma search_loop_good:
  "rounds b r nm \<le> n \<Longrightarrow> good d (search_loop n h b r nm rec par e)"
proof (induction n arbitrary: r nm rec par e)
  case 0
  then have "nm ! 0 = 0" by (auto simp: rounds_def split: if_splits option.splits)
  then show ?case by (subst search_loop.simps) (simp only: if_True refl, intro good_intro ends_intro)
next
  case (Suc n)
  have "good d (search_loop n h b r1 nm1 rec par e)" if "nm ! 0 \<noteq> 0"
      "(case r of None \<Rightarrow> Inr (None, replicate 16 0) | Some p \<Rightarrow> path_parse b p (replicate 16 0)) = Inr (r1, nm1)" for r1 nm1 rec par e
    by (rule Suc.IH, rule rounds_next [OF that(2,1) Suc.prems])
  note next_good = this
  show ?case
    by (subst search_loop.simps) (rule good_bind_liftM good_intro ends_intro next_good | assumption | simp)+
qed

lemma search_file_good [good_intro]: "good d (search_file h b)"
proof -
  have "good d (search_loop (length b) h b r nm no_record 0 None)" if p: "path_parse b 0 (replicate 16 0) = Inr (r, nm)" for r nm
    using rounds_less [OF p path_parse_in [OF p]] by (intro search_loop_good) simp
  note loop = this
  show ?thesis
    unfolding search_file_def by (rule good_bind_liftM good_intro ends_intro loop | simp)+
qed

lemma sys_open_good: "good d (sys_open h path flags)"
  unfolding sys_open_def by (intro good_intro ends_intro)

lemma sys_close_good: "good d (sys_close h fd)"
  unfolding sys_close_def by (intro good_intro; simp add: fs_shape_def)

lemma kbd_getchar_good [good_intro]: "good d kbd_getchar"
proof -
  have "good d (case q of [] \<Rightarrow> failM Would_Block | c # cs \<Rightarrow> bindM (modM (\<lambda>s. s\<lparr>kbd_queue := cs\<rparr>)) (\<lambda>_. retM c))" for q
    by (cases q) (simp_all, (intro good_intro; simp add: fs_shape_def)+)
  then show ?thesis unfolding kbd_getchar_def by (intro good_intro)
qed

lemma read_stdin_good [good_intro]: "good d (read_stdin n room)"
  by (induction n arbitrary: room) (simp_all, intro good_intro, (intro good_intro | assumption)+)

lemma sys_read_good: "good d (sys_read h fd len n)"
  unfolding sys_read_def by (intro good_intro; simp add: fs_shape_def)

lemma sys_write_good: "good True (sys_write h fd src n)"
  unfolding sys_write_def by (intro good_intro ends_intro; simp add: fs_shape_def)

lemma sys_unlink_good: "good True (sys_unlink h path)"
  unfolding sys_unlink_def by (rule good_bind_getM good_intro ends_intro)+

lemma sys_mkdir_good: "good d (sys_mkdir h path)"
  unfolding sys_mkdir_def mkdir_in_def mkdir_finish_def mkdir_rollback_def by (intro good_intro ends_intro)

lemma sys_opendir_good: "good d (sys_opendir h path)" "good d (sys_closedir h x)"
  unfolding sys_opendir_def sys_closedir_def by (intro good_intro ends_intro)+

lemma sys_rmdir_good: "good True (sys_rmdir h path)"
  unfolding sys_rmdir_def by (intro good_intro)

lemma sys_chdir_good: "good d (sys_chdir h path)"
  unfolding sys_chdir_def by (intro good_intro; simp add: fs_shape_def)

lemma sys_stat_good: "good d (sys_stat h path)"
  unfolding sys_stat_def by (intro good_intro ends_intro)

lemma get_parent_good [good_intro]: "good d (get_parent_dir_inode_nr h c)" "good d (get_child_dir_name h a c path)"
  unfolding get_parent_dir_inode_nr_def get_child_dir_name_def by (intro good_intro ends_intro)+

lemma cwd_up_good: "filled k path \<Longrightarrow> length path \<le> n + k \<Longrightarrow> 0 < n \<Longrightarrow> good d (cwd_up n h c path)"
proof (induction n arbitrary: k c path)
  case (Suc n)
  have up: "good d (cwd_up n h a p1)" if r: "get_child_dir_name h a c path s = Inr (Some p1, s')" for a p1 s s'
    using get_child_dir_name_fills [OF r Suc.prems(1)] Suc.prems(2) by (intro Suc.IH [of "Suc k"]) auto
  show ?case
    by (subst cwd_up.simps, simp only: nat.case)
      (intro good_if good_retM good_bind_result get_parent_good good_option up; simp)
qed simp

lemma sys_getcwd_good: "good d (sys_getcwd h dst n)"
proof -
  have "filled 0 (replicate 512 0)" by (simp add: filled_def)
  then have up: "good d (cwd_up 512 h c (replicate 512 0))" for c by (rule cwd_up_good) simp_all
  have turn: "ends (cwd_turn 512 full b)" if "cwd_up 512 h c (replicate 512 0) s = Inr (Some full, s')" "strlen full 0 = Inr len" for full b c s s' len
    using cwd_up_length [OF that(1)] strlen_filled [OF that(2)] by (intro cwd_turn_ends [of len]) auto
  show ?thesis
    unfolding sys_getcwd_def
    by (intro good_bind_liftM good_bind_result good_intro ends_intro up turn; simp)
qed

end

interpretation kernel_heap: ending_heap sys_heap
proof
  have w: "ends (with_pgdir kern m k)" if "\<And>k. ends (m k)" for kern k and m :: "'k kmem_scheme \<Rightarrow> ('x \<times> 'k kmem_scheme) res"
    unfolding with_pgdir_def by (intro ends_intro that)
  show "ends (hmalloc sys_heap kern n k)" "ends (hfree sys_heap kern p k)" for kern n p and k :: "'k kmem_scheme"
    by (simp_all add: sys_heap_def) (intro ends_intro w)+
qed

subsection \<open>What holds of every call\<close>

definition always_ends :: "('a, 'k) fsm \<Rightarrow> bool" where
  "always_ends m \<longleftrightarrow> (\<forall>s. fs_shape s \<longrightarrow> m s \<noteq> Inl Diverge)"

lemma good_always_ends: "good False m \<Longrightarrow> always_ends m"
  unfolding always_ends_def by (blast dest: good_ends)

lemmas kernel_calls = kernel_heap.sys_open_good kernel_heap.sys_close_good kernel_heap.sys_read_good
  kernel_heap.sys_mkdir_good kernel_heap.sys_opendir_good kernel_heap.sys_chdir_good kernel_heap.sys_stat_good
  kernel_heap.sys_getcwd_good descriptors_good

text \<open>
  C37. The calls that walk paths and directories come to an end, on any disk, however its directories and inodes are
  linked: they return or stop at an assertion, at a bad access or at a wait. In particular the bounds on the rounds of the
  walk along a path (its length) and of the walk up to the root in \<^verbatim>\<open>getcwd\<close> (512, as every round makes a path in a buffer of 512
  bytes longer) are never what stops them. Writing and removing are not among them.
\<close>

theorem fs_calls_end:
  "always_ends (sys_open sys_heap path flags) \<and> always_ends (sys_close sys_heap fd)
   \<and> always_ends (sys_read sys_heap fd len n) \<and> always_ends (sys_lseek fd off whence)
   \<and> always_ends (sys_mkdir sys_heap path) \<and> always_ends (sys_opendir sys_heap path)
   \<and> always_ends (sys_closedir sys_heap x) \<and> always_ends (sys_readdir x) \<and> always_ends (sys_rewinddir y)
   \<and> always_ends (sys_chdir sys_heap path) \<and> always_ends (sys_getcwd sys_heap dst n) \<and> always_ends (sys_stat sys_heap path)"
  by (intro conjI good_always_ends kernel_calls)

text \<open>A state of that shape.\<close>

lemma small_fs_shape: "fs_shape small_fs"
  by (simp add: fs_shape_def small_fs_def small_map_def disk_ok_def bitmap_ok_def bit_cnt_def fs_consts blank_task_def)

subsection \<open>Growing a file that has an indirect block\<close>

lemma file_block_free:
  assumes "layout_ok s" and "card (used_blocks s) < block_cap s"
  obtains lba s' where "file_block s = Inr (Some lba, s')" and "layout_ok s'" and "block_cap s' = block_cap s"
    and "card (used_blocks s') = Suc (card (used_blocks s))"
proof -
  obtain lba s1 where a: "block_bitmap_alloc s = Inr (lba, s1)" "lba \<noteq> M1" "inodes s1 = inodes s" "data_lba s1 = data_lba s"
    "\<forall>f. \<exists>s'. bitmap_sync (lba - data_lba s) BLOCK_BITMAP (s1\<lparr>inodes := f\<rparr>) = Inr ((), s') \<and> blocks_taken s [lba] f s'"
    by (rule take_one_block [OF assms])
  obtain s' where s': "bitmap_sync (lba - data_lba s) BLOCK_BITMAP (s1\<lparr>inodes := inodes s\<rparr>) = Inr ((), s')" "blocks_taken s [lba] (inodes s) s'"
    using a(5) by blast
  have "s1\<lparr>inodes := inodes s\<rparr> = s1" using a(3) by simp
  then have "file_block s = Inr (Some lba, s')"
    using a(1,2,4) s'(1) by (simp add: file_block_def getSb_def data_lba_def)
  then show thesis using s'(2) by (intro that [of lba s']) (auto simp: blocks_taken_def)
qed

lemma file_block_full:
  assumes "layout_ok s" and "\<not> card (used_blocks s) < block_cap s"
  shows "used_blocks s = {..<block_cap s}" and "file_block s = Inl Bad_Access"
proof -
  let ?b = "block_bitmap (cur_part s)"
  have m: "bitmap_ok ?b" "length (bits ?b) = unat (btmp_bytes_len ?b)"
    using assms(1) by (auto simp: layout_ok_def map_ok_def bit_cnt_def)
  have sub: "used_blocks s \<subseteq> {..<block_cap s}" using used_bits_bound by (simp add: used_blocks_def block_cap_def)
  then show u: "used_blocks s = {..<block_cap s}" using assms(2) by (metis card_lessThan card_subset_eq finite_lessThan card_mono nat_less_le)
  then have "\<forall>k<bit_cnt ?b. bit_at ?b k" by (auto simp: used_blocks_def block_cap_def used_bits_def)
  from bitmap_scan_no_free [OF m(1) this, of 1] m(2) show "file_block s = Inl Bad_Access"
    by (simp add: file_block_def block_bitmap_alloc_def)
qed

text \<open>The rounds of the loop take the free blocks one after the other.\<close>

lemma add_indirect_rounds:
  "layout_ok s \<Longrightarrow> k < m \<Longrightarrow> n = block_cap s - card (used_blocks s) \<Longrightarrow>
   \<exists>s'. used_blocks s' = {..<block_cap s} \<and> layout_ok s' \<and> file_block s' = Inl Bad_Access
     \<and> (\<forall>j bs. \<exists>bs'. add_indirect (n + j) k m bs s = add_indirect j k m bs' s')"
proof (induction n arbitrary: s)
  case 0
  then show ?case using file_block_full [of s] by (intro exI [of _ s]) auto
next
  case (Suc n)
  then have True: "card (used_blocks s) < block_cap s" by simp
  obtain lba s1 where f: "file_block s = Inr (Some lba, s1)" "layout_ok s1" "block_cap s1 = block_cap s"
    "card (used_blocks s1) = Suc (card (used_blocks s))" by (rule file_block_free [OF Suc.prems(1) True])
  have "n = block_cap s1 - card (used_blocks s1)" using Suc.prems(3) f(3,4) by simp
  from Suc.IH [OF f(2) Suc.prems(2) this] obtain s' where s': "used_blocks s' = {..<block_cap s1}" "layout_ok s'"
    "file_block s' = Inl Bad_Access" "\<forall>j bs. \<exists>bs'. add_indirect (n + j) k m bs s1 = add_indirect j k m bs' s'" by blast
  have "\<exists>bs'. add_indirect (Suc n + j) k m bs s = add_indirect j k m bs' s'" for j bs
    using spec [OF spec [OF s'(4), of j], of "bs[k := lba]"] f(1) Suc.prems(2) by simp
  then show ?case using s'(1-3) f(3) by (intro exI [of _ s']) simp
qed

text \<open>
  C38. A file that has an indirect block cannot grow by another block: the loop that looks for the blocks never moves its
  index, so that each of its rounds takes a free block, until every block of the partition is in use; the next round
  reads past the end of the full bitmap, and this fault is how the write ends, however many blocks were free.
\<close>

theorem indirect_growth_stops:
  assumes l: "layout_ok s" and i: "inodes s ip = Some i" "i_sectors i ! 12 \<noteq> 0" "i_sectors i ! 12 \<le> max_lba"
    and k: "12 < has_used" "has_used < will_use"
  shows "\<exists>s'. used_blocks s' = {..<block_cap s} \<and> file_block s' = Inl Bad_Access
    \<and> (\<forall>j bs. \<exists>bs'. add_indirect (block_cap s - card (used_blocks s) + j) has_used will_use bs s
         = add_indirect j has_used will_use bs' s')
    \<and> write_blocks ip has_used will_use s = Inl Bad_Access"
proof -
  let ?n = "block_cap s - card (used_blocks s)" and ?m = "8 * length (bits (block_bitmap (cur_part s)))"
  let ?bs = "replicate 12 0 @ words_at (read_secs (hd_disk s) (i_sectors i ! 12) 1) 0 128"
  obtain s' where s': "used_blocks s' = {..<block_cap s}" "file_block s' = Inl Bad_Access"
    "\<forall>j bs. \<exists>bs'. add_indirect (?n + j) has_used will_use bs s = add_indirect j has_used will_use bs' s'"
    using add_indirect_rounds [OF l k(2) refl] by blast
  have "?n + (Suc ?m - ?n) = Suc ?m" "Suc ?m - ?n = Suc (?m - ?n)"
    using l by (auto simp: layout_ok_def map_ok_def block_cap_def bitmap_ok_def bit_cnt_def)
  then obtain bs' where "add_indirect (Suc ?m) has_used will_use ?bs s = add_indirect (Suc (?m - ?n)) has_used will_use bs' s'"
    using s'(3) [rule_format, of "Suc ?m - ?n" ?bs] by auto
  then have "add_indirect (Suc ?m) has_used will_use ?bs s = Inl Bad_Access" using s'(2) k(2) by simp
  then have "blocks_indirect i has_used will_use s = Inl Bad_Access"
    using i by (simp add: blocks_indirect_def readM_def del: add_indirect.simps)
  then have "write_blocks ip has_used will_use s = Inl Bad_Access" using i(1) k by (simp add: write_blocks_def get_inode_def)
  then show ?thesis using s' by blast
qed

theorem indirect_growth_stops_witness:
  "write_blocks 0x500 13 14 (file_fs\<lparr>inodes := [0x500 \<mapsto> set_sector 12 900 (inode_init 2)]\<rparr>) = Inl Bad_Access
   \<and> block_cap file_fs - card (used_blocks file_fs) = 4095"
proof -
  let ?s = "file_fs\<lparr>inodes := [0x500 \<mapsto> set_sector 12 900 (inode_init 2)]\<rparr>"
  let ?i = "set_sector 12 900 (inode_init 2)"
  have l: "layout_ok ?s" using file_fs_ok(2)
    by (simp add: layout_ok_def map_ok_def map_synced_def data_lba_def map_lba_def map_sects_def block_cap_def)
  have i: "inodes ?s 0x500 = Some ?i" "i_sectors ?i ! 12 \<noteq> 0" "i_sectors ?i ! 12 \<le> max_lba"
    by (simp_all add: set_sector_def inode_init_def max_lba_def)
  have k: "12 < (13 :: nat)" "(13 :: nat) < 14" by simp_all
  have "write_blocks 0x500 13 14 ?s = Inl Bad_Access" using indirect_growth_stops [OF l i k] by blast
  then show ?thesis using file_fs_ok(4,5) by simp
qed

end
