(* ===== verification/Console.thy ===== *)
theory Console
  imports Sync Stdio
begin

section \<open>The screen and the console (\<^verbatim>\<open>lib/print.s\<close>, \<^verbatim>\<open>device/console.c\<close>, \<^verbatim>\<open>kernel/stdio-kernel.c\<close>)\<close>

text \<open>
  The routines of \<^verbatim>\<open>print.s\<close> on the cursor registers of the display controller and on the bytes of the video
  segment, with 16-bit arithmetic as in the assembly; the console puts them under a lock, and \<^verbatim>\<open>printk\<close> on top formats.
  An access behind the limit of the segment (a general protection fault) is \<open>Bad_Access\<close>. The meaning is a terminal of
  25 rows of 80 cells.
\<close>

subsection \<open>The routines\<close>

text \<open>The registers 0x0e and 0x0f of the controller, and the video segment: 8 pages from 0xb8000, see \<^verbatim>\<open>VIDEO_DESC\<close>.\<close>

record screen =
  cursor_high :: u8
  cursor_low :: u8
  video :: buf

definition get_cursor :: "screen \<Rightarrow> u16" where
  "get_cursor s = push_bit 8 (ucast (cursor_high s)) OR ucast (cursor_low s)"

definition move_cursor :: "u16 \<Rightarrow> screen \<Rightarrow> screen" where
  "move_cursor bx s = s\<lparr>cursor_high := ucast (drop_bit 8 bx), cursor_low := ucast bx\<rparr>"

text \<open>\<^verbatim>\<open>rep movsd\<close> inside the segment, and the loop that stores the blank 0x0720.\<close>

fun rep_movsd :: "nat \<Rightarrow> nat \<Rightarrow> nat \<Rightarrow> buf \<Rightarrow> buf res" where
  "rep_movsd 0 esi edi v = Inr v"
| "rep_movsd (Suc n) esi edi v = bindR (memcpy v edi v esi 4) (rep_movsd n (esi + 4) (edi + 4))"

fun blank_words :: "nat \<Rightarrow> nat \<Rightarrow> buf \<Rightarrow> buf res" where
  "blank_words 0 ebx v = Inr v"
| "blank_words (Suc n) ebx v = bindR (wr v ebx 0x20) (\<lambda>v1. bindR (wr v1 (ebx + 1) 0x07) (blank_words n (ebx + 2)))"

definition roll_screen :: "screen \<Rightarrow> screen res" where
  "roll_screen s =
     bindR (rep_movsd 960 160 0 (video s)) (\<lambda>v.
     bindR (blank_words 80 3840 v) (\<lambda>v1. Inr (move_cursor 1920 (s\<lparr>video := v1\<rparr>))))"

definition line_return :: "u16 \<Rightarrow> screen \<Rightarrow> screen res" where
  "line_return bx s =
     (let bx1 = bx - bx mod 80 + 80 in if sint bx1 < 2000 then Inr (move_cursor bx1 s) else roll_screen s)"

definition put_char :: "u8 \<Rightarrow> screen \<Rightarrow> screen res" where
  "put_char cl s =
     (let bx = get_cursor s in
      if cl = 0xd \<or> cl = 0xa then line_return bx s
      else if cl = 0x8 then
        (let at = push_bit 1 (bx - 1) in
         bindR (wr (video s) (unat at) 0x20) (\<lambda>v.
         bindR (wr v (unat (at + 1)) 0x07) (\<lambda>v1.
         Inr (move_cursor (drop_bit 1 (at + 1)) (s\<lparr>video := v1\<rparr>)))))
      else
        (let at = push_bit 1 bx in
         bindR (wr (video s) (unat at) cl) (\<lambda>v.
         bindR (wr v (unat (at + 1)) 0x07) (\<lambda>v1.
         let bx1 = drop_bit 1 (at + 1) + 1; s1 = s\<lparr>video := v1\<rparr> in
         if sint bx1 < 2000 then Inr (move_cursor bx1 s1) else line_return bx1 s1))))"

function put_str :: "buf \<Rightarrow> nat \<Rightarrow> screen \<Rightarrow> screen res" where
  "put_str m p s =
     (if p < length m then
        if m ! p = 0 then Inr s else bindR (put_char (m ! p) s) (put_str m (Suc p))
      else Inl Bad_Access)"
  by pat_completeness auto
termination
  by (relation "measure (\<lambda>(m, p, s). length m - p)") auto

declare put_str.simps [simp del]

text \<open>\<^verbatim>\<open>put_int\<close>: eight digits into a buffer, from the last one; then the zeros in front are skipped, and the rest is put.\<close>

fun hex_digits :: "nat \<Rightarrow> u32 \<Rightarrow> u8 list" where
  "hex_digits 0 eax = []"
| "hex_digits (Suc n) eax =
     hex_digits n (drop_bit 4 eax) @ [let edx = eax AND 0xf in if edx > 9 then ucast (edx - 10 + 65) else ucast (edx + 48)]"

fun put_chars :: "u8 list \<Rightarrow> screen \<Rightarrow> screen res" where
  "put_chars [] s = Inr s"
| "put_chars (c # cs) s = bindR (put_char c s) (put_chars cs)"

definition put_int :: "u32 \<Rightarrow> screen \<Rightarrow> screen res" where
  "put_int num s =
     (case dropWhile (\<lambda>c. c = 48) (hex_digits 8 num) of [] \<Rightarrow> put_char 48 s | t \<Rightarrow> put_chars t s)"

definition cls_screen :: "screen \<Rightarrow> screen res" where
  "cls_screen s = bindR (blank_words 2000 0 (video s)) (\<lambda>v. Inr (move_cursor 0 (s\<lparr>video := v\<rparr>)))"

text \<open>\<^verbatim>\<open>set_cursor\<close> has no \<^verbatim>\<open>ret\<close>: after the registers are written, the processor goes on with \<^verbatim>\<open>put_int\<close>, which finds the
  argument of the caller, if there is one, where it looks for its own.\<close>

definition set_cursor :: "u32 \<Rightarrow> screen \<Rightarrow> screen res" where
  "set_cursor arg s = put_int arg (move_cursor 0 s)"

subsection \<open>The console\<close>

record con =
  console_lock :: lock
  con_screen :: screen

definition console_init :: "con \<Rightarrow> con" where
  "console_init c = c\<lparr>console_lock := lock_init\<rparr>"

definition console_acquire :: "con \<Rightarrow> 'a kernel_scheme \<Rightarrow> (con \<times> 'a kernel_scheme) res" where
  "console_acquire c s = bindR (lock_acquire (console_lock c) s) (\<lambda>(l, s1). Inr (c\<lparr>console_lock := l\<rparr>, s1))"

definition console_release :: "con \<Rightarrow> 'a kernel_scheme \<Rightarrow> (con \<times> 'a kernel_scheme) res" where
  "console_release c s = bindR (lock_release (console_lock c) s) (\<lambda>(l, s1). Inr (c\<lparr>console_lock := l\<rparr>, s1))"

definition console_put :: "(screen \<Rightarrow> screen res) \<Rightarrow> con \<Rightarrow> 'a kernel_scheme \<Rightarrow> (con \<times> 'a kernel_scheme) res" where
  "console_put f c s =
     bindR (console_acquire c s) (\<lambda>(c1, s1).
     bindR (f (con_screen c1)) (\<lambda>scr.
     console_release (c1\<lparr>con_screen := scr\<rparr>) s1))"

definition console_put_str :: "buf \<Rightarrow> nat \<Rightarrow> con \<Rightarrow> 'a kernel_scheme \<Rightarrow> (con \<times> 'a kernel_scheme) res" where
  "console_put_str msg p = console_put (put_str msg p)"

definition console_put_char :: "u8 \<Rightarrow> con \<Rightarrow> 'a kernel_scheme \<Rightarrow> (con \<times> 'a kernel_scheme) res" where
  "console_put_char ch = console_put (put_char ch)"

definition console_put_int :: "u32 \<Rightarrow> con \<Rightarrow> 'a kernel_scheme \<Rightarrow> (con \<times> 'a kernel_scheme) res" where
  "console_put_int num = console_put (put_int num)"

definition printk :: "buf \<Rightarrow> nat \<Rightarrow> arg list \<Rightarrow> con \<Rightarrow> 'a kernel_scheme \<Rightarrow> (con \<times> 'a kernel_scheme) res" where
  "printk fmt i args c s = bindR (vsprintf (replicate 1024 0) 0 fmt i args) (\<lambda>(n, buf). console_put_str buf 0 c s)"

definition sprintk :: "buf \<Rightarrow> nat \<Rightarrow> buf \<Rightarrow> nat \<Rightarrow> arg list \<Rightarrow> (nat \<times> buf) res" where
  "sprintk buf p fmt i ap = vsprintf buf p fmt i ap"

subsection \<open>The terminal\<close>

text \<open>What the screen shows: 2000 cells of a character and an attribute, and the place of the cursor.\<close>

type_synonym terminal = "(u8 \<times> u8) list \<times> nat"

definition blank :: "u8 \<times> u8" where
  "blank = (0x20, 7)"

definition cells :: "buf \<Rightarrow> (u8 \<times> u8) list" where
  "cells v = map (\<lambda>i. (v ! (2 * i), v ! (2 * i + 1))) [0..<2000]"

definition terminal :: "screen \<Rightarrow> terminal" where
  "terminal s = (cells (video s), unat (get_cursor s))"

definition screen_ok :: "screen \<Rightarrow> bool" where
  "screen_ok s \<longleftrightarrow> length (video s) = 0x8000 \<and> unat (get_cursor s) < 2000"

definition term_line :: "terminal \<Rightarrow> terminal" where
  "term_line t = (let (cs, p) = t; q = p - p mod 80 + 80 in
     if q < 2000 then (cs, q) else (drop 80 cs @ replicate 80 blank, 1920))"

definition term_put :: "u8 \<Rightarrow> terminal \<Rightarrow> terminal" where
  "term_put c t = (let (cs, p) = t in
     if c = 0xd \<or> c = 0xa then term_line t
     else if c = 0x8 then (cs[p - 1 := blank], p - 1)
     else if p + 1 < 2000 then (cs[p := (c, 7)], p + 1)
     else term_line (cs[p := (c, 7)], p + 1))"

subsection \<open>The cursor and the cells\<close>

lemma length_cells [simp]: "length (cells v) = 2000"
  by (simp add: cells_def)

lemma nth_cells [simp]: "i < 2000 \<Longrightarrow> cells v ! i = (v ! (2 * i), v ! (2 * i + 1))"
  by (simp add: cells_def)

lemma get_move_cursor [simp]: "get_cursor (move_cursor bx s) = bx"
  by (rule bit_word_eqI) (auto simp: get_cursor_def move_cursor_def bit_simps)

lemma video_move_cursor [simp]: "video (move_cursor bx s) = video s"
  by (simp add: move_cursor_def)

lemma get_cursor_video [simp]: "get_cursor (s\<lparr>video := v\<rparr>) = get_cursor s"
  by (simp add: get_cursor_def)

lemma cells_put:
  "p < 2000 \<Longrightarrow> 4000 \<le> length v \<Longrightarrow> cells (v[2 * p := a, Suc (2 * p) := b]) = (cells v)[p := (a, b)]"
proof (rule nth_equalityI)
  fix i assume v: "p < 2000" "4000 \<le> length v" and "i < length (cells (v[2 * p := a, Suc (2 * p) := b]))"
  then have "i < 2000" by simp
  moreover have "2 * i \<noteq> Suc (2 * p)" "Suc (2 * i) \<noteq> 2 * p" by presburger+
  ultimately show "cells (v[2 * p := a, Suc (2 * p) := b]) ! i = (cells v)[p := (a, b)] ! i"
    using v by (simp add: nth_list_update)
qed simp

lemma cursor_byte:
  assumes "unat (bx :: u16) < 2000"
  shows "unat (push_bit 1 bx) = 2 * unat bx" "unat (push_bit 1 bx + 1) = Suc (2 * unat bx)"
    and "drop_bit 1 (push_bit 1 bx + 1) = bx"
proof -
  show a: "unat (push_bit 1 bx) = 2 * unat bx"
    using assms by (simp add: push_bit_eq_mult unat_mult_small)
  then show b: "unat (push_bit 1 bx + 1) = Suc (2 * unat bx)"
    using assms unat_add_small [of "push_bit 1 bx" 1] by simp
  have "unat (drop_bit 1 (push_bit 1 bx + 1)) = drop_bit 1 (Suc (2 * unat bx))" by (simp only: unat_drop_bit_eq b)
  then show "drop_bit 1 (push_bit 1 bx + 1) = bx" by (intro unsigned_word_eqI) (simp add: drop_bit_eq_div)
qed

lemma sint_less:
  assumes "unat (w :: u16) < 32768"
  shows "sint w < 2000 \<longleftrightarrow> unat w < 2000"
proof -
  have u: "int (unat w) = uint w" by simp
  then have "uint w < 32768" "0 \<le> uint w" using assms by linarith+
  moreover have "- (2 ^ 15) \<le> (0 :: int)" by simp
  ultimately have "- (2 ^ 15) \<le> uint w" by linarith
  then have "signed_take_bit 15 (uint w) = uint w"
    by (rule signed_take_bit_int_eq_self) (use \<open>uint w < 32768\<close> in simp)
  then have "sint w = uint w" by (simp add: sint_uint)
  then show ?thesis using u by linarith
qed

subsection \<open>Blank cells and the roll of the screen\<close>

lemma rep_movsd_run:
  assumes "edi \<le> esi" and "esi + 4 * n \<le> length v"
  obtains v' where "rep_movsd n esi edi v = Inr v'" and "length v' = length v"
    and "\<forall>i. v' ! i = (if edi \<le> i \<and> i < edi + 4 * n then v ! (i + (esi - edi)) else v ! i)"
proof -
  have "\<exists>v'. rep_movsd n esi edi v = Inr v' \<and> length v' = length v
      \<and> (\<forall>i. v' ! i = (if edi \<le> i \<and> i < edi + 4 * n then v ! (i + (esi - edi)) else v ! i))"
    using assms
  proof (induction n arbitrary: esi edi v)
    case (Suc n)
    let ?v = "put edi (take 4 (drop esi v)) v"
    have l: "length ?v = length v" using Suc.prems by simp
    have v: "?v ! i = (if edi \<le> i \<and> i < edi + 4 then v ! (i + (esi - edi)) else v ! i)" for i
      using Suc.prems by (auto simp: nth_put algebra_simps)
    obtain v' where "rep_movsd n (esi + 4) (edi + 4) ?v = Inr v'" "length v' = length v"
        "\<forall>i. v' ! i = (if edi + 4 \<le> i \<and> i < edi + 4 + 4 * n then ?v ! (i + (esi - edi)) else ?v ! i)"
      using Suc.IH [of "edi + 4" "esi + 4" ?v] Suc.prems l by auto
    moreover have "memcpy v edi v esi 4 = Inr ?v" using Suc.prems by (intro memcpy_eq) simp_all
    moreover have "v' ! i = (if edi \<le> i \<and> i < edi + 4 * Suc n then v ! (i + (esi - edi)) else v ! i)" for i
    proof (cases "edi + 4 \<le> i")
      case True
      then have "\<not> i + (esi - edi) < edi + 4" by simp
      then show ?thesis using True calculation(3) by (simp add: v)
    next
      case False
      then show ?thesis using calculation(3) by (simp add: v)
    qed
    ultimately show ?case by auto
  qed simp
  then show thesis using that by blast
qed

lemma blank_words_run:
  assumes "ebx + 2 * n \<le> length v" and "even ebx"
  obtains v' where "blank_words n ebx v = Inr v'" and "length v' = length v"
    and "\<forall>i. v' ! i = (if ebx \<le> i \<and> i < ebx + 2 * n then if even i then 0x20 else 7 else v ! i)"
proof -
  have "\<exists>v'. blank_words n ebx v = Inr v' \<and> length v' = length v
      \<and> (\<forall>i. v' ! i = (if ebx \<le> i \<and> i < ebx + 2 * n then if even i then 0x20 else 7 else v ! i))"
    using assms
  proof (induction n arbitrary: ebx v)
    case (Suc n)
    let ?v = "v[ebx := 0x20, Suc ebx := 7]"
    have v: "?v ! i = (if i = ebx then 0x20 else if i = Suc ebx then 7 else v ! i)" for i
      using Suc.prems by (simp add: nth_list_update)
    obtain v' where "blank_words n (ebx + 2) ?v = Inr v'" "length v' = length v"
        "\<forall>i. v' ! i = (if ebx + 2 \<le> i \<and> i < ebx + 2 + 2 * n then if even i then 0x20 else 7 else ?v ! i)"
      using Suc.IH [of "ebx + 2" ?v] Suc.prems by auto
    moreover from this(3) have "\<forall>i. v' ! i = (if ebx \<le> i \<and> i < ebx + 2 * Suc n then if even i then 0x20 else 7 else v ! i)"
      unfolding v using Suc.prems(2) by (auto simp: le_less_Suc_eq less_Suc_eq_le)
    ultimately show ?case using Suc.prems(1) by auto
  qed auto
  then show thesis using that by blast
qed

lemma roll_screen_run:
  assumes "length (video s) = 0x8000"
  obtains v where "roll_screen s = Inr (move_cursor 1920 (s\<lparr>video := v\<rparr>))" and "length v = 0x8000"
    and "cells v = drop 80 (cells (video s)) @ replicate 80 blank"
proof -
  obtain v1 where 1: "rep_movsd 960 160 0 (video s) = Inr v1" "length v1 = 0x8000"
      "\<forall>i. v1 ! i = (if i < 3840 then video s ! (i + 160) else video s ! i)"
    by (rule rep_movsd_run [of 0 160 960 "video s"]) (use assms in auto)
  obtain v where 2: "blank_words 80 3840 v1 = Inr v" "length v = 0x8000"
      "\<forall>i. v ! i = (if 3840 \<le> i \<and> i < 4000 then if even i then 0x20 else 7 else v1 ! i)"
    by (rule blank_words_run [of 3840 80 v1]) (use 1(2) in auto)
  have "cells v ! i = (drop 80 (cells (video s)) @ replicate 80 blank) ! i" if "i < 2000" for i
    using that by (cases "i < 1920") (simp_all add: nth_append 1(3) 2(3) blank_def algebra_simps)
  then have "cells v = drop 80 (cells (video s)) @ replicate 80 blank" by (intro nth_equalityI) simp_all
  then show thesis using 1(1) 2(1,2) that by (simp add: roll_screen_def)
qed

text \<open>A blank screen.\<close>

lemma cls_screen_run:
  assumes "length (video s) = 0x8000"
  obtains s' where "cls_screen s = Inr s'" and "screen_ok s'" and "terminal s' = (replicate 2000 blank, 0)"
proof -
  obtain v where v: "blank_words 2000 0 (video s) = Inr v" "length v = 0x8000"
      "\<forall>i. v ! i = (if i < 4000 then if even i then 0x20 else 7 else video s ! i)"
    by (rule blank_words_run [of 0 2000 "video s"]) (use assms in auto)
  have "cells v = replicate 2000 blank" by (rule nth_equalityI) (simp_all add: v(3) blank_def)
  then show thesis using v that by (simp add: cls_screen_def screen_ok_def terminal_def)
qed

subsection \<open>Every routine is one of the terminal\<close>

lemma line_return_terminal:
  assumes "length (video s) = 0x8000" and "unat bx \<le> 2000"
  obtains s' where "line_return bx s = Inr s'" and "screen_ok s'" and "terminal s' = term_line (cells (video s), unat bx)"
proof -
  have m: "unat (bx mod 80) = unat bx mod 80" by (simp add: unat_mod)
  have "unat (bx - bx mod 80) = unat bx - unat bx mod 80"
    using unat_sub_small [of "bx mod 80" bx] m by simp
  moreover have "unat bx - unat bx mod 80 + 80 \<le> 2080" using assms(2) by linarith
  ultimately have u: "unat (bx - bx mod 80 + 80) = unat bx - unat bx mod 80 + 80"
    using unat_add_small [of "bx - bx mod 80" 80] by simp
  show thesis
  proof (cases "unat bx - unat bx mod 80 + 80 < 2000")
    case True
    then have "sint (bx - bx mod 80 + 80) < 2000" using u by (simp add: sint_less)
    then show thesis
      using that [of "move_cursor (bx - bx mod 80 + 80) s"] True assms(1) u
      by (simp add: line_return_def screen_ok_def terminal_def term_line_def)
  next
    case False
    then have "\<not> sint (bx - bx mod 80 + 80) < 2000" using u assms(2) by (simp add: sint_less)
    moreover obtain v where "roll_screen s = Inr (move_cursor 1920 (s\<lparr>video := v\<rparr>))" "length v = 0x8000"
        "cells v = drop 80 (cells (video s)) @ replicate 80 blank" by (rule roll_screen_run [OF assms(1)])
    ultimately show thesis
      using that [of "move_cursor 1920 (s\<lparr>video := v\<rparr>)"] False by (simp add: line_return_def screen_ok_def terminal_def term_line_def)
  qed
qed

lemma put_char_terminal:
  assumes ok: "screen_ok s" and b: "c = 8 \<longrightarrow> snd (terminal s) \<noteq> 0"
  obtains s' where "put_char c s = Inr s'" and "screen_ok s'" and "terminal s' = term_put c (terminal s)"
proof -
  let ?bx = "get_cursor s"
  have v: "length (video s) = 0x8000" and p: "unat ?bx < 2000" using ok by (simp_all add: screen_ok_def)
  consider (line) "c = 0xd \<or> c = 0xa" | (bs) "c = 8" | (other) "c \<noteq> 0xd \<and> c \<noteq> 0xa \<and> c \<noteq> 8" by blast
  then show thesis
  proof cases
    case line
    obtain s' where "line_return ?bx s = Inr s'" "screen_ok s'" "terminal s' = term_line (cells (video s), unat ?bx)"
      by (rule line_return_terminal [OF v, of ?bx]) (use p in simp_all)
    then show thesis using line that [of s'] by (simp add: put_char_def term_put_def terminal_def Let_def)
  next
    case bs
    then have "unat ?bx \<noteq> 0" using b by (simp add: terminal_def)
    then have q: "unat (?bx - 1) = unat ?bx - 1" using unat_sub_small [of 1 ?bx] by simp
    then have l: "unat (?bx - 1) < 2000" using p by simp
    show thesis
      using that [of "move_cursor (?bx - 1) (s\<lparr>video := (video s)[2 * unat (?bx - 1) := 0x20, Suc (2 * unat (?bx - 1)) := 7]\<rparr>)"]
        cursor_byte [OF l] cells_put [OF l, of "video s"] bs v l q
      by (simp add: put_char_def term_put_def terminal_def screen_ok_def Let_def blank_def)
  next
    case other
    let ?v = "(video s)[2 * unat ?bx := c, Suc (2 * unat ?bx) := 7]"
    have u: "unat (?bx + 1) = unat ?bx + 1" using p unat_add_small [of ?bx 1] by simp
    then have i: "sint (?bx + 1) < 2000 \<longleftrightarrow> unat ?bx + 1 < 2000" using p by (simp add: sint_less)
    have e: "put_char c s = (if unat ?bx + 1 < 2000 then Inr (move_cursor (?bx + 1) (s\<lparr>video := ?v\<rparr>))
        else line_return (?bx + 1) (s\<lparr>video := ?v\<rparr>))"
      using other v p cursor_byte [OF p] by (simp add: put_char_def Let_def i)
    have cp: "cells ?v = (cells (video s))[unat ?bx := (c, 7)]" by (rule cells_put) (use v p in simp_all)
    obtain s' where s': "line_return (?bx + 1) (s\<lparr>video := ?v\<rparr>) = Inr s'" "screen_ok s'"
        "terminal s' = term_line (cells ?v, unat (?bx + 1))"
      by (rule line_return_terminal [of "s\<lparr>video := ?v\<rparr>" "?bx + 1"]) (use v u p in simp_all)
    show thesis
    proof (cases "unat ?bx + 1 < 2000")
      case True
      then show thesis using that e v u cp other by (simp add: screen_ok_def terminal_def term_put_def)
    next
      case False
      then show thesis using that e s' u cp other by (simp add: terminal_def term_put_def)
    qed
  qed
qed

text \<open>
  The promise of a character device: every character but a few is put, and what the device shows changes by the rule of one
  character. Then a text is put character by character.
\<close>

locale char_device =
  fixes ok :: "'s \<Rightarrow> bool" and view :: "'s \<Rightarrow> 't" and put1 :: "u8 \<Rightarrow> 's \<Rightarrow> 's res"
    and rule1 :: "u8 \<Rightarrow> 't \<Rightarrow> 't" and safe :: "u8 \<Rightarrow> bool"
  assumes put1_view: "ok s \<Longrightarrow> safe c \<Longrightarrow> \<exists>s'. put1 c s = Inr s' \<and> ok s' \<and> view s' = rule1 c (view s)"
begin

fun put_all :: "u8 list \<Rightarrow> 's \<Rightarrow> 's res" where
  "put_all [] s = Inr s"
| "put_all (c # cs) s = bindR (put1 c s) (put_all cs)"

lemma put_all_view:
  "ok s \<Longrightarrow> \<forall>c\<in>set t. safe c \<Longrightarrow> \<exists>s'. put_all t s = Inr s' \<and> ok s' \<and> view s' = fold rule1 t (view s)"
proof (induction t arbitrary: s)
  case (Cons c t)
  obtain s1 where "put1 c s = Inr s1" "ok s1" "view s1 = rule1 c (view s)" using put1_view Cons.prems by fastforce
  then show ?case using Cons.IH [of s1] Cons.prems(2) by auto
qed simp

end

interpretation screen: char_device screen_ok terminal put_char term_put "\<lambda>c. c \<noteq> 8"
  by unfold_locales (metis put_char_terminal)

lemma put_chars_all: "put_chars t s = screen.put_all t s"
proof (induction t arbitrary: s)
  case (Cons c t)
  then show ?case by (cases "put_char c s") simp_all
qed simp

lemma put_str_all:
  assumes "cstr m p t"
  shows "put_str m p s = put_chars t s"
  using assms
proof (induction t arbitrary: p s)
  case Nil
  then show ?case by (subst put_str.simps) simp
next
  case (Cons c t)
  then have "cstr m (Suc p) t" "p < length m" "m ! p = c" "c \<noteq> 0" by auto
  then show ?case using Cons.IH by (subst put_str.simps) (simp cong: bindR_cong)
qed

lemma put_str_terminal:
  assumes "screen_ok s" and "cstr m p t" and "8 \<notin> set t"
  obtains s' where "put_str m p s = Inr s'" and "screen_ok s'" and "terminal s' = fold term_put t (terminal s)"
proof -
  have "\<forall>c\<in>set t. c \<noteq> 8" using assms(3) by auto
  then show thesis
    using screen.put_all_view [OF assms(1)] that by (auto simp: put_str_all [OF assms(2)] put_chars_all)
qed

text \<open>Text that fits on the rest of the screen stands there.\<close>

definition plain :: "u8 list \<Rightarrow> bool" where
  "plain t \<longleftrightarrow> 8 \<notin> set t \<and> 10 \<notin> set t \<and> 13 \<notin> set t"

lemma fold_term_put:
  "plain t \<Longrightarrow> p + length t < 2000 \<Longrightarrow> length cs = 2000 \<Longrightarrow>
   fold term_put t (cs, p) = (put p (map (\<lambda>c. (c, 7)) t) cs, p + length t)"
proof (induction t arbitrary: cs p)
  case (Cons c t)
  then have "term_put c (cs, p) = (cs[p := (c, 7)], p + 1)" by (auto simp: plain_def term_put_def)
  then show ?case using Cons by (auto simp: plain_def put_Cons)
qed simp

subsection \<open>Numbers\<close>

lemma digit_char_hex:
  "(let edx = (w :: u32) AND 0xf in if edx > 9 then ucast (edx - 10 + 65) else ucast (edx + 48)) = digit_char (unat w mod 16)"
proof -
  have u: "unat (w AND 0xf) = unat w mod 16"
  proof -
    have "w AND 0xf = take_bit 4 w" by (simp add: take_bit_eq_mask mask_eq_exp_minus_1)
    also have "\<dots> = w mod 16" by (simp add: take_bit_eq_mod)
    finally show ?thesis by (simp add: unat_mod)
  qed
  have "list_all (\<lambda>n. (let edx = (of_nat n :: u32) in if edx > 9 then ucast (edx - 10 + 65) else ucast (edx + 48)) = digit_char n) [0..<16]"
    by code_simp
  then have "(let edx = (of_nat n :: u32) in if edx > 9 then ucast (edx - 10 + 65) else ucast (edx + 48)) = digit_char n" if "n < 16" for n
    using that by (simp only: list_all_iff atLeastLessThan_upt [symmetric]) simp
  moreover have "of_nat (unat (w AND 0xf)) = w AND 0xf" by simp
  ultimately show ?thesis using u by (metis mod_less_divisor zero_less_numeral)
qed

lemma hex_digits_text:
  "unat n < 16 ^ k \<Longrightarrow> dropWhile (\<lambda>c. c = 48) (hex_digits k n) = (if n = 0 then [] else num_text 16 (unat n))"
proof (induction k arbitrary: n)
  case 0
  then show ?case by (simp add: unat_eq_0)
next
  case (Suc k)
  have d: "unat (drop_bit 4 n) = unat n div 16" by (simp add: drop_bit_eq_div unat_div)
  then have "unat (drop_bit 4 n) < 16 ^ k" using Suc.prems by (simp add: less_mult_imp_div_less)
  note ih = Suc.IH [OF this]
  have e: "hex_digits (Suc k) n = hex_digits k (drop_bit 4 n) @ [digit_char (unat n mod 16)]" by (simp only: hex_digits.simps digit_char_hex)
  have "drop_bit 4 n = 0 \<longleftrightarrow> unat (drop_bit 4 n) = 0" by (simp only: unat_eq_0)
  then have z: "drop_bit 4 n = 0 \<longleftrightarrow> unat n < 16" unfolding d by (simp add: div_eq_0_iff)
  have "digit_char m = 48 \<longleftrightarrow> m = 0" if "m < 16" for m
  proof -
    have "list_all (\<lambda>m. (digit_char m = 48) = (m = 0)) [0..<16]" by code_simp
    then show ?thesis using that by (simp only: list_all_iff atLeastLessThan_upt [symmetric]) simp
  qed
  note c = this
  show ?case
  proof (cases "unat n < 16")
    case True
    then have "dropWhile (\<lambda>c. c = 48) (hex_digits k (drop_bit 4 n)) = []" using ih z by simp
    then have "\<forall>x\<in>set (hex_digits k (drop_bit 4 n)). x = 48" by (simp add: dropWhile_eq_Nil_conv)
    then have "dropWhile (\<lambda>c. c = 48) (hex_digits (Suc k) n) = dropWhile (\<lambda>c. c = 48) [digit_char (unat n mod 16)]"
      unfolding e by (intro dropWhile_append2) blast
    moreover have "num_text 16 (unat n) = [digit_char (unat n)]" using True by (simp add: num_text_def digits.simps)
    ultimately show ?thesis using True c [of "unat n"] by (simp add: unat_eq_0)
  next
    case False
    then have "n \<noteq> 0" by auto
    have i: "dropWhile (\<lambda>c. c = 48) (hex_digits k (drop_bit 4 n)) = num_text 16 (unat n div 16)" using ih z False d by simp
    moreover have "num_text 16 (unat n div 16) \<noteq> []" by (subst num_text_def, subst digits.simps) simp
    ultimately have "dropWhile (\<lambda>c. c = 48) (hex_digits k (drop_bit 4 n)) \<noteq> []" by (simp only:) simp
    then obtain x where "x \<in> set (hex_digits k (drop_bit 4 n))" "x \<noteq> 48" by (auto simp: dropWhile_eq_Nil_conv)
    then have "dropWhile (\<lambda>c. c = 48) (hex_digits (Suc k) n) = num_text 16 (unat n div 16) @ [digit_char (unat n mod 16)]"
      unfolding e i [symmetric] by (rule dropWhile_append1)
    also have "\<dots> = num_text 16 (unat n)"
    proof -
      have "digits 16 (unat n) = digits 16 (unat n div 16) @ [unat n mod 16]" using False by (subst digits.simps) (simp only: if_False, simp)
      then show ?thesis by (simp only: num_text_def map_append list.map)
    qed
    finally show ?thesis using \<open>n \<noteq> 0\<close> by simp
  qed
qed

text \<open>\<^verbatim>\<open>put_int\<close> puts the digits that \<^verbatim>\<open>itoa\<close> makes for the base 16.\<close>

lemma put_int_text: "put_int n s = put_chars (num_text 16 (unat n)) s"
proof (cases "n = 0")
  case True
  have "num_text 16 0 = [48]" by (simp add: num_text_def digits.simps digit_char_def)
  moreover have z: "dropWhile (\<lambda>c. c = 48) (hex_digits 8 n) = []" using hex_digits_text [of n 8] by (simp only: True) simp
  have "put_int n s = put_char 48 s" unfolding put_int_def by (simp only: z list.case(1))
  ultimately show ?thesis using True by (cases "put_char 48 s") simp_all
next
  case False
  moreover have "num_text 16 (unat n) \<noteq> []" by (subst num_text_def, subst digits.simps) simp
  ultimately show ?thesis
    using hex_digits_text [of n 8] unat_u32_lt [of n] by (simp add: put_int_def split: list.split)
qed

lemma plain_num: "plain (num_text 16 n)"
proof -
  have "list_all (\<lambda>m. digit_char m \<notin> {8, 10, 13}) [0..<16]" by code_simp
  then have "digit_char d \<notin> {8, 10, 13}" if "d < 16" for d
    using that by (simp only: list_all_iff atLeastLessThan_upt [symmetric]) simp
  then show ?thesis using digits_less [of 16 n] by (fastforce simp: plain_def num_text_def)
qed

subsection \<open>What the screen promises\<close>

text \<open>
  C25. \<^verbatim>\<open>put_char\<close> of \<^verbatim>\<open>lib/print.s\<close> makes the display controller and the video memory a terminal of 25 rows of 80 cells: a
  character goes into the cell of the cursor, which moves on; a carriage return and a line feed both go to the start of the
  next row; behind the last cell the rows move up by one and a blank row follows; a backspace clears the cell before the
  cursor. The cursor stays on the screen. There is one exception: a backspace in the first cell computes the offset 0xfffe,
  behind the limit of the video segment, and faults.
\<close>

theorem screen_is_a_terminal:
  assumes "screen_ok s"
  shows "if c = 8 \<and> snd (terminal s) = 0 then put_char c s = Inl Bad_Access
    else \<exists>s'. put_char c s = Inr s' \<and> screen_ok s' \<and> terminal s' = term_put c (terminal s)"
proof (cases "c = 8 \<and> snd (terminal s) = 0")
  case True
  then have "unat (get_cursor s) = 0" by (simp add: terminal_def)
  then have z: "get_cursor s = 0" by (simp add: unat_eq_0)
  have "unat (push_bit 1 (0 - 1 :: u16)) = 65534" by (simp add: push_bit_eq_mult)
  then have "\<not> unat (push_bit 1 (get_cursor s - 1)) < length (video s)" using assms by (simp add: z screen_ok_def)
  then show ?thesis using True by (simp only: put_char_def Let_def wr_bad bindR_Inl if_True) simp
next
  case False
  then show ?thesis using put_char_terminal [OF assms, of c] by (metis (no_types, lifting))
qed

definition dark_screen :: screen where
  "dark_screen = \<lparr>cursor_high = 0, cursor_low = 0, video = replicate 0x8000 0\<rparr>"

lemma dark_screen_ok: "screen_ok dark_screen" "terminal dark_screen = (replicate 2000 (0, 0), 0)"
proof -
  have "get_cursor dark_screen = 0" by (simp add: get_cursor_def dark_screen_def)
  moreover have "cells (video dark_screen) = replicate 2000 (0, 0)" by (rule nth_equalityI) (simp_all add: dark_screen_def)
  ultimately show "screen_ok dark_screen" "terminal dark_screen = (replicate 2000 (0, 0), 0)"
    by (simp_all add: screen_ok_def terminal_def dark_screen_def)
qed

theorem screen_is_a_terminal_witness:
  "put_char 8 dark_screen = Inl Bad_Access
    \<and> (\<exists>s'. put_char 65 dark_screen = Inr s' \<and> terminal s' = ((replicate 2000 (0, 0))[0 := (65, 7)], 1))"
  using screen_is_a_terminal [OF dark_screen_ok(1), of 8] screen_is_a_terminal [OF dark_screen_ok(1), of 65]
  by (auto simp: dark_screen_ok(2) term_put_def)

text \<open>
  \<^verbatim>\<open>set_cursor\<close> puts the cursor nowhere else than behind the digits of its argument, which it prints in the first row:
  \<^verbatim>\<open>general_intr_handler\<close> calls \<^verbatim>\<open>set_cursor(88)\<close> to go to the second row, and goes to the third cell of the first.
\<close>

lemma set_cursor_prints:
  assumes "screen_ok s"
  shows "\<exists>s'. set_cursor arg s = Inr s' \<and> screen_ok s' \<and> terminal s' =
    (put 0 (map (\<lambda>c. (c, 7)) (num_text 16 (unat arg))) (cells (video s)), length (num_text 16 (unat arg)))"
proof -
  let ?s = "move_cursor 0 s" and ?t = "num_text 16 (unat arg)"
  have ok: "screen_ok ?s" using assms by (simp add: screen_ok_def)
  have "length (digits 16 (unat arg)) \<le> 32" using unat_u32_lt [of arg] by (intro length_digits) simp_all
  then have "length ?t < 2000" by (simp add: num_text_def)
  then have "fold term_put ?t (terminal ?s) = (put 0 (map (\<lambda>c. (c, 7)) ?t) (cells (video s)), length ?t)"
    using fold_term_put [OF plain_num, of 0 "unat arg" "cells (video s)"] by (simp add: terminal_def)
  moreover have "\<forall>c\<in>set ?t. c \<noteq> 8" using plain_num [of "unat arg"] by (auto simp: plain_def)
  ultimately show ?thesis
    unfolding set_cursor_def put_int_text put_chars_all using screen.put_all_view [OF ok, of ?t] by metis
qed

lemma set_cursor_88:
  "\<exists>s'. set_cursor 88 dark_screen = Inr s' \<and> terminal s' = (put 0 [(53, 7), (56, 7)] (replicate 2000 (0, 0)), 2)"
proof -
  have "num_text 16 88 = [53, 56]" by (simp add: num_text_def digits.simps digit_char_def)
  then show ?thesis using set_cursor_prints [OF dark_screen_ok(1), of 88] dark_screen_ok(2) by (auto simp: terminal_def)
qed

subsection \<open>What the console promises\<close>

lemma console_put_free:
  assumes "running_thread s \<noteq> 0" and "console_lock c = lock_init" and "f (con_screen c) = Inr scr"
  shows "console_put f c s = Inr (c\<lparr>con_screen := scr\<rparr>, s)"
  using assms by (cases c) (simp add: console_put_def console_acquire_def console_release_def)

text \<open>
  C26. \<^verbatim>\<open>printk\<close>, from the format to the cells of the screen: with the console free, the text that the format and its
  arguments stand for is put character by character on the terminal, and the console is free again. A text without control
  characters that fits behind the cursor stands there, and nothing else on the screen changes.
\<close>

theorem printk_shows:
  fixes s :: "'a kernel_scheme"
  assumes run: "running_thread s \<noteq> 0" and free: "console_lock c = lock_init" and ok: "screen_ok (con_screen c)"
    and fmt: "cstr fmt i f" "render f args = Some r" "0 \<notin> set r" "length r < 1024" and bs: "8 \<notin> set r"
  shows "\<exists>scr. printk fmt i args c s = Inr (c\<lparr>con_screen := scr\<rparr>, s) \<and> screen_ok scr
    \<and> terminal scr = fold term_put r (terminal (con_screen c))
    \<and> (plain r \<longrightarrow> snd (terminal (con_screen c)) + length r < 2000 \<longrightarrow>
        terminal scr = (put (snd (terminal (con_screen c))) (map (\<lambda>ch. (ch, 7)) r) (fst (terminal (con_screen c))),
          snd (terminal (con_screen c)) + length r))"
proof -
  let ?buf = "r @ replicate (1024 - length r) 0"
  have v: "vsprintf (replicate 1024 0) 0 fmt i args = Inr (length r, ?buf)"
    using vsprintf_text [OF fmt, of "[]"] by simp
  have "cstr ?buf 0 r" by (rule cstrI) (use fmt(3,4) in \<open>auto simp: nth_append\<close>)
  then obtain scr where scr: "put_str ?buf 0 (con_screen c) = Inr scr" "screen_ok scr"
      "terminal scr = fold term_put r (terminal (con_screen c))"
    by (rule put_str_terminal [OF ok _ bs])
  then have "printk fmt i args c s = Inr (c\<lparr>con_screen := scr\<rparr>, s)"
    using console_put_free [where f = "put_str ?buf 0", OF run free scr(1)] v by (simp add: printk_def console_put_str_def)
  moreover have "length (fst (terminal (con_screen c))) = 2000" by (simp add: terminal_def)
  ultimately show ?thesis
    using scr fold_term_put [of r "snd (terminal (con_screen c))" "fst (terminal (con_screen c))"] by auto
qed

theorem printk_shows_witness:
  "\<exists>scr. printk [120, 61, 37, 100, 0] 0 [AInt (-42)] \<lparr>console_lock = lock_init, con_screen = dark_screen\<rparr> small_kernel
      = Inr (\<lparr>console_lock = lock_init, con_screen = scr\<rparr>, small_kernel)
    \<and> terminal scr = (put 0 [(120, 7), (61, 7), (45, 7), (52, 7), (50, 7)] (replicate 2000 (0, 0)), 5)"
proof -
  let ?c = "\<lparr>console_lock = lock_init, con_screen = dark_screen\<rparr>" and ?r = "[120, 61, 45, 52, 50] :: u8 list"
  have r: "running_thread small_kernel \<noteq> 0" by code_simp
  have f: "cstr [120, 61, 37, 100, 0] 0 [120, 61, 37, 100]" by simp
  have t: "render [120, 61, 37, 100] [AInt (-42)] = Some ?r"
    by (simp add: arg_text_def int_text_def num_text_def digits.simps digit_char_def)
  have d: "terminal (con_screen ?c) = (replicate 2000 (0, 0), 0)" "console_lock ?c = lock_init" "screen_ok (con_screen ?c)"
    using dark_screen_ok by simp_all
  have p: "0 \<notin> set ?r" "length ?r < 1024" "8 \<notin> set ?r" "plain ?r" "0 + length ?r < 2000" "0 + length ?r = 5" by (simp_all add: plain_def)
  show ?thesis
    using printk_shows [OF r d(2,3) f t p(1-3)] p(4,5) unfolding d(1) fst_conv snd_conv p(6) by auto
qed

end
