(* ===== verification/Boot.thy ===== *)
theory Boot
  imports Interrupt Console Keyboard Fs Process Shell Reap
begin

section \<open>The start of the kernel (\<^verbatim>\<open>kernel/main.c\<close>, \<^verbatim>\<open>kernel/init.c\<close>)\<close>

text \<open>
  The handlers that the initialisers register, the file that \<^verbatim>\<open>main\<close> makes on its way, the end of the main thread, and
  the loop of the first process, \<^verbatim>\<open>init\<close>. The initialisers are in the theories of their parts; they work on states of
  their own, so \<^verbatim>\<open>init_all\<close>, which calls them one after the other, is here only in what they share: the table of handlers.
\<close>

subsection \<open>Handlers\<close>

text \<open>The addresses of the handlers, chosen by the linker.\<close>

record handler_labels =
  at_general :: u32
  at_timer :: u32
  at_keyboard :: u32
  at_hd :: u32

text \<open>\<^verbatim>\<open>idt_init\<close>: the gates, the handlers and their names, the interrupt controllers, the operand of \<^verbatim>\<open>lidt\<close>: eight bytes
  for each of the 129 gates.\<close>

definition idt_init :: "u32 list \<Rightarrow> u32 \<Rightarrow> u32 \<Rightarrow> u32 \<Rightarrow> gate_desc list \<times> (u32 list \<times> string list) \<times> (u16 \<times> u8) list \<times> 64 word" where
  "idt_init intr_entry_table syscall_handler general idt_at =
     (idt_desc_init intr_entry_table syscall_handler, exception_init general, pic_init,
      of_nat (8 * IDT_DESC_CNT - 1) OR push_bit 16 (ucast idt_at))"

definition keyboard_init :: "handler_labels \<Rightarrow> u32 list \<Rightarrow> u32 list res" where
  "keyboard_init l idt_table = register_handler idt_table 0x21 (at_keyboard l)"

text \<open>The handlers after \<^verbatim>\<open>init_all\<close>: \<^verbatim>\<open>idt_init\<close>, \<^verbatim>\<open>timer_init\<close>, \<^verbatim>\<open>keyboard_init\<close>, and \<^verbatim>\<open>ide_init\<close> for each channel.\<close>

definition init_handlers :: "handler_labels \<Rightarrow> nat \<Rightarrow> u32 list res" where
  "init_handlers l channel_cnt =
     (let (idt_table, intr_name) = exception_init (at_general l) in
      bindR (register_handler idt_table 0x20 (at_timer l)) (\<lambda>t1.
      bindR (keyboard_init l t1) (\<lambda>t2.
      eachR (\<lambda>c t. register_handler t (if c = 0 then 0x2e else 0x2f) (at_hd l)) [0..<channel_cnt] t2)))"

lemma init_handlers_at:
  assumes "channel_cnt = 1 \<or> channel_cnt = 2"
  obtains t where "init_handlers l channel_cnt = Inr t" and "length t = IDT_DESC_CNT"
    and "\<forall>v<IDT_DESC_CNT. t ! v = (if v = 0x20 then at_timer l else if v = 0x21 then at_keyboard l
        else if v = 0x2e \<or> v = 0x2f \<and> channel_cnt = 2 then at_hd l else at_general l)"
proof -
  have "[0..<2] = [0, Suc 0]" by (simp add: upt_rec)
  then show thesis
    using assms that by (auto simp: init_handlers_def exception_init_def register_handler_def keyboard_init_def IDT_DESC_CNT_def nth_list_update)
qed

subsection \<open>The message of an exception\<close>

text \<open>What \<^verbatim>\<open>general_intr_handler\<close> writes before it spins: the name of the exception, and the address of a page fault.\<close>

definition exception_screen :: "u8 \<Rightarrow> string \<Rightarrow> u32 \<Rightarrow> screen \<Rightarrow> screen res" where
  "exception_screen vec_nr nm cr2 s =
     bindR (set_cursor 0 s) (\<lambda>s1.
     bindR (put_chars (replicate 320 32) s1) (\<lambda>s2.
     bindR (set_cursor 0 s2) (\<lambda>s3.
     bindR (put_str (c_str (''!!!!!   exception message begin  !!!!!!'' @ [CHR 0x0A])) 0 s3) (\<lambda>s4.
     bindR (set_cursor 88 s4) (\<lambda>s5.
     bindR (put_str (c_str nm) 0 s5) (\<lambda>s6.
     bindR (if vec_nr = 14
            then bindR (put_str (c_str ([CHR 0x0A] @ ''page fault addr is: '')) 0 s6) (put_int cr2)
            else Inr s6) (\<lambda>s7.
     put_str (c_str ([CHR 0x0A] @ ''!!!!!   exception message end   !!!!!!'' @ [CHR 0x0A])) 0 s7)))))))"

subsection \<open>\<^verbatim>\<open>main\<close>\<close>

text \<open>The program \<^verbatim>\<open>cat\<close> is read from the sectors 300 to 311 of the first drive and written to a file. \<open>sda\<close> is that
  drive; the file system is on another one.\<close>

definition main_copies_cat :: "'a tasks_scheme heap_ops \<Rightarrow> disk \<Rightarrow> (unit, 'a tasks_scheme) fsm" where
  "main_copies_cat h sda =
     bindM (taskM (sys_unlink h (c_str ''/cat''))) (\<lambda>_.
     let file_size = 5804; sec_cnt = DIV_ROUND_UP file_size 512 in
     bindM (mallocM h False file_size) (\<lambda>prog_buf.
     ptrM prog_buf
       (let b = read_secs sda 300 (unat sec_cnt) in
        bindM (taskM (sys_open h (c_str ''/cat'') (O_CREAT OR O_RDWR))) (\<lambda>fd.
        bindM (if fd \<noteq> -1
               then bindM (taskM (sys_write h fd b file_size)) (\<lambda>r. if r = -1 then failM Diverge else retM ())
               else retM ()) (\<lambda>_.
        bindM (taskM (sys_close h fd)) (\<lambda>_.
        freeM h False prog_buf))))))"

text \<open>The end: the screen is cleared, the first prompt printed, and the main thread gives up the processor for good.\<close>

definition main_ends :: "con \<Rightarrow> 'a tasks_scheme \<Rightarrow> (con \<times> 'a tasks_scheme) res" where
  "main_ends c s =
     bindR (cls_screen (con_screen c)) (\<lambda>scr.
     bindR (console_put_str (c_str ''[rabbit@localhost /]$ '') 0 (c\<lparr>con_screen := scr\<rparr>) s) (\<lambda>(c1, s1).
     bindR (thread_exit (running_thread s1) True s1) (\<lambda>s2. Inr (c1, s2))))"

subsection \<open>\<^verbatim>\<open>init\<close>\<close>

definition init_message :: string where
  "init_message = ''i am init, my pid is 1. i recive a child %d, status is %d''"

text \<open>One round of the parent: it reports a child, or that there is none (the status is then the old one), or sleeps.\<close>

definition init_round :: "'a tasks_scheme heap_ops \<Rightarrow> u32 \<Rightarrow> (u32 option, 'a tasks_scheme) fsm" where
  "init_round h old =
     bindM (heapM sys_wait) (\<lambda>r. case r of
       Waited p st \<Rightarrow> bindM (taskM (printM h init_message [AInt (scast p), AInt st])) (\<lambda>_. retM (Some st))
     | No_Child \<Rightarrow> bindM (taskM (printM h init_message [AInt (-1), AInt old])) (\<lambda>_. retM (Some old))
     | Wait_Blocked _ \<Rightarrow> retM None)"

subsection \<open>The end of the main thread\<close>

lemma same_more: "kernel.more (s' :: 'a tasks_scheme) = kernel.more s \<Longrightarrow> pid_bitmap s' = pid_bitmap s"
  by (cases s; cases s') (simp add: kernel.defs)

lemma main_dies:
  fixes s :: "'a tasks_scheme"
  assumes ok: "sched_ok s" and m: "running_thread s = main_thread s" "pcbs s (main_thread s) = Some t" "pgdir t = 0"
    and l: "main_thread s \<in> set (thread_all_list s)" "distinct (thread_all_list s)" "idle_thread s \<noteq> main_thread s"
    and pids: "pids_ok s" "pid t \<in> live_pids s"
  obtains s' where "thread_exit (main_thread s) True s = Inr s'" and "sched_ok s'"
    and "run_order s' = (if thread_ready_list s = [] then [idle_thread s] else thread_ready_list s)"
    and "thread_all_list s' = remove1 (main_thread s) (thread_all_list s)"
    and "map_option status (pcbs s' (main_thread s)) = Some TASK_DIED" and "live_pids s' = live_pids s - {pid t}"
proof -
  let ?m = "main_thread s" and ?off = "snd (intr_disable (eflags s))" and ?t = "t\<lparr>status := TASK_DIED\<rparr>"
  let ?s1 = "s\<lparr>eflags := ?off, pcbs := (pcbs s)(?m \<mapsto> ?t)\<rparr>"
  let ?s4 = "?s1\<lparr>thread_all_list := remove1 ?m (thread_all_list s)\<rparr>"
  have i: "sched_inv s" using ok by (simp add: sched_ok_def)
  have nr: "?m \<notin> set (thread_ready_list s)" using i m(1) by (auto simp: sched_inv_def)
  have run: "running_thread ?s4 = ?m" using m(1) by (simp add: running_thread_def)
  have pids4: "pids_ok ?s4" by (rule pids_ok_cong [OF pids(1)]) (simp_all add: running_thread_def)
  have live4: "live_pids ?s4 = live_pids s" by (simp add: live_pids_def)
  obtain b where b: "release_pid (pid t) ?s4 = Inr (?s4\<lparr>pid_bitmap := b\<rparr>)" "pid_of_bit ` used_bits b = live_pids s - {pid t}"
    using live_pid_release [OF pids4, of "pid t"] pids(2) live4 by auto
  let ?s6 = "?s4\<lparr>pid_bitmap := b\<rparr>"
  have run6: "running_thread ?s6 = ?m" using m(1) by (simp add: running_thread_def)
  have "spaces_ok s" using i by (simp add: sched_inv_def)
  then have sp: "spaces_ok ?s6" by (rule spaces_ok_cong) (simp_all add: proc_dirs_upd [of "pcbs s", OF m(2)])
  have "thread_ok ?s6 q u" if q: "pcbs ?s6 q = Some u" for q u
  proof (cases "q = ?m")
    case True
    then show ?thesis using q i m nr run6 by (auto simp: sched_inv_def thread_ok_def)
  next
    case False
    then have "pcbs s q = Some u" using q by simp
    then show ?thesis using i m(1) run6 by (auto simp: sched_inv_def thread_ok_def)
  qed
  then have inv6: "sched_inv ?s6" using i m nr run6 l(3) sp by (auto simp: sched_inv_def)
  have st6: "cur_status ?s6 = Some TASK_DIED" unfolding cur_status_def run6 by simp
  have off6: "intr_get_status (eflags ?s6) = INTR_OFF" by simp
  obtain s' where s': "schedule ?s6 = Inr s'" "sched_ok s'" "run_order s' = sched_queue ?s6" "same_globals ?s6 s'"
      "cur_status ?s6 \<noteq> Some TASK_RUNNING \<longrightarrow> running_thread s' \<noteq> running_thread ?s6 \<longrightarrow>
        map_option status (pcbs s' (running_thread ?s6)) = cur_status ?s6"
    by (rule schedule_runs [OF inv6 off6])
  have ro: "run_order s' = (if thread_ready_list s = [] then [idle_thread s] else thread_ready_list s)"
    using s'(3) st6 by (simp add: sched_queue_def)
  then have "running_thread s' \<in> set (thread_ready_list s) \<union> {idle_thread s}"
    by (cases "thread_ready_list s") (auto simp: run_order_def split: if_splits)
  then have "running_thread s' \<noteq> ?m" using nr l(3) by auto
  then have died: "map_option status (pcbs s' ?m) = Some TASK_DIED" using s'(5) st6 unfolding run6 by simp
  have g: "thread_all_list s' = remove1 ?m (thread_all_list s)" "main_thread s' = ?m" "pid_bitmap s' = b"
    using s'(4) same_more [of s' ?s6] by (simp_all add: same_globals_def)
  have "thread_exit ?m True s = Inr s'"
    using m(2,3) nr l(1) b(1) s'(1) g(2) by (simp add: thread_exit_def Let_def kl_remove_def)
  moreover have "live_pids s' = live_pids s - {pid t}" using g(3) b(2) by (simp add: live_pids_def)
  ultimately show thesis using that s'(2) ro g(1) died by blast
qed

definition prompt :: "u8 list" where
  "prompt = map of_char ''[rabbit@localhost /]$ ''"

text \<open>
  C8. The end of \<^verbatim>\<open>main\<close>: the screen is cleared and shows the prompt, with the console free again; the main thread is dead and
  in neither list, its identifier is free, and the first ready thread runs (the idle thread, if none is ready), with the
  scheduler in order. So the kernel goes on with the threads that it has made, and the main thread never runs again.
\<close>

theorem main_hands_over:
  fixes s :: "'a tasks_scheme"
  assumes ok: "sched_ok s" and m: "running_thread s = main_thread s" "pcbs s (main_thread s) = Some t" "pgdir t = 0"
    and l: "main_thread s \<in> set (thread_all_list s)" "distinct (thread_all_list s)" "idle_thread s \<noteq> main_thread s"
    and pids: "pids_ok s" "pid t \<in> live_pids s" and con: "console_lock c = lock_init" "length (video (con_screen c)) = 0x8000"
  shows "\<exists>c' s'. main_ends c s = Inr (c', s') \<and> console_lock c' = lock_init
    \<and> terminal (con_screen c') = (put 0 (map (\<lambda>ch. (ch, 7)) prompt) (replicate 2000 blank), length prompt)
    \<and> sched_ok s' \<and> run_order s' = (if thread_ready_list s = [] then [idle_thread s] else thread_ready_list s)
    \<and> map_option status (pcbs s' (main_thread s)) = Some TASK_DIED
    \<and> main_thread s \<notin> set (thread_all_list s') \<and> live_pids s' = live_pids s - {pid t}"
proof -
  obtain scr where scr: "cls_screen (con_screen c) = Inr scr" "screen_ok scr" "terminal scr = (replicate 2000 blank, 0)"
    by (rule cls_screen_run [OF con(2)])
  let ?m = "c_str ''[rabbit@localhost /]$ ''"
  have p: "plain prompt" "0 \<notin> set prompt" "8 \<notin> set prompt" "length prompt = 22" by code_simp+
  have "?m = prompt @ [0]" by (simp add: c_str_def prompt_def)
  then have "cstr ?m 0 prompt" using p(2) by (simp add: cstr_def)
  then obtain scr1 where scr1: "put_str ?m 0 scr = Inr scr1" "terminal scr1 = fold term_put prompt (terminal scr)"
    by (rule put_str_terminal [OF scr(2) _ p(3)])
  have shown: "terminal scr1 = (put 0 (map (\<lambda>ch. (ch, 7)) prompt) (replicate 2000 blank), length prompt)"
    using fold_term_put [OF p(1), of 0 "replicate 2000 blank"] p(4) scr1(2) scr(3) by simp
  have "running_thread s \<noteq> 0" using pids(1) by (simp add: pids_ok_def)
  then have w: "console_put_str ?m 0 (c\<lparr>con_screen := scr\<rparr>) s = Inr (c\<lparr>con_screen := scr1\<rparr>, s)"
    using console_put_free [where f = "put_str ?m 0", of s "c\<lparr>con_screen := scr\<rparr>" scr1] con(1) scr1(1) by (simp add: console_put_str_def)
  obtain s' where s': "thread_exit (main_thread s) True s = Inr s'" "sched_ok s'"
      "run_order s' = (if thread_ready_list s = [] then [idle_thread s] else thread_ready_list s)"
      "thread_all_list s' = remove1 (main_thread s) (thread_all_list s)"
      "map_option status (pcbs s' (main_thread s)) = Some TASK_DIED" "live_pids s' = live_pids s - {pid t}"
    by (rule main_dies [OF ok m l pids])
  have "main_ends c s = Inr (c\<lparr>con_screen := scr1\<rparr>, s')" using scr(1) w s'(1) m(1) by (simp add: main_ends_def)
  then show ?thesis using s' shown con(1) l(2) by (intro exI [of _ "c\<lparr>con_screen := scr1\<rparr>"] exI [of _ s']) simp
qed

text \<open>The small machine of theory Task with the main thread running and the idle thread asleep.\<close>

definition small_boot :: tasks where
  "small_boot = small_tasks\<lparr>pcbs := [0xc0100000 \<mapsto> blank_task\<lparr>status := TASK_RUNNING\<rparr>,
     0xc0101000 \<mapsto> blank_task\<lparr>self_kstack := 0xc0101e50, pid := 2\<rparr>], main_thread := 0xc0100000, idle_thread := 0xc0101000\<rparr>"

lemma small_boot_ok: "sched_ok small_boot" "running_thread small_boot = 0xc0100000"
proof -
  show r: "running_thread small_boot = 0xc0100000" by (simp add: running_thread_def small_boot_def small_tasks_def)
  have "proc_dirs (pcbs small_boot) = {}"
    by (auto simp: proc_dirs_def small_boot_def blank_task_def split: if_splits)
  then have "spaces_ok small_boot"
    by (auto simp: spaces_ok_def small_boot_def small_tasks_def intro: exI [of _ "{0x100000}"])
  moreover have "thread_ok small_boot p t" if "pcbs small_boot p = Some t" for p t
    using that r by (auto simp: thread_ok_def small_boot_def small_tasks_def blank_task_def frame_of_def split: if_splits)
  ultimately show "sched_ok small_boot"
    using r by (auto simp: sched_ok_def sched_inv_def cur_status_def)
      (simp_all add: small_boot_def small_tasks_def blank_task_def)
qed

theorem main_hands_over_witness:
  "\<exists>c' s'. main_ends \<lparr>console_lock = lock_init, con_screen = dark_screen\<rparr> small_boot = Inr (c', s')
    \<and> run_order s' = [0xc0101000] \<and> map_option status (pcbs s' 0xc0100000) = Some TASK_DIED \<and> live_pids s' = {2}"
proof -
  let ?c = "\<lparr>console_lock = lock_init, con_screen = dark_screen\<rparr>"
  let ?t = "blank_task\<lparr>status := TASK_RUNNING\<rparr>"
  have s: "main_thread small_boot = 0xc0100000" "idle_thread small_boot = 0xc0101000" "thread_ready_list small_boot = []"
      "thread_all_list small_boot = [0xc0100000, 0xc0101000]" "pcbs small_boot 0xc0100000 = Some ?t"
    by (simp_all add: small_boot_def small_tasks_def)
  have live: "live_pids small_boot = {1, 2}" using small_tasks_pids(3) by (simp add: live_pids_def small_boot_def)
  have pids: "pids_ok small_boot" using small_tasks_pids(1) small_boot_ok(2) by (simp add: pids_ok_def small_boot_def)
  have t: "pgdir ?t = 0" "pid ?t = 1" by (simp_all add: blank_task_def)
  have "\<exists>c' s'. main_ends ?c small_boot = Inr (c', s') \<and> console_lock c' = lock_init
    \<and> terminal (con_screen c') = (put 0 (map (\<lambda>ch. (ch, 7)) prompt) (replicate 2000 blank), length prompt)
    \<and> sched_ok s' \<and> run_order s' = (if thread_ready_list small_boot = [] then [idle_thread small_boot] else thread_ready_list small_boot)
    \<and> map_option status (pcbs s' (main_thread small_boot)) = Some TASK_DIED
    \<and> main_thread small_boot \<notin> set (thread_all_list s') \<and> live_pids s' = live_pids small_boot - {pid ?t}"
    by (rule main_hands_over) (use small_boot_ok s live pids t in \<open>simp_all add: dark_screen_def\<close>)
  then show ?thesis unfolding s live t by auto
qed

end
