(* ===== verification/Spec2Isabelle.thy ===== *)
theory Spec2Isabelle
  imports Prelude Cstring Bitmap Interrupt Klist Paging Thread Sync Ioqueue Keyboard Stdio Disk Memory Heap Heap_Safe
    Fs_State Stock Inode Direct File Path Fs Mkfs Shell Task Process Exec Syscall Stacks Wait Reap Birth Load Ends Fs_Calls Console Boot
begin

text \<open>
  A verification library for guatOS (\<^verbatim>\<open>src/v1-src\<close>), a teaching kernel for the 80386: threads and processes
  with their own address spaces, a heap, a disk driver, a file system with inodes and directories, system calls and a
  shell. Every theory models one part of the C code, definition by function, and proves what the part promises.

  \<^bold>\<open>How the code is read.\<close> A structure is a record with the fields of the source, an enumeration a datatype, an
  integer a word of its width, so that sums wrap around where the code's do. A function is a function of its arguments
  and of the state it works on, and gives the new state back. A call that does not return gives \<open>Inl\<close> of a
  \<open>fault\<close> (theory Prelude): an assertion that fires, an access outside an object, a wait for another thread
  where one thread is modelled, a loop without end. So a theorem that a call gives \<open>Inr\<close> says that it returns and
  that nothing of this happens. The state grows with the components: \<open>cpu\<close> (physical memory as words, \<^verbatim>\<open>cr3\<close>,
  flags, stack pointer), \<open>kernel\<close> (PCBs and the two thread lists), \<open>kmem\<close> (page pools, virtual pages,
  heap), \<open>tasks\<close> (process identifiers), and \<open>fs\<close> (disk, mounted partition, open files) with one of the
  others as its \<open>heap\<close>.

  \<^bold>\<open>The parts.\<close>
  \<^item> Cstring, Bitmap, Klist, Stdio: \<^verbatim>\<open>lib/string.c\<close>, \<^verbatim>\<open>bitmap.c\<close>, \<^verbatim>\<open>list.c\<close>, \<^verbatim>\<open>stdio.c\<close>. Bitmap has the
    contract \<open>slot_pool\<close> of everything that hands out numbered slots; the bitmaps, both page pools, the blocks of a
    partition and the process identifiers are its interpretations, each in its own theory. Klist has the list of pointers,
    the contract \<open>klist\<close>, and the plain lists the other theories use, which keep that contract too. Stdio has
    \<^verbatim>\<open>vsprintf\<close> against a rendering of the format.
  \<^item> Interrupt, Paging: \<^verbatim>\<open>kernel/interrupt.c\<close> and the page tables of \<^verbatim>\<open>kernel/memory.c\<close>. Paging has the
    translation of the processor (\<open>vtrans\<close>) and shows that the code, which reaches its tables through the last entry of the
    directory, computes it, and that mapping and unmapping a page change that page alone.
  \<^item> Thread, Sync, Ioqueue, Keyboard: \<^verbatim>\<open>schedule\<close>, blocking and the timer of \<^verbatim>\<open>thread/thread.c\<close>, semaphores and locks,
    the ring buffer, and the keyboard's interrupt handler. Thread has the invariant \<open>sched_ok\<close> that every operation of the
    scheduler keeps. Sync has the operations for one thread and a system of steps in which the threads interleave at the
    points where the code can be switched; the theorems on locks hold in every reachable state of it.
  \<^item> Memory, Heap, \<open>Heap_Safe\<close>: the rest of \<^verbatim>\<open>kernel/memory.c\<close>. Heap is \<^verbatim>\<open>sys_malloc\<close> and \<^verbatim>\<open>sys_free\<close> with
    their arenas; \<open>Heap_Safe\<close> has the invariant, and that memory handed out is disjoint from all that is in use. These theorems are about calls that return; Stock shows
    when they do: a kernel thread whose lists hold enough blocks runs any sequence of requests and releases.
  \<^item> Disk: \<^verbatim>\<open>device/ide.c\<close> over a model of the controller at the level of its ports: what is written is read back, through
    the commands, registers and interrupts of as many rounds as the length needs.
  \<^item> \<open>Fs_State\<close>, Inode, Direct, File, Path, Fs, Mkfs: \<^verbatim>\<open>fileSystem/\<close>. The disk is a function from sectors to 512
    bytes (what Disk shows of the driver). The formats on the disk are byte lists with their encoders and decoders. Inodes are
    read back as they were written, entries of directories are found as they were made, and \<^verbatim>\<open>file_write\<close> and \<^verbatim>\<open>file_read\<close>
    are appending to and reading a part of the bytes of a file.
  \<^item> Task, Process, Exec, Syscall: identifiers, creation and end of threads, \<^verbatim>\<open>userprog/\<close>, and the calls of \<^verbatim>\<open>lib/syscall.c\<close>.
    Birth shows that \<^verbatim>\<open>thread_start\<close> makes a thread whenever there is room; Stacks shows what a new thread and the child of
    \<^verbatim>\<open>fork\<close> find on their stacks, in the words of the physical memory; Wait shows what \<^verbatim>\<open>wait\<close> and \<^verbatim>\<open>exit\<close> do to the tree
    of the processes and to the resources, and Reap what they do together when the parent waits first; Syscall stands
    alone: the stubs, the handler with its frame on the stack, and the way back through \<^verbatim>\<open>intr_exit\<close>. It shows that every stub
    reaches the function of its name and returns that function's result.
  \<^item> Shell: \<^verbatim>\<open>shell/\<close>, the line editor, the splitting of a line, the paths made absolute and the built-in commands over Fs.
  \<^item> Console, Boot: \<^verbatim>\<open>lib/print.s\<close> with the registers and the bytes of the display, against a terminal of rows and cells, with
    the interface \<open>char_device\<close> for all that prints by characters; the console under its lock, and \<^verbatim>\<open>printk\<close>. Boot has
    what \<^verbatim>\<open>kernel/main.c\<close> does beside the initialisers: the file it makes, the end of the main thread, the loop of \<^verbatim>\<open>init\<close>.
  \<^item> Ends, \<open>Fs_Calls\<close>: what holds of the file system as a whole. Ends has rules by which a call is shown to end along its
    definition, and applies them down to the heap; \<open>Fs_Calls\<close> has the interface \<open>ending_heap\<close> with the kernel's heap as its
    interpretation, the calls that end, and how a write ends that needs one more block behind the direct ones.
  \<^item> Load: what a process is given by \<^verbatim>\<open>get_a_page\<close>, and what \<^verbatim>\<open>exec.c\<close> makes of it.

  \<^bold>\<open>Loops and fuel.\<close> A loop over an array or a string recurses on what is left of it, so that it needs no bound; the loops
  over the pointers of a list are partial functions, for which Klist proves that they end on a list that is well formed.
  Bounds on the rounds remain where the data on the disk decide: the walk along a path (as many rounds as the path has
  bytes), the two loops of \<^verbatim>\<open>getcwd\<close> (512, the bytes of the path), and the listing of a directory (its size); a round more
  would be \<open>Diverge\<close>. \<open>Fs_Calls\<close> proves that the first three are never reached. The chain of extended partitions
  may be a ring, so \<open>partition_scan\<close> takes its bound as an argument.
  \<^verbatim>\<open>while(1)\<close> loops that wait for an event are modelled as one pass, and the pass says whether the thread goes on,
  blocks or stops. A switch to another thread ends a call: what the thread does when it comes back is a definition of
  its own (\<open>ioq_get_resume\<close>, the steps of Sync), and \<^verbatim>\<open>sys_wait\<close> gives \<open>Wait_Blocked\<close>, after which the code calls it again.

  \<^bold>\<open>Parameters.\<close> \<open>heap_ops\<close> is the heap as the file system sees it, so that it runs both for a kernel thread and for
  a process. A theorem that needs memory says which calls are made (\<open>heap_call\<close>) and that the heap serves them (\<open>served\<close>);
  Stock shows it of \<open>sys_heap\<close>, and the concrete cases run on \<open>sys_heap\<close> with a heap of three pages. The functions of the kernel
  are a parameter of the system call handler. The addresses of \<^verbatim>\<open>kernel_thread\<close>, \<^verbatim>\<open>start_process\<close>, \<^verbatim>\<open>idle\<close> and \<^verbatim>\<open>intr_exit\<close> are the record
  \<open>code_labels\<close>, as they are the linker's; the contents of a disk and what its controller answers are arguments.

  \<^bold>\<open>What the code does not do.\<close> Where modelling showed a defect, the definition has it, and a theorem states it where a
  short run reaches it: a full bitmap halts the kernel (Bitmap), yielding the processor halts it too (Thread), an inode from
  number 256 on is written over another (Inode), a file that has an indirect block cannot grow by a block (\<open>Fs_Calls\<close>), a path
  made absolute keeps a stale tail and a long line overruns the arguments (Shell), a parent that waits looks dead to its own
  parent and exiting frees frames twice (Wait), a program whose pages are not mapped is refused (Load), the number of a
  system call is not checked (Syscall), a backspace in the first cell faults, and setting the cursor prints a number (Console).

  \<^bold>\<open>Not modelled.\<close> The boot sectors and the other assembly (\<^verbatim>\<open>switch.s\<close> is \<open>switch_to\<close>, the handler of
  \<^verbatim>\<open>kernel.s\<close> is \<open>syscall_handler\<close>, and \<^verbatim>\<open>print.s\<close> is in Console); \<^verbatim>\<open>init_all\<close> as one run of all the initialisers, which
  are modelled one by one on the states of their parts; the two programs in \<^verbatim>\<open>command/\<close>. Messages printed by a function
  are left out of its model, unless the text is its result; what the file system and the shell print is a list of texts. The TLB is not modelled: \<^verbatim>\<open>invlpg\<close> has no effect on \<open>vtrans\<close>.
  Only \<^verbatim>\<open>thread_exit\<close>, which reads a PCB after its page is unmapped, asks whether the processor still has the old
  translation (\<open>tlb_keeps\<close>); where it has not, the read is a fault. Simplifications: \<open>switch_to\<close> leaves out the four registers on
  the thread's own stack; the controller of the disks moves all the sectors of a command at once and its status does not
  change; the three bitmaps of the memory are arrays of their own; the handler of the keyboard does not print its message for
  an unknown key; standard input is the list of the bytes that are in the keyboard's ring, and a read that finds it empty is
  \<open>Would_Block\<close>, without the state it would go on from.
\<close>

end
